(* ===== verification/BusPrelude.thy ===== *)
theory BusPrelude
  imports Complex_Main "HOL-Library.Char_ord" "HOL-Library.List_Lexorder" "HOL-Library.Sublist"
begin

text \<open>
  Shared ground of the development: the collections the component proofs draw on, the few SQL
  result-set operations the statements of the program use (\<open>LIMIT\<close>, \<open>MIN\<close>, \<open>MAX\<close>,
  \<open>ORDER BY\<close>), the string operations of JavaScript that the code calls, and lemmas on lists
  that more than one component needs. A table is a list of rows in insertion (rowid) order; a
  statement is a function on that list.
\<close>

named_theorems bus_ops "definitions of the operations, for unfolding in the component proofs"
named_theorems bus_frame "which tables an operation leaves alone"
named_theorems wf_intros "every operation keeps the well-formedness invariant"

section \<open>Result sets\<close>

text \<open>SQLite reads a negative \<open>LIMIT\<close> as no limit.\<close>

definition sql_limit :: "int \<Rightarrow> 'a list \<Rightarrow> 'a list" where
  "sql_limit n xs = (if n < 0 then xs else take (nat n) xs)"

text \<open>\<open>MIN\<close> and \<open>MAX\<close> over an empty set are \<open>NULL\<close>.\<close>

fun list_min :: "'a::linorder list \<Rightarrow> 'a option" where
  "list_min [] = None"
| "list_min (x # xs) = (case list_min xs of None \<Rightarrow> Some x | Some m \<Rightarrow> Some (min x m))"

fun list_max :: "'a::linorder list \<Rightarrow> 'a option" where
  "list_max [] = None"
| "list_max (x # xs) = (case list_max xs of None \<Rightarrow> Some x | Some m \<Rightarrow> Some (max x m))"

lemma list_min_None [simp]: "list_min xs = None \<longleftrightarrow> xs = []"
  by (cases xs) (auto split: option.splits)

lemma list_max_None [simp]: "list_max xs = None \<longleftrightarrow> xs = []"
  by (cases xs) (auto split: option.splits)

lemma list_min_Some: "list_min xs = Some m \<Longrightarrow> m \<in> set xs \<and> (\<forall>x\<in>set xs. m \<le> x)"
  by (induction xs arbitrary: m) (force split: option.splits simp: min_def)+

lemma list_max_Some: "list_max xs = Some m \<Longrightarrow> m \<in> set xs \<and> (\<forall>x\<in>set xs. x \<le> m)"
  by (induction xs arbitrary: m) (force split: option.splits simp: max_def)+

lemma list_min_eqI: "m \<in> set xs \<Longrightarrow> \<forall>x\<in>set xs. m \<le> x \<Longrightarrow> list_min xs = Some m"
  by (cases "list_min xs") (auto dest!: list_min_Some intro: antisym)

lemma list_min_sorted: "sorted (x # xs) \<Longrightarrow> list_min (x # xs) = Some x"
  by (rule list_min_eqI) auto

lemma set_sql_limit: "x \<in> set (sql_limit n xs) \<Longrightarrow> x \<in> set xs"
  by (auto simp: sql_limit_def dest: in_set_takeD split: if_splits)

lemma sql_limit_Nil_iff: "n \<noteq> 0 \<Longrightarrow> sql_limit n xs = [] \<longleftrightarrow> xs = []"
  by (auto simp: sql_limit_def)

lemma length_sql_limit: "0 \<le> n \<Longrightarrow> int (length (sql_limit n xs)) \<le> n"
  by (auto simp: sql_limit_def)

lemma sql_limit_append: "\<exists>rest. xs = sql_limit n xs @ rest"
  by (auto simp: sql_limit_def intro: exI [of _ "drop (nat n) xs"])

section \<open>Lists\<close>

lemma sorted_wrt_mono_rel_set:
  "sorted_wrt P xs \<Longrightarrow> (\<And>x y. x \<in> set xs \<Longrightarrow> y \<in> set xs \<Longrightarrow> P x y \<Longrightarrow> Q x y) \<Longrightarrow> sorted_wrt Q xs"
  by (induction xs) auto

lemma sorted_strict_imp_distinct: "sorted_wrt (<) (xs :: 'a::linorder list) \<Longrightarrow> distinct xs"
  by (simp add: strict_sorted_iff)

lemma sort_key_strict:
  fixes f :: "'a \<Rightarrow> 'b::linorder"
  shows
  "sorted_wrt (<) (map f xs) \<Longrightarrow> sort_key f xs = xs"
  by (rule sort_key_id_if_sorted) (auto simp: strict_sorted_iff)

lemma map_filter_strict:
  "sorted_wrt (<) (map f xs) \<Longrightarrow> sorted_wrt (<) (map f (filter P xs))"
  by (induction xs) auto

lemma strict_map_take:
  "sorted_wrt (<) (map f xs) \<Longrightarrow> sorted_wrt (<) (map f (take n xs))"
  unfolding take_map [symmetric] by (rule sorted_wrt_take)

lemma strict_map_sql_limit:
  "sorted_wrt (<) (map f xs) \<Longrightarrow> sorted_wrt (<) (map f (sql_limit n xs))"
  by (auto simp: sql_limit_def intro: strict_map_take)

lemma strict_key_inj:
  fixes f :: "'a \<Rightarrow> 'b::linorder"
  assumes "sorted_wrt (<) (map f xs)" and "x \<in> set xs" and "y \<in> set xs" and "f x = f y"
  shows "x = y"
proof -
  from assms(1) have "distinct (map f xs)" by (rule sorted_strict_imp_distinct)
  then have "inj_on f (set xs)" by (simp add: distinct_map)
  with assms(2-4) show ?thesis by (auto dest: inj_onD)
qed

lemma find_key_eq:
  "distinct (map f xs) \<Longrightarrow> x \<in> set xs \<Longrightarrow> find (\<lambda>y. f y = f x) xs = Some x"
  by (induction xs) (auto simp: rev_image_eqI)

lemma find_Some_conv: "find P xs = Some x \<Longrightarrow> x \<in> set xs \<and> P x"
  by (induction xs) (auto split: if_splits)

lemma set_map_eq: "map f xs = map f ys \<Longrightarrow> f ` set xs = f ` set ys"
  by (metis list.set_map)

lemma map_key_fixed: "(\<And>x. f (g x) = f x) \<Longrightarrow> map f (map (\<lambda>x. if P x then g x else x) xs) = map f xs"
  by (induction xs) auto

lemma find_map_upd:
  assumes "\<And>x. f (g x) = f x"
  shows "find (\<lambda>y. f y = k) (map (\<lambda>x. if f x = k then g x else x) xs)
       = map_option g (find (\<lambda>y. f y = k) xs)"
  using assms by (induction xs) auto

lemma find_map_upd_other:
  assumes "\<And>x. f (g x) = f x" and "k \<noteq> k'"
  shows "find (\<lambda>y. f y = k') (map (\<lambda>x. if f x = k then g x else x) xs) = find (\<lambda>y. f y = k') xs"
  using assms by (induction xs) auto

lemma find_filter_neq: "k \<noteq> k' \<Longrightarrow> find (\<lambda>y. f y = k') (filter (\<lambda>x. f x \<noteq> k) xs) = find (\<lambda>y. f y = k') xs"
  by (induction xs) auto

lemma find_filter_self: "find (\<lambda>y. f y = k) (filter (\<lambda>x. f x \<noteq> k) xs) = None"
  by (auto simp: find_None_iff)

lemma case_option_ex: "(case x of Some y \<Rightarrow> P y | None \<Rightarrow> False) \<longleftrightarrow> (\<exists>y. x = Some y \<and> P y)"
  by (simp split: option.split)

lemma find_append: "find P (xs @ ys) = (case find P xs of None \<Rightarrow> find P ys | Some x \<Rightarrow> Some x)"
  by (induction xs) auto

section \<open>JavaScript strings\<close>

text \<open>
  A string is a list of characters, each a UTF-16 code unit below 256. \<open>indexOf(c)\<close> followed by
  the two \<open>slice\<close> calls is \<open>split_at_char\<close>; \<open>startsWith\<close> and \<open>endsWith\<close> are
  \<open>prefix\<close> and \<open>suffix\<close> of \<open>HOL-Library.Sublist\<close>.
\<close>

definition split_at_char :: "char \<Rightarrow> string \<Rightarrow> string \<times> string option" where
  "split_at_char c s =
     (takeWhile (\<lambda>x. x \<noteq> c) s,
      case dropWhile (\<lambda>x. x \<noteq> c) s of [] \<Rightarrow> None | _ # rest \<Rightarrow> Some rest)"

text \<open>\<open>slice(0, -n)\<close>.\<close>

definition drop_last :: "nat \<Rightarrow> string \<Rightarrow> string" where
  "drop_last n s = take (length s - n) s"

text \<open>\<open>split(d)\<close> for a one-character separator; never empty.\<close>

fun split_on :: "char \<Rightarrow> string \<Rightarrow> string list" where
  "split_on d [] = [[]]"
| "split_on d (c # cs) =
     (if c = d then [] # split_on d cs
      else (case split_on d cs of [] \<Rightarrow> [[c]] | w # ws \<Rightarrow> (c # w) # ws))"

definition is_digit :: "char \<Rightarrow> bool" where
  "is_digit c \<longleftrightarrow> CHR ''0'' \<le> c \<and> c \<le> CHR ''9''"

definition is_lower :: "char \<Rightarrow> bool" where
  "is_lower c \<longleftrightarrow> CHR ''a'' \<le> c \<and> c \<le> CHR ''z''"

definition is_upper :: "char \<Rightarrow> bool" where
  "is_upper c \<longleftrightarrow> CHR ''A'' \<le> c \<and> c \<le> CHR ''Z''"

definition digit_val :: "char \<Rightarrow> nat" where
  "digit_val c = of_char c - of_char (CHR ''0'')"

definition digits_val :: "string \<Rightarrow> nat" where
  "digits_val s = foldl (\<lambda>acc c. 10 * acc + digit_val c) 0 s"

text \<open>\<open>String(n)\<close> for an integer.\<close>

fun nat_str :: "nat \<Rightarrow> string" where
  "nat_str n =
     (if n < 10 then [char_of (n + of_char (CHR ''0''))]
      else nat_str (n div 10) @ [char_of (n mod 10 + of_char (CHR ''0''))])"

declare nat_str.simps [simp del]

definition int_str :: "int \<Rightarrow> string" where
  "int_str i = (if i < 0 then CHR ''-'' # nat_str (nat (- i)) else nat_str (nat i))"

definition is_space :: "char \<Rightarrow> bool" where
  "is_space c \<longleftrightarrow> c \<in> {CHR '' '', CHR 0x09, CHR 0x0A, CHR 0x0B, CHR 0x0C, CHR 0x0D, CHR 0xA0}"

definition js_trim :: "string \<Rightarrow> string" where
  "js_trim s = rev (dropWhile is_space (rev (dropWhile is_space s)))"

text \<open>\<open>parseInt(s, 10)\<close>; \<open>None\<close> is \<open>NaN\<close>.\<close>

definition parse_int :: "string \<Rightarrow> int option" where
  "parse_int s =
     (let t = dropWhile is_space s;
          neg = (case t of c # _ \<Rightarrow> c = CHR ''-'' | [] \<Rightarrow> False);
          u = (case t of c # r \<Rightarrow> if c = CHR ''-'' \<or> c = CHR ''+'' then r else t | [] \<Rightarrow> []);
          ds = takeWhile is_digit u
      in if ds = [] then None
         else Some (if neg then - int (digits_val ds) else int (digits_val ds)))"

text \<open>\<open>Buffer.byteLength(s, 'utf8')\<close> for code units below 256.\<close>

definition utf8_length :: "string \<Rightarrow> nat" where
  "utf8_length s = (\<Sum>c\<leftarrow>s. if of_char c < (128 :: nat) then 1 else 2)"

lemma utf8_length_ge: "length s \<le> utf8_length s"
  unfolding utf8_length_def by (induction s) auto

text \<open>\<open>Buffer.from(s, 'utf8')\<close>, byte by byte.\<close>

definition utf8_encode :: "string \<Rightarrow> string" where
  "utf8_encode s = concat (map (\<lambda>c. let n = of_char c :: nat in
     if n < 128 then [c] else [char_of (192 + n div 64), char_of (128 + n mod 64)]) s)"

lemma length_utf8_encode: "length (utf8_encode s) = utf8_length s"
  unfolding utf8_encode_def utf8_length_def by (induction s) (auto simp: Let_def)

lemma split_at_char_Some: "snd (split_at_char c s) = Some r \<Longrightarrow> s = fst (split_at_char c s) @ c # r"
proof (induction s)
  case Nil
  then show ?case by (simp add: split_at_char_def)
next
  case (Cons a s)
  then show ?case by (auto simp: split_at_char_def split: list.splits if_splits)
qed

section \<open>Numbers survive the round trip through a string\<close>

lemma digits_val_append: "digits_val (xs @ [c]) = 10 * digits_val xs + digit_val c"
  by (simp add: digits_val_def)

lemma nat_less_10: "(n::nat) < 10 \<Longrightarrow> n \<in> {0, 1, 2, 3, 4, 5, 6, 7, 8, 9}"
  by auto

lemma digit_char:
  assumes "(n::nat) < 10"
  shows "digit_val (char_of (n + of_char (CHR ''0''))) = n" and "is_digit (char_of (n + of_char (CHR ''0'')))"
    and "\<not> is_space (char_of (n + of_char (CHR ''0'')))"
    and "char_of (n + of_char (CHR ''0'')) \<noteq> CHR ''-''" and "char_of (n + of_char (CHR ''0'')) \<noteq> CHR ''+''"
proof -
  have o: "of_char (char_of (n + of_char (CHR ''0'')) :: char) = n + 48"
    using assms by (simp add: of_char_of)
  then show "digit_val (char_of (n + of_char (CHR ''0''))) = n" by (simp add: digit_val_def)
  show "is_digit (char_of (n + of_char (CHR ''0'')))"
    using assms by (auto simp: is_digit_def less_eq_char_def o)
  have neq: "char_of (n + of_char (CHR ''0'')) \<noteq> c" if "of_char c < (48::nat) \<or> 57 < (of_char c :: nat)" for c :: char
    using that o assms by auto
  show "\<not> is_space (char_of (n + of_char (CHR ''0'')))"
    unfolding is_space_def insert_iff empty_iff by (intro notI, elim disjE) (use neq in force)+
  show "char_of (n + of_char (CHR ''0'')) \<noteq> CHR ''-''" by (rule neq) simp
  show "char_of (n + of_char (CHR ''0'')) \<noteq> CHR ''+''" by (rule neq) simp
qed

lemma nat_str_val: "digits_val (nat_str n) = n"
proof (induction n rule: nat_str.induct)
  case (1 n)
  show ?case
  proof (cases "n < 10")
    case True
    then show ?thesis using digit_char(1) [of n] by (subst nat_str.simps) (simp add: digits_val_def)
  next
    case False
    then show ?thesis using 1 digit_char(1) [of "n mod 10"] by (subst nat_str.simps) (simp add: digits_val_append)
  qed
qed

lemma nat_str_shape:
  "nat_str n \<noteq> [] \<and> list_all is_digit (nat_str n) \<and> \<not> is_space (hd (nat_str n)) \<and>
   hd (nat_str n) \<noteq> CHR ''-'' \<and> hd (nat_str n) \<noteq> CHR ''+''"
proof (induction n rule: nat_str.induct)
  case (1 n)
  show ?case
  proof (cases "n < 10")
    case True
    then show ?thesis using digit_char [of n] by (subst (1 2 3 4 5) nat_str.simps) simp
  next
    case False
    have "n mod 10 < 10" by simp
    then show ?thesis using 1 [OF False] digit_char [of "n mod 10"] False
      by (subst (1 2 3 4 5) nat_str.simps) (simp add: hd_append)
  qed
qed

lemma takeWhile_all: "list_all P xs \<Longrightarrow> takeWhile P xs = xs"
  by (induction xs) auto

lemma dropWhile_hd: "xs \<noteq> [] \<Longrightarrow> \<not> P (hd xs) \<Longrightarrow> dropWhile P xs = xs"
  by (cases xs) simp_all

lemma js_trim_id: "s \<noteq> [] \<Longrightarrow> \<not> is_space (hd s) \<Longrightarrow> \<not> is_space (last s) \<Longrightarrow> js_trim s = s"
  by (simp add: js_trim_def dropWhile_hd hd_rev)

lemma parse_int_str: "parse_int (int_str i) = Some i"
proof (cases "i < 0")
  case True
  let ?s = "nat_str (nat (- i))"
  have "list_all is_digit ?s" and ne: "?s \<noteq> []" using nat_str_shape [of "nat (- i)"] by blast+
  then have s: "takeWhile is_digit ?s = ?s" by (intro takeWhile_all)
  have "\<not> is_space (CHR ''-'')" by (simp add: is_space_def)
  then show ?thesis using True by (simp add: parse_int_def int_str_def Let_def nat_str_val s ne)
next
  case False
  let ?s = "nat_str (nat i)"
  note sh = nat_str_shape [of "nat i"]
  from sh obtain c cs where c: "?s = c # cs" by (cases ?s) auto
  have s: "takeWhile is_digit ?s = ?s" using sh by (intro takeWhile_all) blast
  have "dropWhile is_space ?s = ?s" using sh c by simp
  have cs: "takeWhile is_digit cs = cs" using s sh by (simp add: c)
  have v: "int (digits_val (c # cs)) = i" using nat_str_val [of "nat i"] False by (simp add: c)
  show ?thesis using False sh by (simp add: parse_int_def int_str_def Let_def c cs v)
qed

end
