(* ===== verification/BusValues.thy ===== *)
theory BusValues
  imports BusPrelude
begin

text \<open>
  JavaScript values as the program's entry points receive them, and the error taxonomy of
  \<open>lib/errors.js\<close>. Numbers are the finite ones as rationals (doubles without their rounding)
  and the three non-finite ones; a function is only known to be one. A thrown error is a value: a \<open>WBError\<close> with its code and
  context (the human-readable \<open>message\<close> texts are left out), an error of the SQLite driver with
  its \<open>code\<close>, one of the operating system with its \<open>code\<close>, or a plain \<open>Error\<close>.
\<close>

section \<open>Values\<close>

datatype jsnum = Fin rat | NaN | PosInf | NegInf

datatype jsval =
    JUndef
  | JNull
  | JBool bool
  | JNum jsnum
  | JStr string
  | JArr "jsval list"
  | JObj "(string \<times> jsval) list"
  | JFun

abbreviation jint :: "int \<Rightarrow> jsval" where
  "jint i \<equiv> JNum (Fin (of_int i))"

fun truthy :: "jsval \<Rightarrow> bool" where
  "truthy JUndef = False"
| "truthy JNull = False"
| "truthy (JBool b) = b"
| "truthy (JNum (Fin q)) = (q \<noteq> 0)"
| "truthy (JNum NaN) = False"
| "truthy (JNum _) = True"
| "truthy (JStr s) = (s \<noteq> [])"
| "truthy (JArr _) = True"
| "truthy (JObj _) = True"
| "truthy JFun = True"

fun typeof :: "jsval \<Rightarrow> string" where
  "typeof JUndef = ''undefined''"
| "typeof JNull = ''object''"
| "typeof (JBool _) = ''boolean''"
| "typeof (JNum _) = ''number''"
| "typeof (JStr _) = ''string''"
| "typeof (JArr _) = ''object''"
| "typeof (JObj _) = ''object''"
| "typeof JFun = ''function''"

fun nullish :: "jsval \<Rightarrow> bool" where
  "nullish JUndef = True"
| "nullish JNull = True"
| "nullish _ = False"

text \<open>\<open>o[k]\<close> for a data property; a later duplicate key of an object literal wins.\<close>

fun jget :: "jsval \<Rightarrow> string \<Rightarrow> jsval" where
  "jget (JObj kvs) k = (case map_of (rev kvs) k of Some v \<Rightarrow> v | None \<Rightarrow> JUndef)"
| "jget _ k = JUndef"

fun has_own :: "jsval \<Rightarrow> string \<Rightarrow> bool" where
  "has_own (JObj kvs) k = (k \<in> set (map fst kvs))"
| "has_own _ k = False"

fun obj_keys :: "jsval \<Rightarrow> string list" where
  "obj_keys (JObj kvs) = remdups (map fst kvs)"
| "obj_keys (JArr xs) = map nat_str [0..<length xs]"
| "obj_keys (JStr s) = map nat_str [0..<length s]"
| "obj_keys _ = []"

definition num_is_finite :: "jsnum \<Rightarrow> bool" where
  "num_is_finite n = (case n of Fin _ \<Rightarrow> True | _ \<Rightarrow> False)"

text \<open>\<open>Number.isInteger\<close>.\<close>

fun is_integer :: "jsval \<Rightarrow> bool" where
  "is_integer (JNum (Fin q)) = (of_int \<lfloor>q\<rfloor> = q)"
| "is_integer _ = False"

lemma is_integer_jint [simp]: "is_integer (jint i)"
  by simp

section \<open>Arithmetic and conversions\<close>

text \<open>\<open>n * c\<close> for a positive factor, \<open>t + n\<close>, and the comparisons with \<open>NaN\<close>.\<close>

definition num_scale :: "rat \<Rightarrow> jsnum \<Rightarrow> jsnum" where
  "num_scale c n = (case n of Fin q \<Rightarrow> Fin (q * c) | _ \<Rightarrow> n)"

definition num_shift :: "rat \<Rightarrow> jsnum \<Rightarrow> jsnum" where
  "num_shift t n = (case n of Fin q \<Rightarrow> Fin (t + q) | _ \<Rightarrow> n)"

fun num_lt :: "jsnum \<Rightarrow> jsnum \<Rightarrow> bool" where
  "num_lt (Fin a) (Fin b) = (a < b)"
| "num_lt (Fin _) PosInf = True"
| "num_lt NegInf (Fin _) = True"
| "num_lt NegInf PosInf = True"
| "num_lt _ _ = False"

definition num_le :: "jsnum \<Rightarrow> jsnum \<Rightarrow> bool" where
  "num_le a b \<longleftrightarrow> num_lt a b \<or> (a = b \<and> a \<noteq> NaN)"

text \<open>
  What the runtime and the standard library compute on text: \<open>JSON.parse\<close> (\<open>None\<close>: it
  throws), \<open>JSON.stringify\<close>, \<open>String(v)\<close> for a value that is not a string, \<open>Number(v)\<close> for one
  that is neither a number nor a constant, the SHA-256 hex digest, and the rendering SQLite's
  column affinities give a bound value. Definitions that need one of them take it as an argument.
\<close>

datatype sqlval = SNull | SInt int | SReal rat | SText string

record host =
  h_parse :: "string \<Rightarrow> jsval option"
  h_stringify :: "jsval \<Rightarrow> string"
  h_string :: "jsval \<Rightarrow> string"
  h_number :: "jsval \<Rightarrow> jsnum"
  h_sha256 :: "string \<Rightarrow> string"
  h_sql_text :: "jsnum \<Rightarrow> string"
  h_sql_int :: "jsval \<Rightarrow> sqlval"

definition js_String :: "host \<Rightarrow> jsval \<Rightarrow> string" where
  "js_String h v = (case v of JStr s \<Rightarrow> s | _ \<Rightarrow> h_string h v)"

definition js_Number :: "host \<Rightarrow> jsval \<Rightarrow> jsnum" where
  "js_Number h v = (case v of JNum n \<Rightarrow> n | JUndef \<Rightarrow> NaN | JNull \<Rightarrow> Fin 0
     | JBool b \<Rightarrow> Fin (if b then 1 else 0) | JFun \<Rightarrow> NaN | _ \<Rightarrow> h_number h v)"

text \<open>\<open>===\<close>; two objects read at different places are never identical.\<close>

definition strict_eq :: "jsval \<Rightarrow> jsval \<Rightarrow> bool" where
  "strict_eq a b \<longleftrightarrow> a = b \<and> a \<noteq> JNum NaN \<and> typeof a \<noteq> ''function'' \<and>
     (a = JNull \<or> typeof a \<noteq> ''object'')"

section \<open>The error taxonomy (\<open>lib/errors.js\<close>)\<close>

datatype wb_code = WB001 | WB002 | WB003 | WB004 | WB005 | WB006 | WB007
  | WB008 | WB009 | WB010 | WB011 | WB012 | WB013 | WB014

fun ERROR_CODES :: "wb_code \<Rightarrow> string" where
  "ERROR_CODES WB001 = ''INVALID_EVENT_SCHEMA''"
| "ERROR_CODES WB002 = ''DUPLICATE_EVENT''"
| "ERROR_CODES WB003 = ''CURSOR_BEHIND_TTL_WINDOW''"
| "ERROR_CODES WB004 = ''DISK_FULL''"
| "ERROR_CODES WB005 = ''SCHEMA_VERSION_UNSUPPORTED''"
| "ERROR_CODES WB006 = ''CURSOR_NOT_FOUND''"
| "ERROR_CODES WB007 = ''LARGE_SCAN_REJECTED''"
| "ERROR_CODES WB008 = ''PAYLOAD_TOO_LARGE''"
| "ERROR_CODES WB009 = ''SCHEMA_MISMATCH''"
| "ERROR_CODES WB010 = ''CAS_GC_INCOMPLETE_BUCKET_SET''"
| "ERROR_CODES WB011 = ''UI_TOKEN_PERMISSION_MISMATCH''"
| "ERROR_CODES WB012 = ''LIVE_TIER_BLOAT_WARNING''"
| "ERROR_CODES WB013 = ''SPILL_BUCKET_UNAVAILABLE''"
| "ERROR_CODES WB014 = ''SUBSCRIBER_DB_UNUSABLE''"

fun EXIT_CODES :: "wb_code \<Rightarrow> nat" where
  "EXIT_CODES WB001 = 1"
| "EXIT_CODES WB002 = 2"
| "EXIT_CODES WB003 = 3"
| "EXIT_CODES WB004 = 4"
| "EXIT_CODES WB005 = 5"
| "EXIT_CODES WB006 = 6"
| "EXIT_CODES WB007 = 7"
| "EXIT_CODES WB008 = 8"
| "EXIT_CODES WB009 = 9"
| "EXIT_CODES WB010 = 10"
| "EXIT_CODES WB011 = 11"
| "EXIT_CODES WB012 = 12"
| "EXIT_CODES WB013 = 13"
| "EXIT_CODES WB014 = 14"

text \<open>The codes are ordered by their number, so that the library's order lemmas apply.\<close>

lemma EXIT_CODES_inj: "EXIT_CODES a = EXIT_CODES b \<Longrightarrow> a = b"
  by (cases a; cases b) simp_all

instantiation wb_code :: linorder
begin

definition less_eq_wb_code :: "wb_code \<Rightarrow> wb_code \<Rightarrow> bool" where
  "less_eq_wb_code a b \<longleftrightarrow> EXIT_CODES a \<le> EXIT_CODES b"

definition less_wb_code :: "wb_code \<Rightarrow> wb_code \<Rightarrow> bool" where
  "less_wb_code a b \<longleftrightarrow> EXIT_CODES a < EXIT_CODES b"

instance
  by standard (auto simp: less_eq_wb_code_def less_wb_code_def intro: EXIT_CODES_inj)

end

datatype js_error =
    WB (err_code: wb_code) (err_context: "(string \<times> jsval) list")
  | SqliteError string
  | SysError string
  | PlainError string

text \<open>\<open>err.context.k\<close>.\<close>

definition ctx_get :: "js_error \<Rightarrow> string \<Rightarrow> jsval" where
  "ctx_get e k = (case e of WB _ ctx \<Rightarrow> jget (JObj ctx) k | _ \<Rightarrow> JUndef)"

definition is_wb :: "wb_code \<Rightarrow> js_error \<Rightarrow> bool" where
  "is_wb c e = (case e of WB c' _ \<Rightarrow> c' = c | _ \<Rightarrow> False)"

type_synonym 'a res = "js_error + 'a"

abbreviation raise_wb :: "wb_code \<Rightarrow> (string \<times> jsval) list \<Rightarrow> 'a res" where
  "raise_wb c ctx \<equiv> Inl (WB c ctx)"

text \<open>The process exit status chosen by \<open>handleError\<close> of the CLI.\<close>

definition handle_error :: "js_error \<Rightarrow> nat" where
  "handle_error e = (case e of WB c _ \<Rightarrow> if EXIT_CODES c \<noteq> 0 then EXIT_CODES c else 1 | _ \<Rightarrow> 1)"

lemma handle_error_WB [simp]: "handle_error (WB c ctx) = EXIT_CODES c"
  by (cases c) (auto simp: handle_error_def)

end
