(* ===== verification/BusValidate.thy ===== *)
theory BusValidate
  imports BusValues
begin

text \<open>
  Event validation, \<open>lib/validate.js\<close>. The two regular expressions are the automata they
  denote; \<open>validate_event\<close> performs the checks of \<open>validateEvent\<close> in the source's order, with
  the WB-001 / WB-005 context it throws. \<open>JSON.parse\<close> and \<open>JSON.stringify\<close> are the arguments
  \<open>parse\<close> (\<open>None\<close>: it throws) and \<open>stringify\<close>. Proved: exactly which events are accepted, which
  error codes can come out, and that an accepted event meets the column constraints of the
  \<open>events\<close> table.
\<close>

section \<open>The two patterns\<close>

definition seg_char :: "char \<Rightarrow> bool" where
  "seg_char c \<longleftrightarrow> is_lower c \<or> is_digit c \<or> c = CHR ''_''"

text \<open>\<open>[a-z0-9_]+(\.[a-z0-9_]+)*$\<close>; the flag says whether the current segment has a character.\<close>

fun seg_tail :: "bool \<Rightarrow> string \<Rightarrow> bool" where
  "seg_tail nonempty [] = nonempty"
| "seg_tail nonempty (c # cs) =
     (if seg_char c then seg_tail True cs
      else c = CHR ''.'' \<and> nonempty \<and> seg_tail False cs)"

definition EVENT_TYPE_REGEX :: "string \<Rightarrow> bool" where
  "EVENT_TYPE_REGEX s \<longleftrightarrow> prefix ''wicked.'' s \<and> seg_tail False (drop 7 s)"

text \<open>\<open>^\d+\.\d+\.\d+$\<close>.\<close>

definition SEMVER_REGEX :: "string \<Rightarrow> bool" where
  "SEMVER_REGEX s = (case split_on (CHR ''.'') s of
      [a, b, c] \<Rightarrow> list_all (\<lambda>w. w \<noteq> [] \<and> list_all is_digit w) [a, b, c]
    | _ \<Rightarrow> False)"

definition semver_major :: "string \<Rightarrow> nat" where
  "semver_major s = digits_val (takeWhile is_digit (hd (split_on (CHR ''.'') s)))"

section \<open>validateEvent\<close>

definition str_arr :: "string list \<Rightarrow> jsval" where
  "str_arr xs = JArr (map JStr xs)"

definition bad_event :: "jsval \<Rightarrow> string \<Rightarrow> 'a res" where
  "bad_event event violation =
     raise_wb WB001 [(''received_fields'', str_arr (obj_keys event)), (''violation'', JStr violation)]"

definition missing_fields :: "jsval \<Rightarrow> string list" where
  "missing_fields event =
     (if \<not> truthy (jget event ''event_type'') then [''event_type''] else []) @
     (if \<not> truthy (jget event ''domain'') then [''domain''] else []) @
     (if nullish (jget event ''payload'') then [''payload''] else [])"

fun str_of :: "jsval \<Rightarrow> string option" where
  "str_of (JStr s) = Some s"
| "str_of _ = None"

definition payload_is_object :: "(string \<Rightarrow> jsval option) \<Rightarrow> jsval \<Rightarrow> bool" where
  "payload_is_object parse p =
     (case p of
        JObj _ \<Rightarrow> True
      | JStr s \<Rightarrow> (case parse s of Some (JObj _) \<Rightarrow> True | _ \<Rightarrow> False)
      | _ \<Rightarrow> False)"

definition payload_text :: "(jsval \<Rightarrow> string) \<Rightarrow> jsval \<Rightarrow> string" where
  "payload_text stringify p = (case p of JStr s \<Rightarrow> s | _ \<Rightarrow> stringify p)"

definition check_event_type :: "jsval \<Rightarrow> unit res" where
  "check_event_type event =
     (case jget event ''event_type'' of
        JStr t \<Rightarrow>
          (if length t > 128 then bad_event event ''event_type exceeds 128 chars''
           else if \<not> EVENT_TYPE_REGEX t then bad_event event ''event_type must match the pattern''
           else Inr ())
      | _ \<Rightarrow> bad_event event ''event_type must be a string'')"

definition check_domain :: "jsval \<Rightarrow> unit res" where
  "check_domain event =
     (case jget event ''domain'' of
        JStr d \<Rightarrow> if length d > 64 then bad_event event ''domain exceeds 64 chars'' else Inr ()
      | _ \<Rightarrow> bad_event event ''domain must be a string'')"

definition check_subdomain :: "jsval \<Rightarrow> unit res" where
  "check_subdomain event =
     (let sd = jget event ''subdomain'' in
      if nullish sd then Inr ()
      else (case sd of
              JStr d \<Rightarrow> if length d > 64 then bad_event event ''subdomain exceeds 64 chars'' else Inr ()
            | _ \<Rightarrow> bad_event event ''subdomain must be a string''))"

definition check_payload ::
  "(string \<Rightarrow> jsval option) \<Rightarrow> (jsval \<Rightarrow> string) \<Rightarrow> rat \<Rightarrow> jsval \<Rightarrow> unit res" where
  "check_payload parse stringify max_payload_bytes event =
     (let p = jget event ''payload'' in
      if \<not> payload_is_object parse p then bad_event event ''payload must be a valid JSON object''
      else if of_nat (utf8_length (payload_text stringify p)) > max_payload_bytes
      then bad_event event ''payload exceeds max_payload_bytes''
      else Inr ())"

definition check_schema_version :: "jsval \<Rightarrow> unit res" where
  "check_schema_version event =
     (let sv = jget event ''schema_version'' in
      if nullish sv then Inr ()
      else (case sv of
              JStr v \<Rightarrow>
                (if \<not> SEMVER_REGEX v then bad_event event ''invalid schema_version format''
                 else if semver_major v > 1
                 then raise_wb WB005 [(''declared'', JStr v), (''max_supported'', JStr ''1.x'')]
                 else Inr ())
            | _ \<Rightarrow> bad_event event ''invalid schema_version format''))"

text \<open>The checks run in order and the first failing one is thrown.\<close>

fun first_failure :: "(unit res) list \<Rightarrow> unit res" where
  "first_failure [] = Inr ()"
| "first_failure (r # rs) = (case r of Inl e \<Rightarrow> Inl e | Inr _ \<Rightarrow> first_failure rs)"

definition validate_event ::
  "(string \<Rightarrow> jsval option) \<Rightarrow> (jsval \<Rightarrow> string) \<Rightarrow> rat \<Rightarrow> jsval \<Rightarrow> unit res" where
  "validate_event parse stringify max_payload_bytes event =
     (if \<not> truthy event \<or> typeof event \<noteq> ''object'' then
        raise_wb WB001 [(''received_fields'', JArr []),
          (''missing_fields'', str_arr [''event_type'', ''domain'', ''payload''])]
      else if missing_fields event \<noteq> [] then
        raise_wb WB001 [(''received_fields'', str_arr (obj_keys event)),
          (''missing_fields'', str_arr (missing_fields event))]
      else first_failure
        [check_event_type event, check_domain event, check_subdomain event,
         check_payload parse stringify max_payload_bytes event, check_schema_version event])"

section \<open>What is accepted\<close>

lemma first_failure_Inr: "first_failure rs = Inr () \<longleftrightarrow> (\<forall>r\<in>set rs. r = Inr ())"
  by (induction rs) (auto split: sum.splits)

lemma first_failure_Inl: "first_failure rs = Inl e \<Longrightarrow> Inl e \<in> set rs"
  by (induction rs) (auto split: sum.splits)

declare first_failure.simps [simp del]

lemmas check_defs = check_event_type_def check_domain_def check_subdomain_def check_payload_def
  check_schema_version_def bad_event_def

definition acceptable ::
  "(string \<Rightarrow> jsval option) \<Rightarrow> (jsval \<Rightarrow> string) \<Rightarrow> rat \<Rightarrow> jsval \<Rightarrow> bool" where
  "acceptable parse stringify max_payload_bytes event \<longleftrightarrow>
     (\<exists>t d. jget event ''event_type'' = JStr t \<and> length t \<le> 128 \<and> EVENT_TYPE_REGEX t \<and>
            jget event ''domain'' = JStr d \<and> d \<noteq> [] \<and> length d \<le> 64) \<and>
     (nullish (jget event ''subdomain'') \<or>
        (\<exists>s. jget event ''subdomain'' = JStr s \<and> length s \<le> 64)) \<and>
     payload_is_object parse (jget event ''payload'') \<and>
     of_nat (utf8_length (payload_text stringify (jget event ''payload''))) \<le> max_payload_bytes \<and>
     (nullish (jget event ''schema_version'') \<or>
        (\<exists>v. jget event ''schema_version'' = JStr v \<and> SEMVER_REGEX v \<and> semver_major v \<le> 1))"

lemma check_event_type_Inr:
  "check_event_type event = Inr () \<longleftrightarrow>
     (\<exists>t. jget event ''event_type'' = JStr t \<and> length t \<le> 128 \<and> EVENT_TYPE_REGEX t)"
  by (cases "jget event ''event_type''") (auto simp: check_defs)

lemma check_domain_Inr:
  "check_domain event = Inr () \<longleftrightarrow> (\<exists>d. jget event ''domain'' = JStr d \<and> length d \<le> 64)"
  by (cases "jget event ''domain''") (auto simp: check_defs)

lemma check_subdomain_Inr:
  "check_subdomain event = Inr () \<longleftrightarrow> nullish (jget event ''subdomain'') \<or>
     (\<exists>s. jget event ''subdomain'' = JStr s \<and> length s \<le> 64)"
  by (cases "jget event ''subdomain''") (auto simp: check_defs)

lemma check_payload_Inr:
  "check_payload parse stringify m event = Inr () \<longleftrightarrow>
     payload_is_object parse (jget event ''payload'') \<and>
     of_nat (utf8_length (payload_text stringify (jget event ''payload''))) \<le> m"
  by (auto simp: check_defs Let_def)

lemma check_schema_version_Inr:
  "check_schema_version event = Inr () \<longleftrightarrow> nullish (jget event ''schema_version'') \<or>
     (\<exists>v. jget event ''schema_version'' = JStr v \<and> SEMVER_REGEX v \<and> semver_major v \<le> 1)"
  by (cases "jget event ''schema_version''") (auto simp: check_defs)

lemmas checks_Inr = check_event_type_Inr check_domain_Inr check_subdomain_Inr check_payload_Inr
  check_schema_version_Inr

lemma EVENT_TYPE_REGEX_nonempty: "EVENT_TYPE_REGEX t \<Longrightarrow> t \<noteq> []"
  by (auto simp: EVENT_TYPE_REGEX_def)

lemma jget_not_undef: "jget event k \<noteq> JUndef \<Longrightarrow> truthy event \<and> typeof event = ''object''"
  by (cases event) auto

lemma nullish_not_payload_object: "payload_is_object parse p \<Longrightarrow> \<not> nullish p"
  by (cases p) (auto simp: payload_is_object_def)

lemma validate_event_Inr:
  "validate_event parse stringify m event = Inr () \<longleftrightarrow> acceptable parse stringify m event"
proof
  assume "validate_event parse stringify m event = Inr ()"
  then have nonempty: "missing_fields event = []"
    and checks: "first_failure [check_event_type event, check_domain event, check_subdomain event,
         check_payload parse stringify m event, check_schema_version event] = Inr ()"
    by (auto simp: validate_event_def split: if_splits)
  from nonempty have "truthy (jget event ''domain'')"
    by (auto simp: missing_fields_def split: if_splits)
  moreover have "\<forall>r\<in>set [check_event_type event, check_domain event, check_subdomain event,
         check_payload parse stringify m event, check_schema_version event]. r = Inr ()"
    using checks by (simp only: first_failure_Inr)
  ultimately show "acceptable parse stringify m event"
    by (auto simp: acceptable_def checks_Inr)
next
  assume a: "acceptable parse stringify m event"
  then have "truthy event" and "typeof event = ''object''"
    using jget_not_undef [of event "''domain''"] by (auto simp: acceptable_def)
  moreover have "missing_fields event = []"
    using a by (auto simp: acceptable_def missing_fields_def
        dest: EVENT_TYPE_REGEX_nonempty nullish_not_payload_object)
  moreover have "\<forall>r\<in>set [check_event_type event, check_domain event, check_subdomain event,
         check_payload parse stringify m event, check_schema_version event]. r = Inr ()"
    using a by (simp add: checks_Inr acceptable_def) blast
  ultimately show "validate_event parse stringify m event = Inr ()"
    by (simp only: validate_event_def first_failure_Inr if_False if_True simp_thms)
qed

definition code_in :: "wb_code list \<Rightarrow> js_error \<Rightarrow> bool" where
  "code_in cs e = (case e of WB c _ \<Rightarrow> c \<in> set cs | _ \<Rightarrow> False)"

lemma checks_Inl:
  "check_event_type event = Inl e \<Longrightarrow> code_in [WB001] e"
  "check_domain event = Inl e \<Longrightarrow> code_in [WB001] e"
  "check_subdomain event = Inl e \<Longrightarrow> code_in [WB001] e"
  "check_payload parse stringify m event = Inl e \<Longrightarrow> code_in [WB001] e"
  "check_schema_version event = Inl e \<Longrightarrow> code_in [WB001, WB005] e"
  by (auto simp: check_defs Let_def code_in_def split: jsval.splits if_splits)

lemma code_in_mono: "code_in [c] e \<Longrightarrow> code_in [c, d] e"
  by (auto simp: code_in_def split: js_error.splits)

lemma validate_event_Inl:
  assumes "validate_event parse stringify m event = Inl e"
  shows "code_in [WB001, WB005] e"
proof (cases "(\<not> truthy event \<or> typeof event \<noteq> ''object'') \<or> missing_fields event \<noteq> []")
  case True
  with assms show ?thesis by (auto simp: validate_event_def code_in_def split: if_splits)
next
  case False
  with assms have "Inl e \<in> set [check_event_type event, check_domain event, check_subdomain event,
         check_payload parse stringify m event, check_schema_version event]"
    by (intro first_failure_Inl) (simp add: validate_event_def)
  then have "check_event_type event = Inl e \<or> check_domain event = Inl e \<or>
      check_subdomain event = Inl e \<or> check_payload parse stringify m event = Inl e \<or>
      check_schema_version event = Inl e"
    by auto
  then show ?thesis
    by (elim disjE) (blast dest: checks_Inl code_in_mono)+
qed

text \<open>Characters of an accepted event type: no upper-case letter, no wildcard, no \<open>@\<close>.\<close>

lemma seg_tail_chars: "seg_tail b s \<Longrightarrow> c \<in> set s \<Longrightarrow> seg_char c \<or> c = CHR ''.''"
  by (induction b s rule: seg_tail.induct) (auto split: if_splits)

lemma EVENT_TYPE_chars:
  assumes "EVENT_TYPE_REGEX t" and "c \<in> set t"
  shows "seg_char c \<or> c = CHR ''.''"
proof -
  from assms(1) obtain r where t: "t = ''wicked.'' @ r" and r: "seg_tail False r"
    by (auto simp: EVENT_TYPE_REGEX_def prefix_def)
  show ?thesis
  proof (cases "c \<in> set r")
    case True
    with r show ?thesis by (rule seg_tail_chars)
  next
    case False
    with assms(2) t have "c \<in> set ''wicked.''" by simp
    then show ?thesis by (auto simp: seg_char_def is_lower_def less_eq_char_def)
  qed
qed

lemma seg_tail_no_empty:
  "seg_tail b (xs @ CHR ''.'' # ys) \<Longrightarrow> ys \<noteq> []"
proof (induction b xs rule: seg_tail.induct)
  case (1 b)
  then show ?case
    by (auto simp: seg_char_def is_lower_def is_digit_def less_eq_char_def split: if_splits)
qed (auto split: if_splits)

lemma EVENT_TYPE_no_trailing_dot:
  assumes "EVENT_TYPE_REGEX (xs @ CHR ''.'' # ys)"
  shows "ys \<noteq> []"
proof
  assume "ys = []"
  with assms have p: "prefix ''wicked.'' (xs @ ''.'')" and s: "seg_tail False (drop 7 (xs @ ''.''))"
    by (auto simp: EVENT_TYPE_REGEX_def)
  from p obtain r where r: "xs @ ''.'' = ''wicked.'' @ r" by (auto simp: prefix_def)
  show False
  proof (cases "r = []")
    case True
    with s r show False by simp
  next
    case False
    then obtain r' where "r = r' @ ''.''"
      using r by (metis append_butlast_last_id append_is_Nil_conv butlast_append last_appendR
          last_snoc)
    with s r have "seg_tail False (r' @ CHR ''.'' # [])" by simp
    then show False by (auto dest: seg_tail_no_empty)
  qed
qed

section \<open>Properties\<close>

text \<open>\<open>validateEvent\<close> accepts exactly the events whose type is a string of at most 128 characters
  matching the pattern, whose domain is a non-empty string of at most 64, whose subdomain and schema
  version are absent or well formed, and whose payload is an object within the size limit. Every
  other input is refused, with WB-001 or, for an unsupported major version, WB-005.\<close>

theorem validate_accepts_exactly:
  "case validate_event parse stringify m event of
     Inr _ \<Rightarrow> acceptable parse stringify m event
   | Inl e \<Rightarrow> \<not> acceptable parse stringify m event \<and> code_in [WB001, WB005] e"
proof (cases "validate_event parse stringify m event")
  case (Inl e)
  with validate_event_Inr [of parse stringify m event] validate_event_Inl [OF Inl] show ?thesis by simp
next
  case (Inr u)
  with validate_event_Inr [of parse stringify m event] show ?thesis by simp
qed

end
