(* ===== verification/BusFilter.thy ===== *)
theory BusFilter
  imports BusValidate
begin

text \<open>
  Subscription filters, \<open>lib/poll.js\<close>: \<open>matchesFilter\<close> decides in JavaScript,
  \<open>buildFilterSql\<close> compiles the same filter to SQL conditions that \<open>poll()\<close> and the sweep hand
  to SQLite. The \<open>LIKE\<close> operator is the SQL language's as SQLite documents it: \<open>%\<close>, \<open>_\<close>, the
  \<open>ESCAPE '\'\<close> clause, and ASCII letters compared without case. Proved: on valid event types
  the two agree for every filter whose type pattern has no upper-case letter; with one they can
  differ.
\<close>

section \<open>matchesFilter\<close>

definition parse_filter :: "string \<Rightarrow> string \<times> string option" where
  "parse_filter f = split_at_char (CHR ''@'') f"

text \<open>\<open>startsWith(prefix + '.')\<close> and then \<open>slice(prefix.length + 1)\<close>.\<close>

definition after_prefix :: "string \<Rightarrow> string \<Rightarrow> string option" where
  "after_prefix p t = (if prefix (p @ ''.'') t then Some (drop (length p + 1) t) else None)"

definition domain_excluded :: "string option \<Rightarrow> string \<Rightarrow> bool" where
  "domain_excluded df dm = (case df of None \<Rightarrow> False | Some d \<Rightarrow> d \<noteq> [] \<and> dm \<noteq> d)"

definition matches_filter :: "string \<Rightarrow> string \<Rightarrow> string \<Rightarrow> bool" where
  "matches_filter event_type dm f =
     (let (tp, df) = parse_filter f in
      if domain_excluded df dm then False
      else if tp = ''*'' then True
      else if tp = event_type then True
      else if suffix ''.**'' tp then
        (case after_prefix (drop_last 3 tp) event_type of Some r \<Rightarrow> length r > 0 | None \<Rightarrow> False)
      else if suffix ''.*'' tp then
        (case after_prefix (drop_last 2 tp) event_type of
           Some r \<Rightarrow> length r > 0 \<and> CHR ''.'' \<notin> set r | None \<Rightarrow> False)
      else False)"

section \<open>buildFilterSql\<close>

definition escape_like :: "string \<Rightarrow> string" where
  "escape_like s = concat (map (\<lambda>c. if c \<in> {CHR 0x5C, CHR ''%'', CHR ''_''} then [CHR 0x5C, c] else [c]) s)"

text \<open>A condition of the \<open>WHERE\<close> clause together with the parameter bound to it.\<close>

datatype sql_cond =
    DomainEq string
  | TypeLike string
  | TypeNotLike string
  | TypeEq string

definition build_filter_sql :: "string \<Rightarrow> sql_cond list" where
  "build_filter_sql f =
     (let (tp, df) = parse_filter f in
      (case df of Some d \<Rightarrow> if d \<noteq> [] then [DomainEq d] else [] | None \<Rightarrow> []) @
      (if tp = ''*'' then []
       else if suffix ''.**'' tp then [TypeLike (escape_like (drop_last 3 tp) @ ''.%'')]
       else if suffix ''.*'' tp then
         [TypeLike (escape_like (drop_last 2 tp) @ ''.%''),
          TypeNotLike (escape_like (drop_last 2 tp) @ ''.%.%'')]
       else [TypeEq tp]))"

text \<open>\<open>LIKE ... ESCAPE '\'\<close>: pattern first, then the text.\<close>

definition like_fold :: "char \<Rightarrow> char" where
  "like_fold c = (if is_upper c then char_of (of_char c + (32 :: nat)) else c)"

fun sql_like :: "string \<Rightarrow> string \<Rightarrow> bool" where
  "sql_like [] s = (s = [])"
| "sql_like (c # p) s =
     (if c = CHR ''%'' then
        sql_like p s \<or> (case s of [] \<Rightarrow> False | _ # s' \<Rightarrow> sql_like (c # p) s')
      else if c = CHR ''_'' then (case s of [] \<Rightarrow> False | _ # s' \<Rightarrow> sql_like p s')
      else if c = CHR 0x5C then
        (case p of [] \<Rightarrow> False
         | d # p' \<Rightarrow> (case s of [] \<Rightarrow> False | x # s' \<Rightarrow> like_fold d = like_fold x \<and> sql_like p' s'))
      else (case s of [] \<Rightarrow> False | x # s' \<Rightarrow> like_fold c = like_fold x \<and> sql_like p s'))"

fun eval_cond :: "string \<Rightarrow> string \<Rightarrow> sql_cond \<Rightarrow> bool" where
  "eval_cond event_type dm (DomainEq d) = (dm = d)"
| "eval_cond event_type dm (TypeLike p) = sql_like p event_type"
| "eval_cond event_type dm (TypeNotLike p) = (\<not> sql_like p event_type)"
| "eval_cond event_type dm (TypeEq t) = (event_type = t)"

definition sql_matches :: "string \<Rightarrow> string \<Rightarrow> string \<Rightarrow> bool" where
  "sql_matches event_type dm f = list_all (eval_cond event_type dm) (build_filter_sql f)"

section \<open>LIKE on escaped prefixes\<close>

declare sql_like.simps(2) [simp del]

lemma like_percent: "sql_like (CHR ''%'' # p) s \<longleftrightarrow> (\<exists>u v. s = u @ v \<and> sql_like p v)"
proof (induction s)
  case Nil
  then show ?case by (simp add: sql_like.simps(2))
next
  case (Cons x s)
  have "sql_like (CHR ''%'' # p) (x # s) \<longleftrightarrow> sql_like p (x # s) \<or> sql_like (CHR ''%'' # p) s"
    by (simp add: sql_like.simps(2))
  also have "\<dots> \<longleftrightarrow> (\<exists>u v. x # s = u @ v \<and> sql_like p v)"
    unfolding Cons.IH by (auto simp: Cons_eq_append_conv)
  finally show ?case .
qed

lemma like_dot: "sql_like (CHR ''.'' # p) s \<longleftrightarrow> (\<exists>v. s = CHR ''.'' # v \<and> sql_like p v)"
proof -
  have dot: "\<not> is_upper (CHR ''.'')" by (simp add: is_upper_def less_eq_char_def)
  have "like_fold x \<noteq> CHR ''.''" if "is_upper x" for x
  proof
    assume "like_fold x = CHR ''.''"
    then have "of_char (like_fold x) = (of_char (CHR ''.'') :: nat)" by simp
    with that show False by (auto simp: is_upper_def less_eq_char_def like_fold_def)
  qed
  then have "like_fold x = CHR ''.'' \<longleftrightarrow> x = CHR ''.''" for x
    using dot by (cases "is_upper x") (auto simp: like_fold_def)
  moreover have "like_fold (CHR ''.'') = CHR ''.''" using dot by (simp add: like_fold_def)
  ultimately show ?thesis by (cases s) (auto simp: sql_like.simps(2) eq_commute)
qed

lemma escape_like_Cons:
  "escape_like (c # s) = (if c \<in> {CHR 0x5C, CHR ''%'', CHR ''_''} then [CHR 0x5C, c] else [c]) @ escape_like s"
  by (simp add: escape_like_def)

lemma like_escaped_Cons:
  "sql_like (escape_like (c # p) @ q) s \<longleftrightarrow>
     (\<exists>x s'. s = x # s' \<and> like_fold x = like_fold c \<and> sql_like (escape_like p @ q) s')"
  by (cases s) (auto simp: escape_like_Cons sql_like.simps(2))

lemma like_escape:
  "sql_like (escape_like p @ q) s \<longleftrightarrow>
     (\<exists>u v. s = u @ v \<and> map like_fold u = map like_fold p \<and> sql_like q v)"
proof (induction p arbitrary: s)
  case Nil
  then show ?case by (simp add: escape_like_def)
next
  case (Cons c p)
  show ?case
    unfolding like_escaped_Cons Cons.IH
    by (auto simp: map_eq_Cons_conv Cons_eq_append_conv) blast+
qed

lemma like_multi:
  "sql_like (escape_like p @ ''.%'') s \<longleftrightarrow>
     (\<exists>u v. s = u @ CHR ''.'' # v \<and> map like_fold u = map like_fold p)"
proof -
  have "sql_like ''.%'' s' \<longleftrightarrow> (\<exists>v. s' = CHR ''.'' # v)" for s'
    by (auto simp: like_dot like_percent)
  then show ?thesis by (auto simp: like_escape)
qed

lemma like_two_dots:
  "sql_like (escape_like p @ ''.%.%'') s \<longleftrightarrow>
     (\<exists>u v. s = u @ CHR ''.'' # v \<and> CHR ''.'' \<in> set v \<and> map like_fold u = map like_fold p)"
proof -
  have "sql_like ''.%.%'' s' \<longleftrightarrow> (\<exists>v. s' = CHR ''.'' # v \<and> CHR ''.'' \<in> set v)" for s'
    by (auto simp: like_dot like_percent in_set_conv_decomp)
  then show ?thesis by (auto simp: like_escape)
qed

section \<open>The two matchers agree\<close>

definition no_upper :: "string \<Rightarrow> bool" where
  "no_upper s \<longleftrightarrow> list_all (\<lambda>c. \<not> is_upper c) s"

lemma map_like_fold_id: "no_upper s \<Longrightarrow> map like_fold s = s"
  by (induction s) (auto simp: no_upper_def like_fold_def)

lemma no_upper_append [simp]: "no_upper (xs @ ys) \<longleftrightarrow> no_upper xs \<and> no_upper ys"
  by (simp add: no_upper_def)

lemma no_upper_drop_last: "no_upper s \<Longrightarrow> no_upper (drop_last n s)"
  by (auto simp: no_upper_def drop_last_def list_all_iff dest: in_set_takeD)

lemma seg_char_props: "seg_char c \<Longrightarrow> \<not> is_upper c \<and> c \<noteq> CHR ''*'' \<and> c \<noteq> CHR ''@'' \<and> c \<noteq> CHR ''.''"
  by (auto simp: seg_char_def is_lower_def is_digit_def is_upper_def less_eq_char_def)

lemma event_type_no_upper: "EVENT_TYPE_REGEX t \<Longrightarrow> no_upper t"
  unfolding no_upper_def list_all_iff
  by (auto dest!: EVENT_TYPE_chars seg_char_props simp: is_upper_def less_eq_char_def)

lemma event_type_no_star: "EVENT_TYPE_REGEX t \<Longrightarrow> CHR ''*'' \<notin> set t"
  by (auto dest!: EVENT_TYPE_chars seg_char_props)

lemma after_prefix_Some: "after_prefix p t = Some r \<longleftrightarrow> t = p @ CHR ''.'' # r"
  by (auto simp: after_prefix_def prefix_def)

text \<open>The text a \<open>LIKE\<close> prefix stands for, on an event type without upper-case letters.\<close>

lemma fold_prefix_conv:
  assumes "no_upper (u @ CHR ''.'' # v)" and "no_upper p"
  shows "map like_fold u = map like_fold p \<longleftrightarrow> u = p"
  using assms by (simp add: map_like_fold_id)

lemma after_prefix_None: "after_prefix p t = None \<longleftrightarrow> (\<forall>r. t \<noteq> p @ CHR ''.'' # r)"
  by (metis after_prefix_Some option.exhaust option.simps(3))

lemma sql_multi_level:
  assumes t: "EVENT_TYPE_REGEX t" and p: "no_upper p"
  shows "sql_like (escape_like p @ ''.%'') t \<longleftrightarrow>
    (case after_prefix p t of Some r \<Rightarrow> length r > 0 | None \<Rightarrow> False)"
proof -
  have "sql_like (escape_like p @ ''.%'') t \<longleftrightarrow> (\<exists>v. t = p @ CHR ''.'' # v)"
    using event_type_no_upper [OF t] p by (auto simp: like_multi fold_prefix_conv)
  also have "\<dots> \<longleftrightarrow> (case after_prefix p t of Some r \<Rightarrow> length r > 0 | None \<Rightarrow> False)"
    using t by (auto simp: after_prefix_Some after_prefix_None dest: EVENT_TYPE_no_trailing_dot
        split: option.splits)
  finally show ?thesis .
qed

lemma sql_single_level:
  assumes t: "EVENT_TYPE_REGEX t" and p: "no_upper p"
  shows "sql_like (escape_like p @ ''.%'') t \<and> \<not> sql_like (escape_like p @ ''.%.%'') t \<longleftrightarrow>
    (case after_prefix p t of Some r \<Rightarrow> length r > 0 \<and> CHR ''.'' \<notin> set r | None \<Rightarrow> False)"
proof -
  have "sql_like (escape_like p @ ''.%.%'') t \<longleftrightarrow> (\<exists>v. t = p @ CHR ''.'' # v \<and> CHR ''.'' \<in> set v)"
    using event_type_no_upper [OF t] p by (auto simp: like_two_dots fold_prefix_conv)
  then show ?thesis
    unfolding sql_multi_level [OF t p]
    by (auto simp: after_prefix_Some after_prefix_None split: option.splits)
qed

lemma star_not_event_type:
  "EVENT_TYPE_REGEX t \<Longrightarrow> suffix ''.**'' tp \<or> suffix ''.*'' tp \<Longrightarrow> tp \<noteq> t"
  by (auto dest!: event_type_no_star simp: suffix_def)

lemma domain_conds:
  "list_all (eval_cond t dm) (case df of Some d \<Rightarrow> if d \<noteq> [] then [DomainEq d] else [] | None \<Rightarrow> [])
     \<longleftrightarrow> \<not> domain_excluded df dm"
  by (auto simp: domain_excluded_def split: option.splits)

lemma sql_matches_eq:
  assumes t: "EVENT_TYPE_REGEX t" and p: "no_upper (fst (parse_filter f))"
  shows "sql_matches t dm f \<longleftrightarrow> matches_filter t dm f"
proof -
  obtain tp df where f: "parse_filter f = (tp, df)" by (cases "parse_filter f")
  consider (star) "tp = ''*''" | (multi) "tp \<noteq> ''*''" "suffix ''.**'' tp"
    | (single) "tp \<noteq> ''*''" "\<not> suffix ''.**'' tp" "suffix ''.*'' tp"
    | (exact) "tp \<noteq> ''*''" "\<not> suffix ''.**'' tp" "\<not> suffix ''.*'' tp"
    by blast
  then show ?thesis
  proof cases
    case star
    then show ?thesis
      by (simp add: sql_matches_def build_filter_sql_def matches_filter_def f domain_conds)
  next
    case multi
    then have "no_upper (drop_last 3 tp)" and "tp \<noteq> t"
      using p t f star_not_event_type by (auto intro: no_upper_drop_last)
    then show ?thesis using multi t
      by (simp add: sql_matches_def build_filter_sql_def matches_filter_def f domain_conds
          sql_multi_level)
  next
    case single
    then have "no_upper (drop_last 2 tp)" and "tp \<noteq> t"
      using p t f star_not_event_type by (auto intro: no_upper_drop_last)
    then show ?thesis using single t
      by (simp add: sql_matches_def build_filter_sql_def matches_filter_def f domain_conds
          sql_single_level)
  next
    case exact
    then show ?thesis
      by (auto simp: sql_matches_def build_filter_sql_def matches_filter_def f domain_conds)
  qed
qed

section \<open>Properties\<close>

text \<open>C18: The SQL predicate that \<open>poll\<close> and the sweep build from a filter and the in-memory
  \<open>matchesFilter\<close> of the push path admit the same events, for every valid event type and every
  filter whose pattern has no upper-case letter.\<close>

theorem filter_sql_agrees:
  assumes "EVENT_TYPE_REGEX t" and "no_upper (fst (parse_filter f))"
  shows "sql_matches t dm f \<longleftrightarrow> matches_filter t dm f"
  using assms by (rule sql_matches_eq)

lemma filter_sql_agrees_witness:
  "sql_matches ''wicked.a.b'' ''d'' ''wicked.a.*@d'' \<and> matches_filter ''wicked.a.b'' ''d'' ''wicked.a.*@d''"
proof -
  have "EVENT_TYPE_REGEX ''wicked.a.b''" and "no_upper (fst (parse_filter ''wicked.a.*@d''))"
    and "matches_filter ''wicked.a.b'' ''d'' ''wicked.a.*@d''" by code_simp+
  with filter_sql_agrees [of "''wicked.a.b''" "''wicked.a.*@d''" "''d''"] show ?thesis by simp
qed

text \<open>The two matchers are not the mirror images the comment in \<open>buildFilterSql\<close> claims: SQLite's
  \<open>LIKE\<close> folds ASCII case, so a wildcard filter written with an upper-case letter receives events
  by polling that the in-memory matcher of the push path refuses.\<close>

theorem filter_case_divergence:
  "sql_matches ''wicked.test.x'' ''d'' ''Wicked.test.*'' \<and> \<not> matches_filter ''wicked.test.x'' ''d'' ''Wicked.test.*''"
  by code_simp

end
