(* ===== verification/BusDb.thy ===== *)
theory BusDb
  imports BusFilter
begin

text \<open>
  The database of \<open>lib/schema.sql\<close> (with the columns of migration 3, \<open>lib/migrate.js\<close>) as a
  record of tables, each a list of rows in rowid order, and the invariant the schema's keys,
  \<open>AUTOINCREMENT\<close> counters and references maintain. Times are milliseconds; SQLite stores a
  fractional one as such, so they are rationals; the two expiry columns can also hold an infinity. \<open>providers\<close> is the directory of provider
  sidecar files that \<open>lib/register.js\<close> keeps beside the database.
\<close>

section \<open>Rows\<close>

record event_row =
  ev_id :: int
  ev_type :: string
  ev_domain :: string
  ev_subdomain :: string
  ev_payload :: string
  ev_schema_version :: string
  ev_key :: string
  ev_emitted_at :: rat
  ev_expires_at :: jsnum
  ev_dedup_expires_at :: jsnum
  ev_metadata :: "string option"
  ev_parent :: sqlval
  ev_session :: "string option"
  ev_correlation :: "string option"
  ev_producer :: "string option"
  ev_origin :: "string option"
  ev_registry_version :: "int option"
  ev_cas_sha :: "string option"

datatype role = Provider | Subscriber

record subscription_row =
  su_id :: string
  su_plugin :: string
  su_role :: role
  su_filter :: string
  su_schema_version :: "string option"
  su_registered_at :: rat
  su_deregistered_at :: "rat option"

record cursor_row =
  cu_id :: string
  cu_sub :: string
  cu_last :: int
  cu_acked_at :: "rat option"
  cu_created_at :: rat
  cu_deregistered_at :: "rat option"

record dead_letter_row =
  dl_id :: int
  dl_cursor :: string
  dl_sub :: string
  dl_event :: int
  dl_type :: string
  dl_domain :: string
  dl_subdomain :: string
  dl_payload :: string
  dl_emitted_at :: rat
  dl_attempts :: nat
  dl_last_error :: "string option"
  dl_dead_lettered_at :: rat
  dl_replay_requested_at :: "rat option"

record attempt_row =
  da_cursor :: string
  da_event :: int
  da_attempts :: nat
  da_last_attempt_at :: rat
  da_last_error :: "string option"

datatype oversize_mode = OverWarn | OverCasAuto | OverStrict

record schema_row =
  sc_event_type :: string
  sc_version :: int
  sc_json_schema :: string
  sc_payload_max_bytes :: int
  sc_payload_oversize :: oversize_mode

record provider_sidecar =
  pv_subscription_id :: string
  pv_event_types :: "string list"
  pv_schema_version :: "string option"
  pv_registered_at_ms :: rat

record bus =
  db_open :: bool
  events :: "event_row list"
  events_seq :: int
  events_archive :: "event_row list option"
  subscriptions :: "subscription_row list"
  cursors :: "cursor_row list"
  dead_letters :: "dead_letter_row list"
  dead_letters_seq :: int
  delivery_attempts :: "attempt_row list"
  schemas :: "schema_row list"
  providers :: "string \<rightharpoonup> provider_sidecar"

definition empty_bus :: bus where
  "empty_bus = \<lparr>db_open = True, events = [], events_seq = 0, events_archive = None,
     subscriptions = [], cursors = [], dead_letters = [], dead_letters_seq = 0,
     delivery_attempts = [], schemas = [], providers = Map.empty\<rparr>"

section \<open>Statements used by several modules\<close>

definition find_cursor :: "bus \<Rightarrow> string \<Rightarrow> cursor_row option" where
  "find_cursor b cid = find (\<lambda>c. cu_id c = cid) (cursors b)"

definition find_sub :: "bus \<Rightarrow> string \<Rightarrow> subscription_row option" where
  "find_sub b sid = find (\<lambda>s. su_id s = sid) (subscriptions b)"

definition find_event :: "bus \<Rightarrow> int \<Rightarrow> event_row option" where
  "find_event b i = find (\<lambda>e. ev_id e = i) (events b)"

definition min_event_id :: "bus \<Rightarrow> int option" where
  "min_event_id b = list_min (map ev_id (events b))"

definition max_event_id :: "bus \<Rightarrow> int option" where
  "max_event_id b = list_max (map ev_id (events b))"

text \<open>\<open>SELECT * FROM events WHERE P ORDER BY event_id ASC LIMIT n\<close>.\<close>

definition select_events :: "(event_row \<Rightarrow> bool) \<Rightarrow> int \<Rightarrow> bus \<Rightarrow> event_row list" where
  "select_events P n b = sql_limit n (sort_key ev_id (filter P (events b)))"

definition event_matches :: "string \<Rightarrow> event_row \<Rightarrow> bool" where
  "event_matches f e = sql_matches (ev_type e) (ev_domain e) f"

text \<open>\<open>expires_at < now\<close>.\<close>

definition expired :: "rat \<Rightarrow> event_row \<Rightarrow> bool" where
  "expired now e \<longleftrightarrow> num_lt (ev_expires_at e) (Fin now)"

definition cursor_active :: "cursor_row \<Rightarrow> bool" where
  "cursor_active c \<longleftrightarrow> cu_deregistered_at c = None"

definition sub_active :: "subscription_row \<Rightarrow> bool" where
  "sub_active s \<longleftrightarrow> su_deregistered_at s = None"

text \<open>\<open>UPDATE cursors SET last_event_id = ?, acked_at = ? WHERE cursor_id = ? AND deregistered_at IS NULL\<close>
  and the number of rows it changes.\<close>

definition update_cursor_position :: "string \<Rightarrow> int \<Rightarrow> rat \<Rightarrow> bus \<Rightarrow> bus" where
  "update_cursor_position cid pos t b = b\<lparr>cursors :=
     map (\<lambda>c. if cu_id c = cid \<and> cursor_active c then c\<lparr>cu_last := pos, cu_acked_at := Some t\<rparr> else c)
       (cursors b)\<rparr>"

definition cursor_changes :: "string \<Rightarrow> bus \<Rightarrow> nat" where
  "cursor_changes cid b = length (filter (\<lambda>c. cu_id c = cid \<and> cursor_active c) (cursors b))"

section \<open>Well-formedness\<close>

definition events_wf :: "bus \<Rightarrow> bool" where
  "events_wf b \<longleftrightarrow> sorted_wrt (<) (map ev_id (events b)) \<and>
     (\<forall>e\<in>set (events b). 0 < ev_id e \<and> ev_id e \<le> events_seq b) \<and>
     distinct (map ev_key (events b)) \<and> 0 \<le> events_seq b"

definition subs_wf :: "bus \<Rightarrow> bool" where
  "subs_wf b \<longleftrightarrow> distinct (map su_id (subscriptions b))"

definition cursors_wf :: "bus \<Rightarrow> bool" where
  "cursors_wf b \<longleftrightarrow> distinct (map cu_id (cursors b)) \<and>
     cu_sub ` set (cursors b) \<subseteq> su_id ` set (subscriptions b)"

definition dlq_wf :: "bus \<Rightarrow> bool" where
  "dlq_wf b \<longleftrightarrow> sorted_wrt (<) (map dl_id (dead_letters b)) \<and>
     (\<forall>d\<in>set (dead_letters b). 0 < dl_id d \<and> dl_id d \<le> dead_letters_seq b \<and>
        dl_cursor d \<in> cu_id ` set (cursors b) \<and> dl_sub d \<in> su_id ` set (subscriptions b)) \<and>
     0 \<le> dead_letters_seq b"

definition attempts_wf :: "bus \<Rightarrow> bool" where
  "attempts_wf b \<longleftrightarrow> distinct (map (\<lambda>a. (da_cursor a, da_event a)) (delivery_attempts b)) \<and>
     (\<forall>a\<in>set (delivery_attempts b). 0 < da_attempts a \<and> da_cursor a \<in> cu_id ` set (cursors b))"

definition bus_wf :: "bus \<Rightarrow> bool" where
  "bus_wf b \<longleftrightarrow> events_wf b \<and> subs_wf b \<and> cursors_wf b \<and> dlq_wf b \<and> attempts_wf b"

lemmas wf_defs = bus_wf_def events_wf_def subs_wf_def cursors_wf_def dlq_wf_def attempts_wf_def

lemma bus_wf_empty: "bus_wf empty_bus"
  by (simp add: wf_defs empty_bus_def)

lemma bus_wfI [intro?]:
  "events_wf b \<Longrightarrow> subs_wf b \<Longrightarrow> cursors_wf b \<Longrightarrow> dlq_wf b \<Longrightarrow> attempts_wf b \<Longrightarrow> bus_wf b"
  by (simp add: bus_wf_def)

lemma bus_wfD:
  assumes "bus_wf b"
  shows "events_wf b" and "subs_wf b" and "cursors_wf b" and "dlq_wf b" and "attempts_wf b"
  using assms by (simp_all add: bus_wf_def)

text \<open>Frame rules: each part of the invariant reads its own tables only.\<close>

lemma events_wf_cong:
  "events b' = events b \<Longrightarrow> events_seq b' = events_seq b \<Longrightarrow> events_wf b' = events_wf b"
  by (simp add: events_wf_def)

lemma subs_wf_cong: "subscriptions b' = subscriptions b \<Longrightarrow> subs_wf b' = subs_wf b"
  by (simp add: subs_wf_def)

lemma cursors_wf_cong:
  "map cu_id (cursors b') = map cu_id (cursors b) \<Longrightarrow> map cu_sub (cursors b') = map cu_sub (cursors b) \<Longrightarrow>
   su_id ` set (subscriptions b') = su_id ` set (subscriptions b) \<Longrightarrow> cursors_wf b' = cursors_wf b"
proof -
  assume ids: "map cu_id (cursors b') = map cu_id (cursors b)"
    and subs: "map cu_sub (cursors b') = map cu_sub (cursors b)"
    and s: "su_id ` set (subscriptions b') = su_id ` set (subscriptions b)"
  from subs have "cu_sub ` set (cursors b') = cu_sub ` set (cursors b)"
    by (metis list.set_map)
  then show ?thesis using ids s by (simp add: cursors_wf_def)
qed

lemma dlq_wf_cong:
  "dead_letters b' = dead_letters b \<Longrightarrow> dead_letters_seq b' = dead_letters_seq b \<Longrightarrow>
   cu_id ` set (cursors b') = cu_id ` set (cursors b) \<Longrightarrow>
   su_id ` set (subscriptions b') = su_id ` set (subscriptions b) \<Longrightarrow> dlq_wf b' = dlq_wf b"
  by (simp add: dlq_wf_def)

lemma attempts_wf_cong:
  "delivery_attempts b' = delivery_attempts b \<Longrightarrow> cu_id ` set (cursors b') = cu_id ` set (cursors b) \<Longrightarrow>
   attempts_wf b' = attempts_wf b"
  by (simp add: attempts_wf_def)

lemma events_wf_filter:
  "events_wf b \<Longrightarrow> events b' = filter P (events b) \<Longrightarrow> events_seq b' = events_seq b \<Longrightarrow> events_wf b'"
  by (auto simp: events_wf_def distinct_map_filter intro: map_filter_strict)

section \<open>Reading a well-formed database\<close>

lemma select_events_wf:
  "events_wf b \<Longrightarrow> select_events P n b = sql_limit n (filter P (events b))"
  unfolding select_events_def
  by (subst sort_key_strict) (auto simp: events_wf_def intro: map_filter_strict)

lemma select_events_sorted:
  "events_wf b \<Longrightarrow> sorted_wrt (<) (map ev_id (select_events P n b))"
  by (simp add: select_events_wf) (auto simp: events_wf_def intro!: strict_map_sql_limit map_filter_strict)

lemma set_select_events: "e \<in> set (select_events P n b) \<Longrightarrow> e \<in> set (events b) \<and> P e"
  by (auto simp: select_events_def dest: set_sql_limit)

lemma select_events_negative: "n < 0 \<Longrightarrow> set (select_events P n b) = {e \<in> set (events b). P e}"
  by (auto simp: select_events_def sql_limit_def)

lemma events_wf_inj:
  "events_wf b \<Longrightarrow> e \<in> set (events b) \<Longrightarrow> e' \<in> set (events b) \<Longrightarrow> ev_id e = ev_id e' \<Longrightarrow> e = e'"
  by (auto simp: events_wf_def intro: strict_key_inj)

lemma find_event_Some:
  "events_wf b \<Longrightarrow> find_event b i = Some e \<longleftrightarrow> e \<in> set (events b) \<and> ev_id e = i"
proof
  assume "find_event b i = Some e"
  then show "e \<in> set (events b) \<and> ev_id e = i"
    by (auto simp: find_event_def dest: find_Some_conv)
next
  assume "events_wf b" and "e \<in> set (events b) \<and> ev_id e = i"
  then show "find_event b i = Some e"
    by (auto simp: find_event_def events_wf_def sorted_strict_imp_distinct intro!: find_key_eq)
qed

lemma find_cursor_Some:
  "cursors_wf b \<Longrightarrow> find_cursor b cid = Some c \<longleftrightarrow> c \<in> set (cursors b) \<and> cu_id c = cid"
  by (auto simp: find_cursor_def cursors_wf_def dest: find_Some_conv intro!: find_key_eq)

lemma find_sub_Some:
  "subs_wf b \<Longrightarrow> find_sub b sid = Some s \<longleftrightarrow> s \<in> set (subscriptions b) \<and> su_id s = sid"
  by (auto simp: find_sub_def subs_wf_def dest: find_Some_conv intro!: find_key_eq)

lemma find_cursor_id: "find_cursor b cid = Some c \<Longrightarrow> cu_id c = cid \<and> c \<in> set (cursors b)"
  by (auto simp: find_cursor_def dest: find_Some_conv)

lemma find_sub_id: "find_sub b sid = Some s \<Longrightarrow> su_id s = sid \<and> s \<in> set (subscriptions b)"
  by (auto simp: find_sub_def dest: find_Some_conv)

lemma min_event_id_Some:
  "min_event_id b = Some m \<Longrightarrow> (\<exists>e\<in>set (events b). ev_id e = m) \<and> (\<forall>e\<in>set (events b). m \<le> ev_id e)"
  by (auto simp: min_event_id_def dest!: list_min_Some)

lemma min_event_id_None: "min_event_id b = None \<longleftrightarrow> events b = []"
  by (simp add: min_event_id_def)

lemma max_event_id_Some:
  "max_event_id b = Some m \<Longrightarrow> (\<exists>e\<in>set (events b). ev_id e = m) \<and> (\<forall>e\<in>set (events b). ev_id e \<le> m)"
  by (auto simp: max_event_id_def dest!: list_max_Some)

lemma max_event_id_None: "max_event_id b = None \<longleftrightarrow> events b = []"
  by (simp add: max_event_id_def)

section \<open>Moving a cursor\<close>

lemma update_cursor_position_frame [simp]:
  "events (update_cursor_position cid pos t b) = events b"
  "events_seq (update_cursor_position cid pos t b) = events_seq b"
  "events_archive (update_cursor_position cid pos t b) = events_archive b"
  "subscriptions (update_cursor_position cid pos t b) = subscriptions b"
  "dead_letters (update_cursor_position cid pos t b) = dead_letters b"
  "dead_letters_seq (update_cursor_position cid pos t b) = dead_letters_seq b"
  "delivery_attempts (update_cursor_position cid pos t b) = delivery_attempts b"
  "schemas (update_cursor_position cid pos t b) = schemas b"
  "db_open (update_cursor_position cid pos t b) = db_open b"
  by (simp_all add: update_cursor_position_def)

lemma update_cursor_position_ids [simp]:
  "map cu_id (cursors (update_cursor_position cid pos t b)) = map cu_id (cursors b)"
  "map cu_sub (cursors (update_cursor_position cid pos t b)) = map cu_sub (cursors b)"
  by (simp_all add: update_cursor_position_def)

lemma update_cursor_position_id_set [simp]:
  "cu_id ` set (cursors (update_cursor_position cid pos t b)) = cu_id ` set (cursors b)"
  by (metis update_cursor_position_ids(1) list.set_map)

lemma update_cursor_position_wf [wf_intros]:
  assumes "bus_wf b"
  shows "bus_wf (update_cursor_position cid pos t b)"
proof
  note wf = bus_wfD [OF assms]
  show "events_wf (update_cursor_position cid pos t b)" using wf(1) by (simp add: events_wf_def)
  show "subs_wf (update_cursor_position cid pos t b)" using wf(2) by (simp add: subs_wf_def)
  show "cursors_wf (update_cursor_position cid pos t b)"
    using wf(3) by (subst cursors_wf_cong) auto
  show "dlq_wf (update_cursor_position cid pos t b)" using wf(4) by (subst dlq_wf_cong) auto
  show "attempts_wf (update_cursor_position cid pos t b)" using wf(5) by (subst attempts_wf_cong) auto
qed

lemma find_cursor_update_same:
  assumes "find_cursor b cid = Some c" and "cursor_active c"
  shows "find_cursor (update_cursor_position cid pos t b) cid
       = Some (c\<lparr>cu_last := pos, cu_acked_at := Some t\<rparr>)"
proof -
  have "find (\<lambda>c. cu_id c = cid) cs = Some c \<Longrightarrow>
     find (\<lambda>c. cu_id c = cid) (map (\<lambda>c. if cu_id c = cid \<and> cursor_active c
       then c\<lparr>cu_last := pos, cu_acked_at := Some t\<rparr> else c) cs)
     = Some (c\<lparr>cu_last := pos, cu_acked_at := Some t\<rparr>)" for cs
    using assms(2) by (induction cs) (auto split: if_splits)
  then show ?thesis using assms(1) by (simp add: find_cursor_def update_cursor_position_def)
qed

lemma find_cursor_update_other:
  assumes "cid' \<noteq> cid"
  shows "find_cursor (update_cursor_position cid pos t b) cid' = find_cursor b cid'"
proof -
  have "find (\<lambda>c. cu_id c = cid') (map (\<lambda>c. if cu_id c = cid \<and> cursor_active c
       then c\<lparr>cu_last := pos, cu_acked_at := Some t\<rparr> else c) cs)
     = find (\<lambda>c. cu_id c = cid') cs" for cs
    using assms by (induction cs) auto
  then show ?thesis by (simp add: find_cursor_def update_cursor_position_def)
qed

lemma cursor_changes_pos:
  "find_cursor b cid = Some c \<Longrightarrow> cursor_active c \<Longrightarrow> 0 < cursor_changes cid b"
  by (auto simp: cursor_changes_def filter_empty_conv dest: find_cursor_id)

lemma cursor_active_update [simp]:
  "cursor_active (c\<lparr>cu_last := pos, cu_acked_at := t\<rparr>) = cursor_active c"
  by (simp add: cursor_active_def)

end
