(* ===== verification/BusPoll.thy ===== *)
theory BusPoll
  imports BusDb
begin

text \<open>
  Polling and acknowledgment, \<open>lib/poll.js\<close>: \<open>poll\<close>, \<open>reanchorCursor\<close> and \<open>ack\<close>, with
  every thrown error as a value. Two interfaces are stated as locales and discharged here on the
  model's own definitions: an ascending source of events read in batches (used by the drain loop
  of the CLI), and a store of cursor positions (used by every consumer).
\<close>

section \<open>poll\<close>

text \<open>\<open>options.batchSize || 100\<close>.\<close>

definition effective_batch :: "int option \<Rightarrow> int" where
  "effective_batch bs = (case bs of Some n \<Rightarrow> if n \<noteq> 0 then n else 100 | None \<Rightarrow> 100)"

definition cursor_not_found :: "string \<Rightarrow> string \<Rightarrow> js_error" where
  "cursor_not_found cid reason = WB WB006 [(''cursor_id'', JStr cid), (''reason'', JStr reason)]"

text \<open>The rows a filter admits above a floor, oldest first.\<close>

definition pending :: "bus \<Rightarrow> string \<Rightarrow> int \<Rightarrow> event_row list" where
  "pending b f flr = filter (\<lambda>e. flr < ev_id e \<and> event_matches f e) (events b)"

definition stale_min :: "bus \<Rightarrow> cursor_row \<Rightarrow> int option" where
  "stale_min b c = (case min_event_id b of
      Some m \<Rightarrow> if cu_last c < m - 1 then Some m else None
    | None \<Rightarrow> None)"

definition poll :: "bus \<Rightarrow> string \<Rightarrow> int option \<Rightarrow> int option \<Rightarrow> (event_row list) res" where
  "poll b cid batchSize afterEventId =
     (case find_cursor b cid of
        None \<Rightarrow> Inl (cursor_not_found cid ''cursor not found or deregistered'')
      | Some c \<Rightarrow>
          if \<not> cursor_active c then Inl (cursor_not_found cid ''cursor not found or deregistered'')
          else (case stale_min b c of
            Some m \<Rightarrow> Inl (WB WB003 [(''cursor_last_event_id'', jint (cu_last c)),
                                    (''oldest_available_event_id'', jint m)])
          | None \<Rightarrow>
              (case find_sub b (cu_sub c) of
                 None \<Rightarrow> Inl (cursor_not_found cid ''subscription not found'')
               | Some s \<Rightarrow>
                   let flr = (case afterEventId of Some a \<Rightarrow> a | None \<Rightarrow> cu_last c)
                   in Inr (select_events (\<lambda>e. flr < ev_id e \<and> event_matches (su_filter s) e)
                        (effective_batch batchSize) b))))"

section \<open>reanchorCursor and ack\<close>

definition js_int :: "jsval \<Rightarrow> int option" where
  "js_int v = (case v of JNum (Fin q) \<Rightarrow> if of_int \<lfloor>q\<rfloor> = q then Some \<lfloor>q\<rfloor> else None | _ \<Rightarrow> None)"

lemma js_int_jint [simp]: "js_int (jint i) = Some i"
  by (simp add: js_int_def)

definition reanchor_cursor :: "bus \<Rightarrow> string \<Rightarrow> jsval \<Rightarrow> rat \<Rightarrow> (string \<times> int) res \<times> bus" where
  "reanchor_cursor b cid newLastEventId now =
     (case js_int newLastEventId of
        None \<Rightarrow> (Inl (WB WB001 [(''reason'', JStr ''invalid cursor position''), (''cursor_id'', JStr cid)]), b)
      | Some pos \<Rightarrow>
          if pos < 0
          then (Inl (WB WB001 [(''reason'', JStr ''invalid cursor position''), (''cursor_id'', JStr cid)]), b)
          else if cursor_changes cid b = 0
          then (Inl (cursor_not_found cid ''cursor not found or deregistered''), b)
          else (Inr (cid, pos), update_cursor_position cid pos now b))"

definition ack :: "bus \<Rightarrow> string \<Rightarrow> int \<Rightarrow> rat \<Rightarrow> (string \<times> int) res \<times> bus" where
  "ack b cid lastEventId now =
     (case find_cursor b cid of
        None \<Rightarrow> (Inl (cursor_not_found cid ''cursor not found or deregistered''), b)
      | Some c \<Rightarrow>
          if \<not> cursor_active c then (Inl (cursor_not_found cid ''cursor not found or deregistered''), b)
          else if cursor_changes cid b = 0
          then (Inl (cursor_not_found cid ''cursor not found or deregistered''), b)
          else (Inr (cid, lastEventId), update_cursor_position cid lastEventId now b))"

section \<open>What poll returns\<close>

definition cursor_position :: "bus \<Rightarrow> string \<Rightarrow> int option" where
  "cursor_position b cid = (case find_cursor b cid of
      Some c \<Rightarrow> if cursor_active c then Some (cu_last c) else None | None \<Rightarrow> None)"

definition cursor_filter :: "bus \<Rightarrow> string \<Rightarrow> string option" where
  "cursor_filter b cid = (case find_cursor b cid of
      Some c \<Rightarrow> map_option su_filter (find_sub b (cu_sub c)) | None \<Rightarrow> None)"

lemma effective_batch_nonzero [simp]: "effective_batch bs \<noteq> 0"
  by (auto simp: effective_batch_def split: option.splits)

lemma poll_Inr_iff:
  assumes wf: "events_wf b"
  shows "poll b cid bs af = Inr es \<longleftrightarrow>
     (\<exists>c s. find_cursor b cid = Some c \<and> cursor_active c \<and> find_sub b (cu_sub c) = Some s \<and>
        stale_min b c = None \<and>
        es = sql_limit (effective_batch bs)
          (pending b (su_filter s) (case af of Some a \<Rightarrow> a | None \<Rightarrow> cu_last c)))"
  by (auto simp: poll_def pending_def select_events_wf [OF wf] Let_def split: option.splits if_splits)

lemma poll_Inl_codes: "poll b cid bs af = Inl e \<Longrightarrow> code_in [WB006, WB003] e"
  by (auto simp: poll_def code_in_def cursor_not_found_def Let_def split: option.splits if_splits)

lemma poll_WB003:
  "poll b cid bs af = Inl e \<Longrightarrow> is_wb WB003 e \<Longrightarrow>
     \<exists>c m. find_cursor b cid = Some c \<and> cursor_active c \<and> min_event_id b = Some m \<and> cu_last c < m - 1 \<and>
       e = WB WB003 [(''cursor_last_event_id'', jint (cu_last c)), (''oldest_available_event_id'', jint m)]"
  by (auto simp: poll_def is_wb_def cursor_not_found_def stale_min_def Let_def
      split: option.splits if_splits)

lemma ctx_get_oldest:
  "ctx_get (WB WB003 [(''cursor_last_event_id'', a), (''oldest_available_event_id'', v)])
     ''oldest_available_event_id'' = v"
  by (simp add: ctx_get_def)

lemma ctx_get_cursor_last:
  "ctx_get (WB WB003 [(''cursor_last_event_id'', a), (''oldest_available_event_id'', v)])
     ''cursor_last_event_id'' = a"
  by (simp add: ctx_get_def)

lemma pending_sorted: "events_wf b \<Longrightarrow> sorted_wrt (<) (map ev_id (pending b f flr))"
  by (auto simp: pending_def events_wf_def intro: map_filter_strict)

lemma set_pending: "set (pending b f flr) = {e \<in> set (events b). flr < ev_id e \<and> event_matches f e}"
  by (auto simp: pending_def)

lemma pending_cong: "events b' = events b \<Longrightarrow> pending b' = pending b"
  by (auto simp: pending_def fun_eq_iff)

lemma cursor_position_cong: "cursors b' = cursors b \<Longrightarrow> cursor_position b' cid = cursor_position b cid"
  by (simp add: cursor_position_def find_cursor_def)

lemma cursor_filter_cong:
  "cursors b' = cursors b \<Longrightarrow> subscriptions b' = subscriptions b \<Longrightarrow> cursor_filter b' cid = cursor_filter b cid"
proof -
  assume c: "cursors b' = cursors b" and s: "subscriptions b' = subscriptions b"
  have f: "find_sub b' = find_sub b" by (simp add: find_sub_def fun_eq_iff s)
  show ?thesis unfolding cursor_filter_def find_cursor_def c f ..
qed

lemma strict_suffix_filter:
  assumes "sorted_wrt (<) (map f (xs @ ys))" and "xs \<noteq> []"
  shows "filter (\<lambda>e. f (last xs) < f e) (xs @ ys) = (ys :: 'a list)"
    and "xs @ ys = filter (\<lambda>e. g < f e) (xs @ ys) \<Longrightarrow> g < (f (last xs) :: 'b::linorder)"
proof -
  have le: "f x \<le> f (last xs)" if "x \<in> set xs" for x
  proof -
    from assms(2) obtain zs where xs: "xs = zs @ [last xs]"
      by (metis append_butlast_last_id)
    with assms(1) have "sorted_wrt (<) (map f (zs @ [last xs]) @ map f ys)" by (metis map_append)
    then have "\<forall>z\<in>set zs. f z < f (last xs)" by (auto simp: sorted_wrt_append)
    with that xs show ?thesis by (metis Un_iff empty_iff insert_iff less_imp_le list.simps(15)
          order_refl set_append empty_set)
  qed
  have gt: "\<forall>y\<in>set ys. f (last xs) < f y"
    using assms by (auto simp: sorted_wrt_append)
  have "filter (\<lambda>e. f (last xs) < f e) xs = []"
    using le by (auto simp: filter_empty_conv not_less)
  then show "filter (\<lambda>e. f (last xs) < f e) (xs @ ys) = ys"
    using gt by (simp add: filter_id_conv)
  show "g < f (last xs)" if "xs @ ys = filter (\<lambda>e. g < f e) (xs @ ys)"
    using that assms(2) by (metis (mono_tags, lifting) Un_iff filter_id_conv last_in_set set_append)
qed

lemma pending_after:
  assumes wf: "events_wf b" and p: "pending b f flr = xs @ ys" and ne: "xs \<noteq> []"
  shows "pending b f (ev_id (last xs)) = ys"
proof -
  have s: "sorted_wrt (<) (map ev_id (xs @ ys))" using pending_sorted [OF wf] p by metis
  have "last xs \<in> set (pending b f flr)" using ne p by simp
  then have lt: "flr < ev_id (last xs)" by (simp add: set_pending)
  have "pending b f (ev_id (last xs)) = filter (\<lambda>e. ev_id (last xs) < ev_id e) (pending b f flr)"
    unfolding pending_def using lt by (auto intro!: filter_cong)
  also have "\<dots> = ys" unfolding p by (rule strict_suffix_filter(1) [OF s ne])
  finally show ?thesis .
qed

section \<open>An ascending source read in batches\<close>

text \<open>Asking again from the last item given until nothing comes, at most \<open>n\<close> times.\<close>

fun read_batches :: "(int \<Rightarrow> 'e list) \<Rightarrow> ('e \<Rightarrow> int) \<Rightarrow> nat \<Rightarrow> int \<Rightarrow> 'e list" where
  "read_batches get eid 0 since = []"
| "read_batches get eid (Suc n) since =
     (let page = get since in if page = [] then [] else page @ read_batches get eid n (eid (last page)))"

locale event_source =
  fixes inv :: "'s \<Rightarrow> bool"
    and pend :: "'s \<Rightarrow> int \<Rightarrow> 'e list"
    and fetch :: "'s \<Rightarrow> int \<Rightarrow> 'e list"
    and eid :: "'e \<Rightarrow> int"
  assumes fetch_prefix: "inv s \<Longrightarrow> \<exists>rest. pend s f = fetch s f @ rest"
    and fetch_progress: "inv s \<Longrightarrow> pend s f \<noteq> [] \<Longrightarrow> fetch s f \<noteq> []"
    and pend_after: "inv s \<Longrightarrow> pend s f = xs @ ys \<Longrightarrow> xs \<noteq> [] \<Longrightarrow> pend s (eid (last xs)) = ys"
begin

text \<open>Reading batch after batch from a fixed state yields everything pending, once, in order.\<close>

lemma batch_split:
  assumes "inv s" and "pend s f \<noteq> []"
  shows "pend s f = fetch s f @ pend s (eid (last (fetch s f)))"
proof -
  obtain rest where r: "pend s f = fetch s f @ rest" using fetch_prefix [OF assms(1)] by blast
  moreover have "fetch s f \<noteq> []" using assms by (rule fetch_progress)
  ultimately show ?thesis using pend_after [OF assms(1)] by metis
qed

lemma batch_shrinks:
  assumes "inv s" and "pend s f \<noteq> []"
  shows "length (pend s (eid (last (fetch s f)))) < length (pend s f)"
proof -
  have "length (pend s f) = length (fetch s f) + length (pend s (eid (last (fetch s f))))"
    using arg_cong [OF batch_split [OF assms], of length] by simp
  moreover have "0 < length (fetch s f)" using fetch_progress [OF assms] by simp
  ultimately show ?thesis by simp
qed

lemma fetch_empty: "inv s \<Longrightarrow> fetch s f = [] \<longleftrightarrow> pend s f = []"
proof -
  assume i: "inv s"
  obtain rest where "pend s f = fetch s f @ rest" using fetch_prefix [OF i] by blast
  then show "fetch s f = [] \<longleftrightarrow> pend s f = []" using fetch_progress [OF i, of f] by auto
qed

lemma read_batches_complete:
  assumes "inv s"
  shows "length (pend s f) < n \<Longrightarrow> read_batches (fetch s) eid n f = pend s f"
proof (induction n arbitrary: f)
  case (Suc n)
  show ?case
  proof (cases "pend s f = []")
    case True
    then have "fetch s f = []" using fetch_empty [OF assms] by simp
    then show ?thesis using True by simp
  next
    case False
    then have ne: "fetch s f \<noteq> []" using fetch_empty [OF assms] by simp
    have "length (pend s (eid (last (fetch s f)))) < n" using batch_shrinks [OF assms False] Suc.prems by simp
    from Suc.IH [OF this] ne have "read_batches (fetch s) eid (Suc n) f = fetch s f @ pend s (eid (last (fetch s f)))"
      by (simp add: Let_def)
    then show ?thesis using batch_split [OF assms False] by simp
  qed
qed simp

end

interpretation polled: event_source
  "\<lambda>(b, f, n). events_wf b \<and> n \<noteq> (0::int)"
  "\<lambda>(b, f, n). pending b f"
  "\<lambda>(b, f, n) flr. sql_limit n (pending b f flr)"
  ev_id
proof (unfold_locales, goal_cases)
  case (1 s f)
  then show ?case using sql_limit_append by (auto split: prod.splits)
next
  case (2 s f)
  then show ?case by (auto simp: sql_limit_Nil_iff split: prod.splits)
next
  case (3 s f xs ys)
  then show ?case by (auto simp: pending_after split: prod.splits)
qed

section \<open>A store of cursor positions\<close>

locale cursor_store =
  fixes inv :: "'s \<Rightarrow> bool"
    and position :: "'s \<Rightarrow> string \<Rightarrow> int option"
    and advance :: "'s \<Rightarrow> string \<Rightarrow> int \<Rightarrow> 's"
  assumes advance_inv: "inv s \<Longrightarrow> inv (advance s c n)"
    and advance_same: "position s c \<noteq> None \<Longrightarrow> position (advance s c n) c = Some n"
    and advance_other: "c' \<noteq> c \<Longrightarrow> position (advance s c n) c' = position s c'"
begin

text \<open>Acknowledging a batch one event at a time leaves the cursor at its last event.\<close>

lemma foldl_advance:
  assumes "position s c = Some p"
  shows "position (foldl (\<lambda>s n. advance s c n) s ns) c = Some (last (p # ns))"
  using assms
proof (induction ns arbitrary: s p)
  case Nil
  then show ?case by simp
next
  case (Cons n ns)
  then have "position (advance s c n) c = Some n" by (simp add: advance_same)
  from Cons.IH [OF this] show ?case by simp
qed

lemma foldl_advance_other:
  "c' \<noteq> c \<Longrightarrow> position (foldl (\<lambda>s n. advance s c n) s ns) c' = position s c'"
  by (induction ns arbitrary: s) (auto simp: advance_other)

lemma foldl_advance_inv: "inv s \<Longrightarrow> inv (foldl (\<lambda>s n. advance s c n) s ns)"
  by (induction ns arbitrary: s) (auto intro: advance_inv)

end

lemma ack_active:
  "cursor_position b cid \<noteq> None \<Longrightarrow> ack b cid n now = (Inr (cid, n), update_cursor_position cid n now b)"
  by (auto simp: cursor_position_def ack_def cursor_changes_pos split: option.splits if_splits)

lemma ack_inactive:
  "cursor_position b cid = None \<Longrightarrow>
   ack b cid n now = (Inl (cursor_not_found cid ''cursor not found or deregistered''), b)"
  by (auto simp: cursor_position_def ack_def split: option.splits if_splits)

lemma cursor_position_update_same:
  "cursor_position b cid \<noteq> None \<Longrightarrow> cursor_position (update_cursor_position cid n t b) cid = Some n"
  by (auto simp: cursor_position_def find_cursor_update_same split: option.splits if_splits)

lemma cursor_position_update_other:
  "cid' \<noteq> cid \<Longrightarrow> cursor_position (update_cursor_position cid n t b) cid' = cursor_position b cid'"
  by (simp add: cursor_position_def find_cursor_update_other)

lemma ack_wf [wf_intros]: "bus_wf b \<Longrightarrow> bus_wf (snd (ack b cid n now))"
  by (cases "cursor_position b cid") (auto simp: ack_active ack_inactive intro: update_cursor_position_wf)

interpretation acked: cursor_store bus_wf cursor_position "\<lambda>b cid n. snd (ack b cid n now)" for now
proof (unfold_locales, goal_cases)
  case (1 s c n)
  then show ?case by (rule ack_wf)
next
  case (2 s c n)
  then show ?case by (simp add: ack_active cursor_position_update_same)
next
  case (3 c' c s n)
  then show ?case
    by (cases "cursor_position s c") (auto simp: ack_active ack_inactive cursor_position_update_other)
qed

lemma ack_frame [simp]:
  "events (snd (ack b cid n now)) = events b"
  "events_seq (snd (ack b cid n now)) = events_seq b"
  "events_archive (snd (ack b cid n now)) = events_archive b"
  "subscriptions (snd (ack b cid n now)) = subscriptions b"
  "dead_letters (snd (ack b cid n now)) = dead_letters b"
  "delivery_attempts (snd (ack b cid n now)) = delivery_attempts b"
  by (cases "cursor_position b cid"; simp add: ack_active ack_inactive)+

lemma cursor_filter_update [simp]:
  "cursor_filter (update_cursor_position cid n t b) cid' = cursor_filter b cid'"
proof -
  have "find_sub (update_cursor_position cid n t b) = find_sub b"
    by (simp add: find_sub_def fun_eq_iff)
  moreover have "map_option cu_sub (find_cursor (update_cursor_position cid n t b) cid')
      = map_option cu_sub (find_cursor b cid')"
  proof -
    have "map_option cu_sub (find (\<lambda>c. cu_id c = cid') (map (\<lambda>c. if cu_id c = cid \<and> cursor_active c
        then c\<lparr>cu_last := n, cu_acked_at := Some t\<rparr> else c) cs))
      = map_option cu_sub (find (\<lambda>c. cu_id c = cid') cs)" for cs
      by (induction cs) auto
    then show ?thesis by (simp add: find_cursor_def update_cursor_position_def)
  qed
  ultimately show ?thesis
    by (auto simp: cursor_filter_def split: option.splits)
qed

lemma reanchor_Inr:
  assumes "reanchor_cursor b cid v now = (Inr r, b')"
  shows "\<exists>pos. js_int v = Some pos \<and> 0 \<le> pos \<and> r = (cid, pos) \<and> b' = update_cursor_position cid pos now b"
  using assms by (auto simp: reanchor_cursor_def split: option.splits if_splits)

lemma reanchor_active:
  "cursor_position b cid \<noteq> None \<Longrightarrow> 0 \<le> pos \<Longrightarrow>
   reanchor_cursor b cid (jint pos) now = (Inr (cid, pos), update_cursor_position cid pos now b)"
  by (auto simp: cursor_position_def reanchor_cursor_def cursor_changes_pos split: option.splits if_splits)

lemma reanchor_wf [wf_intros]: "bus_wf b \<Longrightarrow> bus_wf (snd (reanchor_cursor b cid v now))"
  by (auto simp: reanchor_cursor_def intro: update_cursor_position_wf split: option.splits)

section \<open>Properties\<close>

lemma cursor_sub_exists:
  assumes "bus_wf b" and "find_cursor b cid = Some c"
  shows "\<exists>s. find_sub b (cu_sub c) = Some s"
proof -
  have "cu_sub c \<in> su_id ` set (subscriptions b)"
    using find_cursor_id [OF assms(2)] assms(1) by (auto simp: wf_defs)
  then show ?thesis by (cases "find_sub b (cu_sub c)") (auto simp: find_sub_def find_None_iff)
qed

lemma position_filter:
  assumes "bus_wf b" and "cursor_position b cid = Some p"
  shows "\<exists>c s. find_cursor b cid = Some c \<and> cursor_active c \<and> cu_last c = p \<and>
     find_sub b (cu_sub c) = Some s \<and> cursor_filter b cid = Some (su_filter s)"
proof -
  from assms(2) obtain c where c: "find_cursor b cid = Some c" "cursor_active c" "cu_last c = p"
    by (auto simp: cursor_position_def split: option.splits if_splits)
  with cursor_sub_exists [OF assms(1) c(1)] show ?thesis by (auto simp: cursor_filter_def)
qed

text \<open>A batch is ascending and above its floor.\<close>

lemma poll_ascending:
  assumes "events_wf b" and "poll b cid bs af = Inr es" and "cursor_position b cid = Some q"
  shows "sorted_wrt (<) ((case af of Some a \<Rightarrow> a | None \<Rightarrow> q) # map ev_id es)"
proof -
  let ?a = "case af of Some a \<Rightarrow> a | None \<Rightarrow> q"
  from assms(2) [unfolded poll_Inr_iff [OF assms(1)]] obtain c s where c: "find_cursor b cid = Some c" "cursor_active c" and
    "find_sub b (cu_sub c) = Some s" and
    es: "es = sql_limit (effective_batch bs) (pending b (su_filter s) (case af of Some a \<Rightarrow> a | None \<Rightarrow> cu_last c))"
    by blast
  have "cu_last c = q" using assms(3) c by (simp add: cursor_position_def)
  with es have es: "es = sql_limit (effective_batch bs) (pending b (su_filter s) ?a)" by (cases af) simp_all
  then have "\<forall>e\<in>set es. ?a < ev_id e" by (auto simp: set_pending dest: set_sql_limit)
  moreover have "sorted_wrt (<) (map ev_id es)"
    unfolding es by (rule strict_map_sql_limit) (rule pending_sorted [OF assms(1)])
  ultimately show ?thesis by simp
qed

text \<open>\<open>poll\<close> as a function of the position and the filter.\<close>

lemma poll_eq:
  assumes "bus_wf b" and "cursor_position b cid = Some p" and "cursor_filter b cid = Some f"
  shows "poll b cid bs af = (case min_event_id b of
       Some m \<Rightarrow> if p < m - 1
         then raise_wb WB003 [(''cursor_last_event_id'', jint p), (''oldest_available_event_id'', jint m)]
         else Inr (sql_limit (effective_batch bs) (pending b f (case af of Some a \<Rightarrow> a | None \<Rightarrow> p)))
     | None \<Rightarrow> Inr (sql_limit (effective_batch bs) (pending b f (case af of Some a \<Rightarrow> a | None \<Rightarrow> p))))"
proof -
  from position_filter [OF assms(1,2)] assms(3) obtain c s where "find_cursor b cid = Some c" "cursor_active c"
    "cu_last c = p" "find_sub b (cu_sub c) = Some s" "su_filter s = f" by auto
  then show ?thesis
    by (auto simp: poll_def stale_min_def pending_def select_events_wf [OF bus_wfD(1) [OF assms(1)]] Let_def
        split: option.splits)
qed

text \<open>C4: Polling an active cursor returns the oldest matching events above its position, in ascending
  id order, none skipped and at most a batch of them - or WB-003, naming the cursor's position and the
  oldest stored id, exactly when the event after the position may already be gone.\<close>

theorem poll_delivers_oldest_pending:
  assumes "bus_wf b" and "cursor_position b cid = Some p" and "cursor_filter b cid = Some f"
    and "0 < n"
  shows "case poll b cid (Some n) None of
       Inr es \<Rightarrow> (\<exists>rest. filter (\<lambda>e. p < ev_id e \<and> event_matches f e) (events b) = es @ rest \<and>
          (rest = [] \<or> int (length es) = n)) \<and> int (length es) \<le> n \<and> sorted_wrt (<) (map ev_id es) \<and>
          (\<forall>m. min_event_id b \<noteq> Some m \<or> m \<le> p + 1)
     | Inl e \<Rightarrow> (\<exists>m. min_event_id b = Some m \<and> p + 1 < m \<and> is_wb WB003 e \<and>
          ctx_get e ''cursor_last_event_id'' = jint p \<and> ctx_get e ''oldest_available_event_id'' = jint m)"
proof -
  have pre: "\<exists>rest. pending b f p = sql_limit n (pending b f p) @ rest \<and>
      (rest = [] \<or> int (length (sql_limit n (pending b f p))) = n)"
    using assms(4) by (intro exI [of _ "drop (nat n) (pending b f p)"]) (auto simp: sql_limit_def)
  have srt: "sorted_wrt (<) (map ev_id (sql_limit n (pending b f p)))"
    by (intro strict_map_sql_limit pending_sorted bus_wfD(1) [OF assms(1)])
  have len: "int (length (sql_limit n (pending b f p))) \<le> n" using assms(4) by (simp add: length_sql_limit)
  have eb: "effective_batch (Some n) = n" using assms(4) by (simp add: effective_batch_def)
  show ?thesis
    unfolding poll_eq [OF assms(1-3)] eb
    using pre srt len by (auto simp: pending_def ctx_get_def is_wb_def split: option.splits)
qed

definition demo_row :: "int \<Rightarrow> string \<Rightarrow> event_row" where
  "demo_row i t = \<lparr>ev_id = i, ev_type = t, ev_domain = ''d'', ev_subdomain = [], ev_payload = ''{}'',
     ev_schema_version = ''1.0.0'', ev_key = int_str i, ev_emitted_at = 0, ev_expires_at = Fin 10,
     ev_dedup_expires_at = Fin 5, ev_metadata = None, ev_parent = SNull, ev_session = None,
     ev_correlation = None, ev_producer = None, ev_origin = None, ev_registry_version = None, ev_cas_sha = None\<rparr>"

definition demo_bus :: "int list \<Rightarrow> int \<Rightarrow> bus" where
  "demo_bus ids pos = empty_bus\<lparr>events := map (\<lambda>i. demo_row i ''wicked.a'') ids, events_seq := 9,
     subscriptions := [\<lparr>su_id = ''s'', su_plugin = ''p'', su_role = Subscriber, su_filter = ''wicked.*'',
       su_schema_version = None, su_registered_at = 0, su_deregistered_at = None\<rparr>],
     cursors := [\<lparr>cu_id = ''c'', cu_sub = ''s'', cu_last = pos, cu_acked_at = None, cu_created_at = 0,
       cu_deregistered_at = None\<rparr>]\<rparr>"

lemma demo_bus_cursor [simp]:
  "cursor_position (demo_bus ids pos) ''c'' = Some pos" "cursor_filter (demo_bus ids pos) ''c'' = Some ''wicked.*''"
  by (simp_all add: demo_bus_def empty_bus_def cursor_position_def cursor_filter_def find_cursor_def find_sub_def
      cursor_active_def)

lemma demo_bus_wf:
  "sorted_wrt (<) ids \<Longrightarrow> \<forall>i\<in>set ids. 0 < i \<and> i \<le> 9 \<Longrightarrow> bus_wf (demo_bus ids pos)"
proof -
  assume s: "sorted_wrt (<) ids" and r: "\<forall>i\<in>set ids. 0 < i \<and> i \<le> 9"
  have "inj_on int_str (set ids)" by (rule inj_onI) (metis parse_int_str option.inject)
  then have "distinct (map int_str ids)" using sorted_strict_imp_distinct [OF s] by (simp add: distinct_map)
  then show ?thesis using s r by (auto simp: wf_defs demo_bus_def empty_bus_def demo_row_def comp_def)
qed

lemma poll_delivers_oldest_pending_witness:
  "map ev_id (case poll (demo_bus [4, 5] 3) ''c'' (Some 1) None of Inr es \<Rightarrow> es | Inl _ \<Rightarrow> []) = [4]"
proof -
  have wf: "bus_wf (demo_bus [4, 5] 3)" by (rule demo_bus_wf) auto
  have f: "filter (\<lambda>e. 3 < ev_id e \<and> event_matches ''wicked.*'' e) (events (demo_bus [4, 5] 3))
      = [demo_row 4 ''wicked.a'', demo_row 5 ''wicked.a'']" by code_simp
  have m: "min_event_id (demo_bus [4, 5] 3) = Some 4" by code_simp
  have id4: "ev_id (demo_row 4 t) = 4" for t by (simp add: demo_row_def)
  from poll_delivers_oldest_pending [OF wf demo_bus_cursor, of 1] f m show ?thesis
    by (auto simp: id4 append_eq_Cons_conv Cons_eq_append_conv split: sum.splits if_splits)
qed

text \<open>Acknowledging moves exactly one cursor: the named active cursor lands on the given id, every
  other cursor keeps its position, and no event, dead letter or retry record changes; a cursor that is
  unknown or deregistered is refused with WB-006 and nothing changes.\<close>

theorem ack_moves_one_cursor:
  assumes "bus_wf b"
  shows "bus_wf (snd (ack b cid n now)) \<and> events (snd (ack b cid n now)) = events b \<and>
     dead_letters (snd (ack b cid n now)) = dead_letters b \<and>
     delivery_attempts (snd (ack b cid n now)) = delivery_attempts b \<and>
     (\<forall>c'. c' = cid \<or> cursor_position (snd (ack b cid n now)) c' = cursor_position b c') \<and>
     (case cursor_position b cid of
        Some p \<Rightarrow> fst (ack b cid n now) = Inr (cid, n) \<and> cursor_position (snd (ack b cid n now)) cid = Some n
      | None \<Rightarrow> (\<exists>e. ack b cid n now = (Inl e, b) \<and> is_wb WB006 e))"
proof -
  have "\<forall>c'. c' = cid \<or> cursor_position (snd (ack b cid n now)) c' = cursor_position b c'"
    using acked.advance_other by blast
  moreover have "case cursor_position b cid of
      Some p \<Rightarrow> fst (ack b cid n now) = Inr (cid, n) \<and> cursor_position (snd (ack b cid n now)) cid = Some n
    | None \<Rightarrow> (\<exists>e. ack b cid n now = (Inl e, b) \<and> is_wb WB006 e)"
    using acked.advance_same [of b cid n now]
    by (auto simp: ack_active ack_inactive is_wb_def cursor_not_found_def split: option.splits)
  ultimately show ?thesis using assms ack_wf [of b cid n now] by simp
qed

lemma ack_moves_one_cursor_witness:
  "cursor_position (snd (ack (demo_bus [4, 5] 3) ''c'' 4 0)) ''c'' = Some 4"
proof -
  have "bus_wf (demo_bus [4, 5] 3)" by (rule demo_bus_wf) auto
  from ack_moves_one_cursor [OF this, of "''c''" 4 0] show ?thesis by simp
qed

text \<open>C17: A cursor the sweep left behind can always be moved on, and loses nothing that is still stored:
  after a poll fails with WB-003, re-anchoring the cursor just below the oldest stored id succeeds, and
  the next poll returns the first batch of all stored events that match its filter.\<close>

theorem reanchor_unblocks_poll:
  assumes "bus_wf b" and "cursor_filter b cid = Some f"
    and "poll b cid (Some n) None = Inl e" and "is_wb WB003 e" and "0 < n"
    and "ctx_get e ''oldest_available_event_id'' = jint m"
  shows "\<exists>b'. reanchor_cursor b cid (jint (m - 1)) now = (Inr (cid, m - 1), b') \<and> events b' = events b \<and>
     poll b' cid (Some n) None = Inr (sql_limit n (filter (event_matches f) (events b)))"
proof -
  from poll_WB003 [OF assms(3,4)] obtain c m' where c: "find_cursor b cid = Some c" "cursor_active c"
    and m': "min_event_id b = Some m'" "e = WB WB003 [(''cursor_last_event_id'', jint (cu_last c)),
        (''oldest_available_event_id'', jint m')]" by blast
  from assms(6) have mm: "m' = m" unfolding m'(2) ctx_get_oldest by simp
  have pos: "cursor_position b cid \<noteq> None" using c by (simp add: cursor_position_def)
  from min_event_id_Some [OF m'(1)] have min: "\<forall>x\<in>set (events b). m \<le> ev_id x" and m0: "0 < m"
    using assms(1) mm by (auto simp: wf_defs)
  let ?b = "update_cursor_position cid (m - 1) now b"
  have r: "reanchor_cursor b cid (jint (m - 1)) now = (Inr (cid, m - 1), ?b)"
    using reanchor_active [OF pos, of "m - 1" now] m0 by simp
  have wf: "bus_wf ?b" using assms(1) by (rule update_cursor_position_wf)
  have p: "cursor_position ?b cid = Some (m - 1)" using pos by (rule cursor_position_update_same)
  have f: "cursor_filter ?b cid = Some f" using assms(2) by simp
  have mn: "min_event_id ?b = Some m" using m'(1) mm by (simp add: min_event_id_def)
  have "pending ?b f (m - 1) = filter (event_matches f) (events b)"
    unfolding pending_def by (rule filter_cong) (use min in force)+
  with poll_eq [OF wf p f, of "Some n" None] mn assms(5) have
    "poll ?b cid (Some n) None = Inr (sql_limit n (filter (event_matches f) (events b)))"
    by (simp add: effective_batch_def)
  with r show ?thesis by (intro exI [of _ ?b]) simp
qed

lemma reanchor_unblocks_poll_witness:
  "\<exists>b'. reanchor_cursor (demo_bus [4, 5] 1) ''c'' (jint 3) 0 = (Inr (''c'', 3), b') \<and>
     map ev_id (case poll b' ''c'' (Some 9) None of Inr es \<Rightarrow> es | Inl _ \<Rightarrow> []) = [4, 5]"
proof -
  have wf: "bus_wf (demo_bus [4, 5] 1)" by (rule demo_bus_wf) auto
  have "min_event_id (demo_bus [4, 5] 1) = Some 4" by code_simp
  then have pl: "poll (demo_bus [4, 5] 1) ''c'' (Some 9) None = raise_wb WB003
      [(''cursor_last_event_id'', jint 1), (''oldest_available_event_id'', jint 4)]"
    by (simp add: poll_eq [OF wf demo_bus_cursor])
  have f: "filter (event_matches ''wicked.*'') (events (demo_bus [4, 5] 1))
      = [demo_row 4 ''wicked.a'', demo_row 5 ''wicked.a'']" by code_simp
  from reanchor_unblocks_poll [OF wf demo_bus_cursor(2) pl _ _ ctx_get_oldest, of 0] f show ?thesis
    by (auto simp: is_wb_def sql_limit_def demo_row_def)
qed

end
