(* ===== verification/BusRetention.thy ===== *)
theory BusRetention
  imports BusPoll "HOL-Library.Product_Lexorder" "HOL-Library.AList" "HOL-Library.Multiset"
begin

text \<open>
  Retention policy, \<open>lib/retention.js\<close>: the configured policy and cap, the expired events an active
  consumer still owes an acknowledgment for, and the reconciliation report. \<open>temp._wb_owed\<close> is the
  list of (cursor, event) pairs without repetition. Proved: what \<open>owed\<close> means, and that the
  report accounts for every owed pair in exactly one line of the right cursor and disposition.
\<close>

section \<open>Configuration\<close>

datatype unacked_policy = Retain | Archive | Discard

definition resolveUnackedPolicy :: "jsval \<Rightarrow> unacked_policy res" where
  "resolveUnackedPolicy v =
     (if nullish v then Inr Retain
      else if v = JStr ''retain'' then Inr Retain
      else if v = JStr ''archive'' then Inr Archive
      else if v = JStr ''discard'' then Inr Discard
      else Inl (PlainError ''Invalid config: unacked_policy''))"

definition DAY_MS :: rat where "DAY_MS = 86400000"

definition DEFAULT_UNACKED_RETENTION_DAYS :: rat where "DEFAULT_UNACKED_RETENTION_DAYS = 30"

definition resolveRetentionCapDays :: "jsval \<Rightarrow> rat res" where
  "resolveRetentionCapDays v =
     (if nullish v then Inr DEFAULT_UNACKED_RETENTION_DAYS
      else (case v of
              JNum (Fin q) \<Rightarrow> if 0 < q then Inr q else Inl (PlainError ''Invalid config: unacked_retention_days'')
            | _ \<Rightarrow> Inl (PlainError ''Invalid config: unacked_retention_days'')))"

section \<open>Owed events\<close>

definition active_joined :: "bus \<Rightarrow> (cursor_row \<times> subscription_row) list" where
  "active_joined b = concat (map (\<lambda>c. if cursor_active c then
       (case find_sub b (cu_sub c) of Some s \<Rightarrow> if sub_active s then [(c, s)] else [] | None \<Rightarrow> [])
     else []) (cursors b))"

text \<open>The rows one active cursor's \<open>INSERT ... SELECT\<close> contributes, and the pending retries.\<close>

definition owed_by_position :: "bus \<Rightarrow> rat \<Rightarrow> cursor_row \<times> subscription_row \<Rightarrow> (string \<times> int) list" where
  "owed_by_position b now cs =
     map (\<lambda>e. (cu_id (fst cs), ev_id e))
       (filter (\<lambda>e. expired now e \<and> cu_last (fst cs) < ev_id e \<and> event_matches (su_filter (snd cs)) e) (events b))"

definition owed_by_retry :: "bus \<Rightarrow> rat \<Rightarrow> (string \<times> int) list" where
  "owed_by_retry b now =
     map (\<lambda>a. (da_cursor a, da_event a))
       (filter (\<lambda>a. (case find_event b (da_event a) of Some e \<Rightarrow> expired now e | None \<Rightarrow> False) \<and>
                    (case find_cursor b (da_cursor a) of Some c \<Rightarrow> cursor_active c | None \<Rightarrow> False))
         (delivery_attempts b))"

definition owed_pairs :: "bus \<Rightarrow> rat \<Rightarrow> (string \<times> int) list" where
  "owed_pairs b now = remdups (concat (map (owed_by_position b now) (active_joined b)) @ owed_by_retry b now)"

text \<open>The per-cursor summary \<open>collectOwedExpired\<close> returns.\<close>

record owed_summary =
  os_cursor :: string
  os_count :: nat
  os_oldest :: "int option"
  os_newest :: "int option"

definition collectOwedExpired :: "bus \<Rightarrow> rat \<Rightarrow> owed_summary list" where
  "collectOwedExpired b now =
     map (\<lambda>c. let ids = map snd (filter (\<lambda>p. fst p = c) (owed_pairs b now)) in
            \<lparr>os_cursor = c, os_count = length ids, os_oldest = list_min ids, os_newest = list_max ids\<rparr>)
       (sort (remdups (map fst (owed_pairs b now))))"

record owed =
  ow_event :: int
  ow_cursor :: string
  ow_over_cap :: bool

definition owedPairsWithCap :: "bus \<Rightarrow> rat \<Rightarrow> rat \<Rightarrow> owed list" where
  "owedPairsWithCap b now capDays =
     concat (map (\<lambda>(c, i). case find_event b i of
         Some e \<Rightarrow> [\<lparr>ow_event = i, ow_cursor = c, ow_over_cap = (ev_emitted_at e < now - capDays * DAY_MS)\<rparr>]
       | None \<Rightarrow> [])
       (sort (owed_pairs b now)))"

section \<open>The report\<close>

datatype disposition = Retained | Archived | Discarded

fun verb :: "unacked_policy \<Rightarrow> disposition" where
  "verb Retain = Retained"
| "verb Archive = Archived"
| "verb Discard = Discarded"

datatype reason = ByPolicy | ByCap | CapPending

text \<open>The order of the dispositions' names.\<close>

fun disposition_name :: "disposition \<Rightarrow> string" where
  "disposition_name Retained = ''retained''"
| "disposition_name Archived = ''archived''"
| "disposition_name Discarded = ''discarded''"

lemma disposition_name_inj: "disposition_name a = disposition_name b \<Longrightarrow> a = b"
  by (cases a; cases b) simp_all

instantiation disposition :: linorder
begin

definition less_eq_disposition :: "disposition \<Rightarrow> disposition \<Rightarrow> bool" where
  "less_eq_disposition a b \<longleftrightarrow> disposition_name a \<le> disposition_name b"

definition less_disposition :: "disposition \<Rightarrow> disposition \<Rightarrow> bool" where
  "less_disposition a b \<longleftrightarrow> disposition_name a < disposition_name b"

instance
  by standard (auto simp: less_eq_disposition_def less_disposition_def intro: disposition_name_inj)

end

record report_line =
  rl_cursor :: string
  rl_count :: nat
  rl_oldest :: int
  rl_newest :: int
  rl_disposition :: disposition
  rl_reason :: reason

record report =
  rp_counts :: "(disposition \<times> nat) list"
  rp_cap_days :: rat
  rp_cursors :: "report_line list"

type_synonym line_key = "string \<times> disposition \<times> reason"

definition pair_key :: "(owed \<Rightarrow> disposition \<times> reason) \<Rightarrow> owed \<Rightarrow> line_key" where
  "pair_key fate p = (ow_cursor p, fate p)"

definition fresh_line :: "owed \<Rightarrow> disposition \<times> reason \<Rightarrow> report_line" where
  "fresh_line p f = \<lparr>rl_cursor = ow_cursor p, rl_count = 0, rl_oldest = ow_event p, rl_newest = ow_event p,
     rl_disposition = fst f, rl_reason = snd f\<rparr>"

definition count_pair :: "owed \<Rightarrow> report_line \<Rightarrow> report_line" where
  "count_pair p l = l\<lparr>rl_count := rl_count l + 1, rl_oldest := min (rl_oldest l) (ow_event p),
     rl_newest := max (rl_newest l) (ow_event p)\<rparr>"

text \<open>One iteration of the loop: the sets of event ids per disposition and the lines, both \<open>Map\<close>s.\<close>

definition report_step ::
  "(owed \<Rightarrow> disposition \<times> reason) \<Rightarrow> owed \<Rightarrow> (disposition \<times> int list) list \<times> (line_key \<times> report_line) list
     \<Rightarrow> (disposition \<times> int list) list \<times> (line_key \<times> report_line) list" where
  "report_step fate p st =
     (let (counts, ls) = st; f = fate p; ids = (case map_of counts (fst f) of Some xs \<Rightarrow> xs | None \<Rightarrow> []);
          key = pair_key fate p; line = (case map_of ls key of Some l \<Rightarrow> l | None \<Rightarrow> fresh_line p f)
      in (AList.update (fst f) (List.insert (ow_event p) ids) counts, AList.update key (count_pair p line) ls))"

definition buildUnackedReport :: "owed list \<Rightarrow> (owed \<Rightarrow> disposition \<times> reason) \<Rightarrow> unacked_policy \<Rightarrow> rat \<Rightarrow> report" where
  "buildUnackedReport pairs fate policy capDays =
     (let (counts, ls) = fold (report_step fate) pairs ([(verb policy, [])], [])
      in \<lparr>rp_counts = map (\<lambda>(d, ids). (d, length ids)) counts, rp_cap_days = capDays,
          rp_cursors = sort_key (\<lambda>l. (rl_cursor l, rl_disposition l)) (map snd ls)\<rparr>)"

section \<open>Facts about owed events\<close>

text \<open>An expired stored event that a cursor still owes an acknowledgment for.\<close>

definition owes :: "bus \<Rightarrow> rat \<Rightarrow> string \<Rightarrow> int \<Rightarrow> bool" where
  "owes b now cid i \<longleftrightarrow>
     (\<exists>e c. e \<in> set (events b) \<and> ev_id e = i \<and> expired now e \<and> c \<in> set (cursors b) \<and> cu_id c = cid \<and> cursor_active c \<and>
        ((\<exists>s\<in>set (subscriptions b). su_id s = cu_sub c \<and> sub_active s \<and> cu_last c < i \<and> event_matches (su_filter s) e) \<or>
         (\<exists>a\<in>set (delivery_attempts b). da_cursor a = cid \<and> da_event a = i)))"

lemma active_joined_iff:
  assumes "bus_wf b"
  shows "(c, s) \<in> set (active_joined b) \<longleftrightarrow> c \<in> set (cursors b) \<and> cursor_active c \<and>
     s \<in> set (subscriptions b) \<and> su_id s = cu_sub c \<and> sub_active s"
proof -
  have f: "find_sub b k = Some s' \<longleftrightarrow> s' \<in> set (subscriptions b) \<and> su_id s' = k" for s' k
    using find_sub_Some [OF bus_wfD(2) [OF assms]] .
  have "(c, s) \<in> set (active_joined b) \<longleftrightarrow>
      c \<in> set (cursors b) \<and> cursor_active c \<and> find_sub b (cu_sub c) = Some s \<and> sub_active s"
    by (force simp: active_joined_def split: option.splits if_splits)
  then show ?thesis using f by auto
qed

lemma owed_by_position_iff:
  "(cid, i) \<in> set (owed_by_position b now (c, s)) \<longleftrightarrow> cu_id c = cid \<and>
     (\<exists>e\<in>set (events b). ev_id e = i \<and> expired now e \<and> cu_last c < i \<and> event_matches (su_filter s) e)"
  by (auto simp: owed_by_position_def)

lemma owed_by_retry_iff:
  assumes "bus_wf b"
  shows "(cid, i) \<in> set (owed_by_retry b now) \<longleftrightarrow>
     (\<exists>a\<in>set (delivery_attempts b). da_cursor a = cid \<and> da_event a = i) \<and>
     (\<exists>e\<in>set (events b). ev_id e = i \<and> expired now e) \<and> (\<exists>c\<in>set (cursors b). cu_id c = cid \<and> cursor_active c)"
proof -
  have fe: "find_event b k = Some e \<longleftrightarrow> e \<in> set (events b) \<and> ev_id e = k" for e k
    using find_event_Some [OF bus_wfD(1) [OF assms]] .
  have fc: "find_cursor b k = Some c \<longleftrightarrow> c \<in> set (cursors b) \<and> cu_id c = k" for c k
    using find_cursor_Some [OF bus_wfD(3) [OF assms]] .
  have 1: "(case find_event b k of Some e \<Rightarrow> expired now e | None \<Rightarrow> False)
      \<longleftrightarrow> (\<exists>e\<in>set (events b). ev_id e = k \<and> expired now e)" for k
    unfolding case_option_ex fe by blast
  have 2: "(case find_cursor b k of Some c \<Rightarrow> cursor_active c | None \<Rightarrow> False)
      \<longleftrightarrow> (\<exists>c\<in>set (cursors b). cu_id c = k \<and> cursor_active c)" for k
    unfolding case_option_ex fc by blast
  show ?thesis unfolding owed_by_retry_def 1 2 by auto
qed

lemma owed_pairs_iff:
  assumes "bus_wf b"
  shows "(cid, i) \<in> set (owed_pairs b now) \<longleftrightarrow> owes b now cid i"
proof -
  have "(cid, i) \<in> set (owed_pairs b now) \<longleftrightarrow>
      (\<exists>c s. (c, s) \<in> set (active_joined b) \<and> (cid, i) \<in> set (owed_by_position b now (c, s))) \<or>
      (cid, i) \<in> set (owed_by_retry b now)"
    by (auto simp: owed_pairs_def)
  then show ?thesis
    unfolding active_joined_iff [OF assms] owed_by_position_iff owed_by_retry_iff [OF assms] owes_def
    by blast
qed

lemma find_event_owed:
  assumes "bus_wf b" and "owes b now cid i"
  shows "\<exists>e. find_event b i = Some e \<and> expired now e"
  using assms(2) find_event_Some [OF bus_wfD(1) [OF assms(1)]] by (auto simp: owes_def)

text \<open>The pairs of the report are exactly the owed ones, each once.\<close>

lemma owedPairsWithCap_iff:
  assumes "bus_wf b"
  shows "p \<in> set (owedPairsWithCap b now days) \<longleftrightarrow>
     (\<exists>e. find_event b (ow_event p) = Some e \<and> ow_over_cap p = (ev_emitted_at e < now - days * DAY_MS)) \<and>
     owes b now (ow_cursor p) (ow_event p)"
  unfolding owedPairsWithCap_def owed_pairs_iff [OF assms, symmetric]
  by (cases p) (force split: option.splits prod.splits)

lemma owed_pairs_owes:
  "bus_wf b \<Longrightarrow> p \<in> set (owedPairsWithCap b now days) \<Longrightarrow> owes b now (ow_cursor p) (ow_event p)"
  by (simp add: owedPairsWithCap_iff)

lemma owed_pairs_event:
  assumes "bus_wf b" and "p \<in> set (owedPairsWithCap b now days)"
  shows "\<exists>e\<in>set (events b). ev_id e = ow_event p \<and> ow_over_cap p = (ev_emitted_at e < now - days * DAY_MS)"
proof -
  from assms obtain e where "find_event b (ow_event p) = Some e" "ow_over_cap p = (ev_emitted_at e < now - days * DAY_MS)"
    by (auto simp: owedPairsWithCap_iff)
  with find_event_Some [OF bus_wfD(1) [OF assms(1)]] show ?thesis by auto
qed

lemma owed_pair_exists:
  assumes "bus_wf b" and "owes b now cid i"
  shows "\<exists>p\<in>set (owedPairsWithCap b now days). ow_event p = i \<and> ow_cursor p = cid"
proof -
  obtain e where "find_event b i = Some e" using find_event_owed [OF assms] by blast
  then have "\<lparr>ow_event = i, ow_cursor = cid, ow_over_cap = (ev_emitted_at e < now - days * DAY_MS)\<rparr>
     \<in> set (owedPairsWithCap b now days)"
    using assms by (simp add: owedPairsWithCap_iff)
  then show ?thesis by (rule rev_bexI) simp
qed

section \<open>Facts about the report\<close>

declare split_paired_All [simp del] split_paired_Ex [simp del]

text \<open>What the loop maintains: a line per key, whose count is the number of pairs with that key and
  whose range covers their events.\<close>

definition lines_ok :: "(owed \<Rightarrow> disposition \<times> reason) \<Rightarrow> owed list \<Rightarrow> (line_key \<times> report_line) list \<Rightarrow> bool" where
  "lines_ok fate ps ls \<longleftrightarrow> distinct (map fst ls) \<and>
     (\<forall>k. map_of ls k = None \<longleftrightarrow> k \<notin> pair_key fate ` set ps) \<and>
     (\<forall>k l. map_of ls k = Some l \<longrightarrow> k = (rl_cursor l, rl_disposition l, rl_reason l) \<and>
        rl_count l = length (filter (\<lambda>p. pair_key fate p = k) ps) \<and>
        (\<forall>p\<in>set ps. pair_key fate p = k \<longrightarrow> rl_oldest l \<le> ow_event p \<and> ow_event p \<le> rl_newest l))"

definition counts_ok :: "(owed \<Rightarrow> disposition \<times> reason) \<Rightarrow> owed list \<Rightarrow> (disposition \<times> int list) list \<Rightarrow> bool" where
  "counts_ok fate ps cs \<longleftrightarrow> distinct (map fst cs) \<and>
     (\<forall>p\<in>set ps. map_of cs (fst (fate p)) \<noteq> None) \<and>
     (\<forall>d ids. map_of cs d = Some ids \<longrightarrow> distinct ids \<and>
        set ids = {ow_event p | p. p \<in> set ps \<and> fst (fate p) = d})"

lemma count_pair_sel [simp]:
  "rl_cursor (count_pair p l) = rl_cursor l" "rl_disposition (count_pair p l) = rl_disposition l"
  "rl_reason (count_pair p l) = rl_reason l" "rl_count (count_pair p l) = rl_count l + 1"
  "rl_oldest (count_pair p l) = min (rl_oldest l) (ow_event p)"
  "rl_newest (count_pair p l) = max (rl_newest l) (ow_event p)"
  by (simp_all add: count_pair_def)

lemma fresh_line_sel [simp]:
  "rl_cursor (fresh_line p f) = ow_cursor p" "rl_disposition (fresh_line p f) = fst f"
  "rl_reason (fresh_line p f) = snd f" "rl_count (fresh_line p f) = 0"
  "rl_oldest (fresh_line p f) = ow_event p" "rl_newest (fresh_line p f) = ow_event p"
  by (simp_all add: fresh_line_def)

lemma report_step_counts:
  assumes "counts_ok fate ps (fst st)"
  shows "counts_ok fate (ps @ [p]) (fst (report_step fate p st))"
proof -
  obtain cs ls where st: "st = (cs, ls)" by (cases st)
  let ?d = "fst (fate p)"
  let ?ids = "case map_of cs ?d of Some xs \<Rightarrow> xs | None \<Rightarrow> []"
  have upd: "fst (report_step fate p st) = AList.update ?d (List.insert (ow_event p) ?ids) cs"
    by (simp add: st report_step_def Let_def)
  have ids: "distinct ?ids \<and> set ?ids = {ow_event q | q. q \<in> set ps \<and> fst (fate q) = ?d}"
    using assms by (cases "map_of cs ?d") (auto simp: counts_ok_def st)
  show ?thesis
    unfolding upd counts_ok_def
  proof (intro conjI allI ballI impI)
    show "distinct (map fst (AList.update ?d (List.insert (ow_event p) ?ids) cs))"
      using assms by (intro distinct_update) (simp add: counts_ok_def st)
  next
    fix q assume "q \<in> set (ps @ [p])"
    then show "map_of (AList.update ?d (List.insert (ow_event p) ?ids) cs) (fst (fate q)) \<noteq> None"
      using assms by (auto simp: update_conv' counts_ok_def st)
  next
    fix d xs assume m: "map_of (AList.update ?d (List.insert (ow_event p) ?ids) cs) d = Some xs"
    show "distinct xs"
      using m ids assms by (auto simp: update_conv' counts_ok_def st split: if_splits)
    show "set xs = {ow_event q | q. q \<in> set (ps @ [p]) \<and> fst (fate q) = d}"
    proof (cases "d = ?d")
      case True
      with m have "xs = List.insert (ow_event p) ?ids" by (simp add: update_conv')
      with ids True show ?thesis by auto
    next
      case False
      with m have "map_of cs d = Some xs" by (simp add: update_conv')
      with assms False show ?thesis by (auto simp: counts_ok_def st)
    qed
  qed
qed

lemma report_step_lines:
  assumes "lines_ok fate ps (snd st)"
  shows "lines_ok fate (ps @ [p]) (snd (report_step fate p st))"
proof -
  obtain cs ls where st: "st = (cs, ls)" by (cases st)
  let ?k = "pair_key fate p"
  let ?line = "case map_of ls ?k of Some l \<Rightarrow> l | None \<Rightarrow> fresh_line p (fate p)"
  have upd: "snd (report_step fate p st) = AList.update ?k (count_pair p ?line) ls"
    by (simp add: st report_step_def Let_def)
  have key: "?k = (rl_cursor ?line, rl_disposition ?line, rl_reason ?line)"
    and cnt: "rl_count ?line = length (filter (\<lambda>q. pair_key fate q = ?k) ps)"
    and rng: "\<forall>q\<in>set ps. pair_key fate q = ?k \<longrightarrow> rl_oldest ?line \<le> ow_event q \<and> ow_event q \<le> rl_newest ?line"
  proof -
    have "?k = (rl_cursor ?line, rl_disposition ?line, rl_reason ?line) \<and>
      rl_count ?line = length (filter (\<lambda>q. pair_key fate q = ?k) ps) \<and>
      (\<forall>q\<in>set ps. pair_key fate q = ?k \<longrightarrow> rl_oldest ?line \<le> ow_event q \<and> ow_event q \<le> rl_newest ?line)"
    proof (cases "map_of ls ?k")
      case None
      then have "?k \<notin> pair_key fate ` set ps" using assms by (simp add: lines_ok_def st)
      then have "\<forall>q\<in>set ps. pair_key fate q \<noteq> ?k" by (metis imageI)
      with None show ?thesis by (auto simp: pair_key_def filter_empty_conv)
    next
      case (Some l)
      with assms show ?thesis unfolding lines_ok_def st by simp
    qed
    then show "?k = (rl_cursor ?line, rl_disposition ?line, rl_reason ?line)"
      and "rl_count ?line = length (filter (\<lambda>q. pair_key fate q = ?k) ps)"
      and "\<forall>q\<in>set ps. pair_key fate q = ?k \<longrightarrow> rl_oldest ?line \<le> ow_event q \<and> ow_event q \<le> rl_newest ?line"
      by blast+
  qed
  show ?thesis
    unfolding upd lines_ok_def
  proof (intro conjI allI impI)
    show "distinct (map fst (AList.update ?k (count_pair p ?line) ls))"
      using assms by (intro distinct_update) (simp add: lines_ok_def st)
  next
    fix k show "(map_of (AList.update ?k (count_pair p ?line) ls) k = None) = (k \<notin> pair_key fate ` set (ps @ [p]))"
      using assms by (auto simp: update_conv' lines_ok_def st)
  next
    fix k l assume "map_of (AList.update ?k (count_pair p ?line) ls) k = Some l"
    then have c: "k = ?k \<and> l = count_pair p ?line \<or> k \<noteq> ?k \<and> map_of ls k = Some l"
      by (auto simp: update_conv' split: if_splits)
    then show "k = (rl_cursor l, rl_disposition l, rl_reason l)"
      using key assms unfolding lines_ok_def st by auto
    show "rl_count l = length (filter (\<lambda>q. pair_key fate q = k) (ps @ [p]))"
      using c cnt assms unfolding lines_ok_def st by auto
    show "\<forall>q\<in>set (ps @ [p]). pair_key fate q = k \<longrightarrow> rl_oldest l \<le> ow_event q \<and> ow_event q \<le> rl_newest l"
      using c rng assms unfolding lines_ok_def st by fastforce
  qed
qed

lemma report_fold:
  "counts_ok fate ps (fst st) \<Longrightarrow> lines_ok fate ps (snd st) \<Longrightarrow>
     counts_ok fate (ps @ qs) (fst (fold (report_step fate) qs st)) \<and>
     lines_ok fate (ps @ qs) (snd (fold (report_step fate) qs st))"
proof (induction qs arbitrary: ps st)
  case Nil
  then show ?case by simp
next
  case (Cons q qs)
  from Cons.IH [OF report_step_counts [OF Cons.prems(1)] report_step_lines [OF Cons.prems(2)]]
  show ?case by simp
qed

lemma report_loop:
  "counts_ok fate qs (fst (fold (report_step fate) qs ([(d, [])], []))) \<and>
   lines_ok fate qs (snd (fold (report_step fate) qs ([(d, [])], [])))"
proof -
  have "counts_ok fate [] [(d, [])]" by (simp add: counts_ok_def)
  moreover have "lines_ok fate [] []" by (simp add: lines_ok_def)
  ultimately show ?thesis using report_fold [of fate "[]" "([(d, [])], [])" qs] by simp
qed

lemma sum_by_key:
  "distinct ks \<Longrightarrow> f ` set ps \<subseteq> set ks \<Longrightarrow> (\<Sum>k\<leftarrow>ks. length (filter (\<lambda>p. f p = k) ps)) = length ps"
proof (induction ps)
  case Nil
  then show ?case by simp
next
  case (Cons p ps)
  have one: "distinct xs \<Longrightarrow> (\<Sum>k\<leftarrow>xs. if f p = k then Suc (g k) else g k) = (\<Sum>k\<leftarrow>xs. g k) + (if f p \<in> set xs then 1 else 0)"
    for xs and g :: "_ \<Rightarrow> nat"
    by (induction xs) auto
  have "(\<Sum>k\<leftarrow>ks. length (filter (\<lambda>q. f q = k) (p # ps)))
      = (\<Sum>k\<leftarrow>ks. if f p = k then Suc (length (filter (\<lambda>q. f q = k) ps)) else length (filter (\<lambda>q. f q = k) ps))"
    by (intro arg_cong [of _ _ sum_list] map_cong) simp_all
  also have "\<dots> = Suc (length ps)" using Cons by (simp add: one)
  finally show ?case by simp
qed

lemma lines_sum:
  assumes "lines_ok fate ps ls"
  shows "(\<Sum>l\<leftarrow>map snd ls. rl_count l) = length ps"
proof -
  have d: "distinct (map fst ls)" using assms by (simp add: lines_ok_def)
  have c: "rl_count (snd x) = length (filter (\<lambda>p. pair_key fate p = fst x) ps)" if "x \<in> set ls" for x
  proof -
    have "map_of ls (fst x) = Some (snd x)" using d that by simp
    with assms show ?thesis unfolding lines_ok_def by blast
  qed
  have "pair_key fate ` set ps \<subseteq> set (map fst ls)"
  proof
    fix k assume "k \<in> pair_key fate ` set ps"
    then have "map_of ls k \<noteq> None" using assms unfolding lines_ok_def by blast
    then show "k \<in> set (map fst ls)" by (simp add: map_of_eq_None_iff)
  qed
  from sum_by_key [OF d this] have "(\<Sum>k\<leftarrow>map fst ls. length (filter (\<lambda>p. pair_key fate p = k) ps)) = length ps" .
  moreover have "map rl_count (map snd ls) = map (\<lambda>k. length (filter (\<lambda>p. pair_key fate p = k) ps)) (map fst ls)"
    using c by simp
  ultimately show ?thesis by (simp only:)
qed

section \<open>Properties\<close>

text \<open>\<open>collectOwedExpired\<close> finds exactly the owed events: a pair of cursor and event is collected
  when the event is stored and expired, the cursor is active, and either its active subscription's
  filter admits the event above the cursor's position or a retry of it is pending. Every such pair
  reaches the sweep, flagged as over the cap exactly when the event was emitted before the cap.\<close>

theorem owed_is_unacknowledged:
  assumes "bus_wf b"
  shows "((cid, i) \<in> set (owed_pairs b now) \<longleftrightarrow>
       (\<exists>e c. e \<in> set (events b) \<and> ev_id e = i \<and> expired now e \<and> c \<in> set (cursors b) \<and> cu_id c = cid \<and> cursor_active c \<and>
          ((\<exists>s\<in>set (subscriptions b). su_id s = cu_sub c \<and> sub_active s \<and> cu_last c < i \<and> event_matches (su_filter s) e) \<or>
           (\<exists>a\<in>set (delivery_attempts b). da_cursor a = cid \<and> da_event a = i)))) \<and>
     ((cid, i) \<in> set (owed_pairs b now) \<longleftrightarrow>
       (\<exists>p\<in>set (owedPairsWithCap b now days). ow_cursor p = cid \<and> ow_event p = i)) \<and>
     (\<forall>p\<in>set (owedPairsWithCap b now days). \<exists>e\<in>set (events b). ev_id e = ow_event p \<and>
        ow_over_cap p = (ev_emitted_at e < now - days * DAY_MS))"
proof -
  have "(\<exists>p\<in>set (owedPairsWithCap b now days). ow_cursor p = cid \<and> ow_event p = i) \<longleftrightarrow> owes b now cid i"
    using owed_pair_exists [OF assms, of now cid i days] owed_pairs_owes [OF assms, of _ now days] by auto
  moreover have "\<forall>p\<in>set (owedPairsWithCap b now days). \<exists>e\<in>set (events b). ev_id e = ow_event p \<and>
        ow_over_cap p = (ev_emitted_at e < now - days * DAY_MS)"
    using owed_pairs_event [OF assms] by blast
  ultimately show ?thesis
    using owed_pairs_iff [OF assms] unfolding owes_def by blast
qed

lemma owed_is_unacknowledged_witness:
  "\<exists>p\<in>set (owedPairsWithCap (demo_bus [4, 5] 4) 11 30). ow_cursor p = ''c'' \<and> ow_event p = 5"
proof -
  have wf: "bus_wf (demo_bus [4, 5] 4)" by (rule demo_bus_wf) auto
  have "List.member (owed_pairs (demo_bus [4, 5] 4) 11) (''c'', 5)" by code_simp
  then have "(''c'', 5) \<in> set (owed_pairs (demo_bus [4, 5] 4) 11)" by simp
  with owed_is_unacknowledged [OF wf, of "''c''" 5 11 30] show ?thesis by blast
qed

text \<open>The reconciliation report loses no owed pair: the counts of its lines add up to the number of
  pairs, every pair lies in a line of its cursor, disposition and reason whose id range covers its
  event, the count given for a disposition is the number of distinct events with it, and the lines are
  ordered by cursor and disposition.\<close>

theorem report_accounts_for_every_pair:
  "(\<Sum>l\<leftarrow>rp_cursors (buildUnackedReport ps fate pol days). rl_count l) = length ps \<and>
   (\<forall>p\<in>set ps. \<exists>l\<in>set (rp_cursors (buildUnackedReport ps fate pol days)).
      rl_cursor l = ow_cursor p \<and> (rl_disposition l, rl_reason l) = fate p \<and>
      rl_oldest l \<le> ow_event p \<and> ow_event p \<le> rl_newest l) \<and>
   (\<forall>(d, n)\<in>set (rp_counts (buildUnackedReport ps fate pol days)).
      n = card {ow_event p | p. p \<in> set ps \<and> fst (fate p) = d}) \<and>
   sorted (map (\<lambda>l. (rl_cursor l, rl_disposition l)) (rp_cursors (buildUnackedReport ps fate pol days)))"
proof -
  obtain cs ls where f: "fold (report_step fate) ps ([(verb pol, [])], []) = (cs, ls)" by fastforce
  from report_loop [of fate ps "verb pol"] f have c: "counts_ok fate ps cs" and l: "lines_ok fate ps ls" by simp_all
  have r: "rp_cursors (buildUnackedReport ps fate pol days) = sort_key (\<lambda>l. (rl_cursor l, rl_disposition l)) (map snd ls)"
    "rp_counts (buildUnackedReport ps fate pol days) = map (\<lambda>(d, ids). (d, length ids)) cs"
    by (simp_all add: buildUnackedReport_def f)
  have perm: "sum_list (map rl_count (sort_key k xs)) = sum_list (map rl_count xs)"
    for k :: "report_line \<Rightarrow> string \<times> disposition" and xs
    unfolding sum_mset_sum_list [symmetric] mset_map mset_sort ..
  have "(\<Sum>x\<leftarrow>rp_cursors (buildUnackedReport ps fate pol days). rl_count x) = length ps"
    unfolding r perm by (rule lines_sum [OF l])
  moreover have "\<exists>x\<in>set (map snd ls). rl_cursor x = ow_cursor p \<and> (rl_disposition x, rl_reason x) = fate p \<and>
      rl_oldest x \<le> ow_event p \<and> ow_event p \<le> rl_newest x" if p: "p \<in> set ps" for p
  proof -
    have "map_of ls (pair_key fate p) \<noteq> None" using l p unfolding lines_ok_def by blast
    then obtain x where m: "map_of ls (pair_key fate p) = Some x" by blast
    then have "pair_key fate p = (rl_cursor x, rl_disposition x, rl_reason x)"
      "rl_oldest x \<le> ow_event p \<and> ow_event p \<le> rl_newest x" using l p unfolding lines_ok_def by blast+
    moreover have "x \<in> set (map snd ls)" using map_of_SomeD [OF m] by force
    ultimately show ?thesis by (auto simp: pair_key_def)
  qed
  moreover have "length ids = card {ow_event p | p. p \<in> set ps \<and> fst (fate p) = d}" if "(d, ids) \<in> set cs" for d ids
  proof -
    have "map_of cs d = Some ids" using that c by (simp add: counts_ok_def)
    then have "distinct ids" "set ids = {ow_event p | p. p \<in> set ps \<and> fst (fate p) = d}"
      using c unfolding counts_ok_def by blast+
    then show ?thesis by (metis distinct_card)
  qed
  moreover have "sorted (map (\<lambda>l. (rl_cursor l, rl_disposition l)) (rp_cursors (buildUnackedReport ps fate pol days)))"
    unfolding r by (rule sorted_sort_key)
  ultimately show ?thesis unfolding r by auto
qed

lemma report_accounts_for_every_pair_witness:
  "\<exists>l\<in>set (rp_cursors (buildUnackedReport [\<lparr>ow_event = 3, ow_cursor = ''c'', ow_over_cap = True\<rparr>]
       (\<lambda>p. (Archived, ByCap)) Retain 30)). rl_cursor l = ''c'' \<and> rl_disposition l = Archived \<and> rl_oldest l \<le> 3"
  using report_accounts_for_every_pair [of "[\<lparr>ow_event = 3, ow_cursor = ''c'', ow_over_cap = True\<rparr>]" "\<lambda>p. (Archived, ByCap)" Retain 30]
  by auto

end
