(* ===== verification/BusSweep.thy ===== *)
theory BusSweep
  imports BusRetention
begin

text \<open>
  The in-database sweep, \<open>lib/sweep.js\<close>: one transaction that deletes expired events under the
  unacked policy, copying to \<open>events_archive\<close> what the configuration says to keep. The abstract
  specification \<open>swept_to\<close> says for one event whether it stays, is archived or is dropped; the
  transaction is proved to implement it. Under the default policy no event an active consumer still
  owes is lost.
\<close>

section \<open>events_archive\<close>

text \<open>\<open>INSERT OR IGNORE INTO events_archive SELECT * FROM events WHERE P\<close>; rows in key order.\<close>

definition archive_insert :: "event_row \<Rightarrow> event_row list \<Rightarrow> event_row list" where
  "archive_insert e es = (if ev_id e \<in> ev_id ` set es then es else insort_key ev_id e es)"

definition archive_where :: "(event_row \<Rightarrow> bool) \<Rightarrow> bus \<Rightarrow> bus" where
  "archive_where P b = b\<lparr>events_archive :=
     map_option (fold archive_insert (filter P (events b))) (events_archive b)\<rparr>"

definition ensure_archive :: "bus \<Rightarrow> bus" where
  "ensure_archive b = b\<lparr>events_archive := (case events_archive b of None \<Rightarrow> Some [] | Some es \<Rightarrow> Some es)\<rparr>"

section \<open>runSweep\<close>

record sweep_result =
  sr_deleted :: nat
  sr_policy :: unacked_policy
  sr_unacked :: report

definition sweep_capped :: "unacked_policy \<Rightarrow> owed list \<Rightarrow> int list" where
  "sweep_capped policy pairs = (if policy = Retain then remdups (map ow_event (filter ow_over_cap pairs)) else [])"

definition sweep_fate :: "unacked_policy \<Rightarrow> owed \<Rightarrow> disposition \<times> reason" where
  "sweep_fate policy p = (if policy = Retain \<and> ow_over_cap p then (Archived, ByCap) else (verb policy, ByPolicy))"

text \<open>The \<open>WHERE\<close> clause of the \<open>DELETE\<close>.\<close>

definition sweep_deletes :: "unacked_policy \<Rightarrow> int list \<Rightarrow> int list \<Rightarrow> rat \<Rightarrow> event_row \<Rightarrow> bool" where
  "sweep_deletes policy owed_ids capped now e =
     (expired now e \<and> (policy = Retain \<longrightarrow> ev_id e \<notin> set owed_ids \<or> ev_id e \<in> set capped))"

definition sweep_txn :: "unacked_policy \<Rightarrow> rat \<Rightarrow> bool \<Rightarrow> rat \<Rightarrow> bus \<Rightarrow> sweep_result \<times> bus" where
  "sweep_txn policy capDays archive_mode now b =
     (let pairs = owedPairsWithCap b now capDays;
          owed_ids = map snd (owed_pairs b now);
          capped = sweep_capped policy pairs;
          archivesOwed = (policy = Archive \<and> map ow_event pairs \<noteq> []);
          b1 = (if archive_mode \<or> archivesOwed \<or> capped \<noteq> [] then ensure_archive b else b);
          b2 = (if archive_mode then archive_where (\<lambda>e. expired now e \<and> ev_id e \<notin> set owed_ids) b1 else b1);
          b3 = (if archivesOwed then archive_where (\<lambda>e. ev_id e \<in> set owed_ids) b2 else b2);
          b4 = (if capped \<noteq> [] then archive_where (\<lambda>e. ev_id e \<in> set capped) b3 else b3);
          gone = sweep_deletes policy owed_ids capped now
      in (\<lparr>sr_deleted = length (filter gone (events b4)), sr_policy = policy,
           sr_unacked = buildUnackedReport pairs (sweep_fate policy) policy capDays\<rparr>,
          b4\<lparr>events := filter (\<lambda>e. \<not> gone e) (events b4)\<rparr>))"

record sweep_config =
  sc_unacked_policy :: jsval
  sc_unacked_retention_days :: jsval
  sc_archive_mode :: jsval

definition runSweep :: "sweep_config \<Rightarrow> rat \<Rightarrow> bus \<Rightarrow> sweep_result res \<times> bus" where
  "runSweep cfg now b =
     (case resolveUnackedPolicy (sc_unacked_policy cfg) of
        Inl e \<Rightarrow> (Inl e, b)
      | Inr policy \<Rightarrow>
          (case resolveRetentionCapDays (sc_unacked_retention_days cfg) of
             Inl e \<Rightarrow> (Inl e, b)
           | Inr days \<Rightarrow>
               (let (r, b') = sweep_txn policy days (truthy (sc_archive_mode cfg)) now b in (Inr r, b'))))"

text \<open>
  The delay a timer of Node runs with: one that is below 1 ms or does not fit into 31 bits becomes 1 ms.
  The interval of \<open>startSweep\<close>, \<open>None\<close> when the sweep is disabled.
\<close>

definition timer_delay :: "rat \<Rightarrow> rat" where
  "timer_delay ms = (if 1 \<le> ms \<and> ms \<le> 2147483647 then ms else 1)"

definition sweep_interval_ms :: "jsnum \<Rightarrow> rat option" where
  "sweep_interval_ms minutes = (case minutes of
      Fin q \<Rightarrow> if q \<le> 0 then None else Some (timer_delay (max 1000 (q * 60000)))
    | _ \<Rightarrow> None)"

section \<open>What a sweep does to one event\<close>

datatype tier = Live | InArchive | Dropped

definition swept_to :: "unacked_policy \<Rightarrow> bool \<Rightarrow> bool \<Rightarrow> bool \<Rightarrow> bool \<Rightarrow> tier" where
  "swept_to policy archive_mode is_expired is_owed over_cap =
     (if \<not> is_expired then Live
      else if \<not> is_owed then (if archive_mode then InArchive else Dropped)
      else (case policy of Retain \<Rightarrow> if over_cap then InArchive else Live
                         | Archive \<Rightarrow> InArchive | Discard \<Rightarrow> Dropped))"

definition owed_event :: "bus \<Rightarrow> rat \<Rightarrow> event_row \<Rightarrow> bool" where
  "owed_event b now e \<longleftrightarrow> ev_id e \<in> snd ` set (owed_pairs b now)"

definition past_cap :: "rat \<Rightarrow> rat \<Rightarrow> event_row \<Rightarrow> bool" where
  "past_cap now capDays e \<longleftrightarrow> ev_emitted_at e < now - capDays * DAY_MS"

definition event_fate :: "unacked_policy \<Rightarrow> rat \<Rightarrow> bool \<Rightarrow> rat \<Rightarrow> bus \<Rightarrow> event_row \<Rightarrow> tier" where
  "event_fate policy capDays archive_mode now b e =
     swept_to policy archive_mode (expired now e) (owed_event b now e) (past_cap now capDays e)"

definition archived_rows :: "bus \<Rightarrow> event_row set" where
  "archived_rows b = (case events_archive b of Some es \<Rightarrow> set es | None \<Rightarrow> {})"

text \<open>Archived events are no longer live, and their ids are used up.\<close>

definition archive_ok :: "bus \<Rightarrow> bool" where
  "archive_ok b \<longleftrightarrow> (\<forall>a\<in>archived_rows b. ev_id a \<le> events_seq b \<and> ev_id a \<notin> ev_id ` set (events b))"

lemma set_archive_insert:
  "set (archive_insert e es) = (if ev_id e \<in> ev_id ` set es then set es else insert e (set es))"
  by (simp add: archive_insert_def set_insort_key)

text \<open>Archived copies agree with live rows of the same id.\<close>

definition coherent :: "event_row list \<Rightarrow> event_row set \<Rightarrow> bool" where
  "coherent es A \<longleftrightarrow> (\<forall>a\<in>A. \<forall>e\<in>set es. ev_id a = ev_id e \<longrightarrow> a = e)"

lemma fold_archive_insert:
  assumes "set rs \<subseteq> set live" and "coherent live (set es)"
    and inj: "\<And>x y. x \<in> set live \<Longrightarrow> y \<in> set live \<Longrightarrow> ev_id x = ev_id y \<Longrightarrow> x = y"
  shows "set (fold archive_insert rs es) = set es \<union> set rs"
  using assms(1,2)
proof (induction rs arbitrary: es)
  case Nil
  then show ?case by simp
next
  case (Cons r rs)
  have "r \<in> set es" if "x \<in> set es" "ev_id r = ev_id x" for x
    using Cons.prems that unfolding coherent_def by (metis list.set_intros(1) subsetD)
  then have "set (archive_insert r es) = insert r (set es)"
    by (auto simp: set_archive_insert)
  moreover have "coherent live (insert r (set es))"
    using Cons.prems inj by (auto simp: coherent_def)
  ultimately show ?case using Cons.IH [of "archive_insert r es"] Cons.prems(1) by auto
qed

text \<open>The archive side of the transaction, for a live table with distinct ids.\<close>

lemma archive_where_frame [simp]:
  "events (archive_where P b) = events b" "events_seq (archive_where P b) = events_seq b"
  "subscriptions (archive_where P b) = subscriptions b" "cursors (archive_where P b) = cursors b"
  "dead_letters (archive_where P b) = dead_letters b" "dead_letters_seq (archive_where P b) = dead_letters_seq b"
  "delivery_attempts (archive_where P b) = delivery_attempts b"
  "events (ensure_archive b) = events b" "events_seq (ensure_archive b) = events_seq b"
  "subscriptions (ensure_archive b) = subscriptions b" "cursors (ensure_archive b) = cursors b"
  "dead_letters (ensure_archive b) = dead_letters b" "dead_letters_seq (ensure_archive b) = dead_letters_seq b"
  "delivery_attempts (ensure_archive b) = delivery_attempts b"
  by (simp_all add: archive_where_def ensure_archive_def)

lemma archived_ensure [simp]: "archived_rows (ensure_archive b) = archived_rows b"
  by (simp add: archived_rows_def ensure_archive_def split: option.split)

lemma archived_where:
  assumes "events_wf b" and "coherent (events b) (archived_rows b)" and "events_archive b \<noteq> None"
  shows "archived_rows (archive_where P b) = archived_rows b \<union> {e \<in> set (events b). P e}"
    and "coherent (events b) (archived_rows (archive_where P b))"
    and "events_archive (archive_where P b) \<noteq> None"
proof -
  have inj: "x \<in> set (events b) \<Longrightarrow> y \<in> set (events b) \<Longrightarrow> ev_id x = ev_id y \<Longrightarrow> x = y" for x y
    using events_wf_inj [OF assms(1)] by blast
  obtain es where es: "events_archive b = Some es" using assms(3) by blast
  then have co: "coherent (events b) (set es)" using assms(2) by (simp add: archived_rows_def)
  have "set (filter P (events b)) \<subseteq> set (events b)" by auto
  from fold_archive_insert [OF this co inj]
  have "set (fold archive_insert (filter P (events b)) es) = set es \<union> {e \<in> set (events b). P e}"
    by (simp only: set_filter)
  then show eq: "archived_rows (archive_where P b) = archived_rows b \<union> {e \<in> set (events b). P e}"
    by (simp add: archived_rows_def archive_where_def es)
  show "coherent (events b) (archived_rows (archive_where P b))"
    unfolding eq coherent_def archive_where_frame
  proof (intro ballI impI)
    fix a e assume a: "a \<in> archived_rows b \<union> {e \<in> set (events b). P e}" and e: "e \<in> set (events b)" "ev_id a = ev_id e"
    show "a = e"
    proof (cases "a \<in> archived_rows b")
      case True
      then show ?thesis using assms(2) e unfolding coherent_def by blast
    next
      case False
      then have "a \<in> set (events b)" using a by blast
      then show ?thesis using inj e by blast
    qed
  qed
  show "events_archive (archive_where P b) \<noteq> None" using es by (simp add: archive_where_def)
qed

lemma ensured [simp]: "events_archive (ensure_archive b) \<noteq> None"
  by (simp add: ensure_archive_def split: option.split)

lemma archive_ok_coherent: "archive_ok b \<Longrightarrow> coherent (events b) (archived_rows b)"
  unfolding archive_ok_def coherent_def by (metis imageI)

section \<open>The transaction implements the specification\<close>

lemma owed_event_iff:
  assumes "bus_wf b"
  shows "owed_event b now e \<longleftrightarrow> (\<exists>cid. owes b now cid (ev_id e))"
proof -
  have "owed_event b now e \<longleftrightarrow> (\<exists>cid. (cid, ev_id e) \<in> set (owed_pairs b now))"
    by (force simp: owed_event_def)
  then show ?thesis using owed_pairs_iff [OF assms] by blast
qed

lemma owed_expired:
  assumes "bus_wf b" and "e \<in> set (events b)" and "owed_event b now e"
  shows "expired now e"
proof -
  from assms(3) obtain cid where "owes b now cid (ev_id e)" unfolding owed_event_iff [OF assms(1)] by blast
  then obtain x where "x \<in> set (events b)" "ev_id x = ev_id e" "expired now x" by (auto simp: owes_def)
  with events_wf_inj [OF bus_wfD(1) [OF assms(1)], of x e] assms(2) show ?thesis by simp
qed

lemma capped_iff:
  assumes "bus_wf b" and "e \<in> set (events b)"
  shows "ev_id e \<in> set (sweep_capped policy (owedPairsWithCap b now days)) \<longleftrightarrow>
     policy = Retain \<and> owed_event b now e \<and> past_cap now days e"
proof -
  have fe: "find_event b (ev_id e) = Some e"
    using find_event_Some [OF bus_wfD(1) [OF assms(1)]] assms(2) by simp
  have "(\<exists>p\<in>set (owedPairsWithCap b now days). ow_event p = ev_id e \<and> ow_over_cap p)
      \<longleftrightarrow> owed_event b now e \<and> past_cap now days e"
  proof
    assume "\<exists>p\<in>set (owedPairsWithCap b now days). ow_event p = ev_id e \<and> ow_over_cap p"
    then obtain p where "p \<in> set (owedPairsWithCap b now days)" "ow_event p = ev_id e" "ow_over_cap p" by blast
    with fe show "owed_event b now e \<and> past_cap now days e"
      unfolding owed_event_iff [OF assms(1)] owedPairsWithCap_iff [OF assms(1)] past_cap_def by auto
  next
    assume a: "owed_event b now e \<and> past_cap now days e"
    then obtain cid where o: "owes b now cid (ev_id e)" unfolding owed_event_iff [OF assms(1)] by blast
    from owed_pair_exists [OF assms(1) o, of days] obtain p where p: "p \<in> set (owedPairsWithCap b now days)"
      "ow_event p = ev_id e" by blast
    with fe a have "ow_over_cap p" unfolding owedPairsWithCap_iff [OF assms(1)] past_cap_def by auto
    with p show "\<exists>p\<in>set (owedPairsWithCap b now days). ow_event p = ev_id e \<and> ow_over_cap p" by blast
  qed
  moreover have "ev_id e \<in> set (sweep_capped policy (owedPairsWithCap b now days)) \<longleftrightarrow>
      policy = Retain \<and> (\<exists>p\<in>set (owedPairsWithCap b now days). ow_event p = ev_id e \<and> ow_over_cap p)"
    unfolding sweep_capped_def by (cases policy) (simp_all add: image_iff, metis)
  ultimately show ?thesis by blast
qed

lemma pairs_nonempty:
  assumes "bus_wf b" and "owed_event b now e"
  shows "map ow_event (owedPairsWithCap b now days) \<noteq> []"
proof -
  from assms(2) obtain cid where "owes b now cid (ev_id e)" unfolding owed_event_iff [OF assms(1)] by blast
  from owed_pair_exists [OF assms(1) this, of days] have "owedPairsWithCap b now days \<noteq> []"
    by (metis empty_iff empty_set)
  then show ?thesis by simp
qed

text \<open>One conditional archive statement.\<close>

lemma archive_step:
  assumes "events_wf b" and "coherent (events b) (archived_rows b)" and "c \<Longrightarrow> events_archive b \<noteq> None"
    and b': "b' = (if c then archive_where P b else b)"
  shows "archived_rows b' = archived_rows b \<union> {e \<in> set (events b). c \<and> P e}"
    and "coherent (events b') (archived_rows b')" and "events b' = events b" and "events_seq b' = events_seq b"
    and "events_archive b \<noteq> None \<Longrightarrow> events_archive b' \<noteq> None"
  using archived_where [OF assms(1,2), of P] assms(2,3) unfolding b' by auto

lemma sweep_txn_events:
  assumes "bus_wf b"
  shows "events (snd (sweep_txn policy days am now b)) =
     filter (\<lambda>e. event_fate policy days am now b e = Live) (events b)"
proof -
  let ?c = "sweep_capped policy (owedPairsWithCap b now days)"
  have "events (snd (sweep_txn policy days am now b)) =
     filter (\<lambda>e. \<not> sweep_deletes policy (map snd (owed_pairs b now)) ?c now e) (events b)"
    by (simp add: sweep_txn_def Let_def)
  also have "\<dots> = filter (\<lambda>e. event_fate policy days am now b e = Live) (events b)"
  proof (rule filter_cong [OF refl])
    fix e assume e: "e \<in> set (events b)"
    show "(\<not> sweep_deletes policy (map snd (owed_pairs b now)) ?c now e) = (event_fate policy days am now b e = Live)"
      unfolding sweep_deletes_def capped_iff [OF assms e] set_map owed_event_def [symmetric]
      by (cases policy) (auto simp: event_fate_def swept_to_def)
  qed
  finally show ?thesis .
qed

lemma sweep_txn_archived:
  assumes "bus_wf b" and "archive_ok b"
  shows "archived_rows (snd (sweep_txn policy days am now b)) =
     archived_rows b \<union> {e \<in> set (events b). event_fate policy days am now b e = InArchive}"
proof -
  let ?pairs = "owedPairsWithCap b now days" and ?owed = "map snd (owed_pairs b now)"
  let ?capped = "sweep_capped policy ?pairs"
  let ?ao = "policy = Archive \<and> map ow_event ?pairs \<noteq> []"
  define b1 where "b1 = (if am \<or> ?ao \<or> ?capped \<noteq> [] then ensure_archive b else b)"
  define b2 where "b2 = (if am then archive_where (\<lambda>e. expired now e \<and> ev_id e \<notin> set ?owed) b1 else b1)"
  define b3 where "b3 = (if ?ao then archive_where (\<lambda>e. ev_id e \<in> set ?owed) b2 else b2)"
  define b4 where "b4 = (if ?capped \<noteq> [] then archive_where (\<lambda>e. ev_id e \<in> set ?capped) b3 else b3)"
  have sw: "archived_rows (snd (sweep_txn policy days am now b)) = archived_rows b4"
    by (simp add: sweep_txn_def Let_def b1_def b2_def b3_def b4_def archived_rows_def)
  have wf: "events_wf b" using assms(1) by (rule bus_wfD)
  have e1: "events b1 = events b" "events_seq b1 = events_seq b" "archived_rows b1 = archived_rows b"
    by (simp_all add: b1_def)
  have n1: "am \<or> ?ao \<or> ?capped \<noteq> [] \<Longrightarrow> events_archive b1 \<noteq> None" by (simp only: b1_def if_True ensured) simp
  have w1: "events_wf b1" and c1: "coherent (events b1) (archived_rows b1)"
    using wf archive_ok_coherent [OF assms(2)] e1 by (simp_all add: events_wf_def)
  note s2 = archive_step [OF w1 c1 _ b2_def]
  have w2: "events_wf b2" using w1 s2(3,4) n1 by (simp add: events_wf_def)
  note s3 = archive_step [OF w2 s2(2) _ b3_def]
  have w3: "events_wf b3" using w2 s3(3,4) s2(5) n1 by (simp add: events_wf_def)
  note s4 = archive_step [OF w3 s3(2) _ b4_def]
  have "archived_rows b4 = archived_rows b \<union> {e \<in> set (events b). am \<and> expired now e \<and> \<not> owed_event b now e}
      \<union> {e \<in> set (events b). ?ao \<and> owed_event b now e} \<union> {e \<in> set (events b). ?capped \<noteq> [] \<and> ev_id e \<in> set ?capped}"
    using s2 s3 s4 n1 e1 by (simp add: owed_event_def)
  also have "\<dots> = archived_rows b \<union> {e \<in> set (events b). event_fate policy days am now b e = InArchive}"
  proof -
    have "(am \<and> expired now e \<and> \<not> owed_event b now e) \<or> (?ao \<and> owed_event b now e) \<or>
        (?capped \<noteq> [] \<and> ev_id e \<in> set ?capped) \<longleftrightarrow> event_fate policy days am now b e = InArchive"
      if e: "e \<in> set (events b)" for e
    proof -
      have c: "(?capped \<noteq> [] \<and> ev_id e \<in> set ?capped) \<longleftrightarrow> policy = Retain \<and> owed_event b now e \<and> past_cap now days e"
        using capped_iff [OF assms(1) e, of policy now days] by (metis list.set_cases list.distinct(1))
      have o: "(?ao \<and> owed_event b now e) \<longleftrightarrow> policy = Archive \<and> owed_event b now e"
        using pairs_nonempty [OF assms(1), of now e days] by blast
      have "owed_event b now e \<Longrightarrow> expired now e" by (rule owed_expired [OF assms(1) e])
      then show ?thesis unfolding c o event_fate_def swept_to_def
        by (cases policy; cases "owed_event b now e"; cases "expired now e"; simp)
    qed
    then show ?thesis by blast
  qed
  finally show ?thesis unfolding sw .
qed

section \<open>What a sweep leaves alone\<close>

lemma sweep_txn_frame [simp]:
  "events_seq (snd (sweep_txn policy days am now b)) = events_seq b"
  "subscriptions (snd (sweep_txn policy days am now b)) = subscriptions b"
  "cursors (snd (sweep_txn policy days am now b)) = cursors b"
  "dead_letters (snd (sweep_txn policy days am now b)) = dead_letters b"
  "dead_letters_seq (snd (sweep_txn policy days am now b)) = dead_letters_seq b"
  "delivery_attempts (snd (sweep_txn policy days am now b)) = delivery_attempts b"
  by (simp_all add: sweep_txn_def Let_def)

lemma sweep_txn_wf:
  assumes "bus_wf b"
  shows "bus_wf (snd (sweep_txn policy days am now b))"
proof
  show "events_wf (snd (sweep_txn policy days am now b))"
    by (rule events_wf_filter [OF bus_wfD(1) [OF assms] sweep_txn_events [OF assms]]) simp
  show "subs_wf (snd (sweep_txn policy days am now b))" "cursors_wf (snd (sweep_txn policy days am now b))"
    "dlq_wf (snd (sweep_txn policy days am now b))" "attempts_wf (snd (sweep_txn policy days am now b))"
    using bus_wfD [OF assms] by (simp_all add: wf_defs)
qed

lemma sweep_txn_archive_ok:
  assumes "bus_wf b" and "archive_ok b"
  shows "archive_ok (snd (sweep_txn policy days am now b))"
  unfolding archive_ok_def
proof (intro ballI conjI)
  let ?b' = "snd (sweep_txn policy days am now b)"
  fix a assume "a \<in> archived_rows ?b'"
  then have a: "a \<in> archived_rows b \<or> a \<in> set (events b) \<and> event_fate policy days am now b a = InArchive"
    unfolding sweep_txn_archived [OF assms] by blast
  have ev: "set (events ?b') = {e \<in> set (events b). event_fate policy days am now b e = Live}"
    unfolding sweep_txn_events [OF assms(1)] by simp
  show "ev_id a \<le> events_seq ?b'"
    using a assms(2) bus_wfD(1) [OF assms(1)] by (auto simp: archive_ok_def events_wf_def)
  show "ev_id a \<notin> ev_id ` set (events ?b')"
  proof
    assume "ev_id a \<in> ev_id ` set (events ?b')"
    then obtain e where e: "e \<in> set (events b)" "event_fate policy days am now b e = Live" "ev_id a = ev_id e"
      unfolding ev by blast
    from a show False
    proof
      assume "a \<in> archived_rows b"
      then show False using assms(2) e unfolding archive_ok_def by (metis imageI)
    next
      assume h: "a \<in> set (events b) \<and> event_fate policy days am now b a = InArchive"
      then have "a = e" using events_wf_inj [OF bus_wfD(1) [OF assms(1)]] e by blast
      with h e show False by simp
    qed
  qed
qed

lemma runSweep_Inr:
  assumes "runSweep cfg now b = (Inr r, b')"
  obtains policy days where "resolveUnackedPolicy (sc_unacked_policy cfg) = Inr policy"
    "resolveRetentionCapDays (sc_unacked_retention_days cfg) = Inr days"
    "sweep_txn policy days (truthy (sc_archive_mode cfg)) now b = (r, b')"
  using assms by (auto simp: runSweep_def split: sum.splits prod.splits)

lemma runSweep_wf [wf_intros]: "bus_wf b \<Longrightarrow> bus_wf (snd (runSweep cfg now b))"
  using sweep_txn_wf [of b] by (auto simp: runSweep_def split: sum.split prod.split) (metis snd_conv)

lemma runSweep_archive_ok: "bus_wf b \<Longrightarrow> archive_ok b \<Longrightarrow> archive_ok (snd (runSweep cfg now b))"
  using sweep_txn_archive_ok [of b] by (auto simp: runSweep_def split: sum.split prod.split) (metis snd_conv)

lemma sweep_txn_deleted:
  assumes "bus_wf b"
  shows "sr_deleted (fst (sweep_txn policy days am now b)) =
     length (filter (\<lambda>e. event_fate policy days am now b e \<noteq> Live) (events b))"
proof -
  let ?D = "sweep_deletes policy (map snd (owed_pairs b now)) (sweep_capped policy (owedPairsWithCap b now days)) now"
  have "sr_deleted (fst (sweep_txn policy days am now b)) = length (filter ?D (events b))"
    by (simp add: sweep_txn_def Let_def)
  also have "filter ?D (events b) = filter (\<lambda>e. event_fate policy days am now b e \<noteq> Live) (events b)"
  proof (rule filter_cong [OF refl])
    fix e assume e: "e \<in> set (events b)"
    show "?D e = (event_fate policy days am now b e \<noteq> Live)"
      unfolding sweep_deletes_def capped_iff [OF assms e] set_map owed_event_def [symmetric]
      by (cases policy) (auto simp: event_fate_def swept_to_def)
  qed
  finally show ?thesis .
qed

section \<open>Properties\<close>

text \<open>C14: A sweep does to every event what the policy says: an event that is not expired stays; an
  expired event nobody owes is archived in archive mode and dropped otherwise; an owed one is kept,
  archived or dropped by policy, and under \<open>retain\<close> archived once it is past the cap. The
  archive gains exactly those events, the count returned is the number of rows that left, and
  subscriptions, cursors, dead letters, retries and the invariants are untouched.\<close>

theorem sweep_implements_policy:
  assumes "bus_wf b" and "archive_ok b" and "runSweep cfg now b = (Inr r, b')"
  shows "\<exists>policy days. resolveUnackedPolicy (sc_unacked_policy cfg) = Inr policy \<and>
     resolveRetentionCapDays (sc_unacked_retention_days cfg) = Inr days \<and>
     (let to = event_fate policy days (truthy (sc_archive_mode cfg)) now b in
       events b' = filter (\<lambda>e. to e = Live) (events b) \<and>
       archived_rows b' = archived_rows b \<union> {e \<in> set (events b). to e = InArchive} \<and>
       sr_deleted r = length (filter (\<lambda>e. to e \<noteq> Live) (events b))) \<and>
     subscriptions b' = subscriptions b \<and> cursors b' = cursors b \<and> dead_letters b' = dead_letters b \<and>
     delivery_attempts b' = delivery_attempts b \<and> bus_wf b' \<and> archive_ok b'"
proof -
  obtain policy days where p: "resolveUnackedPolicy (sc_unacked_policy cfg) = Inr policy"
    "resolveRetentionCapDays (sc_unacked_retention_days cfg) = Inr days"
    and t: "sweep_txn policy days (truthy (sc_archive_mode cfg)) now b = (r, b')"
    using runSweep_Inr [OF assms(3)] by blast
  have b': "b' = snd (sweep_txn policy days (truthy (sc_archive_mode cfg)) now b)"
    and r: "r = fst (sweep_txn policy days (truthy (sc_archive_mode cfg)) now b)" by (simp_all add: t)
  show ?thesis
    using p sweep_txn_events [OF assms(1)] sweep_txn_archived [OF assms(1,2)] sweep_txn_deleted [OF assms(1)]
      sweep_txn_wf [OF assms(1)] sweep_txn_archive_ok [OF assms(1,2)]
    unfolding b' r Let_def by (intro exI [of _ policy] exI [of _ days]) simp
qed

definition demo_sweep :: "jsval \<Rightarrow> sweep_config" where
  "demo_sweep days = \<lparr>sc_unacked_policy = JUndef, sc_unacked_retention_days = days, sc_archive_mode = JUndef\<rparr>"

lemma demo_archive_ok [simp]: "archive_ok (demo_bus ids p)"
  by (simp add: archive_ok_def archived_rows_def demo_bus_def empty_bus_def)

lemma demo_sweep_config [simp]:
  "resolveUnackedPolicy (sc_unacked_policy (demo_sweep d)) = Inr Retain"
  "resolveRetentionCapDays (sc_unacked_retention_days (demo_sweep JUndef)) = Inr 30"
  "truthy (sc_archive_mode (demo_sweep d)) = False"
  by (simp_all add: demo_sweep_def resolveUnackedPolicy_def resolveRetentionCapDays_def DEFAULT_UNACKED_RETENTION_DAYS_def)

lemma demo_sweep_runs:
  "\<exists>r. runSweep (demo_sweep JUndef) now b = (Inr r, snd (runSweep (demo_sweep JUndef) now b))"
  by (cases "sweep_txn Retain 30 False now b") (simp add: runSweep_def)

lemma sweep_implements_policy_witness:
  "events (snd (runSweep (demo_sweep JUndef) 11 (demo_bus [4, 5] 4))) =
     filter (\<lambda>e. event_fate Retain 30 False 11 (demo_bus [4, 5] 4) e = Live) (events (demo_bus [4, 5] 4)) \<and>
   length (events (snd (runSweep (demo_sweep JUndef) 11 (demo_bus [4, 5] 4)))) = 1"
proof -
  have wf: "bus_wf (demo_bus [4, 5] 4)" by (rule demo_bus_wf) auto
  obtain r where rs: "runSweep (demo_sweep JUndef) 11 (demo_bus [4, 5] 4)
      = (Inr r, snd (runSweep (demo_sweep JUndef) 11 (demo_bus [4, 5] 4)))" using demo_sweep_runs by blast
  have "length (events (snd (runSweep (demo_sweep JUndef) 11 (demo_bus [4, 5] 4)))) = 1" by code_simp
  moreover have "events (snd (runSweep (demo_sweep JUndef) 11 (demo_bus [4, 5] 4))) =
     filter (\<lambda>e. event_fate Retain 30 False 11 (demo_bus [4, 5] 4) e = Live) (events (demo_bus [4, 5] 4))"
    using sweep_implements_policy [OF wf demo_archive_ok rs] unfolding Let_def demo_sweep_config by blast
  ultimately show ?thesis by blast
qed

text \<open>Under the default policy no event an active consumer is still waiting for is lost: after a
  sweep, what is pending for it is what was pending before, in the same order, less the expired events
  past the retention cap, and each of those is in the archive.\<close>

theorem retain_keeps_pending:
  assumes "bus_wf b" and "archive_ok b" and "runSweep cfg now b = (Inr r, b')"
    and "resolveUnackedPolicy (sc_unacked_policy cfg) = Inr Retain"
    and "resolveRetentionCapDays (sc_unacked_retention_days cfg) = Inr days"
    and "c \<in> set (cursors b)" "cursor_active c" "s \<in> set (subscriptions b)" "su_id s = cu_sub c" "sub_active s"
  shows "pending b' (su_filter s) (cu_last c) =
       filter (\<lambda>e. \<not> (expired now e \<and> past_cap now days e)) (pending b (su_filter s) (cu_last c)) \<and>
     (\<forall>e\<in>set (pending b (su_filter s) (cu_last c)). expired now e \<and> past_cap now days e \<longrightarrow> e \<in> archived_rows b')"
proof -
  let ?am = "truthy (sc_archive_mode cfg)"
  have b': "b' = snd (sweep_txn Retain days ?am now b)"
    using assms(3-5) by (simp add: runSweep_def split: prod.splits)
  have owed: "expired now e \<Longrightarrow> owed_event b now e" if "e \<in> set (pending b (su_filter s) (cu_last c))" for e
    using that assms(6-10) unfolding owed_event_iff [OF assms(1)] owes_def set_pending by blast
  have live: "event_fate Retain days ?am now b e = (if expired now e \<and> past_cap now days e then InArchive else Live)"
    if "e \<in> set (pending b (su_filter s) (cu_last c))" for e
    using owed [OF that] by (auto simp: event_fate_def swept_to_def)
  have sb: "sorted_wrt (<) (map ev_id (events b))" using bus_wfD(1) [OF assms(1)] by (simp add: events_wf_def)
  have pend: "pending x f l = filter (\<lambda>e. l < ev_id e \<and> event_matches f e) (events x)" for x f l
    by (simp add: pending_def)
  have "pending b' (su_filter s) (cu_last c) =
      filter (\<lambda>e. event_fate Retain days ?am now b e = Live) (pending b (su_filter s) (cu_last c))"
    unfolding pend b' sweep_txn_events [OF assms(1)] filter_filter by (rule filter_cong [OF refl]) auto
  also have "\<dots> = filter (\<lambda>e. \<not> (expired now e \<and> past_cap now days e)) (pending b (su_filter s) (cu_last c))"
    by (rule filter_cong [OF refl]) (simp add: live)
  finally have "pending b' (su_filter s) (cu_last c) = \<dots>" .
  moreover have "\<forall>e\<in>set (pending b (su_filter s) (cu_last c)). expired now e \<and> past_cap now days e \<longrightarrow> e \<in> archived_rows b'"
    unfolding b' sweep_txn_archived [OF assms(1,2)] using live by (auto simp: set_pending)
  ultimately show ?thesis by blast
qed

lemma retain_keeps_pending_witness:
  "pending (snd (runSweep (demo_sweep JUndef) 11 (demo_bus [4, 5] 4))) ''wicked.*'' 4 =
     filter (\<lambda>e. \<not> (expired 11 e \<and> past_cap 11 30 e)) (pending (demo_bus [4, 5] 4) ''wicked.*'' 4) \<and>
   map ev_id (pending (demo_bus [4, 5] 4) ''wicked.*'' 4) = [5]"
proof -
  have wf: "bus_wf (demo_bus [4, 5] 4)" by (rule demo_bus_wf) auto
  obtain r where rs: "runSweep (demo_sweep JUndef) 11 (demo_bus [4, 5] 4)
      = (Inr r, snd (runSweep (demo_sweep JUndef) 11 (demo_bus [4, 5] 4)))" using demo_sweep_runs by blast
  let ?c = "hd (cursors (demo_bus [4, 5] 4))" and ?s = "hd (subscriptions (demo_bus [4, 5] 4))"
  have cs: "?c \<in> set (cursors (demo_bus [4, 5] 4))" "cursor_active ?c" "?s \<in> set (subscriptions (demo_bus [4, 5] 4))"
    "su_id ?s = cu_sub ?c" "sub_active ?s" "su_filter ?s = ''wicked.*''" "cu_last ?c = 4"
    by (simp_all add: demo_bus_def cursor_active_def sub_active_def)
  have "map ev_id (pending (demo_bus [4, 5] 4) ''wicked.*'' 4) = [5]" by code_simp
  with retain_keeps_pending [OF wf demo_archive_ok rs demo_sweep_config(1,2) cs(1-5)] cs(6,7)
  show ?thesis by simp
qed

end
