(* ===== verification/BusArchive.thy ===== *)
theory BusArchive
  imports BusDb "HOL-Library.AList"
begin

text \<open>
  The warm tier, \<open>lib/archive.js\<close>: monthly bucket files beside the live database, each with an
  \<open>events\<close> table and a \<open>_meta\<close> table. \<open>bk_health\<close> is what the file system and the driver
  answer for a file: readable, not accessible, not openable, or failing at the first query.
  Proved: \<open>bucketsCoveringRange\<close> names every healthy bucket that holds a row of the range, as
  long as the bucket's recorded range covers its rows (\<open>bucket_wf\<close>).
\<close>

section \<open>Buckets\<close>

datatype bucket_health = Healthy | NoAccess | OpenFails | QueryFails string

record bucket_meta =
  bm_created_at :: "rat option"
  bm_min :: "int option"
  bm_max :: "int option"
  bm_sealed_at :: "rat option"

record bucket =
  bk_name :: string
  bk_events :: "event_row list"
  bk_meta :: bucket_meta
  bk_health :: bucket_health

record archive =
  ar_buckets :: "bucket list"
  ar_locks :: "string list"

text \<open>\<open>/^bus-\d{4}-\d{2}[a-z]?\.db$/\<close>.\<close>

definition BUCKET_FILE_RE :: "string \<Rightarrow> bool" where
  "BUCKET_FILE_RE s \<longleftrightarrow>
     prefix ''bus-'' s \<and> length s \<ge> 14 \<and> list_all is_digit (take 4 (drop 4 s)) \<and>
     s ! 8 = CHR ''-'' \<and> list_all is_digit (take 2 (drop 9 s)) \<and>
     (drop 11 s = ''.db'' \<or> (length s = 15 \<and> is_lower (s ! 11) \<and> drop 12 s = ''.db''))"

definition MAX_SAFE_INTEGER :: int where
  "MAX_SAFE_INTEGER = 9007199254740991"

definition find_bucket :: "archive \<Rightarrow> string \<Rightarrow> bucket option" where
  "find_bucket ar n = find (\<lambda>k. bk_name k = n) (ar_buckets ar)"

definition createBucket :: "string \<Rightarrow> rat \<Rightarrow> int option \<Rightarrow> int option \<Rightarrow> bucket" where
  "createBucket n now minEventId maxEventId =
     \<lparr>bk_name = n, bk_events = [],
      bk_meta = \<lparr>bm_created_at = Some now, bm_min = minEventId, bm_max = maxEventId, bm_sealed_at = None\<rparr>,
      bk_health = Healthy\<rparr>"

definition getBucketMeta :: "bucket \<Rightarrow> bucket_meta option" where
  "getBucketMeta k = (if bk_health k = Healthy then Some (bk_meta k) else None)"

definition sealBucket :: "rat \<Rightarrow> int option \<Rightarrow> bucket \<Rightarrow> bucket" where
  "sealBucket now maxEventId k = k\<lparr>bk_meta := (bk_meta k)\<lparr>bm_sealed_at := Some now,
     bm_max := (case maxEventId of Some m \<Rightarrow> Some m | None \<Rightarrow> bm_max (bk_meta k))\<rparr>\<rparr>"

text \<open>Applies an update to the bucket file of that name.\<close>

definition map_bucket :: "string \<Rightarrow> (bucket \<Rightarrow> bucket) \<Rightarrow> archive \<Rightarrow> archive" where
  "map_bucket n f ar = ar\<lparr>ar_buckets := map (\<lambda>k. if bk_name k = n then f k else k) (ar_buckets ar)\<rparr>"

definition listBuckets :: "archive \<Rightarrow> bucket list" where
  "listBuckets ar = sort_key bk_name (filter (\<lambda>k. BUCKET_FILE_RE (bk_name k)) (ar_buckets ar))"

text \<open>A descriptor; \<open>None\<close> in \<open>cv_min\<close> is \<open>-Infinity\<close>, in \<open>cv_max\<close> it is \<open>Infinity\<close>.\<close>

record cover =
  cv_name :: string
  cv_min :: "int option"
  cv_max :: "int option"
  cv_unsealed :: bool

fun covering :: "int \<Rightarrow> int \<Rightarrow> bucket list \<Rightarrow> cover list" where
  "covering gapStart gapEnd [] = []"
| "covering gapStart gapEnd (k # ks) =
     (case getBucketMeta k of
        None \<Rightarrow> \<lparr>cv_name = bk_name k, cv_min = None, cv_max = None, cv_unsealed = True\<rparr>
                  # covering gapStart gapEnd ks
      | Some meta \<Rightarrow>
          let sealed = bm_sealed_at meta \<noteq> None;
              mx = (if sealed \<and> bm_max meta \<noteq> None then the (bm_max meta) else MAX_SAFE_INTEGER)
          in (case bm_min meta of
                None \<Rightarrow> covering gapStart gapEnd ks
              | Some mn \<Rightarrow>
                  if gapStart \<le> mx \<and> mn \<le> gapEnd
                  then \<lparr>cv_name = bk_name k, cv_min = Some mn, cv_max = Some mx, cv_unsealed = \<not> sealed\<rparr>
                         # covering gapStart gapEnd ks
                  else covering gapStart gapEnd ks))"

definition bucketsCoveringRange :: "archive \<Rightarrow> int \<Rightarrow> int \<Rightarrow> cover list" where
  "bucketsCoveringRange ar gapStart gapEnd = covering gapStart gapEnd (listBuckets ar)"

section \<open>Well-formed buckets\<close>

text \<open>A bucket's recorded range covers its rows, and the rows are in key order.\<close>

definition bucket_wf :: "bucket \<Rightarrow> bool" where
  "bucket_wf k \<longleftrightarrow> sorted_wrt (<) (map ev_id (bk_events k)) \<and>
     (\<forall>e\<in>set (bk_events k). ev_id e \<le> MAX_SAFE_INTEGER \<and>
        (\<exists>m. bm_min (bk_meta k) = Some m \<and> m \<le> ev_id e) \<and>
        (\<exists>m. bm_max (bk_meta k) = Some m \<and> ev_id e \<le> m))"

definition archive_wf :: "archive \<Rightarrow> bool" where
  "archive_wf ar \<longleftrightarrow> distinct (map bk_name (ar_buckets ar)) \<and>
     (\<forall>k\<in>set (ar_buckets ar). bucket_wf k \<and> BUCKET_FILE_RE (bk_name k))"

text \<open>The rows of the warm tier.\<close>

definition warm_rows :: "archive \<Rightarrow> event_row set" where
  "warm_rows ar = (\<Union>k\<in>set (ar_buckets ar). set (bk_events k))"

definition warm_ids :: "archive \<Rightarrow> int set" where
  "warm_ids ar = ev_id ` warm_rows ar"

lemma set_listBuckets: "set (listBuckets ar) = {k \<in> set (ar_buckets ar). BUCKET_FILE_RE (bk_name k)}"
  by (auto simp: listBuckets_def)

lemma set_listBuckets_wf: "archive_wf ar \<Longrightarrow> set (listBuckets ar) = set (ar_buckets ar)"
  by (auto simp: set_listBuckets archive_wf_def)

lemma distinct_listBuckets: "archive_wf ar \<Longrightarrow> distinct (map bk_name (listBuckets ar))"
  by (auto simp: archive_wf_def listBuckets_def distinct_map intro: inj_on_subset)

lemma find_bucket_Some:
  "archive_wf ar \<Longrightarrow> find_bucket ar n = Some k \<longleftrightarrow> k \<in> set (ar_buckets ar) \<and> bk_name k = n"
  by (auto simp: find_bucket_def archive_wf_def dest: find_Some_conv intro!: find_key_eq)

lemma covering_complete:
  assumes "k \<in> set ks" and "bucket_wf k"
    and "e \<in> set (bk_events k)" and "gapStart \<le> ev_id e" and "ev_id e \<le> gapEnd"
  shows "bk_name k \<in> cv_name ` set (covering gapStart gapEnd ks)"
  using assms(1)
proof (induction ks)
  case Nil
  then show ?case by simp
next
  case (Cons k' ks)
  show ?case
  proof (cases "k' = k")
    case True
    from assms(2,3) obtain m m' where "bm_min (bk_meta k) = Some m" "m \<le> ev_id e"
      "bm_max (bk_meta k) = Some m'" "ev_id e \<le> m'" "ev_id e \<le> MAX_SAFE_INTEGER"
      unfolding bucket_wf_def by blast
    with assms(4,5) True show ?thesis
      by (auto simp: getBucketMeta_def Let_def split: option.splits)
  next
    case False
    with Cons have "bk_name k \<in> cv_name ` set (covering gapStart gapEnd ks)" by auto
    moreover have "set (covering gapStart gapEnd ks) \<subseteq> set (covering gapStart gapEnd (k' # ks))"
      by (auto simp: Let_def split: option.splits)
    ultimately show ?thesis by blast
  qed
qed

lemma covering_names: "cv \<in> set (covering a b ks) \<Longrightarrow> \<exists>k\<in>set ks. bk_name k = cv_name cv"
  by (induction ks) (auto simp: Let_def split: option.splits if_splits)

lemma covering_sorted:
  "sorted_wrt (<) (map bk_name ks) \<Longrightarrow> sorted_wrt (<) (map cv_name (covering a b ks))"
proof (induction ks)
  case Nil
  then show ?case by simp
next
  case (Cons k ks)
  have "\<forall>cv\<in>set (covering a b ks). bk_name k < cv_name cv"
    using Cons.prems covering_names [of _ a b ks] by fastforce
  with Cons show ?case by (auto simp: Let_def split: option.splits)
qed

lemma listBuckets_strict: "archive_wf ar \<Longrightarrow> sorted_wrt (<) (map bk_name (listBuckets ar))"
  using distinct_listBuckets [of ar] by (simp add: strict_sorted_iff listBuckets_def)

lemma sealBucket_wf: "bucket_wf k \<Longrightarrow> bucket_wf (sealBucket now None k)"
  by (auto simp: bucket_wf_def sealBucket_def)

lemma sealBucket_simps [simp]:
  "bk_name (sealBucket now m k) = bk_name k"
  "bk_events (sealBucket now m k) = bk_events k"
  "bk_health (sealBucket now m k) = bk_health k"
  by (simp_all add: sealBucket_def)

end
