(* ===== verification/BusSweepV2.thy ===== *)
theory BusSweepV2
  imports BusSweep BusArchive
begin

text \<open>
  The tiered sweep, \<open>lib/sweep-v2.js\<close>: expired events move from the live database to monthly warm
  buckets, the bucket transaction committing before the live deletion. File sizes, the answers of the
  checkpoint pragma and what other connections commit between the two transactions are the fields of
  \<open>sweep_env\<close>. Proved: no event leaves the live tier without a warm copy (unless \<open>discard\<close> drops
  it), events owed at deletion time stay, held rows do not starve the batch, and every bucket's
  recorded range keeps covering its rows, so that the resolver of \<open>lib/query.js\<close> finds them.
\<close>

section \<open>Months\<close>

text \<open>\<open>DayFromYear\<close>, \<open>YearFromTime\<close> and \<open>MonthFromTime\<close> of ECMAScript.\<close>

definition day_from_year :: "int \<Rightarrow> int" where
  "day_from_year y = 365 * (y - 1970) + (y - 1969) div 4 - (y - 1901) div 100 + (y - 1601) div 400"

definition year_of_day :: "int \<Rightarrow> int" where
  "year_of_day d = (let y = 1970 + (400 * d) div 146097 in
     if d < day_from_year y then y - 1 else if day_from_year (y + 1) \<le> d then y + 1 else y)"

definition leap_year :: "int \<Rightarrow> bool" where
  "leap_year y \<longleftrightarrow> y mod 4 = 0 \<and> (y mod 100 \<noteq> 0 \<or> y mod 400 = 0)"

definition month_starts :: "bool \<Rightarrow> int list" where
  "month_starts leap = (let k = (if leap then 1 else 0) in
     [31, 59 + k, 90 + k, 120 + k, 151 + k, 181 + k, 212 + k, 243 + k, 273 + k, 304 + k, 334 + k])"

definition month_of_day :: "int \<Rightarrow> int" where
  "month_of_day d = (let y = year_of_day d in
     1 + int (length (filter (\<lambda>s. s \<le> d - day_from_year y) (month_starts (leap_year y)))))"

definition pad2 :: "string \<Rightarrow> string" where
  "pad2 s = (if length s < 2 then CHR ''0'' # s else s)"

text \<open>The day of a timestamp; \<open>None\<close> beyond the range of a \<open>Date\<close>.\<close>

definition utc_day :: "rat \<Rightarrow> int option" where
  "utc_day ms = (let t = (if ms < 0 then \<lceil>ms\<rceil> else \<lfloor>ms\<rfloor>) in
     if \<bar>t\<bar> \<le> 8640000000000000 then Some (t div 86400000) else None)"

definition monthKey :: "rat \<Rightarrow> string" where
  "monthKey ms = (case utc_day ms of
      Some d \<Rightarrow> int_str (year_of_day d) @ ''-'' @ pad2 (int_str (month_of_day d))
    | None \<Rightarrow> ''NaN-NaN'')"

section \<open>Choosing a bucket\<close>

definition nextSuffixedName :: "string \<Rightarrow> string \<Rightarrow> string res" where
  "nextSuffixedName latest prefx =
     (let tail = drop_last 3 (drop (length prefx) latest) in
      if tail = [] then Inr (prefx @ ''a.db'')
      else (case tail of
              [c] \<Rightarrow> if CHR ''a'' \<le> c \<and> c < CHR ''z'' then Inr (prefx @ [char_of (of_char c + 1 :: nat)] @ ''.db'')
                     else Inl (PlainError ''unable to allocate next suffix'')
            | _ \<Rightarrow> Inl (PlainError ''unable to allocate next suffix'')))"

definition chooseBucketForMonth ::
  "(string \<Rightarrow> int option) \<Rightarrow> rat \<Rightarrow> string \<Rightarrow> int \<Rightarrow> archive \<Rightarrow> string res \<times> archive" where
  "chooseBucketForMonth sz now month maxBytes ar =
     (let prefx = ''bus-'' @ month;
          names = filter (\<lambda>n. n = prefx @ ''.db'' \<or> prefix prefx n) (map bk_name (listBuckets ar))
      in if names = [] then (Inr (prefx @ ''.db''), ar)
         else (let latest = last (sort names);
                   sealed = (case find_bucket ar latest of
                       Some k \<Rightarrow> (case getBucketMeta k of Some m \<Rightarrow> bm_sealed_at m \<noteq> None | None \<Rightarrow> False)
                     | None \<Rightarrow> False);
                   full = (case sz latest of Some n \<Rightarrow> maxBytes \<le> n | None \<Rightarrow> False)
               in if \<not> sealed \<and> \<not> full then (Inr latest, ar)
                  else (nextSuffixedName latest prefx,
                        map_bucket latest (\<lambda>k. if bk_health k = Healthy then sealBucket now None k else k) ar)))"

type_synonym groups = "(string \<times> event_row list) list"

definition add_to_group :: "string \<Rightarrow> event_row \<Rightarrow> groups \<Rightarrow> groups" where
  "add_to_group n e gs = AList.update n ((case map_of gs n of Some es \<Rightarrow> es | None \<Rightarrow> []) @ [e]) gs"

fun groupByTargetBucket ::
  "(string \<Rightarrow> int option) \<Rightarrow> rat \<Rightarrow> int \<Rightarrow> event_row list \<Rightarrow> (string \<times> string) list \<Rightarrow> groups \<Rightarrow> archive
     \<Rightarrow> groups res \<times> archive" where
  "groupByTargetBucket sz now maxBytes [] cache gs ar = (Inr gs, ar)"
| "groupByTargetBucket sz now maxBytes (e # es) cache gs ar =
     (let month = monthKey (ev_emitted_at e) in
      (case map_of cache month of
         Some n \<Rightarrow> groupByTargetBucket sz now maxBytes es cache (add_to_group n e gs) ar
       | None \<Rightarrow>
           (case chooseBucketForMonth sz now month maxBytes ar of
              (Inl err, ar1) \<Rightarrow> (Inl err, ar1)
            | (Inr n, ar1) \<Rightarrow>
                groupByTargetBucket sz now maxBytes es (AList.update month n cache) (add_to_group n e gs) ar1)))"

section \<open>Writing a bucket\<close>

definition with_range :: "bucket \<Rightarrow> bucket" where
  "with_range k = (case (list_min (map ev_id (bk_events k)), list_max (map ev_id (bk_events k))) of
      (Some mn, Some mx) \<Rightarrow> k\<lparr>bk_meta := (bk_meta k)\<lparr>bm_min := Some mn, bm_max := Some mx\<rparr>\<rparr>
    | _ \<Rightarrow> k)"

definition insert_rows :: "event_row list \<Rightarrow> bucket \<Rightarrow> bucket" where
  "insert_rows es k = k\<lparr>bk_events := fold archive_insert es (bk_events k)\<rparr>"

definition insertBatchIntoBucket :: "rat \<Rightarrow> string \<Rightarrow> event_row list \<Rightarrow> archive \<Rightarrow> unit res \<times> archive" where
  "insertBatchIntoBucket now n es ar =
     (case find_bucket ar n of
        None \<Rightarrow> (Inr (), ar\<lparr>ar_buckets := ar_buckets ar @
                   [with_range (insert_rows es (createBucket n now (Some (ev_id (hd es))) (Some (ev_id (last es)))))]\<rparr>)
      | Some k \<Rightarrow>
          if bk_health k = Healthy then (Inr (), map_bucket n (\<lambda>k. with_range (insert_rows es k)) ar)
          else (Inl (SqliteError ''unable to open bucket''), ar))"

fun write_groups :: "rat \<Rightarrow> groups \<Rightarrow> archive \<Rightarrow> (string list \<times> string list \<times> int list) res \<times> archive" where
  "write_groups now [] ar = (Inr ([], [], []), ar)"
| "write_groups now ((n, es) # gs) ar =
     (if n \<in> set (ar_locks ar)
      then (case write_groups now gs ar of
              (Inl err, ar1) \<Rightarrow> (Inl err, ar1)
            | (Inr (touched, skipped, moved), ar1) \<Rightarrow> (Inr (touched, n # skipped, moved), ar1))
      else (case insertBatchIntoBucket now n es ar of
              (Inl err, ar1) \<Rightarrow> (Inl err, ar1)
            | (Inr _, ar1) \<Rightarrow>
                (case write_groups now gs ar1 of
                   (Inl err, ar2) \<Rightarrow> (Inl err, ar2)
                 | (Inr (touched, skipped, moved), ar2) \<Rightarrow>
                     (Inr (n # touched, skipped, map ev_id es @ moved), ar2))))"

section \<open>Deleting from live\<close>

definition delete_ids :: "int list \<Rightarrow> bus \<Rightarrow> bus" where
  "delete_ids ids b = b\<lparr>events := filter (\<lambda>e. ev_id e \<notin> set ids) (events b)\<rparr>"

text \<open>With a cap given, the owed rows inside it are kept and the pairs seen are returned.\<close>

definition deleteFromLive :: "bus \<Rightarrow> int list \<Rightarrow> (rat \<times> rat) option \<Rightarrow> owed list \<times> bus" where
  "deleteFromLive b ids retainOwed =
     (case retainOwed of
        None \<Rightarrow> ([], delete_ids ids b)
      | Some (now, capDays) \<Rightarrow>
          (let seen = filter (\<lambda>p. ow_event p \<in> set ids) (owedPairsWithCap b now capDays);
               owedNow = map ow_event (filter (\<lambda>p. \<not> ow_over_cap p) seen)
           in (seen, delete_ids (filter (\<lambda>i. i \<notin> set owedNow) ids) b)))"

section \<open>Checkpoint and bloat\<close>

datatype checkpoint = Passive nat | Restart nat

definition walCheckpointWithEscalation :: "bool list \<Rightarrow> checkpoint" where
  "walCheckpointWithEscalation busy =
     (let n = length (takeWhile (\<lambda>x. x) (take 3 busy)) in if n < 3 then Passive n else Restart n)"

datatype bloat = BloatRows nat int | BloatBytes int int

definition bloatWarningIfNeeded :: "bus \<Rightarrow> int option \<Rightarrow> int option \<Rightarrow> int option \<Rightarrow> bloat option" where
  "bloatWarningIfNeeded b dbSize liveBytes liveRows =
     (let rows = (case liveRows of Some n \<Rightarrow> n | None \<Rightarrow> 1000000);
          bytes = (case liveBytes of Some n \<Rightarrow> n | None \<Rightarrow> 1073741824)
      in if rows \<le> int (length (events b)) then Some (BloatRows (length (events b)) rows)
         else (case dbSize of
                 Some n \<Rightarrow> if bytes \<le> n then Some (BloatBytes n bytes) else None
               | None \<Rightarrow> None))"

section \<open>runSweepV2\<close>

record sweep2_config = sweep_config +
  s2_batch_size :: "int option"
  s2_bucket_max_bytes :: "int option"
  s2_live_bloat_bytes :: "int option"
  s2_live_bloat_rows :: "int option"

record sweep_env =
  sv_size :: "string \<Rightarrow> int option"
  sv_db_size :: "int option"
  sv_busy :: "bool list"
  sv_between :: "bus \<Rightarrow> bus"

record sweep2_result =
  s2_moved :: nat
  s2_touched :: "string list"
  s2_skipped :: "string list"
  s2_policy :: unacked_policy
  s2_unacked :: report
  s2_checkpoint :: "checkpoint option"
  s2_bloat :: "bloat option"

text \<open>\<open>slice(0, n)\<close>.\<close>

definition js_slice0 :: "int \<Rightarrow> 'a list \<Rightarrow> 'a list" where
  "js_slice0 n xs = (if n < 0 then take (length xs - nat (- n)) xs else take (nat n) xs)"

definition held_ids :: "unacked_policy \<Rightarrow> owed list \<Rightarrow> int list" where
  "held_ids policy pairs = (if policy = Retain then remdups (map ow_event (filter (\<lambda>p. \<not> ow_over_cap p) pairs)) else [])"

definition sweep_candidates :: "bus \<Rightarrow> rat \<Rightarrow> int \<Rightarrow> int list \<Rightarrow> event_row list" where
  "sweep_candidates b now batchSize held =
     js_slice0 batchSize (filter (\<lambda>e. ev_id e \<notin> set held)
       (select_events (expired now) (batchSize + int (length held)) b))"

definition fate2 :: "unacked_policy \<Rightarrow> int list \<Rightarrow> owed \<Rightarrow> disposition \<times> reason" where
  "fate2 policy moved p = (case policy of
      Discard \<Rightarrow> (Discarded, ByPolicy)
    | Archive \<Rightarrow> (Archived, ByPolicy)
    | Retain \<Rightarrow> if \<not> ow_over_cap p then (Retained, ByPolicy)
                else if ow_event p \<in> set moved then (Archived, ByCap) else (Retained, CapPending))"

definition report_for :: "unacked_policy \<Rightarrow> rat \<Rightarrow> int list \<Rightarrow> owed list \<Rightarrow> report" where
  "report_for policy capDays moved pairs =
     buildUnackedReport (if policy = Archive then filter (\<lambda>p. ow_event p \<in> set moved) pairs else pairs)
       (fate2 policy moved) policy capDays"

text \<open>Steps 2 to 6, for the candidates chosen in step 1.\<close>

definition sweep2_move ::
  "('z sweep2_config_scheme) \<Rightarrow> sweep_env \<Rightarrow> rat \<Rightarrow> unacked_policy \<Rightarrow> rat \<Rightarrow> owed list \<Rightarrow> event_row list
     \<Rightarrow> bus \<Rightarrow> archive \<Rightarrow> sweep2_result res \<times> bus \<times> archive" where
  "sweep2_move cfg env now policy capDays pairs candidates b ar =
     (case groupByTargetBucket (sv_size env) now
             (case s2_bucket_max_bytes cfg of Some n \<Rightarrow> n | None \<Rightarrow> 10737418240) candidates [] [] ar of
        (Inl err, ar1) \<Rightarrow> (Inl err, b, ar1)
      | (Inr gs, ar1) \<Rightarrow>
          (case write_groups now gs ar1 of
             (Inl err, ar2) \<Rightarrow> (Inl err, b, ar2)
           | (Inr (touched, skipped, moved), ar2) \<Rightarrow>
               (let b1 = sv_between env b;
                    (seen, b2) = (if moved \<noteq> [] then deleteFromLive b1 moved (if policy = Retain then Some (now, capDays) else None)
                                  else ([], b1));
                    known = map (\<lambda>p. (ow_event p, ow_cursor p)) pairs;
                    extra = filter (\<lambda>p. ow_over_cap p \<and> (ow_event p, ow_cursor p) \<notin> set known) seen
                in (Inr \<lparr>s2_moved = length moved, s2_touched = touched, s2_skipped = skipped, s2_policy = policy,
                         s2_unacked = report_for policy capDays moved (pairs @ extra),
                         s2_checkpoint = Some (walCheckpointWithEscalation (sv_busy env)),
                         s2_bloat = bloatWarningIfNeeded b2 (sv_db_size env) (s2_live_bloat_bytes cfg) (s2_live_bloat_rows cfg)\<rparr>,
                    b2, ar2))))"

definition runSweepV2 ::
  "('z sweep2_config_scheme) \<Rightarrow> sweep_env \<Rightarrow> rat \<Rightarrow> bus \<Rightarrow> archive \<Rightarrow> sweep2_result res \<times> bus \<times> archive" where
  "runSweepV2 cfg env now b ar =
     (case resolveUnackedPolicy (sc_unacked_policy cfg) of
        Inl e \<Rightarrow> (Inl e, b, ar)
      | Inr policy \<Rightarrow>
          (case resolveRetentionCapDays (sc_unacked_retention_days cfg) of
             Inl e \<Rightarrow> (Inl e, b, ar)
           | Inr capDays \<Rightarrow>
               (let batchSize = (case s2_batch_size cfg of Some n \<Rightarrow> n | None \<Rightarrow> 5000);
                    pairs = owedPairsWithCap b now capDays;
                    b0 = (if policy = Discard \<and> pairs \<noteq> [] then snd (deleteFromLive b (map ow_event pairs) None) else b);
                    candidates = sweep_candidates b0 now batchSize (held_ids policy pairs)
                in if candidates = []
                   then (Inr \<lparr>s2_moved = 0, s2_touched = [], s2_skipped = [], s2_policy = policy,
                              s2_unacked = report_for policy capDays [] pairs, s2_checkpoint = None,
                              s2_bloat = bloatWarningIfNeeded b0 (sv_db_size env) (s2_live_bloat_bytes cfg) (s2_live_bloat_rows cfg)\<rparr>,
                         b0, ar)
                   else sweep2_move cfg env now policy capDays pairs candidates b0 ar)))"

text \<open>The sweep of the configured tier.\<close>

datatype swept = SweptV1 sweep_result | SweptV2 sweep2_result

definition runConfiguredSweep ::
  "jsval \<Rightarrow> ('z sweep2_config_scheme) \<Rightarrow> sweep_env \<Rightarrow> rat \<Rightarrow> bus \<Rightarrow> archive \<Rightarrow> swept res \<times> bus \<times> archive" where
  "runConfiguredSweep tiered cfg env now b ar =
     (if \<not> truthy tiered
      then (case runSweep (sweep_config.truncate cfg) now b of
              (Inl e, b') \<Rightarrow> (Inl e, b', ar) | (Inr r, b') \<Rightarrow> (Inr (SweptV1 r), b', ar))
      else (case runSweepV2 cfg env now b ar of
              (Inl e, s) \<Rightarrow> (Inl e, s) | (Inr r, s) \<Rightarrow> (Inr (SweptV2 r), s)))"

section \<open>The batch\<close>

lemma take_filter_slack:
  assumes "length (filter (\<lambda>x. \<not> P x) (take (n + h) xs)) \<le> h"
  shows "take n (filter P (take (n + h) xs)) = take n (filter P xs)"
proof (cases "n + h \<le> length xs")
  case True
  have "length (filter P (take (n + h) xs)) + length (filter (\<lambda>x. \<not> P x) (take (n + h) xs)) = n + h"
    using True by (simp add: sum_length_filter_compl)
  then have "n \<le> length (filter P (take (n + h) xs))" using assms by simp
  moreover have "filter P xs = filter P (take (n + h) xs) @ filter P (drop (n + h) xs)"
    by (metis append_take_drop_id filter_append)
  ultimately show ?thesis by simp
next
  case False
  then show ?thesis by simp
qed

lemma sweep_candidates_eq:
  assumes "events_wf b" and "0 \<le> n"
  shows "sweep_candidates b now n held = take (nat n) (filter (\<lambda>e. expired now e \<and> ev_id e \<notin> set held) (events b))"
proof -
  let ?xs = "filter (expired now) (events b)"
  have "distinct (map ev_id ?xs)"
    using assms(1) by (intro sorted_strict_imp_distinct map_filter_strict) (simp add: events_wf_def)
  then have d: "distinct (map ev_id (filter (\<lambda>e. \<not> ev_id e \<notin> set held) (take (nat n + length held) ?xs)))"
    by (intro distinct_map_filter) (simp add: take_map [symmetric])
  have "length (filter (\<lambda>e. \<not> ev_id e \<notin> set held) (take (nat n + length held) ?xs)) \<le> length held"
  proof -
    let ?f = "map ev_id (filter (\<lambda>e. \<not> ev_id e \<notin> set held) (take (nat n + length held) ?xs))"
    have "length ?f = card (set ?f)" by (rule distinct_card [OF d, symmetric])
    also have "\<dots> \<le> card (set held)" by (rule card_mono) auto
    also have "\<dots> \<le> length held" by (rule card_length)
    finally show ?thesis by simp
  qed
  from take_filter_slack [OF this]
  have "take (nat n) (filter (\<lambda>e. ev_id e \<notin> set held) (take (nat n + length held) ?xs)) =
      take (nat n) (filter (\<lambda>e. ev_id e \<notin> set held) ?xs)" .
  then show ?thesis
    using assms(2) by (simp add: sweep_candidates_def js_slice0_def select_events_wf [OF assms(1)] sql_limit_def
      nat_add_distrib conj_commute)
qed

section \<open>What the archive operations keep\<close>

text \<open>Only metadata changes: same names, rows and health.\<close>

definition same_rows :: "archive \<Rightarrow> archive \<Rightarrow> bool" where
  "same_rows ar ar' \<longleftrightarrow> ar_locks ar' = ar_locks ar \<and>
     map (\<lambda>k. (bk_name k, bk_events k, bk_health k)) (ar_buckets ar') =
     map (\<lambda>k. (bk_name k, bk_events k, bk_health k)) (ar_buckets ar)"

lemma same_rows_refl [simp]: "same_rows ar ar"
  by (simp add: same_rows_def)

lemma same_rows_trans: "same_rows a b \<Longrightarrow> same_rows b c \<Longrightarrow> same_rows a c"
  by (simp add: same_rows_def)

lemma same_rows_warm: "same_rows ar ar' \<Longrightarrow> warm_rows ar' = warm_rows ar"
proof -
  assume "same_rows ar ar'"
  then have "map (fst \<circ> snd) (map (\<lambda>k. (bk_name k, bk_events k, bk_health k)) (ar_buckets ar')) =
      map (fst \<circ> snd) (map (\<lambda>k. (bk_name k, bk_events k, bk_health k)) (ar_buckets ar))"
    unfolding same_rows_def by presburger
  then have "map bk_events (ar_buckets ar') = map bk_events (ar_buckets ar)"
    unfolding map_map comp_def fst_conv snd_conv .
  then have "bk_events ` set (ar_buckets ar') = bk_events ` set (ar_buckets ar)" by (rule set_map_eq)
  then show ?thesis unfolding warm_rows_def by (metis image_image)
qed

lemma chooseBucketForMonth_same: "same_rows ar (snd (chooseBucketForMonth sz now m mx ar))"
  by (auto simp: chooseBucketForMonth_def Let_def same_rows_def map_bucket_def)

lemma map_bucket_wf:
  assumes "archive_wf ar" and "\<And>k. bucket_wf k \<Longrightarrow> bk_name k = n \<Longrightarrow> bucket_wf (f k) \<and> bk_name (f k) = n"
  shows "archive_wf (map_bucket n f ar)"
proof -
  have "map bk_name (ar_buckets (map_bucket n f ar)) = map bk_name (ar_buckets ar)"
    using assms by (auto simp: map_bucket_def archive_wf_def)
  moreover have "bucket_wf k \<and> BUCKET_FILE_RE (bk_name k)" if "k \<in> set (ar_buckets (map_bucket n f ar))" for k
  proof -
    from that obtain k0 where k0: "k0 \<in> set (ar_buckets ar)" "k = (if bk_name k0 = n then f k0 else k0)"
      by (auto simp: map_bucket_def)
    then have "bucket_wf k0" "BUCKET_FILE_RE (bk_name k0)" using assms(1) by (auto simp: archive_wf_def)
    with k0(2) assms(2) show ?thesis by (cases "bk_name k0 = n") auto
  qed
  ultimately show ?thesis using assms(1) by (simp add: archive_wf_def)
qed

lemma chooseBucketForMonth_wf: "archive_wf ar \<Longrightarrow> archive_wf (snd (chooseBucketForMonth sz now m mx ar))"
  by (auto simp: chooseBucketForMonth_def Let_def sealBucket_wf intro!: map_bucket_wf)

lemma archive_insert_strict:
  assumes "sorted_wrt (<) (map ev_id es)"
  shows "sorted_wrt (<) (map ev_id (archive_insert e es))"
proof (cases "ev_id e \<in> ev_id ` set es")
  case True
  then show ?thesis using assms by (simp add: archive_insert_def)
next
  case False
  have "sorted (map ev_id (insort_key ev_id e es))" using assms by (simp add: sorted_insort_key strict_sorted_iff)
  moreover have "distinct (map ev_id (insort_key ev_id e es))"
    using assms False by (simp add: strict_sorted_iff distinct_map distinct_insort set_insort_key inj_on_insert image_iff)
      (metis inj_on_insert)
  ultimately show ?thesis using False by (simp add: archive_insert_def strict_sorted_iff)
qed

lemma fold_archive_strict:
  "sorted_wrt (<) (map ev_id rs) \<Longrightarrow> sorted_wrt (<) (map ev_id (fold archive_insert es rs))"
  by (induction es arbitrary: rs) (simp_all add: archive_insert_strict)

lemma fold_archive_set:
  "set rs \<subseteq> set (fold archive_insert es rs) \<and> set (fold archive_insert es rs) \<subseteq> set rs \<union> set es \<and>
   ev_id ` set (fold archive_insert es rs) = ev_id ` set rs \<union> ev_id ` set es"
proof (induction es arbitrary: rs)
  case Nil
  then show ?case by simp
next
  case (Cons e es)
  from Cons [of "archive_insert e rs"] show ?case by (auto simp: set_archive_insert)
qed

text \<open>A bucket after a batch.\<close>

definition filled :: "event_row list \<Rightarrow> bucket \<Rightarrow> bucket" where
  "filled es k = with_range (insert_rows es k)"

lemma filled_sel [simp]:
  "bk_name (filled es k) = bk_name k" "bk_health (filled es k) = bk_health k"
  "bk_events (filled es k) = fold archive_insert es (bk_events k)"
  by (simp_all add: filled_def with_range_def insert_rows_def split: option.split)

lemma with_range_meta:
  assumes "e \<in> set (bk_events k)"
  shows "(\<exists>m. bm_min (bk_meta (with_range k)) = Some m \<and> m \<le> ev_id e) \<and> (\<exists>m. bm_max (bk_meta (with_range k)) = Some m \<and> ev_id e \<le> m)"
proof -
  have "map ev_id (bk_events k) \<noteq> []" using assms by auto
  then obtain mn mx where "list_min (map ev_id (bk_events k)) = Some mn" "list_max (map ev_id (bk_events k)) = Some mx"
    by (metis list_max_None list_min_None not_None_eq)
  with assms list_min_Some [of "map ev_id (bk_events k)" mn] list_max_Some [of "map ev_id (bk_events k)" mx]
  show ?thesis by (simp add: with_range_def)
qed

lemma filled_wf:
  assumes "sorted_wrt (<) (map ev_id (bk_events k))" and "\<forall>e\<in>set (bk_events k). ev_id e \<le> MAX_SAFE_INTEGER"
    and "\<forall>e\<in>set es. ev_id e \<le> MAX_SAFE_INTEGER"
  shows "bucket_wf (filled es k)"
  unfolding bucket_wf_def
proof (intro conjI ballI)
  show "sorted_wrt (<) (map ev_id (bk_events (filled es k)))"
    using fold_archive_strict [OF assms(1)] by simp
next
  fix e assume e: "e \<in> set (bk_events (filled es k))"
  then show "ev_id e \<le> MAX_SAFE_INTEGER" using assms(2,3) fold_archive_set [of "bk_events k" es] by auto
  have "e \<in> set (bk_events (insert_rows es k))" using e by (simp add: insert_rows_def)
  from with_range_meta [OF this]
  show "\<exists>m. bm_min (bk_meta (filled es k)) = Some m \<and> m \<le> ev_id e"
    "\<exists>m. bm_max (bk_meta (filled es k)) = Some m \<and> ev_id e \<le> m" by (simp_all add: filled_def)
qed

lemma insertBatch_cases:
  obtains (fresh) k where "find_bucket ar n = None" "bk_name k = n" "bk_events k = []"
      "insertBatchIntoBucket now n es ar = (Inr (), ar\<lparr>ar_buckets := ar_buckets ar @ [filled es k]\<rparr>)"
  | (reused) k where "find_bucket ar n = Some k" "insertBatchIntoBucket now n es ar = (Inr (), map_bucket n (filled es) ar)"
  | (unreadable) err where "insertBatchIntoBucket now n es ar = (Inl err, ar)"
proof (cases "find_bucket ar n")
  case None
  show ?thesis
    by (rule fresh [OF None, of "createBucket n now (Some (ev_id (hd es))) (Some (ev_id (last es)))"])
      (simp_all add: createBucket_def insertBatchIntoBucket_def None filled_def)
next
  case (Some k)
  have f: "(\<lambda>k. with_range (insert_rows es k)) = filled es" by (simp add: filled_def [abs_def])
  show ?thesis
  proof (cases "bk_health k = Healthy")
    case True
    then show ?thesis by (intro reused [OF Some]) (simp add: insertBatchIntoBucket_def Some f)
  next
    case False
    then show ?thesis by (intro unreadable) (simp add: insertBatchIntoBucket_def Some)
  qed
qed


section \<open>Grouping and writing\<close>

definition group_rows :: "groups \<Rightarrow> event_row set" where
  "group_rows gs = (\<Union>(n, es)\<in>set gs. set es)"

lemma update_set: "set (AList.update k v al) \<subseteq> insert (k, v) (set al)"
  by (induction al) auto

lemma group_rows_simps [simp]:
  "group_rows [] = {}" "group_rows ((n, es) # gs) = set es \<union> group_rows gs"
  by (simp_all add: group_rows_def)

lemma add_to_group_simps:
  "add_to_group n e [] = [(n, [e])]"
  "add_to_group n e ((m, es) # gs) = (if m = n then (m, es @ [e]) # gs else (m, es) # add_to_group n e gs)"
  by (simp_all add: add_to_group_def)

lemma add_to_group_rows:
  "group_rows (add_to_group n e gs) = insert e (group_rows gs)"
  "fst ` set (add_to_group n e gs) = insert n (fst ` set gs)"
proof (induction gs)
  case Nil
  { case 1 show ?case by (simp add: add_to_group_simps) next case 2 show ?case by (simp add: add_to_group_simps) }
next
  case (Cons g gs)
  obtain m es where g: "g = (m, es)" by (cases g)
  { case 1 show ?case unfolding g add_to_group_simps using Cons(1) by (cases "m = n") auto
    next case 2 show ?case unfolding g add_to_group_simps using Cons(2) by (cases "m = n") auto }
qed

lemma groupByTargetBucket_rows:
  "groupByTargetBucket sz now mx es cache gs ar = (r, ar') \<Longrightarrow>
   same_rows ar ar' \<and> (archive_wf ar \<longrightarrow> archive_wf ar') \<and>
   (\<forall>gs'. r = Inr gs' \<longrightarrow> group_rows gs' = group_rows gs \<union> set es)"
proof (induction es arbitrary: cache gs ar)
  case Nil
  then show ?case by auto
next
  case (Cons e es)
  let ?m = "monthKey (ev_emitted_at e)"
  note add = add_to_group_rows(1) [of _ e gs]
  show ?case
  proof (cases "map_of cache ?m")
    case (Some n)
    with Cons.prems have "groupByTargetBucket sz now mx es cache (add_to_group n e gs) ar = (r, ar')" by simp
    from Cons.IH [OF this] show ?thesis using add by auto
  next
    case None
    obtain r1 ar1 where step: "chooseBucketForMonth sz now ?m mx ar = (r1, ar1)" by fastforce
    have s1: "same_rows ar ar1" and w1: "archive_wf ar \<Longrightarrow> archive_wf ar1"
      using chooseBucketForMonth_same [of ar sz now ?m mx] chooseBucketForMonth_wf [of ar sz now ?m mx] step by auto
    show ?thesis
    proof (cases r1)
      case (Inl err)
      with Cons.prems None step have "r = Inl err" "ar' = ar1" by simp_all
      then show ?thesis using s1 w1 by simp
    next
      case (Inr n)
      with Cons.prems None step
      have "groupByTargetBucket sz now mx es (AList.update ?m n cache) (add_to_group n e gs) ar1 = (r, ar')" by simp
      from Cons.IH [OF this] have ih: "same_rows ar1 ar'" "archive_wf ar1 \<longrightarrow> archive_wf ar'"
        "\<forall>gs'. r = Inr gs' \<longrightarrow> group_rows gs' = group_rows (add_to_group n e gs) \<union> set es"
        by blast+
      then show ?thesis using s1 w1 same_rows_trans [OF s1 ih(1)] add [of n] by auto
    qed
  qed
qed

lemma insertBatch_rows:
  assumes "insertBatchIntoBucket now n es ar = (r, ar')"
  shows "warm_rows ar \<subseteq> warm_rows ar' \<and> warm_rows ar' \<subseteq> warm_rows ar \<union> set es \<and>
    (r = Inr () \<longrightarrow> ev_id ` set es \<subseteq> warm_ids ar') \<and> ar_locks ar' = ar_locks ar"
proof (cases rule: insertBatch_cases [of ar n now es])
  case (fresh k)
  with assms have ar': "ar' = ar\<lparr>ar_buckets := ar_buckets ar @ [filled es k]\<rparr>" by simp
  then have w: "warm_rows ar' = warm_rows ar \<union> set (fold archive_insert es [])"
    using fresh(3) by (auto simp: warm_rows_def)
  have "set (fold archive_insert es []) \<subseteq> set es" "ev_id ` set (fold archive_insert es []) = ev_id ` set es"
    using fold_archive_set [of "[]" es] by simp_all
  then have "warm_rows ar \<subseteq> warm_rows ar'" "warm_rows ar' \<subseteq> warm_rows ar \<union> set es" "ev_id ` set es \<subseteq> warm_ids ar'"
    unfolding warm_ids_def w by blast+
  moreover have "ar_locks ar' = ar_locks ar" by (simp add: ar')
  ultimately show ?thesis by blast
next
  case (reused k)
  with assms have ar': "ar' = map_bucket n (filled es) ar" by simp
  have fr: "set rs \<subseteq> set (fold archive_insert es rs)" "set (fold archive_insert es rs) \<subseteq> set rs \<union> set es"
    "ev_id ` set es \<subseteq> ev_id ` set (fold archive_insert es rs)" for rs using fold_archive_set [of rs es] by auto
  have k: "k \<in> set (ar_buckets ar)" "bk_name k = n" using reused(1) by (auto simp: find_bucket_def dest: find_Some_conv)
  have b': "set (ar_buckets ar') = (\<lambda>k. if bk_name k = n then filled es k else k) ` set (ar_buckets ar)"
    by (simp add: ar' map_bucket_def)
  have 1: "x \<in> warm_rows ar'" if "x \<in> warm_rows ar" for x
  proof -
    from that obtain j where j: "j \<in> set (ar_buckets ar)" "x \<in> set (bk_events j)" by (auto simp: warm_rows_def)
    then have "x \<in> set (bk_events (if bk_name j = n then filled es j else j))" using fr(1) by auto
    with j(1) show ?thesis unfolding warm_rows_def b' by blast
  qed
  have 2: "x \<in> warm_rows ar \<union> set es" if "x \<in> warm_rows ar'" for x
  proof -
    from that obtain j where j: "j \<in> set (ar_buckets ar)" "x \<in> set (bk_events (if bk_name j = n then filled es j else j))"
      unfolding warm_rows_def b' by blast
    then have "x \<in> set (bk_events j) \<union> set es" using fr(2) by (auto split: if_splits)
    with j(1) show ?thesis by (auto simp: warm_rows_def)
  qed
  have 3: "ev_id ` set es \<subseteq> warm_ids ar'"
  proof -
    have "(\<lambda>k. if bk_name k = n then filled es k else k) k \<in> set (ar_buckets ar')" unfolding b' using k(1) by (rule imageI)
    then have "filled es k \<in> set (ar_buckets ar')" using k(2) by simp
    then have "set (bk_events (filled es k)) \<subseteq> warm_rows ar'" unfolding warm_rows_def by (rule UN_upper)
    then have "ev_id ` set (fold archive_insert es (bk_events k)) \<subseteq> warm_ids ar'"
      unfolding warm_ids_def filled_sel by (rule image_mono)
    with fr(3) [of "bk_events k"] show ?thesis by (rule order_trans)
  qed
  have "ar_locks ar' = ar_locks ar" by (simp add: ar' map_bucket_def)
  with 1 2 3 show ?thesis by blast
next
  case (unreadable err)
  with assms show ?thesis by auto
qed

text \<open>The ways one group is dealt with.\<close>

lemma write_groups_Cons:
  assumes "write_groups now ((n, es) # gs) ar = (r, ar')"
  obtains (locked) r1 where "write_groups now gs ar = (r1, ar')"
      "\<And>t s moved. r = Inr (t, s, moved) \<Longrightarrow> \<exists>s1. r1 = Inr (t, s1, moved)"
  | (stopped) err where "insertBatchIntoBucket now n es ar = (Inl err, ar')" "r = Inl err"
  | (written) ar1 r1 where "insertBatchIntoBucket now n es ar = (Inr (), ar1)" "write_groups now gs ar1 = (r1, ar')"
      "\<And>t s moved. r = Inr (t, s, moved) \<Longrightarrow> \<exists>t1 moved1. r1 = Inr (t1, s, moved1) \<and> moved = map ev_id es @ moved1"
proof (cases "n \<in> set (ar_locks ar)")
  case True
  obtain r1 ar1 where w: "write_groups now gs ar = (r1, ar1)" by fastforce
  show ?thesis
    by (rule locked [of r1]) (use assms True w in \<open>auto split: sum.splits\<close>)
next
  case False
  obtain r0 ar1 where i: "insertBatchIntoBucket now n es ar = (r0, ar1)" by fastforce
  show ?thesis
  proof (cases r0)
    case (Inl err)
    show ?thesis by (rule stopped [of err]) (use assms False i Inl in auto)
  next
    case (Inr u)
    obtain r1 ar2 where w: "write_groups now gs ar1 = (r1, ar2)" by fastforce
    show ?thesis
      by (rule written [of ar1 r1]) (use assms False i Inr w in \<open>auto split: sum.splits\<close>)
  qed
qed

lemma write_groups_rows:
  "write_groups now gs ar = (r, ar') \<Longrightarrow> warm_rows ar \<subseteq> warm_rows ar' \<and> warm_rows ar' \<subseteq> warm_rows ar \<union> group_rows gs \<and>
   (\<forall>t s moved. r = Inr (t, s, moved) \<longrightarrow> set moved \<subseteq> warm_ids ar' \<and> set moved \<subseteq> ev_id ` group_rows gs)"
proof (induction gs arbitrary: ar r ar')
  case Nil
  then show ?case by auto
next
  case (Cons g gs)
  obtain n es where g: "g = (n, es)" by (cases g)
  from Cons.prems [unfolded g] show ?case
  proof (cases rule: write_groups_Cons)
    case (locked r1)
    note ih = Cons.IH [OF locked(1)]
    have "set moved \<subseteq> warm_ids ar' \<and> set moved \<subseteq> ev_id ` group_rows (g # gs)" if "r = Inr (t, s, moved)" for t s moved
      using locked(2) [OF that] ih unfolding g group_rows_simps by blast
    then show ?thesis using ih unfolding g group_rows_simps by blast
  next
    case (stopped err)
    then show ?thesis using insertBatch_rows [OF stopped(1)] unfolding g group_rows_simps by blast
  next
    case (written ar1 r1)
    note ih = Cons.IH [OF written(2)] and ir = insertBatch_rows [OF written(1)]
    have "warm_ids ar1 \<subseteq> warm_ids ar'" unfolding warm_ids_def by (rule image_mono) (use ih in blast)
    then have es: "ev_id ` set es \<subseteq> warm_ids ar'" using ir by blast
    have "set moved \<subseteq> warm_ids ar' \<and> set moved \<subseteq> ev_id ` group_rows (g # gs)" if r: "r = Inr (t, s, moved)" for t s moved
    proof -
      from written(3) [OF r] obtain t1 moved1 where m: "r1 = Inr (t1, s, moved1)" "moved = map ev_id es @ moved1" by blast
      have "set moved1 \<subseteq> warm_ids ar'" "set moved1 \<subseteq> ev_id ` group_rows gs" using ih m(1) by blast+
      then show ?thesis using es unfolding g group_rows_simps m(2) set_append set_map image_Un by (intro conjI Un_least) auto
    qed
    moreover have "warm_rows ar \<subseteq> warm_rows ar'" using ih ir order_trans by metis
    moreover have "warm_rows ar' \<subseteq> warm_rows ar \<union> group_rows (g # gs)"
    proof -
      have "warm_rows ar' \<subseteq> warm_rows ar1 \<union> group_rows gs" "warm_rows ar1 \<subseteq> warm_rows ar \<union> set es" using ih ir by blast+
      then show ?thesis unfolding g group_rows_simps by blast
    qed
    ultimately show ?thesis by blast
  qed
qed

section \<open>Names\<close>

definition month_pat :: "string \<Rightarrow> bool" where
  "month_pat m \<longleftrightarrow> length m = 7 \<and> list_all is_digit (take 4 m) \<and> m ! 4 = CHR ''-'' \<and> list_all is_digit (drop 5 m)"

lemma month_pat_bucket:
  assumes "month_pat m"
  shows "BUCKET_FILE_RE (''bus-'' @ m @ ''.db'')" and "is_lower c \<Longrightarrow> BUCKET_FILE_RE (''bus-'' @ m @ [c] @ ''.db'')"
proof -
  from assms have l: "length m = Suc (Suc (Suc (Suc (Suc (Suc (Suc 0))))))" by (simp add: month_pat_def)
  then obtain a b d e f g h where m: "m = [a, b, d, e, f, g, h]" by (auto simp: length_Suc_conv)
  show "BUCKET_FILE_RE (''bus-'' @ m @ ''.db'')" "is_lower c \<Longrightarrow> BUCKET_FILE_RE (''bus-'' @ m @ [c] @ ''.db'')"
    using assms by (simp_all add: m month_pat_def BUCKET_FILE_RE_def)
qed

lemma next_letter_lower:
  assumes "CHR ''a'' \<le> c" and "c < CHR ''z''"
  shows "is_lower (char_of (of_char c + 1 :: nat))"
proof -
  have "97 \<le> (of_char c :: nat)" "of_char c < (122 :: nat)" using assms by (simp_all add: less_eq_char_def less_char_def)
  then show ?thesis by (simp add: is_lower_def less_eq_char_def of_char_of)
qed

lemma nextSuffixedName_RE:
  assumes "month_pat m" and "nextSuffixedName latest (''bus-'' @ m) = Inr n"
  shows "BUCKET_FILE_RE n"
proof -
  define p where "p = ''bus-'' @ m"
  have a: "BUCKET_FILE_RE (p @ [c] @ ''.db'')" if "is_lower c" for c
    using month_pat_bucket(2) [OF assms(1) that] by (simp add: p_def)
  have "is_lower (CHR ''a'')" by (simp add: is_lower_def less_eq_char_def)
  then have first: "BUCKET_FILE_RE (p @ ''a.db'')" using a by fastforce
  have "n = p @ ''a.db'' \<or> (\<exists>c. CHR ''a'' \<le> c \<and> c < CHR ''z'' \<and> n = p @ [char_of (of_char c + 1 :: nat)] @ ''.db'')"
    using assms(2) unfolding p_def [symmetric]
    by (auto simp: nextSuffixedName_def Let_def split: if_splits list.splits)
  then show ?thesis using first a next_letter_lower by blast
qed

lemma chooseBucketForMonth_result:
  assumes "chooseBucketForMonth sz now m mx ar = (Inr n, ar')"
  shows "n = ''bus-'' @ m @ ''.db'' \<or>
    (\<exists>latest. BUCKET_FILE_RE latest \<and> (n = latest \<or> nextSuffixedName latest (''bus-'' @ m) = Inr n))"
proof -
  define p where "p = ''bus-'' @ m"
  define names where "names = filter (\<lambda>n. n = p @ ''.db'' \<or> prefix p n) (map bk_name (listBuckets ar))"
  define latest where "latest = last (sort names)"
  have c: "(if names = [] then n = p @ ''.db'' else n = latest \<or> nextSuffixedName latest p = Inr n)"
    using assms unfolding chooseBucketForMonth_def p_def [symmetric] Let_def names_def [symmetric] latest_def [symmetric]
    by (auto split: if_splits)
  show ?thesis
  proof (cases "names = []")
    case True
    with c show ?thesis by (simp add: p_def)
  next
    case False
    then have "sort names \<noteq> []" by (metis set_empty set_sort)
    then have "latest \<in> set (sort names)" unfolding latest_def by (rule last_in_set)
    then have "latest \<in> bk_name ` set (listBuckets ar)" by (auto simp: names_def)
    then have "BUCKET_FILE_RE latest" unfolding set_listBuckets by blast
    with c False show ?thesis unfolding p_def by auto
  qed
qed

lemma chooseBucketForMonth_RE:
  assumes "month_pat m" and "chooseBucketForMonth sz now m mx ar = (Inr n, ar')"
  shows "BUCKET_FILE_RE n"
  using chooseBucketForMonth_result [OF assms(2)] month_pat_bucket(1) [OF assms(1)] nextSuffixedName_RE [OF assms(1)]
  by blast

definition names_ok :: "groups \<Rightarrow> bool" where
  "names_ok gs \<longleftrightarrow> (\<forall>n\<in>fst ` set gs. BUCKET_FILE_RE n)"

lemma groupByTargetBucket_names:
  "groupByTargetBucket sz now mx es cache gs ar = (Inr gs', ar') \<Longrightarrow> names_ok gs \<Longrightarrow>
   \<forall>n\<in>snd ` set cache. BUCKET_FILE_RE n \<Longrightarrow> \<forall>e\<in>set es. month_pat (monthKey (ev_emitted_at e)) \<Longrightarrow> names_ok gs'"
proof (induction es arbitrary: cache gs ar)
  case Nil
  then show ?case by simp
next
  case (Cons e es)
  let ?m = "monthKey (ev_emitted_at e)"
  have add: "names_ok (add_to_group n e gs)" if "BUCKET_FILE_RE n" for n
    using Cons.prems(2) that by (auto simp: names_ok_def add_to_group_rows(2))
  show ?case
  proof (cases "map_of cache ?m")
    case (Some n)
    then have "n \<in> snd ` set cache" by (metis image_eqI map_of_SomeD snd_conv)
    then have n: "BUCKET_FILE_RE n" using Cons.prems(3) by blast
    show ?thesis by (rule Cons.IH [OF _ add [OF n]]) (use Cons.prems Some in simp_all)
  next
    case None
    with Cons.prems(1) obtain n ar1 where c: "chooseBucketForMonth sz now ?m mx ar = (Inr n, ar1)"
      "groupByTargetBucket sz now mx es (AList.update ?m n cache) (add_to_group n e gs) ar1 = (Inr gs', ar')"
      by (auto simp: Let_def split: prod.splits sum.splits)
    have n: "BUCKET_FILE_RE n" by (rule chooseBucketForMonth_RE [OF _ c(1)]) (use Cons.prems(4) in simp)
    have "\<forall>k\<in>snd ` set (AList.update ?m n cache). BUCKET_FILE_RE k"
      using n Cons.prems(3) update_set [of ?m n cache] by force
    from Cons.IH [OF c(2) add [OF n] this] Cons.prems(4) show ?thesis by simp
  qed
qed

section \<open>The archive invariant\<close>

lemma insertBatch_wf:
  assumes "archive_wf ar" and "BUCKET_FILE_RE n" and "\<forall>e\<in>set es. ev_id e \<le> MAX_SAFE_INTEGER"
    and "insertBatchIntoBucket now n es ar = (r, ar')"
  shows "archive_wf ar'"
proof (cases rule: insertBatch_cases [of ar n now es])
  case (fresh k)
  then have ar': "ar' = ar\<lparr>ar_buckets := ar_buckets ar @ [filled es k]\<rparr>" using assms(4) by simp
  have "n \<notin> bk_name ` set (ar_buckets ar)"
  proof
    assume "n \<in> bk_name ` set (ar_buckets ar)"
    then obtain x where "x \<in> set (ar_buckets ar)" "bk_name x = n" by auto
    then have "find_bucket ar n = Some x" using find_bucket_Some [OF assms(1)] by blast
    with fresh(1) show False by simp
  qed
  moreover have "bucket_wf (filled es k)" by (rule filled_wf) (use fresh(3) assms(3) in simp_all)
  ultimately show ?thesis using assms(1,2) fresh(2) by (auto simp: ar' archive_wf_def)
next
  case (reused k)
  then have ar': "ar' = map_bucket n (filled es) ar" using assms(4) by simp
  show ?thesis unfolding ar'
  proof (rule map_bucket_wf [OF assms(1)])
    fix k assume "bucket_wf k" "bk_name k = n"
    then show "bucket_wf (filled es k) \<and> bk_name (filled es k) = n"
      using filled_wf [of k es] assms(3) by (simp add: bucket_wf_def)
  qed
next
  case (unreadable err)
  then show ?thesis using assms(1,4) by simp
qed

lemma write_groups_wf:
  "write_groups now gs ar = (r, ar') \<Longrightarrow> archive_wf ar \<Longrightarrow> names_ok gs \<Longrightarrow>
   \<forall>e\<in>group_rows gs. ev_id e \<le> MAX_SAFE_INTEGER \<Longrightarrow> archive_wf ar'"
proof (induction gs arbitrary: ar r ar')
  case Nil
  then show ?case by simp
next
  case (Cons g gs)
  obtain n es where g: "g = (n, es)" by (cases g)
  have n: "BUCKET_FILE_RE n" "names_ok gs" using Cons.prems(3) by (simp_all add: g names_ok_def)
  have e: "\<forall>e\<in>set es. ev_id e \<le> MAX_SAFE_INTEGER" "\<forall>e\<in>group_rows gs. ev_id e \<le> MAX_SAFE_INTEGER"
    using Cons.prems(4) by (simp_all add: g)
  from Cons.prems(1) [unfolded g] show ?case
  proof (cases rule: write_groups_Cons)
    case (locked r1)
    from Cons.IH [OF locked(1) Cons.prems(2) n(2) e(2)] show ?thesis .
  next
    case (stopped err)
    from insertBatch_wf [OF Cons.prems(2) n(1) e(1) stopped(1)] show ?thesis .
  next
    case (written ar1 r1)
    from Cons.IH [OF written(2) insertBatch_wf [OF Cons.prems(2) n(1) e(1) written(1)] n(2) e(2)] show ?thesis .
  qed
qed

section \<open>Emission times before the year 10000 give well-formed names\<close>

lemma year_of_day_range:
  assumes "0 \<le> d" and "d < 2932897"
  shows "1970 \<le> year_of_day d \<and> year_of_day d \<le> 9999"
proof -
  define q where "q = (400 * d) div 146097"
  have "q * 146097 + (400 * d) mod 146097 = 400 * d" unfolding q_def by (rule div_mult_mod_eq)
  moreover have "0 \<le> (400 * d) mod 146097" "(400 * d) mod 146097 < 146097" by simp_all
  ultimately have q: "0 \<le> q" "q \<le> 8029" using assms by linarith+
  have y: "year_of_day d = (if d < day_from_year (1970 + q) then 1970 + q - 1
      else if day_from_year (1970 + q + 1) \<le> d then 1970 + q + 1 else 1970 + q)"
    unfolding year_of_day_def Let_def q_def by simp
  consider "q = 0" | "q = 8029" | "0 < q" "q < 8029" using q by linarith
  then show ?thesis
  proof cases
    case 1
    have "day_from_year 1970 = 0" by (simp add: day_from_year_def)
    with assms(1) show ?thesis unfolding y 1 by simp
  next
    case 2
    have "day_from_year 10000 = 2932897" by (simp add: day_from_year_def)
    with assms(2) show ?thesis unfolding y 2 by simp
  next
    case 3
    then show ?thesis unfolding y by simp
  qed
qed

lemma nat_str_4:
  assumes "1000 \<le> n" and "n \<le> 9999"
  shows "length (nat_str n) = 4"
proof -
  have a: "\<not> n < 10" "\<not> n div 10 < 10" "\<not> n div 10 div 10 < 10" "n div 10 div 10 div 10 < 10" using assms by linarith+
  show ?thesis
    by (subst nat_str.simps, subst (1) nat_str.simps, subst (1) nat_str.simps, subst (1) nat_str.simps) (simp add: a)
qed

lemma month_str:
  assumes "1 \<le> m" and "m \<le> 12"
  shows "length (pad2 (int_str m)) = 2 \<and> list_all is_digit (pad2 (int_str m))"
proof -
  have "m = 1 \<or> m = 2 \<or> m = 3 \<or> m = 4 \<or> m = 5 \<or> m = 6 \<or> m = 7 \<or> m = 8 \<or> m = 9 \<or> m = 10 \<or> m = 11 \<or> m = 12"
    using assms by presburger
  then show ?thesis
    by (elim disjE) (simp_all add: int_str_def pad2_def nat_str.simps is_digit_def less_eq_char_def)
qed

lemma month_pat_monthKey:
  assumes "0 \<le> ms" and "ms < 253402300800000"
  shows "month_pat (monthKey ms)"
proof -
  define t where "t = \<lfloor>ms\<rfloor>"
  let ?d = "t div 86400000"
  have t: "0 \<le> t" "t < 253402300800000" using assms by (simp_all add: t_def floor_less_iff)
  have "?d * 86400000 + t mod 86400000 = t" by (rule div_mult_mod_eq)
  moreover have "0 \<le> t mod 86400000" "t mod 86400000 < 86400000" by simp_all
  ultimately have d: "0 \<le> ?d" "?d < 2932897" using t by linarith+
  have u: "utc_day ms = Some ?d" using assms(1) t by (simp add: utc_day_def Let_def t_def)
  have y: "1970 \<le> year_of_day ?d" "year_of_day ?d \<le> 9999" using year_of_day_range [OF d] by blast+
  then have ys: "length (int_str (year_of_day ?d)) = 4" "list_all is_digit (int_str (year_of_day ?d))"
    using nat_str_4 [of "nat (year_of_day ?d)"] nat_str_shape [of "nat (year_of_day ?d)"] by (simp_all add: int_str_def)
  have "length (filter (\<lambda>s. s \<le> ?d - day_from_year (year_of_day ?d)) (month_starts (leap_year (year_of_day ?d)))) \<le> 11"
    by (rule order_trans [OF length_filter_le]) (simp add: month_starts_def Let_def)
  then have "1 \<le> month_of_day ?d" "month_of_day ?d \<le> 12" by (simp_all add: month_of_day_def Let_def)
  from month_str [OF this] ys show ?thesis
    by (simp add: month_pat_def monthKey_def u nth_append)
qed

section \<open>The sweep as a whole\<close>

lemma groups_written:
  assumes "groupByTargetBucket sz now mx cs [] [] ar = (Inr gs, ar1)" and "write_groups now gs ar1 = (r, ar2)"
  shows "warm_rows ar \<subseteq> warm_rows ar2" and "warm_rows ar2 \<subseteq> warm_rows ar \<union> set cs"
    and "r = Inr (t, s, moved) \<Longrightarrow> set moved \<subseteq> warm_ids ar2 \<and> set moved \<subseteq> ev_id ` set cs"
proof -
  note g = groupByTargetBucket_rows [OF assms(1)] and w = write_groups_rows [OF assms(2)]
  have rows: "group_rows gs = set cs" and same: "warm_rows ar1 = warm_rows ar" using g same_rows_warm by auto
  show "warm_rows ar \<subseteq> warm_rows ar2" "warm_rows ar2 \<subseteq> warm_rows ar \<union> set cs" using w unfolding rows same by blast+
  show "r = Inr (t, s, moved) \<Longrightarrow> set moved \<subseteq> warm_ids ar2 \<and> set moved \<subseteq> ev_id ` set cs" using w unfolding rows by blast
qed

text \<open>What the deletion leaves, whichever way it is called.\<close>

lemma deleteFromLive_cases:
  "\<exists>ids. set ids \<subseteq> set moved \<and> snd (deleteFromLive b moved ro) = delete_ids ids b"
proof (cases ro)
  case None
  then show ?thesis by (auto simp: deleteFromLive_def)
next
  case (Some x)
  obtain now days where x: "x = (now, days)" by (cases x)
  show ?thesis unfolding Some x deleteFromLive_def Let_def option.case prod.case snd_conv
    by (rule exI, rule conjI [OF _ refl]) auto
qed

lemma deleteFromLive_keeps_owed:
  assumes "bus_wf b" and "e \<in> set (events b)" and "owed_event b now e" and "\<not> past_cap now days e"
  shows "e \<in> set (events (snd (deleteFromLive b moved (Some (now, days)))))"
proof -
  obtain cid where o: "owes b now cid (ev_id e)" using assms(3) unfolding owed_event_iff [OF assms(1)] by blast
  from owed_pair_exists [OF assms(1) o, of days] obtain p where p: "p \<in> set (owedPairsWithCap b now days)" "ow_event p = ev_id e"
    by blast
  have "find_event b (ev_id e) = Some e" using find_event_Some [OF bus_wfD(1) [OF assms(1)]] assms(2) by simp
  with p have "\<not> ow_over_cap p" using assms(4) unfolding owedPairsWithCap_iff [OF assms(1)] past_cap_def by auto
  with p have "ev_id e \<in> set moved \<longrightarrow> ev_id e \<in> ow_event ` {x \<in> set (owedPairsWithCap b now days). ow_event x \<in> set moved \<and> \<not> ow_over_cap x}"
    by (metis (mono_tags, lifting) imageI mem_Collect_eq)
  then show ?thesis using assms(2) by (auto simp: deleteFromLive_def Let_def delete_ids_def)
qed

lemma sweep2_move_cases:
  assumes "sweep2_move cfg env now policy days pairs cs b ar = (r, b', ar')"
  obtains (failed) "b' = b" "warm_rows ar \<subseteq> warm_rows ar'" "warm_rows ar' \<subseteq> warm_rows ar \<union> set cs"
  | (moved) moved where "warm_rows ar \<subseteq> warm_rows ar'" "warm_rows ar' \<subseteq> warm_rows ar \<union> set cs"
      "set moved \<subseteq> warm_ids ar'" "set moved \<subseteq> ev_id ` set cs"
      "b' = (if moved \<noteq> [] then snd (deleteFromLive (sv_between env b) moved (if policy = Retain then Some (now, days) else None))
             else sv_between env b)"
proof -
  let ?mx = "case s2_bucket_max_bytes cfg of Some n \<Rightarrow> n | None \<Rightarrow> 10737418240"
  obtain r1 ar1 where g: "groupByTargetBucket (sv_size env) now ?mx cs [] [] ar = (r1, ar1)" by fastforce
  show ?thesis
  proof (cases r1)
    case (Inl err)
    have "warm_rows ar1 = warm_rows ar" using groupByTargetBucket_rows [OF g] same_rows_warm by blast
    with assms g Inl failed show ?thesis by (simp add: sweep2_move_def)
  next
    case (Inr gs)
    obtain r2 ar2 where w: "write_groups now gs ar1 = (r2, ar2)" by fastforce
    note gw = groups_written [OF g [unfolded Inr] w]
    show ?thesis
    proof (cases r2)
      case err: (Inl err)
      with assms g Inr w have "b' = b" "ar' = ar2" by (simp_all add: sweep2_move_def)
      with gw(1,2) failed show ?thesis by blast
    next
      case ok: (Inr x)
      obtain t s mv where x: "x = (t, s, mv)" by (cases x)
      have "ar' = ar2" and "b' = (if mv \<noteq> [] then snd (deleteFromLive (sv_between env b) mv (if policy = Retain then Some (now, days) else None))
             else sv_between env b)"
        using assms g Inr w ok x by (auto simp: sweep2_move_def Let_def split: prod.splits)
      with gw(1,2) gw(3) [OF ok [unfolded x]] moved show ?thesis by blast
    qed
  qed
qed

lemma delete_ids_sel [simp]:
  "set (events (delete_ids ids b)) = {e \<in> set (events b). ev_id e \<notin> set ids}"
  "cursors (delete_ids ids b) = cursors b" "subscriptions (delete_ids ids b) = subscriptions b"
  "dead_letters (delete_ids ids b) = dead_letters b" "delivery_attempts (delete_ids ids b) = delivery_attempts b"
  by (simp_all add: delete_ids_def)

lemma set_js_slice0: "x \<in> set (js_slice0 n xs) \<Longrightarrow> x \<in> set xs"
  by (auto simp: js_slice0_def dest: in_set_takeD split: if_splits)

lemma sweep_candidates_sub: "e \<in> set (sweep_candidates b now n held) \<Longrightarrow> e \<in> set (events b) \<and> expired now e"
  unfolding sweep_candidates_def by (auto dest!: set_js_slice0 set_select_events)

text \<open>The outcomes of \<open>runSweepV2\<close> under a policy that keeps or archives.\<close>

lemma runSweepV2_cases:
  assumes "runSweepV2 cfg env now b ar = (r, b', ar')" and "resolveUnackedPolicy (sc_unacked_policy cfg) = Inr policy"
    and "policy \<noteq> Discard"
  obtains (idle) "b' = b" "ar' = ar"
  | (swept) days cs where "resolveRetentionCapDays (sc_unacked_retention_days cfg) = Inr days"
      "set cs \<subseteq> {e \<in> set (events b). expired now e}"
      "sweep2_move cfg env now policy days (owedPairsWithCap b now days) cs b ar = (r, b', ar')"
proof (cases "resolveRetentionCapDays (sc_unacked_retention_days cfg)")
  case (Inl e)
  with assms idle show ?thesis by (simp add: runSweepV2_def)
next
  case (Inr days)
  let ?n = "case s2_batch_size cfg of Some n \<Rightarrow> n | None \<Rightarrow> 5000"
  let ?cs = "sweep_candidates b now ?n (held_ids policy (owedPairsWithCap b now days))"
  have sub: "set ?cs \<subseteq> {e \<in> set (events b). expired now e}" using sweep_candidates_sub by blast
  show ?thesis
  proof (cases "?cs = []")
    case True
    with assms Inr idle show ?thesis by (auto simp: runSweepV2_def Let_def)
  next
    case False
    with assms Inr have "sweep2_move cfg env now policy days (owedPairsWithCap b now days) ?cs b ar = (r, b', ar')"
      by (auto simp: runSweepV2_def Let_def)
    with Inr sub swept show ?thesis by blast
  qed
qed

lemma delete_none [simp]: "delete_ids [] b = b"
  by (simp add: delete_ids_def)

text \<open>The net effect of a sweep that does not discard.\<close>

lemma sweep2_effect:
  assumes "runSweepV2 cfg env now b ar = (r, b', ar')"
    and "resolveUnackedPolicy (sc_unacked_policy cfg) = Inr policy" and "policy \<noteq> Discard"
  shows "(b' = b \<or> (\<exists>ids. b' = delete_ids ids (sv_between env b) \<and> set ids \<subseteq> warm_ids ar')) \<and>
    warm_rows ar \<subseteq> warm_rows ar' \<and> warm_rows ar' \<subseteq> warm_rows ar \<union> {e \<in> set (events b). expired now e}"
  using assms
proof (cases rule: runSweepV2_cases)
  case idle
  then show ?thesis by simp
next
  case (swept days cs)
  from swept(3) show ?thesis
  proof (cases rule: sweep2_move_cases)
    case failed
    with swept(2) show ?thesis by blast
  next
    case (moved moved)
    let ?ro = "if policy = Retain then Some (now, days) else None"
    obtain ids where ids: "set ids \<subseteq> set moved" "snd (deleteFromLive (sv_between env b) moved ?ro) = delete_ids ids (sv_between env b)"
      using deleteFromLive_cases by blast
    have "\<exists>ids. b' = delete_ids ids (sv_between env b) \<and> set ids \<subseteq> warm_ids ar'"
    proof (cases "moved = []")
      case True
      with moved(5) show ?thesis by (intro exI [of _ "[]"]) simp
    next
      case False
      then show ?thesis using moved(3,5) ids by (intro exI [of _ ids]) auto
    qed
    then show ?thesis using moved(1,2) swept(2) by blast
  qed
qed

section \<open>Properties\<close>

text \<open>C15: The tiered sweep loses nothing: under \<open>retain\<close> and \<open>archive\<close>, whatever bucket is locked,
  unreadable or full, and whatever other connections commit between the bucket writes and the
  deletion, every event the live table holds at deletion time is still live afterwards or has a warm
  copy with its id. The warm tier only grows, by expired events of the live table.\<close>

theorem tiered_sweep_loses_nothing:
  assumes "runSweepV2 cfg env now b ar = (r, b', ar')"
    and "resolveUnackedPolicy (sc_unacked_policy cfg) = Inr policy" and "policy \<noteq> Discard"
  shows "(b' = b \<or> (\<forall>e\<in>set (events (sv_between env b)). e \<in> set (events b') \<or> ev_id e \<in> warm_ids ar')) \<and>
    warm_rows ar \<subseteq> warm_rows ar' \<and> warm_rows ar' \<subseteq> warm_rows ar \<union> {e \<in> set (events b). expired now e}"
  using sweep2_effect [OF assms] by (auto simp: delete_ids_def)

definition quiet_env :: sweep_env where
  "quiet_env = \<lparr>sv_size = (\<lambda>_. None), sv_db_size = None, sv_busy = [], sv_between = (\<lambda>b. b)\<rparr>"

definition demo_sweep2 :: "jsval \<Rightarrow> sweep2_config" where
  "demo_sweep2 policy = \<lparr>sc_unacked_policy = policy, sc_unacked_retention_days = JUndef, sc_archive_mode = JUndef,
     s2_batch_size = None, s2_bucket_max_bytes = None, s2_live_bloat_bytes = None, s2_live_bloat_rows = None\<rparr>"

definition no_archive :: archive where
  "no_archive = \<lparr>ar_buckets = [], ar_locks = []\<rparr>"

lemma demo_sweep2_policy [simp]:
  "resolveUnackedPolicy (sc_unacked_policy (demo_sweep2 JUndef)) = Inr Retain"
  "resolveRetentionCapDays (sc_unacked_retention_days (demo_sweep2 p)) = Inr 30"
  by (simp_all add: demo_sweep2_def resolveUnackedPolicy_def resolveRetentionCapDays_def DEFAULT_UNACKED_RETENTION_DAYS_def)

lemma demo_between [simp]: "sv_between quiet_env b = b"
  by (simp add: quiet_env_def)

lemma no_archive_wf [simp]: "archive_wf no_archive"
  by (simp add: archive_wf_def no_archive_def)

lemma tiered_sweep_loses_nothing_witness:
  "\<exists>r b' ar'. runSweepV2 (demo_sweep2 JUndef) quiet_env 11 (demo_bus [4, 5] 4) no_archive = (r, b', ar') \<and>
     map ev_id (events b') = [5] \<and> 4 \<in> warm_ids ar'"
proof -
  obtain r b' ar' where s: "runSweepV2 (demo_sweep2 JUndef) quiet_env 11 (demo_bus [4, 5] 4) no_archive = (r, b', ar')"
    using prod_cases3 by blast
  have "map ev_id (events (fst (snd (runSweepV2 (demo_sweep2 JUndef) quiet_env 11 (demo_bus [4, 5] 4) no_archive)))) = [5]"
    by code_simp
  then have ids: "map ev_id (events b') = [5]" by (simp add: s)
  have d: "demo_row 4 ''wicked.a'' \<in> set (events (demo_bus [4, 5] 4))" "ev_id (demo_row 4 ''wicked.a'') = 4"
    "map ev_id (events (demo_bus [4, 5] 4)) = [4, 5]" by (simp_all add: demo_bus_def demo_row_def)
  have "b' \<noteq> demo_bus [4, 5] 4" using ids d(3) by auto
  moreover have "demo_row 4 ''wicked.a'' \<notin> set (events b')"
  proof
    assume "demo_row 4 ''wicked.a'' \<in> set (events b')"
    then have "ev_id (demo_row 4 ''wicked.a'') \<in> set (map ev_id (events b'))" by simp
    then show False unfolding ids d(2) by simp
  qed
  ultimately have "ev_id (demo_row 4 ''wicked.a'') \<in> warm_ids ar'"
    using tiered_sweep_loses_nothing [OF s demo_sweep2_policy(1)] d(1) by auto
  then have "4 \<in> warm_ids ar'" unfolding d(2) .
  with s ids show ?thesis by (intro exI conjI)
qed

text \<open>The tiered sweep keeps what is owed: under \<open>retain\<close>, an event that an active consumer owes
  when the deletion runs, counting consumers that registered since the candidates were chosen, and
  that is not past the retention cap, is still live afterwards.\<close>

theorem tiered_sweep_keeps_owed:
  assumes "runSweepV2 cfg env now b ar = (r, b', ar')"
    and "resolveUnackedPolicy (sc_unacked_policy cfg) = Inr Retain"
    and "resolveRetentionCapDays (sc_unacked_retention_days cfg) = Inr days" and "bus_wf (sv_between env b)"
  shows "b' = b \<or> (\<forall>e\<in>set (events (sv_between env b)).
     owed_event (sv_between env b) now e \<and> \<not> past_cap now days e \<longrightarrow> e \<in> set (events b'))"
proof -
  have nd: "Retain \<noteq> Discard" by simp
  from assms(1,2) nd show ?thesis
  proof (cases rule: runSweepV2_cases)
    case idle
    then show ?thesis by simp
  next
    case (swept days' cs)
    then have d: "days' = days" using assms(3) by simp
    from swept(3) show ?thesis
    proof (cases rule: sweep2_move_cases)
      case failed
      then show ?thesis by simp
    next
      case (moved moved)
      then have "b' = (if moved \<noteq> [] then snd (deleteFromLive (sv_between env b) moved (Some (now, days))) else sv_between env b)"
        by (simp add: d)
      then show ?thesis using deleteFromLive_keeps_owed [OF assms(4)] by auto
    qed
  qed
qed

lemma tiered_sweep_keeps_owed_witness:
  "demo_row 5 ''wicked.a'' \<in> set (events (fst (snd (runSweepV2 (demo_sweep2 JUndef) quiet_env 11 (demo_bus [4, 5] 4) no_archive))))"
proof -
  obtain r b' ar' where s: "runSweepV2 (demo_sweep2 JUndef) quiet_env 11 (demo_bus [4, 5] 4) no_archive = (r, b', ar')"
    using prod_cases3 by blast
  have wf: "bus_wf (demo_bus [4, 5] 4)" by (rule demo_bus_wf) auto
  have "List.member (owed_pairs (demo_bus [4, 5] 4) 11) (''c'', 5)" by code_simp
  then have "(''c'', 5) \<in> set (owed_pairs (demo_bus [4, 5] 4) 11)" by simp
  then have "owed_event (demo_bus [4, 5] 4) 11 (demo_row 5 ''wicked.a'')" by (force simp: owed_event_def demo_row_def)
  moreover have "\<not> past_cap 11 30 (demo_row 5 ''wicked.a'')" by (simp add: past_cap_def DAY_MS_def demo_row_def)
  moreover have "demo_row 5 ''wicked.a'' \<in> set (events (demo_bus [4, 5] 4))" by (simp add: demo_bus_def)
  ultimately show ?thesis
    using tiered_sweep_keeps_owed [OF s demo_sweep2_policy(1,2)] wf by (auto simp: s)
qed

lemma runSweepV2_archive_wf:
  assumes "archive_wf ar" and "runSweepV2 cfg env now b ar = (r, b', ar')"
    and "\<forall>e\<in>set (events b). ev_id e \<le> MAX_SAFE_INTEGER \<and> 0 \<le> ev_emitted_at e \<and> ev_emitted_at e < 253402300800000"
  shows "archive_wf ar'"
proof -
  have move: "archive_wf ar'" if m: "sweep2_move cfg env now policy days pairs cs b0 ar = (r, b', ar')"
    and cs: "set cs \<subseteq> set (events b)" for policy days pairs cs b0
  proof -
    let ?mx = "case s2_bucket_max_bytes cfg of Some n \<Rightarrow> n | None \<Rightarrow> 10737418240"
    obtain r1 ar1 where g: "groupByTargetBucket (sv_size env) now ?mx cs [] [] ar = (r1, ar1)" by fastforce
    note gr = groupByTargetBucket_rows [OF g]
    have w1: "archive_wf ar1" using gr assms(1) by blast
    show ?thesis
    proof (cases r1)
      case (Inl err)
      with m g w1 show ?thesis by (simp add: sweep2_move_def)
    next
      case (Inr gs)
      obtain r2 ar2 where w: "write_groups now gs ar1 = (r2, ar2)" by fastforce
      have "\<forall>e\<in>set cs. month_pat (monthKey (ev_emitted_at e))" using cs assms(3) month_pat_monthKey by blast
      then have "names_ok gs" using groupByTargetBucket_names [OF g [unfolded Inr]] by (simp add: names_ok_def)
      moreover have "\<forall>e\<in>group_rows gs. ev_id e \<le> MAX_SAFE_INTEGER" using gr Inr cs assms(3) by auto
      ultimately have "archive_wf ar2" by (rule write_groups_wf [OF w w1])
      moreover have "ar' = ar2" using m g Inr w by (cases r2) (auto simp: sweep2_move_def Let_def split: prod.splits)
      ultimately show ?thesis by simp
    qed
  qed
  have del: "set (events (snd (deleteFromLive b ids None))) \<subseteq> set (events b)" for ids by (auto simp: deleteFromLive_def)
  show ?thesis
  proof (cases "resolveUnackedPolicy (sc_unacked_policy cfg)")
    case (Inl e)
    with assms(1,2) show ?thesis by (simp add: runSweepV2_def)
  next
    case (Inr policy)
    show ?thesis
    proof (cases "resolveRetentionCapDays (sc_unacked_retention_days cfg)")
      case (Inl e)
      with assms(1,2) Inr show ?thesis by (simp add: runSweepV2_def)
    next
      case days: (Inr days)
      let ?n = "case s2_batch_size cfg of Some n \<Rightarrow> n | None \<Rightarrow> 5000"
      let ?p = "owedPairsWithCap b now days"
      define b0 where "b0 = (if policy = Discard \<and> ?p \<noteq> [] then snd (deleteFromLive b (map ow_event ?p) None) else b)"
      define cs where "cs = sweep_candidates b0 now ?n (held_ids policy ?p)"
      have "set cs \<subseteq> set (events b0)" unfolding cs_def using sweep_candidates_sub by blast
      then have sub: "set cs \<subseteq> set (events b)" using del unfolding b0_def by (auto split: if_splits)
      show ?thesis
      proof (cases "cs = []")
        case True
        with assms(1,2) Inr days show ?thesis
          unfolding runSweepV2_def Let_def b0_def [symmetric] cs_def [symmetric] by (simp add: b0_def [symmetric] cs_def [symmetric])
      next
        case False
        with assms(2) Inr days have "sweep2_move cfg env now policy days ?p cs b0 ar = (r, b', ar')"
          by (simp add: runSweepV2_def Let_def b0_def [symmetric] cs_def [symmetric])
        then show ?thesis using sub by (rule move)
      qed
    qed
  qed
qed

text \<open>C22: Every bucket stays well-formed under a tiered sweep of events emitted between 1970 and 9999: names
  match the bucket pattern and are distinct, rows are in id order, and the recorded id range covers
  them, so that the resolver's range test never skips a bucket that holds a row it needs.\<close>

theorem tiered_sweep_keeps_archive_wf:
  assumes "archive_wf ar" and "runSweepV2 cfg env now b ar = (r, b', ar')"
    and "\<forall>e\<in>set (events b). ev_id e \<le> MAX_SAFE_INTEGER \<and> 0 \<le> ev_emitted_at e \<and> ev_emitted_at e < 253402300800000"
  shows "archive_wf ar'"
  by (rule runSweepV2_archive_wf [OF assms])

lemma tiered_sweep_keeps_archive_wf_witness:
  "archive_wf (snd (snd (runSweepV2 (demo_sweep2 JUndef) quiet_env 11 (demo_bus [4, 5] 4) no_archive)))"
proof -
  obtain r b' ar' where s: "runSweepV2 (demo_sweep2 JUndef) quiet_env 11 (demo_bus [4, 5] 4) no_archive = (r, b', ar')"
    using prod_cases3 by blast
  have "archive_wf ar'"
    by (rule tiered_sweep_keeps_archive_wf [OF no_archive_wf s])
      (simp add: demo_bus_def demo_row_def MAX_SAFE_INTEGER_def)
  then show ?thesis by (simp add: s)
qed

text \<open>Held rows never starve the batch: the candidates are the first \<open>batchSize\<close> expired events that are
  not held back, however many held ones lie before them.\<close>

theorem held_rows_do_not_starve:
  assumes "events_wf b" and "0 \<le> n"
  shows "sweep_candidates b now n (held_ids policy pairs) =
    take (nat n) (filter (\<lambda>e. expired now e \<and>
      \<not> (policy = Retain \<and> (\<exists>p\<in>set pairs. ow_event p = ev_id e \<and> \<not> ow_over_cap p))) (events b))"
  unfolding sweep_candidates_eq [OF assms] held_ids_def
  by (intro arg_cong2 [where f = take] refl filter_cong) (simp add: image_iff, metis)

lemma held_rows_do_not_starve_witness:
  "map ev_id (sweep_candidates (demo_bus [4, 5] 3) 11 1 (held_ids Retain [\<lparr>ow_event = 4, ow_cursor = ''c'', ow_over_cap = False\<rparr>])) = [5]"
proof -
  have wf: "events_wf (demo_bus [4, 5] 3)" by (rule bus_wfD, rule demo_bus_wf) auto
  show ?thesis
    unfolding held_rows_do_not_starve [OF wf, of 1, simplified]
    by code_simp
qed

end
