(* ===== verification/BusCalendar.thy ===== *)
theory BusCalendar
  imports BusSweepV2
begin

text \<open>
  The order of bucket names, \<open>monthKey\<close> and \<open>nextSuffixedName\<close> of \<open>lib/sweep-v2.js\<close> under the sorting of
  \<open>listBuckets\<close> in \<open>lib/archive.js\<close>. Names are compared as text; proved here: between 1970 and 9999 the text
  of a month follows time, the days of a year are those of the calendar, and the bucket chosen for a
  month is the last one of that month.
\<close>

section \<open>Years\<close>

lemma day_from_year_step: "day_from_year y + 364 \<le> day_from_year (y + 1)"
proof -
  have "(y - 1969) div 4 \<le> (y + 1 - 1969) div 4" "(y - 1601) div 400 \<le> (y + 1 - 1601) div 400"
    by (simp_all add: zdiv_mono1)
  moreover have "(y + 1 - 1901) div 100 \<le> (y - 1901 + 100) div 100" by (rule zdiv_mono1) simp_all
  then have "(y + 1 - 1901) div 100 \<le> (y - 1901) div 100 + 1"
    using div_add_self2 [of "100 :: int" "y - 1901"] by linarith
  moreover have "365 * (y - 1970) + a - b + c + 364 \<le> 365 * (y + 1 - 1970) + a' - b' + c'"
    if "a \<le> a'" "c \<le> c'" "b' \<le> b + 1" for a a' b b' c c' :: int using that by simp
  ultimately show ?thesis unfolding day_from_year_def by blast
qed

lemma day_from_year_less: "y < y' \<Longrightarrow> day_from_year y < day_from_year y'"
proof (induction y' rule: int_gr_induct [of y])
  case base
  show ?case using day_from_year_step [of y] by simp
next
  case (step i)
  then show ?case using day_from_year_step [of i] by simp
qed

text \<open>\<open>YearFromTime\<close>: the largest year that has begun.\<close>

lemma year_of_day_bounds:
  "day_from_year (year_of_day d) \<le> d" "d < day_from_year (year_of_day d + 1)"
proof -
  define q where "q = (400 * d) div 146097"
  have q: "q * 146097 + (400 * d) mod 146097 = 400 * d" "0 \<le> (400 * d) mod 146097" "(400 * d) mod 146097 < 146097"
    unfolding q_def by simp_all
  have D: "day_from_year (1970 + q + k) = 365 * (q + k) + (q + k + 1) div 4 - (q + k + 69) div 100 + (q + k + 369) div 400" for k
    unfolding day_from_year_def by (simp add: algebra_simps)
  have lo: "day_from_year (1970 + q - 1) \<le> d"
    using q D [of "- 1"] by (simp; presburger)
  have hi: "d < day_from_year (1970 + q + 1 + 1)"
    using q D [of 2] by (simp; presburger)
  have y: "year_of_day d = (if d < day_from_year (1970 + q) then 1970 + q - 1
      else if day_from_year (1970 + q + 1) \<le> d then 1970 + q + 1 else 1970 + q)"
    unfolding year_of_day_def Let_def q_def by simp
  show "day_from_year (year_of_day d) \<le> d" "d < day_from_year (year_of_day d + 1)"
    using lo hi unfolding y by simp_all
qed

lemma year_of_day_mono: "d \<le> d' \<Longrightarrow> year_of_day d \<le> year_of_day d'"
proof (rule ccontr)
  assume "d \<le> d'" "\<not> year_of_day d \<le> year_of_day d'"
  then have "day_from_year (year_of_day d' + 1) \<le> day_from_year (year_of_day d)"
    using day_from_year_less [of "year_of_day d' + 1" "year_of_day d"] by (cases "year_of_day d' + 1 = year_of_day d") simp_all
  then show False using \<open>d \<le> d'\<close> year_of_day_bounds(1) [of d] year_of_day_bounds(2) [of d'] by linarith
qed

lemma month_of_day_range: "1 \<le> month_of_day d \<and> month_of_day d \<le> 12"
proof -
  have "length (filter (\<lambda>s. s \<le> d - day_from_year (year_of_day d)) (month_starts (leap_year (year_of_day d)))) \<le> 11"
    by (rule order_trans [OF length_filter_le]) (simp add: month_starts_def Let_def)
  then show ?thesis by (simp add: month_of_day_def Let_def)
qed

lemma month_of_day_mono: "d \<le> d' \<Longrightarrow> year_of_day d = year_of_day d' \<Longrightarrow> month_of_day d \<le> month_of_day d'"
proof -
  assume "d \<le> d'" "year_of_day d = year_of_day d'"
  moreover have "length (filter (\<lambda>s. s \<le> a) xs) \<le> length (filter (\<lambda>s. s \<le> b) xs)" if "a \<le> b" for a b :: int and xs
    using that by (induction xs) auto
  ultimately show ?thesis by (simp add: month_of_day_def Let_def)
qed

section \<open>Numerals in order\<close>

lemma less_append_same_length:
  fixes xs ys :: string
  shows "length xs = length ys \<Longrightarrow> xs @ us < ys @ vs \<longleftrightarrow> xs < ys \<or> xs = ys \<and> us < vs"
proof (induction xs ys rule: list_induct2)
  case Nil
  then show ?case by simp
next
  case (Cons x xs y ys)
  then show ?case by auto
qed

lemma digit_char_less: "m < n \<Longrightarrow> n < 10 \<Longrightarrow> (char_of (m + of_char (CHR ''0'')) :: char) < char_of (n + of_char (CHR ''0'') :: nat)"
  by (simp add: less_char_def of_char_of)

lemma nat_str_less: "m < n \<Longrightarrow> length (nat_str m) = length (nat_str n) \<Longrightarrow> nat_str m < nat_str n"
proof (induction n arbitrary: m rule: nat_str.induct)
  case (1 n)
  let ?c = "\<lambda>n. char_of (n + of_char (CHR ''0'') :: nat) :: char"
  have ne: "nat_str k \<noteq> []" for k using nat_str_shape [of k] by blast
  show ?case
  proof (cases "n < 10")
    case True
    then have "nat_str n = [?c n]" "nat_str m = [?c m]" using 1(2) by (subst nat_str.simps, simp)+
    then show ?thesis using digit_char_less [OF 1(2) True] by simp
  next
    case False
    then have n: "nat_str n = nat_str (n div 10) @ [?c (n mod 10)]" by (subst nat_str.simps) simp
    have "\<not> m < 10"
    proof
      assume "m < 10"
      then have "nat_str m = [?c m]" by (subst nat_str.simps) simp
      with 1(3) n ne [of "n div 10"] show False by simp
    qed
    then have m: "nat_str m = nat_str (m div 10) @ [?c (m mod 10)]" by (subst nat_str.simps) simp
    have len: "length (nat_str (m div 10)) = length (nat_str (n div 10))" using 1(3) m n by simp
    show ?thesis
    proof (cases "m div 10 = n div 10")
      case True
      then have "m mod 10 < n mod 10" using 1(2) mult_div_mod_eq [of 10 m] mult_div_mod_eq [of 10 n] by linarith
      then have "[?c (m mod 10)] < [?c (n mod 10)]" using digit_char_less by simp
      then show ?thesis by (simp add: m n True less_append_same_length)
    next
      case neq: False
      with 1(2) have "m div 10 < n div 10" using div_le_mono [of m n 10] by linarith
      from 1(1) [OF False this len] show ?thesis unfolding m n less_append_same_length [OF len] by simp
    qed
  qed
qed

lemma pad2_less:
  assumes "1 \<le> m" and "m < m'" and "m' \<le> 12"
  shows "pad2 (int_str m) < pad2 (int_str m')"
proof -
  let ?c = "\<lambda>n. char_of (nat n + of_char (CHR ''0'') :: nat) :: char"
  have one: "pad2 (int_str k) = [CHR ''0'', ?c k]" if "0 \<le> k" "k < 10" for k
  proof -
    have "nat k < 10" using that by linarith
    then have "nat_str (nat k) = [?c k]" by (subst nat_str.simps) simp
    then show ?thesis using that by (simp add: pad2_def int_str_def)
  qed
  have two: "pad2 (int_str k) = [?c (k div 10), ?c (k mod 10)]" if "10 \<le> k" "k \<le> 12" for k
  proof -
    have "\<not> nat k < 10" "nat k div 10 < 10" using that by linarith+
    then have "nat_str (nat k) = [char_of (nat k div 10 + of_char (CHR ''0'')), char_of (nat k mod 10 + of_char (CHR ''0''))]"
      by (subst nat_str.simps, subst nat_str.simps) simp
    then show ?thesis using that by (simp add: pad2_def int_str_def nat_div_distrib nat_mod_distrib)
  qed
  have c: "?c a < ?c b" if "0 \<le> a" "a < b" "b < 10" for a b using that digit_char_less [of "nat a" "nat b"] by simp
  consider "m' < 10" | "m < 10" "10 \<le> m'" | "10 \<le> m" by linarith
  then show ?thesis
  proof cases
    case 1
    then show ?thesis using assms one [of m] one [of m'] c [of m m'] by simp
  next
    case 2
    have "m' div 10 = 1" using 2 assms by linarith
    moreover have "(CHR ''0'' :: char) < ?c 1" by (simp add: less_char_def of_char_of)
    ultimately show ?thesis using 2 assms one [of m] two [of m'] by simp
  next
    case 3
    have d: "m div 10 = 1" "m' div 10 = 1" using 3 assms by linarith+
    then have "m mod 10 = m - 10" "m' mod 10 = m' - 10"
      using minus_mult_div_eq_mod [of m 10] minus_mult_div_eq_mod [of m' 10] by simp_all
    with d show ?thesis using 3 assms two [of m] two [of m'] c [of "m - 10" "m' - 10"] by simp
  qed
qed


section \<open>Months in order\<close>

text \<open>A time of emission whose year has four digits.\<close>

definition dated :: "rat \<Rightarrow> bool" where
  "dated ms \<longleftrightarrow> 0 \<le> ms \<and> ms < 253402300800000"

lemma utc_day_dated:
  assumes "dated ms"
  shows "utc_day ms = Some (\<lfloor>ms\<rfloor> div 86400000)" "0 \<le> \<lfloor>ms\<rfloor> div 86400000" "\<lfloor>ms\<rfloor> div 86400000 < 2932897"
proof -
  have t: "0 \<le> \<lfloor>ms\<rfloor>" "\<lfloor>ms\<rfloor> < 253402300800000" using assms by (simp_all add: dated_def floor_less_iff)
  show "utc_day ms = Some (\<lfloor>ms\<rfloor> div 86400000)" using assms t by (simp add: utc_day_def Let_def dated_def)
  show "0 \<le> \<lfloor>ms\<rfloor> div 86400000" "\<lfloor>ms\<rfloor> div 86400000 < 2932897" using t by linarith+
qed

lemma dated_month_pat: "dated ms \<Longrightarrow> month_pat (monthKey ms)"
  by (simp add: dated_def month_pat_monthKey)

lemma year_str_less:
  assumes "1970 \<le> y" and "y < y'" and "y' \<le> 9999"
  shows "int_str y < int_str y'" and "length (int_str y) = 4" and "length (int_str y') = 4"
proof -
  show l: "length (int_str y) = 4" "length (int_str y') = 4"
    using assms nat_str_4 [of "nat y"] nat_str_4 [of "nat y'"] by (simp_all add: int_str_def)
  show "int_str y < int_str y'" using assms l nat_str_less [of "nat y" "nat y'"] by (simp add: int_str_def)
qed

text \<open>The text of a month follows time.\<close>

lemma monthKey_mono:
  assumes "dated t" and "dated t'" and "t \<le> t'"
  shows "monthKey t \<le> monthKey t'"
proof -
  let ?d = "\<lfloor>t\<rfloor> div 86400000" and ?d' = "\<lfloor>t'\<rfloor> div 86400000"
  have dd: "?d \<le> ?d'" using assms(3) by (simp add: floor_mono zdiv_mono1)
  have k: "monthKey t = int_str (year_of_day ?d) @ ''-'' @ pad2 (int_str (month_of_day ?d))"
    "monthKey t' = int_str (year_of_day ?d') @ ''-'' @ pad2 (int_str (month_of_day ?d'))"
    using utc_day_dated(1) [OF assms(1)] utc_day_dated(1) [OF assms(2)] by (simp_all add: monthKey_def)
  have r: "1970 \<le> year_of_day ?d" "year_of_day ?d' \<le> 9999"
    using year_of_day_range utc_day_dated [OF assms(1)] utc_day_dated [OF assms(2)] by blast+
  show ?thesis
  proof (cases "year_of_day ?d = year_of_day ?d'")
    case True
    show ?thesis
    proof (cases "month_of_day ?d = month_of_day ?d'")
      case False
      then have "month_of_day ?d < month_of_day ?d'" using month_of_day_mono [OF dd True] by simp
      then have "pad2 (int_str (month_of_day ?d)) < pad2 (int_str (month_of_day ?d'))"
        using pad2_less month_of_day_range by blast
      then show ?thesis by (simp add: k True less_append_same_length order_less_imp_le)
    qed (simp add: k True)
  next
    case False
    then have lt: "year_of_day ?d < year_of_day ?d'" using year_of_day_mono [OF dd] by simp
    note y = year_str_less [OF r(1) lt r(2)]
    have "length (int_str (year_of_day ?d)) = length (int_str (year_of_day ?d'))" using y by simp
    from less_append_same_length [OF this] y(1) show ?thesis unfolding k by (simp add: order_less_imp_le)
  qed
qed

section \<open>Names of buckets\<close>

text \<open>The month in a bucket's name.\<close>

definition name_month :: "string \<Rightarrow> string" where
  "name_month n = take 7 (drop 4 n)"

lemma bucket_file_shape:
  assumes "BUCKET_FILE_RE n"
  obtains rest where "n = ''bus-'' @ name_month n @ rest" "length (name_month n) = 7"
    "rest = ''.db'' \<or> (\<exists>c. is_lower c \<and> rest = c # ''.db'')"
proof -
  from assms have p: "prefix ''bus-'' n" and l: "length n \<ge> 14" and rest: "drop 11 n = ''.db'' \<or> (length n = 15 \<and> is_lower (n ! 11) \<and> drop 12 n = ''.db'')"
    by (simp_all add: BUCKET_FILE_RE_def)
  from p obtain r where r: "n = ''bus-'' @ r" by (auto simp: prefix_def)
  have n: "n = ''bus-'' @ name_month n @ drop 11 n" using r by (simp add: name_month_def)
  have "drop 11 n = ''.db'' \<or> (\<exists>c. is_lower c \<and> drop 11 n = c # ''.db'')"
    using rest Cons_nth_drop_Suc [of 11 n] by auto
  then show ?thesis using that [OF n] l by (simp add: name_month_def)
qed

lemma name_month_of: "length m = 7 \<Longrightarrow> name_month (''bus-'' @ m @ rest) = m"
  by (simp add: name_month_def)

lemma name_order:
  assumes "BUCKET_FILE_RE n" and "BUCKET_FILE_RE n'" and "name_month n < name_month n'"
  shows "n < n'"
proof -
  obtain rest where n: "n = ''bus-'' @ name_month n @ rest" "length (name_month n) = 7" using assms(1) by (rule bucket_file_shape)
  obtain rest' where n': "n' = ''bus-'' @ name_month n' @ rest'" "length (name_month n') = 7" using assms(2) by (rule bucket_file_shape)
  have "name_month n @ rest < name_month n' @ rest'" using assms(3) n(2) n'(2) by (simp add: less_append_same_length)
  then have "''bus-'' @ name_month n @ rest < ''bus-'' @ name_month n' @ rest'" by simp
  then show ?thesis using n(1) n'(1) by metis
qed

lemma name_order_month: "BUCKET_FILE_RE n \<Longrightarrow> BUCKET_FILE_RE n' \<Longrightarrow> n \<le> n' \<Longrightarrow> name_month n \<le> name_month n'"
  using name_order [of n' n] by (meson leD leI)

text \<open>The next suffix comes after the latest name, in the same month.\<close>

lemma nextSuffixedName_after:
  assumes "BUCKET_FILE_RE latest" and "nextSuffixedName latest (''bus-'' @ name_month latest) = Inr n"
  shows "latest < n \<and> name_month n = name_month latest"
proof -
  obtain rest where l: "latest = ''bus-'' @ name_month latest @ rest" "length (name_month latest) = 7"
    "rest = ''.db'' \<or> (\<exists>c. is_lower c \<and> rest = c # ''.db'')" using assms(1) by (rule bucket_file_shape)
  define m where "m = name_month latest"
  have tail: "drop_last 3 (drop (length (''bus-'' @ m)) latest) = drop_last 3 rest"
    using l(1) by (metis append.assoc append_eq_conv_conj m_def)
  from l(3) show ?thesis
  proof
    assume rest: "rest = ''.db''"
    then have "n = ''bus-'' @ m @ ''a.db''"
      using assms(2) tail unfolding m_def by (simp add: nextSuffixedName_def drop_last_def)
    moreover have "''.db'' < (''a.db'' :: string)" by (simp add: less_char_def)
    then have "''bus-'' @ m @ ''.db'' < ''bus-'' @ m @ (''a.db'' :: string)" by (simp add: less_append_same_length)
    ultimately show ?thesis using l rest m_def by (metis name_month_of)
  next
    assume "\<exists>c. is_lower c \<and> rest = c # ''.db''"
    then obtain c where c: "is_lower c" "rest = c # ''.db''" by blast
    then have d: "drop_last 3 rest = [c]" by (simp add: drop_last_def)
    let ?c = "char_of (of_char c + 1 :: nat) :: char"
    have cz: "CHR ''a'' \<le> c \<and> c < CHR ''z''" and n: "n = ''bus-'' @ m @ (?c # ''.db'')"
      using assms(2) tail d unfolding m_def by (auto simp: nextSuffixedName_def Let_def split: if_splits)
    have "(of_char c :: nat) < 122" using cz by (simp add: less_char_def)
    then have "c < ?c" by (simp add: less_char_def of_char_of)
    then have "''bus-'' @ m @ (c # ''.db'') < ''bus-'' @ m @ (?c # ''.db'')" by (simp add: less_append_same_length)
    then show ?thesis using l c(2) n m_def by (metis name_month_of)
  qed
qed


section \<open>The bucket of a month\<close>

definition open_bucket :: "bucket \<Rightarrow> bool" where
  "open_bucket k \<longleftrightarrow> bm_sealed_at (bk_meta k) = None"

lemma month_names:
  assumes "archive_wf ar" and "length m = 7"
  shows "set (filter (\<lambda>n. n = (''bus-'' @ m) @ ''.db'' \<or> prefix (''bus-'' @ m) n) (map bk_name (listBuckets ar))) =
     {bk_name k | k. k \<in> set (ar_buckets ar) \<and> name_month (bk_name k) = m}"
proof -
  have "prefix (''bus-'' @ m) (bk_name k) \<longleftrightarrow> name_month (bk_name k) = m" if "k \<in> set (ar_buckets ar)" for k
  proof -
    have "BUCKET_FILE_RE (bk_name k)" using assms(1) that by (simp add: archive_wf_def)
    then obtain rest where n: "bk_name k = ''bus-'' @ name_month (bk_name k) @ rest" "length (name_month (bk_name k)) = 7"
      by (rule bucket_file_shape)
    have "prefix (''bus-'' @ m) (''bus-'' @ x @ rest) \<longleftrightarrow> x = m" if "length x = 7" for x
      using that assms(2) by (auto simp: prefix_def append_eq_append_conv)
    from this [OF n(2)] show ?thesis using n(1) by metis
  qed
  then show ?thesis unfolding set_filter set_map set_listBuckets_wf [OF assms(1)] by (auto simp: prefix_def)
qed

lemma last_sort_max:
  assumes "names \<noteq> []"
  shows "last (sort names) \<in> set names" and "x \<in> set names \<Longrightarrow> x \<le> last (sort names)"
proof -
  have ne: "sort names \<noteq> []" using assms by (metis set_empty set_sort)
  then show "last (sort names) \<in> set names" using last_in_set by (metis set_sort)
  assume "x \<in> set names"
  then have "x \<in> set (butlast (sort names) @ [last (sort names)])" using ne by simp
  moreover have "sorted (butlast (sort names) @ [last (sort names)])" using ne by simp
  ultimately show "x \<le> last (sort names)" unfolding sorted_append by auto
qed

text \<open>The bucket chosen is the last of its month and open, and the buckets of the other months are left
  alone.\<close>

lemma chooseBucketForMonth_after:
  assumes "chooseBucketForMonth sz now m mx ar = (Inr n, ar')" and "archive_wf ar" and "month_pat m"
    and "\<forall>k\<in>set (ar_buckets ar). bk_health k = Healthy"
  shows "name_month n = m" and "BUCKET_FILE_RE n"
    and "k \<in> set (ar_buckets ar) \<Longrightarrow> name_month (bk_name k) = m \<Longrightarrow> bk_name k \<le> n"
    and "k \<in> set (ar_buckets ar') \<Longrightarrow> bk_name k = n \<Longrightarrow> open_bucket k"
    and "k \<in> set (ar_buckets ar') \<Longrightarrow> name_month (bk_name k) \<noteq> m \<Longrightarrow> k \<in> set (ar_buckets ar)"
proof -
  have m: "length m = 7" using assms(3) by (simp add: month_pat_def)
  define names where "names = filter (\<lambda>n. n = (''bus-'' @ m) @ ''.db'' \<or> prefix (''bus-'' @ m) n) (map bk_name (listBuckets ar))"
  define latest where "latest = last (sort names)"
  define sealed where "sealed = (case find_bucket ar latest of
      Some k \<Rightarrow> (case getBucketMeta k of Some m \<Rightarrow> bm_sealed_at m \<noteq> None | None \<Rightarrow> False) | None \<Rightarrow> False)"
  define full where "full = (case sz latest of Some n \<Rightarrow> mx \<le> n | None \<Rightarrow> False)"
  define f where "f = (\<lambda>k. if bk_health k = Healthy then sealBucket now None k else k)"
  have c: "(if names = [] then (Inr ((''bus-'' @ m) @ ''.db''), ar)
      else if \<not> sealed \<and> \<not> full then (Inr latest, ar)
      else (nextSuffixedName latest (''bus-'' @ m), map_bucket latest f ar)) = (Inr n, ar')"
    using assms(1) unfolding chooseBucketForMonth_def Let_def names_def latest_def sealed_def full_def f_def by simp
  note N = month_names [OF assms(2) m, folded names_def]
  have RE: "BUCKET_FILE_RE (bk_name k)" if "k \<in> set (ar_buckets ar)" for k using assms(2) that by (simp add: archive_wf_def)
  consider (first) "names = []" "n = ''bus-'' @ m @ ''.db''" "ar' = ar"
    | (same) "names \<noteq> []" "n = latest" "ar' = ar" "\<not> sealed"
    | (suffix) "names \<noteq> []" "nextSuffixedName latest (''bus-'' @ m) = Inr n" "ar' = map_bucket latest f ar"
    using c by (auto split: if_splits)
  then have "name_month n = m \<and> BUCKET_FILE_RE n \<and>
      (\<forall>k\<in>set (ar_buckets ar). name_month (bk_name k) = m \<longrightarrow> bk_name k \<le> n) \<and>
      (\<forall>k\<in>set (ar_buckets ar'). bk_name k = n \<longrightarrow> open_bucket k) \<and>
      (\<forall>k\<in>set (ar_buckets ar'). name_month (bk_name k) \<noteq> m \<longrightarrow> k \<in> set (ar_buckets ar))"
  proof cases
    case first
    have none: "name_month (bk_name k) \<noteq> m" if "k \<in> set (ar_buckets ar)" for k using N that unfolding first(1) by auto
    moreover have "name_month n = m" unfolding first(2) by (rule name_month_of [OF m])
    moreover have "BUCKET_FILE_RE n" unfolding first(2) by (rule month_pat_bucket(1) [OF assms(3)])
    ultimately show ?thesis using first(3) by metis
  next
    case same
    from last_sort_max [OF same(1)] N obtain k0 where k0: "k0 \<in> set (ar_buckets ar)" "bk_name k0 = latest" "name_month latest = m"
      unfolding latest_def by auto
    have "bk_name k \<le> latest" if "k \<in> set (ar_buckets ar)" "name_month (bk_name k) = m" for k
      unfolding latest_def by (rule last_sort_max(2) [OF same(1)]) (use N that in auto)
    moreover have "open_bucket k" if "k \<in> set (ar_buckets ar)" "bk_name k = latest" for k
    proof -
      have "find_bucket ar latest = Some k" using find_bucket_Some [OF assms(2)] that by simp
      then show ?thesis using same(4) assms(4) that unfolding sealed_def by (auto simp: getBucketMeta_def open_bucket_def)
    qed
    ultimately show ?thesis using same k0 RE by auto
  next
    case suffix
    from last_sort_max [OF suffix(1)] N obtain k0 where k0: "k0 \<in> set (ar_buckets ar)" "bk_name k0 = latest" "name_month latest = m"
      unfolding latest_def by auto
    have max: "bk_name k \<le> latest" if "k \<in> set (ar_buckets ar)" "name_month (bk_name k) = m" for k
      unfolding latest_def by (rule last_sort_max(2) [OF suffix(1)]) (use N that in auto)
    have "BUCKET_FILE_RE latest" using RE [OF k0(1)] k0(2) by simp
    from nextSuffixedName_after [OF this] k0(3) suffix(2) have n: "latest < n" "name_month n = m" by auto
    have RE_n: "BUCKET_FILE_RE n" by (rule nextSuffixedName_RE [OF assms(3) suffix(2)])
    have in': "\<exists>k0\<in>set (ar_buckets ar). bk_name k = bk_name k0 \<and> (bk_name k \<noteq> latest \<longrightarrow> k = k0)"
      if "k \<in> set (ar_buckets ar')" for k
      using that unfolding suffix(3) by (auto simp: map_bucket_def f_def split: if_splits)
    have "bk_name k \<noteq> n" if "k \<in> set (ar_buckets ar')" for k
      using in' [OF that] max n by (metis leD)
    moreover have "k \<in> set (ar_buckets ar)" if "k \<in> set (ar_buckets ar')" "name_month (bk_name k) \<noteq> m" for k
      using in' [OF that(1)] that(2) k0(3) by metis
    moreover have "bk_name k \<le> n" if "k \<in> set (ar_buckets ar)" "name_month (bk_name k) = m" for k
      using max [OF that] n(1) by simp
    ultimately show ?thesis using n(2) RE_n by metis
  qed
  then show "name_month n = m" "BUCKET_FILE_RE n"
    "k \<in> set (ar_buckets ar) \<Longrightarrow> name_month (bk_name k) = m \<Longrightarrow> bk_name k \<le> n"
    "k \<in> set (ar_buckets ar') \<Longrightarrow> bk_name k = n \<Longrightarrow> open_bucket k"
    "k \<in> set (ar_buckets ar') \<Longrightarrow> name_month (bk_name k) \<noteq> m \<Longrightarrow> k \<in> set (ar_buckets ar)"
    by blast+
qed

end
