(* ===== verification/BusQuery.thy ===== *)
theory BusQuery
  imports BusPoll BusArchive
begin

text \<open>
  The cross-tier resolver \<open>pollResolve\<close>, \<open>lib/query.js\<close>: live first, spilling into the warm buckets
  when the position lies before the oldest live match. The reference is \<open>merged_ids\<close>: all
  matching ids of both tiers above the position. Proved: what is returned always comes from the
  tiers, in strict order; and it is the first batch of \<open>merged_ids\<close> when the buckets are in order
  and the tiers overlap only in the duplicates of an interrupted sweep. The last section shows where
  the code fails without these hypotheses.
\<close>

section \<open>Filters\<close>

record query_filter =
  qf_event_type :: "string option"
  qf_domain :: "string option"
  qf_subdomain :: "string option"

text \<open>A predicate is pushed only for a field that is present and not empty.\<close>

definition field_ok :: "string option \<Rightarrow> string \<Rightarrow> bool" where
  "field_ok want got = (case want of None \<Rightarrow> True | Some w \<Rightarrow> w = [] \<or> got = w)"

definition whereClause :: "query_filter option \<Rightarrow> event_row \<Rightarrow> bool" where
  "whereClause flt e = (case flt of None \<Rightarrow> True | Some f \<Rightarrow>
     field_ok (qf_event_type f) (ev_type e) \<and> field_ok (qf_domain f) (ev_domain e) \<and>
     field_ok (qf_subdomain f) (ev_subdomain e))"

section \<open>Reading the tiers\<close>

definition probeLiveMin :: "bus \<Rightarrow> query_filter option \<Rightarrow> int option" where
  "probeLiveMin b flt = list_min (map ev_id (filter (whereClause flt) (events b)))"

definition queryLive :: "bus \<Rightarrow> int \<Rightarrow> query_filter option \<Rightarrow> int \<Rightarrow> event_row list" where
  "queryLive b lastId flt n = select_events (\<lambda>e. whereClause flt e \<and> lastId < ev_id e) n b"

definition bucket_unavailable :: "string \<Rightarrow> js_error" where
  "bucket_unavailable n = WB WB013 [(''path'', JStr n)]"

definition readBucket :: "archive \<Rightarrow> string \<Rightarrow> int \<Rightarrow> query_filter option \<Rightarrow> int \<Rightarrow> event_row list res" where
  "readBucket ar n lastId flt limit =
     (case find_bucket ar n of
        None \<Rightarrow> Inl (bucket_unavailable n)
      | Some k \<Rightarrow>
          if bk_health k = Healthy
          then Inr (sql_limit limit (sort_key ev_id (filter (\<lambda>e. whereClause flt e \<and> lastId < ev_id e) (bk_events k))))
          else Inl (bucket_unavailable n))"

text \<open>The loop over the covering buckets.\<close>

fun collect_warm :: "archive \<Rightarrow> int \<Rightarrow> query_filter option \<Rightarrow> int \<Rightarrow> string list \<Rightarrow> event_row list \<Rightarrow> event_row list res" where
  "collect_warm ar lastId flt batchSize [] acc = Inr acc"
| "collect_warm ar lastId flt batchSize (n # ns) acc =
     (if batchSize \<le> int (length acc) then Inr acc
      else (case readBucket ar n lastId flt (batchSize - int (length acc)) of
              Inl e \<Rightarrow> Inl e
            | Inr rows \<Rightarrow> collect_warm ar lastId flt batchSize ns (acc @ rows)))"

text \<open>A JavaScript \<open>Map\<close> keeps the place of a key that is set again.\<close>

definition dedupePreferLive :: "event_row list \<Rightarrow> event_row list \<Rightarrow> event_row list" where
  "dedupePreferLive warmRows liveRows =
     map snd (fold (\<lambda>r. AList.update (ev_id r) r) liveRows (fold (\<lambda>r. AList.update (ev_id r) r) warmRows []))"

definition ATTACH_CEILING :: nat where "ATTACH_CEILING = 123"

definition truncate :: "int \<Rightarrow> event_row list \<Rightarrow> event_row list" where
  "truncate n rows = (if n < int (length rows) then take (nat n) rows else rows)"

section \<open>pollResolve\<close>

definition spill :: "bus \<Rightarrow> int \<Rightarrow> query_filter option \<Rightarrow> int \<Rightarrow> event_row list \<Rightarrow> event_row list" where
  "spill b lastId flt batchSize warmRows =
     (let liveRoom = batchSize - int (length warmRows);
          liveRows = (if 0 < liveRoom then queryLive b lastId flt (liveRoom + int (length warmRows)) else [])
      in truncate batchSize (sort_key ev_id (dedupePreferLive warmRows liveRows)))"

definition pollResolve :: "bus \<Rightarrow> archive \<Rightarrow> jsval \<Rightarrow> query_filter option \<Rightarrow> int option \<Rightarrow> event_row list res" where
  "pollResolve b ar lastEventId flt batch =
     (let batchSize = (case batch of Some n \<Rightarrow> n | None \<Rightarrow> 100) in
      (case js_int lastEventId of
         None \<Rightarrow> Inl (WB WB001 [(''received'', lastEventId)])
       | Some lastId \<Rightarrow>
           if lastId < 0 then Inl (WB WB001 [(''received'', lastEventId)])
           else (let minLive = probeLiveMin b flt in
             if (case minLive of Some m \<Rightarrow> m \<le> lastId | None \<Rightarrow> False) then Inr (queryLive b lastId flt batchSize)
             else (let gapEnd = (case minLive of None \<Rightarrow> MAX_SAFE_INTEGER | Some m \<Rightarrow> m - 1);
                       buckets = bucketsCoveringRange ar lastId gapEnd
                   in (case (buckets, minLive) of
                         ([], None) \<Rightarrow> Inr []
                       | (_, _) \<Rightarrow>
                         if buckets = [] \<and> (case minLive of Some m \<Rightarrow> lastId + 1 < m | None \<Rightarrow> False)
                         then Inl (WB WB003 [(''last_event_id'', jint lastId), (''oldest_available'', jint (the minLive))])
                         else (case collect_warm ar lastId flt batchSize (take ATTACH_CEILING (map cv_name buckets)) [] of
                                 Inl e \<Rightarrow> Inl e
                               | Inr warmRows \<Rightarrow> Inr (spill b lastId flt batchSize warmRows)))))))"

section \<open>Ids of a result\<close>

lemma map_fst_updates:
  "distinct (map fst al) \<Longrightarrow> distinct (map fst (fold (\<lambda>r. AList.update (ev_id r) r) rs al)) \<and>
     fst ` set (fold (\<lambda>r. AList.update (ev_id r) r) rs al) = fst ` set al \<union> ev_id ` set rs"
proof (induction rs arbitrary: al)
  case Nil
  then show ?case by simp
next
  case (Cons r rs)
  have "distinct (map fst (AList.update (ev_id r) r al))" by (rule distinct_update [OF Cons.prems])
  from Cons.IH [OF this] show ?case by (auto simp: dom_update)
qed

lemma updates_keyed:
  "\<forall>(k, v)\<in>set al. ev_id v = k \<Longrightarrow> \<forall>(k, v)\<in>set (fold (\<lambda>r. AList.update (ev_id r) r) rs al). ev_id v = k"
proof (induction rs arbitrary: al)
  case Nil
  then show ?case by simp
next
  case (Cons r rs)
  have "set (AList.update (ev_id r) r al) \<subseteq> insert (ev_id r, r) (set al)"
    by (induction al) auto
  with Cons.prems have "\<forall>(k, v)\<in>set (AList.update (ev_id r) r al). ev_id v = k" by fastforce
  from Cons.IH [OF this] show ?case by simp
qed

lemma dedupe_ids:
  "distinct (map ev_id (dedupePreferLive W L))" "ev_id ` set (dedupePreferLive W L) = ev_id ` set W \<union> ev_id ` set L"
proof -
  let ?w = "fold (\<lambda>r. AList.update (ev_id r) r) W []"
  let ?d = "fold (\<lambda>r. AList.update (ev_id r) r) L ?w"
  have w: "distinct (map fst ?w) \<and> fst ` set ?w = ev_id ` set W" using map_fst_updates [of "[]" W] by simp
  have d: "distinct (map fst ?d) \<and> fst ` set ?d = ev_id ` set W \<union> ev_id ` set L"
    using map_fst_updates [of ?w L] w by simp
  have "\<forall>(k, v)\<in>set ?w. ev_id v = k" by (rule updates_keyed) simp
  then have k: "\<forall>(k, v)\<in>set ?d. ev_id v = k" by (rule updates_keyed)
  then have e: "map ev_id (dedupePreferLive W L) = map fst ?d"
    unfolding dedupePreferLive_def by (auto simp: split_beta)
  show "distinct (map ev_id (dedupePreferLive W L))" unfolding e using d by blast
  show "ev_id ` set (dedupePreferLive W L) = ev_id ` set W \<union> ev_id ` set L"
    using arg_cong [OF e, of set] d by simp
qed

lemma sorted_dedupe:
  "map ev_id (sort_key ev_id (dedupePreferLive W L)) = sorted_list_of_set (ev_id ` set W \<union> ev_id ` set L)"
proof -
  let ?s = "sort_key ev_id (dedupePreferLive W L)"
  have "distinct (map ev_id ?s)" using dedupe_ids(1) [of W L] by (simp add: distinct_map)
  then have "sorted_list_of_set (set (map ev_id ?s)) = map ev_id ?s"
    by (intro sorted_list_of_set.idem_if_sorted_distinct) simp_all
  then show ?thesis using dedupe_ids(2) [of W L] by simp
qed

text \<open>Every row comes from an argument, the second one winning.\<close>

lemma map_of_updates:
  "distinct (map ev_id L) \<Longrightarrow> map_of (fold (\<lambda>r. AList.update (ev_id r) r) L al) k =
     (case find (\<lambda>r. ev_id r = k) L of Some r \<Rightarrow> Some r | None \<Rightarrow> map_of al k)"
proof (induction L arbitrary: al)
  case Nil
  then show ?case by simp
next
  case (Cons r L)
  then have "find (\<lambda>x. ev_id x = ev_id r) L = None" by (auto simp: find_None_iff rev_image_eqI)
  with Cons show ?case by (auto simp: update_conv' split: option.split)
qed

lemma updates_values:
  "snd ` set (fold (\<lambda>r. AList.update (ev_id r) r) rs al) \<subseteq> snd ` set al \<union> set rs"
proof (induction rs arbitrary: al)
  case Nil
  then show ?case by simp
next
  case (Cons r rs)
  have "snd ` set (AList.update (ev_id r) r al) \<subseteq> insert r (snd ` set al)" by (induction al) auto
  with Cons.IH [of "AList.update (ev_id r) r al"] show ?case by auto
qed

lemma dedupe_source:
  assumes "r \<in> set (dedupePreferLive W L)" and "distinct (map ev_id L)"
  shows "r \<in> set L \<or> r \<in> set W \<and> ev_id r \<notin> ev_id ` set L"
proof -
  let ?w = "fold (\<lambda>r. AList.update (ev_id r) r) W []"
  let ?d = "fold (\<lambda>r. AList.update (ev_id r) r) L ?w"
  have w: "distinct (map fst ?w)" using map_fst_updates [of "[]" W] by simp
  then have d: "distinct (map fst ?d)" using map_fst_updates [of ?w L] by simp
  from assms(1) obtain k where k: "(k, r) \<in> set ?d" unfolding dedupePreferLive_def by auto
  have "\<forall>(k, v)\<in>set ?d. ev_id v = k" by (intro updates_keyed) simp
  with k have kr: "ev_id r = k" by blast
  have sub: "r \<in> set W \<union> set L"
    using k updates_values [of L ?w] updates_values [of W "[]"] by (force simp: image_iff)
  show ?thesis
  proof (cases "k \<in> ev_id ` set L")
    case True
    have "map_of ?d k = Some r" using k d by simp
    then have "(case find (\<lambda>x. ev_id x = k) L of Some x \<Rightarrow> Some x | None \<Rightarrow> map_of ?w k) = Some r"
      by (simp add: map_of_updates [OF assms(2)])
    moreover have "find (\<lambda>x. ev_id x = k) L \<noteq> None" using True by (auto simp: find_None_iff)
    ultimately show ?thesis by (auto dest: find_Some_conv split: option.splits)
  next
    case False
    with sub kr show ?thesis by auto
  qed
qed

lemma truncate_take: "0 \<le> n \<Longrightarrow> truncate n rows = take (nat n) rows"
  by (auto simp: truncate_def)

lemma spill_ids:
  assumes "0 \<le> n"
  shows "map ev_id (spill b lastId flt n W) =
     take (nat n) (sorted_list_of_set (ev_id ` set W \<union>
       (if int (length W) < n then ev_id ` set (queryLive b lastId flt n) else {})))"
  by (simp add: spill_def Let_def truncate_take [OF assms] take_map [symmetric] sorted_dedupe)

section \<open>The first ids of a set\<close>

lemma take_sorted_subset:
  fixes A B :: "int set"
  assumes "finite B" and "A \<subseteq> B" and "set (take n (sorted_list_of_set B)) \<subseteq> A"
  shows "take n (sorted_list_of_set A) = take n (sorted_list_of_set B)"
proof -
  let ?b = "sorted_list_of_set B"
  have fin: "finite A" using assms(1,2) by (rule rev_finite_subset)
  have "set (filter (\<lambda>x. x \<in> A) ?b) = A" using assms(1,2) by auto
  then have "sorted_list_of_set A = filter (\<lambda>x. x \<in> A) ?b"
    using sorted_list_of_set.idem_if_sorted_distinct [of "filter (\<lambda>x. x \<in> A) ?b"] by (simp add: sorted_wrt_filter)
  also have "\<dots> = filter (\<lambda>x. x \<in> A) (take n ?b) @ filter (\<lambda>x. x \<in> A) (drop n ?b)"
    by (metis append_take_drop_id filter_append)
  also have "filter (\<lambda>x. x \<in> A) (take n ?b) = take n ?b" using assms(3) by (auto simp: filter_id_conv)
  finally have e: "sorted_list_of_set A = take n ?b @ filter (\<lambda>x. x \<in> A) (drop n ?b)" .
  show ?thesis
  proof (cases "n \<le> length ?b")
    case True
    then show ?thesis unfolding e by simp
  next
    case False
    then show ?thesis unfolding e by simp
  qed
qed

lemma in_take_strict:
  fixes xs :: "int list"
  shows "sorted_wrt (<) xs \<Longrightarrow> x \<in> set (take n xs) \<longleftrightarrow> x \<in> set xs \<and> length (filter (\<lambda>y. y < x) xs) < n"
proof (induction xs arbitrary: n)
  case Nil
  then show ?case by simp
next
  case (Cons a xs)
  show ?case
  proof (cases n)
    case 0
    then show ?thesis by simp
  next
    case (Suc k)
    have "x \<notin> set xs \<and> filter (\<lambda>y. y < x) xs = []" if "x \<le> a"
      using Cons.prems that by (auto simp: filter_empty_conv)
    then show ?thesis using Cons Suc by (cases "x \<le> a") auto
  qed
qed

lemma in_take_sorted:
  fixes S :: "int set"
  assumes "finite S"
  shows "x \<in> set (take n (sorted_list_of_set S)) \<longleftrightarrow> x \<in> S \<and> card {y \<in> S. y < x} < n"
proof -
  have "length (filter (\<lambda>y. y < x) (sorted_list_of_set S)) = card (set (filter (\<lambda>y. y < x) (sorted_list_of_set S)))"
    by (rule distinct_card [symmetric]) simp
  also have "set (filter (\<lambda>y. y < x) (sorted_list_of_set S)) = {y \<in> S. y < x}" using assms by simp
  finally show ?thesis using in_take_strict [of "sorted_list_of_set S" x n] assms by simp
qed

lemma take_sorted_mono:
  fixes S T :: "int set"
  assumes "finite T" and "S \<subseteq> T" and "x \<in> S" and "x \<in> set (take n (sorted_list_of_set T))"
  shows "x \<in> set (take n (sorted_list_of_set S))"
proof -
  have "card {y \<in> S. y < x} \<le> card {y \<in> T. y < x}" by (rule card_mono) (use assms(1,2) in auto)
  then show ?thesis
    using assms in_take_sorted [of T x n] in_take_sorted [of S x n] finite_subset [OF assms(2,1)] by auto
qed

section \<open>The warm loop\<close>

definition matching :: "int \<Rightarrow> query_filter option \<Rightarrow> event_row \<Rightarrow> bool" where
  "matching lastId flt e \<longleftrightarrow> whereClause flt e \<and> lastId < ev_id e"

definition covers :: "int \<Rightarrow> int \<Rightarrow> bucket \<Rightarrow> bool" where
  "covers gapStart gapEnd k \<longleftrightarrow> bk_name k \<in> cv_name ` set (covering gapStart gapEnd [k])"

lemma covering_Cons:
  "covering a b (k # ks) = covering a b [k] @ covering a b ks"
  "map cv_name (covering a b [k]) = (if covers a b k then [bk_name k] else [])"
proof -
  show "covering a b (k # ks) = covering a b [k] @ covering a b ks"
    by (simp add: Let_def split: option.split)
  have "map cv_name (covering a b [k]) = [] \<or> map cv_name (covering a b [k]) = [bk_name k]"
    by (simp add: Let_def split: option.split)
  then show "map cv_name (covering a b [k]) = (if covers a b k then [bk_name k] else [])"
    unfolding covers_def set_map [symmetric] by (auto simp del: covering.simps set_map)
qed

lemma covering_filter: "map cv_name (covering a b ks) = map bk_name (filter (covers a b) ks)"
proof (induction ks)
  case Nil
  then show ?case by simp
next
  case (Cons k ks)
  then show ?case by (subst covering_Cons(1)) (simp add: covering_Cons(2) del: covering.simps)
qed

lemma covers_min:
  assumes "covers a b k" and "bk_health k = Healthy"
  shows "\<exists>m. bm_min (bk_meta k) = Some m \<and> m \<le> b"
  using assms by (auto simp: covers_def Let_def getBucketMeta_def split: option.splits if_splits)

lemma covers_row:
  assumes "bucket_wf k" and "e \<in> set (bk_events k)" and "a \<le> ev_id e"
    and "bk_health k = Healthy" and "bm_min (bk_meta k) = Some m" and "m \<le> b"
  shows "covers a b k"
proof -
  from assms(1,2) obtain m' where "bm_max (bk_meta k) = Some m'" "ev_id e \<le> m'" "ev_id e \<le> MAX_SAFE_INTEGER"
    unfolding bucket_wf_def by blast
  with assms(3-6) show ?thesis by (auto simp: covers_def Let_def getBucketMeta_def)
qed

lemma take_take_append: "take n (take n xs @ ys) = take n (xs @ ys)"
  by (cases "n \<le> length xs") simp_all

lemma collect_warm_healthy:
  assumes "\<forall>k\<in>set ks. find_bucket ar (bk_name k) = Some k \<and> bk_health k = Healthy \<and> bucket_wf k"
    and "int (length acc) \<le> n"
  shows "collect_warm ar lastId flt n (map bk_name ks) acc =
     Inr (take (nat n) (acc @ concat (map (\<lambda>k. filter (matching lastId flt) (bk_events k)) ks)))"
  using assms
proof (induction ks arbitrary: acc)
  case Nil
  then show ?case by simp
next
  case (Cons k ks)
  show ?case
  proof (cases "n \<le> int (length acc)")
    case True
    with Cons.prems(2) show ?thesis by simp
  next
    case False
    let ?m = "filter (matching lastId flt) (bk_events k)"
    let ?rows = "take (nat n - length acc) ?m"
    have srt: "sort_key ev_id ?m = ?m"
      using Cons.prems(1) by (intro sort_key_strict map_filter_strict) (simp add: bucket_wf_def)
    have fl: "filter (\<lambda>e. whereClause flt e \<and> lastId < ev_id e) (bk_events k) = ?m"
      by (simp add: matching_def [abs_def])
    have "readBucket ar (bk_name k) lastId flt (n - int (length acc)) = Inr ?rows"
      using Cons.prems False srt by (simp add: readBucket_def fl sql_limit_def nat_diff_distrib')
    then have "collect_warm ar lastId flt n (map bk_name (k # ks)) acc =
        collect_warm ar lastId flt n (map bk_name ks) (acc @ ?rows)" using False by simp
    also have "acc @ ?rows = take (nat n) (acc @ ?m)" using False by simp
    also have "collect_warm ar lastId flt n (map bk_name ks) (take (nat n) (acc @ ?m)) =
        Inr (take (nat n) (take (nat n) (acc @ ?m) @ concat (map (\<lambda>k. filter (matching lastId flt) (bk_events k)) ks)))"
      by (rule Cons.IH) (use Cons.prems False in auto)
    finally show ?thesis unfolding take_take_append by (simp only: list.map concat.simps append_assoc)
  qed
qed

section \<open>Tiers in order\<close>

text \<open>Buckets follow one another: the rows of one end before the recorded range of the next begins.\<close>

definition buckets_ordered :: "archive \<Rightarrow> bool" where
  "buckets_ordered ar \<longleftrightarrow> sorted_wrt (\<lambda>k k'. \<forall>m. bm_min (bk_meta k') = Some m \<longrightarrow>
     (\<forall>e\<in>set (bk_events k). ev_id e < m)) (listBuckets ar)"

text \<open>The tiers overlap only in the duplicates of a sweep that stopped between its two commits: a
  live row below a warm one is itself a duplicate, and so is the warm one.\<close>

definition tiers_in_order :: "bus \<Rightarrow> archive \<Rightarrow> bool" where
  "tiers_in_order b ar \<longleftrightarrow> (\<forall>e\<in>set (events b). \<forall>w\<in>warm_rows ar.
     (ev_id e < ev_id w \<longrightarrow> ev_id w \<in> ev_id ` set (events b) \<and> ev_id e \<in> warm_ids ar) \<and>
     (ev_id e = ev_id w \<longrightarrow> ev_type e = ev_type w \<and> ev_domain e = ev_domain w \<and> ev_subdomain e = ev_subdomain w))"

definition merged_ids :: "bus \<Rightarrow> archive \<Rightarrow> query_filter option \<Rightarrow> int \<Rightarrow> int set" where
  "merged_ids b ar flt lastId = ev_id ` {e. (e \<in> set (events b) \<or> e \<in> warm_rows ar) \<and> matching lastId flt e}"

definition live_ids :: "bus \<Rightarrow> query_filter option \<Rightarrow> int \<Rightarrow> int set" where
  "live_ids b flt lastId = ev_id ` {e \<in> set (events b). matching lastId flt e}"

lemma queryLive_ids:
  assumes "events_wf b" and "0 \<le> n"
  shows "map ev_id (queryLive b lastId flt n) = take (nat n) (sorted_list_of_set (live_ids b flt lastId))"
proof -
  let ?f = "filter (matching lastId flt) (events b)"
  have "queryLive b lastId flt n = take (nat n) ?f"
    using assms(2) by (simp add: queryLive_def select_events_wf [OF assms(1)] sql_limit_def matching_def [abs_def])
  moreover have s: "sorted_wrt (<) (map ev_id ?f)"
    using assms(1) by (intro map_filter_strict) (simp add: events_wf_def)
  moreover have "sorted_list_of_set (set (map ev_id ?f)) = map ev_id ?f"
    using s by (intro sorted_list_of_set.idem_if_sorted_distinct) (auto simp: strict_sorted_iff)
  moreover have "set (map ev_id ?f) = live_ids b flt lastId" by (simp add: live_ids_def)
  ultimately show ?thesis by (simp add: take_map)
qed

lemma matching_agree:
  "tiers_in_order b ar \<Longrightarrow> e \<in> set (events b) \<Longrightarrow> w \<in> warm_rows ar \<Longrightarrow> ev_id e = ev_id w \<Longrightarrow>
   matching lastId flt e = matching lastId flt w"
  by (simp add: tiers_in_order_def matching_def whereClause_def split: option.split)

lemma warm_above_live:
  assumes "tiers_in_order b ar" and "e \<in> set (events b)" and "w \<in> warm_rows ar" and "ev_id e \<le> ev_id w"
    and "matching lastId flt w"
  shows "ev_id w \<in> live_ids b flt lastId"
proof -
  have "ev_id w \<in> ev_id ` set (events b)"
    using assms(1-4) unfolding tiers_in_order_def by (metis imageI order_le_less)
  then obtain x where "x \<in> set (events b)" "ev_id x = ev_id w" by auto
  then show ?thesis using matching_agree [OF assms(1) _ assms(3)] assms(5) unfolding live_ids_def by (metis (mono_tags, lifting) imageI mem_Collect_eq)
qed


lemma warm_ids_split:
  assumes "archive_wf ar" and "\<forall>k\<in>set (ar_buckets ar). bk_health k = Healthy"
    and "\<forall>w\<in>warm_rows ar. matching lastId flt w \<and> \<not> P w \<longrightarrow> ev_id w \<le> gapEnd"
    and "w \<in> warm_rows ar" and "matching lastId flt w" and "\<not> P w"
  shows "\<exists>k\<in>set (filter (covers lastId gapEnd) (listBuckets ar)). w \<in> set (bk_events k)"
proof -
  from assms(4) obtain k where k: "k \<in> set (ar_buckets ar)" "w \<in> set (bk_events k)" by (auto simp: warm_rows_def)
  then have wf: "bucket_wf k" using assms(1) by (simp add: archive_wf_def)
  with k obtain m where m: "bm_min (bk_meta k) = Some m" "m \<le> ev_id w" unfolding bucket_wf_def by blast
  have "covers lastId gapEnd k"
    by (rule covers_row [OF wf k(2) _ _ m(1)]) (use assms(2-6) k m in \<open>auto simp: matching_def\<close>)
  then show ?thesis using k set_listBuckets_wf [OF assms(1)] by auto
qed

text \<open>The ids the warm loop reads are in order.\<close>

lemma warm_concat_strict:
  assumes "buckets_ordered ar" and "\<forall>k\<in>set (listBuckets ar). bucket_wf k"
  shows "sorted_wrt (<) (map ev_id (concat (map (\<lambda>k. filter P (bk_events k)) (filter Q (listBuckets ar)))))"
proof -
  have "sorted_wrt (\<lambda>k k'. \<forall>m. bm_min (bk_meta k') = Some m \<longrightarrow> (\<forall>e\<in>set (bk_events k). ev_id e < m)) ks \<Longrightarrow>
      \<forall>k\<in>set ks. bucket_wf k \<Longrightarrow>
      sorted_wrt (<) (map ev_id (concat (map (\<lambda>k. filter P (bk_events k)) (filter Q ks))))" for ks
  proof (induction ks)
    case Nil
    then show ?case by simp
  next
    case (Cons k ks)
    have lt: "ev_id e < ev_id e'" if "e \<in> set (bk_events k)" "k' \<in> set ks" "e' \<in> set (bk_events k')" for e e' k'
    proof -
      from Cons.prems(2) that obtain m where "bm_min (bk_meta k') = Some m" "m \<le> ev_id e'"
        unfolding bucket_wf_def by (metis list.set_intros(2))
      with Cons.prems(1) that show ?thesis by fastforce
    qed
    have s: "sorted_wrt (<) (map ev_id (filter P (bk_events k)))"
      using Cons.prems(2) by (intro map_filter_strict) (simp add: bucket_wf_def)
    have "sorted_wrt (<) (map ev_id (concat (map (\<lambda>k. filter P (bk_events k)) (filter Q ks))))"
      using Cons by simp
    with s lt show ?case by (cases "Q k") (auto simp: sorted_wrt_append)
  qed
  then show ?thesis using assms by (simp add: buckets_ordered_def)
qed

text \<open>The spill, as a fact on sets of ids: \<open>V\<close> what the covering buckets hold, \<open>L\<close> what live holds.\<close>

lemma spill_first_ids:
  fixes V L :: "int set"
  assumes "finite V" "finite L"
    and ov: "\<And>x y. x \<in> L \<Longrightarrow> y \<in> V \<Longrightarrow> x < y \<Longrightarrow> x \<in> V"
  shows "take n (sorted_list_of_set (set (take n (sorted_list_of_set V)) \<union>
       (if length (take n (sorted_list_of_set V)) < n then set (take n (sorted_list_of_set L)) else {}))) =
     take n (sorted_list_of_set (L \<union> V))"
proof (rule take_sorted_subset)
  show "finite (L \<union> V)" using assms by simp
  show "set (take n (sorted_list_of_set V)) \<union>
       (if length (take n (sorted_list_of_set V)) < n then set (take n (sorted_list_of_set L)) else {}) \<subseteq> L \<union> V"
    using assms(1,2) by (auto dest: in_set_takeD)
  show "set (take n (sorted_list_of_set (L \<union> V))) \<subseteq> set (take n (sorted_list_of_set V)) \<union>
       (if length (take n (sorted_list_of_set V)) < n then set (take n (sorted_list_of_set L)) else {})"
  proof
    fix x assume x: "x \<in> set (take n (sorted_list_of_set (L \<union> V)))"
    then have xLV: "x \<in> L \<union> V" "card {y \<in> L \<union> V. y < x} < n"
      using in_take_sorted [of "L \<union> V"] assms by simp_all
    have inV: "x \<in> V \<Longrightarrow> x \<in> set (take n (sorted_list_of_set V))"
      by (rule take_sorted_mono [OF _ _ _ x]) (use assms in auto)
    have inL: "x \<in> L \<Longrightarrow> x \<in> set (take n (sorted_list_of_set L))"
      by (rule take_sorted_mono [OF _ _ _ x]) (use assms in auto)
    have "x \<in> V" if "x \<notin> L \<or> n \<le> length (take n (sorted_list_of_set V))"
    proof (rule ccontr)
      assume nV: "x \<notin> V"
      with xLV that have xL: "x \<in> L" and full: "n \<le> card V" by auto
      from ov [OF xL] nV have "\<forall>y\<in>V. y < x" by (metis linorder_neqE)
      then have "V \<subseteq> {y \<in> L \<union> V. y < x}" by auto
      then have "card V \<le> card {y \<in> L \<union> V. y < x}" by (rule card_mono [rotated]) (use assms in auto)
      with full xLV(2) show False by simp
    qed
    then show "x \<in> set (take n (sorted_list_of_set V)) \<union>
       (if length (take n (sorted_list_of_set V)) < n then set (take n (sorted_list_of_set L)) else {})"
      using inV inL by (cases "length (take n (sorted_list_of_set V)) < n"; cases "x \<in> L") (auto simp del: length_take)
  qed
qed


section \<open>The spill path\<close>

definition spilled :: "archive \<Rightarrow> int \<Rightarrow> int \<Rightarrow> query_filter option \<Rightarrow> event_row list" where
  "spilled ar lastId gapEnd flt = concat (map (\<lambda>k. filter (matching lastId flt) (bk_events k))
     (filter (covers lastId gapEnd) (listBuckets ar)))"

definition archive_ready :: "archive \<Rightarrow> bool" where
  "archive_ready ar \<longleftrightarrow> archive_wf ar \<and> buckets_ordered ar \<and>
     (\<forall>k\<in>set (ar_buckets ar). bk_health k = Healthy) \<and> length (ar_buckets ar) \<le> ATTACH_CEILING"

lemma archive_readyD:
  assumes "archive_ready ar"
  shows "archive_wf ar" "buckets_ordered ar" "\<forall>k\<in>set (ar_buckets ar). bk_health k = Healthy"
    "length (ar_buckets ar) \<le> ATTACH_CEILING" "\<forall>k\<in>set (listBuckets ar). bucket_wf k"
  using assms set_listBuckets_wf [of ar] by (auto simp: archive_ready_def archive_wf_def)

lemma spilled_names:
  assumes "archive_ready ar"
  shows "collect_warm ar lastId flt n (take ATTACH_CEILING (map cv_name (bucketsCoveringRange ar lastId gapEnd))) [] =
     (if 0 \<le> n then Inr (take (nat n) (spilled ar lastId gapEnd flt)) else
        collect_warm ar lastId flt n (take ATTACH_CEILING (map cv_name (bucketsCoveringRange ar lastId gapEnd))) [])"
proof -
  let ?ks = "filter (covers lastId gapEnd) (listBuckets ar)"
  note r = archive_readyD [OF assms]
  have "length ?ks \<le> length (ar_buckets ar)"
    by (rule order_trans [OF length_filter_le]) (simp add: listBuckets_def)
  then have "length (map bk_name ?ks) \<le> ATTACH_CEILING" using r(4) by simp
  then have names: "take ATTACH_CEILING (map cv_name (bucketsCoveringRange ar lastId gapEnd)) = map bk_name ?ks"
    unfolding bucketsCoveringRange_def covering_filter by (rule take_all)
  have "\<forall>k\<in>set ?ks. find_bucket ar (bk_name k) = Some k \<and> bk_health k = Healthy \<and> bucket_wf k"
    using r set_listBuckets_wf [OF r(1)] find_bucket_Some [OF r(1)] by auto
  from collect_warm_healthy [OF this, of "[]" n] show ?thesis
    unfolding names spilled_def by simp
qed

lemma spilled_ids_sorted:
  assumes "archive_ready ar"
  shows "sorted_list_of_set (ev_id ` set (spilled ar lastId gapEnd flt)) = map ev_id (spilled ar lastId gapEnd flt)"
proof -
  have "sorted_wrt (<) (map ev_id (spilled ar lastId gapEnd flt))"
    unfolding spilled_def by (rule warm_concat_strict [OF archive_readyD(2,5) [OF assms]])
  then show ?thesis
    using sorted_list_of_set.idem_if_sorted_distinct [of "map ev_id (spilled ar lastId gapEnd flt)"]
    by (simp add: strict_sorted_iff)
qed

lemma in_spilled:
  "archive_ready ar \<Longrightarrow> w \<in> set (spilled ar lastId gapEnd flt) \<Longrightarrow> w \<in> warm_rows ar \<and> matching lastId flt w"
  using set_listBuckets_wf [of ar] by (auto simp: spilled_def warm_rows_def dest: archive_readyD(1))

lemma spilled_below:
  assumes "archive_ready ar" and "w \<in> warm_rows ar" and "matching lastId flt w" and "ev_id w \<le> gapEnd"
  shows "w \<in> set (spilled ar lastId gapEnd flt)"
proof -
  note r = archive_readyD [OF assms(1)]
  have "\<exists>k\<in>set (filter (covers lastId gapEnd) (listBuckets ar)). w \<in> set (bk_events k)"
    by (rule warm_ids_split [OF r(1,3), of lastId flt "\<lambda>x. x \<noteq> w"]) (use assms in auto)
  then show ?thesis using assms(3) unfolding spilled_def by auto
qed

lemma sorted_wrt_pair: "sorted_wrt R xs \<Longrightarrow> x \<in> set xs \<Longrightarrow> y \<in> set xs \<Longrightarrow> x = y \<or> R x y \<or> R y x"
  by (induction xs) auto

text \<open>A warm row below a spilled one, at or above the gap, is spilled with it.\<close>

lemma spilled_down:
  assumes "archive_ready ar" and "y \<in> set (spilled ar lastId gapEnd flt)" and "w \<in> warm_rows ar"
    and "matching lastId flt w" and "ev_id w < ev_id y" and "gapEnd < ev_id w"
  shows "w \<in> set (spilled ar lastId gapEnd flt)"
proof -
  note r = archive_readyD [OF assms(1)]
  let ?R = "\<lambda>k k'. \<forall>m. bm_min (bk_meta k') = Some m \<longrightarrow> (\<forall>e\<in>set (bk_events k). ev_id e < m)"
  obtain ky where ky: "ky \<in> set (listBuckets ar)" "covers lastId gapEnd ky" "y \<in> set (bk_events ky)"
    using assms(2) unfolding spilled_def by auto
  obtain kw where kw: "kw \<in> set (listBuckets ar)" "w \<in> set (bk_events kw)"
    using assms(3) set_listBuckets_wf [OF r(1)] by (auto simp: warm_rows_def)
  have hy: "bk_health ky = Healthy" using ky(1) r(3) set_listBuckets_wf [OF r(1)] by blast
  obtain my where my: "bm_min (bk_meta ky) = Some my" "my \<le> gapEnd" using covers_min [OF ky(2) hy] by blast
  obtain mw where mw: "bm_min (bk_meta kw) = Some mw" "mw \<le> ev_id w"
    using r(5) kw unfolding bucket_wf_def by blast
  have "kw = ky \<or> ?R kw ky \<or> ?R ky kw"
    using sorted_wrt_pair [OF _ kw(1) ky(1), of ?R] r(2) unfolding buckets_ordered_def by blast
  moreover have "\<not> ?R kw ky" using my kw(2) assms(6) by fastforce
  moreover have "\<not> ?R ky kw" using mw ky(3) assms(5) by fastforce
  ultimately have "kw = ky" by blast
  then show ?thesis using ky(1,2) kw(2) assms(4) unfolding spilled_def by auto
qed

lemma spill_complete:
  assumes "archive_ready ar" and "events_wf b" and "tiers_in_order b ar" and "0 \<le> n"
    and gap: "case probeLiveMin b flt of Some m \<Rightarrow> lastId < m \<and> gapEnd = m - 1 | None \<Rightarrow> gapEnd = MAX_SAFE_INTEGER"
  shows "merged_ids b ar flt lastId = live_ids b flt lastId \<union> ev_id ` set (spilled ar lastId gapEnd flt)"
    and "map ev_id (spill b lastId flt n (take (nat n) (spilled ar lastId gapEnd flt))) =
       take (nat n) (sorted_list_of_set (merged_ids b ar flt lastId))"
proof -
  note r = archive_readyD [OF assms(1)]
  let ?S = "spilled ar lastId gapEnd flt"
  let ?V = "ev_id ` set ?S" and ?L = "live_ids b flt lastId"
  have live_min: "gapEnd < ev_id e" if "e \<in> set (events b)" "whereClause flt e" for e
  proof -
    have ne: "probeLiveMin b flt \<noteq> None" using that by (auto simp: probeLiveMin_def filter_empty_conv)
    then obtain m where m: "probeLiveMin b flt = Some m" by blast
    then have "m \<le> ev_id e" using that list_min_Some [of _ m] unfolding probeLiveMin_def by fastforce
    with m gap show ?thesis by simp
  qed
  show m: "merged_ids b ar flt lastId = ?L \<union> ?V"
  proof
    show "merged_ids b ar flt lastId \<subseteq> ?L \<union> ?V"
    proof
      fix i assume "i \<in> merged_ids b ar flt lastId"
      then obtain w where w: "i = ev_id w" "w \<in> set (events b) \<or> w \<in> warm_rows ar" "matching lastId flt w"
        unfolding merged_ids_def by blast
      show "i \<in> ?L \<union> ?V"
      proof (cases "w \<in> set (events b)")
        case True
        with w show ?thesis unfolding live_ids_def by blast
      next
        case False
        with w have ww: "w \<in> warm_rows ar" by blast
        show ?thesis
        proof (cases "ev_id w \<le> gapEnd")
          case True
          from spilled_below [OF assms(1) ww w(3) this] w(1) show ?thesis by blast
        next
          case False
          have "ev_id w \<le> MAX_SAFE_INTEGER"
            using ww r(5) set_listBuckets_wf [OF r(1)] unfolding warm_rows_def bucket_wf_def by blast
          with False gap obtain m where "probeLiveMin b flt = Some m" "m \<le> ev_id w"
            by (auto split: option.splits)
          then obtain e where "e \<in> set (events b)" "ev_id e \<le> ev_id w"
            unfolding probeLiveMin_def using list_min_Some by fastforce
          from warm_above_live [OF assms(3) this(1) ww this(2) w(3)] w(1) show ?thesis by blast
        qed
      qed
    qed
    show "?L \<union> ?V \<subseteq> merged_ids b ar flt lastId"
      using in_spilled [OF assms(1)] unfolding merged_ids_def live_ids_def by blast
  qed
  have ov: "x \<in> ?V" if "x \<in> ?L" "y \<in> ?V" "x < y" for x y
  proof -
    from that(1) obtain e where e: "e \<in> set (events b)" "matching lastId flt e" "x = ev_id e"
      unfolding live_ids_def by blast
    from that(2) obtain v where v: "v \<in> set ?S" "y = ev_id v" by blast
    have "ev_id e \<in> warm_ids ar"
      using assms(3) e that(3) v in_spilled [OF assms(1) v(1)] unfolding tiers_in_order_def by blast
    then obtain w where w: "w \<in> warm_rows ar" "ev_id w = ev_id e" unfolding warm_ids_def by auto
    have mw: "matching lastId flt w" using matching_agree [OF assms(3) e(1) w(1)] w(2) e(2) by simp
    have "gapEnd < ev_id w" using live_min [OF e(1)] e(2) w(2) by (simp add: matching_def)
    from spilled_down [OF assms(1) v(1) w(1) mw _ this] w(2) e(3) v(2) that(3)
    show ?thesis by (metis imageI)
  qed
  have fin: "finite ?V" "finite ?L" by (simp_all add: live_ids_def)
  have V: "sorted_list_of_set ?V = map ev_id ?S" by (rule spilled_ids_sorted [OF assms(1)])
  have W: "ev_id ` set (take (nat n) ?S) = set (take (nat n) (sorted_list_of_set ?V))"
    "(int (length (take (nat n) ?S)) < n) = (length (take (nat n) (sorted_list_of_set ?V)) < nat n)"
    unfolding V using assms(4) by (auto simp: take_map)
  have Q: "ev_id ` set (queryLive b lastId flt n) = set (take (nat n) (sorted_list_of_set ?L))"
    by (metis list.set_map queryLive_ids [OF assms(2,4)])
  have "map ev_id (spill b lastId flt n (take (nat n) ?S)) = take (nat n) (sorted_list_of_set (?L \<union> ?V))"
    unfolding spill_ids [OF assms(4)] W Q by (rule spill_first_ids [OF fin ov])
  then show "map ev_id (spill b lastId flt n (take (nat n) ?S)) =
       take (nat n) (sorted_list_of_set (merged_ids b ar flt lastId))" unfolding m .
qed


section \<open>Properties\<close>

lemma pollResolve_cases:
  assumes "0 \<le> lastId"
  obtains (fast) m where "probeLiveMin b flt = Some m" "m \<le> lastId"
      "pollResolve b ar (jint lastId) flt (Some n) = Inr (queryLive b lastId flt n)"
  | (slow) gapEnd where
      "case probeLiveMin b flt of Some m \<Rightarrow> lastId < m \<and> gapEnd = m - 1 | None \<Rightarrow> gapEnd = MAX_SAFE_INTEGER"
      "pollResolve b ar (jint lastId) flt (Some n) =
        (if bucketsCoveringRange ar lastId gapEnd = [] \<and> probeLiveMin b flt = None then Inr []
         else if bucketsCoveringRange ar lastId gapEnd = [] \<and> lastId + 1 < the (probeLiveMin b flt)
         then Inl (WB WB003 [(''last_event_id'', jint lastId), (''oldest_available'', jint (the (probeLiveMin b flt)))])
         else (case collect_warm ar lastId flt n (take ATTACH_CEILING (map cv_name (bucketsCoveringRange ar lastId gapEnd))) [] of
                 Inl e \<Rightarrow> Inl e | Inr W \<Rightarrow> Inr (spill b lastId flt n W)))"
proof (cases "probeLiveMin b flt")
  case None
  show ?thesis
    by (rule slow [of MAX_SAFE_INTEGER]) (use assms None in \<open>simp_all add: pollResolve_def Let_def split: list.split\<close>)
next
  case (Some m)
  show ?thesis
  proof (cases "m \<le> lastId")
    case True
    then show ?thesis by (intro fast [OF Some]) (use assms Some in \<open>simp_all add: pollResolve_def\<close>)
  next
    case False
    show ?thesis
      by (rule slow [of "m - 1"]) (use assms Some False in \<open>simp_all add: pollResolve_def Let_def split: list.split\<close>)
  qed
qed

lemma pollResolve_complete:
  assumes "events_wf b" and "archive_ready ar" and "tiers_in_order b ar" and "0 \<le> lastId" and "0 \<le> n"
  shows "case pollResolve b ar (jint lastId) flt (Some n) of
       Inr rs \<Rightarrow> map ev_id rs = take (nat n) (sorted_list_of_set (merged_ids b ar flt lastId))
     | Inl e \<Rightarrow> \<exists>m. e = WB WB003 [(''last_event_id'', jint lastId), (''oldest_available'', jint m)] \<and>
         lastId + 1 < m \<and> (\<exists>e\<in>set (events b). whereClause flt e \<and> ev_id e = m) \<and>
         (\<forall>w\<in>warm_rows ar. matching lastId flt w \<longrightarrow> m \<le> ev_id w)"
  using assms(4)
proof (cases rule: pollResolve_cases [where b = b and flt = flt and ar = ar and n = n])
  case (fast m)
  then obtain e where e: "e \<in> set (events b)" "ev_id e \<le> lastId"
    unfolding probeLiveMin_def using list_min_Some by fastforce
  have "ev_id w \<in> live_ids b flt lastId" if "w \<in> warm_rows ar" "matching lastId flt w" for w
    by (rule warm_above_live [OF assms(3) e(1) that(1) _ that(2)]) (use e(2) that(2) in \<open>simp add: matching_def\<close>)
  then have "merged_ids b ar flt lastId = live_ids b flt lastId" unfolding merged_ids_def live_ids_def by blast
  then show ?thesis unfolding fast(3) by (simp add: queryLive_ids [OF assms(1,5)])
next
  case (slow gapEnd)
  note sp = spill_complete [OF assms(2,1,3,5) slow(1)]
  have nocover: "spilled ar lastId gapEnd flt = []" if "bucketsCoveringRange ar lastId gapEnd = []"
    using that covering_filter [of lastId gapEnd "listBuckets ar"] by (simp add: bucketsCoveringRange_def spilled_def)
  show ?thesis
  proof (cases "bucketsCoveringRange ar lastId gapEnd = []")
    case True
    show ?thesis
    proof (cases "probeLiveMin b flt")
      case None
      then have "live_ids b flt lastId = {}"
        by (auto simp: probeLiveMin_def live_ids_def matching_def filter_empty_conv)
      then have "merged_ids b ar flt lastId = {}" using sp(1) nocover [OF True] by simp
      then show ?thesis using slow(2) True None by simp
    next
      case (Some m)
      show ?thesis
      proof (cases "lastId + 1 < m")
        case later: True
        have "m \<le> ev_id w" if "w \<in> warm_rows ar" "matching lastId flt w" for w
          using spilled_below [OF assms(2) that, of gapEnd] nocover [OF True] slow(1) Some by fastforce
        moreover have "\<exists>e\<in>set (events b). whereClause flt e \<and> ev_id e = m"
          using Some list_min_Some unfolding probeLiveMin_def by fastforce
        ultimately show ?thesis using slow(2) True Some later by auto
      next
        case False
        then have "pollResolve b ar (jint lastId) flt (Some n) = Inr (spill b lastId flt n [])"
          using slow(2) True Some by simp
        then show ?thesis using sp(2) nocover [OF True] by simp
      qed
    qed
  next
    case False
    then have "pollResolve b ar (jint lastId) flt (Some n) =
        Inr (spill b lastId flt n (take (nat n) (spilled ar lastId gapEnd flt)))"
      using slow(2) spilled_names [OF assms(2), of lastId flt n gapEnd] assms(5) by simp
    then show ?thesis using sp(2) by simp
  qed
qed

text \<open>C13: \<open>pollResolve\<close> is complete: with at most 123 readable buckets in id order, and tiers that
  overlap only in the duplicates of an interrupted sweep, it returns exactly the first batch, in id
  order, of all matching events of both tiers above the position. The one other outcome is
  \<open>WB-003\<close>, raised only when no warm row matches below the oldest live match and that match is
  not the very next id.\<close>

theorem poll_resolve_complete:
  assumes "events_wf b" and "archive_ready ar" and "tiers_in_order b ar" and "0 \<le> lastId" and "0 \<le> n"
  shows "case pollResolve b ar (jint lastId) flt (Some n) of
       Inr rs \<Rightarrow> map ev_id rs = take (nat n) (sorted_list_of_set (merged_ids b ar flt lastId))
     | Inl e \<Rightarrow> \<exists>m. e = WB WB003 [(''last_event_id'', jint lastId), (''oldest_available'', jint m)] \<and>
         lastId + 1 < m \<and> (\<exists>e\<in>set (events b). whereClause flt e \<and> ev_id e = m) \<and>
         (\<forall>w\<in>warm_rows ar. matching lastId flt w \<longrightarrow> m \<le> ev_id w)"
  by (rule pollResolve_complete [OF assms])

definition demo_meta :: "int option \<Rightarrow> int option \<Rightarrow> bucket_meta" where
  "demo_meta mn mx = \<lparr>bm_created_at = Some 0, bm_min = mn, bm_max = mx, bm_sealed_at = None\<rparr>"

definition demo_archive :: "int list \<Rightarrow> archive" where
  "demo_archive ids = \<lparr>ar_buckets = [\<lparr>bk_name = ''bus-2026-01.db'', bk_events = map (\<lambda>i. demo_row i ''wicked.a'') ids,
     bk_meta = demo_meta (list_min ids) (list_max ids), bk_health = Healthy\<rparr>], ar_locks = []\<rparr>"

lemma demo_events [simp]: "events (demo_bus ids p) = map (\<lambda>i. demo_row i ''wicked.a'') ids"
  by (simp add: demo_bus_def)

lemma demo_row_id [simp]: "ev_id (demo_row i t) = i" "ev_type (demo_row i t) = t"
  "ev_domain (demo_row i t) = ''d''" "ev_subdomain (demo_row i t) = []"
  by (simp_all add: demo_row_def)

lemma demo_warm_rows [simp]: "warm_rows (demo_archive ids) = (\<lambda>i. demo_row i ''wicked.a'') ` set ids"
  by (simp add: warm_rows_def demo_archive_def)

lemma demo_archive_ready [simp]:
  assumes "sorted_wrt (<) ids" and "\<forall>i\<in>set ids. i \<le> MAX_SAFE_INTEGER"
  shows "archive_ready (demo_archive ids)"
proof -
  have m: "\<exists>m. list_min ids = Some m \<and> m \<le> i" "\<exists>m. list_max ids = Some m \<and> i \<le> m" if "i \<in> set ids" for i
  proof -
    have "ids \<noteq> []" using that by auto
    then obtain a c where "list_min ids = Some a" "list_max ids = Some c" by (metis list_max_None list_min_None not_None_eq)
    with that list_min_Some [of ids a] list_max_Some [of ids c]
    show "\<exists>m. list_min ids = Some m \<and> m \<le> i" "\<exists>m. list_max ids = Some m \<and> i \<le> m" by auto
  qed
  have "BUCKET_FILE_RE ''bus-2026-01.db''" by code_simp
  moreover have "bucket_wf (hd (ar_buckets (demo_archive ids)))"
    using assms m by (auto simp: bucket_wf_def demo_archive_def demo_meta_def comp_def)
  ultimately show ?thesis
    by (simp add: archive_ready_def archive_wf_def buckets_ordered_def listBuckets_def demo_archive_def ATTACH_CEILING_def)
qed

lemma demo_tiers:
  assumes "\<forall>l\<in>set live. \<forall>w\<in>set warm. l < w \<longrightarrow> w \<in> set live \<and> l \<in> set warm"
  shows "tiers_in_order (demo_bus live p) (demo_archive warm)"
proof -
  have ids: "ev_id ` set (events (demo_bus live p)) = set live" "warm_ids (demo_archive warm) = set warm"
    by (simp_all add: warm_ids_def image_image)
  have "(ev_id e < ev_id w \<longrightarrow> ev_id w \<in> set live \<and> ev_id e \<in> set warm) \<and>
      (ev_id e = ev_id w \<longrightarrow> ev_type e = ev_type w \<and> ev_domain e = ev_domain w \<and> ev_subdomain e = ev_subdomain w)"
    if e: "e \<in> set (events (demo_bus live p))" and w: "w \<in> warm_rows (demo_archive warm)" for e w
  proof -
    from e obtain i where i: "i \<in> set live" "e = demo_row i ''wicked.a''" by auto
    from w obtain j where j: "j \<in> set warm" "w = demo_row j ''wicked.a''" by auto
    have "i < j \<longrightarrow> j \<in> set live \<and> i \<in> set warm" using assms i(1) j(1) by blast
    then show ?thesis unfolding i(2) j(2) demo_row_id by blast
  qed
  then show ?thesis unfolding tiers_in_order_def ids by blast
qed

lemma poll_resolve_complete_witness:
  "\<exists>rs. pollResolve (demo_bus [4, 5] 1) (demo_archive [2, 3, 4]) (jint 1) None (Some 2) = Inr rs \<and>
     map ev_id rs = take 2 (sorted_list_of_set (merged_ids (demo_bus [4, 5] 1) (demo_archive [2, 3, 4]) None 1))"
proof -
  have wf: "events_wf (demo_bus [4, 5] 1)" by (rule bus_wfD, rule demo_bus_wf) auto
  have ar: "archive_ready (demo_archive [2, 3, 4])" by (rule demo_archive_ready) (auto simp: MAX_SAFE_INTEGER_def)
  have t: "tiers_in_order (demo_bus [4, 5] 1) (demo_archive [2, 3, 4])" by (rule demo_tiers) simp
  have "case pollResolve (demo_bus [4, 5] 1) (demo_archive [2, 3, 4]) (jint 1) None (Some 2) of Inr rs \<Rightarrow> True | Inl _ \<Rightarrow> False"
    by code_simp
  with poll_resolve_complete [OF wf ar t, of 1 2 None] show ?thesis by (auto split: sum.splits)
qed

lemma readBucket_rows: "readBucket ar nm lastId flt n = Inr rows \<Longrightarrow> r \<in> set rows \<Longrightarrow> r \<in> warm_rows ar \<and> matching lastId flt r"
  by (auto simp: readBucket_def find_bucket_def warm_rows_def matching_def split: option.splits if_splits
      dest!: set_sql_limit find_Some_conv)

lemma collect_warm_rows:
  "collect_warm ar lastId flt n ns acc = Inr W \<Longrightarrow> \<forall>r\<in>set acc. r \<in> warm_rows ar \<and> matching lastId flt r \<Longrightarrow>
   \<forall>r\<in>set W. r \<in> warm_rows ar \<and> matching lastId flt r"
proof (induction ns arbitrary: acc)
  case Nil
  then show ?case by simp
next
  case (Cons nm ns)
  show ?case
  proof (cases "n \<le> int (length acc)")
    case True
    with Cons.prems show ?thesis by simp
  next
    case False
    with Cons.prems(1) obtain rows where r: "readBucket ar nm lastId flt (n - int (length acc)) = Inr rows"
      "collect_warm ar lastId flt n ns (acc @ rows) = Inr W" by (auto split: sum.splits)
    have "\<forall>r\<in>set (acc @ rows). r \<in> warm_rows ar \<and> matching lastId flt r"
      using Cons.prems(2) readBucket_rows [OF r(1)] by auto
    from Cons.IH [OF r(2) this] show ?thesis .
  qed
qed

lemma collect_warm_error: "collect_warm ar lastId flt n ns acc = Inl e \<Longrightarrow> code_in [WB001, WB003, WB013] e"
  by (induction ns arbitrary: acc)
    (auto simp: readBucket_def bucket_unavailable_def code_in_def split: if_splits sum.splits option.splits)

lemma queryLive_rows:
  assumes "events_wf b"
  shows "r \<in> set (queryLive b lastId flt n) \<Longrightarrow> r \<in> set (events b) \<and> matching lastId flt r"
    and "sorted_wrt (<) (map ev_id (queryLive b lastId flt n))"
    and "0 \<le> n \<Longrightarrow> int (length (queryLive b lastId flt n)) \<le> n"
proof -
  show "r \<in> set (queryLive b lastId flt n) \<Longrightarrow> r \<in> set (events b) \<and> matching lastId flt r"
    unfolding queryLive_def matching_def by (rule set_select_events)
  show "sorted_wrt (<) (map ev_id (queryLive b lastId flt n))"
    unfolding queryLive_def by (rule select_events_sorted [OF assms])
  show "0 \<le> n \<Longrightarrow> int (length (queryLive b lastId flt n)) \<le> n"
    unfolding queryLive_def select_events_def by (rule length_sql_limit)
qed

text \<open>Whatever the state of the warm tier, \<open>pollResolve\<close> returns rows of the two tiers that match
  above the position, in strictly ascending id order and at most a batch of them. It fails only
  with \<open>WB-003\<close> or \<open>WB-013\<close> (\<open>WB-001\<close> for an invalid position).\<close>

theorem poll_resolve_sound:
  assumes "events_wf b" and "0 \<le> lastId" and "0 \<le> n"
  shows "case pollResolve b ar (jint lastId) flt (Some n) of
       Inr rs \<Rightarrow> sorted_wrt (<) (map ev_id rs) \<and> int (length rs) \<le> n \<and>
         (\<forall>r\<in>set rs. matching lastId flt r \<and> (r \<in> set (events b) \<or> r \<in> warm_rows ar))
     | Inl e \<Rightarrow> code_in [WB001, WB003, WB013] e"
  using assms(2)
proof (cases rule: pollResolve_cases [where b = b and flt = flt and ar = ar and n = n])
  case (fast m)
  note q = queryLive_rows [OF assms(1), where lastId = lastId and flt = flt and n = n]
  show ?thesis unfolding fast(3) using q(1-3) assms(3) by simp
next
  case (slow gapEnd)
  show ?thesis
  proof (cases "collect_warm ar lastId flt n (take ATTACH_CEILING (map cv_name (bucketsCoveringRange ar lastId gapEnd))) []")
    case (Inl e)
    then show ?thesis using collect_warm_error [OF Inl] assms(3) unfolding slow(2) by (simp add: code_in_def)
  next
    case (Inr W)
    let ?L = "if int (length W) < n then queryLive b lastId flt n else []"
    let ?rs = "spill b lastId flt n W"
    note q = queryLive_rows [OF assms(1), where lastId = lastId and flt = flt and n = n]
    have W: "\<forall>r\<in>set W. r \<in> warm_rows ar \<and> matching lastId flt r" by (rule collect_warm_rows [OF Inr]) simp
    have dL: "distinct (map ev_id ?L)" using q(2) sorted_strict_imp_distinct by auto
    have rs: "?rs = take (nat n) (sort_key ev_id (dedupePreferLive W ?L))"
      by (simp add: spill_def Let_def truncate_take [OF assms(3)])
    have src: "r \<in> set ?L \<or> r \<in> set W \<and> ev_id r \<notin> ev_id ` set ?L" if "r \<in> set ?rs" for r
      using that dedupe_source [OF _ dL, of r W] unfolding rs by (metis in_set_takeD set_sort)
    have "sorted_wrt (<) (map ev_id ?rs)"
      unfolding spill_ids [OF assms(3)] by (intro sorted_wrt_take strict_sorted_list_of_set)
    moreover have "int (length ?rs) \<le> n" using assms(3) by (simp add: rs)
    moreover have "matching lastId flt r \<and> (r \<in> set (events b) \<or> r \<in> warm_rows ar)" if "r \<in> set ?rs" for r
      using src [OF that] W q(1) by (auto split: if_splits)
    ultimately have "sorted_wrt (<) (map ev_id ?rs) \<and> int (length ?rs) \<le> n \<and>
         (\<forall>r\<in>set ?rs. matching lastId flt r \<and> (r \<in> set (events b) \<or> r \<in> warm_rows ar))"
      by blast
    then show ?thesis unfolding slow(2) Inr by (simp add: code_in_def)
  qed
qed

lemma poll_resolve_sound_witness:
  "\<exists>rs. pollResolve (demo_bus [4, 5] 1) (demo_archive [2, 3, 4]) (jint 1) None (Some 2) = Inr rs \<and>
     sorted_wrt (<) (map ev_id rs) \<and> int (length rs) \<le> 2"
proof -
  have wf: "events_wf (demo_bus [4, 5] 1)" by (rule bus_wfD, rule demo_bus_wf) auto
  have "case pollResolve (demo_bus [4, 5] 1) (demo_archive [2, 3, 4]) (jint 1) None (Some 2) of Inr rs \<Rightarrow> True | Inl _ \<Rightarrow> False"
    by code_simp
  with poll_resolve_sound [OF wf, of 1 2 None "demo_archive [2, 3, 4]"] show ?thesis by (auto split: sum.splits)
qed

text \<open>\<open>dedupePreferLive\<close> returns one row for every id of either argument, the live one where both
  have it.\<close>

theorem dedupe_live_wins:
  assumes "distinct (map ev_id L)"
  shows "distinct (map ev_id (dedupePreferLive W L)) \<and>
    ev_id ` set (dedupePreferLive W L) = ev_id ` set W \<union> ev_id ` set L \<and>
    (\<forall>r\<in>set (dedupePreferLive W L). if ev_id r \<in> ev_id ` set L then r \<in> set L else r \<in> set W)"
  using dedupe_ids [of W L] dedupe_source [OF _ assms, of _ W] by auto

lemma dedupe_live_wins_witness:
  "(let d = dedupePreferLive [demo_row 2 ''wicked.a'', demo_row 1 ''wicked.a''] [demo_row 2 ''wicked.b''] in
     distinct (map ev_id d) \<and> ev_id ` set d = {1, 2} \<and> (\<forall>r\<in>set d. ev_id r = 2 \<longrightarrow> ev_type r = ''wicked.b''))"
proof -
  let ?L = "[demo_row 2 ''wicked.b'']" and ?W = "[demo_row 2 ''wicked.a'', demo_row 1 ''wicked.a'']"
  have d: "distinct (map ev_id ?L)" by simp
  from dedupe_live_wins [OF this, of ?W] have
    "\<forall>r\<in>set (dedupePreferLive ?W ?L). ev_id r = 2 \<longrightarrow> r = demo_row 2 ''wicked.b''" by auto
  then have "\<forall>r\<in>set (dedupePreferLive ?W ?L). ev_id r = 2 \<longrightarrow> ev_type r = ''wicked.b''" by (metis demo_row_id(2))
  moreover have "ev_id ` set ?W \<union> ev_id ` set ?L = {1, 2}" by auto
  ultimately show ?thesis using dedupe_live_wins [OF d, of ?W] unfolding Let_def by metis
qed

text \<open>The fast path reads live only: when a live match sits at or below the position, every warm row
  that is no longer live is skipped without an error. This is the state a sweep under
  \<open>retain\<close> leaves when it keeps an old owed event and moves later ones to a bucket.\<close>

theorem retained_row_hides_warm:
  assumes "events_wf b" and "e \<in> set (events b)" "whereClause flt e" "ev_id e \<le> lastId" and "0 \<le> lastId"
    and "w \<in> warm_rows ar" "matching lastId flt w" "ev_id w \<notin> ev_id ` set (events b)"
  shows "\<exists>rs. pollResolve b ar (jint lastId) flt (Some n) = Inr rs \<and> ev_id w \<notin> ev_id ` set rs \<and>
     ev_id w \<in> merged_ids b ar flt lastId"
  using assms(5)
proof (cases rule: pollResolve_cases [where b = b and flt = flt and ar = ar and n = n])
  case (fast m)
  have "ev_id w \<notin> ev_id ` set (queryLive b lastId flt n)"
    using queryLive_rows(1) [OF assms(1)] assms(8) by blast
  then show ?thesis unfolding fast(3) using assms(6,7) unfolding merged_ids_def by blast
next
  case (slow gapEnd)
  have "probeLiveMin b flt \<noteq> None" using assms(2,3) by (auto simp: probeLiveMin_def filter_empty_conv)
  then obtain m where m: "probeLiveMin b flt = Some m" by blast
  then have "m \<le> ev_id e" using assms(2,3) list_min_Some [of _ m] unfolding probeLiveMin_def by fastforce
  with m slow(1) assms(4) show ?thesis by simp
qed

lemma retained_row_hides_warm_witness:
  "\<exists>rs. pollResolve (demo_bus [1, 5] 1) (demo_archive [2, 3, 4]) (jint 1) None (Some 100) = Inr rs \<and>
     ev_id (demo_row 2 ''wicked.a'') \<notin> ev_id ` set rs"
proof -
  have wf: "events_wf (demo_bus [1, 5] 1)" by (rule bus_wfD, rule demo_bus_wf) auto
  have "\<exists>rs. pollResolve (demo_bus [1, 5] 1) (demo_archive [2, 3, 4]) (jint 1) None (Some 100) = Inr rs \<and>
     ev_id (demo_row 2 ''wicked.a'') \<notin> ev_id ` set rs \<and>
     ev_id (demo_row 2 ''wicked.a'') \<in> merged_ids (demo_bus [1, 5] 1) (demo_archive [2, 3, 4]) None 1"
    by (rule retained_row_hides_warm [OF wf, of "demo_row 1 ''wicked.a''"])
      (simp_all add: whereClause_def matching_def)
  then show ?thesis by blast
qed

text \<open>\<open>WB-003\<close> is raised on a bus from which nothing was ever deleted: every id from 1 on is
  live and there is no bucket, but the first event the filter matches is not the next one.\<close>

theorem filtered_gap_raises:
  assumes "map ev_id (events b) = [1..k]" and "ar_buckets ar = []"
    and "list_min (map ev_id (filter (whereClause flt) (events b))) = Some m" and "1 < m"
  shows "pollResolve b ar (jint 0) flt batch =
     Inl (WB WB003 [(''last_event_id'', jint 0), (''oldest_available'', jint m)])"
  using assms(2-4) by (simp add: pollResolve_def probeLiveMin_def Let_def bucketsCoveringRange_def listBuckets_def js_int_def)

lemma filtered_gap_raises_witness:
  "pollResolve (demo_bus [1, 2] 0\<lparr>events := [demo_row 1 ''wicked.a'', demo_row 2 ''wicked.b'']\<rparr>)
     \<lparr>ar_buckets = [], ar_locks = []\<rparr> (jint 0)
     (Some \<lparr>qf_event_type = Some ''wicked.b'', qf_domain = None, qf_subdomain = None\<rparr>) None =
   Inl (WB WB003 [(''last_event_id'', jint 0), (''oldest_available'', jint 2)])"
  by (rule filtered_gap_raises [of _ 2]) (simp_all add: whereClause_def field_ok_def upto.simps)

end
