(* ===== verification/BusTiers.thy ===== *)
theory BusTiers
  imports BusCalendar BusQuery
begin

text \<open>
  The two tiers together: \<open>runSweepV2\<close> of \<open>lib/sweep-v2.js\<close> moves rows while \<open>pollResolve\<close> of \<open>lib/query.js\<close>
  reads them. \<open>tiered\<close> is the state the two modules rely on without saying so: warm rows are older
  than live ones, every row lies in the bucket of its month, and buckets follow one another by name.
\<close>

section \<open>The invariant\<close>

definition rows_at :: "archive \<Rightarrow> string \<Rightarrow> event_row set" where
  "rows_at ar n = {e. \<exists>k\<in>set (ar_buckets ar). bk_name k = n \<and> e \<in> set (bk_events k)}"

text \<open>The recorded minimum is the id of a row.\<close>

definition ranged :: "bucket \<Rightarrow> bool" where
  "ranged k \<longleftrightarrow> (\<forall>m. bm_min (bk_meta k) = Some m \<longrightarrow> m \<in> ev_id ` set (bk_events k))"

definition usable :: "archive \<Rightarrow> bool" where
  "usable ar \<longleftrightarrow> (\<forall>k\<in>set (ar_buckets ar). bk_health k = Healthy \<and> ranged k)"

definition filed :: "archive \<Rightarrow> bool" where
  "filed ar \<longleftrightarrow> (\<forall>n. \<forall>e\<in>rows_at ar n. name_month n = monthKey (ev_emitted_at e))"

definition by_name :: "archive \<Rightarrow> bool" where
  "by_name ar \<longleftrightarrow> (\<forall>n n'. n < n' \<longrightarrow> (\<forall>e\<in>rows_at ar n. \<forall>e'\<in>rows_at ar n'. ev_id e < ev_id e'))"

definition clocked :: "event_row set \<Rightarrow> bool" where
  "clocked E \<longleftrightarrow> (\<forall>x\<in>E. \<forall>y\<in>E. ev_id x \<le> ev_id y \<longrightarrow> ev_emitted_at x \<le> ev_emitted_at y) \<and>
     (\<forall>x\<in>E. dated (ev_emitted_at x) \<and> ev_id x \<le> MAX_SAFE_INTEGER)"

definition stored :: "bus \<Rightarrow> archive \<Rightarrow> event_row set" where
  "stored b ar = set (events b) \<union> warm_rows ar"

definition tiered :: "jsnum \<Rightarrow> bus \<Rightarrow> archive \<Rightarrow> bool" where
  "tiered ttl b ar \<longleftrightarrow> events_wf b \<and> archive_wf ar \<and> ar_locks ar = [] \<and>
     usable ar \<and> filed ar \<and> by_name ar \<and>
     clocked (stored b ar) \<and> (\<forall>e\<in>set (events b). \<forall>w\<in>warm_rows ar. ev_id w < ev_id e) \<and>
     (\<forall>e\<in>set (events b). ev_expires_at e = num_shift (ev_emitted_at e) ttl)"

lemma tieredD:
  assumes "tiered ttl b ar"
  shows "events_wf b" "archive_wf ar" "ar_locks ar = []" "usable ar" "filed ar" "by_name ar" "clocked (stored b ar)"
    "\<forall>e\<in>set (events b). \<forall>w\<in>warm_rows ar. ev_id w < ev_id e"
    "\<forall>e\<in>set (events b). ev_expires_at e = num_shift (ev_emitted_at e) ttl"
  using assms unfolding tiered_def by blast+

lemma rows_at_warm: "e \<in> warm_rows ar \<longleftrightarrow> (\<exists>n. e \<in> rows_at ar n)"
  by (auto simp: warm_rows_def rows_at_def)

lemma clocked_subset: "clocked E \<Longrightarrow> F \<subseteq> E \<Longrightarrow> clocked F"
  unfolding clocked_def by blast

text \<open>What the resolver needs follows.\<close>

lemma by_name_ordered:
  assumes "archive_wf ar" and "by_name ar" and "usable ar"
  shows "buckets_ordered ar"
proof -
  have "sorted_wrt (\<lambda>k k'. bk_name k < bk_name k') (listBuckets ar)"
    using listBuckets_strict [OF assms(1)] by (simp add: sorted_wrt_map)
  then show ?thesis unfolding buckets_ordered_def
  proof (rule sorted_wrt_mono_rel_set, intro allI impI ballI)
    fix k k' m e
    assume k: "k \<in> set (listBuckets ar)" "k' \<in> set (listBuckets ar)" "bk_name k < bk_name k'"
      and m: "bm_min (bk_meta k') = Some m" and e: "e \<in> set (bk_events k)"
    have in_ar: "k \<in> set (ar_buckets ar)" "k' \<in> set (ar_buckets ar)"
      using k(1,2) set_listBuckets_wf [OF assms(1)] by simp_all
    then obtain e' where e': "e' \<in> set (bk_events k')" "ev_id e' = m"
      using assms(3) m unfolding usable_def ranged_def by auto
    have "e \<in> rows_at ar (bk_name k)" "e' \<in> rows_at ar (bk_name k')"
      using in_ar e e'(1) unfolding rows_at_def by blast+
    then have "ev_id e < ev_id e'" using assms(2) k(3) unfolding by_name_def by blast
    then show "ev_id e < m" using e'(2) by simp
  qed
qed

lemma tiered_resolvable:
  assumes "tiered ttl b ar" and "length (ar_buckets ar) \<le> ATTACH_CEILING"
  shows "archive_ready ar" and "tiers_in_order b ar"
proof -
  note t = tieredD [OF assms(1)]
  show "archive_ready ar" using by_name_ordered [OF t(2,6,4)] t(2,4) assms(2) unfolding archive_ready_def usable_def by blast
  show "tiers_in_order b ar" unfolding tiers_in_order_def
    using t(8) by (metis less_asym less_irrefl)
qed

section \<open>Grouping\<close>

text \<open>Sealing is all that grouping does to the buckets.\<close>

definition only_sealed :: "archive \<Rightarrow> archive \<Rightarrow> bool" where
  "only_sealed ar ar' \<longleftrightarrow>
     (\<forall>n. rows_at ar' n = rows_at ar n) \<and> bk_name ` set (ar_buckets ar') = bk_name ` set (ar_buckets ar) \<and>
     (usable ar \<longrightarrow> usable ar') \<and> ar_locks ar' = ar_locks ar"

lemma only_sealed_refl [simp]: "only_sealed ar ar"
  by (simp add: only_sealed_def)

lemma only_sealed_trans: "only_sealed a b \<Longrightarrow> only_sealed b c \<Longrightarrow> only_sealed a c"
  unfolding only_sealed_def by simp

lemma map_bucket_sealed:
  assumes "\<And>k. bk_name (f k) = bk_name k \<and> bk_events (f k) = bk_events k \<and> bk_health (f k) = bk_health k \<and>
    bm_min (bk_meta (f k)) = bm_min (bk_meta k)"
  shows "only_sealed ar (map_bucket n f ar)"
proof -
  define g where "g = (\<lambda>k. if bk_name k = n then f k else k)"
  have b: "set (ar_buckets (map_bucket n f ar)) = g ` set (ar_buckets ar)" by (simp add: map_bucket_def g_def)
  have g: "bk_name (g k) = bk_name k" "bk_events (g k) = bk_events k" "bk_health (g k) = bk_health k"
    "ranged (g k) = ranged k" for k using assms by (simp_all add: ranged_def g_def)
  have "ar_locks (map_bucket n f ar) = ar_locks ar" by (simp add: map_bucket_def)
  then show ?thesis unfolding only_sealed_def rows_at_def usable_def b by (simp add: g image_image)
qed

lemma choose_only_sealed: "only_sealed ar (snd (chooseBucketForMonth sz now m mx ar))"
proof -
  have "only_sealed ar (map_bucket l (\<lambda>k. if bk_health k = Healthy then sealBucket now None k else k) ar)" for l
    by (rule map_bucket_sealed) (simp add: sealBucket_def)
  then show ?thesis by (simp add: chooseBucketForMonth_def Let_def)
qed

definition placed :: "(string \<times> string) list \<Rightarrow> groups \<Rightarrow> archive \<Rightarrow> bool" where
  "placed cache gs ar \<longleftrightarrow> distinct (map fst cache) \<and>
     (\<forall>(m, n)\<in>set cache. name_month n = m \<and> BUCKET_FILE_RE n \<and>
        (\<forall>k\<in>set (ar_buckets ar). (name_month (bk_name k) = m \<longrightarrow> bk_name k \<le> n) \<and> (bk_name k = n \<longrightarrow> open_bucket k))) \<and>
     (\<forall>(n, es)\<in>set gs. es \<noteq> [] \<and> (\<exists>m. (m, n) \<in> set cache) \<and> (\<forall>e\<in>set es. monthKey (ev_emitted_at e) = name_month n))"

lemma add_to_group_mem:
  "(x, ys) \<in> set (add_to_group n e gs) \<Longrightarrow>
   (x, ys) \<in> set gs \<or> x = n \<and> (ys = [e] \<or> (\<exists>zs. (n, zs) \<in> set gs \<and> ys = zs @ [e]))"
proof (induction gs)
  case Nil
  then show ?case by (simp add: add_to_group_simps)
next
  case (Cons g gs)
  obtain m es where g: "g = (m, es)" by (cases g)
  from Cons show ?case unfolding g add_to_group_simps by (auto split: if_splits)
qed

lemma placed_add:
  assumes "placed cache gs ar" and "(monthKey (ev_emitted_at e), n) \<in> set cache"
  shows "placed cache (add_to_group n e gs) ar"
proof -
  have "name_month n = monthKey (ev_emitted_at e)" using assms unfolding placed_def by blast
  then have "ys \<noteq> [] \<and> (\<exists>m. (m, x) \<in> set cache) \<and> (\<forall>e\<in>set ys. monthKey (ev_emitted_at e) = name_month x)"
    if "(x, ys) \<in> set (add_to_group n e gs)" for x ys
    using add_to_group_mem [OF that] assms unfolding placed_def by fastforce
  then show ?thesis using assms(1) unfolding placed_def by blast
qed

lemma placed_choose:
  assumes "placed cache gs ar" and "chooseBucketForMonth sz now m mx ar = (Inr n, ar')" and "archive_wf ar"
    and "month_pat m" and "usable ar" and "map_of cache m = None"
  shows "placed (AList.update m n cache) gs ar'"
proof -
  have "\<forall>k\<in>set (ar_buckets ar). bk_health k = Healthy" using assms(5) by (simp add: usable_def)
  note c = chooseBucketForMonth_after [OF assms(2-4) this]
  have "m \<notin> fst ` set cache" using assms(6) by (simp add: map_of_eq_None_iff)
  then have u: "AList.update m n cache = cache @ [(m, n)]" by (induction cache) auto
  have names: "bk_name ` set (ar_buckets ar') = bk_name ` set (ar_buckets ar)"
    using choose_only_sealed [of ar sz now m mx] assms(2) by (simp add: only_sealed_def)
  have last_one: "bk_name k \<le> n" if k: "k \<in> set (ar_buckets ar')" "name_month (bk_name k) = m" for k
  proof -
    have "bk_name k \<in> bk_name ` set (ar_buckets ar)" using k(1) names by blast
    then obtain k0 where "k0 \<in> set (ar_buckets ar)" "bk_name k0 = bk_name k" by (metis imageE)
    then show ?thesis using c(3) [of k0] k(2) by simp
  qed
  have older: "k \<in> set (ar_buckets ar)" if "k \<in> set (ar_buckets ar')" "name_month (bk_name k) \<in> fst ` set cache" for k
    using c(5) [OF that(1)] that(2) \<open>m \<notin> fst ` set cache\<close> by metis
  show ?thesis unfolding placed_def u
  proof (intro conjI)
    show "distinct (map fst (cache @ [(m, n)]))" using assms(1) \<open>m \<notin> fst ` set cache\<close> by (simp add: placed_def)
    show "\<forall>(m', n')\<in>set (cache @ [(m, n)]). name_month n' = m' \<and> BUCKET_FILE_RE n' \<and>
        (\<forall>k\<in>set (ar_buckets ar'). (name_month (bk_name k) = m' \<longrightarrow> bk_name k \<le> n') \<and> (bk_name k = n' \<longrightarrow> open_bucket k))"
    proof (intro ballI, clarify)
      fix m' n' assume "(m', n') \<in> set (cache @ [(m, n)])"
      then consider (old) "(m', n') \<in> set cache" | (new) "m' = m" "n' = n" by auto
      then show "name_month n' = m' \<and> BUCKET_FILE_RE n' \<and>
        (\<forall>k\<in>set (ar_buckets ar'). (name_month (bk_name k) = m' \<longrightarrow> bk_name k \<le> n') \<and> (bk_name k = n' \<longrightarrow> open_bucket k))"
      proof cases
        case old
        then have "name_month n' = m'" "BUCKET_FILE_RE n'" and m': "m' \<in> fst ` set cache"
          and "\<forall>k\<in>set (ar_buckets ar). (name_month (bk_name k) = m' \<longrightarrow> bk_name k \<le> n') \<and> (bk_name k = n' \<longrightarrow> open_bucket k)"
          using assms(1) unfolding placed_def by force+
        moreover have "k \<in> set (ar_buckets ar)" if "k \<in> set (ar_buckets ar')" "name_month (bk_name k) = m'" for k
          using older [OF that(1)] that(2) m' by simp
        ultimately show ?thesis by metis
      next
        case new
        then show ?thesis using c(1,2,4) last_one by blast
      qed
    qed
    show "\<forall>(x, es)\<in>set gs. es \<noteq> [] \<and> (\<exists>m'. (m', x) \<in> set (cache @ [(m, n)])) \<and> (\<forall>e\<in>set es. monthKey (ev_emitted_at e) = name_month x)"
      using assms(1) unfolding placed_def by fastforce
  qed
qed

lemma groupByTargetBucket_placed:
  "groupByTargetBucket sz now mx es cache gs ar = (r, ar') \<Longrightarrow> archive_wf ar \<Longrightarrow>
   usable ar \<Longrightarrow> \<forall>e\<in>set es. month_pat (monthKey (ev_emitted_at e)) \<Longrightarrow>
   placed cache gs ar \<Longrightarrow> only_sealed ar ar' \<and> (\<forall>gs'. r = Inr gs' \<longrightarrow> (\<exists>cache'. placed cache' gs' ar'))"
proof (induction es arbitrary: cache gs ar)
  case Nil
  then show ?case by auto
next
  case (Cons e es)
  let ?m = "monthKey (ev_emitted_at e)"
  show ?case
  proof (cases "map_of cache ?m")
    case (Some n)
    have g: "groupByTargetBucket sz now mx es cache (add_to_group n e gs) ar = (r, ar')" using Cons.prems(1) Some by simp
    have "placed cache (add_to_group n e gs) ar" by (rule placed_add [OF Cons.prems(5) map_of_SomeD [OF Some]])
    from Cons.IH [OF g Cons.prems(2,3) _ this] Cons.prems(4) show ?thesis by simp
  next
    case None
    obtain r1 ar1 where c: "chooseBucketForMonth sz now ?m mx ar = (r1, ar1)" by fastforce
    have s1: "only_sealed ar ar1" and w1: "archive_wf ar1"
      using choose_only_sealed [of ar sz now ?m mx] chooseBucketForMonth_wf [OF Cons.prems(2), of sz now ?m mx] c by simp_all
    show ?thesis
    proof (cases r1)
      case (Inl err)
      with Cons.prems(1) None c have "r = Inl err" "ar' = ar1" by simp_all
      then show ?thesis using s1 by simp
    next
      case (Inr n)
      have g: "groupByTargetBucket sz now mx es (AList.update ?m n cache) (add_to_group n e gs) ar1 = (r, ar')"
        using Cons.prems(1) None c Inr by simp
      have "placed (AList.update ?m n cache) gs ar1"
        by (rule placed_choose [OF Cons.prems(5) c [unfolded Inr] Cons.prems(2) _ _ None]) (use Cons.prems(3,4) in simp_all)
      moreover have "(?m, n) \<in> set (AList.update ?m n cache)"
        by (rule map_of_SomeD) (simp add: update_conv')
      ultimately have pl: "placed (AList.update ?m n cache) (add_to_group n e gs) ar1" by (rule placed_add)
      have h1: "usable ar1" using s1 Cons.prems(3) by (simp add: only_sealed_def)
      from Cons.IH [OF g w1 h1 _ pl] Cons.prems(4) show ?thesis using only_sealed_trans [OF s1] by simp
    qed
  qed
qed

section \<open>Writing\<close>

lemma filled_open [simp]: "open_bucket (filled es k) = open_bucket k"
  by (simp add: open_bucket_def filled_def with_range_def insert_rows_def split: option.split)

lemma filled_ranged:
  assumes "es \<noteq> []"
  shows "ranged (filled es k)"
proof -
  let ?k = "insert_rows es k"
  have "ev_id ` set es \<subseteq> ev_id ` set (bk_events ?k)"
    using fold_archive_set [of "bk_events k" es] by (simp add: insert_rows_def)
  then have "map ev_id (bk_events ?k) \<noteq> []" using assms by auto
  then obtain mn mx where m: "list_min (map ev_id (bk_events ?k)) = Some mn" "list_max (map ev_id (bk_events ?k)) = Some mx"
    by (metis list_max_None list_min_None not_None_eq)
  then have "bm_min (bk_meta (filled es k)) = Some mn" by (simp add: filled_def with_range_def)
  moreover have "mn \<in> ev_id ` set (bk_events (filled es k))"
    using list_min_Some [OF m(1)] by (simp add: insert_rows_def)
  ultimately show ?thesis by (simp add: ranged_def)
qed

lemma insertBatch_at:
  assumes "insertBatchIntoBucket now n es ar = (r, ar')" and "usable ar" and "es \<noteq> []"
  shows "r = Inr ()" and "usable ar'" and "ar_locks ar' = ar_locks ar"
    and "rows_at ar' x \<subseteq> rows_at ar x \<union> (if x = n then set es else {})"
    and "\<forall>k\<in>set (ar_buckets ar'). (\<forall>k0\<in>set (ar_buckets ar). bk_name k0 = bk_name k \<longrightarrow> open_bucket k0) \<longrightarrow> open_bucket k"
proof -
  have fr: "set (fold archive_insert es rs) \<subseteq> set rs \<union> set es" for rs using fold_archive_set [of rs es] by blast
  have "r = Inr () \<and> usable ar' \<and> ar_locks ar' = ar_locks ar \<and>
      (\<forall>x. rows_at ar' x \<subseteq> rows_at ar x \<union> (if x = n then set es else {})) \<and>
      (\<forall>k\<in>set (ar_buckets ar'). (\<forall>k0\<in>set (ar_buckets ar). bk_name k0 = bk_name k \<longrightarrow> open_bucket k0) \<longrightarrow> open_bucket k)"
  proof (cases "find_bucket ar n")
    case None
    define k where "k = createBucket n now (Some (ev_id (hd es))) (Some (ev_id (last es)))"
    have k: "bk_name k = n" "bk_events k = []" "bk_health k = Healthy" "open_bucket k"
      by (simp_all add: k_def createBucket_def open_bucket_def)
    have r: "r = Inr ()" and ar': "ar' = ar\<lparr>ar_buckets := ar_buckets ar @ [filled es k]\<rparr>"
      using assms(1) None by (simp_all add: insertBatchIntoBucket_def filled_def k_def)
    have "usable ar'" using assms(2) k(3) filled_ranged [OF assms(3)] by (simp add: ar' usable_def)
    moreover have "rows_at ar' x \<subseteq> rows_at ar x \<union> (if x = n then set es else {})" for x
      using fr [of "[]"] k(1,2) by (auto simp: ar' rows_at_def)
    moreover have "\<forall>k\<in>set (ar_buckets ar'). (\<forall>k0\<in>set (ar_buckets ar). bk_name k0 = bk_name k \<longrightarrow> open_bucket k0) \<longrightarrow> open_bucket k"
      using k(4) by (auto simp: ar')
    moreover have "ar_locks ar' = ar_locks ar" by (simp add: ar')
    ultimately show ?thesis using r by blast
  next
    case (Some k)
    have "bk_health k = Healthy" using Some assms(2) by (auto simp: usable_def find_bucket_def dest: find_Some_conv)
    moreover have f: "(\<lambda>k. with_range (insert_rows es k)) = filled es" by (simp add: filled_def [abs_def])
    ultimately have r: "r = Inr ()" and ar': "ar' = map_bucket n (filled es) ar"
      using assms(1) Some by (simp_all add: insertBatchIntoBucket_def)
    define g where "g = (\<lambda>k. if bk_name k = n then filled es k else k)"
    have b: "set (ar_buckets ar') = g ` set (ar_buckets ar)" by (simp add: ar' map_bucket_def g_def)
    have g: "bk_name (g k) = bk_name k" "bk_health (g k) = bk_health k" "open_bucket (g k) = open_bucket k"
      "ranged k \<Longrightarrow> ranged (g k)" "set (bk_events (g k)) \<subseteq> set (bk_events k) \<union> (if bk_name k = n then set es else {})" for k
      using fr filled_ranged [OF assms(3)] by (simp_all add: g_def)
    have "usable ar'" using assms(2) g(2,4) unfolding usable_def b by simp
    moreover have "rows_at ar' x \<subseteq> rows_at ar x \<union> (if x = n then set es else {})" for x
    proof
      fix e assume "e \<in> rows_at ar' x"
      then obtain k where k: "k \<in> set (ar_buckets ar)" "bk_name (g k) = x" "e \<in> set (bk_events (g k))"
        unfolding rows_at_def b by blast
      then have "e \<in> set (bk_events k) \<union> (if x = n then set es else {})" using g(5) [of k] g(1) by auto
      with k(1,2) g(1) show "e \<in> rows_at ar x \<union> (if x = n then set es else {})" by (auto simp: rows_at_def)
    qed
    moreover have "\<forall>k\<in>set (ar_buckets ar'). (\<forall>k0\<in>set (ar_buckets ar). bk_name k0 = bk_name k \<longrightarrow> open_bucket k0) \<longrightarrow> open_bucket k"
      unfolding b using g(1,3) by simp
    moreover have "ar_locks ar' = ar_locks ar" by (simp add: ar' map_bucket_def)
    ultimately show ?thesis using r by blast
  qed
  then show "r = Inr ()" "usable ar'" "ar_locks ar' = ar_locks ar"
    "rows_at ar' x \<subseteq> rows_at ar x \<union> (if x = n then set es else {})"
    "\<forall>k\<in>set (ar_buckets ar'). (\<forall>k0\<in>set (ar_buckets ar). bk_name k0 = bk_name k \<longrightarrow> open_bucket k0) \<longrightarrow> open_bucket k"
    by blast+
qed

text \<open>With usable buckets and no locks every group is written.\<close>

definition grouped :: "groups \<Rightarrow> string \<Rightarrow> event_row set" where
  "grouped gs n = {e. \<exists>es. (n, es) \<in> set gs \<and> e \<in> set es}"

lemma write_groups_at:
  "write_groups now gs ar = (r, ar') \<Longrightarrow> usable ar \<Longrightarrow> ar_locks ar = [] \<Longrightarrow> \<forall>(n, es)\<in>set gs. es \<noteq> [] \<Longrightarrow>
   usable ar' \<and> ar_locks ar' = [] \<and> (\<forall>x. rows_at ar' x \<subseteq> rows_at ar x \<union> grouped gs x) \<and>
   (\<forall>k\<in>set (ar_buckets ar'). (\<forall>k0\<in>set (ar_buckets ar). bk_name k0 = bk_name k \<longrightarrow> open_bucket k0) \<longrightarrow> open_bucket k) \<and>
   (\<exists>t s moved. r = Inr (t, s, moved) \<and> set moved = ev_id ` group_rows gs)"
proof (induction gs arbitrary: ar r ar')
  case Nil
  then show ?case by auto
next
  case (Cons g gs)
  obtain n es where g: "g = (n, es)" by (cases g)
  obtain r0 ar1 where i: "insertBatchIntoBucket now n es ar = (r0, ar1)" by fastforce
  have "es \<noteq> []" using Cons.prems(4) by (simp add: g)
  note b = insertBatch_at [OF i Cons.prems(2) this]
  obtain r1 ar2 where w: "write_groups now gs ar1 = (r1, ar2)" by fastforce
  have "usable ar2 \<and> ar_locks ar2 = [] \<and> (\<forall>x. rows_at ar2 x \<subseteq> rows_at ar1 x \<union> grouped gs x) \<and>
     (\<forall>k\<in>set (ar_buckets ar2). (\<forall>k0\<in>set (ar_buckets ar1). bk_name k0 = bk_name k \<longrightarrow> open_bucket k0) \<longrightarrow> open_bucket k) \<and>
     (\<exists>t s moved. r1 = Inr (t, s, moved) \<and> set moved = ev_id ` group_rows gs)"
    by (rule Cons.IH [OF w b(2)]) (use b(3) Cons.prems(3,4) in simp_all)
  then have ih: "usable ar2" "ar_locks ar2 = []" "\<And>x. rows_at ar2 x \<subseteq> rows_at ar1 x \<union> grouped gs x"
    "\<And>k. k \<in> set (ar_buckets ar2) \<Longrightarrow> (\<forall>k0\<in>set (ar_buckets ar1). bk_name k0 = bk_name k \<longrightarrow> open_bucket k0) \<Longrightarrow> open_bucket k"
    and "\<exists>t s moved. r1 = Inr (t, s, moved) \<and> set moved = ev_id ` group_rows gs" by blast+
  then obtain t s moved where r1: "r1 = Inr (t, s, moved)" "set moved = ev_id ` group_rows gs" by blast
  have r: "r = Inr (n # t, s, map ev_id es @ moved)" and ar': "ar' = ar2"
    using Cons.prems(1,3) i b(1) w r1(1) by (simp_all add: g)
  have rows: "rows_at ar2 x \<subseteq> rows_at ar x \<union> grouped (g # gs) x" for x
  proof -
    have "grouped (g # gs) x = (if x = n then set es else {}) \<union> grouped gs x" by (auto simp: grouped_def g)
    then show ?thesis using ih(3) [of x] b(4) [of x] by blast
  qed
  have opens: "open_bucket k" if "k \<in> set (ar_buckets ar2)" "\<forall>k0\<in>set (ar_buckets ar). bk_name k0 = bk_name k \<longrightarrow> open_bucket k0" for k
    by (rule ih(4) [OF that(1)]) (use b(5) that(2) in metis)
  have "set (map ev_id es @ moved) = ev_id ` group_rows (g # gs)" by (simp add: g r1(2) image_Un)
  then show ?case unfolding ar' r using ih(1,2) rows opens by blast
qed

section \<open>A batch moved\<close>

lemma batch_facts:
  assumes "tiered ttl b ar" and "groupByTargetBucket sz now mx cs [] [] ar = (Inr gs, ar1)"
    and "write_groups now gs ar1 = (r, ar2)" and "set cs \<subseteq> set (events b)"
  obtains cache where "only_sealed ar ar1" "placed cache gs ar1" "archive_wf ar1" "group_rows gs = set cs"
    "usable ar2" "ar_locks ar2 = []" "\<exists>t s moved. r = Inr (t, s, moved) \<and> set moved = ev_id ` set cs"
    "\<forall>e n. e \<in> rows_at ar2 n \<longrightarrow> e \<in> rows_at ar n \<or> e \<in> grouped gs n"
    "\<forall>e n. e \<in> grouped gs n \<longrightarrow> BUCKET_FILE_RE n \<and> name_month n = monthKey (ev_emitted_at e) \<and> e \<in> set cs \<and> (name_month n, n) \<in> set cache"
    "\<forall>k\<in>set (ar_buckets ar2). (\<forall>k0\<in>set (ar_buckets ar1). bk_name k0 = bk_name k \<longrightarrow> open_bucket k0) \<longrightarrow> open_bucket k"
proof -
  note t = tieredD [OF assms(1)]
  have "dated (ev_emitted_at e)" if "e \<in> set cs" for e using t(7) that assms(4) by (auto simp: clocked_def stored_def)
  then have pat: "\<forall>e\<in>set cs. month_pat (monthKey (ev_emitted_at e))" using dated_month_pat by blast
  have "placed [] [] ar" by (simp add: placed_def)
  with groupByTargetBucket_placed [OF assms(2) t(2,4) pat] obtain cache where
    os: "only_sealed ar ar1" and pl: "placed cache gs ar1" by blast
  note gr = groupByTargetBucket_rows [OF assms(2)]
  have rows: "group_rows gs = set cs" and w1: "archive_wf ar1" using gr t(2) by auto
  have names: "BUCKET_FILE_RE n \<and> name_month n = monthKey (ev_emitted_at e) \<and> e \<in> set cs \<and> (name_month n, n) \<in> set cache"
    if "e \<in> grouped gs n" for n e
    using that pl rows unfolding grouped_def placed_def group_rows_def by fastforce
  have ne: "\<forall>(n, es)\<in>set gs. es \<noteq> []" using pl unfolding placed_def by blast
  have u1: "usable ar1" "ar_locks ar1 = []" using os t(3,4) unfolding only_sealed_def by simp_all
  from write_groups_at [OF assms(3) u1 ne] have
    wr: "usable ar2" "ar_locks ar2 = []" "\<And>x. rows_at ar2 x \<subseteq> rows_at ar1 x \<union> grouped gs x"
      "\<forall>k\<in>set (ar_buckets ar2). (\<forall>k0\<in>set (ar_buckets ar1). bk_name k0 = bk_name k \<longrightarrow> open_bucket k0) \<longrightarrow> open_bucket k"
    and moved: "\<exists>t s moved. r = Inr (t, s, moved) \<and> set moved = ev_id ` group_rows gs"
    by blast+
  have at: "e \<in> rows_at ar n \<or> e \<in> grouped gs n" if "e \<in> rows_at ar2 n" for e n
    using wr(3) [of n] that os unfolding only_sealed_def by blast
  from moved have "\<exists>t s moved. r = Inr (t, s, moved) \<and> set moved = ev_id ` set cs" unfolding rows .
  from that [OF os pl w1 rows wr(1,2) this _ _ wr(4)] at names show ?thesis by blast
qed

lemma older_than_batch: "tiered ttl b ar \<Longrightarrow> set cs \<subseteq> set (events b) \<Longrightarrow> w \<in> rows_at ar n \<Longrightarrow> c \<in> set cs \<Longrightarrow> ev_id w < ev_id c"
  using tieredD(8) rows_at_warm [of w ar] by blast

lemma batch_rows:
  assumes "tiered ttl b ar" and "groupByTargetBucket sz now mx cs [] [] ar = (Inr gs, ar1)"
    and "write_groups now gs ar1 = (r, ar2)" and "set cs \<subseteq> set (events b)"
  shows "warm_rows ar2 = warm_rows ar \<union> set cs"
proof -
  note t = tieredD [OF assms(1)] and gw = groups_written [OF assms(2,3)]
  have "\<exists>t s moved. r = Inr (t, s, moved) \<and> set moved = ev_id ` set cs" by (rule batch_facts [OF assms])
  then obtain t' s' mv where mv: "r = Inr (t', s', mv)" "set mv = ev_id ` set cs" by blast
  have "c \<in> warm_rows ar2" if c: "c \<in> set cs" for c
  proof -
    have "ev_id c \<in> warm_ids ar2" using gw(3) [OF mv(1)] mv(2) c by blast
    then obtain w where w: "w \<in> warm_rows ar2" "ev_id w = ev_id c" by (auto simp: warm_ids_def)
    then consider "w \<in> warm_rows ar" | "w \<in> set cs" using gw(2) by blast
    then show ?thesis
    proof cases
      case 1
      then have "ev_id w < ev_id c" using t(8) c assms(4) by blast
      with w(2) show ?thesis by simp
    next
      case 2
      have "w = c" by (rule strict_key_inj [of ev_id "events b"]) (use t(1) 2 c assms(4) w(2) in \<open>auto simp: events_wf_def\<close>)
      with w(1) show ?thesis by simp
    qed
  qed
  then show ?thesis using gw(1,2) by blast
qed

lemma month_order:
  assumes "tiered ttl b ar" and "x \<in> stored b ar" and "y \<in> stored b ar" and "ev_id x \<le> ev_id y"
  shows "monthKey (ev_emitted_at x) \<le> monthKey (ev_emitted_at y)"
  using assms tieredD(7) [OF assms(1)] by (intro monthKey_mono) (auto simp: clocked_def)

lemma batch_by_name:
  assumes "tiered ttl b ar" and "groupByTargetBucket sz now mx cs [] [] ar = (Inr gs, ar1)"
    and "write_groups now gs ar1 = (r, ar2)" and "set cs \<subseteq> set (events b)"
  shows "by_name ar2"
  unfolding by_name_def
proof (intro allI impI ballI)
  fix n n' e e' assume n: "n < n'" and e: "e \<in> rows_at ar2 n" "e' \<in> rows_at ar2 n'"
  note t = tieredD [OF assms(1)] and older = older_than_batch [OF assms(1,4)]
  obtain cache where os: "only_sealed ar ar1" and pl: "placed cache gs ar1" and w1: "archive_wf ar1"
    and rows: "group_rows gs = set cs" and u: "usable ar2" "ar_locks ar2 = []"
    and moved: "\<exists>t s moved. r = Inr (t, s, moved) \<and> set moved = ev_id ` set cs"
    and at: "\<forall>e n. e \<in> rows_at ar2 n \<longrightarrow> e \<in> rows_at ar n \<or> e \<in> grouped gs n"
    and names: "\<forall>e n. e \<in> grouped gs n \<longrightarrow> BUCKET_FILE_RE n \<and> name_month n = monthKey (ev_emitted_at e) \<and> e \<in> set cs \<and> (name_month n, n) \<in> set cache"
    and opens: "\<forall>k\<in>set (ar_buckets ar2). (\<forall>k0\<in>set (ar_buckets ar1). bk_name k0 = bk_name k \<longrightarrow> open_bucket k0) \<longrightarrow> open_bucket k"
    by (rule batch_facts [OF assms]) blast
  note at = at [rule_format] and names = names [rule_format]
  have RE: "BUCKET_FILE_RE n" if "e \<in> rows_at ar n" for n e using that t(2) by (auto simp: rows_at_def archive_wf_def)
  have st: "e \<in> stored b ar" "e' \<in> stored b ar"
    using at [OF e(1)] at [OF e(2)] names assms(4) rows_at_warm [of _ ar] unfolding stored_def by blast+
  from at [OF e(1)] at [OF e(2)] consider
      (old) "e \<in> rows_at ar n" "e' \<in> rows_at ar n'" | (mixed) "e \<in> rows_at ar n" "e' \<in> grouped gs n'"
    | (late) "e \<in> grouped gs n" "e' \<in> rows_at ar n'" | (new) "e \<in> grouped gs n" "e' \<in> grouped gs n'" by blast
  then show "ev_id e < ev_id e'"
  proof cases
    case old
    then show ?thesis using t(6) n unfolding by_name_def by blast
  next
    case mixed
    then show ?thesis using older names [OF mixed(2)] by blast
  next
    case late
    note nm = names [OF late(1)]
    have "ev_id e' < ev_id e" using older late(2) nm by blast
    then have "monthKey (ev_emitted_at e') \<le> monthKey (ev_emitted_at e)" by (intro month_order [OF assms(1) st(2,1)]) simp
    moreover have "name_month n' = monthKey (ev_emitted_at e')" using t(5) late(2) unfolding filed_def by blast
    moreover have "name_month n \<le> name_month n'" by (rule name_order_month) (use nm RE [OF late(2)] n in simp_all)
    ultimately have m: "name_month n' = name_month n" using nm by simp
    obtain k where "k \<in> set (ar_buckets ar)" "bk_name k = n'" using late(2) unfolding rows_at_def by blast
    then have "n' \<in> bk_name ` set (ar_buckets ar1)" using os unfolding only_sealed_def by blast
    then obtain k1 where "k1 \<in> set (ar_buckets ar1)" "bk_name k1 = n'" by blast
    then have "n' \<le> n" using pl nm m unfolding placed_def by blast
    with n show ?thesis by simp
  next
    case new
    note nm = names [OF new(1)] names [OF new(2)]
    have "name_month n \<noteq> name_month n'"
    proof
      assume eq: "name_month n = name_month n'"
      have "distinct (map fst cache)" using pl by (simp add: placed_def)
      then have "n = n'" using nm eq by (metis eq_key_imp_eq_value)
      with n show False by simp
    qed
    moreover have "name_month n \<le> name_month n'" by (rule name_order_month) (use nm n in simp_all)
    ultimately have "\<not> monthKey (ev_emitted_at e') \<le> monthKey (ev_emitted_at e)" using nm by simp
    then show ?thesis using month_order [OF assms(1) st(2,1)] by (meson leI)
  qed
qed

lemma moved_batch:
  assumes "tiered ttl b ar" and "groupByTargetBucket sz now mx cs [] [] ar = (Inr gs, ar1)"
    and "write_groups now gs ar1 = (r, ar2)" and "set cs \<subseteq> set (events b)"
  shows "usable ar2" and "ar_locks ar2 = []" and "filed ar2" and "archive_wf ar2"
    and "\<exists>t s moved. r = Inr (t, s, moved) \<and> set moved = ev_id ` set cs"
    and "cs \<noteq> [] \<Longrightarrow> \<exists>k\<in>set (ar_buckets ar2). open_bucket k \<and> bk_events k \<noteq> []"
proof -
  note t = tieredD [OF assms(1)]
  obtain cache where os: "only_sealed ar ar1" and pl: "placed cache gs ar1" and w1: "archive_wf ar1"
    and rows: "group_rows gs = set cs" and u: "usable ar2" "ar_locks ar2 = []"
    and moved: "\<exists>t s moved. r = Inr (t, s, moved) \<and> set moved = ev_id ` set cs"
    and at: "\<forall>e n. e \<in> rows_at ar2 n \<longrightarrow> e \<in> rows_at ar n \<or> e \<in> grouped gs n"
    and names: "\<forall>e n. e \<in> grouped gs n \<longrightarrow> BUCKET_FILE_RE n \<and> name_month n = monthKey (ev_emitted_at e) \<and> e \<in> set cs \<and> (name_month n, n) \<in> set cache"
    and opens: "\<forall>k\<in>set (ar_buckets ar2). (\<forall>k0\<in>set (ar_buckets ar1). bk_name k0 = bk_name k \<longrightarrow> open_bucket k0) \<longrightarrow> open_bucket k"
    by (rule batch_facts [OF assms]) blast
  note at = at [rule_format] and names = names [rule_format]
  show "usable ar2" "ar_locks ar2 = []" "\<exists>t s moved. r = Inr (t, s, moved) \<and> set moved = ev_id ` set cs" by (fact u moved)+
  show "filed ar2" unfolding filed_def
  proof (intro allI ballI)
    fix n e assume "e \<in> rows_at ar2 n"
    from at [OF this] show "name_month n = monthKey (ev_emitted_at e)" using t(5) names unfolding filed_def by blast
  qed
  show "archive_wf ar2"
  proof (rule write_groups_wf [OF assms(3) w1])
    show "names_ok gs" using pl unfolding names_ok_def placed_def by fastforce
    show "\<forall>e\<in>group_rows gs. ev_id e \<le> MAX_SAFE_INTEGER"
      unfolding rows using assms(4) t(7) unfolding clocked_def stored_def by blast
  qed
  show "\<exists>k\<in>set (ar_buckets ar2). open_bucket k \<and> bk_events k \<noteq> []" if ne: "cs \<noteq> []"
  proof -
    have c: "hd cs \<in> set cs" using ne by simp
    then have "hd cs \<in> warm_rows ar2" using batch_rows [OF assms] by blast
    then obtain n where n: "hd cs \<in> rows_at ar2 n" unfolding rows_at_warm ..
    then obtain k where k: "k \<in> set (ar_buckets ar2)" "bk_name k = n" "hd cs \<in> set (bk_events k)" unfolding rows_at_def by blast
    have "hd cs \<in> grouped gs n" using at [OF n] older_than_batch [OF assms(1,4) _ c] by blast
    then have "(name_month n, n) \<in> set cache" using names by blast
    then have "\<forall>k0\<in>set (ar_buckets ar1). bk_name k0 = n \<longrightarrow> open_bucket k0" using pl unfolding placed_def by blast
    then have "open_bucket k" using opens k(1,2) by blast
    then show ?thesis using k(1,3) by (metis empty_iff empty_set)
  qed
qed

section \<open>The sweep\<close>

text \<open>The batch is the oldest part of the live table: with one time to live for all, the rows expire in order.\<close>

lemma expired_mono:
  assumes "tiered ttl b ar" and "x \<in> set (events b)" and "y \<in> set (events b)" and "ev_id x \<le> ev_id y" and "expired now y"
  shows "expired now x"
proof -
  have "ev_emitted_at x \<le> ev_emitted_at y" using tieredD(7) [OF assms(1)] assms(2-4) by (auto simp: clocked_def stored_def)
  moreover have "num_lt (num_shift (ev_emitted_at y) ttl) (Fin now)" using assms(5) tieredD(9) [OF assms(1)] assms(3) by (simp add: expired_def)
  ultimately have "num_lt (num_shift (ev_emitted_at x) ttl) (Fin now)" by (cases ttl) (auto simp: num_shift_def)
  then show ?thesis using tieredD(9) [OF assms(1)] assms(2) by (simp add: expired_def)
qed

lemma candidates_oldest:
  assumes "tiered ttl b ar" and "0 \<le> n" and "c \<in> set (sweep_candidates b now n [])" and "e \<in> set (events b)"
    and "e \<notin> set (sweep_candidates b now n [])"
  shows "ev_id c < ev_id e"
proof -
  let ?xs = "filter (expired now) (events b)"
  note wf = tieredD(1) [OF assms(1)]
  have cs: "sweep_candidates b now n [] = take (nat n) ?xs" using sweep_candidates_eq [OF wf assms(2), of now "[]"] by simp
  have c: "c \<in> set (take (nat n) ?xs)" using assms(3) cs by simp
  then have cx: "c \<in> set ?xs" by (rule in_set_takeD)
  show ?thesis
  proof (cases "expired now e")
    case False
    then have "\<not> ev_id e \<le> ev_id c" using expired_mono [OF assms(1,4), of c now] cx by auto
    then show ?thesis by simp
  next
    case True
    then have "e \<in> set (take (nat n) ?xs @ drop (nat n) ?xs)" using assms(4) by simp
    then have "e \<in> set (drop (nat n) ?xs)" using assms(5) unfolding cs set_append by blast
    moreover have "sorted_wrt (<) (map ev_id ?xs)" using wf by (intro map_filter_strict) (simp add: events_wf_def)
    then have "sorted_wrt (<) (map ev_id (take (nat n) ?xs) @ map ev_id (drop (nat n) ?xs))"
      by (metis append_take_drop_id map_append)
    ultimately show ?thesis using c by (auto simp: sorted_wrt_append)
  qed
qed

lemma delete_all:
  assumes "policy \<noteq> Discard" and "held_ids policy (owedPairsWithCap b now days) = []"
  shows "snd (deleteFromLive b moved (if policy = Retain then Some (now, days) else None)) = delete_ids moved b"
proof (cases "policy = Retain")
  case True
  then have "filter (\<lambda>p. \<not> ow_over_cap p) (owedPairsWithCap b now days) = []"
    using assms(2) by (simp add: held_ids_def)
  then have none: "{p \<in> set (owedPairsWithCap b now days). ow_event p \<in> set moved \<and> \<not> ow_over_cap p} = {}"
    by (auto simp: filter_empty_conv)
  show ?thesis by (simp add: deleteFromLive_def Let_def True none)
next
  case False
  then show ?thesis by (simp add: deleteFromLive_def)
qed

lemma tiered_after:
  assumes "tiered ttl b ar" and "set cs \<subseteq> set (events b)" and "warm_rows ar2 = warm_rows ar \<union> set cs"
    and "usable ar2" and "ar_locks ar2 = []" and "filed ar2" and "by_name ar2" and "archive_wf ar2"
    and oldest: "\<And>c e. c \<in> set cs \<Longrightarrow> e \<in> set (events b) \<Longrightarrow> e \<notin> set cs \<Longrightarrow> ev_id c < ev_id e"
    and "set moved = ev_id ` set cs"
  shows "tiered ttl (delete_ids moved b) ar2" and "stored (delete_ids moved b) ar2 = stored b ar"
proof -
  note t = tieredD [OF assms(1)]
  have live: "set (events (delete_ids moved b)) = set (events b) - set cs"
  proof -
    have "ev_id e \<in> set moved \<longleftrightarrow> e \<in> set cs" if "e \<in> set (events b)" for e
    proof
      assume "ev_id e \<in> set moved"
      then obtain c where c: "c \<in> set cs" "ev_id c = ev_id e" using assms(10) by auto
      have "c = e" by (rule strict_key_inj [of ev_id "events b"]) (use t(1) c assms(2) that in \<open>auto simp: events_wf_def\<close>)
      then show "e \<in> set cs" using c(1) by simp
    qed (use assms(10) in blast)
    then show ?thesis by auto
  qed
  show st: "stored (delete_ids moved b) ar2 = stored b ar" using assms(2,3) unfolding stored_def live by blast
  have "events_wf (delete_ids moved b)"
    by (rule events_wf_filter [OF t(1), of _ "\<lambda>e. ev_id e \<notin> set moved"]) (simp_all add: delete_ids_def)
  moreover have "ev_id w < ev_id e" if "e \<in> set (events b) - set cs" "w \<in> warm_rows ar \<union> set cs" for e w
    using that t(8) oldest by blast
  ultimately show "tiered ttl (delete_ids moved b) ar2"
    unfolding tiered_def st live assms(3) using assms(4-8) t(7,9) by simp
qed

lemma tiered_only_sealed:
  assumes "tiered ttl b ar" and "only_sealed ar ar1" and "archive_wf ar1"
  shows "tiered ttl b ar1" and "stored b ar1 = stored b ar"
proof -
  have at: "rows_at ar1 n = rows_at ar n" for n using assms(2) by (simp add: only_sealed_def)
  then have w: "warm_rows ar1 = warm_rows ar" by (auto simp: rows_at_warm)
  then show st: "stored b ar1 = stored b ar" by (simp add: stored_def)
  show "tiered ttl b ar1" using tieredD [OF assms(1)] assms(2,3)
    unfolding tiered_def st w by (simp add: filed_def by_name_def at only_sealed_def)
qed

lemma sweep2_move_tiered:
  assumes "tiered ttl b ar" and "sweep2_move cfg env now policy days pairs cs b ar = (r, b', ar')"
    and "set cs \<subseteq> set (events b)" and "cs \<noteq> []" and "sv_between env b = b"
    and "policy \<noteq> Discard" and "held_ids policy (owedPairsWithCap b now days) = []"
    and oldest: "\<And>c e. c \<in> set cs \<Longrightarrow> e \<in> set (events b) \<Longrightarrow> e \<notin> set cs \<Longrightarrow> ev_id c < ev_id e"
  shows "tiered ttl b' ar' \<and> stored b' ar' = stored b ar \<and> (\<exists>ids. b' = delete_ids ids b) \<and>
    (b' = b \<or> (\<exists>k\<in>set (ar_buckets ar'). open_bucket k \<and> bk_events k \<noteq> []))"
proof -
  let ?mx = "case s2_bucket_max_bytes cfg of Some n \<Rightarrow> n | None \<Rightarrow> 10737418240"
  note t = tieredD [OF assms(1)]
  obtain r1 ar1 where g: "groupByTargetBucket (sv_size env) now ?mx cs [] [] ar = (r1, ar1)" by fastforce
  show ?thesis
  proof (cases r1)
    case (Inl err)
    have "dated (ev_emitted_at e)" if "e \<in> set cs" for e using t(7) that assms(3) by (auto simp: clocked_def stored_def)
    then have "\<forall>e\<in>set cs. month_pat (monthKey (ev_emitted_at e))" using dated_month_pat by blast
    from groupByTargetBucket_placed [OF g t(2,4) this] have "only_sealed ar ar1" by (simp add: placed_def)
    moreover have "archive_wf ar1" using groupByTargetBucket_rows [OF g] t(2) by blast
    ultimately have "tiered ttl b ar1 \<and> stored b ar1 = stored b ar" using tiered_only_sealed [OF assms(1)] by blast
    moreover have "b' = b" "ar' = ar1" using assms(2) g Inl by (simp_all add: sweep2_move_def)
    ultimately show ?thesis using delete_none [of b] by metis
  next
    case (Inr gs)
    obtain r2 ar2 where w: "write_groups now gs ar1 = (r2, ar2)" by fastforce
    note mb = moved_batch [OF assms(1) g [unfolded Inr] w assms(3)]
    from mb(5) obtain t' s mv where mv: "r2 = Inr (t', s, mv)" "set mv = ev_id ` set cs" by blast
    have ar': "ar' = ar2" and b': "b' = (if mv \<noteq> [] then snd (deleteFromLive b mv (if policy = Retain then Some (now, days) else None)) else b)"
      using assms(2,5) g Inr w mv(1) by (auto simp: sweep2_move_def Let_def split: prod.splits)
    have "mv \<noteq> []" using mv(2) assms(4) by auto
    then have b': "b' = delete_ids mv b" using b' delete_all [OF assms(6,7)] by simp
    from tiered_after [OF assms(1,3) batch_rows [OF assms(1) g [unfolded Inr] w assms(3)] mb(1,2,3)
        batch_by_name [OF assms(1) g [unfolded Inr] w assms(3)] mb(4) oldest mv(2)]
    show ?thesis using mb(6) assms(4) unfolding b' ar' by blast
  qed
qed

lemma runSweepV2_tiered:
  assumes "tiered ttl b ar" and "runSweepV2 cfg env now b ar = (r, b', ar')"
    and "resolveUnackedPolicy (sc_unacked_policy cfg) = Inr policy" and "policy \<noteq> Discard"
    and "resolveRetentionCapDays (sc_unacked_retention_days cfg) = Inr days"
    and "held_ids policy (owedPairsWithCap b now days) = []" and "sv_between env b = b"
    and "case s2_batch_size cfg of Some n \<Rightarrow> 0 \<le> n | None \<Rightarrow> True"
  shows "tiered ttl b' ar' \<and> stored b' ar' = stored b ar \<and> (\<exists>ids. b' = delete_ids ids b) \<and>
    (b' = b \<or> (\<exists>k\<in>set (ar_buckets ar'). open_bucket k \<and> bk_events k \<noteq> []))"
proof -
  define n where "n = (case s2_batch_size cfg of Some n \<Rightarrow> n | None \<Rightarrow> 5000)"
  define cs where "cs = sweep_candidates b now n []"
  have n: "0 \<le> n" using assms(8) by (simp add: n_def split: option.splits)
  have sub: "set cs \<subseteq> set (events b)" using sweep_candidates_sub unfolding cs_def by blast
  show ?thesis
  proof (cases "cs = []")
    case True
    then have "b' = b" "ar' = ar" using assms(2-6) by (auto simp: runSweepV2_def Let_def cs_def n_def)
    then show ?thesis using assms(1) delete_none [of b] by metis
  next
    case False
    then have "sweep2_move cfg env now policy days (owedPairsWithCap b now days) cs b ar = (r, b', ar')"
      using assms(2-6) by (auto simp: runSweepV2_def Let_def cs_def n_def)
    from sweep2_move_tiered [OF assms(1) this sub False assms(7,4,6)] candidates_oldest [OF assms(1) n]
    show ?thesis unfolding cs_def by blast
  qed
qed

section \<open>Reading after a sweep\<close>

lemma merged_stored: "merged_ids b ar flt p = ev_id ` {e \<in> stored b ar. matching p flt e}"
  by (simp add: merged_ids_def stored_def)

lemma open_bucket_covers:
  assumes "tiered ttl b ar" and "k \<in> set (ar_buckets ar)" and "open_bucket k" and "bk_events k \<noteq> []"
    and "\<And>w. w \<in> warm_rows ar \<Longrightarrow> ev_id w \<le> gapEnd" and "p \<le> MAX_SAFE_INTEGER"
  shows "bucketsCoveringRange ar p gapEnd \<noteq> []"
proof -
  note t = tieredD [OF assms(1)]
  have k: "bucket_wf k" "BUCKET_FILE_RE (bk_name k)" "bk_health k = Healthy"
    using assms(2) t(2,4) by (simp_all add: archive_wf_def usable_def)
  let ?e = "hd (bk_events k)"
  have e: "?e \<in> set (bk_events k)" using assms(4) by simp
  then obtain m where m: "bm_min (bk_meta k) = Some m" "m \<le> ev_id ?e" using k(1) unfolding bucket_wf_def by blast
  have "ev_id ?e \<le> gapEnd" by (rule assms(5)) (use e assms(2) in \<open>auto simp: warm_rows_def\<close>)
  then have "covers p gapEnd k" using k(3) m assms(3,6) by (simp add: covers_def getBucketMeta_def open_bucket_def)
  moreover have "k \<in> set (listBuckets ar)" using set_listBuckets_wf [OF t(2)] assms(2) by simp
  ultimately have "map cv_name (bucketsCoveringRange ar p gapEnd) \<noteq> []"
    unfolding bucketsCoveringRange_def covering_filter by (auto simp: filter_empty_conv)
  then show ?thesis by simp
qed

text \<open>Once a sweep has moved something, the resolver always answers.\<close>

lemma resolver_answers:
  assumes "tiered ttl b ar" and "length (ar_buckets ar) \<le> ATTACH_CEILING"
    and "\<exists>k\<in>set (ar_buckets ar). open_bucket k \<and> bk_events k \<noteq> []" and "0 \<le> p" and "p \<le> MAX_SAFE_INTEGER" and "0 \<le> n"
  shows "\<exists>rs. pollResolve b ar (jint p) flt (Some n) = Inr rs \<and>
    map ev_id rs = take (nat n) (sorted_list_of_set (merged_ids b ar flt p))"
proof (cases "pollResolve b ar (jint p) flt (Some n)")
  case (Inr rs)
  from pollResolve_complete [OF tieredD(1) [OF assms(1)] tiered_resolvable [OF assms(1,2)] assms(4,6), of flt] Inr
  show ?thesis by simp
next
  case (Inl e)
  note t = tieredD [OF assms(1)]
  from assms(4) show ?thesis
  proof (cases rule: pollResolve_cases [where b = b and flt = flt and ar = ar and n = n])
    case (fast m)
    with Inl show ?thesis by simp
  next
    case (slow gapEnd)
    have "ev_id w \<le> gapEnd" if w: "w \<in> warm_rows ar" for w
    proof (cases "probeLiveMin b flt")
      case None
      then show ?thesis using slow(1) w t(7) by (simp add: clocked_def stored_def)
    next
      case (Some m)
      then obtain e where "e \<in> set (events b)" "ev_id e = m"
        unfolding probeLiveMin_def using list_min_Some by fastforce
      then have "ev_id w < m" using t(8) w by blast
      then show ?thesis using slow(1) Some by simp
    qed
    then have "bucketsCoveringRange ar p gapEnd \<noteq> []" using open_bucket_covers [OF assms(1) _ _ _ _ assms(5)] assms(3) by blast
    then show ?thesis using slow(2) spilled_names [OF tiered_resolvable(1) [OF assms(1,2)], of p flt n gapEnd] assms(6) Inl by simp
  qed
qed

text \<open>Ids are unique across the tiers.\<close>

lemma stored_inj:
  assumes "tiered ttl b ar" and "x \<in> stored b ar" and "y \<in> stored b ar" and "ev_id x = ev_id y"
  shows "x = y"
proof -
  note t = tieredD [OF assms(1)]
  from assms(2,3) consider (live) "x \<in> set (events b)" "y \<in> set (events b)" | (warm) "x \<in> warm_rows ar" "y \<in> warm_rows ar"
    | (apart) "ev_id x \<noteq> ev_id y" using t(8) unfolding stored_def by fastforce
  then show ?thesis
  proof cases
    case live
    show ?thesis by (rule strict_key_inj [of ev_id "events b"]) (use t(1) live assms(4) in \<open>auto simp: events_wf_def\<close>)
  next
    case warm
    then obtain n n' where at: "x \<in> rows_at ar n" "y \<in> rows_at ar n'" unfolding rows_at_warm by blast
    have n: "n = n'"
    proof (rule ccontr)
      assume "n \<noteq> n'"
      then show False using at t(6) assms(4) unfolding by_name_def by (metis less_irrefl less_linear)
    qed
    obtain k k' where k: "k \<in> set (ar_buckets ar)" "bk_name k = n" "x \<in> set (bk_events k)"
      and k': "k' \<in> set (ar_buckets ar)" "bk_name k' = n'" "y \<in> set (bk_events k')" using at unfolding rows_at_def by blast
    have "k = k'" using t(2) k(1,2) k'(1,2) n unfolding archive_wf_def distinct_map by (auto dest: inj_onD)
    moreover have "bucket_wf k" using t(2) k(1) by (simp add: archive_wf_def)
    then have "sorted_wrt (<) (map ev_id (bk_events k))" by (simp add: bucket_wf_def)
    ultimately show ?thesis using strict_key_inj [of ev_id "bk_events k" x y] k(3) k'(3) assms(4) by simp
  next
    case apart
    with assms(4) show ?thesis by simp
  qed
qed

lemma resolved_rows:
  assumes "events_wf b" and "0 \<le> p" and "0 \<le> n" and "pollResolve b ar (jint p) flt (Some n) = Inr rs"
  shows "set rs \<subseteq> stored b ar"
  using poll_resolve_sound [OF assms(1-3), where ar = ar and flt = flt] assms(4) by (auto simp: stored_def)

lemma same_ids_same_rows:
  assumes "tiered ttl b ar" and "map ev_id xs = map ev_id ys" and "set xs \<subseteq> stored b ar" and "set ys \<subseteq> stored b ar"
  shows "xs = ys"
proof (rule map_inj_on [OF assms(2)])
  have "inj_on ev_id (stored b ar)" by (rule inj_onI) (rule stored_inj [OF assms(1)])
  then show "inj_on ev_id (set xs \<union> set ys)" by (rule inj_on_subset) (use assms(3,4) in blast)
qed

section \<open>Property\<close>

text \<open>C16: A tiered sweep does not show to a reader of both tiers. On a bus whose tiers are in order and whose
  events have one time to live, a sweep under a policy other than \<open>discard\<close> that holds no owed event back
  and during which no other connection commits leaves the tiers in order and every row in one of them; and
  with at most 123 buckets before and after it (what one connection can attach), for every position, filter and batch size the resolver returns afterwards
  the rows it returned before; and once the sweep has moved anything it never answers \<open>WB-003\<close>, but
  with the first batch of the matching rows of both tiers.\<close>

theorem tiered_sweep_is_invisible:
  assumes "tiered ttl b ar" and "runSweepV2 cfg env now b ar = (r, b', ar')"
    and "resolveUnackedPolicy (sc_unacked_policy cfg) = Inr policy" and "policy \<noteq> Discard"
    and "resolveRetentionCapDays (sc_unacked_retention_days cfg) = Inr days"
    and "held_ids policy (owedPairsWithCap b now days) = []" and "sv_between env b = b"
    and "case s2_batch_size cfg of Some n \<Rightarrow> 0 \<le> n | None \<Rightarrow> True"
    and "length (ar_buckets ar) \<le> ATTACH_CEILING" and "length (ar_buckets ar') \<le> ATTACH_CEILING"
    and "0 \<le> p" and "p \<le> MAX_SAFE_INTEGER" and "0 \<le> n"
  shows "tiered ttl b' ar' \<and> stored b' ar' = stored b ar \<and>
     (\<forall>rs rs'. pollResolve b ar (jint p) flt (Some n) = Inr rs \<and> pollResolve b' ar' (jint p) flt (Some n) = Inr rs' \<longrightarrow> rs' = rs) \<and>
     (b' \<noteq> b \<longrightarrow> (\<exists>rs. pollResolve b' ar' (jint p) flt (Some n) = Inr rs \<and>
        map ev_id rs = take (nat n) (sorted_list_of_set (merged_ids b ar flt p))))"
proof -
  from runSweepV2_tiered [OF assms(1-8)] have t': "tiered ttl b' ar'" and st: "stored b' ar' = stored b ar"
    and op: "b' \<noteq> b \<Longrightarrow> \<exists>k\<in>set (ar_buckets ar'). open_bucket k \<and> bk_events k \<noteq> []" by blast+
  have m: "merged_ids b' ar' flt p = merged_ids b ar flt p" by (simp add: merged_stored st)
  note wf = tieredD(1) [OF assms(1)] tieredD(1) [OF t']
  have "rs' = rs" if "pollResolve b ar (jint p) flt (Some n) = Inr rs" "pollResolve b' ar' (jint p) flt (Some n) = Inr rs'" for rs rs'
  proof (rule same_ids_same_rows [OF assms(1)])
    show "set rs \<subseteq> stored b ar" by (rule resolved_rows [OF wf(1) assms(11,13) that(1)])
    show "set rs' \<subseteq> stored b ar" using resolved_rows [OF wf(2) assms(11,13) that(2)] st by simp
    show "map ev_id rs' = map ev_id rs"
      using pollResolve_complete [OF wf(1) tiered_resolvable [OF assms(1,9)] assms(11,13), of flt]
        pollResolve_complete [OF wf(2) tiered_resolvable [OF t' assms(10)] assms(11,13), of flt] that m by simp
  qed
  then show ?thesis using t' st resolver_answers [OF t' assms(10) op assms(11-13)] m by metis
qed

lemma demo_tiered: "tiered (Fin 10) (demo_bus [4, 5] 5) no_archive"
proof -
  have "events_wf (demo_bus [4, 5] 5)" by (rule bus_wfD, rule demo_bus_wf) auto
  moreover have "ev_expires_at (demo_row i t) = num_shift (ev_emitted_at (demo_row i t)) (Fin 10)" for i t
    by (simp add: demo_row_def num_shift_def)
  moreover have "clocked (stored (demo_bus [4, 5] 5) no_archive)"
    by (auto simp: clocked_def stored_def warm_rows_def no_archive_def demo_row_def dated_def MAX_SAFE_INTEGER_def)
  ultimately show ?thesis
    by (auto simp: tiered_def archive_wf_def no_archive_def usable_def filed_def by_name_def rows_at_def warm_rows_def)
qed

lemma tiered_sweep_is_invisible_witness:
  "\<exists>r b' ar' rs. runSweepV2 (demo_sweep2 JUndef) quiet_env 11 (demo_bus [4, 5] 5) no_archive = (r, b', ar') \<and>
     events b' = [] \<and> pollResolve b' ar' (jint 3) None (Some 1) = Inr rs \<and> map ev_id rs = [4]"
proof -
  let ?s = "runSweepV2 (demo_sweep2 JUndef) quiet_env 11 (demo_bus [4, 5] 5) no_archive"
  obtain r b' ar' where s: "?s = (r, b', ar')" using prod_cases3 by blast
  have "case ?s of (r, b', ar') \<Rightarrow> events b' = [] \<and> length (ar_buckets ar') = 1" by code_simp
  then have e: "events b' = []" "length (ar_buckets ar') = 1" by (simp_all add: s)
  have h: "held_ids Retain (owedPairsWithCap (demo_bus [4, 5] 5) 11 30) = []" by code_simp
  have o: "(case s2_batch_size (demo_sweep2 JUndef) of Some n \<Rightarrow> 0 \<le> n | None \<Rightarrow> True)" by (simp add: demo_sweep2_def)
  have l: "length (ar_buckets no_archive) \<le> ATTACH_CEILING" "length (ar_buckets ar') \<le> ATTACH_CEILING"
    using e(2) by (simp_all add: no_archive_def ATTACH_CEILING_def)
  have p: "(0 :: int) \<le> 3" "3 \<le> MAX_SAFE_INTEGER" "(0 :: int) \<le> 1" by (simp_all add: MAX_SAFE_INTEGER_def)
  have "b' \<noteq> demo_bus [4, 5] 5" using e(1) by (auto simp: demo_bus_def)
  with tiered_sweep_is_invisible [OF demo_tiered s demo_sweep2_policy(1) _ demo_sweep2_policy(2) h demo_between o l p, of None]
  obtain rs where rs: "pollResolve b' ar' (jint 3) None (Some 1) = Inr rs"
    "map ev_id rs = take 1 (sorted_list_of_set (merged_ids (demo_bus [4, 5] 5) no_archive None 3))" by auto
  have "merged_ids (demo_bus [4, 5] 5) no_archive None 3 = {4, 5}"
    by (force simp: merged_ids_def warm_rows_def no_archive_def matching_def whereClause_def image_iff)
  then have "map ev_id rs = [4]" using rs(2) by simp
  with rs(1) s e(1) show ?thesis by (intro exI conjI)
qed

section \<open>Several lifetimes\<close>

text \<open>
  One time to live is needed. \<open>emit()\<close> lets an event carry its own \<open>ttl_hours\<close>; here event 4 lives longer
  than event 5. The sweep moves 5 and leaves 4 live, and the resolver's fast path then skips 5.
\<close>

definition mixed_bus :: bus where
  "mixed_bus = (demo_bus [] 9)\<lparr>events := [(demo_row 4 ''wicked.a'')\<lparr>ev_expires_at := Fin 1000\<rparr>, demo_row 5 ''wicked.a'']\<rparr>"

lemma mixed_lifetimes_hide_events:
  "case runSweepV2 (demo_sweep2 JUndef) quiet_env 11 mixed_bus no_archive of (r, b', ar') \<Rightarrow>
     (case pollResolve b' ar' (jint 4) None (Some 10) of Inl e \<Rightarrow> False | Inr rs \<Rightarrow> rs = []) \<and>
     map ev_id (concat (map bk_events (ar_buckets ar'))) = [5]"
  by code_simp

end
