(* ===== verification/BusCas.thy ===== *)
theory BusCas
  imports BusArchive
begin

text \<open>
  The content-addressable store, \<open>lib/cas.js\<close>, and the atomic rename of \<open>lib/atomic.js\<close> it
  places objects with. The directory tree below \<open>cas/\<close> is the association list from (shard
  directory, file name) to contents and modification time. File system failures are arguments.
  Proved: stored content is read back with its digest, a failed write leaves no object behind, the
  garbage collector never removes content that the live table, the in-database archive, the
  dead-letter queue or a warm bucket references, and it removes nothing when a bucket cannot be
  read. The race between \<open>put\<close> of an old orphan and the collector is stated too.
\<close>

section \<open>Files\<close>

record cas_object =
  co_bytes :: string
  co_mtime :: rat

type_synonym cas_path = "string \<times> string"
type_synonym cas_files = "(cas_path \<times> cas_object) list"

definition fs_write :: "cas_path \<Rightarrow> cas_object \<Rightarrow> cas_files \<Rightarrow> cas_files" where
  "fs_write p v fs = AList.update p v fs"

definition fs_unlink :: "cas_path \<Rightarrow> cas_files \<Rightarrow> cas_files" where
  "fs_unlink p fs = filter (\<lambda>x. fst x \<noteq> p) fs"

definition fs_rename :: "cas_path \<Rightarrow> cas_path \<Rightarrow> cas_files \<Rightarrow> cas_files" where
  "fs_rename tmp target fs =
     (case map_of fs tmp of None \<Rightarrow> fs | Some v \<Rightarrow> fs_write target v (fs_unlink tmp fs))"

lemma map_of_write [simp]: "map_of (fs_write p v fs) = (map_of fs)(p \<mapsto> v)"
  by (simp add: fs_write_def update_conv')

lemma map_of_unlink [simp]: "map_of (fs_unlink p fs) = (map_of fs)(p := None)"
proof (induction fs)
  case Nil
  then show ?case by (simp add: fs_unlink_def)
next
  case (Cons x fs)
  then show ?case by (cases x) (auto simp: fs_unlink_def fun_eq_iff)
qed

lemma map_of_rename:
  "map_of (fs_rename tmp target fs) = (case map_of fs tmp of None \<Rightarrow> map_of fs
     | Some v \<Rightarrow> (map_of fs)(tmp := None, target \<mapsto> v))"
  by (simp add: fs_rename_def split: option.split)

section \<open>atomicRename (\<open>lib/atomic.js\<close>)\<close>

definition WIN32_EBUSY_RETRIES :: nat where
  "WIN32_EBUSY_RETRIES = 5"

text \<open>
  \<open>outcomes\<close> are the results of the successive \<open>renameSync\<close> calls: an error, or success; after
  the list ends they succeed. The retry loop of win32 unlinks the destination each time.
\<close>

definition next_outcome :: "js_error option list \<Rightarrow> js_error option \<times> js_error option list" where
  "next_outcome os = (case os of [] \<Rightarrow> (None, []) | r # rest \<Rightarrow> (r, rest))"

fun win_retry ::
  "nat \<Rightarrow> js_error option list \<Rightarrow> cas_path \<Rightarrow> cas_path \<Rightarrow> cas_files \<Rightarrow> js_error option \<times> cas_files" where
  "win_retry left os tmp target fs =
     (let fs1 = fs_unlink target fs in
      case next_outcome os of
        (None, _) \<Rightarrow> (None, fs_rename tmp target fs1)
      | (Some e, rest) \<Rightarrow>
          (case left of
             0 \<Rightarrow> (Some e, fs1)
           | Suc n \<Rightarrow> if e = SysError ''EBUSY'' then win_retry n rest tmp target fs1 else (Some e, fs1)))"

declare win_retry.simps [simp del]

definition atomicRename ::
  "bool \<Rightarrow> js_error option list \<Rightarrow> string list \<Rightarrow> cas_path \<Rightarrow> cas_path \<Rightarrow> cas_files \<Rightarrow> unit res \<times> cas_files" where
  "atomicRename isWin os swallow tmp target fs =
     (let give_up = (\<lambda>e fs'. (if \<exists>c\<in>set swallow. e = SysError c then Inr () else Inl e, fs_unlink tmp fs'))
      in case next_outcome os of
           (None, _) \<Rightarrow> (Inr (), fs_rename tmp target fs)
         | (Some e, rest) \<Rightarrow>
             if isWin \<and> e \<in> {SysError ''EPERM'', SysError ''EEXIST'', SysError ''EACCES'', SysError ''EBUSY''}
             then (case win_retry WIN32_EBUSY_RETRIES rest tmp target fs of
                     (None, fs') \<Rightarrow> (Inr (), fs')
                   | (Some e', fs') \<Rightarrow> give_up e' fs')
             else give_up e fs)"

section \<open>put, get, exists, stats\<close>

datatype cas_content = CBuffer string | CString string | COther string

definition shardedPathFor :: "string \<Rightarrow> cas_path" where
  "shardedPathFor sha = (take 2 sha, sha)"

definition ensureBuffer :: "cas_content \<Rightarrow> string res" where
  "ensureBuffer c = (case c of CBuffer b \<Rightarrow> Inr b | CString s \<Rightarrow> Inr (utf8_encode s)
     | COther t \<Rightarrow> raise_wb WB001 [(''received'', JStr t)])"

definition DEFAULT_OBJECT_MAX_BYTES :: nat where
  "DEFAULT_OBJECT_MAX_BYTES = 256 * 1024 * 1024"

text \<open>How the write of the temporary file can end; a failed write leaves a partial file.\<close>

datatype put_fault = WriteOk | OpenFault js_error | WriteFault js_error string

definition put_tmp :: "string \<Rightarrow> nat \<Rightarrow> rat \<Rightarrow> (rat \<Rightarrow> string) \<Rightarrow> cas_path" where
  "put_tmp sha pid now stamp = (take 2 sha, sha @ ''.tmp.'' @ nat_str pid @ ''.'' @ stamp now)"

record put_env =
  pe_pid :: nat
  pe_now :: rat
  pe_stamp :: "rat \<Rightarrow> string"
  pe_win :: bool
  pe_fault :: put_fault
  pe_renames :: "js_error option list"

definition cas_put :: "host \<Rightarrow> put_env \<Rightarrow> nat option \<Rightarrow> cas_content \<Rightarrow> cas_files \<Rightarrow> string res \<times> cas_files" where
  "cas_put h env max_bytes content fs =
     (case ensureBuffer content of
        Inl e \<Rightarrow> (Inl e, fs)
      | Inr buf \<Rightarrow>
          let cap = (case max_bytes of Some m \<Rightarrow> m | None \<Rightarrow> DEFAULT_OBJECT_MAX_BYTES) in
          if length buf > cap
          then (raise_wb WB008 [(''size'', jint (int (length buf))), (''cap'', jint (int cap))], fs)
          else
            let sha = h_sha256 h buf; target = shardedPathFor sha in
            if map_of fs target \<noteq> None then (Inr sha, fs)
            else
              let tmp = put_tmp sha (pe_pid env) (pe_now env) (pe_stamp env);
                  obj = (\<lambda>b. \<lparr>co_bytes = b, co_mtime = pe_now env\<rparr>) in
              if map_of fs tmp \<noteq> None then (Inl (SysError ''EEXIST''), fs)
              else (case pe_fault env of
                      OpenFault e \<Rightarrow> (Inl e, fs)
                    | WriteFault e part \<Rightarrow> (Inl e, fs_write tmp (obj part) fs)
                    | WriteOk \<Rightarrow>
                        (case atomicRename (pe_win env) (pe_renames env) [''EEXIST''] tmp target
                                (fs_write tmp (obj buf) fs) of
                           (Inl e, fs') \<Rightarrow> (Inl e, fs')
                         | (Inr _, fs') \<Rightarrow> (Inr sha, fs'))))"

definition cas_get :: "js_error option \<Rightarrow> cas_files \<Rightarrow> string \<Rightarrow> (string option) res" where
  "cas_get fault fs sha =
     (case map_of fs (shardedPathFor sha) of
        None \<Rightarrow> Inr None
      | Some v \<Rightarrow> (case fault of Some e \<Rightarrow> if e = SysError ''ENOENT'' then Inr None else Inl e
                              | None \<Rightarrow> Inr (Some (co_bytes v))))"

definition cas_exists :: "cas_files \<Rightarrow> string \<Rightarrow> bool" where
  "cas_exists fs sha \<longleftrightarrow> map_of fs (shardedPathFor sha) \<noteq> None"

definition cas_stats :: "cas_files \<Rightarrow> nat \<times> nat" where
  "cas_stats fs = (length fs, (\<Sum>x\<leftarrow>fs. length (co_bytes (snd x))))"

section \<open>gc\<close>

text \<open>
  \<open>collectLiveShasOrAbort\<close>: references of the live table, of \<open>events_archive\<close> when it exists, of
  the dead-letter payload snapshots, and of every warm bucket not on the allow list.
\<close>

definition sha_ref :: "string option \<Rightarrow> string list" where
  "sha_ref x = (case x of Some s \<Rightarrow> if s = [] then [] else [s] | None \<Rightarrow> [])"

definition row_shas :: "event_row list \<Rightarrow> string list" where
  "row_shas es = concat (map (\<lambda>e. sha_ref (ev_cas_sha e)) es)"

definition dl_sha :: "host \<Rightarrow> dead_letter_row \<Rightarrow> string list" where
  "dl_sha h d = sha_ref (case h_parse h (dl_payload d) of
      Some v \<Rightarrow> (case jget v ''$cas'' of JStr s \<Rightarrow> Some s | _ \<Rightarrow> None) | None \<Rightarrow> None)"

fun warm_shas :: "string list \<Rightarrow> bucket list \<Rightarrow> (string list) res" where
  "warm_shas allow [] = Inr []"
| "warm_shas allow (k # ks) =
     (if bk_name k \<in> set allow then warm_shas allow ks
      else (case bk_health k of
              NoAccess \<Rightarrow> raise_wb WB010 [(''bucket'', JStr (bk_name k))]
            | OpenFails \<Rightarrow> raise_wb WB010 [(''bucket'', JStr (bk_name k))]
            | QueryFails c \<Rightarrow> Inl (SqliteError c)
            | Healthy \<Rightarrow> (case warm_shas allow ks of
                            Inl e \<Rightarrow> Inl e
                          | Inr shas \<Rightarrow> Inr (row_shas (bk_events k) @ shas))))"

definition collectLiveShas :: "host \<Rightarrow> string list \<Rightarrow> archive \<Rightarrow> bus \<Rightarrow> (string list) res" where
  "collectLiveShas h allow ar b =
     (case warm_shas allow (listBuckets ar) of
        Inl e \<Rightarrow> Inl e
      | Inr warm \<Rightarrow> Inr (remdups (row_shas (events b) @
          (case events_archive b of Some es \<Rightarrow> row_shas es | None \<Rightarrow> []) @
          concat (map (dl_sha h) (dead_letters b)) @ warm)))"

record gc_result =
  gr_live_shas :: nat
  gr_considered :: nat
  gr_deleted :: nat
  gr_skipped_in_grace :: nat
  gr_bytes_freed :: nat

datatype gc_fate = Referenced | InGrace | Undeletable | Collected

definition gc_fate_of :: "string list \<Rightarrow> rat \<Rightarrow> rat \<Rightarrow> bool \<Rightarrow> (cas_path \<Rightarrow> bool) \<Rightarrow> cas_path \<times> cas_object \<Rightarrow> gc_fate" where
  "gc_fate_of live now graceMs dryRun can_unlink x =
     (if snd (fst x) \<in> set live then Referenced
      else if now - co_mtime (snd x) < graceMs then InGrace
      else if \<not> dryRun \<and> \<not> can_unlink (fst x) then Undeletable
      else Collected)"

definition cas_gc ::
  "host \<Rightarrow> rat option \<Rightarrow> rat \<Rightarrow> string list \<Rightarrow> bool \<Rightarrow> (cas_path \<Rightarrow> bool) \<Rightarrow> archive \<Rightarrow> bus \<Rightarrow> cas_files
     \<Rightarrow> gc_result res \<times> cas_files" where
  "cas_gc h grace_days now allow dryRun can_unlink ar b fs =
     (let graceMs = (case grace_days of Some d \<Rightarrow> d | None \<Rightarrow> 7) * 86400000 in
      case collectLiveShas h allow ar b of
        Inl e \<Rightarrow> (Inl e, fs)
      | Inr live \<Rightarrow>
          let fate = gc_fate_of live now graceMs dryRun can_unlink;
              gone = filter (\<lambda>x. fate x = Collected) fs
          in (Inr \<lparr>gr_live_shas = length live, gr_considered = length fs, gr_deleted = length gone,
                   gr_skipped_in_grace = length (filter (\<lambda>x. fate x = InGrace) fs),
                   gr_bytes_freed = (\<Sum>x\<leftarrow>gone. length (co_bytes (snd x)))\<rparr>,
              if dryRun then fs else filter (\<lambda>x. fate x \<noteq> Collected) fs))"

section \<open>The store's invariant\<close>

definition sha_hex :: "host \<Rightarrow> bool" where
  "sha_hex h \<longleftrightarrow> (\<forall>x. list_all (\<lambda>c. is_digit c \<or> is_lower c) (h_sha256 h x))"

definition is_tmp :: "string \<Rightarrow> bool" where
  "is_tmp n \<longleftrightarrow> sublist ''.tmp.'' n"

text \<open>Every file that is not a temporary one is named by the digest of its contents.\<close>

definition object_ok :: "host \<Rightarrow> cas_path \<Rightarrow> cas_object \<Rightarrow> bool" where
  "object_ok h p v \<longleftrightarrow> (is_tmp (snd p) \<or> snd p = h_sha256 h (co_bytes v)) \<and> fst p = take 2 (snd p)"

definition cas_wf :: "host \<Rightarrow> cas_files \<Rightarrow> bool" where
  "cas_wf h fs \<longleftrightarrow> (\<forall>p v. map_of fs p = Some v \<longrightarrow> object_ok h p v)"

lemma sha_not_tmp: "sha_hex h \<Longrightarrow> \<not> is_tmp (h_sha256 h x)"
proof
  assume h: "sha_hex h" and "is_tmp (h_sha256 h x)"
  then obtain a c where "h_sha256 h x = a @ ''.tmp.'' @ c" by (auto simp: is_tmp_def sublist_def)
  moreover have "list_all (\<lambda>c. is_digit c \<or> is_lower c) (h_sha256 h x)" using h by (simp add: sha_hex_def)
  ultimately have "is_digit (CHR ''.'') \<or> is_lower (CHR ''.'')" by simp
  then show False by (simp add: is_digit_def is_lower_def less_eq_char_def)
qed

lemma put_tmp_is_tmp: "is_tmp (snd (put_tmp sha pid now stamp))"
  by (auto simp: put_tmp_def is_tmp_def sublist_def)

lemma put_tmp_shard: "2 \<le> length sha \<Longrightarrow> fst (put_tmp sha pid now stamp) = take 2 (snd (put_tmp sha pid now stamp))"
  by (simp add: put_tmp_def)

lemma put_tmp_neq: "sha_hex h \<Longrightarrow> put_tmp (h_sha256 h x) pid now stamp \<noteq> shardedPathFor (h_sha256 h y)"
  using sha_not_tmp [of h y] put_tmp_is_tmp [of "h_sha256 h x" pid now stamp]
  by (auto simp: shardedPathFor_def)

lemma cas_wf_write: "cas_wf h fs \<Longrightarrow> object_ok h p v \<Longrightarrow> cas_wf h (fs_write p v fs)"
  by (auto simp: cas_wf_def)

lemma cas_wf_unlink: "cas_wf h fs \<Longrightarrow> cas_wf h (fs_unlink p fs)"
  by (auto simp: cas_wf_def)

lemma cas_wf_rename:
  "cas_wf h fs \<Longrightarrow> (\<And>v. map_of fs tmp = Some v \<Longrightarrow> object_ok h target v) \<Longrightarrow> cas_wf h (fs_rename tmp target fs)"
  by (auto simp: fs_rename_def intro: cas_wf_write cas_wf_unlink split: option.split)

text \<open>What a rename does to the two paths, whatever the platform.\<close>

lemma win_retry_cases:
  assumes "tmp \<noteq> target"
  shows "win_retry n os tmp target fs = (r, fs') \<Longrightarrow>
     (r = None \<longrightarrow> fs' = fs_rename tmp target (fs_unlink target fs)) \<and>
     (\<forall>e. r = Some e \<longrightarrow> fs' = fs_unlink target fs \<and> Some e \<in> set os)"
proof (induction n arbitrary: os fs r fs')
  case 0
  then show ?case
    by (auto simp: win_retry.simps [of 0] next_outcome_def Let_def split: list.splits option.splits)
next
  case (Suc n)
  have idem: "fs_unlink target (fs_unlink target f) = fs_unlink target f" for f
    by (simp add: fs_unlink_def)
  from Suc.prems consider "os = [] \<or> hd os = None" "r = None" "fs' = fs_rename tmp target (fs_unlink target fs)"
    | e rest where "os = Some e # rest" "e \<noteq> SysError ''EBUSY''" "r = Some e" "fs' = fs_unlink target fs"
    | rest where "os = Some (SysError ''EBUSY'') # rest"
        "win_retry n rest tmp target (fs_unlink target fs) = (r, fs')"
    by (auto simp: win_retry.simps [of "Suc n"] next_outcome_def Let_def
        split: list.splits option.splits if_splits)
  then show ?case
  proof cases
    case 1
    then show ?thesis by simp
  next
    case 2
    then show ?thesis by simp
  next
    case 3
    from Suc.IH [OF 3(2)] 3(1) idem show ?thesis by auto
  qed
qed

lemma atomicRename_cases:
  assumes r: "atomicRename w os sw tmp target fs = (Inr u, fs')" and "tmp \<noteq> target"
  shows "fs' = fs_rename tmp target fs \<or> fs' = fs_rename tmp target (fs_unlink target fs) \<or>
     (\<exists>e. Some e \<in> set os \<and> (\<exists>c\<in>set sw. e = SysError c))"
proof (cases "os = [] \<or> hd os = None")
  case True
  with r show ?thesis
    by (auto simp: atomicRename_def next_outcome_def Let_def split: list.splits)
next
  case False
  then obtain e rest where os: "os = Some e # rest" by (cases os) auto
  obtain r2 fs2 where wr: "win_retry WIN32_EBUSY_RETRIES rest tmp target fs = (r2, fs2)" by fastforce
  from win_retry_cases [OF assms(2) wr]
  have k: "r2 = None \<longrightarrow> fs2 = fs_rename tmp target (fs_unlink target fs)"
    "\<forall>e'. r2 = Some e' \<longrightarrow> Some e' \<in> set os"
    unfolding os by auto
  show ?thesis
  proof (cases r2)
    case None
    with r os wr k(1) show ?thesis
      by (auto simp: atomicRename_def next_outcome_def Let_def split: if_splits)
  next
    case (Some e')
    with r os wr k(2) show ?thesis
      by (auto simp: atomicRename_def next_outcome_def Let_def split: if_splits)
  qed
qed

lemma atomicRename_Inr:
  assumes "atomicRename w os sw tmp target fs = (Inr u, fs')" and "tmp \<noteq> target"
    and "\<forall>c\<in>set sw. Some (SysError c) \<notin> set os" and "map_of fs tmp = Some v"
  shows "map_of fs' = (map_of fs)(tmp := None, target \<mapsto> v)"
proof -
  from atomicRename_cases [OF assms(1,2)] assms(3)
  have "fs' = fs_rename tmp target fs \<or> fs' = fs_rename tmp target (fs_unlink target fs)" by blast
  then show ?thesis using assms(2,4) by (auto simp: map_of_rename fun_eq_iff)
qed

lemma atomicRename_wf:
  assumes "cas_wf h fs" and "tmp \<noteq> target" and "\<And>v. map_of fs tmp = Some v \<Longrightarrow> object_ok h target v"
  shows "cas_wf h (snd (atomicRename w os sw tmp target fs))"
proof -
  have ren: "cas_wf h (fs_rename tmp target fs)"
    using assms(1,3) by (rule cas_wf_rename)
  have un: "cas_wf h (fs_rename tmp target (fs_unlink target fs))"
    using cas_wf_unlink [OF assms(1)] assms(2,3) by (intro cas_wf_rename) auto
  obtain e rest r2 fs2 where wr: "win_retry WIN32_EBUSY_RETRIES rest tmp target fs = (r2, fs2)"
    and tl: "rest = tl os" by fastforce
  have "cas_wf h fs2"
    using win_retry_cases [OF assms(2) wr] un cas_wf_unlink [OF assms(1)] by (cases r2) auto
  with wr tl ren assms(1) show ?thesis
    by (auto simp: atomicRename_def next_outcome_def Let_def intro: cas_wf_unlink split: list.splits option.splits)
qed

section \<open>Reading back what was stored\<close>

lemma cas_put_Inr:
  assumes h: "sha_hex h" and put: "cas_put h env mb content fs = (Inr sha, fs')"
    and no: "Some (SysError ''EEXIST'') \<notin> set (pe_renames env)"
  shows "\<exists>buf. ensureBuffer content = Inr buf \<and> sha = h_sha256 h buf \<and>
     (case map_of fs (shardedPathFor sha) of
        Some v \<Rightarrow> fs' = fs
      | None \<Rightarrow> map_of fs' =
          (map_of fs)(put_tmp sha (pe_pid env) (pe_now env) (pe_stamp env) := None, shardedPathFor sha \<mapsto> \<lparr>co_bytes = buf, co_mtime = pe_now env\<rparr>))"
proof -
  obtain buf where buf: "ensureBuffer content = Inr buf" and sha: "sha = h_sha256 h buf"
    using put by (auto simp: cas_put_def Let_def split: sum.splits if_splits put_fault.splits prod.splits)
  show ?thesis
  proof (cases "map_of fs (shardedPathFor sha)")
    case (Some v)
    with put buf sha show ?thesis by (auto simp: cas_put_def Let_def split: if_splits)
  next
    case None
    let ?tmp = "put_tmp sha (pe_pid env) (pe_now env) (pe_stamp env)"
    let ?o = "\<lparr>co_bytes = buf, co_mtime = pe_now env\<rparr>"
    obtain u where r: "atomicRename (pe_win env) (pe_renames env) [''EEXIST''] ?tmp (shardedPathFor sha)
        (fs_write ?tmp ?o fs) = (Inr u, fs')" and fresh: "map_of fs ?tmp = None"
      using put buf sha None
      by (auto simp: cas_put_def Let_def split: if_splits put_fault.splits prod.splits sum.splits)
    have "map_of fs' = (map_of (fs_write ?tmp ?o fs))(?tmp := None, shardedPathFor sha \<mapsto> ?o)"
      by (rule atomicRename_Inr [OF r]) (use put_tmp_neq [OF h] no sha in auto)
    then show ?thesis using None buf sha by (simp del: fun_upd_apply)
  qed
qed

lemma cas_put_existing:
  "ensureBuffer content = Inr buf \<Longrightarrow> length buf \<le> DEFAULT_OBJECT_MAX_BYTES \<Longrightarrow>
   map_of fs (shardedPathFor (h_sha256 h buf)) \<noteq> None \<Longrightarrow>
   cas_put h env None content fs = (Inr (h_sha256 h buf), fs)"
  by (simp add: cas_put_def Let_def)

lemma cas_put_wf:
  assumes h: "sha_hex h" and len: "\<And>x. 2 \<le> length (h_sha256 h x)" and wf: "cas_wf h fs"
  shows "cas_wf h (snd (cas_put h env mb content fs))"
proof (cases "ensureBuffer content")
  case (Inl e)
  then show ?thesis using wf by (simp add: cas_put_def)
next
  case (Inr buf)
  let ?sha = "h_sha256 h buf"
  let ?tmp = "put_tmp ?sha (pe_pid env) (pe_now env) (pe_stamp env)"
  have tmp_ok: "object_ok h ?tmp v" for v
    using put_tmp_is_tmp put_tmp_shard [OF len] by (simp add: object_ok_def)
  have tgt_ok: "object_ok h (shardedPathFor ?sha) \<lparr>co_bytes = buf, co_mtime = t\<rparr>" for t
    by (simp add: object_ok_def shardedPathFor_def)
  have w: "cas_wf h (fs_write ?tmp v fs)" for v using wf tmp_ok by (rule cas_wf_write)
  have r: "cas_wf h (snd (atomicRename (pe_win env) (pe_renames env) [''EEXIST''] ?tmp (shardedPathFor ?sha)
     (fs_write ?tmp \<lparr>co_bytes = buf, co_mtime = pe_now env\<rparr> fs)))"
    by (rule atomicRename_wf [OF w put_tmp_neq [OF h]]) (auto simp: tgt_ok)
  show ?thesis using Inr wf w r
    by (auto simp: cas_put_def Let_def split: put_fault.splits prod.splits sum.splits)
qed

lemma cas_put_readback:
  assumes "sha_hex h" and "cas_wf h fs"
    and "cas_put h env mb content fs = (Inr sha, fs')"
    and "Some (SysError ''EEXIST'') \<notin> set (pe_renames env)"
  shows "\<exists>buf c. ensureBuffer content = Inr buf \<and> sha = h_sha256 h buf \<and>
     cas_get None fs' sha = Inr (Some c) \<and> h_sha256 h c = sha \<and> (\<not> cas_exists fs sha \<longrightarrow> c = buf)"
proof -
  from cas_put_Inr [OF assms(1,3,4)] obtain buf where buf: "ensureBuffer content = Inr buf" "sha = h_sha256 h buf"
    and new: "case map_of fs (shardedPathFor sha) of Some v \<Rightarrow> fs' = fs
      | None \<Rightarrow> map_of fs' = (map_of fs)(put_tmp sha (pe_pid env) (pe_now env) (pe_stamp env) := None,
          shardedPathFor sha \<mapsto> \<lparr>co_bytes = buf, co_mtime = pe_now env\<rparr>)" by blast
  show ?thesis
  proof (cases "map_of fs (shardedPathFor sha)")
    case None
    with new buf show ?thesis by (auto simp: cas_get_def cas_exists_def)
  next
    case (Some v)
    have "object_ok h (shardedPathFor sha) v" using assms(2) Some unfolding cas_wf_def by blast
    then have "h_sha256 h (co_bytes v) = sha"
      using sha_not_tmp [OF assms(1), of buf] buf(2) by (auto simp: object_ok_def shardedPathFor_def)
    with Some new buf show ?thesis by (simp add: cas_get_def cas_exists_def)
  qed
qed

section \<open>What the collector keeps\<close>

lemma in_sha_ref [simp]: "s \<in> set (sha_ref x) \<longleftrightarrow> x = Some s \<and> s \<noteq> []"
  by (auto simp: sha_ref_def split: option.splits)

lemma in_row_shas: "s \<in> set (row_shas es) \<longleftrightarrow> s \<noteq> [] \<and> (\<exists>e\<in>set es. ev_cas_sha e = Some s)"
  by (auto simp: row_shas_def)

lemma in_dl_sha:
  "s \<in> set (dl_sha h d) \<longleftrightarrow> s \<noteq> [] \<and> (\<exists>v. h_parse h (dl_payload d) = Some v \<and> jget v ''$cas'' = JStr s)"
  unfolding dl_sha_def by (cases "h_parse h (dl_payload d)") (auto split: jsval.split)

lemma warm_shas_Inr:
  "warm_shas allow ks = Inr shas \<Longrightarrow> k \<in> set ks \<Longrightarrow> bk_name k \<notin> set allow \<Longrightarrow>
     bk_health k = Healthy \<and> set (row_shas (bk_events k)) \<subseteq> set shas"
  by (induction ks arbitrary: shas) (auto split: if_splits bucket_health.splits sum.splits)

text \<open>A digest some row of the live table, the archive, the dead-letter queue or a bucket names.\<close>

definition referenced :: "host \<Rightarrow> string list \<Rightarrow> archive \<Rightarrow> bus \<Rightarrow> string \<Rightarrow> bool" where
  "referenced h allow ar b sha \<longleftrightarrow> sha \<noteq> [] \<and>
     ((\<exists>e\<in>set (events b). ev_cas_sha e = Some sha) \<or>
      (\<exists>es. events_archive b = Some es \<and> (\<exists>e\<in>set es. ev_cas_sha e = Some sha)) \<or>
      (\<exists>d\<in>set (dead_letters b). \<exists>v. h_parse h (dl_payload d) = Some v \<and> jget v ''$cas'' = JStr sha) \<or>
      (\<exists>k\<in>set (listBuckets ar). bk_name k \<notin> set allow \<and> (\<exists>e\<in>set (bk_events k). ev_cas_sha e = Some sha)))"

lemma warm_shas_sound:
  "warm_shas allow ks = Inr shas \<Longrightarrow> s \<in> set shas \<Longrightarrow>
     \<exists>k\<in>set ks. bk_name k \<notin> set allow \<and> s \<in> set (row_shas (bk_events k))"
  by (induction ks arbitrary: shas) (auto split: if_splits bucket_health.splits sum.splits)

lemma warm_shas_iff:
  assumes "warm_shas allow ks = Inr shas"
  shows "s \<in> set shas \<longleftrightarrow> s \<noteq> [] \<and> (\<exists>k\<in>set ks. bk_name k \<notin> set allow \<and> (\<exists>e\<in>set (bk_events k). ev_cas_sha e = Some s))"
  using warm_shas_sound [OF assms] warm_shas_Inr [OF assms] by (auto simp: in_row_shas subset_iff; blast)

lemma archived_shas_iff:
  "s \<in> set (case ar of Some es \<Rightarrow> row_shas es | None \<Rightarrow> []) \<longleftrightarrow>
     s \<noteq> [] \<and> (\<exists>es. ar = Some es \<and> (\<exists>e\<in>set es. ev_cas_sha e = Some s))"
  by (cases ar) (auto simp: in_row_shas)

lemma collectLiveShas_iff:
  assumes "collectLiveShas h allow ar b = Inr live"
  shows "sha \<in> set live \<longleftrightarrow> referenced h allow ar b sha"
proof -
  from assms obtain warm where w: "warm_shas allow (listBuckets ar) = Inr warm"
    and live: "live = remdups (row_shas (events b) @
          (case events_archive b of Some es \<Rightarrow> row_shas es | None \<Rightarrow> []) @
          concat (map (dl_sha h) (dead_letters b)) @ warm)"
    by (auto simp: collectLiveShas_def split: sum.splits)
  have "sha \<in> set live \<longleftrightarrow> sha \<in> set (row_shas (events b)) \<or>
      sha \<in> set (case events_archive b of Some es \<Rightarrow> row_shas es | None \<Rightarrow> []) \<or>
      (\<exists>d\<in>set (dead_letters b). sha \<in> set (dl_sha h d)) \<or> sha \<in> set warm"
    by (simp only: live set_remdups set_append set_concat set_map Un_iff UN_iff image_iff) blast
  then show ?thesis
    unfolding referenced_def warm_shas_iff [OF w] archived_shas_iff in_row_shas in_dl_sha
    by blast
qed

lemma cas_gc_Inr:
  assumes "cas_gc h g now allow dry cu ar b fs = (Inr r, fs')"
  shows "\<exists>live. collectLiveShas h allow ar b = Inr live \<and>
     fs' = (if dry then fs else filter (\<lambda>x. gc_fate_of live now
       ((case g of Some d \<Rightarrow> d | None \<Rightarrow> 7) * 86400000) dry cu x \<noteq> Collected) fs)"
  using assms by (auto simp: cas_gc_def Let_def split: sum.splits)

section \<open>A store of content under its digest\<close>

locale content_store =
  fixes inv :: "'s \<Rightarrow> bool"
    and admissible :: "'c \<Rightarrow> bool"
    and store :: "'s \<Rightarrow> 'c \<Rightarrow> 's"
    and present :: "'s \<Rightarrow> 'k \<Rightarrow> bool"
    and digest :: "'c \<Rightarrow> 'k"
  assumes store_inv: "inv s \<Longrightarrow> inv (store s c)"
    and store_present: "inv s \<Longrightarrow> admissible c \<Longrightarrow> present (store s c) (digest c)"
    and store_keeps: "inv s \<Longrightarrow> present s k \<Longrightarrow> present (store s c) k"
begin

lemma foldl_inv: "inv s \<Longrightarrow> inv (foldl store s cs)"
  by (induction cs arbitrary: s) (auto intro: store_inv)

lemma foldl_keeps: "inv s \<Longrightarrow> present s k \<Longrightarrow> present (foldl store s cs) k"
  by (induction cs arbitrary: s) (auto intro: store_inv store_keeps)

text \<open>Everything ever stored stays present.\<close>

lemma foldl_present: "inv s \<Longrightarrow> c \<in> set cs \<Longrightarrow> admissible c \<Longrightarrow> present (foldl store s cs) (digest c)"
proof (induction cs arbitrary: s)
  case Nil
  then show ?case by simp
next
  case (Cons d cs)
  show ?case
  proof (cases "c = d")
    case True
    with Cons.prems show ?thesis by (auto intro: foldl_keeps store_inv store_present)
  next
    case False
    with Cons show ?thesis by (auto intro: store_inv)
  qed
qed

end

definition cas_clean :: "host \<Rightarrow> cas_files \<Rightarrow> bool" where
  "cas_clean h fs \<longleftrightarrow> sha_hex h \<and> (\<forall>p v. map_of fs p = Some v \<longrightarrow> \<not> is_tmp (snd p) \<and> object_ok h p v)"

definition plain_env :: "nat \<Rightarrow> rat \<Rightarrow> (rat \<Rightarrow> string) \<Rightarrow> put_env" where
  "plain_env pid now stamp = \<lparr>pe_pid = pid, pe_now = now, pe_stamp = stamp, pe_win = False,
     pe_fault = WriteOk, pe_renames = []\<rparr>"

lemma cas_clean_no_tmp:
  assumes "cas_clean h fs" and "is_tmp (snd p)"
  shows "map_of fs p = None"
proof (cases "map_of fs p")
  case (Some v)
  with assms show ?thesis unfolding cas_clean_def by blast
qed

lemma cas_cleanD: "cas_clean h fs \<Longrightarrow> map_of fs p = Some v \<Longrightarrow> \<not> is_tmp (snd p) \<and> object_ok h p v"
  unfolding cas_clean_def by blast

text \<open>The content under a digest is what hashes to it.\<close>

definition cas_holds :: "host \<Rightarrow> cas_files \<Rightarrow> string \<Rightarrow> bool" where
  "cas_holds h fs sha \<longleftrightarrow> (\<exists>c. cas_get None fs sha = Inr (Some c) \<and> h_sha256 h c = sha)"

lemma plain_put:
  assumes "cas_clean h fs" and "utf8_length s \<le> DEFAULT_OBJECT_MAX_BYTES"
  shows "\<exists>fs'. cas_put h (plain_env pid now stamp) None (CString s) fs = (Inr (h_sha256 h (utf8_encode s)), fs')"
proof -
  let ?sha = "h_sha256 h (utf8_encode s)"
  have "map_of fs (put_tmp ?sha pid now stamp) = None"
    using assms(1) put_tmp_is_tmp by (rule cas_clean_no_tmp)
  then show ?thesis using assms(2)
    by (auto simp: cas_put_def Let_def ensureBuffer_def plain_env_def atomicRename_def next_outcome_def
        length_utf8_encode)
qed

lemma plain_put_map:
  assumes c: "cas_clean h fs" and p: "cas_put h (plain_env pid now stamp) None (CString s) fs = (Inr sha, fs')"
  shows "sha = h_sha256 h (utf8_encode s)"
    and "map_of fs' = (if map_of fs (shardedPathFor sha) = None
       then (map_of fs)(shardedPathFor sha \<mapsto> \<lparr>co_bytes = utf8_encode s, co_mtime = now\<rparr>) else map_of fs)"
proof -
  have h: "sha_hex h" using c by (simp add: cas_clean_def)
  have no: "Some (SysError ''EEXIST'') \<notin> set (pe_renames (plain_env pid now stamp))" by (simp add: plain_env_def)
  from cas_put_Inr [OF h p no] show sha: "sha = h_sha256 h (utf8_encode s)"
    by (auto simp: ensureBuffer_def)
  have "map_of fs (put_tmp sha pid now stamp) = None"
    using c put_tmp_is_tmp by (rule cas_clean_no_tmp)
  then have "(map_of fs)(put_tmp sha pid now stamp := None) = map_of fs" by (simp add: fun_upd_idem)
  with cas_put_Inr [OF h p no] show "map_of fs' = (if map_of fs (shardedPathFor sha) = None
       then (map_of fs)(shardedPathFor sha \<mapsto> \<lparr>co_bytes = utf8_encode s, co_mtime = now\<rparr>) else map_of fs)"
    by (auto simp: ensureBuffer_def plain_env_def split: option.splits)
qed

lemma big_put:
  "\<not> utf8_length s \<le> DEFAULT_OBJECT_MAX_BYTES \<Longrightarrow> snd (cas_put h env None (CString s) fs) = fs"
  by (simp add: cas_put_def ensureBuffer_def Let_def length_utf8_encode)

lemma plain_put_clean:
  assumes "cas_clean h fs"
  shows "cas_clean h (snd (cas_put h (plain_env pid now stamp) None (CString s) fs))"
proof (cases "utf8_length s \<le> DEFAULT_OBJECT_MAX_BYTES")
  case True
  obtain fs' where p: "cas_put h (plain_env pid now stamp) None (CString s) fs = (Inr (h_sha256 h (utf8_encode s)), fs')"
    using plain_put [OF assms True] by blast
  have "sha_hex h" using assms by (simp add: cas_clean_def)
  then have "\<not> is_tmp (h_sha256 h (utf8_encode s))" by (rule sha_not_tmp)
  with assms plain_put_map(2) [OF assms p] show ?thesis
    by (auto simp: p cas_clean_def shardedPathFor_def object_ok_def)
next
  case False
  with assms show ?thesis by (simp add: big_put)
qed

interpretation cas_offload: content_store
  "cas_clean h"
  "\<lambda>s. utf8_length s \<le> DEFAULT_OBJECT_MAX_BYTES"
  "\<lambda>fs s. snd (cas_put h (plain_env pid now stamp) None (CString s) fs)"
  "cas_holds h"
  "\<lambda>s. h_sha256 h (utf8_encode s)" for h pid now stamp
proof (unfold_locales, goal_cases)
  case (1 fs s)
  then show ?case by (rule plain_put_clean)
next
  case (2 fs s)
  obtain fs' where p: "cas_put h (plain_env pid now stamp) None (CString s) fs = (Inr (h_sha256 h (utf8_encode s)), fs')"
    using plain_put [OF 2] by blast
  let ?sha = "h_sha256 h (utf8_encode s)"
  show ?case
  proof (cases "map_of fs (shardedPathFor ?sha)")
    case None
    then have "map_of fs' (shardedPathFor ?sha) = Some \<lparr>co_bytes = utf8_encode s, co_mtime = now\<rparr>"
      using plain_put_map(2) [OF 2(1) p] by simp
    then show ?thesis by (simp add: p cas_holds_def cas_get_def)
  next
    case (Some v)
    then have "map_of fs' (shardedPathFor ?sha) = Some v"
      using plain_put_map(2) [OF 2(1) p] by simp
    moreover have "h_sha256 h (co_bytes v) = ?sha"
      using cas_cleanD [OF 2(1) Some] by (auto simp: object_ok_def shardedPathFor_def)
    ultimately show ?thesis by (simp add: p cas_holds_def cas_get_def)
  qed
next
  case (3 fs k s)
  show ?case
  proof (cases "utf8_length s \<le> DEFAULT_OBJECT_MAX_BYTES")
    case True
    obtain fs' where p: "cas_put h (plain_env pid now stamp) None (CString s) fs = (Inr (h_sha256 h (utf8_encode s)), fs')"
      using plain_put [OF 3(1) True] by blast
    show ?thesis using 3(2) plain_put_map(2) [OF 3(1) p]
      by (auto simp: p cas_holds_def cas_get_def split: option.splits if_splits)
  next
    case False
    with 3(2) show ?thesis by (simp add: big_put)
  qed
qed

section \<open>Properties\<close>

text \<open>C35: A payload stored without an I/O fault is read back: after \<open>put\<close> returns a digest, \<open>get\<close>
  of that digest finds content, and that content hashes to it. Content placed by this very call is
  byte for byte what was stored.\<close>

theorem cas_put_get:
  assumes "sha_hex h" and "cas_wf h fs"
    and "cas_put h env mb content fs = (Inr sha, fs')"
    and "Some (SysError ''EEXIST'') \<notin> set (pe_renames env)"
  shows "\<exists>buf c. ensureBuffer content = Inr buf \<and> sha = h_sha256 h buf \<and>
     cas_get None fs' sha = Inr (Some c) \<and> h_sha256 h c = sha \<and> (\<not> cas_exists fs sha \<longrightarrow> c = buf)"
  using assms by (rule cas_put_readback)

text \<open>A runtime for the examples: a digest that is a length, a parser for the texts they use.\<close>

definition demo_host :: host where
  "demo_host = \<lparr>h_parse = (\<lambda>s.
       if prefix ''{$cas:'' s then Some (JObj [(''$cas'', JStr (takeWhile (\<lambda>c. c \<noteq> CHR ''}'') (drop 6 s)))])
       else if s = ''{needs x}'' then Some (JObj [(''required'', JArr [JStr ''x''])])
       else if prefix ''{'' s then Some (JObj []) else None),
     h_stringify = (\<lambda>v. case v of JObj [(k, JStr s)] \<Rightarrow> ''{'' @ k @ '':'' @ s @ ''}'' | _ \<Rightarrow> ''{}''),
     h_string = (\<lambda>_. ''?''), h_number = (\<lambda>_. NaN),
     h_sha256 = (\<lambda>s. ''ab'' @ nat_str (length s)), h_sql_text = (\<lambda>_. ''0''), h_sql_int = (\<lambda>_. SNull)\<rparr>"

lemma demo_sha_hex: "sha_hex demo_host"
proof -
  have "list_all (\<lambda>c. is_digit c \<or> is_lower c) (nat_str n)" for n
    using nat_str_shape [of n] by (auto simp: list_all_iff)
  then show ?thesis by (simp add: sha_hex_def demo_host_def is_lower_def less_eq_char_def)
qed

lemma cas_put_get_witness:
  "\<exists>sha fs' c. cas_put demo_host (plain_env 7 0 (\<lambda>_. ''0'')) None (CString ''hello'') [] = (Inr sha, fs') \<and>
     cas_get None fs' sha = Inr (Some c) \<and> c = ''hello''"
proof -
  let ?env = "plain_env 7 0 (\<lambda>_. ''0'')"
  have clean: "cas_clean demo_host []" using demo_sha_hex by (simp add: cas_clean_def)
  have "utf8_length ''hello'' \<le> DEFAULT_OBJECT_MAX_BYTES"
    by (simp add: utf8_length_def DEFAULT_OBJECT_MAX_BYTES_def)
  with plain_put [OF clean] obtain fs' where
    p: "cas_put demo_host ?env None (CString ''hello'') [] = (Inr (h_sha256 demo_host (utf8_encode ''hello'')), fs')"
    by blast
  have e: "ensureBuffer (CString ''hello'') = Inr ''hello''" by code_simp
  have wf: "cas_wf demo_host []" by (simp add: cas_wf_def)
  have no: "Some (SysError ''EEXIST'') \<notin> set (pe_renames ?env)" by (simp add: plain_env_def)
  from cas_put_get [OF demo_sha_hex wf p no] obtain buf c where
    "ensureBuffer (CString ''hello'') = Inr buf" and
    c: "cas_get None fs' (h_sha256 demo_host (utf8_encode ''hello'')) = Inr (Some c)" and
    "\<not> cas_exists [] (h_sha256 demo_host (utf8_encode ''hello'')) \<longrightarrow> c = buf" by blast
  then have "c = ''hello''" using e by (simp add: cas_exists_def)
  with p c show ?thesis by blast
qed

text \<open>C11: The garbage collector is safe: a file whose name is referenced by a live event, an
  archived one, a dead-letter payload snapshot or a row of any warm bucket that is not on the
  operator's allow list survives a collection, as does every file inside the grace window.\<close>

theorem gc_keeps_referenced:
  assumes "cas_gc h grace now allow dry can_unlink ar b fs = (r, fs')" and "(p, v) \<in> set fs"
    and "referenced h allow ar b (snd p) \<or>
         now - co_mtime v < (case grace of Some d \<Rightarrow> d | None \<Rightarrow> 7) * 86400000"
  shows "(p, v) \<in> set fs'"
proof (cases r)
  case (Inl e)
  with assms(1,2) show ?thesis by (auto simp: cas_gc_def Let_def split: sum.splits)
next
  case (Inr x)
  with assms(1) cas_gc_Inr obtain live where "collectLiveShas h allow ar b = Inr live"
    and "fs' = (if dry then fs else filter (\<lambda>x. gc_fate_of live now
       ((case grace of Some d \<Rightarrow> d | None \<Rightarrow> 7) * 86400000) dry can_unlink x \<noteq> Collected) fs)"
    by blast
  then show ?thesis using assms(2,3)
    by (auto simp: gc_fate_of_def collectLiveShas_iff)
qed

lemma gc_keeps_referenced_witness:
  "((''ab'', ''ab5''), \<lparr>co_bytes = ''hello'', co_mtime = 0\<rparr>) \<in>
     set (snd (cas_gc demo_host None 1000 [] False (\<lambda>_. True) \<lparr>ar_buckets = [], ar_locks = []\<rparr> empty_bus
       [((''ab'', ''ab5''), \<lparr>co_bytes = ''hello'', co_mtime = 0\<rparr>)]))"
  by (rule gc_keeps_referenced [OF surjective_pairing]) simp_all

text \<open>A collection that cannot see every warm bucket removes nothing: when a bucket that is not
  on the allow list cannot be accessed, opened or queried, \<open>gc\<close> throws and leaves every file.\<close>

theorem gc_aborts_on_unreadable_bucket:
  assumes "k \<in> set (listBuckets ar)" and "bk_name k \<notin> set allow" and "bk_health k \<noteq> Healthy"
  shows "\<exists>e. cas_gc h grace now allow dry can_unlink ar b fs = (Inl e, fs)"
proof -
  have "\<exists>e. warm_shas allow (listBuckets ar) = Inl e"
    using warm_shas_Inr [of allow "listBuckets ar" _ k] assms by (cases "warm_shas allow (listBuckets ar)") auto
  then show ?thesis by (auto simp: cas_gc_def collectLiveShas_def Let_def)
qed

lemma gc_aborts_on_unreadable_bucket_witness:
  "\<exists>e. cas_gc demo_host None 10 [] False (\<lambda>_. True)
     \<lparr>ar_buckets = [(createBucket ''bus-2026-01.db'' 0 None None)\<lparr>bk_health := NoAccess\<rparr>], ar_locks = []\<rparr>
     empty_bus [] = (Inl e, [])"
proof (rule gc_aborts_on_unreadable_bucket)
  show "(createBucket ''bus-2026-01.db'' 0 None None)\<lparr>bk_health := NoAccess\<rparr> \<in> set (listBuckets
     \<lparr>ar_buckets = [(createBucket ''bus-2026-01.db'' 0 None None)\<lparr>bk_health := NoAccess\<rparr>], ar_locks = []\<rparr>)"
    unfolding set_listBuckets by (simp add: createBucket_def) code_simp
qed (simp_all add: createBucket_def)

text \<open>\<open>put\<close> of content that is already stored does not renew the file's modification time. So
  an object that has been an orphan for longer than the grace window can be collected between the
  \<open>put\<close> that returned its digest and the \<open>INSERT\<close> that would reference it: \<open>put\<close> reports success
  and \<open>get\<close> then finds nothing.\<close>

theorem put_then_gc_loses_content:
  assumes "ensureBuffer content = Inr buf" and "length buf \<le> DEFAULT_OBJECT_MAX_BYTES"
    and "map_of fs (shardedPathFor (h_sha256 h buf)) = Some v"
    and "(case grace of Some d \<Rightarrow> d | None \<Rightarrow> 7) * 86400000 \<le> now - co_mtime v"
    and "\<not> referenced h allow ar b (h_sha256 h buf)"
    and "cas_put h env None content fs = (r1, fs1)"
    and "cas_gc h grace now allow False (\<lambda>_. True) ar b fs1 = (Inr r2, fs2)" and "distinct (map fst fs)"
  shows "r1 = Inr (h_sha256 h buf) \<and> cas_get None fs2 (h_sha256 h buf) = Inr None"
proof -
  have put: "r1 = Inr (h_sha256 h buf)" "fs1 = fs"
    using cas_put_existing [OF assms(1,2)] assms(3,6) by auto
  from cas_gc_Inr [OF assms(7)] obtain live where l: "collectLiveShas h allow ar b = Inr live"
    and "fs2 = (if False then fs1 else filter (\<lambda>x. gc_fate_of live now
       ((case grace of Some d \<Rightarrow> d | None \<Rightarrow> 7) * 86400000) False (\<lambda>_. True) x \<noteq> Collected) fs1)" by blast
  then have fs2: "fs2 = filter (\<lambda>x. gc_fate_of live now
       ((case grace of Some d \<Rightarrow> d | None \<Rightarrow> 7) * 86400000) False (\<lambda>_. True) x \<noteq> Collected) fs"
    by (simp only: put(2) if_False)
  have "(shardedPathFor (h_sha256 h buf), v') \<notin> set fs2" for v'
  proof
    assume "(shardedPathFor (h_sha256 h buf), v') \<in> set fs2"
    then have "(shardedPathFor (h_sha256 h buf), v') \<in> set fs" and "gc_fate_of live now
       ((case grace of Some d \<Rightarrow> d | None \<Rightarrow> 7) * 86400000) False (\<lambda>_. True)
       (shardedPathFor (h_sha256 h buf), v') \<noteq> Collected" by (auto simp: fs2)
    moreover from this(1) have "v' = v" using assms(3,8) by (simp add: map_of_eq_Some_iff)
    moreover have "h_sha256 h buf \<notin> set live" using assms(5) collectLiveShas_iff [OF l] by blast
    ultimately show False using assms(4) by (simp add: gc_fate_of_def shardedPathFor_def)
  qed
  then have "map_of fs2 (shardedPathFor (h_sha256 h buf)) = None"
    by (auto simp: map_of_eq_None_iff)
  with put show ?thesis by (simp add: cas_get_def)
qed

lemma put_then_gc_loses_content_witness:
  "fst (cas_put demo_host (plain_env 7 604900000 (\<lambda>_. ''0'')) None (CString ''hello'')
      [((''ab'', ''ab5''), \<lparr>co_bytes = ''hello'', co_mtime = 0\<rparr>)]) = Inr ''ab5'' \<and>
   cas_get None (snd (cas_gc demo_host None 604900000 [] False (\<lambda>_. True) \<lparr>ar_buckets = [], ar_locks = []\<rparr> empty_bus
      [((''ab'', ''ab5''), \<lparr>co_bytes = ''hello'', co_mtime = 0\<rparr>)])) ''ab5'' = Inr None"
proof -
  let ?fs = "[((''ab'', ''ab5''), \<lparr>co_bytes = ''hello'', co_mtime = 0\<rparr>)]"
  let ?ar = "\<lparr>ar_buckets = [], ar_locks = []\<rparr>"
  have sha: "h_sha256 demo_host ''hello'' = ''ab5''" and s: "shardedPathFor ''ab5'' = (''ab'', ''ab5'')"
    and b: "ensureBuffer (CString ''hello'') = Inr ''hello''"
    by (simp add: demo_host_def nat_str.simps) code_simp+
  have put: "cas_put demo_host (plain_env 7 604900000 (\<lambda>_. ''0'')) None (CString ''hello'') ?fs = (Inr ''ab5'', ?fs)"
    using cas_put_existing [OF b, of ?fs demo_host] sha s by (simp add: DEFAULT_OBJECT_MAX_BYTES_def)
  obtain r2 where gc: "cas_gc demo_host None 604900000 [] False (\<lambda>_. True) ?ar empty_bus ?fs
      = (Inr r2, snd (cas_gc demo_host None 604900000 [] False (\<lambda>_. True) ?ar empty_bus ?fs))"
    by (simp add: cas_gc_def collectLiveShas_def listBuckets_def Let_def)
  have nr: "\<not> referenced demo_host [] ?ar empty_bus (h_sha256 demo_host ''hello'')"
    by (simp add: referenced_def empty_bus_def listBuckets_def)
  from put_then_gc_loses_content [OF b _ _ _ nr put gc] sha s put show ?thesis
    by (simp add: DEFAULT_OBJECT_MAX_BYTES_def)
qed

text \<open>On win32 the fallback of \<open>atomicRename\<close> unlinks the destination before it retries. When
  every retry fails for a reason other than a transient \<open>EBUSY\<close>, the call throws and neither the
  destination, which existed before, nor the temporary file is left.\<close>

theorem atomicRename_win32_failure_loses_target:
  assumes "tmp \<noteq> target"
  shows "fst (atomicRename True [Some (SysError ''EPERM''), Some (SysError ''EPERM'')] [''EEXIST''] tmp target fs)
       = Inl (SysError ''EPERM'') \<and>
     map_of (snd (atomicRename True [Some (SysError ''EPERM''), Some (SysError ''EPERM'')] [''EEXIST''] tmp target fs))
       = (map_of fs)(target := None, tmp := None)"
proof -
  have w: "win_retry WIN32_EBUSY_RETRIES [Some (SysError ''EPERM'')] tmp target fs
      = (Some (SysError ''EPERM''), fs_unlink target fs)"
    by (simp add: WIN32_EBUSY_RETRIES_def win_retry.simps next_outcome_def)
  show ?thesis
    by (simp add: atomicRename_def next_outcome_def w Let_def)
qed

lemma atomicRename_win32_failure_loses_target_witness:
  "map_of (snd (atomicRename True [Some (SysError ''EPERM''), Some (SysError ''EPERM'')] [''EEXIST'']
     (''ab'', ''t'') (''ab'', ''ab5'') [((''ab'', ''ab5''), \<lparr>co_bytes = ''hello'', co_mtime = 0\<rparr>)])) = Map.empty"
  using atomicRename_win32_failure_loses_target [of "(''ab'', ''t'')" "(''ab'', ''ab5'')"
      "[((''ab'', ''ab5''), \<lparr>co_bytes = ''hello'', co_mtime = 0\<rparr>)]"]
  by (simp add: fun_eq_iff)

end
