(* ===== verification/BusRegistry.thy ===== *)
theory BusRegistry
  imports BusCas
begin

text \<open>
  The schema registry, \<open>lib/schema-registry.js\<close>: \<open>getSchema\<close>, the size policy and the structural
  JSON Schema checks of \<open>applyOnEmit\<close>. Violations and warnings are constructors that carry what
  the source's messages interpolate. Proved: which policy throws, that a schema mismatch never
  blocks an emit, when a value has no violations for the common keywords, and that an offloaded
  payload can be read back from the content store.
\<close>

section \<open>Values as objects\<close>

text \<open>The enumerable own properties, \<open>Object.entries\<close>.\<close>

definition obj_entries :: "jsval \<Rightarrow> (string \<times> jsval) list" where
  "obj_entries v = (case v of
      JObj kvs \<Rightarrow> map (\<lambda>k. (k, jget v k)) (remdups (map fst kvs))
    | JArr xs \<Rightarrow> zip (map nat_str [0..<length xs]) xs
    | JStr s \<Rightarrow> zip (map nat_str [0..<length s]) (map (\<lambda>c. JStr [c]) s)
    | _ \<Rightarrow> [])"

text \<open>The names every object inherits from \<open>Object.prototype\<close>; \<open>in\<close> sees them, and so does a read.\<close>

definition proto_keys :: "string list" where
  "proto_keys = [''constructor'', ''__defineGetter__'', ''__defineSetter__'', ''hasOwnProperty'',
     ''__lookupGetter__'', ''__lookupSetter__'', ''isPrototypeOf'', ''propertyIsEnumerable'',
     ''toString'', ''valueOf'', ''__proto__'', ''toLocaleString'']"

definition js_in :: "string \<Rightarrow> jsval \<Rightarrow> bool" where
  "js_in k v \<longleftrightarrow> has_own v k \<or> k \<in> set proto_keys"

definition js_prop :: "jsval \<Rightarrow> string \<Rightarrow> jsval" where
  "js_prop v k = (if has_own v k then jget v k
     else if k = ''__proto__'' then JObj [] else if k \<in> set proto_keys then JFun else JUndef)"

lemma jget_obj_size: "jget (JObj kvs) k = v \<Longrightarrow> v \<noteq> JUndef \<Longrightarrow> size v < size (JObj kvs)"
proof -
  assume "jget (JObj kvs) k = v" "v \<noteq> JUndef"
  then have "map_of (rev kvs) k = Some v" by (auto split: option.splits)
  then have "(k, v) \<in> set kvs" by (metis map_of_SomeD set_rev)
  then show ?thesis by (induction kvs) auto
qed

lemma jget_size: "jget v k \<noteq> JUndef \<Longrightarrow> size (jget v k) < size v"
  by (cases v) (use jget_obj_size in \<open>auto simp del: jsval.size\<close>)

lemma obj_entries_size: "(k, x) \<in> set (obj_entries v) \<Longrightarrow> size x < size v \<or> (\<exists>c. x = JStr c)"
proof (cases v)
  case (JObj kvs)
  assume "(k, x) \<in> set (obj_entries v)"
  with JObj have "x = jget v k" and k: "k \<in> fst ` set kvs" by (auto simp: obj_entries_def)
  from k obtain y where "map_of (rev kvs) k = Some y"
    by (metis map_of_eq_None_iff not_None_eq set_map set_rev)
  then have "(k, y) \<in> set kvs" by (metis map_of_SomeD set_rev)
  then have "size y < size (JObj kvs)" by (induction kvs) auto
  with \<open>x = jget v k\<close> \<open>map_of (rev kvs) k = Some y\<close> JObj show ?thesis by simp
next
  case (JArr xs)
  assume "(k, x) \<in> set (obj_entries v)"
  with JArr have "x \<in> set xs" by (auto simp: obj_entries_def dest: set_zip_rightD)
  then have "size x < size (JArr xs)" by (induction xs) auto
  with JArr show ?thesis by simp
next
  case (JStr s)
  assume "(k, x) \<in> set (obj_entries v)"
  with JStr have "x \<in> set (map (\<lambda>c. JStr [c]) s)" by (auto simp: obj_entries_def dest!: set_zip_rightD)
  then show ?thesis by auto
qed (auto simp: obj_entries_def)

section \<open>jsonType, typeMatches, deepEqual\<close>

definition jsonType :: "jsval \<Rightarrow> string" where
  "jsonType v = (case v of JNull \<Rightarrow> ''null'' | JArr _ \<Rightarrow> ''array'' | _ \<Rightarrow> typeof v)"

definition typeMatches :: "jsval \<Rightarrow> string \<Rightarrow> jsval \<Rightarrow> bool" where
  "typeMatches declared actual v \<longleftrightarrow>
     declared = JStr actual \<or> (declared = JStr ''integer'' \<and> actual = ''number'' \<and> is_integer v)"

function deepEqual :: "jsval \<Rightarrow> jsval \<Rightarrow> bool" where
  "deepEqual a b =
     (if strict_eq a b then True
      else case (a, b) of
          (JArr xs, JArr ys) \<Rightarrow> length xs = length ys \<and> (\<forall>p\<in>set (zip xs ys). deepEqual (fst p) (snd p))
        | (JObj kvs, JObj kvs') \<Rightarrow>
            length (obj_keys a) = length (obj_keys b) \<and>
            (\<forall>p\<in>set (obj_entries (JObj kvs)). deepEqual (snd p) (js_prop b (fst p)))
        | _ \<Rightarrow> False)"
  by pat_completeness auto
termination
proof (relation "measure (\<lambda>(a, b). if \<exists>c. a = JStr c then 0 else Suc (size a))", goal_cases)
  case 1
  then show ?case by simp
next
  case (2 a b x y xs ys p)
  then have "fst p \<in> set xs" by (auto simp: set_zip)
  then have "size (fst p) < size (JArr xs)" by (induction xs) auto
  with 2 show ?case by (cases p) auto
next
  case (3 a b x y kvs kvs' p)
  then have "(fst p, snd p) \<in> set (obj_entries (JObj kvs))" by simp
  from obj_entries_size [OF this] 3 show ?case by auto
qed

declare deepEqual.simps [simp del]

section \<open>validateAgainst\<close>

datatype violation =
    NotInEnum string "jsval list"
  | TypeMismatch string "jsval list" string
  | TooShort string jsval
  | TooLong string jsval
  | BelowMinimum string jsval
  | AboveMaximum string jsval
  | MissingRequired string jsval
  | AdditionalProperty string string
  | NotJson

definition pathLabel :: "string \<Rightarrow> string" where
  "pathLabel p = (if p = [] then ''<root>'' else p)"

definition check_enum :: "string \<Rightarrow> jsval \<Rightarrow> jsval \<Rightarrow> violation list" where
  "check_enum path schema v = (case jget schema ''enum'' of
      JArr vs \<Rightarrow> if \<exists>x\<in>set vs. deepEqual x v then [] else [NotInEnum (pathLabel path) vs]
    | _ \<Rightarrow> [])"

definition allowed_types :: "jsval \<Rightarrow> jsval list" where
  "allowed_types schema = (case jget schema ''type'' of JArr ts \<Rightarrow> ts | t \<Rightarrow> [t])"

definition type_matched :: "jsval \<Rightarrow> jsval \<Rightarrow> bool" where
  "type_matched schema v \<longleftrightarrow> (\<exists>a\<in>set (allowed_types schema). typeMatches a (jsonType v) v)"

definition check_length :: "host \<Rightarrow> string \<Rightarrow> jsval \<Rightarrow> jsval \<Rightarrow> violation list" where
  "check_length h path schema v = (case v of
      JStr s \<Rightarrow>
        (let n = Fin (of_nat (length s)); lo = jget schema ''minLength''; hi = jget schema ''maxLength'' in
         (if \<not> nullish lo \<and> num_lt n (js_Number h lo) then [TooShort (pathLabel path) lo] else []) @
         (if \<not> nullish hi \<and> num_lt (js_Number h hi) n then [TooLong (pathLabel path) hi] else []))
    | _ \<Rightarrow> [])"

definition check_range :: "host \<Rightarrow> string \<Rightarrow> jsval \<Rightarrow> jsval \<Rightarrow> violation list" where
  "check_range h path schema v = (case v of
      JNum n \<Rightarrow>
        (let lo = jget schema ''minimum''; hi = jget schema ''maximum'' in
         (if \<not> nullish lo \<and> num_lt n (js_Number h lo) then [BelowMinimum (pathLabel path) lo] else []) @
         (if \<not> nullish hi \<and> num_lt (js_Number h hi) n then [AboveMaximum (pathLabel path) hi] else []))
    | _ \<Rightarrow> [])"

definition check_required :: "host \<Rightarrow> string \<Rightarrow> jsval \<Rightarrow> jsval \<Rightarrow> violation list" where
  "check_required h path schema v = (case jget schema ''required'' of
      JArr ks \<Rightarrow>
        if jsonType v = ''object''
        then map (\<lambda>k. MissingRequired (pathLabel path) k) (filter (\<lambda>k. \<not> js_in (js_String h k) v) ks)
        else []
    | _ \<Rightarrow> [])"

definition check_additional :: "string \<Rightarrow> jsval \<Rightarrow> jsval \<Rightarrow> violation list" where
  "check_additional path schema v =
     (if jget schema ''additionalProperties'' = JBool False
      then map (\<lambda>k. AdditionalProperty (pathLabel path) k)
             (filter (\<lambda>k. k \<notin> set (obj_keys (jget schema ''properties''))) (obj_keys v))
      else [])"

definition sub_path :: "string \<Rightarrow> string \<Rightarrow> string" where
  "sub_path path k = (if path = [] then k else path @ ''.'' @ k)"

definition index_path :: "string \<Rightarrow> nat \<Rightarrow> string" where
  "index_path path i = path @ ''['' @ nat_str i @ '']''"

definition array_items :: "jsval \<Rightarrow> jsval list" where
  "array_items v = (case v of JArr xs \<Rightarrow> xs | _ \<Rightarrow> [])"

function walk :: "host \<Rightarrow> string \<Rightarrow> jsval \<Rightarrow> jsval \<Rightarrow> violation list" where
  "walk h path schema v =
     (if \<not> truthy schema \<or> typeof schema \<noteq> ''object'' then []
      else if truthy (jget schema ''type'') \<and> \<not> type_matched schema v
      then check_enum path schema v @ [TypeMismatch (pathLabel path) (allowed_types schema) (jsonType v)]
      else
        check_enum path schema v @ check_length h path schema v @ check_range h path schema v @
        check_required h path schema v @
        (if truthy (jget schema ''properties'') \<and> jsonType v = ''object''
         then concat (map (\<lambda>p. if js_in (fst p) v
                               then walk h (sub_path path (fst p)) (snd p) (js_prop v (fst p)) else [])
                        (obj_entries (jget schema ''properties''))) @
              check_additional path schema v
         else []) @
        (if truthy (jget schema ''items'')
         then concat (map (\<lambda>i. walk h (index_path path i) (jget schema ''items'') (array_items v ! i))
                        [0..<length (array_items v)])
         else []))"
  by pat_completeness auto
termination
proof (relation "measure (\<lambda>(h, path, schema, v). if \<exists>c. schema = JStr c then 0 else Suc (size schema))", goal_cases)
  case 1
  then show ?case by simp
next
  case (2 h path schema v p)
  then have "jget schema ''properties'' \<noteq> JUndef" by auto
  then have "size (jget schema ''properties'') < size schema" by (rule jget_size)
  moreover have "size (snd p) < size (jget schema ''properties'') \<or> (\<exists>c. snd p = JStr c)"
    using 2 obj_entries_size [of "fst p" "snd p"] by simp
  ultimately show ?case using 2 by auto
next
  case (3 h path schema v i)
  then have "jget schema ''items'' \<noteq> JUndef" by auto
  then have "size (jget schema ''items'') < size schema" by (rule jget_size)
  with 3 show ?case by auto
qed

declare walk.simps [simp del]

lemma walk_required:
  "truthy schema \<Longrightarrow> typeof schema = ''object'' \<Longrightarrow> check_required h path schema v \<noteq> [] \<Longrightarrow>
   walk h path schema v \<noteq> []"
  by (subst walk.simps) simp

lemma jsonType_obj: "jsonType (JObj kvs) = ''object''"
  by (simp add: jsonType_def)

lemma required_missing:
  "jget schema ''required'' = JArr ks \<Longrightarrow> jsonType v = ''object'' \<Longrightarrow> JStr k \<in> set ks \<Longrightarrow> \<not> js_in k v \<Longrightarrow>
   check_required h path schema v \<noteq> []"
  by (auto simp: check_required_def js_String_def filter_empty_conv intro: bexI [of _ "JStr k"])

definition validateAgainst :: "host \<Rightarrow> jsval \<Rightarrow> jsval \<Rightarrow> violation list" where
  "validateAgainst h schema v = walk h [] schema v"

section \<open>applyOnEmit\<close>

definition getSchema :: "bus \<Rightarrow> string \<Rightarrow> schema_row option" where
  "getSchema b t = (case rev (sort_key sc_version (filter (\<lambda>r. sc_event_type r = t) (schemas b))) of
      [] \<Rightarrow> None | r # _ \<Rightarrow> Some r)"

datatype reg_warning =
    Offloaded string nat
  | Oversize string nat int
  | SchemaUnparseable string
  | SchemaMismatch string "violation list"

record reg_result =
  rg_payload :: string
  rg_cas_sha :: "string option"
  rg_version :: "int option"
  rg_warnings :: "reg_warning list"

definition cas_stub :: "string \<Rightarrow> jsval" where
  "cas_stub sha = JObj [(''$cas'', JStr sha)]"

text \<open>The size policy: the payload to store, the digest when it was offloaded, the warnings.\<close>

definition size_policy ::
  "host \<Rightarrow> put_env \<Rightarrow> bool \<Rightarrow> string \<Rightarrow> schema_row \<Rightarrow> string \<Rightarrow> cas_files
     \<Rightarrow> (string \<times> string option \<times> reg_warning list) res \<times> cas_files" where
  "size_policy h env has_dir t sc payload fs =
     (let size = utf8_length payload in
      if int size > sc_payload_max_bytes sc then
        (case sc_payload_oversize sc of
           OverStrict \<Rightarrow> (raise_wb WB008 [(''event_type'', JStr t), (''size'', jint (int size)),
             (''payload_max_bytes'', jint (sc_payload_max_bytes sc)), (''mode'', JStr ''strict'')], fs)
         | OverCasAuto \<Rightarrow>
             if \<not> has_dir then (raise_wb WB008 [(''event_type'', JStr t)], fs)
             else (case cas_put h env None (CString payload) fs of
                     (Inl e, fs') \<Rightarrow> (Inl e, fs')
                   | (Inr sha, fs') \<Rightarrow>
                       (Inr (h_stringify h (cas_stub sha), Some sha, [Offloaded sha size]), fs'))
         | OverWarn \<Rightarrow> (Inr (payload, None, [Oversize t size (sc_payload_max_bytes sc)]), fs))
      else (Inr (payload, None, []), fs))"

definition schema_warnings :: "host \<Rightarrow> string \<Rightarrow> schema_row \<Rightarrow> string \<Rightarrow> reg_warning list" where
  "schema_warnings h t sc payload =
     (case h_parse h (sc_json_schema sc) of
        None \<Rightarrow> [SchemaUnparseable t]
      | Some parsed \<Rightarrow>
          if \<not> truthy parsed then []
          else (case h_parse h payload of
                  None \<Rightarrow> [SchemaMismatch t [NotJson]]
                | Some v \<Rightarrow> (let vs = validateAgainst h parsed v in
                             if vs \<noteq> [] then [SchemaMismatch t vs] else [])))"

definition applyOnEmit ::
  "host \<Rightarrow> put_env \<Rightarrow> bool \<Rightarrow> bus \<Rightarrow> string \<Rightarrow> string \<Rightarrow> cas_files \<Rightarrow> reg_result res \<times> cas_files" where
  "applyOnEmit h env has_dir b t payloadStr fs =
     (case getSchema b t of
        None \<Rightarrow> (Inr \<lparr>rg_payload = payloadStr, rg_cas_sha = None, rg_version = None, rg_warnings = []\<rparr>, fs)
      | Some sc \<Rightarrow>
          (case size_policy h env has_dir t sc payloadStr fs of
             (Inl e, fs') \<Rightarrow> (Inl e, fs')
           | (Inr (payload, sha, ws), fs') \<Rightarrow>
               (Inr \<lparr>rg_payload = payload, rg_cas_sha = sha, rg_version = Some (sc_version sc),
                     rg_warnings = ws @ schema_warnings h t sc payload\<rparr>, fs')))"

section \<open>Facts for the callers\<close>

lemma getSchema_Some: "getSchema b t = Some sc \<Longrightarrow>
   sc \<in> set (schemas b) \<and> sc_event_type sc = t \<and>
   (\<forall>r\<in>set (schemas b). sc_event_type r = t \<longrightarrow> sc_version r \<le> sc_version sc)"
proof -
  let ?l = "sort_key sc_version (filter (\<lambda>r. sc_event_type r = t) (schemas b))"
  assume "getSchema b t = Some sc"
  then obtain xs where "rev ?l = sc # xs" by (auto simp: getSchema_def split: list.splits)
  then have l: "?l = rev xs @ [sc]" by (simp add: rev_eq_Cons_iff)
  have "sorted (map sc_version ?l)" by (rule sorted_sort_key)
  then have le: "\<forall>r\<in>set xs. sc_version r \<le> sc_version sc" unfolding l by (auto simp: sorted_append)
  have "set ?l = {r \<in> set (schemas b). sc_event_type r = t}" by simp
  then have "{r \<in> set (schemas b). sc_event_type r = t} = insert sc (set xs)" unfolding l by simp
  then show ?thesis using le by auto
qed

lemma getSchema_None: "getSchema b t = None \<longleftrightarrow> (\<forall>r\<in>set (schemas b). sc_event_type r \<noteq> t)"
proof -
  have "getSchema b t = None \<longleftrightarrow> sort_key sc_version (filter (\<lambda>r. sc_event_type r = t) (schemas b)) = []"
    unfolding getSchema_def by (simp split: list.split)
  also have "\<dots> \<longleftrightarrow> filter (\<lambda>r. sc_event_type r = t) (schemas b) = []"
    by (metis length_sort length_0_conv)
  finally show ?thesis by (auto simp: filter_empty_conv)
qed

lemma applyOnEmit_wf:
  assumes "sha_hex h" and "\<And>x. 2 \<le> length (h_sha256 h x)" and "cas_wf h fs"
  shows "cas_wf h (snd (applyOnEmit h env d b t p fs))"
proof -
  have "cas_wf h (snd (size_policy h env d t sc p fs))" for sc
    using cas_put_wf [OF assms, of env None "CString p"] assms(3)
    by (auto simp: size_policy_def Let_def split: oversize_mode.splits prod.splits sum.splits)
  then show ?thesis using assms(3)
    by (auto simp: applyOnEmit_def split: option.splits prod.splits sum.splits)
       (metis (no_types, lifting) snd_conv)+
qed

lemma size_policy_Inr:
  assumes "size_policy h env d t sc p fs = (Inr (q, sha, ws), fs')"
  shows "(sha = None \<and> q = p \<and> fs' = fs) \<or>
     (\<exists>s. sha = Some s \<and> q = h_stringify h (cas_stub s) \<and> sc_payload_oversize sc = OverCasAuto \<and>
        sc_payload_max_bytes sc < int (utf8_length p) \<and>
        cas_put h env None (CString p) fs = (Inr s, fs'))"
  using assms
  by (auto simp: size_policy_def Let_def split: oversize_mode.splits prod.splits sum.splits if_splits)

lemma applyOnEmit_Inr:
  assumes "applyOnEmit h env d b t p fs = (Inr r, fs')"
  shows "(rg_cas_sha r = None \<and> rg_payload r = p \<and> fs' = fs) \<or>
     (\<exists>s sc. getSchema b t = Some sc \<and> sc_payload_oversize sc = OverCasAuto \<and>
        sc_payload_max_bytes sc < int (utf8_length p) \<and>
        rg_cas_sha r = Some s \<and> rg_payload r = h_stringify h (cas_stub s) \<and>
        cas_put h env None (CString p) fs = (Inr s, fs'))"
proof (cases "getSchema b t")
  case None
  with assms show ?thesis by (auto simp: applyOnEmit_def)
next
  case (Some sc)
  with assms obtain q sha ws where sp: "size_policy h env d t sc p fs = (Inr (q, sha, ws), fs')"
    and r: "rg_payload r = q" "rg_cas_sha r = sha"
    by (auto simp: applyOnEmit_def split: prod.splits sum.splits)
  from size_policy_Inr [OF sp] r Some show ?thesis by auto
qed

lemma applyOnEmit_warnings:
  "applyOnEmit h env d b t p fs = (Inr r, fs') \<Longrightarrow> getSchema b t = Some sc \<Longrightarrow>
   set (schema_warnings h t sc (rg_payload r)) \<subseteq> set (rg_warnings r)"
  by (auto simp: applyOnEmit_def split: prod.splits sum.splits)

section \<open>Properties\<close>

text \<open>The registry blocks an emit only for size: when \<open>applyOnEmit\<close> throws, the newest schema
  registered for the event type is in \<open>strict\<close> mode, or in \<open>cas-auto\<close> mode with a failing store, and
  the payload exceeds its cap. A payload that violates the JSON Schema, or a schema text that does
  not parse, never blocks.\<close>

theorem registry_blocks_only_on_size:
  assumes "applyOnEmit h env d b t p fs = (Inl e, fs')"
  shows "\<exists>sc. getSchema b t = Some sc \<and> sc_payload_max_bytes sc < int (utf8_length p) \<and>
     ((sc_payload_oversize sc = OverStrict \<and> is_wb WB008 e \<and> fs' = fs) \<or>
      (sc_payload_oversize sc = OverCasAuto \<and>
         (\<not> d \<and> is_wb WB008 e \<and> fs' = fs \<or> d \<and> cas_put h env None (CString p) fs = (Inl e, fs'))))"
proof (cases "getSchema b t")
  case None
  with assms show ?thesis by (simp add: applyOnEmit_def)
next
  case (Some sc)
  with assms have "size_policy h env d t sc p fs = (Inl e, fs')"
    by (auto simp: applyOnEmit_def split: prod.splits sum.splits)
  with Some show ?thesis
    by (auto simp: size_policy_def Let_def is_wb_def
        split: oversize_mode.splits prod.splits sum.splits if_splits)
qed

definition strict_schema :: schema_row where
  "strict_schema = \<lparr>sc_event_type = ''wicked.a'', sc_version = 1, sc_json_schema = ''{}'',
     sc_payload_max_bytes = 3, sc_payload_oversize = OverStrict\<rparr>"

lemma registry_blocks_only_on_size_witness:
  "\<exists>e sc. applyOnEmit demo_host (plain_env 7 0 (\<lambda>_. ''0'')) True (empty_bus\<lparr>schemas := [strict_schema]\<rparr>) ''wicked.a'' ''{abc}'' []
      = (Inl e, []) \<and> getSchema (empty_bus\<lparr>schemas := [strict_schema]\<rparr>) ''wicked.a'' = Some sc \<and>
      sc_payload_oversize sc = OverStrict"
proof -
  let ?b = "empty_bus\<lparr>schemas := [strict_schema]\<rparr>"
  have g: "getSchema ?b ''wicked.a'' = Some strict_schema" by (simp add: getSchema_def strict_schema_def)
  then obtain e where a: "applyOnEmit demo_host (plain_env 7 0 (\<lambda>_. ''0'')) True ?b ''wicked.a'' ''{abc}'' [] = (Inl e, [])"
    by (simp add: applyOnEmit_def size_policy_def Let_def strict_schema_def utf8_length_def)
  from registry_blocks_only_on_size [OF a] a g show ?thesis by (auto simp: strict_schema_def)
qed

text \<open>An offloaded payload is not lost: when \<open>applyOnEmit\<close> replaces a payload by a reference,
  the stored text parses to \<open>{ $cas: sha }\<close>, \<open>payload_cas_sha\<close> is that digest, and the content store
  holds content with that digest - the payload's own bytes when the object is new.\<close>

theorem offloaded_payload_recoverable:
  assumes "sha_hex h" and "cas_wf h fs"
    and "applyOnEmit h env d b t p fs = (Inr r, fs')" and "rg_cas_sha r = Some sha"
    and "h_parse h (h_stringify h (cas_stub sha)) = Some (cas_stub sha)"
    and "Some (SysError ''EEXIST'') \<notin> set (pe_renames env)"
  shows "h_parse h (rg_payload r) = Some (cas_stub sha) \<and> sha = h_sha256 h (utf8_encode p) \<and>
     (\<exists>c. cas_get None fs' sha = Inr (Some c) \<and> h_sha256 h c = sha \<and>
        (\<not> cas_exists fs sha \<longrightarrow> c = utf8_encode p))"
proof -
  from applyOnEmit_Inr [OF assms(3)] assms(4) have pl: "rg_payload r = h_stringify h (cas_stub sha)"
    and put: "cas_put h env None (CString p) fs = (Inr sha, fs')" by auto
  from cas_put_readback [OF assms(1,2) put assms(6)] pl assms(5) show ?thesis
    by (auto simp: ensureBuffer_def)
qed

definition cas_schema :: schema_row where
  "cas_schema = strict_schema\<lparr>sc_payload_oversize := OverCasAuto, sc_json_schema := ''{needs x}''\<rparr>"

lemma cas_schema_emit:
  "\<exists>r fs'. applyOnEmit demo_host (plain_env 7 0 (\<lambda>_. ''0'')) True (empty_bus\<lparr>schemas := [cas_schema]\<rparr>)
      ''wicked.a'' ''{abc}'' [] = (Inr r, fs') \<and> rg_cas_sha r = Some ''ab5''"
proof -
  have g: "getSchema (empty_bus\<lparr>schemas := [cas_schema]\<rparr>) ''wicked.a'' = Some cas_schema"
    by (simp add: getSchema_def cas_schema_def strict_schema_def)
  have "cas_clean demo_host []" using demo_sha_hex by (simp add: cas_clean_def)
  moreover have "utf8_length ''{abc}'' \<le> DEFAULT_OBJECT_MAX_BYTES"
    by (simp add: utf8_length_def DEFAULT_OBJECT_MAX_BYTES_def)
  ultimately obtain fs' where "cas_put demo_host (plain_env 7 0 (\<lambda>_. ''0'')) None (CString ''{abc}'') []
      = (Inr (h_sha256 demo_host (utf8_encode ''{abc}'')), fs')"
    using plain_put by blast
  moreover have "h_sha256 demo_host (utf8_encode ''{abc}'') = ''ab5''"
    by (simp add: demo_host_def nat_str.simps utf8_encode_def) code_simp
  ultimately show ?thesis using g
    by (simp add: applyOnEmit_def size_policy_def Let_def cas_schema_def strict_schema_def utf8_length_def)
qed

lemma demo_stub: "h_parse demo_host (h_stringify demo_host (cas_stub ''ab5'')) = Some (cas_stub ''ab5'')"
  by (simp add: demo_host_def cas_stub_def)

lemma offloaded_payload_recoverable_witness:
  "\<exists>r fs' c. applyOnEmit demo_host (plain_env 7 0 (\<lambda>_. ''0'')) True (empty_bus\<lparr>schemas := [cas_schema]\<rparr>)
      ''wicked.a'' ''{abc}'' [] = (Inr r, fs') \<and> cas_get None fs' ''ab5'' = Inr (Some c)"
proof -
  obtain r fs' where a: "applyOnEmit demo_host (plain_env 7 0 (\<lambda>_. ''0'')) True (empty_bus\<lparr>schemas := [cas_schema]\<rparr>)
      ''wicked.a'' ''{abc}'' [] = (Inr r, fs')" and s: "rg_cas_sha r = Some ''ab5''"
    using cas_schema_emit by blast
  have wf: "cas_wf demo_host []" by (simp add: cas_wf_def)
  have no: "Some (SysError ''EEXIST'') \<notin> set (pe_renames (plain_env 7 0 (\<lambda>_. ''0'')))" by (simp add: plain_env_def)
  from offloaded_payload_recoverable [OF demo_sha_hex wf a s demo_stub no] a show ?thesis by blast
qed

text \<open>An offloaded payload is validated as its stub: the JSON Schema check of \<open>applyOnEmit\<close> runs
  on the rewritten text \<open>{ $cas: sha }\<close>, so a schema that requires any other property reports a
  mismatch for every offloaded payload, also for one that satisfies the schema.\<close>

theorem offloaded_payload_always_mismatches:
  assumes "applyOnEmit h env d b t p fs = (Inr r, fs')" and "rg_cas_sha r = Some sha"
    and "getSchema b t = Some sc" and "h_parse h (sc_json_schema sc) = Some (JObj kvs)"
    and "jget (JObj kvs) ''required'' = JArr ks" and "JStr k \<in> set ks"
    and "k \<noteq> ''$cas''" and "k \<notin> set proto_keys"
    and "h_parse h (h_stringify h (cas_stub sha)) = Some (cas_stub sha)"
  shows "\<exists>vs. vs \<noteq> [] \<and> SchemaMismatch t vs \<in> set (rg_warnings r)"
proof -
  from applyOnEmit_Inr [OF assms(1)] assms(2) have pl: "rg_payload r = h_stringify h (cas_stub sha)" by auto
  have "\<not> js_in k (cas_stub sha)" using assms(7,8) by (simp add: js_in_def cas_stub_def)
  then have "check_required h [] (JObj kvs) (cas_stub sha) \<noteq> []"
    by (intro required_missing [OF assms(5) _ assms(6)]) (simp_all add: cas_stub_def jsonType_obj)
  then have "validateAgainst h (JObj kvs) (cas_stub sha) \<noteq> []"
    unfolding validateAgainst_def by (intro walk_required) simp_all
  then have "\<exists>vs. vs \<noteq> [] \<and> SchemaMismatch t vs \<in> set (schema_warnings h t sc (rg_payload r))"
    using assms(4,9) pl by (simp add: schema_warnings_def Let_def)
  with applyOnEmit_warnings [OF assms(1,3)] show ?thesis by blast
qed

lemma offloaded_payload_always_mismatches_witness:
  "\<exists>r fs' vs. applyOnEmit demo_host (plain_env 7 0 (\<lambda>_. ''0'')) True (empty_bus\<lparr>schemas := [cas_schema]\<rparr>)
      ''wicked.a'' ''{abc}'' [] = (Inr r, fs') \<and> vs \<noteq> [] \<and> SchemaMismatch ''wicked.a'' vs \<in> set (rg_warnings r)"
proof -
  obtain r fs' where a: "applyOnEmit demo_host (plain_env 7 0 (\<lambda>_. ''0'')) True (empty_bus\<lparr>schemas := [cas_schema]\<rparr>)
      ''wicked.a'' ''{abc}'' [] = (Inr r, fs')" and s: "rg_cas_sha r = Some ''ab5''"
    using cas_schema_emit by blast
  have g: "getSchema (empty_bus\<lparr>schemas := [cas_schema]\<rparr>) ''wicked.a'' = Some cas_schema"
    by (simp add: getSchema_def cas_schema_def strict_schema_def)
  have q: "h_parse demo_host (sc_json_schema cas_schema) = Some (JObj [(''required'', JArr [JStr ''x''])])"
    by (simp add: demo_host_def cas_schema_def)
  from offloaded_payload_always_mismatches [OF a s g q _ _ _ _ demo_stub, of "[JStr ''x'']" "''x''"] a
  show ?thesis by (auto simp: proto_keys_def)
qed

end
