(* ===== verification/BusCausality.thy ===== *)
theory BusCausality
  imports BusValues
begin

text \<open>
  Causality context, \<open>lib/causality.js\<close>. The store of \<open>AsyncLocalStorage\<close> is the optional frame
  of the running body; a body run by \<open>withContext\<close> gets a fresh frame, and the caller's frame is
  back when it returns. \<open>env\<close> is the process environment. Proved: a child process that inherits
  \<open>causalityEnv()\<close> reads the context the parent had.
\<close>

section \<open>Contexts\<close>

record causality =
  cz_correlation :: "string option"
  cz_session :: "string option"
  cz_parent :: "int option"
  cz_producer :: "string option"

type_synonym environ = "string \<Rightarrow> string option"

definition no_context :: causality where
  "no_context = \<lparr>cz_correlation = None, cz_session = None, cz_parent = None, cz_producer = None\<rparr>"

definition ENV_CORRELATION :: string where "ENV_CORRELATION = ''WICKED_BUS_CORRELATION_ID''"
definition ENV_SESSION :: string where "ENV_SESSION = ''WICKED_BUS_SESSION_ID''"
definition ENV_PARENT :: string where "ENV_PARENT = ''WICKED_BUS_PARENT_EVENT_ID''"
definition ENV_PRODUCER :: string where "ENV_PRODUCER = ''WICKED_BUS_PRODUCER_ID''"

lemmas ENV_defs = ENV_CORRELATION_def ENV_SESSION_def ENV_PARENT_def ENV_PRODUCER_def

text \<open>\<open>v || null\<close>.\<close>

definition nonempty :: "string option \<Rightarrow> string option" where
  "nonempty v = (case v of Some s \<Rightarrow> if s = [] then None else Some s | None \<Rightarrow> None)"

definition parseIntOrNull :: "string option \<Rightarrow> int option" where
  "parseIntOrNull v = (case v of None \<Rightarrow> None | Some s \<Rightarrow> parse_int s)"

definition currentContext :: "environ \<Rightarrow> causality option \<Rightarrow> causality" where
  "currentContext env frame =
     (case frame of
        Some f \<Rightarrow> f
      | None \<Rightarrow>
          let e = \<lparr>cz_correlation = nonempty (env ENV_CORRELATION), cz_session = nonempty (env ENV_SESSION),
                   cz_parent = parseIntOrNull (env ENV_PARENT), cz_producer = nonempty (env ENV_PRODUCER)\<rparr>
          in if cz_correlation e = None \<and> cz_session e = None \<and>
                (cz_parent e = None \<or> cz_parent e = Some 0) \<and> cz_producer e = None
             then no_context else e)"

text \<open>\<open>sanitize\<close>: the fields that are truthy, as strings; a parent only when a positive integer.\<close>

definition clean_string :: "host \<Rightarrow> jsval \<Rightarrow> string option" where
  "clean_string h v = (if truthy v then Some (js_String h v) else None)"

definition clean_parent :: "host \<Rightarrow> jsval \<Rightarrow> int option" where
  "clean_parent h v =
     (if nullish v then None
      else (case js_Number h v of
              Fin q \<Rightarrow> if of_int \<lfloor>q\<rfloor> = q \<and> 0 < q then Some \<lfloor>q\<rfloor> else None
            | _ \<Rightarrow> None))"

definition sanitize :: "host \<Rightarrow> jsval \<Rightarrow> causality" where
  "sanitize h ctx =
     \<lparr>cz_correlation = clean_string h (jget ctx ''correlation_id''),
      cz_session = clean_string h (jget ctx ''session_id''),
      cz_parent = clean_parent h (jget ctx ''parent_event_id''),
      cz_producer = clean_string h (jget ctx ''producer_id'')\<rparr>"

text \<open>\<open>{ ...a, ...b }\<close>.\<close>

definition over :: "'a option \<Rightarrow> 'a option \<Rightarrow> 'a option" where
  "over a b = (case b of Some x \<Rightarrow> Some x | None \<Rightarrow> a)"

definition spread :: "causality \<Rightarrow> causality \<Rightarrow> causality" where
  "spread a b =
     \<lparr>cz_correlation = over (cz_correlation a) (cz_correlation b), cz_session = over (cz_session a) (cz_session b),
      cz_parent = over (cz_parent a) (cz_parent b), cz_producer = over (cz_producer a) (cz_producer b)\<rparr>"

text \<open>A body is a computation on the frame and the rest of the state.\<close>

type_synonym ('s, 'a) body = "causality option \<Rightarrow> 's \<Rightarrow> 'a \<times> causality option \<times> 's"

definition withContext :: "host \<Rightarrow> environ \<Rightarrow> jsval \<Rightarrow> ('s, 'a) body \<Rightarrow> ('s, 'a) body" where
  "withContext h env ctx fn frame s =
     (let merged = spread (currentContext env frame) (sanitize h ctx);
          (r, _, s') = fn (Some merged) s
      in (r, frame, s'))"

definition recordEmit :: "int \<Rightarrow> causality option \<Rightarrow> causality option" where
  "recordEmit eventId frame = map_option (\<lambda>f. f\<lparr>cz_parent := Some eventId\<rparr>) frame"

definition truthy_field :: "string \<Rightarrow> string option \<Rightarrow> (string \<times> string) list" where
  "truthy_field k v = (case v of Some s \<Rightarrow> if s = [] then [] else [(k, s)] | None \<Rightarrow> [])"

definition causalityEnv :: "environ \<Rightarrow> causality option \<Rightarrow> (string \<times> string) list" where
  "causalityEnv env frame =
     (let ctx = currentContext env frame in
      truthy_field ENV_CORRELATION (cz_correlation ctx) @
      truthy_field ENV_SESSION (cz_session ctx) @
      (case cz_parent ctx of Some n \<Rightarrow> [(ENV_PARENT, int_str n)] | None \<Rightarrow> []) @
      truthy_field ENV_PRODUCER (cz_producer ctx))"

text \<open>The environment of a child spawned with \<open>{ ...process.env, ...causalityEnv() }\<close>.\<close>

definition child_env :: "environ \<Rightarrow> causality option \<Rightarrow> environ" where
  "child_env env frame k = (case map_of (causalityEnv env frame) k of Some v \<Rightarrow> Some v | None \<Rightarrow> env k)"

section \<open>The environment of a child\<close>

lemma map_of_truthy_field:
  "map_of (truthy_field k v) k' = (if k' = k then nonempty v else None)"
  by (auto simp: truthy_field_def nonempty_def split: option.splits)

lemma causalityEnv_lookup:
  "map_of (causalityEnv env (Some ctx)) ENV_CORRELATION = nonempty (cz_correlation ctx)"
  "map_of (causalityEnv env (Some ctx)) ENV_SESSION = nonempty (cz_session ctx)"
  "map_of (causalityEnv env (Some ctx)) ENV_PARENT = map_option int_str (cz_parent ctx)"
  "map_of (causalityEnv env (Some ctx)) ENV_PRODUCER = nonempty (cz_producer ctx)"
  by (cases "cz_parent ctx";
      simp add: causalityEnv_def currentContext_def Let_def map_add_def map_of_truthy_field ENV_defs
        split: option.split)+

lemma nonempty_id: "v \<noteq> Some [] \<Longrightarrow> nonempty v = v"
  by (cases v) (auto simp: nonempty_def)

lemma child_env_unset:
  "env k = None \<Longrightarrow> child_env env frame k = map_of (causalityEnv env frame) k"
  by (simp add: child_env_def split: option.split)

section \<open>Properties\<close>

text \<open>A spawned child re-enters the trace: with the causality variables unset in the parent's own
  environment, a child that inherits \<open>causalityEnv()\<close> and has no frame of its own reads exactly the
  parent's active context (its strings non-empty, its parent id not 0).\<close>

theorem causality_env_roundtrip:
  assumes "\<forall>k\<in>{ENV_CORRELATION, ENV_SESSION, ENV_PARENT, ENV_PRODUCER}. env k = None"
    and "frame = Some ctx" and "cz_correlation ctx \<noteq> Some []" and "cz_session ctx \<noteq> Some []"
    and "cz_producer ctx \<noteq> Some []" and "cz_parent ctx \<noteq> Some 0"
  shows "currentContext (child_env env frame) None = ctx"
proof -
  have "parseIntOrNull (map_option int_str (cz_parent ctx)) = cz_parent ctx"
    by (cases "cz_parent ctx") (simp_all add: parseIntOrNull_def parse_int_str)
  then show ?thesis using assms
    by (cases ctx) (simp add: currentContext_def [of _ None] Let_def child_env_unset causalityEnv_lookup nonempty_id
        no_context_def)
qed

lemma causality_env_roundtrip_witness:
  "currentContext (child_env (\<lambda>_. None) (Some \<lparr>cz_correlation = Some ''c1'', cz_session = None,
      cz_parent = Some 42, cz_producer = Some ''p''\<rparr>)) None
   = \<lparr>cz_correlation = Some ''c1'', cz_session = None, cz_parent = Some 42, cz_producer = Some ''p''\<rparr>"
  by (rule causality_env_roundtrip) simp_all

end
