(* ===== verification/BusEmit.thy ===== *)
theory BusEmit
  imports BusRegistry BusCausality
begin

text \<open>
  Emitting an event, \<open>lib/emit.js\<close>: validation, the registry's policy, the causality fields, the
  \<open>INSERT\<close> under the \<open>UNIQUE\<close> idempotency key, the release of a key whose dedup window has passed,
  and the mapping of driver errors. A driver fault (a full disk, a busy database) is an argument,
  as are the clock and the identifiers of \<open>uuidv4()\<close>. Proved: an emit either appends exactly one
  row with a fresh, larger id and leaves the others' contents alone, or changes no table; a reused
  key is refused while its holder's window is open; the invariant is kept.
\<close>

section \<open>The row\<close>

record emit_config =
  cf_ttl_hours :: jsval
  cf_dedup_ttl_hours :: jsval
  cf_max_payload_bytes :: rat
  cf_daemon_notify :: jsval

text \<open>What the driver stores for a bound value: TEXT columns and the INTEGER column of the parent.\<close>

definition bind_text :: "host \<Rightarrow> jsval \<Rightarrow> (string option) res" where
  "bind_text h v = (case v of
      JNull \<Rightarrow> Inr None
    | JStr s \<Rightarrow> Inr (Some s)
    | JNum n \<Rightarrow> Inr (if n = NaN then None else Some (h_sql_text h n))
    | _ \<Rightarrow> Inl (PlainError ''TypeError''))"

definition bind_integer :: "host \<Rightarrow> jsval \<Rightarrow> sqlval res" where
  "bind_integer h v = (case v of
      JNull \<Rightarrow> Inr SNull
    | JNum (Fin q) \<Rightarrow> Inr (if of_int \<lfloor>q\<rfloor> = q then SInt \<lfloor>q\<rfloor> else SReal q)
    | JNum NaN \<Rightarrow> Inr SNull
    | JNum _ \<Rightarrow> Inr (h_sql_int h v)
    | JStr _ \<Rightarrow> Inr (h_sql_int h v)
    | _ \<Rightarrow> Inl (PlainError ''TypeError''))"

definition js_or_null :: "string option \<Rightarrow> jsval" where
  "js_or_null v = (case v of Some s \<Rightarrow> JStr s | None \<Rightarrow> JNull)"

definition chooseField :: "jsval \<Rightarrow> jsval \<Rightarrow> string \<Rightarrow> jsval" where
  "chooseField event ctx_value key =
     (if has_own event key then (if nullish (jget event key) then JNull else jget event key) else ctx_value)"

text \<open>\<open>v || d\<close> for a field that validation left a string or nullish.\<close>

definition string_or :: "string \<Rightarrow> jsval \<Rightarrow> string" where
  "string_or d v = (case v of JStr s \<Rightarrow> if s = [] then d else s | _ \<Rightarrow> d)"

definition expiry :: "host \<Rightarrow> rat \<Rightarrow> jsval \<Rightarrow> jsnum" where
  "expiry h emittedAt hours = num_shift emittedAt (num_scale 3600000 (js_Number h hours))"

definition idempotency_key :: "jsval \<Rightarrow> string \<Rightarrow> jsval" where
  "idempotency_key event uuid =
     (if truthy (jget event ''idempotency_key'') then jget event ''idempotency_key'' else JStr uuid)"

definition metadata_value :: "host \<Rightarrow> jsval \<Rightarrow> string option" where
  "metadata_value h event = (let m = jget event ''metadata'' in
     if nullish m then None else (case m of JStr s \<Rightarrow> Some s | _ \<Rightarrow> Some (h_stringify h m)))"

text \<open>The bound parameters as a row without its id; \<open>Inl\<close> when one cannot be bound.\<close>

definition emit_row ::
  "host \<Rightarrow> emit_config \<Rightarrow> jsval \<Rightarrow> causality \<Rightarrow> reg_result \<Rightarrow> rat \<Rightarrow> string \<Rightarrow> event_row res" where
  "emit_row h cfg event ctx rg emittedAt uuid =
     (let ttl = (if nullish (jget event ''ttl_hours'') then cf_ttl_hours cfg else jget event ''ttl_hours'') in
      case bind_text h (idempotency_key event uuid) of
        Inl e \<Rightarrow> Inl e
      | Inr key \<Rightarrow>
     (case bind_text h (chooseField event (js_or_null (cz_correlation ctx)) ''correlation_id'') of
        Inl e \<Rightarrow> Inl e
      | Inr corr \<Rightarrow>
     (case bind_text h (chooseField event (js_or_null (cz_session ctx)) ''session_id'') of
        Inl e \<Rightarrow> Inl e
      | Inr sess \<Rightarrow>
     (case bind_integer h (chooseField event
             (case cz_parent ctx of Some n \<Rightarrow> jint n | None \<Rightarrow> JNull) ''parent_event_id'') of
        Inl e \<Rightarrow> Inl e
      | Inr parent \<Rightarrow>
     (case bind_text h (chooseField event (js_or_null (cz_producer ctx)) ''producer_id'') of
        Inl e \<Rightarrow> Inl e
      | Inr producer \<Rightarrow>
          Inr \<lparr>ev_id = 0, ev_type = string_or [] (jget event ''event_type''),
               ev_domain = string_or [] (jget event ''domain''),
               ev_subdomain = string_or [] (jget event ''subdomain''),
               ev_payload = rg_payload rg,
               ev_schema_version = string_or ''1.0.0'' (jget event ''schema_version''),
               ev_key = (case key of Some k \<Rightarrow> k | None \<Rightarrow> []),
               ev_emitted_at = emittedAt,
               ev_expires_at = expiry h emittedAt ttl,
               ev_dedup_expires_at = expiry h emittedAt (cf_dedup_ttl_hours cfg),
               ev_metadata = metadata_value h event, ev_parent = parent, ev_session = sess,
               ev_correlation = corr, ev_producer = producer, ev_origin = None,
               ev_registry_version = rg_version rg, ev_cas_sha = rg_cas_sha rg\<rparr>)))))"

section \<open>The statements\<close>

definition key_holder :: "string \<Rightarrow> bus \<Rightarrow> event_row option" where
  "key_holder k b = find (\<lambda>e. ev_key e = k) (events b)"

definition UNIQUE_error :: js_error where
  "UNIQUE_error = SqliteError ''SQLITE_CONSTRAINT_UNIQUE''"

definition insert_event :: "event_row \<Rightarrow> bus \<Rightarrow> int res \<times> bus" where
  "insert_event row b =
     (if ev_expires_at row = NaN \<or> ev_dedup_expires_at row = NaN
      then (Inl (SqliteError ''SQLITE_CONSTRAINT_NOTNULL''), b)
      else if key_holder (ev_key row) b \<noteq> None then (Inl UNIQUE_error, b)
      else (Inr (events_seq b + 1),
            b\<lparr>events := events b @ [row\<lparr>ev_id := events_seq b + 1\<rparr>], events_seq := events_seq b + 1\<rparr>))"

definition released_key :: "string \<Rightarrow> int \<Rightarrow> string \<Rightarrow> string" where
  "released_key k i uuid = k @ ''#dedup-expired:'' @ int_str i @ '':'' @ uuid"

definition rename_key :: "int \<Rightarrow> string \<Rightarrow> bus \<Rightarrow> bus" where
  "rename_key i k b = b\<lparr>events := map (\<lambda>e. if ev_id e = i then e\<lparr>ev_key := k\<rparr> else e) (events b)\<rparr>"

definition releaseExpiredKey :: "string \<Rightarrow> rat \<Rightarrow> string \<Rightarrow> bus \<Rightarrow> bool res \<times> bus" where
  "releaseExpiredKey key emittedAt uuid b =
     (case key_holder key b of
        None \<Rightarrow> (Inr False, b)
      | Some holder \<Rightarrow>
          if num_le (Fin emittedAt) (ev_dedup_expires_at holder) then (Inr False, b)
          else (let k' = released_key key (ev_id holder) uuid in
                if key_holder k' b \<noteq> None then (Inl UNIQUE_error, b)
                else (Inr True, rename_key (ev_id holder) k' b)))"

record emit_faults =
  ef_insert :: "js_error option"
  ef_release :: "js_error option"

text \<open>The \<open>INSERT\<close>, and on a taken key the transaction that releases it and inserts again.\<close>

definition emit_insert :: "emit_faults \<Rightarrow> rat \<Rightarrow> string \<Rightarrow> event_row \<Rightarrow> bus \<Rightarrow> int res \<times> bus" where
  "emit_insert fl emittedAt uuid2 row b =
     (case ef_insert fl of
        Some e \<Rightarrow> (Inl e, b)
      | None \<Rightarrow>
          (case insert_event row b of
             (Inr i, b1) \<Rightarrow> (Inr i, b1)
           | (Inl e, _) \<Rightarrow>
               if e \<noteq> UNIQUE_error then (Inl e, b)
               else (case ef_release fl of
                       Some e' \<Rightarrow> (Inl e', b)
                     | None \<Rightarrow>
                         (case releaseExpiredKey (ev_key row) emittedAt uuid2 b of
                            (Inl e', _) \<Rightarrow> (Inl e', b)
                          | (Inr False, _) \<Rightarrow> (Inl e, b)
                          | (Inr True, b1) \<Rightarrow>
                              (case insert_event row b1 of
                                 (Inl e', _) \<Rightarrow> (Inl e', b)
                               | (Inr i, b2) \<Rightarrow> (Inr i, b2))))))"

definition disk_full :: "js_error \<Rightarrow> bool" where
  "disk_full e = (case e of
      SqliteError c \<Rightarrow> sublist ''SQLITE_FULL'' c
    | SysError c \<Rightarrow> sublist ''SQLITE_FULL'' c \<or> c = ''ENOSPC''
    | PlainError m \<Rightarrow> sublist ''SQLITE_FULL'' m
    | WB _ _ \<Rightarrow> False)"

text \<open>The outer \<open>catch\<close>.\<close>

definition emit_catch :: "js_error \<Rightarrow> string \<Rightarrow> jsval \<Rightarrow> bus \<Rightarrow> js_error \<times> bus" where
  "emit_catch e key key_value b =
     (if e = UNIQUE_error then
        (WB WB002 [(''original_event_id'',
                     case key_holder key b of Some x \<Rightarrow> jint (ev_id x) | None \<Rightarrow> JNull),
                   (''idempotency_key'', key_value)], b)
      else if disk_full e then
        (WB WB004 [(''sqlite_error'', case e of SqliteError c \<Rightarrow> JStr c | SysError c \<Rightarrow> JStr c
                     | _ \<Rightarrow> JStr ''SQLITE_FULL'')], b\<lparr>db_open := False\<rparr>)
      else (e, b))"

section \<open>emit\<close>

record emit_result =
  er_event_id :: int
  er_idempotency_key :: jsval
  er_notify :: bool

record emit_env =
  ee_host :: host
  ee_put :: put_env
  ee_environ :: environ
  ee_now :: rat
  ee_uuid :: string
  ee_uuid2 :: string
  ee_faults :: emit_faults

record emit_state =
  es_bus :: bus
  es_cas :: cas_files
  es_frame :: "causality option"

definition emit :: "emit_env \<Rightarrow> emit_config \<Rightarrow> jsval \<Rightarrow> emit_state \<Rightarrow> emit_result res \<times> emit_state" where
  "emit ee cfg event s =
     (let h = ee_host ee; b = es_bus s in
      case validate_event (h_parse h) (h_stringify h) (cf_max_payload_bytes cfg) event of
        Inl e \<Rightarrow> (Inl e, s)
      | Inr _ \<Rightarrow>
          if \<not> db_open b then (Inl (PlainError ''TypeError: The database connection is not open''), s)
          else
          (case applyOnEmit h (ee_put ee) True b (string_or [] (jget event ''event_type''))
                  (payload_text (h_stringify h) (jget event ''payload'')) (es_cas s) of
             (Inl e, fs) \<Rightarrow> (Inl e, s\<lparr>es_cas := fs\<rparr>)
           | (Inr rg, fs) \<Rightarrow>
               let ctx = currentContext (ee_environ ee) (es_frame s);
                   kv = idempotency_key event (ee_uuid ee) in
               (case emit_row h cfg event ctx rg (ee_now ee) (ee_uuid ee) of
                  Inl e \<Rightarrow>
                    let (e', b') = emit_catch e [] kv b in (Inl e', s\<lparr>es_bus := b', es_cas := fs\<rparr>)
                | Inr row \<Rightarrow>
                    (case emit_insert (ee_faults ee) (ee_now ee) (ee_uuid2 ee) row b of
                       (Inl e, _) \<Rightarrow>
                         let (e', b') = emit_catch e (ev_key row) kv b in (Inl e', s\<lparr>es_bus := b', es_cas := fs\<rparr>)
                     | (Inr i, b') \<Rightarrow>
                         (Inr \<lparr>er_event_id = i, er_idempotency_key = kv,
                               er_notify = (cf_daemon_notify cfg \<noteq> JBool False)\<rparr>,
                          s\<lparr>es_bus := b', es_cas := fs, es_frame := recordEmit i (es_frame s)\<rparr>)))))"

section \<open>What the statements do\<close>

lemma key_holder_None: "key_holder k b = None \<longleftrightarrow> k \<notin> ev_key ` set (events b)"
  by (auto simp: key_holder_def find_None_iff)

lemma key_holder_Some: "key_holder k b = Some e \<Longrightarrow> e \<in> set (events b) \<and> ev_key e = k"
  by (auto simp: key_holder_def dest: find_Some_conv)

definition append_event :: "event_row \<Rightarrow> bus \<Rightarrow> bus" where
  "append_event row b = b\<lparr>events := events b @ [row\<lparr>ev_id := events_seq b + 1\<rparr>], events_seq := events_seq b + 1\<rparr>"

lemma insert_event_Inr:
  "insert_event row b = (Inr i, b') \<longleftrightarrow>
     ev_expires_at row \<noteq> NaN \<and> ev_dedup_expires_at row \<noteq> NaN \<and> key_holder (ev_key row) b = None \<and>
     i = events_seq b + 1 \<and> b' = append_event row b"
  by (auto simp: insert_event_def append_event_def)

lemma insert_event_Inl: "insert_event row b = (Inl e, b') \<Longrightarrow> b' = b"
  by (auto simp: insert_event_def split: if_splits)

lemma insert_event_UNIQUE:
  "fst (insert_event row b) = Inl UNIQUE_error \<longleftrightarrow>
     ev_expires_at row \<noteq> NaN \<and> ev_dedup_expires_at row \<noteq> NaN \<and> key_holder (ev_key row) b \<noteq> None"
  by (auto simp: insert_event_def UNIQUE_error_def)

lemma release_True:
  "releaseExpiredKey k t u b = (Inr True, b1) \<longleftrightarrow>
     (\<exists>x. key_holder k b = Some x \<and> \<not> num_le (Fin t) (ev_dedup_expires_at x) \<and>
        key_holder (released_key k (ev_id x) u) b = None \<and> b1 = rename_key (ev_id x) (released_key k (ev_id x) u) b)"
  by (auto simp: releaseExpiredKey_def Let_def split: option.splits if_splits)

text \<open>The database the row is appended to: the old one, or the one with the holder's key released.\<close>

definition released :: "string \<Rightarrow> rat \<Rightarrow> string \<Rightarrow> bus \<Rightarrow> bus \<Rightarrow> bool" where
  "released k t u b b1 \<longleftrightarrow> b1 = b \<and> key_holder k b = None \<or>
     (\<exists>x. key_holder k b = Some x \<and> num_lt (ev_dedup_expires_at x) (Fin t) \<and>
        key_holder (released_key k (ev_id x) u) b = None \<and> b1 = rename_key (ev_id x) (released_key k (ev_id x) u) b)"

lemma num_not_le: "n \<noteq> NaN \<Longrightarrow> \<not> num_le (Fin t) n \<longleftrightarrow> num_lt n (Fin t)"
  by (cases n) (auto simp: num_le_def)

lemma emit_insert_Inr:
  assumes "emit_insert fl t u row b = (Inr i, b')" and "\<forall>e\<in>set (events b). ev_dedup_expires_at e \<noteq> NaN"
  shows "i = events_seq b + 1 \<and> (\<exists>b1. released (ev_key row) t u b b1 \<and> b' = append_event row b1 \<and>
     key_holder (ev_key row) b1 = None \<and> ev_expires_at row \<noteq> NaN \<and> ev_dedup_expires_at row \<noteq> NaN)"
proof (cases "insert_event row b")
  case (Pair r b0)
  show ?thesis
  proof (cases r)
    case (Inr j)
    with Pair have ins: "insert_event row b = (Inr j, b0)" by simp
    with assms(1) have "i = j" "b' = b0" by (auto simp: emit_insert_def split: option.splits)
    with ins [unfolded insert_event_Inr] show ?thesis by (auto simp: released_def)
  next
    case (Inl e)
    with assms(1) Pair obtain b1 where rel: "releaseExpiredKey (ev_key row) t u b = (Inr True, b1)"
      and ins: "insert_event row b1 = (Inr i, b')"
      by (auto simp: emit_insert_def split: option.splits prod.splits sum.splits if_splits bool.splits)
    from rel obtain x where x: "key_holder (ev_key row) b = Some x" "\<not> num_le (Fin t) (ev_dedup_expires_at x)"
      "key_holder (released_key (ev_key row) (ev_id x) u) b = None"
      "b1 = rename_key (ev_id x) (released_key (ev_key row) (ev_id x) u) b"
      unfolding release_True by blast
    have "ev_dedup_expires_at x \<noteq> NaN" using assms(2) key_holder_Some [OF x(1)] by blast
    with x have "released (ev_key row) t u b b1" by (auto simp: released_def num_not_le)
    with ins x(4) show ?thesis by (auto simp: insert_event_Inr rename_key_def)
  qed
qed

lemma emit_insert_Inl: "emit_insert fl t u row b = (Inl e, b') \<Longrightarrow> b' = b"
  by (auto simp: emit_insert_def dest: insert_event_Inl
      split: option.splits prod.splits sum.splits if_splits bool.splits)

text \<open>Two lists of rows that differ in keys only.\<close>

definition rekeyed :: "event_row \<Rightarrow> event_row \<Rightarrow> bool" where
  "rekeyed e e' \<longleftrightarrow> (\<exists>k. e' = e\<lparr>ev_key := k\<rparr>)"

lemma rekeyed_refl [simp]: "rekeyed e e"
proof -
  have "e = e\<lparr>ev_key := ev_key e\<rparr>" by simp
  then show ?thesis unfolding rekeyed_def by blast
qed

lemma rekeyed_upd [simp]: "rekeyed e (e\<lparr>ev_key := k\<rparr>)"
  unfolding rekeyed_def by blast

lemma rekeyed_sel:
  assumes "rekeyed e e'"
  shows "ev_id e' = ev_id e" and "ev_type e' = ev_type e" and "ev_domain e' = ev_domain e"
    and "ev_payload e' = ev_payload e" and "ev_expires_at e' = ev_expires_at e"
    and "ev_dedup_expires_at e' = ev_dedup_expires_at e" and "ev_cas_sha e' = ev_cas_sha e"
  using assms by (auto simp: rekeyed_def)

lemma rename_key_rekeyed: "list_all2 rekeyed (events b) (events (rename_key i k b))"
  by (simp add: rename_key_def list_all2_map2 list.rel_refl_strong)

lemma rename_key_frame [simp]:
  "events_seq (rename_key i k b) = events_seq b"
  "map ev_id (events (rename_key i k b)) = map ev_id (events b)"
  "subscriptions (rename_key i k b) = subscriptions b"
  "cursors (rename_key i k b) = cursors b"
  "dead_letters (rename_key i k b) = dead_letters b"
  "dead_letters_seq (rename_key i k b) = dead_letters_seq b"
  "delivery_attempts (rename_key i k b) = delivery_attempts b"
  by (simp_all add: rename_key_def)

lemma rename_key_keys:
  assumes "events_wf b" and "x \<in> set (events b)" and "k \<notin> ev_key ` set (events b)"
  shows "distinct (map ev_key (events (rename_key (ev_id x) k b)))"
proof -
  have d: "distinct (map ev_key (events b))" and i: "distinct (map ev_id (events b))"
    using assms(1) by (auto simp: events_wf_def sorted_strict_imp_distinct)
  have "distinct (map ev_key es) \<Longrightarrow> distinct (map ev_id es) \<Longrightarrow> k \<notin> ev_key ` set es \<Longrightarrow>
     distinct (map ev_key (map (\<lambda>e. if ev_id e = ev_id x then e\<lparr>ev_key := k\<rparr> else e) es))
     \<and> ev_key ` set (map (\<lambda>e. if ev_id e = ev_id x then e\<lparr>ev_key := k\<rparr> else e) es) \<subseteq> insert k (ev_key ` set es)
     \<and> (ev_id x \<notin> ev_id ` set es \<longrightarrow>
         map (\<lambda>e. if ev_id e = ev_id x then e\<lparr>ev_key := k\<rparr> else e) es = es)" for es
  proof (induction es)
    case Nil
    then show ?case by simp
  next
    case (Cons e es)
    then show ?case by (cases "ev_id e = ev_id x") (auto simp: image_iff)
  qed
  then show ?thesis using d i assms(3) by (auto simp: rename_key_def)
qed

lemma events_wf_ids:
  assumes "events_wf b" and ids: "map ev_id (events b') = map ev_id (events b)"
    and "distinct (map ev_key (events b'))" and "events_seq b' = events_seq b"
  shows "events_wf b'"
proof -
  have st: "ev_id ` set (events b') = ev_id ` set (events b)" using ids by (rule set_map_eq)
  have "0 < ev_id e \<and> ev_id e \<le> events_seq b'" if "e \<in> set (events b')" for e
  proof -
    from that st obtain x where "x \<in> set (events b)" "ev_id e = ev_id x" by blast
    then show ?thesis using assms(1,4) by (simp add: events_wf_def)
  qed
  then show ?thesis using assms by (simp add: events_wf_def)
qed

lemma bus_wf_open [simp]: "bus_wf (b\<lparr>db_open := x\<rparr>) = bus_wf b"
  by (simp add: wf_defs)

lemma released_key_neq: "released_key k i u \<noteq> k"
proof
  assume "released_key k i u = k"
  then have "length (released_key k i u) = length k" by simp
  then show False by (simp add: released_key_def)
qed

lemma rename_frees_key:
  assumes "events_wf b" and "key_holder k b = Some x" and "k' \<noteq> k"
  shows "key_holder k (rename_key (ev_id x) k' b) = None"
proof -
  have d: "distinct (map ev_key (events b))" using assms(1) by (simp add: events_wf_def)
  have "ev_key e \<noteq> k" if e: "e \<in> set (events b)" and "ev_id e \<noteq> ev_id x" for e
  proof
    assume "ev_key e = k"
    with e d key_holder_Some [OF assms(2)] have "e = x" by (auto simp: distinct_map dest: inj_onD)
    with that(2) show False by simp
  qed
  with assms(3) show ?thesis by (auto simp: key_holder_None rename_key_def)
qed

lemma released_wf:
  assumes "bus_wf b" and "released k t u b b1"
  shows "bus_wf b1"
proof -
  from assms(2) consider "b1 = b" | x where "key_holder k b = Some x"
    "key_holder (released_key k (ev_id x) u) b = None" "b1 = rename_key (ev_id x) (released_key k (ev_id x) u) b"
    by (auto simp: released_def)
  then show ?thesis
  proof cases
    case 1
    with assms(1) show ?thesis by simp
  next
    case 2
    note wf = bus_wfD [OF assms(1)]
    have x: "x \<in> set (events b)" using key_holder_Some [OF 2(1)] by blast
    have ids: "map ev_id (events b1) = map ev_id (events b)" unfolding 2(3) by simp
    have "events_wf b1"
      by (rule events_wf_ids [OF wf(1) ids])
        (use rename_key_keys [OF wf(1) x 2(2) [unfolded key_holder_None]] 2(3) in auto)
    then show ?thesis using wf 2(3)
      by (auto simp: bus_wf_def subs_wf_def cursors_wf_def dlq_wf_def attempts_wf_def rename_key_def)
  qed
qed

lemma append_event_frame [simp]:
  "events (append_event row b) = events b @ [row\<lparr>ev_id := events_seq b + 1\<rparr>]"
  "events_seq (append_event row b) = events_seq b + 1"
  "subscriptions (append_event row b) = subscriptions b"
  "cursors (append_event row b) = cursors b"
  "dead_letters (append_event row b) = dead_letters b"
  "dead_letters_seq (append_event row b) = dead_letters_seq b"
  "delivery_attempts (append_event row b) = delivery_attempts b"
  "events_archive (append_event row b) = events_archive b"
  by (simp_all add: append_event_def)

lemma append_event_wf:
  assumes "bus_wf b" and "key_holder (ev_key row) b = None"
  shows "bus_wf (append_event row b)"
proof
  note wf = bus_wfD [OF assms(1)]
  have old: "\<forall>e\<in>set (events b). 0 < ev_id e \<and> ev_id e \<le> events_seq b" "0 \<le> events_seq b"
    using wf(1) by (auto simp: events_wf_def)
  have "sorted_wrt (<) (map ev_id (events b) @ [events_seq b + 1])"
    using wf(1) old by (auto simp: events_wf_def sorted_wrt_append)
  moreover have "distinct (map ev_key (events b) @ [ev_key row])"
    using wf(1) assms(2) by (auto simp: events_wf_def key_holder_None)
  ultimately show "events_wf (append_event row b)"
    using old by (auto simp: events_wf_def)
  show "subs_wf (append_event row b)" using wf(2) by (simp add: subs_wf_def)
  show "cursors_wf (append_event row b)" using wf(3) by (simp add: cursors_wf_def)
  show "dlq_wf (append_event row b)" using wf(4) by (simp add: dlq_wf_def)
  show "attempts_wf (append_event row b)" using wf(5) by (simp add: attempts_wf_def)
qed

section \<open>What emit does\<close>

text \<open>The dedup expiry of a stored row is a number: the column is \<open>NOT NULL\<close>.\<close>

definition dedup_ok :: "bus \<Rightarrow> bool" where
  "dedup_ok b \<longleftrightarrow> (\<forall>e\<in>set (events b). ev_dedup_expires_at e \<noteq> NaN)"

lemma released_events:
  assumes "released k t u b b1"
  shows "list_all2 rekeyed (events b) (events b1)" and "events_seq b1 = events_seq b"
    and "subscriptions b1 = subscriptions b" and "cursors b1 = cursors b"
    and "dead_letters b1 = dead_letters b" and "dead_letters_seq b1 = dead_letters_seq b"
    and "delivery_attempts b1 = delivery_attempts b"
  using assms by (auto simp: released_def rename_key_rekeyed list.rel_refl_strong)

lemma emit_catch_events: "emit_catch e k v b = (e', b') \<Longrightarrow> b' = b \<or> b' = b\<lparr>db_open := False\<rparr>"
  by (auto simp: emit_catch_def split: if_splits)

lemma emit_Inl:
  assumes "emit ee cfg event s = (Inl e, s')"
  shows "(es_bus s' = es_bus s \<or> es_bus s' = (es_bus s)\<lparr>db_open := False\<rparr>) \<and> es_frame s' = es_frame s"
  using assms unfolding emit_def Let_def
  by (auto dest: emit_catch_events split: sum.splits prod.splits if_splits)

lemma emit_Inr:
  assumes "emit ee cfg event s = (Inr r, s')" and "dedup_ok (es_bus s)"
  shows "\<exists>rg fs row b1.
     acceptable (h_parse (ee_host ee)) (h_stringify (ee_host ee)) (cf_max_payload_bytes cfg) event \<and>
     db_open (es_bus s) \<and>
     applyOnEmit (ee_host ee) (ee_put ee) True (es_bus s) (string_or [] (jget event ''event_type''))
       (payload_text (h_stringify (ee_host ee)) (jget event ''payload'')) (es_cas s) = (Inr rg, fs) \<and>
     emit_row (ee_host ee) cfg event (currentContext (ee_environ ee) (es_frame s)) rg (ee_now ee) (ee_uuid ee)
       = Inr row \<and>
     released (ev_key row) (ee_now ee) (ee_uuid2 ee) (es_bus s) b1 \<and> key_holder (ev_key row) b1 = None \<and>
     ev_expires_at row \<noteq> NaN \<and> ev_dedup_expires_at row \<noteq> NaN \<and>
     er_event_id r = events_seq (es_bus s) + 1 \<and>
     s' = \<lparr>es_bus = append_event row b1, es_cas = fs, es_frame = recordEmit (er_event_id r) (es_frame s)\<rparr>"
proof -
  let ?h = "ee_host ee"
  obtain rg fs row i b' where v: "validate_event (h_parse ?h) (h_stringify ?h) (cf_max_payload_bytes cfg) event = Inr ()"
    and o: "db_open (es_bus s)"
    and ap: "applyOnEmit ?h (ee_put ee) True (es_bus s) (string_or [] (jget event ''event_type''))
       (payload_text (h_stringify ?h) (jget event ''payload'')) (es_cas s) = (Inr rg, fs)"
    and rw: "emit_row ?h cfg event (currentContext (ee_environ ee) (es_frame s)) rg (ee_now ee) (ee_uuid ee) = Inr row"
    and ins: "emit_insert (ee_faults ee) (ee_now ee) (ee_uuid2 ee) row (es_bus s) = (Inr i, b')"
    and r: "er_event_id r = i"
    and s': "s' = s\<lparr>es_bus := b', es_cas := fs, es_frame := recordEmit i (es_frame s)\<rparr>"
    using assms(1) unfolding emit_def Let_def
    by (auto split: sum.splits prod.splits if_splits)
  from emit_insert_Inr [OF ins] assms(2) obtain b1 where "i = events_seq (es_bus s) + 1"
    "released (ev_key row) (ee_now ee) (ee_uuid2 ee) (es_bus s) b1" "b' = append_event row b1"
    "key_holder (ev_key row) b1 = None" "ev_expires_at row \<noteq> NaN" "ev_dedup_expires_at row \<noteq> NaN"
    by (auto simp: dedup_ok_def)
  with v o ap rw r s' show ?thesis
    by (intro exI [of _ rg] exI [of _ fs] exI [of _ row] exI [of _ b1])
       (simp add: validate_event_Inr)
qed

lemma emit_wf [wf_intros]:
  assumes "bus_wf (es_bus s)" and "dedup_ok (es_bus s)"
  shows "bus_wf (es_bus (snd (emit ee cfg event s)))"
proof (cases "emit ee cfg event s")
  case (Pair r s')
  show ?thesis
  proof (cases r)
    case (Inl e)
    with Pair emit_Inl [of ee cfg event s e s'] assms(1) show ?thesis by auto
  next
    case (Inr x)
    with Pair have "emit ee cfg event s = (Inr x, s')" by simp
    from emit_Inr [OF this assms(2)] obtain row b1 where
      "released (ev_key row) (ee_now ee) (ee_uuid2 ee) (es_bus s) b1" "key_holder (ev_key row) b1 = None"
      "es_bus s' = append_event row b1" by auto
    with Pair released_wf [OF assms(1)] show ?thesis by (auto intro: append_event_wf)
  qed
qed

lemma rekeyed_dedup_ok:
  assumes "list_all2 rekeyed (events b) (events b1)" and "dedup_ok b"
  shows "dedup_ok b1"
  unfolding dedup_ok_def
proof
  fix e' assume "e' \<in> set (events b1)"
  with assms(1) obtain e where "e \<in> set (events b)" "rekeyed e e'"
    by (metis list_all2_conv_all_nth in_set_conv_nth)
  with assms(2) show "ev_dedup_expires_at e' \<noteq> NaN" by (simp add: dedup_ok_def rekeyed_sel)
qed

lemma emit_dedup_ok:
  assumes "dedup_ok (es_bus s)"
  shows "dedup_ok (es_bus (snd (emit ee cfg event s)))"
proof (cases "emit ee cfg event s")
  case (Pair r s')
  show ?thesis
  proof (cases r)
    case (Inl e)
    with Pair emit_Inl [of ee cfg event s e s'] assms show ?thesis by (auto simp: dedup_ok_def)
  next
    case (Inr x)
    with Pair have "emit ee cfg event s = (Inr x, s')" by simp
    from emit_Inr [OF this assms] obtain row b1 where r: "released (ev_key row) (ee_now ee) (ee_uuid2 ee) (es_bus s) b1"
      and n: "ev_dedup_expires_at row \<noteq> NaN" and s': "es_bus s' = append_event row b1" by auto
    have "dedup_ok b1" using released_events(1) [OF r] assms by (rule rekeyed_dedup_ok)
    with n s' Pair show ?thesis by (auto simp: dedup_ok_def)
  qed
qed

section \<open>An example\<close>

definition demo_event :: "string \<Rightarrow> jsval" where
  "demo_event key = JObj [(''event_type'', JStr ''wicked.a''), (''domain'', JStr ''d''), (''payload'', JObj []),
     (''idempotency_key'', JStr key)]"

definition demo_cfg :: emit_config where
  "demo_cfg = \<lparr>cf_ttl_hours = jint 72, cf_dedup_ttl_hours = jint 24, cf_max_payload_bytes = 100,
     cf_daemon_notify = JBool False\<rparr>"

definition demo_env :: "rat \<Rightarrow> emit_env" where
  "demo_env now = \<lparr>ee_host = demo_host, ee_put = plain_env 7 0 (\<lambda>_. ''0''), ee_environ = (\<lambda>_. None), ee_now = now,
     ee_uuid = ''u'', ee_uuid2 = ''v'', ee_faults = \<lparr>ef_insert = None, ef_release = None\<rparr>\<rparr>"

definition demo_state :: emit_state where
  "demo_state = \<lparr>es_bus = empty_bus, es_cas = [], es_frame = Some no_context\<rparr>"

definition demo_state1 :: emit_state where
  "demo_state1 = snd (emit (demo_env 5) demo_cfg (demo_event ''k'') demo_state)"

lemma demo_emit1:
  "emit (demo_env 5) demo_cfg (demo_event ''k'') demo_state
     = (Inr \<lparr>er_event_id = 1, er_idempotency_key = JStr ''k'', er_notify = False\<rparr>, demo_state1)"
proof -
  have "fst (emit (demo_env 5) demo_cfg (demo_event ''k'') demo_state)
     = Inr \<lparr>er_event_id = 1, er_idempotency_key = JStr ''k'', er_notify = False\<rparr>" by code_simp
  then show ?thesis by (simp add: demo_state1_def prod_eq_iff)
qed

lemma demo_emit2:
  "emit (demo_env 6) demo_cfg (demo_event ''j'') demo_state1
     = (Inr \<lparr>er_event_id = 2, er_idempotency_key = JStr ''j'', er_notify = False\<rparr>,
        snd (emit (demo_env 6) demo_cfg (demo_event ''j'') demo_state1))"
proof -
  have "fst (emit (demo_env 6) demo_cfg (demo_event ''j'') demo_state1)
     = Inr \<lparr>er_event_id = 2, er_idempotency_key = JStr ''j'', er_notify = False\<rparr>" by code_simp
  then show ?thesis by (simp add: prod_eq_iff)
qed

lemma demo_state_ok: "bus_wf (es_bus demo_state)" "dedup_ok (es_bus demo_state)"
  by (simp_all add: demo_state_def bus_wf_empty) (simp add: dedup_ok_def empty_bus_def)

section \<open>The appended row\<close>

lemma emit_appends:
  assumes "emit ee cfg event s = (Inr r, s')" and "bus_wf (es_bus s)" and "dedup_ok (es_bus s)"
  shows "\<exists>old row. events (es_bus s') = old @ [row] \<and> list_all2 rekeyed (events (es_bus s)) old \<and>
     ev_id row = er_event_id r \<and> er_event_id r = events_seq (es_bus s) + 1 \<and>
     (\<forall>e\<in>set old. ev_id e < ev_id row) \<and>
     JStr (ev_type row) = jget event ''event_type'' \<and> JStr (ev_domain row) = jget event ''domain'' \<and>
     ev_emitted_at row = ee_now ee \<and> ev_key row \<notin> ev_key ` set old \<and>
     subscriptions (es_bus s') = subscriptions (es_bus s) \<and> cursors (es_bus s') = cursors (es_bus s) \<and>
     dead_letters (es_bus s') = dead_letters (es_bus s) \<and>
     delivery_attempts (es_bus s') = delivery_attempts (es_bus s) \<and>
     es_frame s' = recordEmit (er_event_id r) (es_frame s)"
proof -
  from emit_Inr [OF assms(1,3)] obtain rg fs row b1 where
    acc: "acceptable (h_parse (ee_host ee)) (h_stringify (ee_host ee)) (cf_max_payload_bytes cfg) event"
    and rw: "emit_row (ee_host ee) cfg event (currentContext (ee_environ ee) (es_frame s)) rg (ee_now ee) (ee_uuid ee) = Inr row"
    and rel: "released (ev_key row) (ee_now ee) (ee_uuid2 ee) (es_bus s) b1"
    and key: "key_holder (ev_key row) b1 = None"
    and i: "er_event_id r = events_seq (es_bus s) + 1"
    and s': "s' = \<lparr>es_bus = append_event row b1, es_cas = fs, es_frame = recordEmit (er_event_id r) (es_frame s)\<rparr>"
    by blast
  note e1 = released_events [OF rel]
  have fields: "JStr (ev_type row) = jget event ''event_type''" "JStr (ev_domain row) = jget event ''domain''"
    "ev_emitted_at row = ee_now ee"
    using rw acc by (auto simp: emit_row_def acceptable_def string_or_def EVENT_TYPE_REGEX_nonempty Let_def
        split: sum.splits)
  have "\<forall>e\<in>set (events b1). ev_id e < events_seq b1 + 1"
    using released_wf [OF assms(2) rel] by (auto simp: wf_defs)
  with fields key s' i e1 show ?thesis by (auto simp: key_holder_None)
qed

text \<open>A text column of the causality fields: the event's own member where it has one, else the context's.\<close>

definition stored_text :: "jsval \<Rightarrow> string \<Rightarrow> string option \<Rightarrow> string option \<Rightarrow> bool" where
  "stored_text event k inherited x \<longleftrightarrow>
     (\<forall>c. has_own event k \<and> jget event k = JStr c \<longrightarrow> x = Some c) \<and>
     (has_own event k \<and> nullish (jget event k) \<longrightarrow> x = None) \<and> (\<not> has_own event k \<longrightarrow> x = inherited)"

lemma chosen_text: "bind_text h (chooseField event (js_or_null v) k) = Inr x \<Longrightarrow> stored_text event k v x"
  by (auto simp: stored_text_def chooseField_def bind_text_def js_or_null_def split: if_splits option.splits)

text \<open>The same in full: the appended row, the rows that were there, and nothing else.\<close>

lemma emit_exact:
  assumes "emit ee cfg event s = (Inr r, s')" and "bus_wf (es_bus s)" and "dedup_ok (es_bus s)"
  shows "\<exists>old row. es_bus s' = (es_bus s)\<lparr>events := old @ [row], events_seq := events_seq (es_bus s) + 1\<rparr> \<and>
     (old = events (es_bus s) \<and> ev_key row \<notin> ev_key ` set (events (es_bus s)) \<or>
      (\<exists>x\<in>set (events (es_bus s)). ev_key x = ev_key row \<and> num_lt (ev_dedup_expires_at x) (Fin (ee_now ee)) \<and>
         old = map (\<lambda>e. if ev_id e = ev_id x
                 then e\<lparr>ev_key := released_key (ev_key row) (ev_id x) (ee_uuid2 ee)\<rparr> else e) (events (es_bus s)))) \<and>
     ev_id row = er_event_id r \<and> er_event_id r = events_seq (es_bus s) + 1 \<and>
     (\<forall>e\<in>set old. ev_id e < ev_id row \<and> ev_key e \<noteq> ev_key row) \<and>
     JStr (ev_type row) = jget event ''event_type'' \<and> JStr (ev_domain row) = jget event ''domain'' \<and>
     ev_subdomain row = (case jget event ''subdomain'' of JStr t \<Rightarrow> t | _ \<Rightarrow> []) \<and>
     ev_emitted_at row = ee_now ee \<and>
     ev_dedup_expires_at row = expiry (ee_host ee) (ee_now ee) (cf_dedup_ttl_hours cfg) \<and>
     (getSchema (es_bus s) (ev_type row) = None \<longrightarrow>
        ev_payload row = payload_text (h_stringify (ee_host ee)) (jget event ''payload'')) \<and>
     (\<forall>k. jget event ''idempotency_key'' = JStr k \<and> k \<noteq> [] \<longrightarrow> ev_key row = k) \<and>
     (\<forall>n. has_own event ''parent_event_id'' \<and> jget event ''parent_event_id'' = jint n \<longrightarrow> ev_parent row = SInt n) \<and>
     (has_own event ''parent_event_id'' \<and> nullish (jget event ''parent_event_id'') \<longrightarrow> ev_parent row = SNull) \<and>
     (\<not> has_own event ''parent_event_id'' \<longrightarrow> ev_parent row =
        (case cz_parent (currentContext (ee_environ ee) (es_frame s)) of Some n \<Rightarrow> SInt n | None \<Rightarrow> SNull)) \<and>
     stored_text event ''correlation_id'' (cz_correlation (currentContext (ee_environ ee) (es_frame s))) (ev_correlation row) \<and>
     stored_text event ''session_id'' (cz_session (currentContext (ee_environ ee) (es_frame s))) (ev_session row) \<and>
     stored_text event ''producer_id'' (cz_producer (currentContext (ee_environ ee) (es_frame s))) (ev_producer row) \<and>
     ev_expires_at row = expiry (ee_host ee) (ee_now ee)
       (if nullish (jget event ''ttl_hours'') then cf_ttl_hours cfg else jget event ''ttl_hours'') \<and>
     es_frame s' = recordEmit (er_event_id r) (es_frame s)"
proof -
  let ?b = "es_bus s" and ?ctx = "currentContext (ee_environ ee) (es_frame s)"
  from emit_Inr [OF assms(1,3)] obtain rg fs row b1 where
    acc: "acceptable (h_parse (ee_host ee)) (h_stringify (ee_host ee)) (cf_max_payload_bytes cfg) event"
    and ap: "applyOnEmit (ee_host ee) (ee_put ee) True ?b (string_or [] (jget event ''event_type''))
       (payload_text (h_stringify (ee_host ee)) (jget event ''payload'')) (es_cas s) = (Inr rg, fs)"
    and rw: "emit_row (ee_host ee) cfg event ?ctx rg (ee_now ee) (ee_uuid ee) = Inr row"
    and rel: "released (ev_key row) (ee_now ee) (ee_uuid2 ee) ?b b1"
    and key: "key_holder (ev_key row) b1 = None"
    and i: "er_event_id r = events_seq ?b + 1"
    and s': "s' = \<lparr>es_bus = append_event row b1, es_cas = fs, es_frame = recordEmit (er_event_id r) (es_frame s)\<rparr>"
    by blast
  have tyd: "JStr (ev_type row) = jget event ''event_type''" "JStr (ev_domain row) = jget event ''domain''"
    using rw acc by (auto simp: emit_row_def acceptable_def string_or_def EVENT_TYPE_REGEX_nonempty Let_def
        split: sum.splits)
  have plain: "ev_subdomain row = string_or [] (jget event ''subdomain'')" "ev_emitted_at row = ee_now ee"
    "ev_dedup_expires_at row = expiry (ee_host ee) (ee_now ee) (cf_dedup_ttl_hours cfg)"
    "ev_payload row = rg_payload rg" "ev_type row = string_or [] (jget event ''event_type'')"
    using rw by (auto simp: emit_row_def Let_def split: sum.splits)
  have parent: "bind_integer (ee_host ee) (chooseField event
       (case cz_parent ?ctx of Some n \<Rightarrow> jint n | None \<Rightarrow> JNull) ''parent_event_id'') = Inr (ev_parent row)"
    using rw by (auto simp: emit_row_def Let_def split: sum.splits)
  have texts: "stored_text event ''correlation_id'' (cz_correlation ?ctx) (ev_correlation row)"
    "stored_text event ''session_id'' (cz_session ?ctx) (ev_session row)"
    "stored_text event ''producer_id'' (cz_producer ?ctx) (ev_producer row)"
    by (rule chosen_text [of "ee_host ee"], use rw in \<open>auto simp: emit_row_def Let_def split: sum.splits\<close>)+
  have expires: "ev_expires_at row = expiry (ee_host ee) (ee_now ee)
       (if nullish (jget event ''ttl_hours'') then cf_ttl_hours cfg else jget event ''ttl_hours'')"
    using rw by (auto simp: emit_row_def Let_def split: sum.splits)
  have keyed: "ev_key row = k" if "jget event ''idempotency_key'' = JStr k" "k \<noteq> []" for k
  proof -
    have t: "truthy (JStr k)" using that(2) by simp
    show ?thesis using rw that(1) t
      by (auto simp: emit_row_def idempotency_key_def bind_text_def Let_def split: sum.splits)
  qed
  have pay: "ev_payload row = payload_text (h_stringify (ee_host ee)) (jget event ''payload'')"
    if "getSchema ?b (ev_type row) = None"
    using ap that plain(4,5) by (auto simp: applyOnEmit_def)
  have sub: "ev_subdomain row = (case jget event ''subdomain'' of JStr t \<Rightarrow> t | _ \<Rightarrow> [])"
    using plain(1) by (auto simp: string_or_def split: jsval.splits)
  have lt: "\<forall>e\<in>set (events b1). ev_id e < events_seq b1 + 1"
    using released_wf [OF assms(2) rel] by (auto simp: wf_defs)
  have seq: "events_seq b1 = events_seq ?b" by (rule released_events(2) [OF rel])
  have frame: "b1 = ?b\<lparr>events := events b1\<rparr>"
    using rel by (auto simp: released_def rename_key_def)
  have old: "events b1 = events ?b \<and> ev_key row \<notin> ev_key ` set (events ?b) \<or>
      (\<exists>x\<in>set (events ?b). ev_key x = ev_key row \<and> num_lt (ev_dedup_expires_at x) (Fin (ee_now ee)) \<and>
         events b1 = map (\<lambda>e. if ev_id e = ev_id x
                 then e\<lparr>ev_key := released_key (ev_key row) (ev_id x) (ee_uuid2 ee)\<rparr> else e) (events ?b))"
  proof -
    from rel [unfolded released_def] show ?thesis
    proof (elim disjE exE conjE)
      assume "b1 = ?b" "key_holder (ev_key row) ?b = None"
      then show ?thesis by (simp add: key_holder_None)
    next
      fix x
      assume 2: "key_holder (ev_key row) ?b = Some x" "num_lt (ev_dedup_expires_at x) (Fin (ee_now ee))"
        "b1 = rename_key (ev_id x) (released_key (ev_key row) (ev_id x) (ee_uuid2 ee)) ?b"
      from key_holder_Some [OF 2(1)] have x: "x \<in> set (events ?b)" "ev_key x = ev_key row" by simp_all
      have ev: "events b1 = map (\<lambda>e. if ev_id e = ev_id x
          then e\<lparr>ev_key := released_key (ev_key row) (ev_id x) (ee_uuid2 ee)\<rparr> else e) (events ?b)"
        unfolding 2(3) rename_key_def by simp
      show ?thesis by (rule disjI2, rule bexI [OF _ x(1)], intro conjI) (rule x(2), rule 2(2), rule ev)
    qed
  qed
  let ?row = "row\<lparr>ev_id := events_seq ?b + 1\<rparr>"
  have bus: "es_bus s' = ?b\<lparr>events := events b1 @ [?row], events_seq := events_seq ?b + 1\<rparr>"
  proof -
    from frame obtain es where f: "b1 = ?b\<lparr>events := es\<rparr>" by blast
    show ?thesis unfolding s' append_event_def f by simp
  qed
  have par1: "ev_parent row = SInt n"
    if "has_own event ''parent_event_id''" "jget event ''parent_event_id'' = jint n" for n
    using parent that by (simp add: chooseField_def bind_integer_def)
  have par2: "ev_parent row = SNull"
    if "has_own event ''parent_event_id''" "nullish (jget event ''parent_event_id'')"
    using parent that by (simp add: chooseField_def bind_integer_def)
  have par3: "ev_parent row = (case cz_parent ?ctx of Some n \<Rightarrow> SInt n | None \<Rightarrow> SNull)"
    if "\<not> has_own event ''parent_event_id''"
    using parent that by (cases "cz_parent ?ctx") (simp_all add: chooseField_def bind_integer_def)
  have nokey: "\<forall>e\<in>set (events b1). ev_id e < events_seq ?b + 1 \<and> ev_key e \<noteq> ev_key row"
    using lt seq image_eqI [where f = ev_key and A = "set (events b1)" and b = "ev_key row"] key [unfolded key_holder_None]
    by (metis add.commute)
  show ?thesis
    by (intro exI [of _ "events b1"] exI [of _ ?row] conjI)
      (use bus old i nokey tyd sub plain(2,3) texts expires pay keyed par1 par2 par3 s' in \<open>simp_all cong: if_cong\<close>)
qed

section \<open>Properties\<close>

text \<open>C9: A successful emit appends exactly one row and changes nothing else of the database: the other
  tables and sequences are as before, and so are the rows that were there, except that when one of
  them holds the new row's key with its dedup window passed, that one row is renamed. The new row's id
  is larger than every id ever used and its key is held by no other row; it has the event's type,
  domain, subdomain (empty when absent) and idempotency key, the emit time, the expiry after the event's
  or else the configuration's time to live, the dedup expiry of the configuration, the payload as given
  unless a schema is registered for the type, and as parent, correlation, session and producer the
  event's own field where it has one, else the active context's; the context now names the new event
  as the parent of the next.\<close>

theorem emit_appends_one_event:
  assumes "emit ee cfg event s = (Inr r, s')" and "bus_wf (es_bus s)" and "dedup_ok (es_bus s)"
  shows "\<exists>old row. es_bus s' = (es_bus s)\<lparr>events := old @ [row], events_seq := events_seq (es_bus s) + 1\<rparr> \<and>
     (old = events (es_bus s) \<and> ev_key row \<notin> ev_key ` set (events (es_bus s)) \<or>
      (\<exists>x\<in>set (events (es_bus s)). ev_key x = ev_key row \<and> num_lt (ev_dedup_expires_at x) (Fin (ee_now ee)) \<and>
         old = map (\<lambda>e. if ev_id e = ev_id x
                 then e\<lparr>ev_key := released_key (ev_key row) (ev_id x) (ee_uuid2 ee)\<rparr> else e) (events (es_bus s)))) \<and>
     ev_id row = er_event_id r \<and> er_event_id r = events_seq (es_bus s) + 1 \<and>
     (\<forall>e\<in>set old. ev_id e < ev_id row \<and> ev_key e \<noteq> ev_key row) \<and>
     JStr (ev_type row) = jget event ''event_type'' \<and> JStr (ev_domain row) = jget event ''domain'' \<and>
     ev_subdomain row = (case jget event ''subdomain'' of JStr t \<Rightarrow> t | _ \<Rightarrow> []) \<and>
     ev_emitted_at row = ee_now ee \<and>
     ev_dedup_expires_at row = expiry (ee_host ee) (ee_now ee) (cf_dedup_ttl_hours cfg) \<and>
     (getSchema (es_bus s) (ev_type row) = None \<longrightarrow>
        ev_payload row = payload_text (h_stringify (ee_host ee)) (jget event ''payload'')) \<and>
     (\<forall>k. jget event ''idempotency_key'' = JStr k \<and> k \<noteq> [] \<longrightarrow> ev_key row = k) \<and>
     (\<forall>n. has_own event ''parent_event_id'' \<and> jget event ''parent_event_id'' = jint n \<longrightarrow> ev_parent row = SInt n) \<and>
     (has_own event ''parent_event_id'' \<and> nullish (jget event ''parent_event_id'') \<longrightarrow> ev_parent row = SNull) \<and>
     (\<not> has_own event ''parent_event_id'' \<longrightarrow> ev_parent row =
        (case cz_parent (currentContext (ee_environ ee) (es_frame s)) of Some n \<Rightarrow> SInt n | None \<Rightarrow> SNull)) \<and>
     stored_text event ''correlation_id'' (cz_correlation (currentContext (ee_environ ee) (es_frame s))) (ev_correlation row) \<and>
     stored_text event ''session_id'' (cz_session (currentContext (ee_environ ee) (es_frame s))) (ev_session row) \<and>
     stored_text event ''producer_id'' (cz_producer (currentContext (ee_environ ee) (es_frame s))) (ev_producer row) \<and>
     ev_expires_at row = expiry (ee_host ee) (ee_now ee)
       (if nullish (jget event ''ttl_hours'') then cf_ttl_hours cfg else jget event ''ttl_hours'') \<and>
     es_frame s' = recordEmit (er_event_id r) (es_frame s)"
  by (rule emit_exact [OF assms])

lemma emit_appends_one_event_witness:
  "\<exists>row. events (es_bus demo_state1) = [row] \<and> ev_id row = 1 \<and> ev_type row = ''wicked.a'' \<and> ev_key row = ''k'' \<and>
     ev_subdomain row = [] \<and> ev_parent row = SNull"
proof -
  have a: "jget (demo_event ''k'') ''event_type'' = JStr ''wicked.a''"
    "jget (demo_event ''k'') ''idempotency_key'' = JStr ''k''"
    "\<not> has_own (demo_event ''k'') ''parent_event_id''"
    "(case jget (demo_event ''k'') ''subdomain'' of JStr t \<Rightarrow> t | _ \<Rightarrow> []) = []"
    "cz_parent (currentContext (ee_environ (demo_env 5)) (es_frame demo_state)) = None"
    by code_simp+
  have e: "events (es_bus demo_state) = []" by (simp add: demo_state_def empty_bus_def)
  from emit_appends_one_event [OF demo_emit1 demo_state_ok] obtain old row where
    r: "es_bus demo_state1 = (es_bus demo_state)\<lparr>events := old @ [row], events_seq := events_seq (es_bus demo_state) + 1\<rparr>"
    "old = []" "ev_id row = 1" "JStr (ev_type row) = JStr ''wicked.a''" "ev_subdomain row = []"
    "ev_key row = ''k''" "ev_parent row = SNull"
    using a e by auto
  then show ?thesis by simp
qed

text \<open>An emit that throws changes no table: the events with their keys, the registrations, the
  cursors, the dead letters and the retry ledger are as before, and so is the active context. Only a
  full disk has an effect, WB-004, after which the connection is closed.\<close>

theorem emit_failure_changes_nothing:
  assumes "emit ee cfg event s = (Inl e, s')"
  shows "events (es_bus s') = events (es_bus s) \<and> events_seq (es_bus s') = events_seq (es_bus s) \<and>
     subscriptions (es_bus s') = subscriptions (es_bus s) \<and> cursors (es_bus s') = cursors (es_bus s) \<and>
     dead_letters (es_bus s') = dead_letters (es_bus s) \<and>
     delivery_attempts (es_bus s') = delivery_attempts (es_bus s) \<and> es_frame s' = es_frame s \<and>
     (es_bus s' \<noteq> es_bus s \<longrightarrow> is_wb WB004 e \<and> \<not> db_open (es_bus s'))"
proof -
  have "es_bus s' \<noteq> es_bus s \<Longrightarrow> is_wb WB004 e"
    using assms unfolding emit_def Let_def
    by (auto simp: emit_catch_def is_wb_def split: sum.splits prod.splits if_splits)
  then show ?thesis using emit_Inl [OF assms] by auto
qed

lemma emit_failure_changes_nothing_witness:
  "\<exists>e s'. emit (demo_env 5) demo_cfg (JObj []) demo_state = (Inl e, s') \<and> events (es_bus s') = []"
proof -
  have "isl (fst (emit (demo_env 5) demo_cfg (JObj []) demo_state))" by code_simp
  then obtain e s' where e: "emit (demo_env 5) demo_cfg (JObj []) demo_state = (Inl e, s')"
    by (cases "emit (demo_env 5) demo_cfg (JObj []) demo_state") (auto simp: isl_def)
  with emit_failure_changes_nothing [OF e] show ?thesis by (simp add: demo_state_def empty_bus_def)
qed

text \<open>C8: Deduplication is exactly the dedup window: with an acceptable event, an open database, no
  driver fault and no registered schema, the emit is refused as WB-002, naming the holder's event id,
  when a stored row holds the key and its dedup expiry has not passed, and it succeeds otherwise
  (the fresh suffix of a released key not being taken).\<close>

theorem emit_dedup_window:
  assumes "acceptable (h_parse (ee_host ee)) (h_stringify (ee_host ee)) (cf_max_payload_bytes cfg) event"
    and "db_open (es_bus s)" and "dedup_ok (es_bus s)"
    and "getSchema (es_bus s) (string_or [] (jget event ''event_type'')) = None"
    and "emit_row (ee_host ee) cfg event (currentContext (ee_environ ee) (es_frame s))
           \<lparr>rg_payload = payload_text (h_stringify (ee_host ee)) (jget event ''payload''), rg_cas_sha = None,
            rg_version = None, rg_warnings = []\<rparr> (ee_now ee) (ee_uuid ee) = Inr row"
    and "ev_expires_at row \<noteq> NaN" and "ev_dedup_expires_at row \<noteq> NaN"
    and "ee_faults ee = \<lparr>ef_insert = None, ef_release = None\<rparr>"
    and "\<And>i. key_holder (released_key (ev_key row) i (ee_uuid2 ee)) (es_bus s) = None"
    and "bus_wf (es_bus s)"
  shows "case key_holder (ev_key row) (es_bus s) of
       Some x \<Rightarrow> if num_lt (ev_dedup_expires_at x) (Fin (ee_now ee))
         then (\<exists>r s'. emit ee cfg event s = (Inr r, s'))
         else (\<exists>e. emit ee cfg event s = (Inl e, s) \<and> is_wb WB002 e \<and>
                 ctx_get e ''original_event_id'' = jint (ev_id x))
     | None \<Rightarrow> (\<exists>r s'. emit ee cfg event s = (Inr r, s'))"
proof -
  let ?b = "es_bus s"
  have ap: "applyOnEmit (ee_host ee) (ee_put ee) True ?b (string_or [] (jget event ''event_type''))
      (payload_text (h_stringify (ee_host ee)) (jget event ''payload'')) (es_cas s) =
      (Inr \<lparr>rg_payload = payload_text (h_stringify (ee_host ee)) (jget event ''payload''), rg_cas_sha = None,
            rg_version = None, rg_warnings = []\<rparr>, es_cas s)"
    using assms(4) by (simp add: applyOnEmit_def)
  have v: "validate_event (h_parse (ee_host ee)) (h_stringify (ee_host ee)) (cf_max_payload_bytes cfg) event = Inr ()"
    using assms(1) by (simp add: validate_event_Inr)
  have emit: "emit ee cfg event s = (case emit_insert (ee_faults ee) (ee_now ee) (ee_uuid2 ee) row ?b of
       (Inl e, _) \<Rightarrow> (let (e', b') = emit_catch e (ev_key row) (idempotency_key event (ee_uuid ee)) ?b
                     in (Inl e', s\<lparr>es_bus := b'\<rparr>))
     | (Inr i, b') \<Rightarrow> (Inr \<lparr>er_event_id = i, er_idempotency_key = idempotency_key event (ee_uuid ee),
                             er_notify = (cf_daemon_notify cfg \<noteq> JBool False)\<rparr>,
          s\<lparr>es_bus := b', es_frame := recordEmit i (es_frame s)\<rparr>))"
    using v assms(2,5) ap by (simp add: emit_def Let_def split: prod.split sum.split)
  show ?thesis
  proof (cases "key_holder (ev_key row) ?b")
    case None
    then show ?thesis using assms(6-8) by (simp add: emit emit_insert_def insert_event_def)
  next
    case (Some x)
    have ins: "insert_event row ?b = (Inl UNIQUE_error, ?b)" using Some assms(6,7) by (simp add: insert_event_def)
    have x: "ev_dedup_expires_at x \<noteq> NaN" using key_holder_Some [OF Some] assms(3) by (simp add: dedup_ok_def)
    show ?thesis
    proof (cases "num_lt (ev_dedup_expires_at x) (Fin (ee_now ee))")
      case True
      then have rel: "releaseExpiredKey (ev_key row) (ee_now ee) (ee_uuid2 ee) ?b =
          (Inr True, rename_key (ev_id x) (released_key (ev_key row) (ev_id x) (ee_uuid2 ee)) ?b)"
        using Some assms(9) [of "ev_id x"] num_not_le [OF x, of "ee_now ee"] by (simp add: releaseExpiredKey_def Let_def)
      have "key_holder (ev_key row) (rename_key (ev_id x) (released_key (ev_key row) (ev_id x) (ee_uuid2 ee)) ?b) = None"
        using rename_frees_key [OF bus_wfD(1) [OF assms(10)] Some released_key_neq] .
      then show ?thesis using True Some assms(6-8) rel ins
        by (simp add: emit emit_insert_def insert_event_def)
    next
      case False
      then have rel: "releaseExpiredKey (ev_key row) (ee_now ee) (ee_uuid2 ee) ?b = (Inr False, ?b)"
        using Some num_not_le [OF x] by (simp add: releaseExpiredKey_def)
      then show ?thesis using False Some assms(8) ins
        by (simp add: emit emit_insert_def emit_catch_def is_wb_def ctx_get_def)
    qed
  qed
qed

lemma emit_dedup_window_witness:
  "\<exists>e. emit (demo_env 6) demo_cfg (demo_event ''k'') demo_state1 = (Inl e, demo_state1) \<and>
     ctx_get e ''original_event_id'' = jint 1"
proof -
  let ?e = "demo_env 6"
  let ?rg = "\<lparr>rg_payload = payload_text (h_stringify (ee_host ?e)) (jget (demo_event ''k'') ''payload''),
     rg_cas_sha = None, rg_version = None, rg_warnings = []\<rparr>"
  let ?r = "emit_row (ee_host ?e) demo_cfg (demo_event ''k'') (currentContext (ee_environ ?e) (es_frame demo_state1)) ?rg
     (ee_now ?e) (ee_uuid ?e)"
  obtain row where row: "?r = Inr row" and k: "ev_key row = ''k''" "ev_expires_at row \<noteq> NaN" "ev_dedup_expires_at row \<noteq> NaN"
  proof -
    have "case ?r of Inr row \<Rightarrow> ev_key row = ''k'' \<and> ev_expires_at row \<noteq> NaN \<and> ev_dedup_expires_at row \<noteq> NaN | Inl _ \<Rightarrow> False"
      by code_simp
    then show thesis using that by (auto split: sum.splits)
  qed
  have ok: "validate_event (h_parse (ee_host ?e)) (h_stringify (ee_host ?e)) (cf_max_payload_bytes demo_cfg) (demo_event ''k'') = Inr ()"
    and op: "db_open (es_bus demo_state1)" and gs: "getSchema (es_bus demo_state1) (string_or [] (jget (demo_event ''k'') ''event_type'')) = None"
    and fl: "ee_faults ?e = \<lparr>ef_insert = None, ef_release = None\<rparr>" and keys: "map ev_key (events (es_bus demo_state1)) = [''k'']"
    and h: "map_option ev_id (key_holder ''k'' (es_bus demo_state1)) = Some 1"
    and w: "map_option (\<lambda>x. num_lt (ev_dedup_expires_at x) (Fin 6)) (key_holder ''k'' (es_bus demo_state1)) = Some False"
    and now: "ee_now ?e = 6" by code_simp+
  have wf: "bus_wf (es_bus demo_state1)" "dedup_ok (es_bus demo_state1)"
    using emit_wf [OF demo_state_ok] emit_dedup_ok [OF demo_state_ok(2)] by (simp_all add: demo_state1_def)
  have "key_holder (released_key (ev_key row) i (ee_uuid2 ?e)) (es_bus demo_state1) = None" for i
  proof -
    have "ev_key ` set (events (es_bus demo_state1)) = {''k''}" using keys by (metis list.set_map list.simps(15) empty_set)
    then show ?thesis using released_key_neq [of "''k''" i "ee_uuid2 ?e"] k by (simp add: key_holder_None)
  qed
  from emit_dedup_window [OF ok [unfolded validate_event_Inr] op wf(2) gs row k(2,3) fl this wf(1)] h w now k(1)
  show ?thesis by auto
qed

text \<open>Events emitted one after the other in the same \<open>withContext\<close> body form a chain: unless the
  second event names its own parent, it is stored with the first one's id as its parent.\<close>

theorem emit_chains_causality:
  assumes "emit ee1 cfg ev1 s = (Inr r1, s1)" and "emit ee2 cfg ev2 s1 = (Inr r2, s2)"
    and "es_frame s = Some f" and "\<not> has_own ev2 ''parent_event_id''"
    and "dedup_ok (es_bus s)"
  shows "\<exists>row\<in>set (events (es_bus s2)). ev_id row = er_event_id r2 \<and> ev_parent row = SInt (er_event_id r1)"
proof -
  have d: "dedup_ok (es_bus s1)" using emit_dedup_ok [OF assms(5), of ee1 cfg ev1] assms(1) by simp
  from emit_Inr [OF assms(1,5)] assms(3) have fr: "es_frame s1 = Some (f\<lparr>cz_parent := Some (er_event_id r1)\<rparr>)"
    by (auto simp: recordEmit_def)
  from emit_Inr [OF assms(2) d] obtain rg fs row b1 where
    rw: "emit_row (ee_host ee2) cfg ev2 (currentContext (ee_environ ee2) (es_frame s1)) rg (ee_now ee2) (ee_uuid ee2) = Inr row"
    and rel: "released (ev_key row) (ee_now ee2) (ee_uuid2 ee2) (es_bus s1) b1"
    and i: "er_event_id r2 = events_seq (es_bus s1) + 1" and s2: "es_bus s2 = append_event row b1" by auto
  have "ev_parent row = SInt (er_event_id r1)"
    using rw fr assms(4)
    by (auto simp: emit_row_def Let_def currentContext_def chooseField_def bind_integer_def split: sum.splits)
  then show ?thesis using s2 i released_events(2) [OF rel] by auto
qed

lemma emit_chains_causality_witness:
  "\<exists>row\<in>set (events (es_bus (snd (emit (demo_env 6) demo_cfg (demo_event ''j'') demo_state1)))).
     ev_id row = 2 \<and> ev_parent row = SInt 1"
proof -
  have "es_frame demo_state = Some no_context" and "\<not> has_own (demo_event ''j'') ''parent_event_id''"
    by (simp_all add: demo_state_def demo_event_def)
  from emit_chains_causality [OF demo_emit1 demo_emit2 this demo_state_ok(2)] show ?thesis by simp
qed

end
