(* ===== verification/BusDlq.thy ===== *)
theory BusDlq
  imports BusPoll "HOL-Library.Product_Lexorder"
begin

text \<open>
  The dead-letter queue's operator controls, \<open>lib/dlq.js\<close>: \<open>listDeadLetters\<close>,
  \<open>replayDeadLetter\<close>, \<open>dropDeadLetter\<close>. Proved: what a listing contains and in which order, that
  a replay request marks exactly one row and a drop removes exactly one, and their errors.
\<close>

section \<open>listDeadLetters\<close>

record dl_view =
  dv_row :: dead_letter_row
  dv_plugin :: "string option"
  dv_payload :: jsval

definition dl_limit :: "jsval \<Rightarrow> int" where
  "dl_limit v = (case js_int v of Some n \<Rightarrow> if 0 < n then n else 100 | None \<Rightarrow> 100)"

definition given :: "string option \<Rightarrow> string option" where
  "given v = (case v of Some s \<Rightarrow> if s = [] then None else Some s | None \<Rightarrow> None)"

definition dl_selected :: "bus \<Rightarrow> string option \<Rightarrow> string option \<Rightarrow> dead_letter_row \<Rightarrow> bool" where
  "dl_selected b plugin cursorId d \<longleftrightarrow>
     (case given plugin of None \<Rightarrow> True
      | Some p \<Rightarrow> dl_sub d \<in> su_id ` {s \<in> set (subscriptions b). su_plugin s = p}) \<and>
     (case given cursorId of None \<Rightarrow> True | Some c \<Rightarrow> dl_cursor d = c)"

text \<open>\<open>ORDER BY dead_lettered_at DESC, dl_id DESC\<close>; the ids are distinct.\<close>

definition dl_recent_first :: "dead_letter_row list \<Rightarrow> dead_letter_row list" where
  "dl_recent_first ds = rev (sort_key (\<lambda>d. (dl_dead_lettered_at d, dl_id d)) ds)"

fun parse_rows :: "host \<Rightarrow> bus \<Rightarrow> dead_letter_row list \<Rightarrow> (dl_view list) res" where
  "parse_rows h b [] = Inr []"
| "parse_rows h b (d # ds) =
     (case h_parse h (dl_payload d) of
        None \<Rightarrow> raise_wb WB001 [(''reason'', JStr ''malformed payload'')]
      | Some v \<Rightarrow>
          (case parse_rows h b ds of
             Inl e \<Rightarrow> Inl e
           | Inr vs \<Rightarrow> Inr (\<lparr>dv_row = d, dv_plugin = map_option su_plugin (find_sub b (dl_sub d)),
                            dv_payload = v\<rparr> # vs)))"

definition listDeadLetters ::
  "host \<Rightarrow> bus \<Rightarrow> string option \<Rightarrow> string option \<Rightarrow> jsval \<Rightarrow> (dl_view list) res" where
  "listDeadLetters h b plugin cursorId limit =
     parse_rows h b (sql_limit (dl_limit limit)
       (dl_recent_first (filter (dl_selected b plugin cursorId) (dead_letters b))))"

section \<open>replayDeadLetter and dropDeadLetter\<close>

definition dl_not_found :: "int \<Rightarrow> js_error" where
  "dl_not_found i = WB WB006 [(''dl_id'', jint i), (''reason'', JStr ''dead letter row not found'')]"

definition mark_replay :: "int \<Rightarrow> rat \<Rightarrow> dead_letter_row \<Rightarrow> dead_letter_row" where
  "mark_replay dlId now d = (if dl_id d = dlId then d\<lparr>dl_replay_requested_at := Some now\<rparr> else d)"

definition replayDeadLetter :: "bus \<Rightarrow> int \<Rightarrow> rat \<Rightarrow> (int \<times> rat) res \<times> bus" where
  "replayDeadLetter b dlId now =
     (if \<exists>d\<in>set (dead_letters b). dl_id d = dlId
      then (Inr (dlId, now), b\<lparr>dead_letters := map (mark_replay dlId now) (dead_letters b)\<rparr>)
      else (Inl (dl_not_found dlId), b))"

definition dropDeadLetter :: "bus \<Rightarrow> int \<Rightarrow> int res \<times> bus" where
  "dropDeadLetter b dlId =
     (if \<exists>d\<in>set (dead_letters b). dl_id d = dlId
      then (Inr dlId, b\<lparr>dead_letters := filter (\<lambda>d. dl_id d \<noteq> dlId) (dead_letters b)\<rparr>)
      else (Inl (dl_not_found dlId), b))"

section \<open>Facts\<close>

lemma dead_letters_map_wf:
  assumes "bus_wf b" and f: "\<And>d. dl_id (f d) = dl_id d" "\<And>d. dl_cursor (f d) = dl_cursor d" "\<And>d. dl_sub (f d) = dl_sub d"
  shows "bus_wf (b\<lparr>dead_letters := map f (dead_letters b)\<rparr>)"
  using assms(1) by (simp add: wf_defs comp_def f)

lemma dead_letters_filter_wf: "bus_wf b \<Longrightarrow> bus_wf (b\<lparr>dead_letters := filter P (dead_letters b)\<rparr>)"
  by (simp add: wf_defs map_filter_strict)

lemma mark_replay_sel [simp]:
  "dl_id (mark_replay i now d) = dl_id d" "dl_cursor (mark_replay i now d) = dl_cursor d"
  "dl_sub (mark_replay i now d) = dl_sub d"
  "dl_id d \<noteq> i \<Longrightarrow> mark_replay i now d = d"
  "dl_id d = i \<Longrightarrow> dl_replay_requested_at (mark_replay i now d) = Some now"
  by (simp_all add: mark_replay_def)

lemma replayDeadLetter_wf [wf_intros]: "bus_wf b \<Longrightarrow> bus_wf (snd (replayDeadLetter b i now))"
  unfolding replayDeadLetter_def by (simp add: dead_letters_map_wf)

lemma dropDeadLetter_wf [wf_intros]: "bus_wf b \<Longrightarrow> bus_wf (snd (dropDeadLetter b i))"
  unfolding dropDeadLetter_def by (simp add: dead_letters_filter_wf)

lemma parse_rows_rows: "parse_rows h b ds = Inr vs \<Longrightarrow> map dv_row vs = ds"
  by (induction ds arbitrary: vs) (auto split: option.splits sum.splits)

lemma parse_rows_fields:
  "parse_rows h b ds = Inr vs \<Longrightarrow> v \<in> set vs \<Longrightarrow>
     h_parse h (dl_payload (dv_row v)) = Some (dv_payload v) \<and>
     dv_plugin v = map_option su_plugin (find_sub b (dl_sub (dv_row v)))"
  by (induction ds arbitrary: vs) (auto split: option.splits sum.splits)

lemma parse_rows_Inl:
  "parse_rows h b ds = Inl e \<Longrightarrow> is_wb WB001 e \<and> (\<exists>d\<in>set ds. h_parse h (dl_payload d) = None)"
  by (induction ds) (auto simp: is_wb_def split: option.splits sum.splits)

lemma dl_recent_first_sorted:
  "sorted_wrt (\<lambda>d d'. (dl_dead_lettered_at d', dl_id d') \<le> (dl_dead_lettered_at d, dl_id d)) (dl_recent_first ds)"
proof -
  have "sorted (map (\<lambda>d. (dl_dead_lettered_at d, dl_id d)) (sort_key (\<lambda>d. (dl_dead_lettered_at d, dl_id d)) ds))"
    by (rule sorted_sort_key)
  then show ?thesis by (simp add: dl_recent_first_def sorted_wrt_map sorted_wrt_rev)
qed

section \<open>Properties\<close>

text \<open>A listing is the newest dead letters first: it consists of the rows of the given plugin and
  cursor (all rows without such a filter), ordered by the time of dead-lettering and then the id, both
  descending, cut at the limit (100 unless a positive integer is given), each with its parsed payload;
  it fails, with WB-001, only when a listed payload does not parse.\<close>

theorem dlq_listing:
  "case listDeadLetters h b plugin cursorId limit of
     Inr vs \<Rightarrow>
       (\<exists>rest. dl_recent_first (filter (dl_selected b plugin cursorId) (dead_letters b)) = map dv_row vs @ rest \<and>
          (rest = [] \<or> int (length vs) = dl_limit limit)) \<and>
       sorted_wrt (\<lambda>d d'. (dl_dead_lettered_at d', dl_id d') \<le> (dl_dead_lettered_at d, dl_id d)) (map dv_row vs) \<and>
       int (length vs) \<le> dl_limit limit \<and>
       (\<forall>v\<in>set vs. h_parse h (dl_payload (dv_row v)) = Some (dv_payload v))
   | Inl e \<Rightarrow> is_wb WB001 e \<and>
       (\<exists>d\<in>set (dead_letters b). dl_selected b plugin cursorId d \<and> h_parse h (dl_payload d) = None)"
proof -
  let ?all = "dl_recent_first (filter (dl_selected b plugin cursorId) (dead_letters b))"
  let ?sel = "sql_limit (dl_limit limit) ?all"
  have pos: "0 < dl_limit limit" by (auto simp: dl_limit_def split: option.splits)
  have take: "?sel = take (nat (dl_limit limit)) ?all" using pos by (simp add: sql_limit_def)
  show ?thesis
  proof (cases "listDeadLetters h b plugin cursorId limit")
    case (Inl e)
    then have "parse_rows h b ?sel = Inl e" by (simp add: listDeadLetters_def)
    from parse_rows_Inl [OF this] have "is_wb WB001 e" and "\<exists>d\<in>set ?all. h_parse h (dl_payload d) = None"
      using set_sql_limit by fast+
    with Inl show ?thesis by (auto simp: dl_recent_first_def)
  next
    case (Inr vs)
    then have p: "parse_rows h b ?sel = Inr vs" by (simp add: listDeadLetters_def)
    have rows: "map dv_row vs = ?sel" using p by (rule parse_rows_rows)
    have all: "?all = map dv_row vs @ drop (nat (dl_limit limit)) ?all" unfolding rows take by simp
    have len: "length vs = length ?sel" using rows by (metis length_map)
    have l1: "drop (nat (dl_limit limit)) ?all = [] \<or> int (length vs) = dl_limit limit"
      unfolding len take using pos by auto
    have l2: "int (length vs) \<le> dl_limit limit" unfolding len take using pos by simp
    have "sorted_wrt (\<lambda>d d'. (dl_dead_lettered_at d', dl_id d') \<le> (dl_dead_lettered_at d, dl_id d)) (map dv_row vs)"
      unfolding rows take by (intro sorted_wrt_take dl_recent_first_sorted)
    moreover have "\<forall>v\<in>set vs. h_parse h (dl_payload (dv_row v)) = Some (dv_payload v)"
      using parse_rows_fields [OF p] by blast
    ultimately show ?thesis using all l1 l2 Inr by auto
  qed
qed

definition demo_parser :: host where
  "demo_parser = \<lparr>h_parse = (\<lambda>s. if s = ''{}'' then Some (JObj []) else None), h_stringify = (\<lambda>_. ''{}''),
     h_string = (\<lambda>_. []), h_number = (\<lambda>_. NaN), h_sha256 = (\<lambda>s. s), h_sql_text = (\<lambda>_. []), h_sql_int = (\<lambda>_. SNull)\<rparr>"

definition demo_dl :: "int \<Rightarrow> dead_letter_row" where
  "demo_dl i = \<lparr>dl_id = i, dl_cursor = ''c'', dl_sub = ''s'', dl_event = 1, dl_type = ''wicked.a'', dl_domain = ''d'',
     dl_subdomain = [], dl_payload = ''{}'', dl_emitted_at = 0, dl_attempts = 1, dl_last_error = None,
     dl_dead_lettered_at = 0, dl_replay_requested_at = None\<rparr>"

lemma dlq_listing_witness:
  "\<exists>vs. listDeadLetters demo_parser ((demo_bus [4] 3)\<lparr>dead_letters := [demo_dl 1, demo_dl 2]\<rparr>) None None JUndef = Inr vs \<and>
     map (dl_id \<circ> dv_row) vs = [2, 1] \<and> sorted_wrt (\<lambda>d d'. (dl_dead_lettered_at d', dl_id d') \<le> (dl_dead_lettered_at d, dl_id d)) (map dv_row vs)"
proof -
  let ?l = "listDeadLetters demo_parser ((demo_bus [4] 3)\<lparr>dead_letters := [demo_dl 1, demo_dl 2]\<rparr>) None None JUndef"
  have "(case ?l of Inr vs \<Rightarrow> map (dl_id \<circ> dv_row) vs | Inl _ \<Rightarrow> []) = [2, 1]" by code_simp
  then obtain vs where "?l = Inr vs" "map (dl_id \<circ> dv_row) vs = [2, 1]" by (cases ?l) simp_all
  then show ?thesis
    using dlq_listing [where h = demo_parser and b = "(demo_bus [4] 3)\<lparr>dead_letters := [demo_dl 1, demo_dl 2]\<rparr>"
        and plugin = None and cursorId = None and limit = JUndef] by simp
qed

text \<open>A replay request and a drop touch exactly one dead letter: the named row is marked, or is the
  only one removed; nothing else in the database changes; an unknown id is refused with WB-006.\<close>

theorem dlq_controls_touch_one_row:
  assumes "bus_wf b"
  shows "(if dlId \<in> dl_id ` set (dead_letters b)
      then fst (replayDeadLetter b dlId now) = Inr (dlId, now) \<and> fst (dropDeadLetter b dlId) = Inr dlId
      else (\<exists>e. replayDeadLetter b dlId now = (Inl e, b) \<and> dropDeadLetter b dlId = (Inl e, b) \<and> is_wb WB006 e)) \<and>
     dead_letters (snd (dropDeadLetter b dlId)) = filter (\<lambda>d. dl_id d \<noteq> dlId) (dead_letters b) \<and>
     filter (\<lambda>d. dl_id d \<noteq> dlId) (dead_letters (snd (replayDeadLetter b dlId now)))
       = filter (\<lambda>d. dl_id d \<noteq> dlId) (dead_letters b) \<and>
     (\<forall>d\<in>set (dead_letters (snd (replayDeadLetter b dlId now))).
        dl_id d \<noteq> dlId \<or> dl_replay_requested_at d = Some now) \<and>
     map dl_id (dead_letters (snd (replayDeadLetter b dlId now))) = map dl_id (dead_letters b) \<and>
     bus_wf (snd (dropDeadLetter b dlId)) \<and> bus_wf (snd (replayDeadLetter b dlId now)) \<and>
     events (snd (dropDeadLetter b dlId)) = events b \<and> cursors (snd (dropDeadLetter b dlId)) = cursors b \<and>
     events (snd (replayDeadLetter b dlId now)) = events b \<and> cursors (snd (replayDeadLetter b dlId now)) = cursors b"
proof (cases "dlId \<in> dl_id ` set (dead_letters b)")
  case True
  let ?f = "mark_replay dlId now"
  from True have ex: "\<exists>d\<in>set (dead_letters b). dl_id d = dlId" by auto
  have f: "filter (\<lambda>d. dl_id d \<noteq> dlId) (map ?f ds) = filter (\<lambda>d. dl_id d \<noteq> dlId) ds" for ds
    by (induction ds) simp_all
  have i: "map dl_id (map ?f ds) = map dl_id ds" for ds by simp
  have m: "\<forall>d\<in>set (map ?f ds). dl_id d \<noteq> dlId \<or> dl_replay_requested_at d = Some now" for ds by auto
  have rep: "replayDeadLetter b dlId now = (Inr (dlId, now), b\<lparr>dead_letters := map ?f (dead_letters b)\<rparr>)"
    using ex by (simp add: replayDeadLetter_def)
  have drp: "dropDeadLetter b dlId = (Inr dlId, b\<lparr>dead_letters := filter (\<lambda>d. dl_id d \<noteq> dlId) (dead_letters b)\<rparr>)"
    using ex by (simp add: dropDeadLetter_def)
  have r: "fst (replayDeadLetter b dlId now) = Inr (dlId, now)"
    "dead_letters (snd (replayDeadLetter b dlId now)) = map ?f (dead_letters b)"
    "events (snd (replayDeadLetter b dlId now)) = events b" "cursors (snd (replayDeadLetter b dlId now)) = cursors b"
    by (simp_all add: rep)
  have d: "fst (dropDeadLetter b dlId) = Inr dlId"
    "dead_letters (snd (dropDeadLetter b dlId)) = filter (\<lambda>d. dl_id d \<noteq> dlId) (dead_letters b)"
    "events (snd (dropDeadLetter b dlId)) = events b" "cursors (snd (dropDeadLetter b dlId)) = cursors b"
    by (simp_all add: drp)
  have w: "bus_wf (snd (dropDeadLetter b dlId))" "bus_wf (snd (replayDeadLetter b dlId now))"
    using assms by (rule dropDeadLetter_wf, rule replayDeadLetter_wf)
  show ?thesis unfolding r d f i using True w m by (simp only: if_True simp_thms set_filter mem_Collect_eq)
next
  case False
  then have n: "\<not> (\<exists>d\<in>set (dead_letters b). dl_id d = dlId)" by auto
  then have "\<forall>d\<in>set (dead_letters b). dl_id d \<noteq> dlId" by blast
  then have "filter (\<lambda>d. dl_id d \<noteq> dlId) (dead_letters b) = dead_letters b" by (simp add: filter_id_conv)
  with n False assms show ?thesis
    by (simp add: replayDeadLetter_def dropDeadLetter_def dl_not_found_def is_wb_def)
qed

lemma dlq_controls_touch_one_row_witness:
  "map dl_id (dead_letters (snd (dropDeadLetter ((demo_bus [4] 3)\<lparr>dead_letters := [demo_dl 1, demo_dl 2], dead_letters_seq := 2\<rparr>) 1))) = [2]
   \<and> events (snd (dropDeadLetter ((demo_bus [4] 3)\<lparr>dead_letters := [demo_dl 1, demo_dl 2], dead_letters_seq := 2\<rparr>) 1))
       = events (demo_bus [4] 3)"
proof -
  let ?b = "(demo_bus [4] 3)\<lparr>dead_letters := [demo_dl 1, demo_dl 2], dead_letters_seq := 2\<rparr>"
  have "bus_wf (demo_bus [4] 3)" by (rule demo_bus_wf) auto
  then have wf: "bus_wf ?b" by (auto simp: wf_defs demo_dl_def demo_bus_def)
  from dlq_controls_touch_one_row [OF wf, of 1 0] have "events (snd (dropDeadLetter ?b 1)) = events ?b" by blast
  then show ?thesis by (simp add: dropDeadLetter_def demo_dl_def)
qed

end
