(* ===== verification/BusRegister.thy ===== *)
theory BusRegister
  imports BusPoll
begin

text \<open>
  Registration, \<open>lib/register.js\<close>: \<open>register\<close>, \<open>deregister\<close>, \<open>deregisterByPlugin\<close> and the
  provider sidecar files. \<open>uuidv4()\<close> is not part of the repository: the identifiers it yields are
  arguments, and the primary keys reject a repeated one. \<open>io_ok\<close> says whether the file system
  call of the sidecar succeeds; its failure is swallowed, as in the code.
\<close>

section \<open>register\<close>

fun parse_role :: "string \<Rightarrow> role option" where
  "parse_role r = (if r = ''provider'' then Some Provider
                   else if r = ''subscriber'' then Some Subscriber else None)"

definition write_sidecar :: "bool \<Rightarrow> string \<Rightarrow> provider_sidecar \<Rightarrow> bus \<Rightarrow> bus" where
  "write_sidecar io_ok plugin data b = (if io_ok then b\<lparr>providers := (providers b)(plugin \<mapsto> data)\<rparr> else b)"

definition remove_sidecar :: "bool \<Rightarrow> string \<Rightarrow> bus \<Rightarrow> bus" where
  "remove_sidecar io_ok plugin b = (if io_ok then b\<lparr>providers := (providers b)(plugin := None)\<rparr> else b)"

record register_opts =
  ro_plugin :: string
  ro_role :: string
  ro_filter :: string
  ro_schema_version :: "string option"
  ro_cursor_init :: "string option"

record register_result =
  rr_subscription_id :: string
  rr_role :: role
  rr_registered_at :: rat
  rr_cursor_id :: "string option"
  rr_cursor_init :: "string option"
  rr_last_event_id :: "int option"

text \<open>\<open>x || null\<close> for an optional string.\<close>

definition or_null :: "string option \<Rightarrow> string option" where
  "or_null x = (case x of Some s \<Rightarrow> if s = [] then None else Some s | None \<Rightarrow> None)"

definition initial_position :: "bus \<Rightarrow> string option \<Rightarrow> int" where
  "initial_position b ci =
     (if ci = Some ''latest'' then (case max_event_id b of Some m \<Rightarrow> m | None \<Rightarrow> 0) else 0)"

definition insert_subscription ::
  "bus \<Rightarrow> register_opts \<Rightarrow> string \<Rightarrow> rat \<Rightarrow> role res \<times> bus" where
  "insert_subscription b opts sid now =
     (case parse_role (ro_role opts) of
        None \<Rightarrow> (Inl (SqliteError ''SQLITE_CONSTRAINT_CHECK''), b)
      | Some r \<Rightarrow>
          if sid \<in> su_id ` set (subscriptions b) then (Inl (SqliteError ''SQLITE_CONSTRAINT_PRIMARYKEY''), b)
          else (Inr r, b\<lparr>subscriptions := subscriptions b @
            [\<lparr>su_id = sid, su_plugin = ro_plugin opts, su_role = r, su_filter = ro_filter opts,
              su_schema_version = or_null (ro_schema_version opts), su_registered_at = now,
              su_deregistered_at = None\<rparr>]\<rparr>))"

definition insert_cursor :: "bus \<Rightarrow> string \<Rightarrow> string \<Rightarrow> int \<Rightarrow> rat \<Rightarrow> unit res \<times> bus" where
  "insert_cursor b cid sid pos now =
     (if cid \<in> cu_id ` set (cursors b) then (Inl (SqliteError ''SQLITE_CONSTRAINT_PRIMARYKEY''), b)
      else if sid \<notin> su_id ` set (subscriptions b) then (Inl (SqliteError ''SQLITE_CONSTRAINT_FOREIGNKEY''), b)
      else (Inr (), b\<lparr>cursors := cursors b @
        [\<lparr>cu_id = cid, cu_sub = sid, cu_last = pos, cu_acked_at = None, cu_created_at = now,
          cu_deregistered_at = None\<rparr>]\<rparr>))"

definition register ::
  "bus \<Rightarrow> register_opts \<Rightarrow> string \<Rightarrow> string \<Rightarrow> rat \<Rightarrow> bool \<Rightarrow> register_result res \<times> bus" where
  "register b opts sid cid now io_ok =
     (case insert_subscription b opts sid now of
        (Inl e, b1) \<Rightarrow> (Inl e, b1)
      | (Inr Provider, b1) \<Rightarrow>
          (Inr \<lparr>rr_subscription_id = sid, rr_role = Provider, rr_registered_at = now,
             rr_cursor_id = None, rr_cursor_init = None, rr_last_event_id = None\<rparr>,
           write_sidecar io_ok (ro_plugin opts)
             \<lparr>pv_subscription_id = sid,
              pv_event_types = map js_trim (split_on (CHR '','') (ro_filter opts)),
              pv_schema_version = or_null (ro_schema_version opts), pv_registered_at_ms = now\<rparr> b1)
      | (Inr Subscriber, b1) \<Rightarrow>
          (let pos = initial_position b1 (ro_cursor_init opts) in
           case insert_cursor b1 cid sid pos now of
             (Inl e, b2) \<Rightarrow> (Inl e, b2)
           | (Inr _, b2) \<Rightarrow>
               (Inr \<lparr>rr_subscription_id = sid, rr_role = Subscriber, rr_registered_at = now,
                  rr_cursor_id = Some cid,
                  rr_cursor_init = (case or_null (ro_cursor_init opts) of
                     Some ci \<Rightarrow> Some ci | None \<Rightarrow> Some ''latest''),
                  rr_last_event_id = Some pos\<rparr>, b2)))"

section \<open>deregister\<close>

definition retire_sub :: "string \<Rightarrow> rat \<Rightarrow> bus \<Rightarrow> bus" where
  "retire_sub sid now b = b\<lparr>subscriptions :=
     map (\<lambda>s. if su_id s = sid then s\<lparr>su_deregistered_at := Some now\<rparr> else s) (subscriptions b)\<rparr>"

definition retire_cursors :: "string \<Rightarrow> rat \<Rightarrow> bus \<Rightarrow> bus" where
  "retire_cursors sid now b = b\<lparr>cursors :=
     map (\<lambda>c. if cu_sub c = sid \<and> cursor_active c then c\<lparr>cu_deregistered_at := Some now\<rparr> else c)
       (cursors b)\<rparr>"

text \<open>The transaction body shared by both operations, for one subscription row.\<close>

definition retire :: "bool \<Rightarrow> rat \<Rightarrow> subscription_row \<Rightarrow> bus \<Rightarrow> bus" where
  "retire io_ok now s b =
     (let b1 = retire_sub (su_id s) now b;
          b2 = (if su_role s = Subscriber then retire_cursors (su_id s) now b1 else b1)
      in if su_role s = Provider then remove_sidecar io_ok (su_plugin s) b2 else b2)"

definition deregister :: "bus \<Rightarrow> string \<Rightarrow> rat \<Rightarrow> bool \<Rightarrow> (string \<times> rat) res \<times> bus" where
  "deregister b sid now io_ok =
     (case find_sub b sid of
        None \<Rightarrow> (Inl (WB WB006 [(''subscription_id'', JStr sid),
                  (''reason'', JStr ''subscription not found'')]), b)
      | Some s \<Rightarrow> (Inr (sid, now), retire io_ok now s b))"

definition active_subs_of :: "bus \<Rightarrow> string \<Rightarrow> role option \<Rightarrow> subscription_row list" where
  "active_subs_of b plugin ro =
     filter (\<lambda>s. su_plugin s = plugin \<and> (case ro of Some r \<Rightarrow> su_role s = r | None \<Rightarrow> True) \<and> sub_active s)
       (subscriptions b)"

definition deregister_by_plugin ::
  "bus \<Rightarrow> jsval \<Rightarrow> string option \<Rightarrow> rat \<Rightarrow> bool \<Rightarrow> (string list) res \<times> bus" where
  "deregister_by_plugin b plugin ro now io_ok =
     (case plugin of
        JStr p \<Rightarrow>
          if p = [] then (Inl (WB WB001 [(''reason'', JStr ''invalid plugin'')]), b)
          else if ro \<noteq> None \<and> parse_role (the ro) = None
          then (Inl (WB WB001 [(''reason'', JStr ''invalid role'')]), b)
          else
            (let subs = active_subs_of b p (Option.bind ro parse_role) in
             if subs = [] then
               (Inl (WB WB006 [(''plugin'', JStr p),
                  (''role'', case ro of Some r \<Rightarrow> JStr r | None \<Rightarrow> JNull),
                  (''reason'', JStr ''no active subscription'')]), b)
             else (Inr (map su_id subs), fold (retire io_ok now) subs b))
      | _ \<Rightarrow> (Inl (WB WB001 [(''reason'', JStr ''invalid plugin'')]), b))"

section \<open>Frame and well-formedness\<close>

lemma sidecar_frame [simp]:
  "events (write_sidecar ok p d b) = events b"
  "events_seq (write_sidecar ok p d b) = events_seq b"
  "subscriptions (write_sidecar ok p d b) = subscriptions b"
  "cursors (write_sidecar ok p d b) = cursors b"
  "dead_letters (write_sidecar ok p d b) = dead_letters b"
  "dead_letters_seq (write_sidecar ok p d b) = dead_letters_seq b"
  "delivery_attempts (write_sidecar ok p d b) = delivery_attempts b"
  "events (remove_sidecar ok p b) = events b"
  "events_seq (remove_sidecar ok p b) = events_seq b"
  "subscriptions (remove_sidecar ok p b) = subscriptions b"
  "cursors (remove_sidecar ok p b) = cursors b"
  "dead_letters (remove_sidecar ok p b) = dead_letters b"
  "dead_letters_seq (remove_sidecar ok p b) = dead_letters_seq b"
  "delivery_attempts (remove_sidecar ok p b) = delivery_attempts b"
  by (simp_all add: write_sidecar_def remove_sidecar_def)

lemma retire_frame [simp]:
  "events (retire ok now s b) = events b"
  "events_seq (retire ok now s b) = events_seq b"
  "dead_letters (retire ok now s b) = dead_letters b"
  "dead_letters_seq (retire ok now s b) = dead_letters_seq b"
  "delivery_attempts (retire ok now s b) = delivery_attempts b"
  "map su_id (subscriptions (retire ok now s b)) = map su_id (subscriptions b)"
  "map cu_id (cursors (retire ok now s b)) = map cu_id (cursors b)"
  "map cu_sub (cursors (retire ok now s b)) = map cu_sub (cursors b)"
  by (auto simp: retire_def retire_sub_def retire_cursors_def Let_def)

lemma retire_wf [wf_intros]:
  assumes "bus_wf b"
  shows "bus_wf (retire ok now s b)"
proof
  note wf = bus_wfD [OF assms]
  have subs: "su_id ` set (subscriptions (retire ok now s b)) = su_id ` set (subscriptions b)"
    and curs: "cu_id ` set (cursors (retire ok now s b)) = cu_id ` set (cursors b)"
    by (rule set_map_eq, simp)+
  show "events_wf (retire ok now s b)" using wf(1) by (subst events_wf_cong) auto
  show "subs_wf (retire ok now s b)" using wf(2) by (simp add: subs_wf_def)
  show "cursors_wf (retire ok now s b)" using wf(3) subs by (subst cursors_wf_cong) auto
  show "dlq_wf (retire ok now s b)" using wf(4) subs curs by (subst dlq_wf_cong) auto
  show "attempts_wf (retire ok now s b)" using wf(5) curs by (subst attempts_wf_cong) auto
qed

lemma fold_retire_wf: "bus_wf b \<Longrightarrow> bus_wf (fold (retire ok now) ss b)"
  by (induction ss arbitrary: b) (auto intro: retire_wf)

lemma deregister_wf [wf_intros]: "bus_wf b \<Longrightarrow> bus_wf (snd (deregister b sid now ok))"
  by (auto simp: deregister_def intro: retire_wf split: option.splits)

lemma deregister_by_plugin_wf [wf_intros]:
  "bus_wf b \<Longrightarrow> bus_wf (snd (deregister_by_plugin b p r now ok))"
  by (auto simp: deregister_by_plugin_def Let_def intro: fold_retire_wf split: jsval.splits)

lemma insert_subscription_wf:
  assumes "bus_wf b" and "insert_subscription b opts sid now = (r, b')"
  shows "bus_wf b'"
proof (cases r)
  case (Inl e)
  with assms show ?thesis by (auto simp: insert_subscription_def split: option.splits if_splits)
next
  case (Inr ro)
  with assms(2) obtain s where b': "b' = b\<lparr>subscriptions := subscriptions b @ [s]\<rparr>" and "su_id s = sid"
    and "sid \<notin> su_id ` set (subscriptions b)"
    by (auto simp: insert_subscription_def split: option.splits if_splits)
  then show ?thesis using bus_wfD [OF assms(1)]
    by (auto simp: wf_defs)
qed

lemma insert_cursor_wf:
  assumes "bus_wf b" and "insert_cursor b cid sid pos now = (r, b')"
  shows "bus_wf b'"
proof (cases r)
  case (Inl e)
  with assms show ?thesis by (auto simp: insert_cursor_def split: if_splits)
next
  case (Inr u)
  with assms(2) obtain c where b': "b' = b\<lparr>cursors := cursors b @ [c]\<rparr>" and "cu_id c = cid"
    and "cid \<notin> cu_id ` set (cursors b)" and "cu_sub c \<in> su_id ` set (subscriptions b)"
    by (auto simp: insert_cursor_def split: if_splits)
  then show ?thesis using bus_wfD [OF assms(1)]
    by (auto simp: wf_defs)
qed

lemma write_sidecar_wf: "bus_wf b \<Longrightarrow> bus_wf (write_sidecar ok p d b)"
  by (simp add: wf_defs)

lemma register_wf [wf_intros]:
  assumes "bus_wf b"
  shows "bus_wf (snd (register b opts sid cid now ok))"
proof -
  obtain r b1 where i: "insert_subscription b opts sid now = (r, b1)" by fastforce
  with assms have w: "bus_wf b1" by (rule insert_subscription_wf)
  obtain r2 b2 where c: "insert_cursor b1 cid sid (initial_position b1 (ro_cursor_init opts)) now = (r2, b2)"
    by fastforce
  with w have "bus_wf b2" by (rule insert_cursor_wf)
  with i c w show ?thesis
    by (auto simp: register_def Let_def intro: write_sidecar_wf split: sum.splits role.splits)
qed

section \<open>What a subscriber gets\<close>

lemma register_subscriber:
  assumes "ro_role opts = ''subscriber''"
    and "sid \<notin> su_id ` set (subscriptions b)" and "cid \<notin> cu_id ` set (cursors b)"
  shows "\<exists>res b'. register b opts sid cid now ok = (Inr res, b') \<and>
     rr_cursor_id res = Some cid \<and> rr_last_event_id res = Some (initial_position b (ro_cursor_init opts)) \<and>
     cursor_position b' cid = Some (initial_position b (ro_cursor_init opts)) \<and>
     cursor_filter b' cid = Some (ro_filter opts) \<and> events b' = events b"
proof -
  have "find (\<lambda>c. cu_id c = cid) (cursors b) = None" using assms(3) by (auto simp: find_None_iff)
  moreover have "find (\<lambda>s. su_id s = sid) (subscriptions b) = None"
    using assms(2) by (auto simp: find_None_iff)
  ultimately show ?thesis using assms
    by (simp add: register_def insert_subscription_def insert_cursor_def Let_def initial_position_def
        max_event_id_def cursor_position_def cursor_filter_def find_cursor_def find_sub_def find_append
        cursor_active_def)
qed

text \<open>Deregistration takes effect on every later call that names the cursor.\<close>

lemma retire_cursor_position:
  assumes "find_cursor b cid = Some c" and "cu_sub c = su_id s" and "su_role s = Subscriber"
  shows "cursor_position (retire ok now s b) cid = None"
proof -
  have k: "\<exists>c'. find (\<lambda>c. cu_id c = cid) (map (\<lambda>c. if cu_sub c = su_id s \<and> cursor_active c
         then c\<lparr>cu_deregistered_at := Some now\<rparr> else c) cs) = Some c' \<and> \<not> cursor_active c'"
    if "find (\<lambda>c. cu_id c = cid) cs = Some c" for cs
    using that assms(2) by (induction cs) (auto simp: cursor_active_def split: if_splits)
  obtain c' where "find_cursor (retire ok now s b) cid = Some c'" "\<not> cursor_active c'"
    using k [OF assms(1) [unfolded find_cursor_def]] assms(3)
    by (auto simp: find_cursor_def retire_def retire_sub_def retire_cursors_def Let_def)
  then show ?thesis by (simp add: cursor_position_def)
qed

section \<open>Properties\<close>

text \<open>Registering a subscriber creates an active cursor with the requested filter, at 0 for
  \<open>oldest\<close>, at the largest stored id for \<open>latest\<close>, changes no event and keeps the invariant.\<close>

theorem register_creates_cursor:
  assumes "bus_wf b" and "ro_role opts = ''subscriber''"
    and "sid \<notin> su_id ` set (subscriptions b)" and "cid \<notin> cu_id ` set (cursors b)"
  shows "\<exists>res b'. register b opts sid cid now ok = (Inr res, b') \<and> bus_wf b' \<and>
     rr_cursor_id res = Some cid \<and> cursor_filter b' cid = Some (ro_filter opts) \<and> events b' = events b \<and>
     cursor_position b' cid = Some (if ro_cursor_init opts = Some ''latest''
       then (case max_event_id b of Some m \<Rightarrow> m | None \<Rightarrow> 0) else 0)"
proof -
  from register_subscriber [OF assms(2-4)] obtain res b' where
    "register b opts sid cid now ok = (Inr res, b')" "rr_cursor_id res = Some cid"
    "cursor_position b' cid = Some (initial_position b (ro_cursor_init opts))"
    "cursor_filter b' cid = Some (ro_filter opts)" "events b' = events b" by blast
  moreover from this(1) have "bus_wf b'"
    using register_wf [OF assms(1), of opts sid cid now ok] by simp
  ultimately show ?thesis by (auto simp: initial_position_def)
qed

definition demo_opts :: "string option \<Rightarrow> register_opts" where
  "demo_opts ci = \<lparr>ro_plugin = ''q'', ro_role = ''subscriber'', ro_filter = ''wicked.*'', ro_schema_version = None,
     ro_cursor_init = ci\<rparr>"

lemma register_creates_cursor_witness:
  "cursor_position (snd (register (demo_bus [4, 5] 1) (demo_opts (Some ''latest'')) ''s2'' ''c2'' 0 True)) ''c2'' = Some 5"
proof -
  have wf: "bus_wf (demo_bus [4, 5] 1)" by (rule demo_bus_wf) auto
  have m: "max_event_id (demo_bus [4, 5] 1) = Some 5" by code_simp
  have "''s2'' \<notin> su_id ` set (subscriptions (demo_bus [4, 5] 1))" and "''c2'' \<notin> cu_id ` set (cursors (demo_bus [4, 5] 1))"
    and "ro_role (demo_opts (Some ''latest'')) = ''subscriber''" and "ro_cursor_init (demo_opts (Some ''latest'')) = Some ''latest''"
    by (simp_all add: demo_bus_def demo_opts_def)
  with register_creates_cursor [OF wf, of "demo_opts (Some ''latest'')" "''s2''" "''c2''" 0 True] m
  show ?thesis by auto
qed

text \<open>A registration that omits \<open>cursor_init\<close> reports the documented default \<open>latest\<close> but its cursor
  starts at 0, so it receives the whole stored backlog.\<close>

theorem register_default_starts_at_zero:
  assumes "ro_role opts = ''subscriber''" and "ro_cursor_init opts = None"
    and "sid \<notin> su_id ` set (subscriptions b)" and "cid \<notin> cu_id ` set (cursors b)"
  shows "\<exists>res b'. register b opts sid cid now ok = (Inr res, b') \<and> rr_cursor_init res = Some ''latest'' \<and>
     cursor_position b' cid = Some 0"
proof -
  from register_subscriber [OF assms(1,3,4)] obtain res b' where
    r: "register b opts sid cid now ok = (Inr res, b')" and "cursor_position b' cid = Some (initial_position b (ro_cursor_init opts))"
    by blast
  moreover have "rr_cursor_init res = Some ''latest''"
    using r assms(1,2) by (auto simp: register_def Let_def insert_subscription_def or_null_def
        split: prod.splits sum.splits if_splits)
  ultimately show ?thesis using assms(2) by (simp add: initial_position_def)
qed

lemma register_default_starts_at_zero_witness:
  "\<exists>res b'. register (demo_bus [4, 5] 1) (demo_opts None) ''s2'' ''c2'' 0 True = (Inr res, b') \<and>
     rr_cursor_init res = Some ''latest'' \<and> cursor_position b' ''c2'' = Some 0 \<and> max_event_id (demo_bus [4, 5] 1) = Some 5"
proof -
  have m: "max_event_id (demo_bus [4, 5] 1) = Some 5" by code_simp
  have "''s2'' \<notin> su_id ` set (subscriptions (demo_bus [4, 5] 1))" and "''c2'' \<notin> cu_id ` set (cursors (demo_bus [4, 5] 1))"
    and "ro_role (demo_opts None) = ''subscriber''" and "ro_cursor_init (demo_opts None) = None"
    by (simp_all add: demo_bus_def demo_opts_def)
  with register_default_starts_at_zero [of "demo_opts None"] m show ?thesis by blast
qed

text \<open>C38: Deregistering a subscription stops its cursors: every later poll and ack of a cursor of that
  subscription is refused with WB-006, and no event is touched.\<close>

theorem deregister_stops_delivery:
  assumes "find_sub b sid = Some s" and "su_role s = Subscriber"
    and "find_cursor b cid = Some c" and "cu_sub c = sid"
  shows "\<exists>b'. deregister b sid now ok = (Inr (sid, now), b') \<and> events b' = events b \<and>
     (\<exists>e. poll b' cid bs af = Inl e \<and> is_wb WB006 e) \<and> (\<exists>e. ack b' cid n t = (Inl e, b') \<and> is_wb WB006 e)"
proof -
  let ?b = "retire ok now s b"
  have sid: "su_id s = sid" using find_sub_id [OF assms(1)] by simp
  have p: "cursor_position ?b cid = None"
    using assms(3) sid assms(4,2) by (intro retire_cursor_position) auto
  then have "\<exists>e. poll ?b cid bs af = Inl e \<and> is_wb WB006 e"
    by (auto simp: poll_def cursor_position_def cursor_not_found_def is_wb_def split: option.splits if_splits)
  moreover have "\<exists>e. ack ?b cid n t = (Inl e, ?b) \<and> is_wb WB006 e"
    using ack_inactive [OF p] by (simp add: cursor_not_found_def is_wb_def)
  ultimately show ?thesis using assms(1) by (simp add: deregister_def)
qed

lemma deregister_stops_delivery_witness:
  "\<exists>b' e. deregister (demo_bus [4, 5] 3) ''s'' 7 True = (Inr (''s'', 7), b') \<and> poll b' ''c'' None None = Inl e"
proof -
  have "find_sub (demo_bus [4, 5] 3) ''s'' = Some (hd (subscriptions (demo_bus [4, 5] 3)))"
    and "su_role (hd (subscriptions (demo_bus [4, 5] 3))) = Subscriber"
    and "find_cursor (demo_bus [4, 5] 3) ''c'' = Some (hd (cursors (demo_bus [4, 5] 3)))"
    and "cu_sub (hd (cursors (demo_bus [4, 5] 3))) = ''s''"
    by (simp_all add: demo_bus_def find_sub_def find_cursor_def)
  from deregister_stops_delivery [OF this, of 7 True None None] show ?thesis by blast
qed

end
