(* ===== verification/BusSubscribe.thy ===== *)
theory BusSubscribe
  imports BusRegister
begin

text \<open>
  The managed subscriber, \<open>lib/subscribe.js\<close>. The loop \<open>tick\<close>/\<open>processEvent\<close>/\<open>drainReplays\<close>
  is a step function on a program counter: every database statement, every handler call and every
  backoff sleep is one step, so that a crash, a call of \<open>stop()\<close> or a statement of another process
  can fall between any two. What the environment supplies (the timer, the handler's outcome, the
  time, a failing statement) is the input of the step. Proved here: the retry ledger counts, and the
  runs of a healthy and of a failing handler; \<open>BusDelivery\<close> proves at-least-once delivery.
\<close>

section \<open>registerOrResume\<close>

definition resumable :: "bus \<Rightarrow> string \<Rightarrow> string \<Rightarrow> (subscription_row \<times> cursor_row) list" where
  "resumable b plugin flt = concat (map (\<lambda>s.
     if su_plugin s = plugin \<and> su_role s = Subscriber \<and> su_filter s = flt \<and> sub_active s
     then map (\<lambda>c. (s, c)) (filter (\<lambda>c. cu_sub c = su_id s \<and> cursor_active c) (cursors b)) else [])
     (subscriptions b))"

definition registerOrResume ::
  "bus \<Rightarrow> string \<Rightarrow> string \<Rightarrow> string \<Rightarrow> string \<Rightarrow> string \<Rightarrow> rat \<Rightarrow> bool \<Rightarrow> (string \<times> string \<times> bool) res \<times> bus" where
  "registerOrResume b plugin flt cursor_init sid cid now io_ok =
     (case sort_key (\<lambda>(s, c). - su_registered_at s) (resumable b plugin flt) of
        (s, c) # _ \<Rightarrow> (Inr (su_id s, cu_id c, False), b)
      | [] \<Rightarrow>
          (case register b \<lparr>ro_plugin = plugin, ro_role = ''subscriber'', ro_filter = flt,
                   ro_schema_version = None, ro_cursor_init = Some cursor_init\<rparr> sid cid now io_ok of
             (Inl e, b1) \<Rightarrow> (Inl e, b1)
           | (Inr r, b1) \<Rightarrow> (Inr (rr_subscription_id r, (case rr_cursor_id r of Some c \<Rightarrow> c | None \<Rightarrow> []), True), b1)))"

section \<open>Retries\<close>

datatype backoff = NoBackoff | Constant rat | Steps "rat list"

definition normalizeBackoff :: "backoff \<Rightarrow> int \<Rightarrow> rat list" where
  "normalizeBackoff input maxRetries =
     (if maxRetries \<le> 0 then []
      else (let source = (case input of Steps xs \<Rightarrow> xs | Constant x \<Rightarrow> [x] | NoBackoff \<Rightarrow> [1000]) in
        if source = [] then replicate (nat maxRetries) 1000
        else map (\<lambda>i. source ! min i (length source - 1)) [0..<nat maxRetries]))"

definition attempt_of :: "string \<Rightarrow> int \<Rightarrow> attempt_row \<Rightarrow> bool" where
  "attempt_of cid i a \<longleftrightarrow> da_cursor a = cid \<and> da_event a = i"

definition getAttempts :: "bus \<Rightarrow> string \<Rightarrow> int \<Rightarrow> nat" where
  "getAttempts b cid i = (case find (attempt_of cid i) (delivery_attempts b) of Some a \<Rightarrow> da_attempts a | None \<Rightarrow> 0)"

definition with_attempt :: "string \<Rightarrow> int \<Rightarrow> nat \<Rightarrow> rat \<Rightarrow> string option \<Rightarrow> attempt_row \<Rightarrow> attempt_row" where
  "with_attempt cid i n now msg a = (if attempt_of cid i a
     then a\<lparr>da_attempts := n, da_last_attempt_at := now, da_last_error := msg\<rparr> else a)"

definition upsertDeliveryAttempt :: "bus \<Rightarrow> string \<Rightarrow> int \<Rightarrow> nat \<Rightarrow> string option \<Rightarrow> rat \<Rightarrow> unit res \<times> bus" where
  "upsertDeliveryAttempt b cid i n msg now =
     (if cid \<notin> cu_id ` set (cursors b) then (Inl (SqliteError ''SQLITE_CONSTRAINT_FOREIGNKEY''), b)
      else (Inr (), b\<lparr>delivery_attempts :=
        (if \<exists>a\<in>set (delivery_attempts b). attempt_of cid i a
         then map (with_attempt cid i n now msg) (delivery_attempts b)
         else delivery_attempts b @ [\<lparr>da_cursor = cid, da_event = i, da_attempts = n, da_last_attempt_at = now,
                da_last_error = msg\<rparr>])\<rparr>))"

definition deleteDeliveryAttempt :: "bus \<Rightarrow> string \<Rightarrow> int \<Rightarrow> bus" where
  "deleteDeliveryAttempt b cid i = b\<lparr>delivery_attempts := filter (\<lambda>a. \<not> attempt_of cid i a) (delivery_attempts b)\<rparr>"

definition dead_letter_for :: "string \<Rightarrow> string \<Rightarrow> event_row \<Rightarrow> nat \<Rightarrow> string option \<Rightarrow> rat \<Rightarrow> int \<Rightarrow> dead_letter_row" where
  "dead_letter_for cid sid e n reason now i =
     \<lparr>dl_id = i, dl_cursor = cid, dl_sub = sid, dl_event = ev_id e, dl_type = ev_type e, dl_domain = ev_domain e,
      dl_subdomain = ev_subdomain e, dl_payload = ev_payload e, dl_emitted_at = ev_emitted_at e, dl_attempts = n,
      dl_last_error = reason, dl_dead_lettered_at = now, dl_replay_requested_at = None\<rparr>"

definition moveToDeadLetter ::
  "bus \<Rightarrow> string \<Rightarrow> string \<Rightarrow> event_row \<Rightarrow> nat \<Rightarrow> string option \<Rightarrow> rat \<Rightarrow> unit res \<times> bus" where
  "moveToDeadLetter b cid sid e n reason now =
     (if cid \<notin> cu_id ` set (cursors b) \<or> sid \<notin> su_id ` set (subscriptions b)
      then (Inl (SqliteError ''SQLITE_CONSTRAINT_FOREIGNKEY''), b)
      else (Inr (), b\<lparr>dead_letters := dead_letters b @ [dead_letter_for cid sid e n reason now (dead_letters_seq b + 1)],
                      dead_letters_seq := dead_letters_seq b + 1\<rparr>))"

text \<open>The parsed payload handed to the handler; text that does not parse stays text.\<close>

definition parseEvent :: "host \<Rightarrow> string \<Rightarrow> jsval" where
  "parseEvent h payload = (case h_parse h payload of Some v \<Rightarrow> v | None \<Rightarrow> JStr payload)"

section \<open>computeLag\<close>

record lag =
  lg_cursor_lag :: int
  lg_oldest_age :: "rat option"
  lg_dlq_count :: nat

definition computeLag :: "bus \<Rightarrow> string \<Rightarrow> rat \<Rightarrow> lag" where
  "computeLag b cid now =
     (case find_cursor b cid of
        None \<Rightarrow> \<lparr>lg_cursor_lag = 0, lg_oldest_age = None, lg_dlq_count = 0\<rparr>
      | Some c \<Rightarrow>
          (case find_sub b (cu_sub c) of
             None \<Rightarrow> \<lparr>lg_cursor_lag = 0, lg_oldest_age = None, lg_dlq_count = 0\<rparr>
           | Some s \<Rightarrow>
               \<lparr>lg_cursor_lag = max 0 ((case max_event_id b of Some m \<Rightarrow> m | None \<Rightarrow> 0) - cu_last c),
                lg_oldest_age = map_option (\<lambda>t. now - t)
                  (list_min (map ev_emitted_at (filter (\<lambda>e. cu_last c < ev_id e) (events b)))),
                lg_dlq_count = length (filter (\<lambda>d. dl_cursor d = cid) (dead_letters b))\<rparr>))"

section \<open>The loop\<close>

record sub_config =
  sb_cursor :: string
  sb_sub :: string
  sb_batch :: int
  sb_max_retries :: int
  sb_backoff :: "rat list"

text \<open>
  Where the loop stands. \<open>Idle\<close> waits for the poll timer. The database statement a state is about to
  run: \<open>Drain\<close> the next replay, \<open>ReplayDone\<close>/\<open>ReplayFailed\<close> its outcome, \<open>Poll\<close>, \<open>Begin\<close>
  the attempt count of the next event, \<open>Clear\<close> and \<open>AckIt\<close> after a handled event, \<open>Retry\<close> the
  count after a failure, \<open>Bury\<close>, \<open>BuryClear\<close>, \<open>BuryAck\<close> for a dead letter, \<open>Reanchor\<close> after
  WB-003. \<open>Call\<close> and \<open>Replaying\<close> wait for the handler, \<open>Backoff\<close> for its timer. The last
  argument is the rest of the batch.
\<close>

datatype pc =
    Idle
  | Drain
  | Replaying dead_letter_row
  | ReplayDone int
  | ReplayFailed int "string option"
  | Poll
  | Begin event_row "event_row list"
  | Call event_row nat "event_row list"
  | Clear event_row nat "event_row list"
  | AckIt event_row nat "event_row list"
  | Retry event_row nat "string option" "event_row list"
  | Backoff event_row nat rat "event_row list"
  | Bury event_row nat "string option" "event_row list"
  | BuryClear event_row nat "string option" "event_row list"
  | BuryAck event_row nat "string option" "event_row list"
  | Reanchor js_error int
  | Stopped

record agent =
  ag_pc :: pc
  ag_stopping :: bool
  ag_unusable :: nat
  ag_last_unusable :: "js_error option"

datatype input =
    Timer
  | Run rat
  | Fault js_error string
  | Resolve
  | Reject "string option"
  | RejectBad
  | Slept
  | StopCall

datatype action =
    Invoked int
  | InvokedReplay int
  | Handled int
  | DeadLettered int
  | OnError "js_error option" "int option"
  | OnDeadLetter int "string option"

definition fresh_agent :: agent where
  "fresh_agent = \<lparr>ag_pc = Idle, ag_stopping = False, ag_unusable = 0, ag_last_unusable = None\<rparr>"

definition goto :: "pc \<Rightarrow> agent \<Rightarrow> agent" where
  "goto p a = a\<lparr>ag_pc := p\<rparr>"

text \<open>The \<open>finally\<close> of \<open>tick\<close>.\<close>

definition end_tick :: "agent \<Rightarrow> agent" where
  "end_tick a = goto (if ag_stopping a then Stopped else Idle) a"

definition isConnectionFatal :: "js_error \<Rightarrow> bool" where
  "isConnectionFatal e = (case e of
      SqliteError c \<Rightarrow> prefix ''SQLITE_CORRUPT'' c \<or> prefix ''SQLITE_NOTADB'' c \<or> prefix ''SQLITE_IOERR'' c
    | _ \<Rightarrow> False)"

definition sqlite_code :: "js_error \<Rightarrow> string" where
  "sqlite_code e = (case e of SqliteError c \<Rightarrow> c | _ \<Rightarrow> [])"

text \<open>The \<open>catch\<close> of \<open>tick\<close>.\<close>

definition tick_catch :: "sub_config \<Rightarrow> js_error \<Rightarrow> agent \<Rightarrow> agent \<times> action list" where
  "tick_catch cfg e a =
     (if isConnectionFatal e
      then (let a1 = a\<lparr>ag_unusable := ag_unusable a + 1, ag_last_unusable := Some e\<rparr> in
        (end_tick a1, [OnError (Some (WB WB014 [(''sqlite_code'', JStr (sqlite_code e)),
           (''consecutive'', jint (int (ag_unusable a1))), (''subscription_id'', JStr (sb_sub cfg)),
           (''cursor_id'', JStr (sb_cursor cfg))])) None]))
      else if is_wb WB003 e
      then (case js_int (ctx_get e ''oldest_available_event_id'') of
              Some m \<Rightarrow> (goto (Reanchor e (m - 1)) a, [])
            | None \<Rightarrow> (end_tick a, [OnError (Some e) None]))
      else (end_tick a, [OnError (Some e) None]))"

text \<open>The next iteration of the loop over the batch.\<close>

definition next_event :: "event_row list \<Rightarrow> agent \<Rightarrow> agent" where
  "next_event rest a = (case rest of
      [] \<Rightarrow> end_tick a
    | e # es \<Rightarrow> if ag_stopping a then end_tick a else goto (Begin e es) a)"

text \<open>The head of the retry loop.\<close>

definition enter_call :: "event_row \<Rightarrow> nat \<Rightarrow> event_row list \<Rightarrow> agent \<Rightarrow> agent \<times> action list" where
  "enter_call e n rest a =
     (if ag_stopping a \<and> 0 < n then (goto (Bury e n (Some ''shutdown during backoff'') rest) a, [])
      else (goto (Call e n rest) a, [Invoked (ev_id e)]))"

text \<open>The \<open>catch\<close> of \<open>processEvent\<close>.\<close>

definition fail_event :: "sub_config \<Rightarrow> event_row \<Rightarrow> nat \<Rightarrow> js_error option \<Rightarrow> string option \<Rightarrow> event_row list \<Rightarrow> agent
     \<Rightarrow> agent \<times> action list" where
  "fail_event cfg e n err msg rest a =
     (goto (if sb_max_retries cfg < int (n + 1) then Bury e (n + 1) msg rest else Retry e (n + 1) msg rest) a,
      [OnError err (Some (ev_id e))])"

text \<open>
  A rejection whose message cannot be read or bound (\<open>null\<close>, \<open>undefined\<close>, a message that is no
  string): evaluating or binding \<open>err.message\<close> throws inside the \<open>catch\<close> of \<open>processEvent\<close>, or of
  \<open>drainReplays\<close>, after \<open>onError\<close> was called; the new error ends the tick in its own \<open>catch\<close>.
\<close>

definition fail_escapes :: "sub_config \<Rightarrow> int \<Rightarrow> agent \<Rightarrow> agent \<times> action list" where
  "fail_escapes cfg i a =
     (let x = tick_catch cfg (PlainError ''TypeError'') a in (fst x, OnError None (Some i) # snd x))"

definition next_replay :: "bus \<Rightarrow> string \<Rightarrow> dead_letter_row option" where
  "next_replay b cid = find (\<lambda>d. dl_cursor d = cid \<and> dl_replay_requested_at d \<noteq> None) (dead_letters b)"

definition replay_failed :: "int \<Rightarrow> string option \<Rightarrow> bus \<Rightarrow> bus" where
  "replay_failed i msg b = b\<lparr>dead_letters := map (\<lambda>d. if dl_id d = i
     then d\<lparr>dl_replay_requested_at := None, dl_attempts := dl_attempts d + 1, dl_last_error := msg\<rparr> else d) (dead_letters b)\<rparr>"

definition remove_dead_letter :: "int \<Rightarrow> bus \<Rightarrow> bus" where
  "remove_dead_letter i b = b\<lparr>dead_letters := filter (\<lambda>d. dl_id d \<noteq> i) (dead_letters b)\<rparr>"

text \<open>Pairs an agent with an unchanged database.\<close>

definition keeping :: "bus \<Rightarrow> agent \<times> action list \<Rightarrow> (agent \<times> bus) \<times> action list" where
  "keeping b x = ((fst x, b), snd x)"

definition ends_drain :: "agent \<Rightarrow> agent" where
  "ends_drain a = (if ag_stopping a then end_tick a else goto Poll a)"

text \<open>The context added to WB-003 once the cursor has moved.\<close>

definition reanchored :: "js_error \<Rightarrow> int \<Rightarrow> js_error" where
  "reanchored e pos = (case e of
      WB c ctx \<Rightarrow> WB c (ctx @ [(''reanchored_to'', jint pos), (''swept_past'',
        JArr [(case js_int (ctx_get e ''cursor_last_event_id'') of Some p \<Rightarrow> jint (p + 1) | None \<Rightarrow> JNum NaN), jint pos])])
    | _ \<Rightarrow> e)"

text \<open>A statement runs, at time \<open>t\<close>. \<open>deleteDeliveryAttempt\<close> and \<open>ack\<close> after a handled event are
  inside the \<open>try\<close>: an \<open>ack\<close> that is refused counts as a failure of the handler.\<close>

definition ack_handled :: "sub_config \<Rightarrow> rat \<Rightarrow> event_row \<Rightarrow> nat \<Rightarrow> event_row list \<Rightarrow> agent \<Rightarrow> bus \<Rightarrow> (agent \<times> bus) \<times> action list" where
  "ack_handled cfg t e n rest a b =
     (case ack b (sb_cursor cfg) (ev_id e) t of
        (Inr _, b1) \<Rightarrow> ((next_event rest a, b1), [])
      | (Inl err, b1) \<Rightarrow> keeping b1 (fail_event cfg e n (Some err) (Some ''Cursor not found or deregistered'') rest a))"

definition run_poll :: "sub_config \<Rightarrow> agent \<Rightarrow> bus \<Rightarrow> agent \<times> action list" where
  "run_poll cfg a b =
     (case poll b (sb_cursor cfg) (Some (sb_batch cfg)) None of
        Inl e \<Rightarrow> tick_catch cfg e a
      | Inr es \<Rightarrow> (next_event es (a\<lparr>ag_unusable := 0, ag_last_unusable := None\<rparr>), []))"

fun db_step :: "sub_config \<Rightarrow> rat \<Rightarrow> pc \<Rightarrow> agent \<Rightarrow> bus \<Rightarrow> ((agent \<times> bus) \<times> action list) option" where
  "db_step cfg t Drain a b = Some (case next_replay b (sb_cursor cfg) of
      Some d \<Rightarrow> ((goto (Replaying d) a, b), [InvokedReplay (dl_id d)])
    | None \<Rightarrow> ((ends_drain a, b), []))"
| "db_step cfg t (ReplayDone i) a b =
     Some ((if ag_stopping a then end_tick a else goto Drain a, remove_dead_letter i b), [])"
| "db_step cfg t (ReplayFailed i msg) a b = Some ((ends_drain a, replay_failed i msg b), [])"
| "db_step cfg t Poll a b = Some (keeping b (run_poll cfg a b))"
| "db_step cfg t (Begin e rest) a b = Some (keeping b (enter_call e (getAttempts b (sb_cursor cfg) (ev_id e)) rest a))"
| "db_step cfg t (Clear e n rest) a b =
     Some ((goto (AckIt e n rest) a, deleteDeliveryAttempt b (sb_cursor cfg) (ev_id e)), [])"
| "db_step cfg t (AckIt e n rest) a b = Some (ack_handled cfg t e n rest a b)"
| "db_step cfg t (Retry e n msg rest) a b =
     Some (case upsertDeliveryAttempt b (sb_cursor cfg) (ev_id e) n msg t of
        (Inr _, b1) \<Rightarrow> ((goto (Backoff e n (sb_backoff cfg ! min (n - 1) (length (sb_backoff cfg) - 1)) rest) a, b1), [])
      | (Inl err, b1) \<Rightarrow> keeping b1 (tick_catch cfg err a))"
| "db_step cfg t (Bury e n msg rest) a b =
     Some (case moveToDeadLetter b (sb_cursor cfg) (sb_sub cfg) e n msg t of
        (Inr _, b1) \<Rightarrow> ((goto (BuryClear e n msg rest) a, b1), [DeadLettered (ev_id e)])
      | (Inl err, b1) \<Rightarrow> keeping b1 (tick_catch cfg err a))"
| "db_step cfg t (BuryClear e n msg rest) a b =
     Some ((goto (BuryAck e n msg rest) a, deleteDeliveryAttempt b (sb_cursor cfg) (ev_id e)), [])"
| "db_step cfg t (BuryAck e n msg rest) a b =
     Some (case ack b (sb_cursor cfg) (ev_id e) t of
        (Inr _, b1) \<Rightarrow> ((next_event rest a, b1), [OnDeadLetter (ev_id e) msg])
      | (Inl err, b1) \<Rightarrow> keeping b1 (tick_catch cfg err a))"
| "db_step cfg t (Reanchor e pos) a b =
     Some (case reanchor_cursor b (sb_cursor cfg) (jint pos) t of
        (Inr _, b1) \<Rightarrow> ((end_tick a, b1), [OnError (Some (reanchored e pos)) None])
      | (Inl err, b1) \<Rightarrow> ((end_tick a, b1), [OnError (Some err) None]))"
| "db_step cfg t p a b = None"

text \<open>The statement fails instead; the database is unchanged.\<close>

fun db_fault :: "sub_config \<Rightarrow> js_error \<Rightarrow> string \<Rightarrow> pc \<Rightarrow> agent \<Rightarrow> (agent \<times> action list) option" where
  "db_fault cfg err msg (Clear e n rest) a = Some (fail_event cfg e n (Some err) (Some msg) rest a)"
| "db_fault cfg err msg (AckIt e n rest) a = Some (fail_event cfg e n (Some err) (Some msg) rest a)"
| "db_fault cfg err msg (ReplayDone i) a = Some (goto (ReplayFailed i (Some msg)) a, [OnError (Some err) None])"
| "db_fault cfg err msg (Reanchor e pos) a = Some (end_tick a, [OnError (Some err) None])"
| "db_fault cfg err msg Idle a = None"
| "db_fault cfg err msg Stopped a = None"
| "db_fault cfg err msg (Call e n rest) a = None"
| "db_fault cfg err msg (Replaying d) a = None"
| "db_fault cfg err msg (Backoff e n ms rest) a = None"
| "db_fault cfg err msg p a = Some (tick_catch cfg err a)"

text \<open>\<open>stop()\<close>: a sleeping retry is dead-lettered, an idle loop ends at once.\<close>

definition stop_call :: "agent \<Rightarrow> agent" where
  "stop_call a = (let a1 = a\<lparr>ag_stopping := True\<rparr> in
     (case ag_pc a of
        Idle \<Rightarrow> goto Stopped a1
      | Backoff e n ms rest \<Rightarrow> goto (Bury e n (Some ''shutdown during backoff'') rest) a1
      | _ \<Rightarrow> a1))"

definition sub_step :: "sub_config \<Rightarrow> input \<Rightarrow> agent \<times> bus \<Rightarrow> ((agent \<times> bus) \<times> action list) option" where
  "sub_step cfg i s = (let (a, b) = s in
     (case i of
        Timer \<Rightarrow> if ag_pc a = Idle \<and> \<not> ag_stopping a then Some ((goto Drain a, b), []) else None
      | Run t \<Rightarrow> db_step cfg t (ag_pc a) a b
      | Fault err msg \<Rightarrow> map_option (keeping b) (db_fault cfg err msg (ag_pc a) a)
      | Resolve \<Rightarrow> (case ag_pc a of
            Call e n rest \<Rightarrow> Some ((goto (Clear e n rest) a, b), [Handled (ev_id e)])
          | Replaying d \<Rightarrow> Some ((goto (ReplayDone (dl_id d)) a, b), [])
          | _ \<Rightarrow> None)
      | Reject msg \<Rightarrow> (case ag_pc a of
            Call e n rest \<Rightarrow> Some (keeping b (fail_event cfg e n None msg rest a))
          | Replaying d \<Rightarrow> Some ((goto (ReplayFailed (dl_id d) msg) a, b), [OnError None (Some (dl_event d))])
          | _ \<Rightarrow> None)
      | RejectBad \<Rightarrow> (case ag_pc a of
            Call e n rest \<Rightarrow> Some (keeping b (fail_escapes cfg (ev_id e) a))
          | Replaying d \<Rightarrow> Some (keeping b (fail_escapes cfg (dl_event d) a))
          | _ \<Rightarrow> None)
      | Slept \<Rightarrow> (case ag_pc a of
            Backoff e n ms rest \<Rightarrow> Some (keeping b (enter_call e n rest a))
          | _ \<Rightarrow> None)
      | StopCall \<Rightarrow> if ag_stopping a then None else Some ((stop_call a, b), [])))"

text \<open>A run of the loop on its own: the inputs it is given, and the actions it takes.\<close>

fun sub_run :: "sub_config \<Rightarrow> input list \<Rightarrow> agent \<times> bus \<Rightarrow> ((agent \<times> bus) \<times> action list) option" where
  "sub_run cfg [] s = Some (s, [])"
| "sub_run cfg (i # is) s =
     (case sub_step cfg i s of
        None \<Rightarrow> None
      | Some (s1, as) \<Rightarrow> (case sub_run cfg is s1 of None \<Rightarrow> None | Some (s2, as2) \<Rightarrow> Some (s2, as @ as2)))"

record health =
  he_unusable :: bool
  he_consecutive :: nat
  he_last :: "js_error option"

definition getHealth :: "agent \<Rightarrow> health" where
  "getHealth a = \<lparr>he_unusable = 0 < ag_unusable a, he_consecutive = ag_unusable a, he_last = ag_last_unusable a\<rparr>"

section \<open>What the statements touch\<close>

lemma with_attempt_sel [simp]:
  "da_cursor (with_attempt cid i n t m a) = da_cursor a" "da_event (with_attempt cid i n t m a) = da_event a"
  "da_attempts (with_attempt cid i n t m a) = (if attempt_of cid i a then n else da_attempts a)"
  by (simp_all add: with_attempt_def)

lemma attempt_of_with [simp]: "attempt_of cid j (with_attempt cid' i n t m a) = attempt_of cid j a"
  by (simp add: attempt_of_def)

lemma ledger_frame [simp]:
  "events (deleteDeliveryAttempt b cid i) = events b" "cursors (deleteDeliveryAttempt b cid i) = cursors b"
  "subscriptions (deleteDeliveryAttempt b cid i) = subscriptions b"
  "dead_letters (deleteDeliveryAttempt b cid i) = dead_letters b"
  "dead_letters_seq (deleteDeliveryAttempt b cid i) = dead_letters_seq b"
  "events_archive (deleteDeliveryAttempt b cid i) = events_archive b"
  "events_seq (deleteDeliveryAttempt b cid i) = events_seq b"
  "events (snd (upsertDeliveryAttempt b cid i n msg t)) = events b"
  "cursors (snd (upsertDeliveryAttempt b cid i n msg t)) = cursors b"
  "subscriptions (snd (upsertDeliveryAttempt b cid i n msg t)) = subscriptions b"
  "dead_letters (snd (upsertDeliveryAttempt b cid i n msg t)) = dead_letters b"
  "dead_letters_seq (snd (upsertDeliveryAttempt b cid i n msg t)) = dead_letters_seq b"
  "events_archive (snd (upsertDeliveryAttempt b cid i n msg t)) = events_archive b"
  "events_seq (snd (upsertDeliveryAttempt b cid i n msg t)) = events_seq b"
  by (simp_all add: deleteDeliveryAttempt_def upsertDeliveryAttempt_def)

lemma dlq_frame [simp]:
  "events (snd (moveToDeadLetter b cid sid e n msg t)) = events b"
  "cursors (snd (moveToDeadLetter b cid sid e n msg t)) = cursors b"
  "subscriptions (snd (moveToDeadLetter b cid sid e n msg t)) = subscriptions b"
  "delivery_attempts (snd (moveToDeadLetter b cid sid e n msg t)) = delivery_attempts b"
  "events_archive (snd (moveToDeadLetter b cid sid e n msg t)) = events_archive b"
  "events_seq (snd (moveToDeadLetter b cid sid e n msg t)) = events_seq b"
  "events (remove_dead_letter i b) = events b" "cursors (remove_dead_letter i b) = cursors b"
  "subscriptions (remove_dead_letter i b) = subscriptions b"
  "events_archive (remove_dead_letter i b) = events_archive b" "events_seq (remove_dead_letter i b) = events_seq b"
  "events (replay_failed i msg b) = events b" "cursors (replay_failed i msg b) = cursors b"
  "subscriptions (replay_failed i msg b) = subscriptions b"
  "events_archive (replay_failed i msg b) = events_archive b" "events_seq (replay_failed i msg b) = events_seq b"
  by (simp_all add: moveToDeadLetter_def remove_dead_letter_def replay_failed_def)

lemma cursor_frame [simp]:
  "cursor_position (deleteDeliveryAttempt b cid i) c = cursor_position b c"
  "cursor_position (snd (upsertDeliveryAttempt b cid i n msg t)) c = cursor_position b c"
  "cursor_position (snd (moveToDeadLetter b cid sid e n msg t)) c = cursor_position b c"
  "cursor_position (remove_dead_letter j b) c = cursor_position b c"
  "cursor_position (replay_failed j msg b) c = cursor_position b c"
  "cursor_filter (deleteDeliveryAttempt b cid i) c = cursor_filter b c"
  "cursor_filter (snd (upsertDeliveryAttempt b cid i n msg t)) c = cursor_filter b c"
  "cursor_filter (snd (moveToDeadLetter b cid sid e n msg t)) c = cursor_filter b c"
  "cursor_filter (remove_dead_letter j b) c = cursor_filter b c"
  "cursor_filter (replay_failed j msg b) c = cursor_filter b c"
  by (rule cursor_position_cong cursor_filter_cong; simp)+

lemma deleteDeliveryAttempt_wf [wf_intros]: "bus_wf b \<Longrightarrow> bus_wf (deleteDeliveryAttempt b cid i)"
  by (simp add: wf_defs deleteDeliveryAttempt_def distinct_map_filter)

lemma upsertDeliveryAttempt_wf [wf_intros]:
  assumes "bus_wf b" and "0 < n"
  shows "bus_wf (snd (upsertDeliveryAttempt b cid i n msg t))"
proof -
  let ?b = "snd (upsertDeliveryAttempt b cid i n msg t)"
  let ?key = "\<lambda>a. (da_cursor a, da_event a)"
  have a: "attempts_wf b" using assms(1) by (rule bus_wfD)
  have "attempts_wf ?b"
  proof (cases "cid \<in> cu_id ` set (cursors b)")
    case False
    with a show ?thesis by (simp add: upsertDeliveryAttempt_def)
  next
    case cid: True
    show ?thesis
    proof (cases "\<exists>a\<in>set (delivery_attempts b). attempt_of cid i a")
      case True
      let ?f = "with_attempt cid i n t msg"
      have "map ?key (map ?f (delivery_attempts b)) = map ?key (delivery_attempts b)" by simp
      then have "distinct (map ?key (map ?f (delivery_attempts b)))" using a by (simp only: attempts_wf_def)
      moreover have "\<forall>x\<in>set (map ?f (delivery_attempts b)). 0 < da_attempts x \<and> da_cursor x \<in> cu_id ` set (cursors b)"
        using a assms(2) by (auto simp: attempts_wf_def)
      moreover have "delivery_attempts ?b = map ?f (delivery_attempts b)" using True cid by (simp add: upsertDeliveryAttempt_def)
      ultimately show ?thesis unfolding attempts_wf_def ledger_frame by presburger
    next
      case False
      then have "(cid, i) \<notin> ?key ` set (delivery_attempts b)" by (auto simp: attempt_of_def)
      with False cid a assms(2) show ?thesis by (auto simp: attempts_wf_def upsertDeliveryAttempt_def)
    qed
  qed
  moreover have "events_wf ?b" "subs_wf ?b" "cursors_wf ?b" "dlq_wf ?b"
    using bus_wfD [OF assms(1)] by (simp_all add: wf_defs)
  ultimately show ?thesis by (intro bus_wfI)
qed

lemma moveToDeadLetter_wf [wf_intros]:
  assumes "bus_wf b"
  shows "bus_wf (snd (moveToDeadLetter b cid sid e n msg t))"
proof -
  let ?b = "snd (moveToDeadLetter b cid sid e n msg t)"
  have d: "dlq_wf b" using assms by (rule bus_wfD)
  have "dlq_wf ?b"
  proof (cases "cid \<notin> cu_id ` set (cursors b) \<or> sid \<notin> su_id ` set (subscriptions b)")
    case True
    with d show ?thesis by (simp add: moveToDeadLetter_def)
  next
    case False
    let ?i = "dead_letters_seq b + 1"
    have "dl_id (dead_letter_for cid sid e n msg t ?i) = ?i" "dl_cursor (dead_letter_for cid sid e n msg t ?i) = cid"
      "dl_sub (dead_letter_for cid sid e n msg t ?i) = sid" by (simp_all add: dead_letter_for_def)
    with d False show ?thesis
      by (auto simp: dlq_wf_def moveToDeadLetter_def sorted_wrt_append less_imp_le)
  qed
  moreover have "events_wf ?b" "subs_wf ?b" "cursors_wf ?b" "attempts_wf ?b"
    using bus_wfD [OF assms] by (simp_all add: wf_defs)
  ultimately show ?thesis by (intro bus_wfI)
qed

lemma remove_dead_letter_wf [wf_intros]: "bus_wf b \<Longrightarrow> bus_wf (remove_dead_letter i b)"
  by (simp add: wf_defs remove_dead_letter_def map_filter_strict)

lemma replay_failed_wf [wf_intros]: "bus_wf b \<Longrightarrow> bus_wf (replay_failed i msg b)"
proof -
  define f where "f d = (if dl_id d = i then d\<lparr>dl_replay_requested_at := None,
    dl_attempts := dl_attempts d + 1, dl_last_error := msg\<rparr> else d)" for d :: dead_letter_row
  have [simp]: "dl_id (f d) = dl_id d" "dl_cursor (f d) = dl_cursor d" "dl_sub (f d) = dl_sub d" for d
    by (simp_all add: f_def)
  have r: "replay_failed i msg b = b\<lparr>dead_letters := map f (dead_letters b)\<rparr>"
    by (simp add: replay_failed_def f_def [abs_def])
  assume "bus_wf b"
  then show ?thesis unfolding r by (simp add: wf_defs comp_def)
qed

section \<open>The retry ledger\<close>

locale retry_ledger =
  fixes inv :: "'s \<Rightarrow> bool"
    and count :: "'s \<Rightarrow> 'k \<Rightarrow> nat"
    and put :: "'s \<Rightarrow> 'k \<Rightarrow> nat \<Rightarrow> 's"
    and clear :: "'s \<Rightarrow> 'k \<Rightarrow> 's"
  assumes put_inv: "inv s \<Longrightarrow> 0 < n \<Longrightarrow> inv (put s k n)"
    and clear_inv: "inv s \<Longrightarrow> inv (clear s k)"
    and count_put: "inv s \<Longrightarrow> count (put s k n) j = (if j = k then n else count s j)"
    and count_clear: "inv s \<Longrightarrow> count (clear s k) j = (if j = k then 0 else count s j)"
begin

text \<open>A failure counted on top of what is stored.\<close>

definition fail :: "'k \<Rightarrow> 's \<Rightarrow> 's" where
  "fail k s = put s k (count s k + 1)"

lemma fails:
  assumes "inv s"
  shows "inv ((fail k ^^ n) s) \<and> count ((fail k ^^ n) s) j = (if j = k then count s k + n else count s j)"
  using assms by (induction n) (auto simp: fail_def put_inv count_put)

lemma fails_clear: "inv s \<Longrightarrow> count (clear ((fail k ^^ n) s) k) j = (if j = k then 0 else count s j)"
  using fails [where s = s and k = k and n = n] by (auto simp: count_clear)

end

lemma find_map_same: "(\<And>x. P (f x) = P x) \<Longrightarrow> find P (map f xs) = map_option f (find P xs)"
  by (induction xs) auto

lemma attempt_of_distinct: "attempt_of cid j a \<Longrightarrow> attempt_of cid i a \<Longrightarrow> j = i"
  by (simp add: attempt_of_def)

lemma getAttempts_put:
  assumes "cid \<in> cu_id ` set (cursors b)"
  shows "getAttempts (snd (upsertDeliveryAttempt b cid i n msg t)) cid j = (if j = i then n else getAttempts b cid j)"
proof (cases "\<exists>a\<in>set (delivery_attempts b). attempt_of cid i a")
  case True
  let ?f = "with_attempt cid i n t msg"
  have f: "attempt_of cid j (?f a) = attempt_of cid j a" for a by simp
  have u: "delivery_attempts (snd (upsertDeliveryAttempt b cid i n msg t)) = map ?f (delivery_attempts b)"
    using assms True by (simp add: upsertDeliveryAttempt_def)
  show ?thesis
  proof (cases "find (attempt_of cid j) (delivery_attempts b)")
    case None
    with True have "j \<noteq> i" by (auto simp: find_None_iff)
    with None show ?thesis by (simp add: getAttempts_def u find_map_same [of "attempt_of cid j" ?f, OF f])
  next
    case (Some a)
    then have "attempt_of cid j a" using find_Some_conv by fastforce
    then show ?thesis using Some attempt_of_distinct [of cid j a i]
      by (auto simp: getAttempts_def u find_map_same [of "attempt_of cid j" ?f, OF f])
  qed
next
  case False
  then have none: "find (attempt_of cid i) (delivery_attempts b) = None" by (simp add: find_None_iff)
  let ?r = "\<lparr>da_cursor = cid, da_event = i, da_attempts = n, da_last_attempt_at = t, da_last_error = msg\<rparr>"
  have u: "delivery_attempts (snd (upsertDeliveryAttempt b cid i n msg t)) = delivery_attempts b @ [?r]"
    using assms False by (simp add: upsertDeliveryAttempt_def)
  have app: "find P (xs @ [y]) = (case find P xs of Some x \<Rightarrow> Some x | None \<Rightarrow> if P y then Some y else None)"
    for P and xs :: "attempt_row list" and y by (induction xs) auto
  have "attempt_of cid j ?r \<longleftrightarrow> j = i" by (auto simp: attempt_of_def)
  then show ?thesis using none by (auto simp: getAttempts_def u app split: option.splits)
qed

lemma getAttempts_delete:
  "getAttempts (deleteDeliveryAttempt b cid i) cid j = (if j = i then 0 else getAttempts b cid j)"
proof -
  have "find (attempt_of cid j) (filter (\<lambda>a. \<not> attempt_of cid i a) xs) = (if j = i then None else find (attempt_of cid j) xs)" for xs
    by (induction xs) (auto dest: attempt_of_distinct)
  then show ?thesis by (simp add: getAttempts_def deleteDeliveryAttempt_def)
qed

lemma getAttempts_cong: "delivery_attempts b' = delivery_attempts b \<Longrightarrow> getAttempts b' cid i = getAttempts b cid i"
  by (simp add: getAttempts_def)

interpretation attempts: retry_ledger
  "\<lambda>b. bus_wf b \<and> cid \<in> cu_id ` set (cursors b)"
  "\<lambda>b i. getAttempts b cid i"
  "\<lambda>b i n. snd (upsertDeliveryAttempt b cid i n msg t)"
  "\<lambda>b i. deleteDeliveryAttempt b cid i" for cid msg t
proof (unfold_locales, goal_cases)
  case (1 s n k)
  then show ?case using upsertDeliveryAttempt_wf by simp
next
  case (2 s k)
  then show ?case using deleteDeliveryAttempt_wf by simp
next
  case (3 s k n j)
  then show ?case by (simp add: getAttempts_put)
next
  case (4 s k j)
  then show ?case by (simp add: getAttempts_delete)
qed

text \<open>One more failure of an event on record.\<close>

definition count_failure :: "string \<Rightarrow> string option \<Rightarrow> rat \<Rightarrow> int \<Rightarrow> bus \<Rightarrow> bus" where
  "count_failure cid msg t i b = snd (upsertDeliveryAttempt b cid i (getAttempts b cid i + 1) msg t)"

lemma count_failure_frame [simp]:
  "events (count_failure cid msg t i b) = events b" "cursors (count_failure cid msg t i b) = cursors b"
  "subscriptions (count_failure cid msg t i b) = subscriptions b"
  "dead_letters (count_failure cid msg t i b) = dead_letters b"
  "dead_letters_seq (count_failure cid msg t i b) = dead_letters_seq b"
  "cursor_position (count_failure cid msg t i b) c = cursor_position b c"
  by (simp_all add: count_failure_def)

lemma count_failures_frame [simp]:
  "events ((count_failure cid msg t i ^^ n) b) = events b" "cursors ((count_failure cid msg t i ^^ n) b) = cursors b"
  "subscriptions ((count_failure cid msg t i ^^ n) b) = subscriptions b"
  "dead_letters ((count_failure cid msg t i ^^ n) b) = dead_letters b"
  "dead_letters_seq ((count_failure cid msg t i ^^ n) b) = dead_letters_seq b"
  "cursor_position ((count_failure cid msg t i ^^ n) b) c = cursor_position b c"
  by (induction n) simp_all

lemma count_failures:
  assumes "bus_wf b" and "cid \<in> cu_id ` set (cursors b)"
  shows "bus_wf ((count_failure cid msg t i ^^ n) b)"
    and "getAttempts ((count_failure cid msg t i ^^ n) b) cid j = (if j = i then getAttempts b cid i + n else getAttempts b cid j)"
    and "getAttempts (deleteDeliveryAttempt ((count_failure cid msg t i ^^ n) b) cid i) cid j = (if j = i then 0 else getAttempts b cid j)"
proof -
  have inv: "bus_wf b \<and> cid \<in> cu_id ` set (cursors b)" using assms by simp
  have eq: "attempts.fail cid msg t i = count_failure cid msg t i"
    unfolding attempts.fail_def count_failure_def by (rule ext) simp
  show "bus_wf ((count_failure cid msg t i ^^ n) b)"
    "getAttempts ((count_failure cid msg t i ^^ n) b) cid j = (if j = i then getAttempts b cid i + n else getAttempts b cid j)"
    using attempts.fails [OF inv, where msg = msg and t = t and k = i and n = n and j = j] unfolding eq by blast+
  show "getAttempts (deleteDeliveryAttempt ((count_failure cid msg t i ^^ n) b) cid i) cid j = (if j = i then 0 else getAttempts b cid j)"
    using attempts.fails_clear [OF inv, where msg = msg and t = t and k = i and n = n and j = j] unfolding eq .
qed

lemma upsert_count_failure:
  "cid \<in> cu_id ` set (cursors b) \<Longrightarrow> getAttempts b cid i = n \<Longrightarrow>
   upsertDeliveryAttempt b cid i (Suc n) msg t = (Inr (), count_failure cid msg t i b)"
  by (simp add: count_failure_def upsertDeliveryAttempt_def)

section \<open>Runs\<close>

lemma agent_sel [simp]:
  "ag_pc (goto p a) = p" "ag_stopping (goto p a) = ag_stopping a" "goto q (goto p a) = goto q a"
  "end_tick (goto p a) = end_tick a" "next_event rest (goto p a) = next_event rest a"
  "ag_stopping (end_tick a) = ag_stopping a" "enter_call e n rest (goto p a) = enter_call e n rest a"
  by (simp_all add: goto_def end_tick_def next_event_def enter_call_def split: list.split)

lemma fail_escapes_eq [simp]:
  "fail_escapes cfg i a = (end_tick a, [OnError None (Some i), OnError (Some (PlainError ''TypeError'')) None])"
  by (simp add: fail_escapes_def tick_catch_def isConnectionFatal_def is_wb_def)

lemma sub_run_append:
  "sub_run cfg (xs @ ys) s = (case sub_run cfg xs s of None \<Rightarrow> None
     | Some (s1, as) \<Rightarrow> (case sub_run cfg ys s1 of None \<Rightarrow> None | Some (s2, bs) \<Rightarrow> Some (s2, as @ bs)))"
  by (induction xs arbitrary: s) (auto split: option.split)

definition serve :: "string \<Rightarrow> rat \<Rightarrow> bus \<Rightarrow> event_row \<Rightarrow> bus" where
  "serve cid t b e = update_cursor_position cid (ev_id e) t (deleteDeliveryAttempt b cid (ev_id e))"

lemma serve_frame [simp]:
  "events (serve cid t b e) = events b" "dead_letters (serve cid t b e) = dead_letters b"
  "cursor_filter (serve cid t b e) cid' = cursor_filter b cid'"
  by (simp_all add: serve_def)

lemma serve_position: "cursor_position b cid \<noteq> None \<Longrightarrow> cursor_position (serve cid t b e) cid = Some (ev_id e)"
  unfolding serve_def by (rule cursor_position_update_same) simp

lemma serve_wf [wf_intros]: "bus_wf b \<Longrightarrow> bus_wf (serve cid t b e)"
  unfolding serve_def by (intro update_cursor_position_wf deleteDeliveryAttempt_wf)

text \<open>The handler succeeds on one event, and on a batch.\<close>

definition healthy :: "rat \<Rightarrow> input list" where
  "healthy t = [Run t, Resolve, Run t, Run t]"

definition handled :: "event_row list \<Rightarrow> action list" where
  "handled es = concat (map (\<lambda>e. [Invoked (ev_id e), Handled (ev_id e)]) es)"

lemma healthy_event:
  assumes "ag_pc a = Begin e rest" and "\<not> ag_stopping a" and "cursor_position b (sb_cursor cfg) \<noteq> None"
  shows "sub_run cfg (healthy t) (a, b) =
    Some ((next_event rest a, serve (sb_cursor cfg) t b e), [Invoked (ev_id e), Handled (ev_id e)])"
proof -
  let ?b1 = "deleteDeliveryAttempt b (sb_cursor cfg) (ev_id e)"
  have "cursor_position ?b1 (sb_cursor cfg) \<noteq> None" using assms(3) by simp
  from ack_active [OF this] have k: "ack ?b1 (sb_cursor cfg) (ev_id e) t =
      (Inr (sb_cursor cfg, ev_id e), serve (sb_cursor cfg) t b e)" by (simp add: serve_def)
  show ?thesis
    using assms(1,2) k by (simp add: healthy_def sub_step_def keeping_def enter_call_def ack_handled_def)
qed

lemma healthy_batch:
  assumes "\<not> ag_stopping a" and "cursor_position b (sb_cursor cfg) \<noteq> None"
  shows "sub_run cfg (concat (replicate (length es) (healthy t))) (next_event es a, b) =
    Some ((end_tick a, foldl (serve (sb_cursor cfg) t) b es), handled es)"
  using assms
proof (induction es arbitrary: a b)
  case Nil
  then show ?case by (simp add: next_event_def handled_def)
next
  case (Cons e es)
  have pc: "next_event (e # es) a = goto (Begin e es) a" using Cons.prems(1) by (simp add: next_event_def)
  have p: "cursor_position (serve (sb_cursor cfg) t b e) (sb_cursor cfg) \<noteq> None"
    using serve_position [OF Cons.prems(2)] by simp
  have "sub_run cfg (healthy t) (goto (Begin e es) a, b) =
      Some ((next_event es (goto (Begin e es) a), serve (sb_cursor cfg) t b e), [Invoked (ev_id e), Handled (ev_id e)])"
    by (rule healthy_event) (use Cons.prems in simp_all)
  then show ?case
    using Cons.IH [OF Cons.prems(1) p] by (simp add: pc sub_run_append handled_def)
qed

lemma served_batch:
  assumes "bus_wf b" and "cursor_position b cid = Some p" and "cursor_filter b cid = Some f"
  shows "bus_wf (foldl (serve cid t) b es) \<and> events (foldl (serve cid t) b es) = events b \<and>
    dead_letters (foldl (serve cid t) b es) = dead_letters b \<and>
    cursor_position (foldl (serve cid t) b es) cid = Some (last (p # map ev_id es)) \<and>
    cursor_filter (foldl (serve cid t) b es) cid = Some f"
  using assms
proof (induction es arbitrary: b p)
  case Nil
  then show ?case by simp
next
  case (Cons e es)
  have "cursor_position (serve cid t b e) cid = Some (ev_id e)" using serve_position Cons.prems(2) by simp
  from Cons.IH [OF serve_wf [OF Cons.prems(1)] this] Cons.prems(3) show ?case by simp
qed

text \<open>A whole tick.\<close>

definition tick_inputs :: "rat \<Rightarrow> nat \<Rightarrow> input list" where
  "tick_inputs t n = [Timer, Run t, Run t] @ concat (replicate n (healthy t))"

lemma healthy_tick:
  assumes "ag_pc a = Idle" and "\<not> ag_stopping a" and "next_replay b (sb_cursor cfg) = None"
    and "poll b (sb_cursor cfg) (Some (sb_batch cfg)) None = Inr es" and "cursor_position b (sb_cursor cfg) \<noteq> None"
  shows "\<exists>a'. sub_run cfg (tick_inputs t (length es)) (a, b) =
      Some ((a', foldl (serve (sb_cursor cfg) t) b es), handled es) \<and> ag_pc a' = Idle \<and> \<not> ag_stopping a'"
proof -
  let ?a = "(goto Poll a)\<lparr>ag_unusable := 0, ag_last_unusable := None\<rparr>"
  have st: "\<not> ag_stopping ?a" using assms(2) by simp
  have "sub_run cfg [Timer, Run t, Run t] (a, b) = Some ((next_event es ?a, b), [])"
    using assms(1-4) by (simp add: sub_step_def ends_drain_def keeping_def run_poll_def)
  then have "sub_run cfg (tick_inputs t (length es)) (a, b) =
      Some ((end_tick ?a, foldl (serve (sb_cursor cfg) t) b es), handled es)"
    unfolding tick_inputs_def sub_run_append using healthy_batch [OF st assms(5), where t = t and es = es] by simp
  then show ?thesis using st by (intro exI [of _ "end_tick ?a"]) (simp add: end_tick_def)
qed

text \<open>A handler that keeps failing: the failures with their messages and the times at which they are recorded.\<close>

definition count_all :: "string \<Rightarrow> int \<Rightarrow> (string option \<times> rat) list \<Rightarrow> bus \<Rightarrow> bus" where
  "count_all cid i fs b = foldl (\<lambda>b (m, t). count_failure cid m t i b) b fs"

lemma count_all_frame [simp]:
  "events (count_all cid i fs b) = events b" "cursors (count_all cid i fs b) = cursors b"
  "subscriptions (count_all cid i fs b) = subscriptions b" "dead_letters (count_all cid i fs b) = dead_letters b"
  "dead_letters_seq (count_all cid i fs b) = dead_letters_seq b" "cursor_position (count_all cid i fs b) c = cursor_position b c"
  unfolding count_all_def by (induction fs arbitrary: b) (auto split: prod.split)

definition failures :: "(string option \<times> rat) list \<Rightarrow> input list" where
  "failures fs = concat (map (\<lambda>(m, t). [Reject m, Run t, Slept]) fs)"

lemma failing_attempts:
  assumes "bus_wf b" and "sb_cursor cfg \<in> cu_id ` set (cursors b)" and "\<not> ag_stopping a"
    and "int (n + length fs) \<le> sb_max_retries cfg" and "getAttempts b (sb_cursor cfg) (ev_id e) = n"
    and "ag_pc a = Call e n rest"
  shows "bus_wf (count_all (sb_cursor cfg) (ev_id e) fs b) \<and> (\<exists>a'. sub_run cfg (failures fs) (a, b) =
      Some ((a', count_all (sb_cursor cfg) (ev_id e) fs b),
        concat (replicate (length fs) [OnError None (Some (ev_id e)), Invoked (ev_id e)])) \<and>
      ag_pc a' = Call e (n + length fs) rest \<and> \<not> ag_stopping a')"
  using assms
proof (induction fs arbitrary: a b n)
  case Nil
  then show ?case by (simp add: count_all_def failures_def)
next
  case (Cons f fs)
  obtain msg t where f: "f = (msg, t)" by (cases f)
  let ?cid = "sb_cursor cfg" and ?i = "ev_id e"
  let ?b1 = "count_failure ?cid msg t ?i b"
  have wf: "bus_wf ?b1" and g: "getAttempts ?b1 ?cid ?i = n + 1"
    using count_failures(1,2) [OF Cons.prems(1,2), where n = 1] Cons.prems(5) by simp_all
  note up = upsert_count_failure [OF Cons.prems(2,5)]
  have one: "sub_run cfg [Reject msg, Run t, Slept] (a, b) =
      Some ((goto (Call e (n + 1) rest) a, ?b1), [OnError None (Some ?i), Invoked ?i])"
    using Cons.prems(3,4,6) up by (simp add: sub_step_def keeping_def fail_event_def enter_call_def)
  have c: "count_all ?cid ?i (f # fs) b = count_all ?cid ?i fs ?b1" by (simp add: count_all_def f)
  have i: "failures (f # fs) = [Reject msg, Run t, Slept] @ failures fs" by (simp add: failures_def f)
  have "bus_wf (count_all ?cid ?i fs ?b1) \<and> (\<exists>a'. sub_run cfg (failures fs) (goto (Call e (n + 1) rest) a, ?b1) =
      Some ((a', count_all ?cid ?i fs ?b1), concat (replicate (length fs) [OnError None (Some ?i), Invoked ?i])) \<and>
      ag_pc a' = Call e (n + 1 + length fs) rest \<and> \<not> ag_stopping a')"
    by (rule Cons.IH) (use wf g Cons.prems in simp_all)
  then show ?case unfolding c i sub_run_append one by (auto simp del: sub_run.simps)
qed

lemma position_cursor: "cursor_position b cid \<noteq> None \<Longrightarrow> cid \<in> cu_id ` set (cursors b)"
  by (cases "find_cursor b cid") (auto simp: cursor_position_def dest!: find_cursor_id)

lemma exhausted_event:
  assumes "cursor_position b (sb_cursor cfg) \<noteq> None" and "sb_sub cfg \<in> su_id ` set (subscriptions b)"
    and "\<not> ag_stopping a" and "sb_max_retries cfg < int (n + 1)" and "ag_pc a = Call e n rest"
  shows "sub_run cfg [Reject msg, Run t, Run t, Run t] (a, b) =
    Some ((next_event rest a, serve (sb_cursor cfg) t (snd (moveToDeadLetter b (sb_cursor cfg) (sb_sub cfg) e (n + 1) msg t)) e),
      [OnError None (Some (ev_id e)), DeadLettered (ev_id e), OnDeadLetter (ev_id e) msg])"
proof -
  let ?cid = "sb_cursor cfg"
  have c: "?cid \<in> cu_id ` set (cursors b)" using assms(1) by (rule position_cursor)
  obtain b1 where m: "moveToDeadLetter b ?cid (sb_sub cfg) e (Suc n) msg t = (Inr (), b1)"
    using c assms(2) by (simp add: moveToDeadLetter_def)
  have "cursor_position b1 ?cid = cursor_position b ?cid"
    using cursor_frame(3) [of b ?cid "sb_sub cfg" e "Suc n" msg t ?cid] unfolding m by simp
  then have "cursor_position (deleteDeliveryAttempt b1 ?cid (ev_id e)) ?cid \<noteq> None" using assms(1) by simp
  from ack_active [OF this] have k: "ack (deleteDeliveryAttempt b1 ?cid (ev_id e)) ?cid (ev_id e) t =
      (Inr (?cid, ev_id e), serve ?cid t b1 e)" by (simp add: serve_def)
  show ?thesis using assms(3-5) m k by (simp add: sub_step_def keeping_def fail_event_def)
qed

definition poison :: "(string option \<times> rat) list \<Rightarrow> string option \<Rightarrow> rat \<Rightarrow> input list" where
  "poison fs msg t = Run t # failures fs @ [Reject msg, Run t, Run t, Run t]"

section \<open>Properties\<close>

text \<open>C33: A handler that keeps throwing on an event, errors whose messages can be read and stored, is called
  exactly \<open>maxRetries\<close> + 1 times; then one dead letter with that count and the last message is stored, the
  retry record is gone, the cursor moves past the event, and the loop goes on with the rest of the batch; no
  other dead letter and no stored event changes. When it throws \<open>null\<close>, \<open>undefined\<close> or a message that cannot
  be bound instead, nothing is counted: the tick ends with a second error and the database is exactly as
  before, so that the next tick starts over with the same event.\<close>

theorem poison_event_dead_lettered:
  assumes "bus_wf b" and "cursor_position b (sb_cursor cfg) \<noteq> None"
    and "sb_sub cfg \<in> su_id ` set (subscriptions b)" and "getAttempts b (sb_cursor cfg) (ev_id e) = 0"
    and "ag_pc a = Begin e rest" and "\<not> ag_stopping a" and "sb_max_retries cfg = int (length fs)"
  shows "\<exists>a' b' acts. sub_run cfg (poison fs msg t) (a, b) = Some ((next_event rest a', b'), acts) \<and>
     \<not> ag_stopping a' \<and> bus_wf b' \<and>
     length (filter (\<lambda>x. x = Invoked (ev_id e)) acts) = length fs + 1 \<and>
     dead_letters b' = dead_letters b @
       [dead_letter_for (sb_cursor cfg) (sb_sub cfg) e (length fs + 1) msg t (dead_letters_seq b + 1)] \<and>
     getAttempts b' (sb_cursor cfg) (ev_id e) = 0 \<and>
     cursor_position b' (sb_cursor cfg) = Some (ev_id e) \<and> events b' = events b \<and>
     sub_run cfg [Run t, RejectBad] (a, b) = Some ((end_tick a, b),
       [Invoked (ev_id e), OnError None (Some (ev_id e)), OnError (Some (PlainError ''TypeError'')) None])"
proof -
  let ?cid = "sb_cursor cfg" and ?i = "ev_id e"
  let ?a = "goto (Call e 0 rest) a"
  let ?b1 = "count_all ?cid ?i fs b"
  let ?b2 = "snd (moveToDeadLetter ?b1 ?cid (sb_sub cfg) e (length fs + 1) msg t)"
  have c: "?cid \<in> cu_id ` set (cursors b)" using assms(2) by (rule position_cursor)
  have first: "sub_run cfg [Run t] (a, b) = Some ((?a, b), [Invoked ?i])"
    using assms(4-6) by (simp add: sub_step_def keeping_def enter_call_def)
  obtain a1 where r: "sub_run cfg (failures fs) (?a, b) =
      Some ((a1, ?b1), concat (replicate (length fs) [OnError None (Some ?i), Invoked ?i]))"
    and a1: "ag_pc a1 = Call e (length fs) rest" "\<not> ag_stopping a1" and wf1: "bus_wf ?b1"
    using failing_attempts [OF assms(1) c, of ?a 0 fs e rest] assms(4,6,7) by auto
  have last: "sub_run cfg [Reject msg, Run t, Run t, Run t] (a1, ?b1) = Some ((next_event rest a1, serve ?cid t ?b2 e),
      [OnError None (Some ?i), DeadLettered ?i, OnDeadLetter ?i msg])"
    using exhausted_event [of ?b1 cfg a1 "length fs" e rest msg t] assms(2,3,7) a1 by simp
  have p: "poison fs msg t = [Run t] @ failures fs @ [Reject msg, Run t, Run t, Run t]"
    by (simp add: poison_def)
  have run: "sub_run cfg (poison fs msg t) (a, b) = Some ((next_event rest a1, serve ?cid t ?b2 e),
      [Invoked ?i] @ concat (replicate (length fs) [OnError None (Some ?i), Invoked ?i]) @
      [OnError None (Some ?i), DeadLettered ?i, OnDeadLetter ?i msg])"
    unfolding p sub_run_append first r last option.case prod.case by simp
  have cnt: "length (filter (\<lambda>x. x = Invoked ?i) (concat (replicate n [OnError None (Some ?i), Invoked ?i]))) = n" for n
    by (induction n) simp_all
  have dl: "dead_letters ?b2 = dead_letters b @
      [dead_letter_for ?cid (sb_sub cfg) e (length fs + 1) msg t (dead_letters_seq b + 1)]"
    using c assms(3) by (simp add: moveToDeadLetter_def)
  have wf: "bus_wf (serve ?cid t ?b2 e)" using wf1 by (intro serve_wf moveToDeadLetter_wf)
  have g: "getAttempts (serve ?cid t ?b2 e) ?cid ?i = 0"
    by (simp add: serve_def getAttempts_cong [of "update_cursor_position _ _ _ _" "deleteDeliveryAttempt _ _ _"] getAttempts_delete)
  have cp: "cursor_position (serve ?cid t ?b2 e) ?cid = Some ?i"
    by (rule serve_position) (use assms(2) in simp)
  have bad: "sub_run cfg [Run t, RejectBad] (a, b) = Some ((end_tick a, b),
       [Invoked ?i, OnError None (Some ?i), OnError (Some (PlainError ''TypeError'')) None])"
    using assms(4-6) by (simp add: sub_step_def keeping_def enter_call_def)
  show ?thesis using run a1(2) wf dl g cp cnt bad by (intro exI conjI) (assumption | simp)+
qed

definition demo_config :: sub_config where
  "demo_config = \<lparr>sb_cursor = ''c'', sb_sub = ''s'', sb_batch = 2, sb_max_retries = 2, sb_backoff = [10, 20]\<rparr>"

lemma poison_event_dead_lettered_witness:
  "\<exists>a' b' acts. sub_run demo_config (poison [(Some ''bang'', 5), (Some ''boom'', 6)] (Some ''boom'') 7)
      (goto (Begin (demo_row 4 ''wicked.a'') []) fresh_agent, demo_bus [4, 5] 3) = Some ((next_event [] a', b'), acts) \<and>
     map dl_attempts (dead_letters b') = [3] \<and> cursor_position b' ''c'' = Some 4"
proof -
  have wf: "bus_wf (demo_bus [4, 5] 3)" by (rule demo_bus_wf) auto
  have s: "sb_sub demo_config \<in> su_id ` set (subscriptions (demo_bus [4, 5] 3))" by code_simp
  have g: "getAttempts (demo_bus [4, 5] 3) (sb_cursor demo_config) (ev_id (demo_row 4 ''wicked.a'')) = 0" by code_simp
  have d: "dead_letters (demo_bus [4, 5] 3) = []" by code_simp
  from poison_event_dead_lettered [OF wf _ s g, where a = "goto (Begin (demo_row 4 ''wicked.a'') []) fresh_agent"
      and rest = "[]" and fs = "[(Some ''bang'', 5), (Some ''boom'', 6)]" and msg = "Some ''boom''" and t = 7] d
  show ?thesis by (auto simp: demo_config_def fresh_agent_def goto_def dead_letter_for_def demo_row_def)
qed

lemma next_replay_cong: "dead_letters b' = dead_letters b \<Longrightarrow> next_replay b' cid = next_replay b cid"
  by (simp add: next_replay_def)

lemma min_event_id_cong: "events b' = events b \<Longrightarrow> min_event_id b' = min_event_id b"
  by (simp add: min_event_id_def)

lemma handled_append: "handled (xs @ ys) = handled xs @ handled ys"
  by (simp add: handled_def)

lemma tick_inputs_timers: "length (filter (\<lambda>i. i = Timer) (tick_inputs t n)) = 1"
proof -
  have "filter (\<lambda>i. i = Timer) (concat (replicate n (healthy t))) = []"
    by (induction n) (simp_all add: healthy_def)
  then show ?thesis by (simp add: tick_inputs_def)
qed

lemma tick_inputs_set: "set (tick_inputs t n) \<subseteq> {Timer, Run t, Resolve}"
  by (auto simp: tick_inputs_def healthy_def)

lemma one_tick:
  assumes "bus_wf b" and "cursor_position b (sb_cursor cfg) = Some p" and "cursor_filter b (sb_cursor cfg) = Some f"
    and "next_replay b (sb_cursor cfg) = None" and "\<forall>m. min_event_id b = Some m \<longrightarrow> m \<le> p + 1"
    and "ag_pc a = Idle" and "\<not> ag_stopping a" and "pending b f p \<noteq> []"
  shows "\<exists>a' b' es q. sub_run cfg (tick_inputs t (length es)) (a, b) = Some ((a', b'), handled es) \<and>
    ag_pc a' = Idle \<and> \<not> ag_stopping a' \<and> bus_wf b' \<and> events b' = events b \<and> dead_letters b' = dead_letters b \<and>
    cursor_position b' (sb_cursor cfg) = Some q \<and> cursor_filter b' (sb_cursor cfg) = Some f \<and> p < q \<and>
    pending b f p = es @ pending b f q \<and> es \<noteq> []"
proof -
  let ?cid = "sb_cursor cfg" and ?n = "effective_batch (Some (sb_batch cfg))"
  let ?es = "sql_limit ?n (pending b f p)"
  have inv: "(\<lambda>(b, f, n). events_wf b \<and> n \<noteq> (0::int)) (b, f, ?n)" using bus_wfD(1) [OF assms(1)] by simp
  have split: "pending b f p = ?es @ pending b f (ev_id (last ?es))"
    using polled.batch_split [OF inv] assms(8) by simp
  have ne: "?es \<noteq> []" using polled.fetch_progress [OF inv] assms(8) by simp
  then have "last ?es \<in> set (pending b f p)" by (subst split) simp
  then have gt: "p < ev_id (last ?es)" by (simp add: set_pending)
  have poll: "poll b ?cid (Some (sb_batch cfg)) None = Inr ?es"
    using assms(5) unfolding poll_eq [OF assms(1-3)] by (force split: option.split)
  from healthy_tick [OF assms(6,7,4) poll, of t] assms(2) obtain a' where
    "sub_run cfg (tick_inputs t (length ?es)) (a, b) = Some ((a', foldl (serve ?cid t) b ?es), handled ?es)"
    "ag_pc a' = Idle" "\<not> ag_stopping a'" by auto
  moreover have "last (p # map ev_id ?es) = ev_id (last ?es)" using ne by (simp add: last_map)
  ultimately show ?thesis
    using served_batch [OF assms(1-3), of t ?es] split ne gt
    by (intro exI [of _ a'] exI [of _ "foldl (serve ?cid t) b ?es"] exI [of _ ?es] exI [of _ "ev_id (last ?es)"]) simp
qed

text \<open>C26: When the handler succeeds, the loop terminates with everything delivered: from a fresh or idle
  subscriber whose cursor is inside the retained window there is a schedule of at most as many polls as
  there are pending events on which every stored event above the cursor that matches the filter reaches
  the handler exactly once, in id order, and nothing is left to poll.\<close>

theorem healthy_ticks_deliver_everything:
  assumes "bus_wf b" and "cursor_position b (sb_cursor cfg) = Some p" and "cursor_filter b (sb_cursor cfg) = Some f"
    and "next_replay b (sb_cursor cfg) = None" and "\<forall>m. min_event_id b = Some m \<longrightarrow> m \<le> p + 1"
    and "ag_pc a = Idle" and "\<not> ag_stopping a"
  shows "\<exists>ins a' b' q. sub_run cfg ins (a, b) =
       Some ((a', b'), handled (filter (\<lambda>e. p < ev_id e \<and> event_matches f e) (events b))) \<and>
     ag_pc a' = Idle \<and> set ins \<subseteq> {Timer, Run t, Resolve} \<and>
     length (filter (\<lambda>i. i = Timer) ins) \<le> length (filter (\<lambda>e. p < ev_id e \<and> event_matches f e) (events b)) \<and>
     events b' = events b \<and> cursor_position b' (sb_cursor cfg) = Some q \<and>
     filter (\<lambda>e. q < ev_id e \<and> event_matches f e) (events b') = []"
  unfolding pending_def [symmetric] using assms
proof (induction "length (pending b f p)" arbitrary: a b p rule: less_induct)
  case less
  show ?case
  proof (cases "pending b f p = []")
    case True
    with less.prems show ?thesis by (intro exI [of _ "[]"]) (simp add: handled_def)
  next
    case False
    from one_tick [OF less.prems False, of t] obtain a1 b1 es q where
      run: "sub_run cfg (tick_inputs t (length es)) (a, b) = Some ((a1, b1), handled es)"
      and a1: "ag_pc a1 = Idle" "\<not> ag_stopping a1" and b1: "bus_wf b1" "events b1 = events b" "dead_letters b1 = dead_letters b"
      and pos: "cursor_position b1 (sb_cursor cfg) = Some q" "cursor_filter b1 (sb_cursor cfg) = Some f" "p < q"
      and split: "pending b f p = es @ pending b f q" "es \<noteq> []" by blast
    have pend: "pending b1 f q = pending b f q" using pending_cong [OF b1(2)] by simp
    have len: "length (pending b1 f q) < length (pending b f p)" unfolding pend split(1) using split(2) by simp
    have gap: "\<forall>m. min_event_id b1 = Some m \<longrightarrow> m \<le> q + 1"
      using less.prems(5) pos(3) unfolding min_event_id_cong [OF b1(2)] by force
    from less.hyps [OF len b1(1) pos(1,2) _ gap a1] less.prems(4) obtain ins a' b' q' where
      rest: "sub_run cfg ins (a1, b1) = Some ((a', b'), handled (pending b1 f q))" "ag_pc a' = Idle"
        "set ins \<subseteq> {Timer, Run t, Resolve}" "length (filter (\<lambda>i. i = Timer) ins) \<le> length (pending b1 f q)"
        "events b' = events b1" "cursor_position b' (sb_cursor cfg) = Some q'" "pending b' f q' = []"
      unfolding next_replay_cong [OF b1(3)] by blast
    have "sub_run cfg (tick_inputs t (length es) @ ins) (a, b) = Some ((a', b'), handled (pending b f p))"
      unfolding sub_run_append run option.case prod.case rest(1) split(1) handled_append pend ..
    moreover have "length (filter (\<lambda>i. i = Timer) (tick_inputs t (length es) @ ins)) \<le> length (pending b f p)"
      using rest(4) len by (simp add: tick_inputs_timers)
    ultimately show ?thesis using rest b1(2) tick_inputs_set [of t "length es"]
      by (intro exI [of _ "tick_inputs t (length es) @ ins"] exI [of _ a'] exI [of _ b'] exI [of _ q']) simp
  qed
qed

lemma healthy_ticks_deliver_everything_witness:
  "\<exists>ins a' b'. sub_run demo_config ins (fresh_agent, demo_bus [4, 5, 6] 3) =
     Some ((a', b'), [Invoked 4, Handled 4, Invoked 5, Handled 5, Invoked 6, Handled 6])"
proof -
  have wf: "bus_wf (demo_bus [4, 5, 6] 3)" by (rule demo_bus_wf) auto
  have r: "next_replay (demo_bus [4, 5, 6] 3) (sb_cursor demo_config) = None" by code_simp
  have m: "min_event_id (demo_bus [4, 5, 6] 3) = Some 4" by code_simp
  have f: "handled (filter (\<lambda>e. 3 < ev_id e \<and> event_matches ''wicked.*'' e) (events (demo_bus [4, 5, 6] 3))) =
      [Invoked 4, Handled 4, Invoked 5, Handled 5, Invoked 6, Handled 6]" by code_simp
  have c: "sb_cursor demo_config = ''c''" by (simp add: demo_config_def)
  have "\<forall>k. min_event_id (demo_bus [4, 5, 6] 3) = Some k \<longrightarrow> k \<le> 3 + 1" using m by simp
  from healthy_ticks_deliver_everything [OF wf _ _ r this, where f = "''wicked.*''" and a = fresh_agent and t = 0]
  obtain ins a' b' where "sub_run demo_config ins (fresh_agent, demo_bus [4, 5, 6] 3) = Some ((a', b'),
      handled (filter (\<lambda>e. 3 < ev_id e \<and> event_matches ''wicked.*'' e) (events (demo_bus [4, 5, 6] 3))))"
    by (auto simp: c fresh_agent_def)
  then show ?thesis unfolding f by blast
qed

end
