(* ===== verification/BusWorld.thy ===== *)
theory BusWorld
  imports BusEmit BusSweepV2 BusDlq BusSubscribe
begin

text \<open>
  What other processes do to the database while a subscriber runs: emits, sweeps of either tier under a
  policy that does not discard, acknowledgments and re-anchors of other cursors, registrations, the
  retirement of other subscriptions, the operator's dead-letter controls. Proved: none of them moves
  the subscriber's cursor, changes the content of a stored event, or removes an event the subscriber
  has still to acknowledge without leaving a copy in \<open>events_archive\<close> or in a warm bucket.
\<close>

section \<open>Steps of other processes\<close>

text \<open>
  What is left out, and with it excluded from every theorem about these steps: a sweep under the policy
  \<open>discard\<close>, and the operations on the subscriber's own cursor and subscription - an acknowledgment or
  re-anchoring by somebody else, \<open>wicked-bus replay\<close> (\<open>cmdReplay\<close>), deregistration.
\<close>

inductive other_step :: "sub_config \<Rightarrow> bus \<Rightarrow> bus \<Rightarrow> bool" for cfg :: sub_config where
  emits: "es_bus s = b \<Longrightarrow> other_step cfg b (es_bus (snd (emit ee ec ev s)))"
| sweeps: "resolveUnackedPolicy (sc_unacked_policy sc) \<noteq> Inr Discard \<Longrightarrow> other_step cfg b (snd (runSweep sc now b))"
| acks: "c \<noteq> sb_cursor cfg \<Longrightarrow> other_step cfg b (snd (ack b c n t))"
| reanchors: "c \<noteq> sb_cursor cfg \<Longrightarrow> other_step cfg b (snd (reanchor_cursor b c v t))"
| registers: "other_step cfg b (snd (register b opts sid cid t ok))"
| deregisters: "sid \<noteq> sb_sub cfg \<Longrightarrow> other_step cfg b (snd (deregister b sid t ok))"
| replays: "other_step cfg b (snd (replayDeadLetter b i t))"
| drops: "other_step cfg b (snd (dropDeadLetter b i))"

text \<open>The tiered sweep also writes buckets; other processes commit between its two transactions.\<close>

inductive world_step :: "sub_config \<Rightarrow> bus \<times> archive \<Rightarrow> bus \<times> archive \<Rightarrow> bool" for cfg :: sub_config where
  other: "other_step cfg b b' \<Longrightarrow> world_step cfg (b, ar) (b', ar)"
| tiered: "resolveUnackedPolicy (sc_unacked_policy sc) \<noteq> Inr Discard \<Longrightarrow> (other_step cfg)\<^sup>*\<^sup>* b (sv_between env b) \<Longrightarrow>
    runSweepV2 (sc :: sweep2_config) env now b ar = (r, b', ar') \<Longrightarrow> world_step cfg (b, ar) (b', ar')"

section \<open>What the subscriber relies on\<close>

definition sound_bus :: "bus \<Rightarrow> bool" where
  "sound_bus b \<longleftrightarrow> bus_wf b \<and> dedup_ok b \<and> archive_ok b"

text \<open>The subscriber's cursor is active at \<open>p\<close>, its subscription active with filter \<open>f\<close>.\<close>

definition attached :: "sub_config \<Rightarrow> int \<Rightarrow> string \<Rightarrow> bus \<Rightarrow> bool" where
  "attached cfg p f b \<longleftrightarrow> (\<exists>c s. find_cursor b (sb_cursor cfg) = Some c \<and> cursor_active c \<and> cu_last c = p \<and>
     cu_sub c = sb_sub cfg \<and> find_sub b (sb_sub cfg) = Some s \<and> sub_active s \<and> su_filter s = f)"

text \<open>Ids that have a copy outside the live table.\<close>

definition saved :: "bus \<Rightarrow> archive \<Rightarrow> int set" where
  "saved b ar = ev_id ` archived_rows b \<union> warm_ids ar"

definition evolves :: "int \<Rightarrow> string \<Rightarrow> bus \<Rightarrow> archive \<Rightarrow> bus \<Rightarrow> archive \<Rightarrow> bool" where
  "evolves p f b ar b' ar' \<longleftrightarrow> events_seq b \<le> events_seq b' \<and> saved b ar \<subseteq> saved b' ar' \<and>
     (\<forall>x'\<in>set (events b'). events_seq b < ev_id x' \<or> (\<exists>x\<in>set (events b). rekeyed x x')) \<and>
     (\<forall>x\<in>set (events b). p < ev_id x \<longrightarrow> event_matches f x \<longrightarrow>
        ev_id x \<in> ev_id ` set (events b') \<or> ev_id x \<in> saved b' ar')"

lemma sound_busD: "sound_bus b \<Longrightarrow> bus_wf b" "sound_bus b \<Longrightarrow> dedup_ok b" "sound_bus b \<Longrightarrow> archive_ok b"
  by (simp_all add: sound_bus_def)

lemma evolvesD:
  assumes "evolves p f b ar b' ar'"
  shows "events_seq b \<le> events_seq b'" and "saved b ar \<subseteq> saved b' ar'"
    and "x' \<in> set (events b') \<Longrightarrow> events_seq b < ev_id x' \<or> (\<exists>x\<in>set (events b). rekeyed x x')"
    and "x \<in> set (events b) \<Longrightarrow> p < ev_id x \<Longrightarrow> event_matches f x \<Longrightarrow> ev_id x \<in> ev_id ` set (events b') \<union> saved b' ar'"
  using assms by (simp_all add: evolves_def)

lemma rekeyed_matches: "rekeyed x x' \<Longrightarrow> event_matches f x' = event_matches f x"
  by (auto simp: rekeyed_def event_matches_def)

lemma rekeyed_trans: "rekeyed x y \<Longrightarrow> rekeyed y z \<Longrightarrow> rekeyed x z"
  by (auto simp: rekeyed_def)

lemma evolves_refl [simp]: "evolves p f b ar b ar"
  by (auto simp: evolves_def intro!: bexI [of _ _ "set (events b)"])

text \<open>A stored event keeps its content for as long as it is stored.\<close>

lemma evolves_same:
  assumes "evolves p f b ar b' ar'" and "events_wf b" and "x \<in> set (events b)" and "x' \<in> set (events b')"
    and "ev_id x' = ev_id x"
  shows "rekeyed x x'"
proof -
  have "ev_id x' \<le> events_seq b" using assms(2,3,5) by (simp add: events_wf_def)
  then obtain y where y: "y \<in> set (events b)" "rekeyed y x'" using evolvesD(3) [OF assms(1,4)] by auto
  then have "ev_id y = ev_id x" using rekeyed_sel(1) assms(5) by metis
  then have "y = x" using events_wf_inj [OF assms(2)] y(1) assms(3) by blast
  with y(2) show ?thesis by simp
qed

lemma evolves_trans:
  assumes "evolves p f b ar b' ar'" and "evolves p f b' ar' b'' ar''" and "events_wf b"
  shows "evolves p f b ar b'' ar''"
  unfolding evolves_def
proof (intro conjI ballI impI)
  show "events_seq b \<le> events_seq b''" "saved b ar \<subseteq> saved b'' ar''"
    using assms(1,2) by (auto simp: evolves_def)
next
  fix z assume "z \<in> set (events b'')"
  then consider "events_seq b' < ev_id z" | y where "y \<in> set (events b')" "rekeyed y z"
    using evolvesD(3) [OF assms(2)] by blast
  then show "events_seq b < ev_id z \<or> (\<exists>x\<in>set (events b). rekeyed x z)"
  proof cases
    case 1
    then show ?thesis using evolvesD(1) [OF assms(1)] by simp
  next
    case 2
    then have "events_seq b < ev_id y \<or> (\<exists>x\<in>set (events b). rekeyed x y)"
      using evolvesD(3) [OF assms(1)] by blast
    then show ?thesis using rekeyed_sel(1) [OF 2(2)] rekeyed_trans [OF _ 2(2)] by metis
  qed
next
  fix x assume x: "x \<in> set (events b)" "p < ev_id x" "event_matches f x"
  then consider "ev_id x \<in> saved b' ar'" | y where "y \<in> set (events b')" "ev_id y = ev_id x"
    using evolvesD(4) [OF assms(1) x] by (metis Un_iff imageE)
  then show "ev_id x \<in> ev_id ` set (events b'') \<or> ev_id x \<in> saved b'' ar''"
  proof cases
    case 1
    then show ?thesis using evolvesD(2) [OF assms(2)] by blast
  next
    case 2
    have "event_matches f y" using rekeyed_matches [OF evolves_same [OF assms(1,3) x(1) 2]] x(3) by simp
    then show ?thesis using evolvesD(4) [OF assms(2) 2(1)] x(2) 2(2) by simp
  qed
qed

text \<open>An operation that leaves the events tables alone.\<close>

lemma quiet_sound:
  assumes "sound_bus b" and "bus_wf b'" and "events b' = events b" and "events_seq b' = events_seq b"
    and "events_archive b' = events_archive b"
  shows "sound_bus b' \<and> evolves p f b ar b' ar"
proof -
  have a: "archived_rows b' = archived_rows b" using assms(5) by (simp add: archived_rows_def)
  then have s: "saved b' ar = saved b ar" by (simp add: saved_def)
  have "sound_bus b'" using assms a by (simp add: sound_bus_def dedup_ok_def archive_ok_def)
  moreover have "evolves p f b ar b' ar" unfolding evolves_def s assms(3,4) by (auto intro: rekeyed_refl)
  ultimately show ?thesis ..
qed

lemma attached_cong:
  "find_cursor b' (sb_cursor cfg) = find_cursor b (sb_cursor cfg) \<Longrightarrow> find_sub b' (sb_sub cfg) = find_sub b (sb_sub cfg) \<Longrightarrow>
   attached cfg p f b' = attached cfg p f b"
  by (simp add: attached_def)

lemma attached_tables:
  assumes "cursors b' = cursors b" and "subscriptions b' = subscriptions b"
  shows "attached cfg p f b' = attached cfg p f b"
  by (rule attached_cong) (simp_all add: find_cursor_def find_sub_def assms)

section \<open>Each operation\<close>

lemma emit_events_archive:
  assumes "dedup_ok (es_bus s)"
  shows "events_archive (es_bus (snd (emit ee ec ev s))) = events_archive (es_bus s)"
proof (cases "emit ee ec ev s")
  case (Pair r s')
  show ?thesis
  proof (cases r)
    case (Inl e)
    with Pair emit_Inl [of ee ec ev s e s'] show ?thesis by auto
  next
    case (Inr x)
    with Pair have "emit ee ec ev s = (Inr x, s')" by simp
    from emit_Inr [OF this assms] Pair show ?thesis by (auto simp: released_def rename_key_def)
  qed
qed

lemma emit_evolves:
  assumes b: "es_bus s = b" and sound: "sound_bus b"
  shows "sound_bus (es_bus (snd (emit ee ec ev s))) \<and>
    (attached cfg p f b \<longrightarrow> attached cfg p f (es_bus (snd (emit ee ec ev s)))) \<and>
    evolves p f b ar (es_bus (snd (emit ee ec ev s))) ar"
proof -
  obtain r s' where e: "emit ee ec ev s = (r, s')" by fastforce
  note sb = sound_busD [OF sound]
  have wf: "bus_wf (es_bus s')" and ded: "dedup_ok (es_bus s')" and arch: "events_archive (es_bus s') = events_archive b"
    using emit_wf [of s ee ec ev] emit_dedup_ok [of s ee ec ev] emit_events_archive [of s ee ec ev] sb b e by auto
  then have rows: "archived_rows (es_bus s') = archived_rows b" by (simp add: archived_rows_def)
  show ?thesis
  proof (cases r)
    case (Inl err)
    with emit_Inl [of ee ec ev s err s'] e b have c: "es_bus s' = b \<or> es_bus s' = b\<lparr>db_open := False\<rparr>" by simp
    then have "events (es_bus s') = events b" "events_seq (es_bus s') = events_seq b" by auto
    from quiet_sound [OF sound wf this arch] c show ?thesis unfolding e snd_conv
      by (auto simp: attached_tables [of "b\<lparr>db_open := False\<rparr>" b])
  next
    case (Inr res)
    with e have "emit ee ec ev s = (Inr res, s')" by simp
    from emit_Inr [OF this] sb(2) b obtain row b1 where rel: "released (ev_key row) (ee_now ee) (ee_uuid2 ee) b b1"
      and s': "es_bus s' = append_event row b1" by auto
    note fr = released_events [OF rel]
    have new: "set (events (es_bus s')) = insert (row\<lparr>ev_id := events_seq b + 1\<rparr>) (set (events b1))"
      and seq: "events_seq (es_bus s') = events_seq b + 1" using s' fr(2) by auto
    have older: "\<exists>x\<in>set (events b). rekeyed x x'" if "x' \<in> set (events b1)" for x'
      using fr(1) that by (metis list_all2_conv_all_nth in_set_conv_nth)
    have newer: "\<exists>x'\<in>set (events b1). rekeyed x x'" if "x \<in> set (events b)" for x
      using fr(1) that by (metis list_all2_conv_all_nth in_set_conv_nth)
    have "evolves p f b ar (es_bus s') ar"
      unfolding evolves_def saved_def rows new seq
      using older newer rekeyed_sel(1) by (fastforce simp: image_iff)
    moreover have "archive_ok (es_bus s')"
      unfolding archive_ok_def rows seq
    proof (intro ballI conjI)
      fix a assume "a \<in> archived_rows b"
      then have a: "ev_id a \<le> events_seq b" "ev_id a \<notin> ev_id ` set (events b)" using sb(3) by (auto simp: archive_ok_def)
      then show "ev_id a \<le> events_seq b + 1" by simp
      show "ev_id a \<notin> ev_id ` set (events (es_bus s'))"
        unfolding new using a older rekeyed_sel(1) by (fastforce simp: image_iff)
    qed
    moreover have "attached cfg p f (es_bus s') = attached cfg p f b"
      by (rule attached_tables) (simp_all add: s' fr)
    ultimately show ?thesis using wf ded by (simp add: e sound_bus_def)
  qed
qed

lemma attached_owes:
  assumes "bus_wf b" and "attached cfg p f b" and "e \<in> set (events b)" and "p < ev_id e" and "event_matches f e"
    and "expired now e"
  shows "owed_event b now e"
proof -
  from assms(2) obtain c s where c: "find_cursor b (sb_cursor cfg) = Some c" "cursor_active c" "cu_last c = p" "cu_sub c = sb_sub cfg"
    and s: "find_sub b (sb_sub cfg) = Some s" "sub_active s" "su_filter s = f" by (auto simp: attached_def)
  have "owes b now (sb_cursor cfg) (ev_id e)"
    unfolding owes_def
  proof (intro exI [of _ e] exI [of _ c] conjI disjI1)
    show "\<exists>s\<in>set (subscriptions b). su_id s = cu_sub c \<and> sub_active s \<and> cu_last c < ev_id e \<and> event_matches (su_filter s) e"
      using find_sub_id [OF s(1)] c s assms(4,5) by (intro bexI [of _ s]) simp_all
  qed (use find_cursor_id [OF c(1)] c assms in simp_all)
  then show ?thesis unfolding owed_event_iff [OF assms(1)] by blast
qed

lemma sweep_evolves:
  assumes "resolveUnackedPolicy (sc_unacked_policy sc) \<noteq> Inr Discard" and sound: "sound_bus b" and att: "attached cfg p f b"
  shows "sound_bus (snd (runSweep sc now b)) \<and> attached cfg p f (snd (runSweep sc now b)) \<and>
    evolves p f b ar (snd (runSweep sc now b)) ar"
proof (cases "runSweep sc now b")
  case (Pair r b')
  show ?thesis
  proof (cases r)
    case (Inl e)
    with Pair have "b' = b" by (auto simp: runSweep_def split: sum.splits prod.splits)
    with Pair sound att show ?thesis by simp
  next
    case (Inr x)
    with Pair have "runSweep sc now b = (Inr x, b')" by simp
    from runSweep_Inr [OF this] obtain policy days where pol: "resolveUnackedPolicy (sc_unacked_policy sc) = Inr policy"
      and t: "sweep_txn policy days (truthy (sc_archive_mode sc)) now b = (x, b')" by blast
    let ?am = "truthy (sc_archive_mode sc)"
    have nd: "policy \<noteq> Discard" using pol assms(1) by simp
    have b': "b' = snd (sweep_txn policy days ?am now b)" by (simp add: t)
    note sb = sound_busD [OF sound]
    note ev = sweep_txn_events [OF sb(1), of policy days ?am now, folded b']
    note arch = sweep_txn_archived [OF sb(1,3), of policy days ?am now, folded b']
    have "sound_bus b'" using sb sweep_txn_wf [OF sb(1)] sweep_txn_archive_ok [OF sb(1,3)] ev
      by (auto simp: sound_bus_def dedup_ok_def b')
    moreover have "attached cfg p f b'" using att unfolding b' by (subst attached_tables) simp_all
    moreover have "evolves p f b ar b' ar"
      unfolding evolves_def
    proof (intro conjI ballI impI)
      show "events_seq b \<le> events_seq b'" unfolding b' by simp
      show "saved b ar \<subseteq> saved b' ar" unfolding saved_def arch by auto
      show "events_seq b < ev_id x' \<or> (\<exists>x\<in>set (events b). rekeyed x x')" if "x' \<in> set (events b')" for x'
        using that rekeyed_refl [of x'] unfolding ev by (intro disjI2 bexI [of _ x']) simp_all
    next
      fix e assume e: "e \<in> set (events b)" "p < ev_id e" "event_matches f e"
      have "expired now e \<Longrightarrow> owed_event b now e" using attached_owes [OF sb(1) att e] .
      then have "event_fate policy days ?am now b e \<noteq> Dropped"
        using nd unfolding event_fate_def swept_to_def by (cases policy) auto
      then have "event_fate policy days ?am now b e = Live \<or> event_fate policy days ?am now b e = InArchive"
        by (cases "event_fate policy days ?am now b e") simp_all
      then show "ev_id e \<in> ev_id ` set (events b') \<or> ev_id e \<in> saved b' ar"
        using e(1) unfolding ev saved_def arch by auto
    qed
    ultimately show ?thesis using Pair by simp
  qed
qed

text \<open>Operations on cursors, subscriptions and dead letters.\<close>

lemma find_cursor_append: "find_cursor b cid \<noteq> None \<Longrightarrow> find (\<lambda>c. cu_id c = cid) (cursors b @ cs) = find_cursor b cid"
  by (auto simp: find_cursor_def find_append split: option.split)

lemma find_sub_append: "find_sub b sid \<noteq> None \<Longrightarrow> find (\<lambda>s. su_id s = sid) (subscriptions b @ ss) = find_sub b sid"
  by (auto simp: find_sub_def find_append split: option.split)

lemma attached_append:
  assumes "attached cfg p f b" and "cursors b' = cursors b @ cs" and "subscriptions b' = subscriptions b @ ss"
  shows "attached cfg p f b'"
proof -
  have "find_cursor b (sb_cursor cfg) \<noteq> None" "find_sub b (sb_sub cfg) \<noteq> None" using assms(1) by (auto simp: attached_def)
  then have "attached cfg p f b' = attached cfg p f b"
    by (intro attached_cong) (simp_all add: find_cursor_def [of b'] find_sub_def [of b'] assms(2,3) find_cursor_append find_sub_append)
  with assms(1) show ?thesis by simp
qed

lemma register_tables:
  "events (snd (register b opts sid cid t ok)) = events b \<and> events_seq (snd (register b opts sid cid t ok)) = events_seq b \<and>
   events_archive (snd (register b opts sid cid t ok)) = events_archive b \<and>
   (\<exists>cs. cursors (snd (register b opts sid cid t ok)) = cursors b @ cs) \<and>
   (\<exists>ss. subscriptions (snd (register b opts sid cid t ok)) = subscriptions b @ ss)"
proof -
  obtain r b1 where i: "insert_subscription b opts sid t = (r, b1)" by fastforce
  then have b1: "events b1 = events b" "events_seq b1 = events_seq b" "events_archive b1 = events_archive b"
    "cursors b1 = cursors b" "\<exists>ss. subscriptions b1 = subscriptions b @ ss"
    by (auto simp: insert_subscription_def split: option.splits if_splits)
  obtain r2 b2 where c: "insert_cursor b1 cid sid (initial_position b1 (ro_cursor_init opts)) t = (r2, b2)" by fastforce
  then have b2: "events b2 = events b1" "events_seq b2 = events_seq b1" "events_archive b2 = events_archive b1"
    "subscriptions b2 = subscriptions b1" "\<exists>cs. cursors b2 = cursors b1 @ cs"
    by (auto simp: insert_cursor_def split: if_splits)
  show ?thesis using i c b1 b2
    by (auto simp: register_def Let_def write_sidecar_def split: sum.splits role.splits)
qed

lemma deregister_tables:
  "events (snd (deregister b sid t ok)) = events b" "events_seq (snd (deregister b sid t ok)) = events_seq b"
  "events_archive (snd (deregister b sid t ok)) = events_archive b"
  by (simp_all add: deregister_def retire_def retire_sub_def retire_cursors_def remove_sidecar_def Let_def split: option.split)

lemma find_map_untouched:
  assumes "find P xs = Some x" and "\<And>y. P (g y) = P y" and "g x = x"
  shows "find P (map g xs) = Some x"
  using assms(1) by (induction xs) (auto simp: assms(2,3) split: if_splits)

lemma retire_attached:
  assumes "attached cfg p f b" and "su_id s \<noteq> sb_sub cfg"
  shows "attached cfg p f (retire ok t s b)"
proof -
  from assms(1) obtain c s0 where c: "find_cursor b (sb_cursor cfg) = Some c" "cu_sub c = sb_sub cfg"
    and s0: "find_sub b (sb_sub cfg) = Some s0" by (auto simp: attached_def)
  have "find_sub (retire ok t s b) (sb_sub cfg) = Some s0"
  proof -
    have "subscriptions (retire ok t s b) =
        map (\<lambda>x. if su_id x = su_id s then x\<lparr>su_deregistered_at := Some t\<rparr> else x) (subscriptions b)"
      by (simp add: retire_def retire_sub_def retire_cursors_def Let_def)
    then show ?thesis using find_sub_id [OF s0] s0 assms(2)
      by (simp add: find_sub_def) (rule find_map_untouched, auto)
  qed
  moreover have "find_cursor (retire ok t s b) (sb_cursor cfg) = Some c"
  proof (cases "su_role s = Subscriber")
    case True
    then have "cursors (retire ok t s b) =
        map (\<lambda>x. if cu_sub x = su_id s \<and> cursor_active x then x\<lparr>cu_deregistered_at := Some t\<rparr> else x) (cursors b)"
      by (simp add: retire_def retire_sub_def retire_cursors_def Let_def)
    then show ?thesis using c assms(2) by (simp add: find_cursor_def) (rule find_map_untouched, auto)
  next
    case False
    then have "cursors (retire ok t s b) = cursors b" by (simp add: retire_def retire_sub_def Let_def)
    then show ?thesis using c(1) by (simp add: find_cursor_def)
  qed
  ultimately have "attached cfg p f (retire ok t s b) = attached cfg p f b"
    by (intro attached_cong) (simp_all add: c(1) s0)
  with assms(1) show ?thesis by simp
qed

lemma deregister_attached:
  assumes "attached cfg p f b" and "sid \<noteq> sb_sub cfg"
  shows "attached cfg p f (snd (deregister b sid t ok))"
proof (cases "find_sub b sid")
  case None
  with assms(1) show ?thesis by (simp add: deregister_def)
next
  case (Some s)
  with find_sub_id [OF Some] assms retire_attached [of cfg p f b s] show ?thesis by (simp add: deregister_def)
qed

lemma update_other_attached:
  assumes "c \<noteq> sb_cursor cfg"
  shows "attached cfg p f (update_cursor_position c n t b) = attached cfg p f b"
  using assms by (intro attached_cong find_cursor_update_other) (simp_all add: find_sub_def)

lemma dlq_control_tables:
  "events (snd (replayDeadLetter b i t)) = events b" "events_seq (snd (replayDeadLetter b i t)) = events_seq b"
  "events_archive (snd (replayDeadLetter b i t)) = events_archive b" "cursors (snd (replayDeadLetter b i t)) = cursors b"
  "subscriptions (snd (replayDeadLetter b i t)) = subscriptions b"
  "events (snd (dropDeadLetter b i)) = events b" "events_seq (snd (dropDeadLetter b i)) = events_seq b"
  "events_archive (snd (dropDeadLetter b i)) = events_archive b" "cursors (snd (dropDeadLetter b i)) = cursors b"
  "subscriptions (snd (dropDeadLetter b i)) = subscriptions b"
  by (simp_all add: replayDeadLetter_def dropDeadLetter_def)

lemma other_step_evolves:
  assumes "other_step cfg b b'" and "sound_bus b" and "attached cfg p f b"
  shows "sound_bus b' \<and> attached cfg p f b' \<and> evolves p f b ar b' ar"
  using assms
proof cases
  case (emits s ee ec ev)
  with emit_evolves [of s b ee ec ev cfg p f ar] assms(2,3) show ?thesis by simp
next
  case (sweeps sc now)
  with sweep_evolves [of sc b cfg p f now ar] assms(2,3) show ?thesis by simp
next
  case (acks c n t)
  have q: "sound_bus b' \<and> evolves p f b ar b' ar"
    using assms(2) by (rule quiet_sound) (use acks(1) sound_busD(1) [OF assms(2)] in \<open>simp_all add: ack_wf\<close>)
  have "attached cfg p f b'"
    using assms(3) acks update_other_attached [of c cfg p f n t b]
    by (cases "cursor_position b c") (simp_all add: ack_active ack_inactive)
  with q show ?thesis by blast
next
  case (reanchors c v t)
  have fr: "events b' = events b" "events_seq b' = events_seq b" "events_archive b' = events_archive b"
    unfolding reanchors(1) by (simp_all add: reanchor_cursor_def split: option.split)
  have q: "sound_bus b' \<and> evolves p f b ar b' ar"
    using assms(2) _ fr by (rule quiet_sound) (simp add: reanchors(1) reanchor_wf sound_busD(1) [OF assms(2)])
  have "attached cfg p f b'"
    using assms(3) reanchors update_other_attached [of c cfg p f _ t b]
    by (auto simp: reanchor_cursor_def split: option.split)
  with q show ?thesis by blast
next
  case (registers opts sid cid t ok)
  note tb = register_tables [of b opts sid cid t ok, folded registers]
  have "sound_bus b' \<and> evolves p f b ar b' ar"
    by (rule quiet_sound [OF assms(2)]) (use tb register_wf [OF sound_busD(1) [OF assms(2)]] registers in simp_all)
  moreover have "attached cfg p f b'" using tb attached_append [OF assms(3)] by blast
  ultimately show ?thesis by blast
next
  case (deregisters sid t ok)
  have "sound_bus b' \<and> evolves p f b ar b' ar"
    by (rule quiet_sound [OF assms(2)])
      (use deregister_wf [OF sound_busD(1) [OF assms(2)]] in \<open>simp_all add: deregisters(1) deregister_tables\<close>)
  moreover have "attached cfg p f b'" using deregister_attached [OF assms(3)] deregisters by simp
  ultimately show ?thesis by blast
next
  case (replays i t)
  have "sound_bus b' \<and> evolves p f b ar b' ar"
    by (rule quiet_sound [OF assms(2)])
      (use replayDeadLetter_wf [OF sound_busD(1) [OF assms(2)]] in \<open>simp_all add: replays dlq_control_tables\<close>)
  then show ?thesis using assms(3) attached_tables [of b' b] by (simp add: replays dlq_control_tables)
next
  case (drops i)
  have "sound_bus b' \<and> evolves p f b ar b' ar"
    by (rule quiet_sound [OF assms(2)])
      (use dropDeadLetter_wf [OF sound_busD(1) [OF assms(2)]] in \<open>simp_all add: drops dlq_control_tables\<close>)
  then show ?thesis using assms(3) attached_tables [of b' b] by (simp add: drops dlq_control_tables)
qed

lemma other_steps_evolve:
  assumes "(other_step cfg)\<^sup>*\<^sup>* b b'" and "sound_bus b" and "attached cfg p f b"
  shows "sound_bus b' \<and> attached cfg p f b' \<and> evolves p f b ar b' ar"
  using assms
proof (induction rule: rtranclp_induct)
  case base
  then show ?case by simp
next
  case (step b1 b2)
  then have 1: "sound_bus b1 \<and> attached cfg p f b1 \<and> evolves p f b ar b1 ar" by blast
  with other_step_evolves [OF step.hyps(2), of p f ar] have
    2: "sound_bus b2 \<and> attached cfg p f b2 \<and> evolves p f b1 ar b2 ar" by blast
  with 1 evolves_trans [of p f b ar b1 ar b2 ar] bus_wfD(1) [OF sound_busD(1) [OF step.prems(1)]] show ?case by blast
qed

lemma delete_ids_wf [wf_intros]:
  assumes "bus_wf b"
  shows "bus_wf (delete_ids ids b)"
proof
  show "events_wf (delete_ids ids b)" by (rule events_wf_filter [OF bus_wfD(1) [OF assms]]) (simp_all add: delete_ids_def)
  show "subs_wf (delete_ids ids b)" "cursors_wf (delete_ids ids b)" "dlq_wf (delete_ids ids b)" "attempts_wf (delete_ids ids b)"
    using bus_wfD [OF assms] by (simp_all add: wf_defs delete_ids_def)
qed

lemma delete_ids_evolves:
  assumes "sound_bus b" and "set ids \<subseteq> warm_ids ar'" and "warm_rows ar \<subseteq> warm_rows ar'"
  shows "sound_bus (delete_ids ids b) \<and> attached cfg p f (delete_ids ids b) = attached cfg p f b \<and>
    evolves p f b ar (delete_ids ids b) ar'"
proof -
  let ?b = "delete_ids ids b"
  have ev: "set (events ?b) = {e \<in> set (events b). ev_id e \<notin> set ids}" and a: "archived_rows ?b = archived_rows b"
    and seq: "events_seq ?b = events_seq b"
    by (auto simp: delete_ids_def archived_rows_def)
  note sb = sound_busD [OF assms(1)]
  have w: "bus_wf ?b" by (rule delete_ids_wf [OF sb(1)])
  have "sound_bus ?b" using w sb by (auto simp: sound_bus_def dedup_ok_def archive_ok_def ev a seq)
  moreover have "attached cfg p f ?b = attached cfg p f b" by (rule attached_tables) (simp_all add: delete_ids_def)
  moreover have "evolves p f b ar ?b ar'"
    unfolding evolves_def seq saved_def a
  proof (intro conjI ballI impI order_refl)
    show "ev_id ` archived_rows b \<union> warm_ids ar \<subseteq> ev_id ` archived_rows b \<union> warm_ids ar'"
      using assms(3) by (auto simp: warm_ids_def)
    show "events_seq b < ev_id x' \<or> (\<exists>x\<in>set (events b). rekeyed x x')" if "x' \<in> set (events ?b)" for x'
      using that rekeyed_refl [of x'] unfolding ev by blast
    show "ev_id x \<in> ev_id ` set (events ?b) \<or> ev_id x \<in> ev_id ` archived_rows b \<union> warm_ids ar'" if "x \<in> set (events b)" for x
      using that assms(2) unfolding ev by blast
  qed
  ultimately show ?thesis by blast
qed

lemma world_step_evolves:
  assumes "world_step cfg (b, ar) (b', ar')" and "sound_bus b" and "attached cfg p f b"
  shows "sound_bus b' \<and> attached cfg p f b' \<and> evolves p f b ar b' ar'"
  using assms(1)
proof cases
  case other
  with other_step_evolves assms(2,3) show ?thesis by blast
next
  case (tiered sc env now r)
  note btw = other_steps_evolve [OF tiered(2) assms(2,3), of ar]
  show ?thesis
  proof (cases "resolveUnackedPolicy (sc_unacked_policy sc)")
    case (Inl e)
    with tiered(3) have "b' = b" "ar' = ar" by (simp_all add: runSweepV2_def)
    with assms(2,3) show ?thesis by simp
  next
    case (Inr policy)
    with tiered(1) have nd: "policy \<noteq> Discard" by auto
    from sweep2_effect [OF tiered(3) Inr nd] have rows: "warm_rows ar \<subseteq> warm_rows ar'"
      and c: "b' = b \<or> (\<exists>ids. b' = delete_ids ids (sv_between env b) \<and> set ids \<subseteq> warm_ids ar')" by blast+
    from c show ?thesis
    proof
      assume "b' = b"
      with assms(2,3) delete_ids_evolves [OF assms(2) _ rows, of "[]" cfg p f] show ?thesis by simp
    next
      assume "\<exists>ids. b' = delete_ids ids (sv_between env b) \<and> set ids \<subseteq> warm_ids ar'"
      then obtain ids where ids: "b' = delete_ids ids (sv_between env b)" "set ids \<subseteq> warm_ids ar'" by blast
      from btw delete_ids_evolves [OF _ ids(2) rows, of "sv_between env b" cfg p f] show ?thesis
        using evolves_trans [of p f b ar "sv_between env b" ar b' ar'] bus_wfD(1) [OF sound_busD(1) [OF assms(2)]]
        unfolding ids(1) by blast
    qed
  qed
qed

end
