(* ===== verification/BusReader.thy ===== *)
theory BusReader
  imports BusTiers BusWorld
begin

text \<open>
  A reader of both tiers while others work: producers run \<open>emit()\<close> (\<open>lib/emit.js\<close>), the tiered sweep
  (\<open>lib/sweep-v2.js\<close>) moves what has expired, and the reader calls \<open>pollResolve\<close> (\<open>lib/query.js\<close>) from where
  it stopped. Proved: whatever the interleaving, it has read every matching event up to its position,
  once and in order, and the tiers stay in the order the resolver relies on.
\<close>

section \<open>The system\<close>

text \<open>The time to live an event is emitted with.\<close>

definition ttl_of :: "emit_env \<Rightarrow> emit_config \<Rightarrow> jsval \<Rightarrow> jsnum" where
  "ttl_of ee cfg event = num_scale 3600000 (js_Number (ee_host ee)
     (if nullish (jget event ''ttl_hours'') then cf_ttl_hours cfg else jget event ''ttl_hours''))"

text \<open>
  The producers' state, the warm tier, the position of the reader and what it has read. Emits use one
  time to live and a clock that does not go back; a sweep holds no owed event back and runs alone.
\<close>

type_synonym tier_state = "emit_state \<times> archive \<times> int \<times> event_row list"

inductive tier_step :: "jsnum \<Rightarrow> query_filter option \<Rightarrow> int \<Rightarrow> tier_state \<Rightarrow> tier_state \<Rightarrow> bool"
  for ttl :: jsnum and flt :: "query_filter option" and n :: int where
  emits: "emit ee cfg event s = (Inr r, s') \<Longrightarrow> ttl_of ee cfg event = ttl \<Longrightarrow> dated (ee_now ee) \<Longrightarrow>
    \<forall>x\<in>stored (es_bus s) ar. ev_emitted_at x \<le> ee_now ee \<Longrightarrow> er_event_id r \<le> MAX_SAFE_INTEGER \<Longrightarrow>
    tier_step ttl flt n (s, ar, p, out) (s', ar, p, out)"
| sweeps: "runSweepV2 (sc :: sweep2_config) env now (es_bus s) ar = (r, b', ar') \<Longrightarrow>
    resolveUnackedPolicy (sc_unacked_policy sc) = Inr policy \<Longrightarrow> policy \<noteq> Discard \<Longrightarrow>
    resolveRetentionCapDays (sc_unacked_retention_days sc) = Inr days \<Longrightarrow>
    held_ids policy (owedPairsWithCap (es_bus s) now days) = [] \<Longrightarrow> sv_between env (es_bus s) = es_bus s \<Longrightarrow>
    (case s2_batch_size sc of Some m \<Rightarrow> 0 \<le> m | None \<Rightarrow> True) \<Longrightarrow>
    tier_step ttl flt n (s, ar, p, out) (s\<lparr>es_bus := b'\<rparr>, ar', p, out)"
| reads: "pollResolve (es_bus s) ar (jint p) flt (Some n) = Inr rs \<Longrightarrow> length (ar_buckets ar) \<le> ATTACH_CEILING \<Longrightarrow>
    tier_step ttl flt n (s, ar, p, out) (s, ar, last (p # map ev_id rs), out @ rs)"

section \<open>Steps keep the tiers in order\<close>

lemma emit_ttl:
  assumes "emit ee cfg event s = (Inr r, s')" and "dedup_ok (es_bus s)"
  shows "ev_expires_at (last (events (es_bus s'))) = num_shift (ee_now ee) (ttl_of ee cfg event)"
proof -
  from emit_Inr [OF assms] obtain rg fs row b1 where
    rw: "emit_row (ee_host ee) cfg event (currentContext (ee_environ ee) (es_frame s)) rg (ee_now ee) (ee_uuid ee) = Inr row"
    and s': "es_bus s' = append_event row b1" by auto
  have "ev_expires_at row = expiry (ee_host ee) (ee_now ee)
      (if nullish (jget event ''ttl_hours'') then cf_ttl_hours cfg else jget event ''ttl_hours'')"
    using rw by (auto simp: emit_row_def Let_def split: sum.splits)
  then show ?thesis by (simp add: s' append_event_def expiry_def ttl_of_def)
qed

lemma rekeyed_more: "rekeyed e e' \<Longrightarrow> ev_emitted_at e' = ev_emitted_at e \<and> ev_subdomain e' = ev_subdomain e"
  by (auto simp: rekeyed_def)

lemma rekeyed_matching: "rekeyed e e' \<Longrightarrow> matching p flt e' = matching p flt e"
  using rekeyed_sel rekeyed_more by (simp add: matching_def whereClause_def split: option.split)

lemma rekeyed_origin: "list_all2 rekeyed xs ys \<Longrightarrow> y \<in> set ys \<Longrightarrow> \<exists>x\<in>set xs. rekeyed x y"
  by (metis list_all2_conv_all_nth in_set_conv_nth)

lemma rekeyed_kept: "list_all2 rekeyed xs ys \<Longrightarrow> x \<in> set xs \<Longrightarrow> \<exists>y\<in>set ys. rekeyed x y"
  by (metis list_all2_conv_all_nth in_set_conv_nth)

text \<open>The stored rows after an emit: the old ones, at most with another key, and the new one.\<close>

lemma emit_stored:
  assumes "emit ee cfg event s = (Inr r, s')" and "bus_wf (es_bus s)" and "dedup_ok (es_bus s)"
  obtains row where "ev_id row = events_seq (es_bus s) + 1" "er_event_id r = ev_id row" "ev_emitted_at row = ee_now ee"
    "ev_expires_at row = num_shift (ee_now ee) (ttl_of ee cfg event)"
    "events_seq (es_bus s') = events_seq (es_bus s) + 1"
    "\<forall>e\<in>set (events (es_bus s')). e = row \<or> (\<exists>e0\<in>set (events (es_bus s)). rekeyed e0 e)"
    "\<forall>x'\<in>stored (es_bus s') ar. x' = row \<or> (\<exists>x\<in>stored (es_bus s) ar. rekeyed x x')"
    "\<forall>x\<in>stored (es_bus s) ar. \<exists>x'\<in>stored (es_bus s') ar. rekeyed x x'"
proof -
  from emit_appends [OF assms] obtain old row where ev: "events (es_bus s') = old @ [row]"
    and old: "list_all2 rekeyed (events (es_bus s)) old" and id: "ev_id row = events_seq (es_bus s) + 1" "er_event_id r = ev_id row"
    and at: "ev_emitted_at row = ee_now ee" by auto
  from emit_Inr [OF assms(1,3)] obtain row' b1 k t' u where "released k t' u (es_bus s) b1" "es_bus s' = append_event row' b1" by auto
  then have seq: "events_seq (es_bus s') = events_seq (es_bus s) + 1" using released_events(2) by (simp add: append_event_def)
  have live: "\<forall>e\<in>set (events (es_bus s')). e = row \<or> (\<exists>e0\<in>set (events (es_bus s)). rekeyed e0 e)"
    using rekeyed_origin [OF old] unfolding ev by auto
  have origin: "\<forall>x'\<in>stored (es_bus s') ar. x' = row \<or> (\<exists>x\<in>stored (es_bus s) ar. rekeyed x x')"
  proof
    fix x' assume "x' \<in> stored (es_bus s') ar"
    then consider "x' \<in> set (events (es_bus s'))" | "x' \<in> warm_rows ar" unfolding stored_def by blast
    then show "x' = row \<or> (\<exists>x\<in>stored (es_bus s) ar. rekeyed x x')"
    proof cases
      case 1
      then show ?thesis using live unfolding stored_def by blast
    next
      case 2
      then have "x' \<in> stored (es_bus s) ar" by (simp add: stored_def)
      then show ?thesis using rekeyed_refl [of x'] by blast
    qed
  qed
  have kept: "\<forall>x\<in>stored (es_bus s) ar. \<exists>x'\<in>stored (es_bus s') ar. rekeyed x x'"
  proof
    fix x assume "x \<in> stored (es_bus s) ar"
    then show "\<exists>x'\<in>stored (es_bus s') ar. rekeyed x x'"
      using rekeyed_kept [OF old] unfolding stored_def ev by (auto intro: bexI [of _ x])
  qed
  have "ev_expires_at row = num_shift (ee_now ee) (ttl_of ee cfg event)" using emit_ttl [OF assms(1,3)] ev by simp
  from that [OF id at this seq live origin kept] show ?thesis .
qed

lemma emit_clocked:
  assumes "clocked E" and "\<forall>x'\<in>E'. x' = row \<or> (\<exists>x\<in>E. rekeyed x x')" and "\<forall>x\<in>E. ev_id x < ev_id row"
    and "\<forall>x\<in>E. ev_emitted_at x \<le> ev_emitted_at row" and "dated (ev_emitted_at row)" and "ev_id row \<le> MAX_SAFE_INTEGER"
  shows "clocked E'"
  unfolding clocked_def
proof (intro conjI ballI impI)
  fix x y assume x: "x \<in> E'" and y: "y \<in> E'" and xy: "ev_id x \<le> ev_id y"
  show "ev_emitted_at x \<le> ev_emitted_at y"
  proof (cases "y = row")
    case True
    then show ?thesis using assms(2,4) x rekeyed_more by (metis order_refl)
  next
    case False
    then obtain y0 where y0: "y0 \<in> E" "rekeyed y0 y" using assms(2) y by blast
    then have "x \<noteq> row" using xy assms(3) rekeyed_sel(1) [OF y0(2)] by force
    then obtain x0 where x0: "x0 \<in> E" "rekeyed x0 x" using assms(2) x by blast
    have "ev_id x0 \<le> ev_id y0" using xy rekeyed_sel(1) [OF x0(2)] rekeyed_sel(1) [OF y0(2)] by simp
    then have "ev_emitted_at x0 \<le> ev_emitted_at y0" using assms(1) x0(1) y0(1) unfolding clocked_def by blast
    then show ?thesis using rekeyed_more [OF x0(2)] rekeyed_more [OF y0(2)] by simp
  qed
next
  fix x assume x: "x \<in> E'"
  have "x = row \<or> (\<exists>x0\<in>E. rekeyed x0 x)" using assms(2) x by blast
  then show "dated (ev_emitted_at x)" "ev_id x \<le> MAX_SAFE_INTEGER"
    using assms(1,5,6) rekeyed_more [of _ x] rekeyed_sel(1) [of _ x] unfolding clocked_def by fastforce+
qed

lemma emit_tiered:
  assumes "emit ee cfg event s = (Inr r, s')" and "ttl_of ee cfg event = ttl" and "dated (ee_now ee)"
    and "\<forall>x\<in>stored (es_bus s) ar. ev_emitted_at x \<le> ee_now ee" and "er_event_id r \<le> MAX_SAFE_INTEGER"
    and "tiered ttl (es_bus s) ar" and "bus_wf (es_bus s)" and "dedup_ok (es_bus s)"
    and "\<forall>x\<in>stored (es_bus s) ar. ev_id x \<le> events_seq (es_bus s)"
  shows "tiered ttl (es_bus s') ar" and "\<forall>x\<in>stored (es_bus s') ar. ev_id x \<le> events_seq (es_bus s')"
proof -
  note t = tieredD [OF assms(6)]
  obtain row where row: "ev_id row = events_seq (es_bus s) + 1" "er_event_id r = ev_id row" "ev_emitted_at row = ee_now ee"
      "ev_expires_at row = num_shift (ee_now ee) (ttl_of ee cfg event)"
    and seq: "events_seq (es_bus s') = events_seq (es_bus s) + 1"
    and live: "\<forall>e\<in>set (events (es_bus s')). e = row \<or> (\<exists>e0\<in>set (events (es_bus s)). rekeyed e0 e)"
    and origin: "\<forall>x'\<in>stored (es_bus s') ar. x' = row \<or> (\<exists>x\<in>stored (es_bus s) ar. rekeyed x x')"
    and "\<forall>x\<in>stored (es_bus s) ar. \<exists>x'\<in>stored (es_bus s') ar. rekeyed x x'"
    by (rule emit_stored [OF assms(1,7,8)])
  have below: "\<forall>x\<in>stored (es_bus s) ar. ev_id x < ev_id row" using assms(9) row(1) by fastforce
  show "\<forall>x\<in>stored (es_bus s') ar. ev_id x \<le> events_seq (es_bus s')"
    using origin assms(9) row(1) rekeyed_sel(1) unfolding seq by fastforce
  have "events_wf (es_bus s')" using emit_wf [OF assms(7,8), of ee cfg event] assms(1) bus_wfD(1) by simp
  moreover have "clocked (stored (es_bus s') ar)"
    by (rule emit_clocked [OF t(7) origin below]) (use assms(3-5) row(2,3) in simp_all)
  moreover have "ev_id w < ev_id e" if e: "e \<in> set (events (es_bus s'))" and w: "w \<in> warm_rows ar" for e w
    using live e w t(8) below rekeyed_sel(1) unfolding stored_def by fastforce
  moreover have "ev_expires_at e = num_shift (ev_emitted_at e) ttl" if e: "e \<in> set (events (es_bus s'))" for e
  proof (cases "e = row")
    case False
    then obtain e0 where e0: "e0 \<in> set (events (es_bus s))" "rekeyed e0 e" using e live by blast
    then have "ev_expires_at e = ev_expires_at e0" by (simp add: rekeyed_sel)
    then show ?thesis using t(9) e0(1) rekeyed_more [OF e0(2)] by simp
  qed (use row assms(2) in simp)
  ultimately show "tiered ttl (es_bus s') ar" unfolding tiered_def using t(2-6) by blast
qed

lemma emit_merged:
  assumes "emit ee cfg event s = (Inr r, s')" and "bus_wf (es_bus s)" and "dedup_ok (es_bus s)"
  shows "events_seq (es_bus s') = events_seq (es_bus s) + 1"
    and "merged_ids (es_bus s) ar flt p \<subseteq> merged_ids (es_bus s') ar flt p"
    and "merged_ids (es_bus s') ar flt p \<subseteq> merged_ids (es_bus s) ar flt p \<union> {events_seq (es_bus s) + 1}"
proof -
  obtain row where id: "ev_id row = events_seq (es_bus s) + 1"
    and "er_event_id r = ev_id row" "ev_emitted_at row = ee_now ee"
      "ev_expires_at row = num_shift (ee_now ee) (ttl_of ee cfg event)"
    and seq: "events_seq (es_bus s') = events_seq (es_bus s) + 1"
    and "\<forall>e\<in>set (events (es_bus s')). e = row \<or> (\<exists>e0\<in>set (events (es_bus s)). rekeyed e0 e)"
    and origin: "\<forall>x'\<in>stored (es_bus s') ar. x' = row \<or> (\<exists>x\<in>stored (es_bus s) ar. rekeyed x x')"
    and kept: "\<forall>x\<in>stored (es_bus s) ar. \<exists>x'\<in>stored (es_bus s') ar. rekeyed x x'"
    by (rule emit_stored [OF assms])
  show "events_seq (es_bus s') = events_seq (es_bus s) + 1" by (rule seq)
  have same: "matching p flt x' = matching p flt x \<and> ev_id x' = ev_id x" if "rekeyed x x'" for x x'
    using rekeyed_matching [OF that] rekeyed_sel(1) [OF that] by blast
  show "merged_ids (es_bus s) ar flt p \<subseteq> merged_ids (es_bus s') ar flt p"
  proof
    fix i assume "i \<in> merged_ids (es_bus s) ar flt p"
    then obtain x where x: "x \<in> stored (es_bus s) ar" "matching p flt x" "i = ev_id x" unfolding merged_stored by auto
    with kept obtain x' where x': "x' \<in> stored (es_bus s') ar" "rekeyed x x'" by blast
    then have "matching p flt x'" "ev_id x' = i" using x same [OF x'(2)] by simp_all
    then show "i \<in> merged_ids (es_bus s') ar flt p" unfolding merged_stored using x'(1) by blast
  qed
  show "merged_ids (es_bus s') ar flt p \<subseteq> merged_ids (es_bus s) ar flt p \<union> {events_seq (es_bus s) + 1}"
  proof
    fix i assume "i \<in> merged_ids (es_bus s') ar flt p"
    then obtain x' where x': "x' \<in> stored (es_bus s') ar" "matching p flt x'" "i = ev_id x'" unfolding merged_stored by auto
    with origin consider "x' = row" | x where "x \<in> stored (es_bus s) ar" "rekeyed x x'" by blast
    then show "i \<in> merged_ids (es_bus s) ar flt p \<union> {events_seq (es_bus s) + 1}"
    proof cases
      case 1
      then show ?thesis using x'(3) id by simp
    next
      case (2 x)
      have "matching p flt x" "ev_id x = i" using x'(2,3) same [OF 2(2)] by simp_all
      then show ?thesis unfolding merged_stored using 2(1) by blast
    qed
  qed
qed

section \<open>What has been read\<close>

definition reading :: "jsnum \<Rightarrow> query_filter option \<Rightarrow> int \<Rightarrow> tier_state \<Rightarrow> bool" where
  "reading ttl flt p0 st = (case st of (s, ar, p, out) \<Rightarrow>
     tiered ttl (es_bus s) ar \<and> bus_wf (es_bus s) \<and> dedup_ok (es_bus s) \<and>
     (\<forall>x\<in>stored (es_bus s) ar. ev_id x \<le> events_seq (es_bus s)) \<and> 0 \<le> p0 \<and> p0 \<le> p \<and> p \<le> events_seq (es_bus s) \<and>
     map ev_id out = sorted_list_of_set {i \<in> merged_ids (es_bus s) ar flt p0. i \<le> p})"

lemma sorted_upto_batch:
  fixes S :: "int set"
  assumes "finite S" and "p \<le> q" and "ys = take k (sorted_list_of_set {i \<in> S. p < i})" and "q = last (p # ys)"
  shows "sorted_list_of_set {i \<in> S. i \<le> q} = sorted_list_of_set {i \<in> S. i \<le> p} @ ys"
proof -
  let ?T = "{i \<in> S. p < i}"
  have fin: "finite ?T" "finite {i \<in> S. i \<le> p}" using assms(1) by simp_all
  define zs where "zs = drop k (sorted_list_of_set ?T)"
  have yz: "ys @ zs = sorted_list_of_set ?T" by (simp add: assms(3) zs_def)
  then have "sorted_wrt (<) (ys @ zs)" using strict_sorted_list_of_set by metis
  then have ys: "sorted_wrt (<) ys" "\<forall>y\<in>set ys. \<forall>z\<in>set zs. y < z" by (simp_all add: sorted_wrt_append)
  have all: "set ys \<union> set zs = ?T" using arg_cong [OF yz, of set] fin(1) by simp
  have read: "set ys = {i \<in> ?T. i \<le> q}"
  proof (cases "ys = []")
    case True
    then show ?thesis using assms(4) by auto
  next
    case False
    then have q: "q \<in> set ys" using assms(4) by simp
    have "y \<le> q" if "y \<in> set ys" for y
    proof -
      obtain xs where xs: "ys = xs @ [q]" using False assms(4) by (metis append_butlast_last_id last_ConsR)
      then show ?thesis using ys(1) that by (auto simp: sorted_wrt_append)
    qed
    moreover have "i \<in> set ys" if "i \<in> ?T" "i \<le> q" for i
    proof -
      have "i \<notin> set zs" using ys(2) q that(2) by (meson leD)
      then show ?thesis using all that(1) by blast
    qed
    ultimately show ?thesis using all by blast
  qed
  have split: "{i \<in> S. i \<le> q} = {i \<in> S. i \<le> p} \<union> set ys" unfolding read using assms(2) by auto
  have "\<forall>i\<in>{i \<in> S. i \<le> p}. \<forall>y\<in>set ys. i < y" unfolding read by auto
  then have "sorted_wrt (<) (sorted_list_of_set {i \<in> S. i \<le> p} @ ys)"
    using ys(1) fin(2) by (simp add: sorted_wrt_append)
  then have "sorted_list_of_set (set (sorted_list_of_set {i \<in> S. i \<le> p} @ ys)) = sorted_list_of_set {i \<in> S. i \<le> p} @ ys"
    by (intro sorted_list_of_set.idem_if_sorted_distinct) (simp_all add: strict_sorted_iff)
  then show ?thesis unfolding split using fin(2) by simp
qed


lemma finite_merged [simp]: "finite (merged_ids b ar flt p)"
  by (simp add: merged_stored stored_def warm_rows_def)

lemma merged_above: "p0 \<le> p \<Longrightarrow> merged_ids b ar flt p = {i \<in> merged_ids b ar flt p0. p < i}"
  by (auto simp: merged_stored matching_def)

lemma readingD:
  assumes "reading ttl flt p0 (s, ar, p, out)"
  shows "tiered ttl (es_bus s) ar" "bus_wf (es_bus s)" "dedup_ok (es_bus s)"
    "\<forall>x\<in>stored (es_bus s) ar. ev_id x \<le> events_seq (es_bus s)" "0 \<le> p0" "p0 \<le> p" "p \<le> events_seq (es_bus s)"
    "map ev_id out = sorted_list_of_set {i \<in> merged_ids (es_bus s) ar flt p0. i \<le> p}"
  using assms unfolding reading_def by simp_all

lemma reads_reading:
  assumes "reading ttl flt p0 (s, ar, p, out)" and "pollResolve (es_bus s) ar (jint p) flt (Some n) = Inr rs"
    and "length (ar_buckets ar) \<le> ATTACH_CEILING" and "0 \<le> n"
  shows "reading ttl flt p0 (s, ar, last (p # map ev_id rs), out @ rs)"
    and "map ev_id rs = take (nat n) (sorted_list_of_set {i \<in> merged_ids (es_bus s) ar flt p0. p < i})"
proof -
  note r = readingD [OF assms(1)]
  let ?q = "last (p # map ev_id rs)" and ?S = "merged_ids (es_bus s) ar flt p0"
  have "0 \<le> p" using r(5,6) by simp
  from pollResolve_complete [OF tieredD(1) [OF r(1)] tiered_resolvable [OF r(1) assms(3)] this assms(4), of flt] assms(2)
  show ids: "map ev_id rs = take (nat n) (sorted_list_of_set {i \<in> ?S. p < i})" by (simp add: merged_above [OF r(6)])
  have q: "p \<le> ?q \<and> ?q \<le> events_seq (es_bus s)"
  proof (cases "rs = []")
    case True
    then show ?thesis using r(7) by simp
  next
    case False
    then have "?q \<in> set (map ev_id rs)" by (simp add: last_map)
    moreover have "set (map ev_id rs) \<subseteq> {i \<in> ?S. p < i}" unfolding ids by (auto dest: in_set_takeD)
    ultimately have "?q \<in> {i \<in> ?S. p < i}" by blast
    then show ?thesis using r(4) unfolding merged_stored by auto
  qed
  have "sorted_list_of_set {i \<in> ?S. i \<le> ?q} = sorted_list_of_set {i \<in> ?S. i \<le> p} @ map ev_id rs"
    by (rule sorted_upto_batch [OF finite_merged _ ids refl]) (use q in simp)
  then show "reading ttl flt p0 (s, ar, ?q, out @ rs)" using r q by (simp add: reading_def)
qed

lemma emits_reading:
  assumes "reading ttl flt p0 (s, ar, p, out)" and "emit ee cfg event s = (Inr r, s')" and "ttl_of ee cfg event = ttl"
    and "dated (ee_now ee)" and "\<forall>x\<in>stored (es_bus s) ar. ev_emitted_at x \<le> ee_now ee" and "er_event_id r \<le> MAX_SAFE_INTEGER"
  shows "reading ttl flt p0 (s', ar, p, out)" and "merged_ids (es_bus s) ar flt p0 \<subseteq> merged_ids (es_bus s') ar flt p0"
proof -
  note r = readingD [OF assms(1)]
  note m = emit_merged [OF assms(2) r(2,3)] and t = emit_tiered [OF assms(2-6) r(1,2,3,4)]
  show "merged_ids (es_bus s) ar flt p0 \<subseteq> merged_ids (es_bus s') ar flt p0" by (rule m(2))
  have "{i \<in> merged_ids (es_bus s') ar flt p0. i \<le> p} = {i \<in> merged_ids (es_bus s) ar flt p0. i \<le> p}"
    using m(2,3) [of ar flt p0] r(7) by force
  moreover have "bus_wf (es_bus s')" "dedup_ok (es_bus s')"
    using emit_wf [OF r(2,3), of ee cfg event] emit_dedup_ok [OF r(3), of ee cfg event] assms(2) by simp_all
  ultimately show "reading ttl flt p0 (s', ar, p, out)" using r(5-8) t m(1) by (simp add: reading_def)
qed

lemma sweeps_reading:
  assumes "reading ttl flt p0 (s, ar, p, out)" and "tiered ttl b' ar'" and "stored b' ar' = stored (es_bus s) ar"
    and "b' = delete_ids ids (es_bus s)"
  shows "reading ttl flt p0 (s\<lparr>es_bus := b'\<rparr>, ar', p, out)" and "merged_ids b' ar' flt p0 = merged_ids (es_bus s) ar flt p0"
proof -
  note r = readingD [OF assms(1)]
  show m: "merged_ids b' ar' flt p0 = merged_ids (es_bus s) ar flt p0" by (simp add: merged_stored assms(3))
  have "bus_wf b'" "dedup_ok b'" "events_seq b' = events_seq (es_bus s)"
    using delete_ids_wf [OF r(2)] r(3) by (auto simp: assms(4) dedup_ok_def) (simp add: delete_ids_def)
  then show "reading ttl flt p0 (s\<lparr>es_bus := b'\<rparr>, ar', p, out)" using r(4-8) assms(2,3) m by (simp add: reading_def)
qed

definition seen_by :: "query_filter option \<Rightarrow> int \<Rightarrow> tier_state \<Rightarrow> int set" where
  "seen_by flt p0 st = (case st of (s, ar, p, out) \<Rightarrow> merged_ids (es_bus s) ar flt p0)"

lemma tier_step_reading:
  assumes "tier_step ttl flt n st st'" and "0 \<le> n" and "reading ttl flt p0 st"
  shows "reading ttl flt p0 st' \<and> seen_by flt p0 st \<subseteq> seen_by flt p0 st'"
  using assms(1)
proof cases
  case (emits ee cfg event s r s' ar p out)
  from emits_reading [OF assms(3) [unfolded emits(1)] emits(3-7)] show ?thesis by (simp add: emits(1,2) seen_by_def)
next
  case (sweeps sc env now s ar r b' ar' policy days p out)
  note r = readingD [OF assms(3) [unfolded sweeps(1)]]
  from runSweepV2_tiered [OF r(1) sweeps(3-9)] obtain ids where
    "tiered ttl b' ar'" "stored b' ar' = stored (es_bus s) ar" "b' = delete_ids ids (es_bus s)" by blast
  from sweeps_reading [OF assms(3) [unfolded sweeps(1)] this] show ?thesis by (simp add: sweeps(1,2) seen_by_def)
next
  case (reads s ar p rs out)
  from reads_reading(1) [OF assms(3) [unfolded reads(1)] reads(3,4) assms(2)] show ?thesis by (simp add: reads(1,2) seen_by_def)
qed

lemma tier_steps_reading:
  assumes "(tier_step ttl flt n)\<^sup>*\<^sup>* st st'" and "0 \<le> n" and "reading ttl flt p0 st"
  shows "reading ttl flt p0 st' \<and> seen_by flt p0 st \<subseteq> seen_by flt p0 st'"
  using assms(1)
proof (induction rule: rtranclp_induct)
  case base
  with assms(3) show ?case by simp
next
  case (step y z)
  then show ?case using tier_step_reading [OF step(2) assms(2)] by blast
qed

section \<open>Property\<close>

text \<open>C5: A reader of both tiers misses nothing and repeats nothing while producers emit and the sweep moves
  rows under it, as long as rows leave the live tier in id order: all emits use one time to live and a clock
  that does not go back, and every sweep runs alone (no other connection commits between its statements),
  under a policy other than \<open>discard\<close>, and holds no owed event back. Reads find at most 123 buckets, which is
  what one connection can attach. In every interleaving of such emits, tiered sweeps and reads that starts
  with the tiers in order, what has been read is exactly the matching events between the starting position and the
  present one, in id order, whichever tier holds them; nothing that matched is ever lost from both
  tiers; and when a read comes back empty, every matching event above the starting position has been read.\<close>

theorem reader_misses_nothing:
  assumes "(tier_step ttl flt n)\<^sup>*\<^sup>* (s, ar, p0, []) (s', ar', p, out)" and "0 \<le> n"
    and "tiered ttl (es_bus s) ar" and "bus_wf (es_bus s)" and "dedup_ok (es_bus s)"
    and "\<forall>x\<in>stored (es_bus s) ar. ev_id x \<le> events_seq (es_bus s)" and "0 \<le> p0" and "p0 \<le> events_seq (es_bus s)"
  shows "map ev_id out = sorted_list_of_set {i \<in> merged_ids (es_bus s') ar' flt p0. i \<le> p} \<and>
     merged_ids (es_bus s) ar flt p0 \<subseteq> merged_ids (es_bus s') ar' flt p0 \<and>
     (0 < n \<and> length (ar_buckets ar') \<le> ATTACH_CEILING \<and> pollResolve (es_bus s') ar' (jint p) flt (Some n) = Inr [] \<longrightarrow>
        map ev_id out = sorted_list_of_set (merged_ids (es_bus s') ar' flt p0))"
proof -
  have none: "{i \<in> merged_ids (es_bus s) ar flt p0. i \<le> p0} = {}" by (auto simp: merged_stored matching_def)
  have "reading ttl flt p0 (s, ar, p0, [])" using assms(3-8) by (simp add: reading_def none)
  from tier_steps_reading [OF assms(1,2) this] have r: "reading ttl flt p0 (s', ar', p, out)"
    and mono: "merged_ids (es_bus s) ar flt p0 \<subseteq> merged_ids (es_bus s') ar' flt p0" by (simp_all add: seen_by_def)
  have "map ev_id out = sorted_list_of_set (merged_ids (es_bus s') ar' flt p0)"
    if n: "0 < n" and len: "length (ar_buckets ar') \<le> ATTACH_CEILING" and e: "pollResolve (es_bus s') ar' (jint p) flt (Some n) = Inr []"
  proof -
    let ?S = "merged_ids (es_bus s') ar' flt p0"
    have "sorted_list_of_set {i \<in> ?S. p < i} = []" using reads_reading(2) [OF r e len assms(2)] n by simp
    then have "{i \<in> ?S. p < i} = {}" by simp
    then have "{i \<in> ?S. i \<le> p} = ?S" by force
    then show ?thesis using readingD(8) [OF r] by simp
  qed
  then show ?thesis using readingD(8) [OF r] mono by blast
qed

lemma demo_now: "ee_now (demo_env t) = t"
  by (simp add: demo_env_def)

lemma demo_ttl: "ttl_of (demo_env 5) demo_cfg (demo_event ''k'') = Fin 259200000"
  by code_simp

lemma reader_misses_nothing_witness:
  "\<exists>s' ar' out. (tier_step (Fin 259200000) None 1)\<^sup>*\<^sup>* (demo_state, no_archive, 0, []) (s', ar', 1, out) \<and>
     events (es_bus s') = [] \<and> map ev_id out = [1]"
proof -
  let ?st = "tier_step (Fin 259200000) None 1"
  let ?s = "runSweepV2 (demo_sweep2 JUndef) quiet_env 300000000 (es_bus demo_state1) no_archive"
  have emp: "stored (es_bus demo_state) no_archive = {}" "tiered (Fin 259200000) (es_bus demo_state) no_archive"
    by (auto simp: demo_state_def empty_bus_def stored_def warm_rows_def no_archive_def tiered_def events_wf_def archive_wf_def
        usable_def filed_def by_name_def rows_at_def clocked_def)
  have e: "?st (demo_state, no_archive, 0, []) (demo_state1, no_archive, 0, [])"
    by (rule tier_step.emits [OF demo_emit1]) (use emp(1) in \<open>simp_all add: demo_ttl demo_now dated_def MAX_SAFE_INTEGER_def\<close>)
  obtain r b' ar' where s: "?s = (r, b', ar')" using prod_cases3 by blast
  have "case ?s of (r, b', ar') \<Rightarrow> events b' = [] \<and> length (ar_buckets ar') = 1" by code_simp
  then have b': "events b' = []" "length (ar_buckets ar') \<le> ATTACH_CEILING" by (simp_all add: s ATTACH_CEILING_def)
  have h: "held_ids Retain (owedPairsWithCap (es_bus demo_state1) 300000000 30) = []" by code_simp
  have w: "?st (demo_state1, no_archive, 0, []) (demo_state1\<lparr>es_bus := b'\<rparr>, ar', 0, [])"
    by (rule tier_step.sweeps [OF s demo_sweep2_policy(1) _ demo_sweep2_policy(2) h demo_between]) (simp_all add: demo_sweep2_def)
  have r0: "reading (Fin 259200000) None 0 (demo_state, no_archive, 0, [])"
    using emp demo_state_ok by (simp add: reading_def merged_stored demo_state_def empty_bus_def)
  from tier_step_reading [OF e _ r0] have "reading (Fin 259200000) None 0 (demo_state1, no_archive, 0, [])" by simp
  note r1 = readingD [OF this]
  from runSweepV2_tiered [OF r1(1) s demo_sweep2_policy(1) _ demo_sweep2_policy(2) h demo_between] have
    t: "tiered (Fin 259200000) b' ar'" "stored b' ar' = stored (es_bus demo_state1) no_archive"
    and op: "b' = es_bus demo_state1 \<or> (\<exists>k\<in>set (ar_buckets ar'). open_bucket k \<and> bk_events k \<noteq> [])"
    by (auto simp: demo_sweep2_def)
  have ev: "map ev_id (events (es_bus demo_state1)) = [1]" by code_simp
  then have one: "ev_id ` set (events (es_bus demo_state1)) = {1}" unfolding list.set_map [symmetric] by simp
  have all: "stored b' ar' = set (events (es_bus demo_state1))"
    unfolding t(2) by (simp add: stored_def no_archive_def warm_rows_def)
  have "\<forall>e\<in>set (events (es_bus demo_state1)). matching 0 None e"
  proof
    fix e assume "e \<in> set (events (es_bus demo_state1))"
    then have "ev_id e \<in> {1}" unfolding one [symmetric] by (rule imageI)
    then show "matching 0 None e" by (simp add: matching_def whereClause_def)
  qed
  then have "{e \<in> set (events (es_bus demo_state1)). matching 0 None e} = set (events (es_bus demo_state1))" by blast
  then have "merged_ids b' ar' None 0 = {1}" unfolding merged_stored all using one by simp
  moreover have "b' \<noteq> es_bus demo_state1" using ev b'(1) by auto
  ultimately obtain rs where rs: "pollResolve b' ar' (jint 0) None (Some 1) = Inr rs" "map ev_id rs = [1]"
    using resolver_answers [OF t(1) b'(2), of 0 1 None] op by (auto simp: MAX_SAFE_INTEGER_def)
  have "?st (demo_state1\<lparr>es_bus := b'\<rparr>, ar', 0, []) (demo_state1\<lparr>es_bus := b'\<rparr>, ar', last (0 # map ev_id rs), [] @ rs)"
    by (rule tier_step.reads) (use rs(1) b'(2) in simp_all)
  with e w rs(2) have run: "?st\<^sup>*\<^sup>* (demo_state, no_archive, 0, []) (demo_state1\<lparr>es_bus := b'\<rparr>, ar', 1, rs)" by simp
  have "map ev_id rs = sorted_list_of_set {i \<in> merged_ids b' ar' None 0. i \<le> 1}"
    using reader_misses_nothing [OF run _ emp(2) demo_state_ok] emp(1) by (simp add: demo_state_def empty_bus_def)
  with rs(2) b'(1) run show ?thesis by (intro exI [of _ "demo_state1\<lparr>es_bus := b'\<rparr>"] exI [of _ ar'] exI [of _ rs]) simp
qed

end
