(* ===== verification/BusTimers.thy ===== *)
theory BusTimers
  imports BusSubscribe
begin

text \<open>
  The timers of \<open>subscribe()\<close> in \<open>lib/subscribe.js\<close>: the variables \<open>pollTimer\<close>, \<open>lagTimer\<close>, \<open>backoffTimer\<close>,
  \<open>cancelBackoff\<close>, \<open>loopActive\<close>, \<open>stopPromise\<close> and \<open>resolveStop\<close>, and the timers the runtime holds for them.
  \<open>BusSubscribe\<close> says where the loop stands and when an input is possible; here the code decides that
  from its variables; what \<open>tick\<close> does between two awaits is taken from there. Proved: timers and awaits let
  happen exactly what that machine can do, until a lag report throws, which ends the process; and
  \<open>stop()\<close> ends the loop within ten steps and leaves no timer behind.
\<close>

section \<open>The variables\<close>

text \<open>\<open>tm_armed\<close> are the timers of the runtime that have not fired and were not cleared; \<open>tm_resolved\<close> counts
  the resolutions of the promise of \<open>stop()\<close>; \<open>tm_down\<close>: an uncaught error has ended the process.\<close>

record timers =
  tm_poll :: "nat option"
  tm_lag :: "nat option"
  tm_backoff :: "nat option"
  tm_cancel :: bool
  tm_active :: bool
  tm_promise :: bool
  tm_resolver :: bool
  tm_resolved :: nat
  tm_armed :: "nat list"
  tm_next :: nat
  tm_down :: bool

definition set_timer :: "timers \<Rightarrow> timers" where
  "set_timer t = t\<lparr>tm_armed := tm_next t # tm_armed t, tm_next := tm_next t + 1\<rparr>"

definition clear_timer :: "nat option \<Rightarrow> timers \<Rightarrow> timers" where
  "clear_timer v t = (case v of Some k \<Rightarrow> t\<lparr>tm_armed := filter (\<lambda>x. x \<noteq> k) (tm_armed t)\<rparr> | None \<Rightarrow> t)"

definition clear_poll :: "timers \<Rightarrow> timers" where
  "clear_poll t = (clear_timer (tm_poll t) t)\<lparr>tm_poll := None\<rparr>"

definition clear_lag :: "timers \<Rightarrow> timers" where
  "clear_lag t = (clear_timer (tm_lag t) t)\<lparr>tm_lag := None\<rparr>"

definition finalizeStop :: "timers \<Rightarrow> timers" where
  "finalizeStop t = (let t1 = clear_lag (clear_poll t) in
     if tm_resolver t1 then t1\<lparr>tm_resolver := False, tm_resolved := tm_resolved t1 + 1\<rparr> else t1)"

text \<open>The start of the loop: the first tick is due, and the lag interval runs if it was asked for.\<close>

definition start_timers :: "bool \<Rightarrow> timers" where
  "start_timers on_lag = (let t = \<lparr>tm_poll = Some 0, tm_lag = None, tm_backoff = None, tm_cancel = False, tm_active = False,
       tm_promise = False, tm_resolver = False, tm_resolved = 0, tm_armed = [0], tm_next = 1, tm_down = False\<rparr>
     in if on_lag then (set_timer t)\<lparr>tm_lag := Some (tm_next t)\<rparr> else t)"

definition sleepCancelable :: "timers \<Rightarrow> timers" where
  "sleepCancelable t = (set_timer t)\<lparr>tm_backoff := Some (tm_next t), tm_cancel := True\<rparr>"

text \<open>\<open>cancelBackoff()\<close>.\<close>

definition cancel_backoff :: "timers \<Rightarrow> timers" where
  "cancel_backoff t = (clear_timer (tm_backoff t) t)\<lparr>tm_backoff := None, tm_cancel := False\<rparr>"

text \<open>The \<open>finally\<close> of \<open>tick\<close>.\<close>

definition tick_finally :: "agent \<Rightarrow> timers \<Rightarrow> timers" where
  "tick_finally a t = (let t1 = t\<lparr>tm_active := False\<rparr> in
     if \<not> ag_stopping a then (set_timer t1)\<lparr>tm_poll := Some (tm_next t1)\<rparr>
     else if tm_resolver t1 then finalizeStop t1 else t1)"

definition stop_timers :: "timers \<Rightarrow> timers" where
  "stop_timers t = (let t1 = t\<lparr>tm_promise := True, tm_resolver := True\<rparr>;
       t2 = (if tm_cancel t1 then cancel_backoff t1 else t1);
       t3 = clear_lag (clear_poll t2)
     in if \<not> tm_active t3 then finalizeStop t3 else t3)"

section \<open>Events\<close>

text \<open>
  What the runtime can hand to the loop: one of its timers, the outcome of what it awaits (an input of
  \<open>BusSubscribe\<close>), a call of \<open>stop()\<close>. Each is decided by the variables. The callback of the lag interval
  evaluates \<open>computeLag\<close> outside every \<open>try\<close>: when one of its statements throws (\<open>LagThrows\<close>), nothing
  catches it and the process ends.
\<close>

datatype event = PollFires | LagFires rat | LagThrows js_error | BackoffFires | Awaited input | Stop

datatype timed_action = Did action | OnLag lag | Uncaught js_error

definition is_armed :: "nat option \<Rightarrow> timers \<Rightarrow> bool" where
  "is_armed v t \<longleftrightarrow> (case v of Some k \<Rightarrow> k \<in> set (tm_armed t) | None \<Rightarrow> False)"

definition awaits_outcome :: "input \<Rightarrow> bool" where
  "awaits_outcome i = (case i of Run _ \<Rightarrow> True | Fault _ _ \<Rightarrow> True | Resolve \<Rightarrow> True | Reject _ \<Rightarrow> True
    | RejectBad \<Rightarrow> True | _ \<Rightarrow> False)"

text \<open>After a step of \<open>tick\<close>: it has ended, or it has begun to sleep.\<close>

definition after_step :: "agent \<Rightarrow> timers \<Rightarrow> timers" where
  "after_step a t = (case ag_pc a of
      Idle \<Rightarrow> tick_finally a t
    | Stopped \<Rightarrow> tick_finally a t
    | Backoff e n ms rest \<Rightarrow> sleepCancelable t
    | _ \<Rightarrow> t)"

definition poll_fires :: "agent \<times> timers \<Rightarrow> agent \<times> timers" where
  "poll_fires s = (let (a, t) = s; t1 = clear_timer (tm_poll t) t in
     if ag_stopping a \<or> tm_active t1 then (a, t1) else (goto Drain a, t1\<lparr>tm_active := True\<rparr>))"

text \<open>\<open>stop()\<close>: a second call returns the same promise.\<close>

definition stop_loop :: "agent \<times> timers \<Rightarrow> agent \<times> timers" where
  "stop_loop s = (let (a, t) = s in
     if tm_promise t then (a, t)
     else (let a1 = a\<lparr>ag_stopping := True\<rparr>;
               a2 = (if tm_cancel t then (case ag_pc a1 of
                       Backoff e n ms rest \<Rightarrow> goto (Bury e n (Some ''shutdown during backoff'') rest) a1 | _ \<Rightarrow> a1) else a1);
               a3 = (if \<not> tm_active t then goto Stopped a2 else a2)
           in (a3, stop_timers t)))"

definition timed_step :: "sub_config \<Rightarrow> event \<Rightarrow> (agent \<times> timers) \<times> bus \<Rightarrow> (((agent \<times> timers) \<times> bus) \<times> timed_action list) option" where
  "timed_step cfg x s = (let ((a, t), b) = s in
     if tm_down t then None else
     (case x of
        PollFires \<Rightarrow> if is_armed (tm_poll t) t then Some ((poll_fires (a, t), b), []) else None
      | LagFires now \<Rightarrow> if is_armed (tm_lag t) t then Some (((a, t), b), [OnLag (computeLag b (sb_cursor cfg) now)]) else None
      | LagThrows e \<Rightarrow> if is_armed (tm_lag t) t then Some (((a, t\<lparr>tm_down := True\<rparr>), b), [Uncaught e]) else None
      | BackoffFires \<Rightarrow>
          if is_armed (tm_backoff t) t
          then (case ag_pc a of
                  Backoff e n ms rest \<Rightarrow>
                    (case enter_call e n rest a of (a1, as) \<Rightarrow>
                       Some (((a1, (clear_timer (tm_backoff t) t)\<lparr>tm_backoff := None, tm_cancel := False\<rparr>), b), map Did as))
                | _ \<Rightarrow> None)
          else None
      | Awaited i \<Rightarrow>
          if awaits_outcome i
          then (case sub_step cfg i (a, b) of
                  Some ((a1, b1), as) \<Rightarrow> Some (((a1, after_step a1 t), b1), map Did as)
                | None \<Rightarrow> None)
          else None
      | Stop \<Rightarrow> Some ((stop_loop (a, t), b), [])))"

fun timed_run :: "sub_config \<Rightarrow> event list \<Rightarrow> (agent \<times> timers) \<times> bus \<Rightarrow> (((agent \<times> timers) \<times> bus) \<times> timed_action list) option" where
  "timed_run cfg [] s = Some (s, [])"
| "timed_run cfg (x # xs) s =
     (case timed_step cfg x s of
        None \<Rightarrow> None
      | Some (s1, as) \<Rightarrow> (case timed_run cfg xs s1 of None \<Rightarrow> None | Some (s2, as2) \<Rightarrow> Some (s2, as @ as2)))"

section \<open>The variables agree with the loop\<close>

definition sleeping :: "pc \<Rightarrow> bool" where
  "sleeping p \<longleftrightarrow> (case p of Backoff e n ms rest \<Rightarrow> True | _ \<Rightarrow> False)"

text \<open>The armed timers are exactly those the loop needs where it stands.\<close>

definition timers_ok :: "agent \<Rightarrow> timers \<Rightarrow> bool" where
  "timers_ok a t \<longleftrightarrow>
     (tm_active t \<longleftrightarrow> ag_pc a \<noteq> Idle \<and> ag_pc a \<noteq> Stopped) \<and> (tm_promise t \<longleftrightarrow> ag_stopping a) \<and>
     (ag_pc a = Idle \<longrightarrow> \<not> ag_stopping a) \<and> (ag_pc a = Stopped \<longrightarrow> ag_stopping a) \<and>
     (tm_resolver t \<longleftrightarrow> ag_stopping a \<and> ag_pc a \<noteq> Stopped) \<and> tm_resolved t = (if ag_pc a = Stopped then 1 else 0) \<and>
     (tm_cancel t \<longleftrightarrow> sleeping (ag_pc a)) \<and> (tm_backoff t \<noteq> None \<longleftrightarrow> sleeping (ag_pc a)) \<and>
     (ag_pc a = Idle \<longrightarrow> tm_poll t \<noteq> None) \<and> (ag_stopping a \<longrightarrow> tm_lag t = None) \<and>
     distinct (tm_armed t) \<and> (\<forall>k\<in>set (tm_armed t). k < tm_next t) \<and>
     set (tm_armed t) = (if ag_pc a = Idle then set_option (tm_poll t) else {}) \<union> set_option (tm_lag t) \<union> set_option (tm_backoff t) \<and>
     (\<forall>k. tm_poll t = Some k \<longrightarrow> k < tm_next t \<and> tm_lag t \<noteq> Some k \<and> tm_backoff t \<noteq> Some k) \<and>
     (\<forall>k. tm_lag t = Some k \<longrightarrow> tm_backoff t \<noteq> Some k)"

lemmas timer_defs = set_timer_def clear_timer_def clear_poll_def clear_lag_def finalizeStop_def sleepCancelable_def
  cancel_backoff_def tick_finally_def stop_timers_def

lemma start_timers_ok: "timers_ok fresh_agent (start_timers on_lag)"
  by (auto simp: timers_ok_def start_timers_def set_timer_def fresh_agent_def sleeping_def Let_def)

lemma timers_okD:
  assumes "timers_ok a t"
  shows "tm_active t \<longleftrightarrow> ag_pc a \<noteq> Idle \<and> ag_pc a \<noteq> Stopped" "tm_promise t \<longleftrightarrow> ag_stopping a"
    "ag_pc a = Idle \<Longrightarrow> \<not> ag_stopping a" "ag_pc a = Stopped \<Longrightarrow> ag_stopping a"
    "tm_resolver t \<longleftrightarrow> ag_stopping a \<and> ag_pc a \<noteq> Stopped" "tm_resolved t = (if ag_pc a = Stopped then 1 else 0)"
    "tm_cancel t \<longleftrightarrow> sleeping (ag_pc a)" "tm_backoff t \<noteq> None \<longleftrightarrow> sleeping (ag_pc a)"
    "ag_pc a = Idle \<Longrightarrow> tm_poll t \<noteq> None" "ag_stopping a \<Longrightarrow> tm_lag t = None"
    "distinct (tm_armed t)" "k \<in> set (tm_armed t) \<Longrightarrow> k < tm_next t"
    "set (tm_armed t) = (if ag_pc a = Idle then set_option (tm_poll t) else {}) \<union> set_option (tm_lag t) \<union> set_option (tm_backoff t)"
  using assms unfolding timers_ok_def by blast+

lemma sleeping_simps [simp]:
  "sleeping (Backoff e n ms rest)" "\<not> sleeping Idle" "\<not> sleeping Stopped" "\<not> sleeping Drain" "\<not> sleeping (Bury e n m rest)"
  "\<not> sleeping (Call e n rest)"
  by (simp_all add: sleeping_def)

lemma sleeping_cases:
  assumes "sleeping p"
  obtains e n ms rest where "p = Backoff e n ms rest"
  using assms by (cases p) (auto simp: sleeping_def)

text \<open>A tick that goes on, ends or begins to sleep.\<close>

lemma after_step_ok:
  assumes "timers_ok a t" and "ag_pc a \<noteq> Idle" and "ag_pc a \<noteq> Stopped" and "\<not> sleeping (ag_pc a)"
    and "ag_stopping a' = ag_stopping a" and "ag_pc a' = Idle \<Longrightarrow> \<not> ag_stopping a" and "ag_pc a' = Stopped \<Longrightarrow> ag_stopping a"
  shows "timers_ok a' (after_step a' t)"
proof -
  consider (idle) "ag_pc a' = Idle" | (stopped) "ag_pc a' = Stopped" | (sleeps) "sleeping (ag_pc a')"
    | (on) "ag_pc a' \<noteq> Idle" "ag_pc a' \<noteq> Stopped" "\<not> sleeping (ag_pc a')" by blast
  then show ?thesis
  proof cases
    case idle
    then show ?thesis using assms by (auto simp: after_step_def timers_ok_def timer_defs Let_def)
  next
    case stopped
    then show ?thesis using assms by (auto simp: after_step_def timers_ok_def timer_defs Let_def split: option.splits)
  next
    case sleeps
    then obtain e n ms rest where "ag_pc a' = Backoff e n ms rest" by (rule sleeping_cases)
    then show ?thesis using assms by (auto simp: after_step_def timers_ok_def timer_defs Let_def)
  next
    case on
    then have "after_step a' t = t" by (auto simp: after_step_def sleeping_def split: pc.splits)
    then show ?thesis using assms on by (auto simp: timers_ok_def)
  qed
qed

lemma goto_sel [simp]: "ag_pc (goto p a) = p" "ag_stopping (goto p a) = ag_stopping a"
  by (simp_all add: goto_def)

text \<open>Where an awaited outcome leaves the loop.\<close>

lemma end_tick_sel [simp]:
  "ag_stopping (end_tick a) = ag_stopping a" "ag_pc (end_tick a) = (if ag_stopping a then Stopped else Idle)"
  by (simp_all add: end_tick_def)

definition lands :: "agent \<Rightarrow> agent \<Rightarrow> bool" where
  "lands a a' \<longleftrightarrow> ag_stopping a' = ag_stopping a \<and> (ag_pc a' = Idle \<longrightarrow> \<not> ag_stopping a) \<and> (ag_pc a' = Stopped \<longrightarrow> ag_stopping a)"

lemma lands_simps [simp]:
  "lands a (end_tick a)" "lands a (goto p a) \<longleftrightarrow> (p = Idle \<longrightarrow> \<not> ag_stopping a) \<and> (p = Stopped \<longrightarrow> ag_stopping a)"
  by (simp_all add: lands_def)

lemma lands_ends:
  "lands a (fst (tick_catch cfg e a))" "lands a (next_event rest a)" "lands a (fst (fail_event cfg ev n err m rest a))"
  "lands a (fst (run_poll cfg a b))" "lands a (fst (enter_call ev n rest a))" "lands a (ends_drain a)"
  by (auto simp: tick_catch_def next_event_def fail_event_def run_poll_def enter_call_def ends_drain_def lands_def Let_def
      goto_def end_tick_def split: option.splits list.splits sum.splits prod.splits if_splits)

lemma keeping_eq: "keeping b x = ((a', b'), as) \<longleftrightarrow> a' = fst x \<and> b' = b \<and> as = snd x"
  by (auto simp: keeping_def)

lemma db_step_lands: "db_step cfg t p a b = Some ((a', b'), as) \<Longrightarrow> lands a a' \<and> p \<noteq> Idle \<and> p \<noteq> Stopped \<and> \<not> sleeping p"
  by (cases p) (auto simp: sleeping_def keeping_eq lands_ends ack_handled_def split: option.splits prod.splits sum.splits)

lemma db_fault_lands: "db_fault cfg err msg p a = Some (a', as) \<Longrightarrow> lands a a' \<and> p \<noteq> Idle \<and> p \<noteq> Stopped \<and> \<not> sleeping p"
  using lands_ends(1) [of a cfg err] lands_ends(3) [of a cfg]
  by (cases p) (auto simp: sleeping_def fail_event_def split: prod.splits)

lemma awaited_lands:
  assumes "sub_step cfg i (a, b) = Some ((a', b'), as)" and "awaits_outcome i"
  shows "lands a a' \<and> ag_pc a \<noteq> Idle \<and> ag_pc a \<noteq> Stopped \<and> \<not> sleeping (ag_pc a)"
proof (cases i)
  case (Run t)
  with assms(1) show ?thesis using db_step_lands by (simp add: sub_step_def)
next
  case (Fault err msg)
  with assms(1) obtain x where "db_fault cfg err msg (ag_pc a) a = Some x" "keeping b x = ((a', b'), as)"
    by (auto simp: sub_step_def)
  then show ?thesis using db_fault_lands [of cfg err msg "ag_pc a" a "fst x" "snd x"] by (simp add: keeping_eq)
next
  case Resolve
  with assms(1) show ?thesis by (cases "ag_pc a") (auto simp: sub_step_def sleeping_def)
next
  case (Reject msg)
  with assms(1) show ?thesis by (cases "ag_pc a") (auto simp: sub_step_def sleeping_def keeping_eq lands_ends)
next
  case RejectBad
  with assms(1) show ?thesis by (cases "ag_pc a") (auto simp: sub_step_def sleeping_def keeping_eq)
qed (use assms(2) in \<open>simp_all add: awaits_outcome_def\<close>)

section \<open>The two machines\<close>

text \<open>The input of \<open>BusSubscribe\<close> that an event is; a lag report and a repeated \<open>stop()\<close> are none.\<close>

definition input_of :: "agent \<Rightarrow> event \<Rightarrow> input option" where
  "input_of a x = (case x of PollFires \<Rightarrow> Some Timer | BackoffFires \<Rightarrow> Some Slept | LagFires now \<Rightarrow> None
     | LagThrows e \<Rightarrow> None
     | Awaited i \<Rightarrow> Some i | Stop \<Rightarrow> if ag_stopping a then None else Some StopCall)"

lemma poll_fires_step:
  assumes "timers_ok a t" and "is_armed (tm_poll t) t"
  shows "ag_pc a = Idle \<and> \<not> ag_stopping a \<and> poll_fires (a, t) = (goto Drain a, snd (poll_fires (a, t))) \<and>
    timers_ok (goto Drain a) (snd (poll_fires (a, t)))"
proof -
  obtain k where k: "tm_poll t = Some k" "k \<in> set (tm_armed t)"
    using assms(2) by (auto simp: is_armed_def split: option.splits)
  have "ag_pc a = Idle"
  proof (rule ccontr)
    assume "ag_pc a \<noteq> Idle"
    then have "k \<in> set_option (tm_lag t) \<union> set_option (tm_backoff t)" using timers_okD(13) [OF assms(1)] k(2) by simp
    then show False using assms(1) k(1) by (auto simp: timers_ok_def)
  qed
  then show ?thesis using assms(1) k by (auto simp: poll_fires_def clear_timer_def timers_ok_def Let_def)
qed

lemma backoff_fires_ok:
  assumes "timers_ok a t" and "ag_pc a = Backoff e n ms rest" and "enter_call e n rest a = (a1, as)"
  shows "timers_ok a1 ((clear_timer (tm_backoff t) t)\<lparr>tm_backoff := None, tm_cancel := False\<rparr>)"
proof -
  obtain k where k: "tm_backoff t = Some k" using timers_okD(8) [OF assms(1)] assms(2) by auto
  have "ag_stopping a1 = ag_stopping a" "ag_pc a1 \<noteq> Idle" "ag_pc a1 \<noteq> Stopped" "\<not> sleeping (ag_pc a1)"
    using assms(3) by (auto simp: enter_call_def split: if_splits)
  then show ?thesis using assms(1,2) k by (auto simp: clear_timer_def timers_ok_def)
qed

lemma clear_timer_sel [simp]:
  "tm_armed (clear_timer v t) = filter (\<lambda>k. v \<noteq> Some k) (tm_armed t)" "tm_next (clear_timer v t) = tm_next t"
  "tm_poll (clear_timer v t) = tm_poll t" "tm_lag (clear_timer v t) = tm_lag t" "tm_backoff (clear_timer v t) = tm_backoff t"
  "tm_cancel (clear_timer v t) = tm_cancel t" "tm_active (clear_timer v t) = tm_active t" "tm_promise (clear_timer v t) = tm_promise t"
  "tm_resolver (clear_timer v t) = tm_resolver t" "tm_resolved (clear_timer v t) = tm_resolved t"
  by (auto simp: clear_timer_def split: option.split intro: filter_cong)

lemma stop_timers_sel:
  "tm_armed (stop_timers t) = filter (\<lambda>k. tm_poll t \<noteq> Some k \<and> tm_lag t \<noteq> Some k \<and> (tm_cancel t \<longrightarrow> tm_backoff t \<noteq> Some k)) (tm_armed t)"
  "tm_poll (stop_timers t) = None" "tm_lag (stop_timers t) = None"
  "tm_backoff (stop_timers t) = (if tm_cancel t then None else tm_backoff t)" "\<not> tm_cancel (stop_timers t)"
  "tm_active (stop_timers t) = tm_active t" "tm_promise (stop_timers t)" "tm_resolver (stop_timers t) = tm_active t"
  "tm_resolved (stop_timers t) = (if tm_active t then tm_resolved t else tm_resolved t + 1)" "tm_next (stop_timers t) = tm_next t"
  by (auto simp: stop_timers_def cancel_backoff_def clear_poll_def clear_lag_def finalizeStop_def Let_def intro: filter_cong)

text \<open>What \<open>stop()\<close> does by its variables is the \<open>StopCall\<close> of \<open>BusSubscribe\<close>.\<close>

lemma stop_loop_step:
  assumes "timers_ok a t"
  shows "ag_stopping a \<Longrightarrow> stop_loop (a, t) = (a, t)"
    and "\<not> ag_stopping a \<Longrightarrow> stop_loop (a, t) = (stop_call a, stop_timers t) \<and> timers_ok (stop_call a) (stop_timers t)"
proof -
  show "ag_stopping a \<Longrightarrow> stop_loop (a, t) = (a, t)" using timers_okD(2) [OF assms] by (simp add: stop_loop_def)
  assume ns: "\<not> ag_stopping a"
  then have st: "ag_pc a \<noteq> Stopped" using timers_okD(4) [OF assms] by blast
  note d = timers_okD(1,2,7,8) [OF assms]
  have eq: "stop_loop (a, t) = (stop_call a, stop_timers t)"
    using d ns st by (cases "ag_pc a") (simp_all add: stop_loop_def stop_call_def Let_def sleeping_def goto_def)
  have pc: "ag_pc (stop_call a) = (case ag_pc a of Idle \<Rightarrow> Stopped
      | Backoff e n ms rest \<Rightarrow> Bury e n (Some ''shutdown during backoff'') rest | p \<Rightarrow> p)" "ag_stopping (stop_call a)"
    by (cases "ag_pc a"; simp add: stop_call_def Let_def goto_def)+
  then have "ag_pc (stop_call a) \<noteq> Idle \<and> (ag_pc (stop_call a) = Stopped \<longleftrightarrow> ag_pc a = Idle) \<and> \<not> sleeping (ag_pc (stop_call a))"
    using st by (cases "ag_pc a") (simp_all add: sleeping_def)
  then have p: "ag_pc (stop_call a) \<noteq> Idle" "ag_pc (stop_call a) = Stopped \<longleftrightarrow> ag_pc a = Idle"
      "\<not> sleeping (ag_pc (stop_call a))" by blast+
  have bo: "tm_backoff (stop_timers t) = None" using d(3,4) by (cases "tm_backoff t") (simp_all add: stop_timers_sel)
  have ar: "tm_armed (stop_timers t) = []"
    using timers_okD(13) [OF assms] d(3,4) by (auto simp: stop_timers_sel filter_empty_conv split: if_splits)
  have "tm_active t \<longleftrightarrow> ag_pc a \<noteq> Idle" "tm_resolved t = 0" using d(1) st timers_okD(6) [OF assms] by simp_all
  then have "timers_ok (stop_call a) (stop_timers t)"
    using p bo ar pc(2) by (simp add: timers_ok_def stop_timers_sel)
  with eq show "stop_loop (a, t) = (stop_call a, stop_timers t) \<and> timers_ok (stop_call a) (stop_timers t)" by blast
qed
text \<open>The actions of a run that are not lag reports.\<close>

fun dids :: "timed_action list \<Rightarrow> action list" where
  "dids [] = []"
| "dids (Did x # as) = x # dids as"
| "dids (OnLag l # as) = dids as"
| "dids (Uncaught e # as) = dids as"

lemma dids_append [simp]: "dids (xs @ ys) = dids xs @ dids ys"
  by (induction xs rule: dids.induct) simp_all

lemma dids_map [simp]: "dids (map Did bs) = bs"
  by (induction bs) simp_all

text \<open>What no step but a throwing lag report does, and where that comes from.\<close>

lemma down_sel [simp]:
  "tm_down (set_timer t) = tm_down t" "tm_down (clear_timer v t) = tm_down t" "tm_down (clear_poll t) = tm_down t"
  "tm_down (clear_lag t) = tm_down t" "tm_down (finalizeStop t) = tm_down t" "tm_down (sleepCancelable t) = tm_down t"
  "tm_down (cancel_backoff t) = tm_down t" "tm_down (tick_finally a t) = tm_down t" "tm_down (stop_timers t) = tm_down t"
  "tm_down (after_step a t) = tm_down t"
  by (simp_all add: timer_defs after_step_def Let_def split: option.split pc.split)

lemma lag_sel [simp]:
  "tm_lag (set_timer t) = tm_lag t" "tm_lag (clear_poll t) = tm_lag t" "tm_lag (clear_lag t) = None" "tm_lag (finalizeStop t) = None"
  "tm_lag (sleepCancelable t) = tm_lag t" "tm_lag (tick_finally a t) = (if ag_stopping a \<and> tm_resolver t then None else tm_lag t)"
  by (simp_all add: timer_defs Let_def split: option.split)

lemma timed_step_down:
  assumes "timed_step cfg x ((a, t), b) = Some (((a', t'), b'), as)"
  shows "\<not> tm_down t \<and> (tm_down t' \<longleftrightarrow> (\<exists>e. x = LagThrows e)) \<and> (tm_lag t = None \<longrightarrow> tm_lag t' = None) \<and>
    ((\<exists>e. x = LagThrows e) \<longrightarrow> is_armed (tm_lag t) t \<and> a' = a)"
proof -
  have nd: "\<not> tm_down t" using assms by (auto simp: timed_step_def split: if_splits)
  have lag: "tm_lag t = None \<Longrightarrow> tm_lag (after_step a t) = None" for a t
    by (simp add: after_step_def split: pc.split)
  show ?thesis
  proof (cases x)
    case PollFires
    with assms nd show ?thesis by (auto simp: timed_step_def poll_fires_def Let_def split: if_splits)
  next
    case (LagFires now)
    with assms nd show ?thesis by (auto simp: timed_step_def split: if_splits)
  next
    case (LagThrows e)
    with assms nd show ?thesis by (auto simp: timed_step_def is_armed_def split: if_splits)
  next
    case BackoffFires
    with assms nd show ?thesis by (auto simp: timed_step_def split: if_splits pc.splits prod.splits)
  next
    case (Awaited i)
    with assms nd lag show ?thesis by (auto simp: timed_step_def split: if_splits option.splits)
  next
    case Stop
    with assms nd show ?thesis by (auto simp: timed_step_def stop_loop_def stop_timers_sel Let_def split: if_splits)
  qed
qed

text \<open>One event is one input of \<open>BusSubscribe\<close>, or leaves loop and database alone.\<close>

lemma timed_step_input:
  assumes "timers_ok a t" and "timed_step cfg x ((a, t), b) = Some (((a', t'), b'), as)"
  shows "timers_ok a' t' \<and> (case input_of a x of
      Some i \<Rightarrow> \<exists>bs. sub_step cfg i (a, b) = Some ((a', b'), bs) \<and> as = map Did bs
    | None \<Rightarrow> a' = a \<and> b' = b \<and> dids as = [])"
proof (cases x)
  case PollFires
  with assms(2) have "is_armed (tm_poll t) t" "poll_fires (a, t) = (a', t')" "b' = b" "as = []"
    by (simp_all add: timed_step_def split: if_splits)
  with poll_fires_step [OF assms(1)] PollFires show ?thesis by (auto simp: input_of_def sub_step_def)
next
  case (LagFires now)
  with assms show ?thesis by (auto simp: timed_step_def input_of_def split: if_splits)
next
  case (LagThrows e)
  with assms show ?thesis by (auto simp: timed_step_def input_of_def timers_ok_def split: if_splits)
next
  case BackoffFires
  with assms(2) obtain e n ms rest where p: "ag_pc a = Backoff e n ms rest"
    by (auto simp: timed_step_def split: if_splits pc.splits)
  obtain a1 bs where e: "enter_call e n rest a = (a1, bs)" by fastforce
  have "a' = a1" "t' = (clear_timer (tm_backoff t) t)\<lparr>tm_backoff := None, tm_cancel := False\<rparr>" "b' = b" "as = map Did bs"
    using assms(2) by (simp_all add: timed_step_def BackoffFires p e split: if_splits)
  with backoff_fires_ok [OF assms(1) p e] e p show ?thesis by (simp add: BackoffFires input_of_def sub_step_def keeping_def)
next
  case (Awaited i)
  with assms(2) obtain bs where s: "awaits_outcome i" "sub_step cfg i (a, b) = Some ((a', b'), bs)" "t' = after_step a' t" "as = map Did bs"
    by (auto simp: timed_step_def split: if_splits option.splits)
  have l: "lands a a' \<and> ag_pc a \<noteq> Idle \<and> ag_pc a \<noteq> Stopped \<and> \<not> sleeping (ag_pc a)" by (rule awaited_lands [OF s(2,1)])
  then have "timers_ok a' (after_step a' t)" using after_step_ok [OF assms(1)] unfolding lands_def by blast
  with s show ?thesis by (simp add: Awaited input_of_def)
next
  case Stop
  with assms(2) have s: "stop_loop (a, t) = (a', t')" "b' = b" "as = []" by (simp_all add: timed_step_def split: if_splits)
  show ?thesis
  proof (cases "ag_stopping a")
    case True
    with stop_loop_step(1) [OF assms(1)] s assms(1) show ?thesis by (simp add: Stop input_of_def)
  next
    case False
    with stop_loop_step(2) [OF assms(1)] s show ?thesis by (simp add: Stop input_of_def sub_step_def)
  qed
qed

lemma sub_step_event:
  assumes "timers_ok a t" and "sub_step cfg i (a, b) = Some ((a', b'), bs)" and "\<not> tm_down t"
  shows "\<exists>x t'. input_of a x = Some i \<and> timed_step cfg x ((a, t), b) = Some (((a', t'), b'), map Did bs) \<and> \<not> tm_down t'"
proof -
  note nd = assms(3)
  have "\<exists>x r. input_of a x = Some i \<and> timed_step cfg x ((a, t), b) = Some r"
  proof (cases i)
    case Timer
    with assms(2) have p: "ag_pc a = Idle" by (auto simp: sub_step_def split: if_splits)
    then obtain k where "tm_poll t = Some k" "k \<in> set (tm_armed t)"
      using timers_okD(9,13) [OF assms(1)] by auto
    then show ?thesis by (intro exI [of _ PollFires]) (simp add: Timer input_of_def timed_step_def is_armed_def nd)
  next
    case Slept
    with assms(2) obtain e n ms rest where p: "ag_pc a = Backoff e n ms rest"
      by (cases "ag_pc a") (auto simp: sub_step_def)
    then obtain k where "tm_backoff t = Some k" "k \<in> set (tm_armed t)"
      using timers_okD(8,13) [OF assms(1)] by auto
    then show ?thesis
      by (intro exI [of _ BackoffFires]) (simp add: Slept p input_of_def timed_step_def is_armed_def nd split: prod.split)
  next
    case StopCall
    with assms(2) show ?thesis
      by (intro exI [of _ Stop]) (auto simp: input_of_def timed_step_def sub_step_def nd split: if_splits)
  qed (use assms(2) in \<open>intro exI [of _ "Awaited i"]; simp add: input_of_def timed_step_def awaits_outcome_def nd\<close>)+
  then obtain x r where x: "input_of a x = Some i" "timed_step cfg x ((a, t), b) = Some r" by blast
  obtain a2 t2 b2 as where r: "r = (((a2, t2), b2), as)" by (metis surj_pair)
  have "\<not> tm_down t2" using timed_step_down [OF x(2) [unfolded r]] x(1) by (auto simp: input_of_def)
  with timed_step_input [OF assms(1) x(2) [unfolded r]] x assms(2) r show ?thesis by auto
qed

lemma timed_run_inputs:
  assumes "timers_ok a t" and "timed_run cfg xs ((a, t), b) = Some (((a', t'), b'), as)"
  shows "timers_ok a' t' \<and> (\<exists>is. sub_run cfg is (a, b) = Some ((a', b'), dids as))"
  using assms
proof (induction xs arbitrary: a t b as)
  case Nil
  then show ?case by (auto intro: exI [of _ "[]"])
next
  case (Cons x xs)
  from Cons.prems(2) obtain a1 t1 b1 as1 as2 where
    s: "timed_step cfg x ((a, t), b) = Some (((a1, t1), b1), as1)" and
    r: "timed_run cfg xs ((a1, t1), b1) = Some (((a', t'), b'), as2)" and as: "as = as1 @ as2"
    by (auto split: option.splits)
  note st = timed_step_input [OF Cons.prems(1) s]
  then obtain "is" where i: "timers_ok a' t'" "sub_run cfg is (a1, b1) = Some ((a', b'), dids as2)"
    using Cons.IH [OF _ r] by blast
  show ?case
  proof (cases "input_of a x")
    case None
    with st have "a1 = a" "b1 = b" "dids as1 = []" by simp_all
    with i as show ?thesis by auto
  next
    case (Some j)
    with st obtain bs where "sub_step cfg j (a, b) = Some ((a1, b1), bs)" "as1 = map Did bs" by auto
    with i as have "sub_run cfg (j # is) (a, b) = Some ((a', b'), dids as)" by simp
    with i(1) show ?thesis by blast
  qed
qed

lemma sub_run_events:
  assumes "timers_ok a t" and "sub_run cfg is (a, b) = Some ((a', b'), bs)" and "\<not> tm_down t"
  shows "\<exists>xs t' as. timed_run cfg xs ((a, t), b) = Some (((a', t'), b'), as) \<and> dids as = bs"
  using assms
proof (induction "is" arbitrary: a t b bs)
  case Nil
  then show ?case by (auto intro: exI [of _ "[]"])
next
  case (Cons i "is")
  from Cons.prems(2) obtain a1 b1 as1 as2 where
    s: "sub_step cfg i (a, b) = Some ((a1, b1), as1)" and
    r: "sub_run cfg is (a1, b1) = Some ((a', b'), as2)" and bs: "bs = as1 @ as2"
    by (auto split: option.splits)
  obtain x t1 where x: "timed_step cfg x ((a, t), b) = Some (((a1, t1), b1), map Did as1)" "\<not> tm_down t1"
    using sub_step_event [OF Cons.prems(1) s Cons.prems(3)] by blast
  have "timers_ok a1 t1" using timed_step_input [OF Cons.prems(1) x(1)] by blast
  from Cons.IH [OF this r x(2)] obtain xs t' as where y: "timed_run cfg xs ((a1, t1), b1) = Some (((a', t'), b'), as)" "dids as = as2"
    by blast
  with x(1) bs have "timed_run cfg (x # xs) ((a, t), b) = Some (((a', t'), b'), map Did as1 @ as) \<and> dids (map Did as1 @ as) = bs" by simp
  then show ?case by blast
qed

section \<open>The loop by its variables\<close>

text \<open>A run from the start ends at a lag report that throws.\<close>

lemma timed_run_down:
  assumes "timers_ok a t" and "timed_run cfg xs ((a, t), b) = Some (((a', t'), b'), as)" and "tm_lag t \<noteq> None \<longrightarrow> on_lag"
    and "\<not> tm_down t"
  shows "(tm_down t' \<longleftrightarrow> (\<exists>e. LagThrows e \<in> set xs)) \<and>
    (tm_down t' \<longrightarrow> on_lag \<and> \<not> ag_stopping a' \<and> (\<exists>ys e. xs = ys @ [LagThrows e]))"
  using assms
proof (induction xs arbitrary: a t b as)
  case (Cons x xs)
  from Cons.prems(2) obtain a1 t1 b1 as1 as2 where
    s: "timed_step cfg x ((a, t), b) = Some (((a1, t1), b1), as1)" and
    r: "timed_run cfg xs ((a1, t1), b1) = Some (((a', t'), b'), as2)" by (auto split: option.splits)
  note dn = timed_step_down [OF s]
  have ok: "timers_ok a1 t1" using timed_step_input [OF Cons.prems(1) s] by blast
  show ?case
  proof (cases "tm_down t1")
    case True
    then have "timed_run cfg xs ((a1, t1), b1) = (if xs = [] then Some (((a1, t1), b1), []) else None)"
      by (cases xs) (simp_all add: timed_step_def)
    with r have nil: "xs = []" "t' = t1" "a' = a1" by (auto split: if_splits)
    from True dn obtain e where e: "x = LagThrows e" "is_armed (tm_lag t) t" "a1 = a" by blast
    then have "tm_lag t \<noteq> None" by (auto simp: is_armed_def split: option.splits)
    then have "on_lag" "\<not> ag_stopping a" using Cons.prems(3) timers_okD(10) [OF Cons.prems(1)] by auto
    with nil e True show ?thesis by auto
  next
    case False
    with dn have nx: "\<nexists>e. x = LagThrows e" by blast
    have "tm_lag t1 \<noteq> None \<longrightarrow> on_lag" using dn Cons.prems(3) by (cases "tm_lag t") simp_all
    from Cons.IH [OF ok r this False] nx show ?thesis by auto
  qed
qed simp

text \<open>C23: The timer variables of \<open>subscribe()\<close> decide when its loop goes on: which of its timers are armed, what it
  awaits, whether \<open>stop()\<close> was called. With the steps of \<open>tick\<close> between two awaits taken from the machine of
  \<open>BusSubscribe\<close>, what the loop can do under them, to the database and to its callbacks, is exactly what that
  machine can do, so that its theorems hold under the timers; lag reports take part in no other way than this: a
  report whose query throws ends the process, from then on nothing happens any more, and that is possible only
  with \<open>onLag\<close> given and before \<open>stop()\<close>.\<close>

theorem timers_drive_the_loop:
  "((\<exists>xs t' as. timed_run cfg xs ((fresh_agent, start_timers on_lag), b) = Some (((a', t'), b'), as) \<and> dids as = bs) \<longleftrightarrow>
    (\<exists>is. sub_run cfg is (fresh_agent, b) = Some ((a', b'), bs))) \<and>
   (\<forall>xs t' as. timed_run cfg xs ((fresh_agent, start_timers on_lag), b) = Some (((a', t'), b'), as) \<longrightarrow>
      (tm_down t' \<longleftrightarrow> (\<exists>e. LagThrows e \<in> set xs)) \<and>
      (tm_down t' \<longrightarrow> on_lag \<and> \<not> ag_stopping a' \<and> (\<exists>ys e. xs = ys @ [LagThrows e]) \<and>
         (\<forall>x. timed_step cfg x ((a', t'), b') = None)))"
proof -
  have nd: "\<not> tm_down (start_timers on_lag)" by (simp add: start_timers_def set_timer_def Let_def)
  have lag: "tm_lag (start_timers on_lag) \<noteq> None \<longrightarrow> on_lag" by (simp add: start_timers_def Let_def)
  have dead: "tm_down t' \<Longrightarrow> timed_step cfg x ((a', t'), b') = None" for x t' by (simp add: timed_step_def)
  have iff: "(\<exists>xs t' as. timed_run cfg xs ((fresh_agent, start_timers on_lag), b) = Some (((a', t'), b'), as) \<and> dids as = bs) \<longleftrightarrow>
      (\<exists>is. sub_run cfg is (fresh_agent, b) = Some ((a', b'), bs))"
    using timed_run_inputs [OF start_timers_ok] sub_run_events [OF start_timers_ok _ nd] by blast
  show ?thesis
    by (rule conjI [OF iff]) (intro allI impI, use timed_run_down [OF start_timers_ok _ lag nd] dead in blast)
qed

section \<open>The end of the loop\<close>

text \<open>How many steps \<open>tick\<close> can still take once \<open>stopping\<close> is set.\<close>

fun steps_left :: "pc \<Rightarrow> nat" where
  "steps_left Idle = 0"
| "steps_left Stopped = 0"
| "steps_left (Reanchor e m) = 1"
| "steps_left (ReplayFailed i msg) = 2"
| "steps_left Poll = 2"
| "steps_left (BuryAck e n msg rest) = 2"
| "steps_left (ReplayDone i) = 3"
| "steps_left (BuryClear e n msg rest) = 3"
| "steps_left (Replaying d) = 4"
| "steps_left (Bury e n msg rest) = 4"
| "steps_left Drain = 5"
| "steps_left (Backoff e n ms rest) = 5"
| "steps_left (Retry e n msg rest) = 6"
| "steps_left (AckIt e n rest) = 7"
| "steps_left (Clear e n rest) = 8"
| "steps_left (Call e n rest) = 9"
| "steps_left (Begin e rest) = 10"

lemma steps_left_bound: "steps_left p \<le> 10"
  by (cases p) simp_all

text \<open>A retry has been attempted at least once, so that it is not attempted again after \<open>stop()\<close>.\<close>

definition counted :: "pc \<Rightarrow> bool" where
  "counted p \<longleftrightarrow> (case p of Retry e n msg rest \<Rightarrow> 0 < n | Backoff e n ms rest \<Rightarrow> 0 < n | _ \<Rightarrow> True)"

lemma counted_simps [simp]:
  "counted Idle" "counted Drain" "counted Stopped" "counted Poll" "counted (Begin e rest)" "counted (Call e n rest)"
  "counted (Clear e n rest)" "counted (AckIt e n rest)" "counted (Bury e n msg rest)" "counted (BuryClear e n msg rest)"
  "counted (BuryAck e n msg rest)" "counted (Reanchor err m)" "counted (Replaying d)" "counted (ReplayDone i)"
  "counted (ReplayFailed i msg)" "counted (Retry e n msg rest) \<longleftrightarrow> 0 < n" "counted (Backoff e n ms rest) \<longleftrightarrow> 0 < n"
  by (simp_all add: counted_def)

lemma counted_ends:
  "counted (ag_pc (fst (tick_catch cfg e a)))" "counted (ag_pc (next_event rest a))"
  "counted (ag_pc (fst (fail_event cfg ev n err m rest a)))" "counted (ag_pc (fst (run_poll cfg a b)))"
  "counted (ag_pc (fst (enter_call ev n rest a)))" "counted (ag_pc (ends_drain a))"
  by (auto simp: tick_catch_def next_event_def fail_event_def run_poll_def enter_call_def ends_drain_def Let_def
      split: option.splits list.splits sum.splits)

lemma db_step_counted: "db_step cfg t p a b = Some ((a', b'), as) \<Longrightarrow> counted p \<Longrightarrow> counted (ag_pc a')"
  by (cases p) (auto simp: keeping_eq counted_ends ack_handled_def split: option.splits prod.splits sum.splits)

lemma db_fault_counted: "db_fault cfg err msg p a = Some (a', as) \<Longrightarrow> counted (ag_pc a')"
  using counted_ends(1) [of cfg err a] counted_ends(3) [of cfg]
  by (cases p) (auto simp: fail_event_def split: prod.splits)

lemma sub_step_counted:
  assumes "sub_step cfg i (a, b) = Some ((a', b'), as)" and "counted (ag_pc a)"
  shows "counted (ag_pc a')"
proof (cases i)
  case (Run t)
  with assms show ?thesis using db_step_counted by (simp add: sub_step_def)
next
  case (Fault err msg)
  with assms(1) obtain x where "db_fault cfg err msg (ag_pc a) a = Some x" "keeping b x = ((a', b'), as)"
    by (auto simp: sub_step_def)
  then show ?thesis using db_fault_counted [of cfg err msg "ag_pc a" a "fst x" "snd x"] by (simp add: keeping_eq)
next
  case StopCall
  with assms show ?thesis by (cases "ag_pc a") (auto simp: sub_step_def stop_call_def Let_def split: if_splits)
qed (use assms in \<open>cases "ag_pc a"; auto simp: sub_step_def keeping_eq counted_ends split: if_splits\<close>)+

text \<open>The functions the steps end in, once \<open>stopping\<close> is set.\<close>

lemma stopping_ends:
  assumes "ag_stopping a"
  shows "steps_left (ag_pc (end_tick a)) = 0" "steps_left (ag_pc (fst (tick_catch cfg e a))) \<le> 1"
    "steps_left (ag_pc (next_event rest a)) = 0" "steps_left (ag_pc (fst (fail_event cfg ev n err m rest a))) \<le> 6"
    "steps_left (ag_pc (fst (run_poll cfg a b))) \<le> 1" "steps_left (ag_pc (ends_drain a)) = 0"
    "steps_left (ag_pc (fst (enter_call ev n rest a))) \<le> 9" "0 < n \<Longrightarrow> steps_left (ag_pc (fst (enter_call ev n rest a))) = 4"
  using assms by (auto simp: tick_catch_def next_event_def fail_event_def run_poll_def enter_call_def ends_drain_def Let_def
      split: option.splits list.splits sum.splits)

lemma db_step_left:
  assumes "db_step cfg t p a b = Some ((a', b'), as)" and "ag_stopping a"
  shows "steps_left (ag_pc a') < steps_left p"
  using assms(1) stopping_ends [OF assms(2)] 
  by (cases p) (fastforce simp: keeping_eq ack_handled_def less_Suc_eq_le assms(2) intro: le_less_trans
      split: option.splits prod.splits sum.splits)+

lemma db_fault_left:
  assumes "db_fault cfg err msg p a = Some (a', as)" and "ag_stopping a"
  shows "steps_left (ag_pc a') < steps_left p"
  using assms(1) stopping_ends(1) [OF assms(2)] stopping_ends(2) [OF assms(2), of cfg err]
  by (cases p) (auto simp: fail_event_def less_Suc_eq_le)
lemma sub_step_left:
  assumes "sub_step cfg i (a, b) = Some ((a', b'), as)" and "ag_stopping a" and "counted (ag_pc a)"
  shows "steps_left (ag_pc a') < steps_left (ag_pc a) \<and> ag_stopping a'"
proof -
  note e = stopping_ends [OF assms(2)]
  have l: "lands a a'" if "awaits_outcome i" using awaited_lands [OF assms(1) that] by blast
  show ?thesis
  proof (cases i)
    case (Run t)
    with l have "ag_stopping a'" using assms(2) by (simp add: awaits_outcome_def lands_def)
    with Run assms db_step_left [OF _ assms(2)] show ?thesis by (simp add: sub_step_def)
  next
    case (Fault err msg)
    with l have s: "ag_stopping a'" using assms(2) by (simp add: awaits_outcome_def lands_def)
    from Fault assms(1) obtain x where "db_fault cfg err msg (ag_pc a) a = Some x" "keeping b x = ((a', b'), as)"
      by (auto simp: sub_step_def)
    with s db_fault_left [of cfg err msg "ag_pc a" a "fst x" "snd x", OF _ assms(2)] show ?thesis by (simp add: keeping_eq)
  next
    case Slept
    with assms(1) obtain ev n ms rest where "ag_pc a = Backoff ev n ms rest" by (cases "ag_pc a") (auto simp: sub_step_def)
    with Slept assms e(8) [of n] show ?thesis by (auto simp: sub_step_def keeping_eq enter_call_def)
  next
    case (Reject msg)
    with l have s: "ag_stopping a'" using assms(2) by (simp add: awaits_outcome_def lands_def)
    with Reject assms(1) show ?thesis by (cases "ag_pc a") (auto simp: sub_step_def keeping_eq fail_event_def)
  next
    case RejectBad
    with l have s: "ag_stopping a'" using assms(2) by (simp add: awaits_outcome_def lands_def)
    with RejectBad assms show ?thesis by (cases "ag_pc a") (auto simp: sub_step_def keeping_eq)
  next
    case Resolve
    with assms show ?thesis by (cases "ag_pc a") (auto simp: sub_step_def)
  qed (use assms in \<open>simp_all add: sub_step_def\<close>)
qed

text \<open>Every place but \<open>Stopped\<close> and \<open>Idle\<close> has a next step.\<close>

lemma sub_step_enabled:
  assumes "ag_pc a \<noteq> Idle" and "ag_pc a \<noteq> Stopped"
  shows "\<exists>i r. i \<noteq> StopCall \<and> sub_step cfg i (a, b) = Some r"
proof (cases "ag_pc a")
  case (Call e n rest)
  then show ?thesis by (intro exI [of _ Resolve]) (simp add: sub_step_def)
next
  case (Replaying d)
  then show ?thesis by (intro exI [of _ Resolve]) (simp add: sub_step_def)
next
  case (Backoff e n ms rest)
  then show ?thesis by (intro exI [of _ Slept]) (simp add: sub_step_def)
qed (use assms in \<open>intro exI [of _ "Run 0"]; simp add: sub_step_def\<close>)+

lemma timed_step_left:
  assumes "timers_ok a t" and "counted (ag_pc a)" and "ag_stopping a"
    and "timed_step cfg x ((a, t), b) = Some (((a', t'), b'), as)" and "x \<noteq> Stop"
  shows "timers_ok a' t' \<and> counted (ag_pc a') \<and> ag_stopping a' \<and> steps_left (ag_pc a') < steps_left (ag_pc a) \<and> \<not> tm_down t'"
proof -
  note st = timed_step_input [OF assms(1,4)]
  have "\<not> is_armed (tm_lag t) t" using timers_okD(10) [OF assms(1,3)] by (simp add: is_armed_def)
  then obtain i where i: "input_of a x = Some i"
    using assms(4,5) by (cases x) (auto simp: input_of_def timed_step_def split: if_splits)
  with st obtain bs where s: "sub_step cfg i (a, b) = Some ((a', b'), bs)" by auto
  have "\<not> tm_down t'" using timed_step_down [OF assms(4)] i by (auto simp: input_of_def)
  then show ?thesis using st sub_step_left [OF s assms(3,2)] sub_step_counted [OF s assms(2)] by blast
qed

lemma timed_run_left:
  assumes "timers_ok a t" and "counted (ag_pc a)" and "ag_stopping a"
    and "timed_run cfg xs ((a, t), b) = Some (((a', t'), b'), as)" and "Stop \<notin> set xs" and "\<not> tm_down t"
  shows "timers_ok a' t' \<and> ag_stopping a' \<and> \<not> tm_down t' \<and> length xs + steps_left (ag_pc a') \<le> steps_left (ag_pc a)"
  using assms
proof (induction xs arbitrary: a t b as)
  case (Cons x xs)
  from Cons.prems(4) obtain a1 t1 b1 as1 as2 where
    s: "timed_step cfg x ((a, t), b) = Some (((a1, t1), b1), as1)" and
    r: "timed_run cfg xs ((a1, t1), b1) = Some (((a', t'), b'), as2)" by (auto split: option.splits)
  have "x \<noteq> Stop" "Stop \<notin> set xs" using Cons.prems(5) by auto
  from timed_step_left [OF Cons.prems(1-3) s this(1)] Cons.IH [OF _ _ _ r this(2)] show ?case by auto
qed simp

lemma timed_run_counted:
  assumes "timers_ok a t" and "counted (ag_pc a)" and "timed_run cfg xs ((a, t), b) = Some (((a', t'), b'), as)"
  shows "counted (ag_pc a')"
  using assms
proof (induction xs arbitrary: a t b as)
  case (Cons x xs)
  from Cons.prems(3) obtain a1 t1 b1 as1 as2 where
    s: "timed_step cfg x ((a, t), b) = Some (((a1, t1), b1), as1)" and
    r: "timed_run cfg xs ((a1, t1), b1) = Some (((a', t'), b'), as2)" by (auto split: option.splits)
  note st = timed_step_input [OF Cons.prems(1) s]
  then have "counted (ag_pc a1)" using sub_step_counted Cons.prems(2) by (cases "input_of a x") auto
  with st Cons.IH [OF _ _ r] show ?case by blast
qed simp

lemma timed_run_append:
  "timed_run cfg (xs @ ys) s = (case timed_run cfg xs s of
     None \<Rightarrow> None
   | Some (s1, as) \<Rightarrow> (case timed_run cfg ys s1 of None \<Rightarrow> None | Some (s2, as2) \<Rightarrow> Some (s2, as @ as2)))"
  by (induction xs arbitrary: s) (auto split: option.splits prod.splits)

text \<open>C24: \<open>stop()\<close> ends the loop. From wherever the loop stands when it is called (sleeping before a retry, inside a handler,
  between two statements), at most ten further steps happen, whatever fails in them; while the loop has not ended
  it has a next step; and when it has ended the promise of \<open>stop()\<close> has been resolved exactly once and no timer is
  left: not the poll timer, not the lag interval, not the backoff.\<close>

theorem stop_ends_the_loop:
  assumes "timed_run cfg xs ((fresh_agent, start_timers on_lag), b0) = Some (s, as0)"
    and "timed_run cfg (Stop # ys) s = Some (((a, t), b), as)" and "Stop \<notin> set ys"
  shows "length ys \<le> 10 \<and>
    (if ag_pc a = Stopped
     then tm_armed t = [] \<and> tm_resolved t = 1 \<and> (\<forall>x. x \<noteq> Stop \<longrightarrow> timed_step cfg x ((a, t), b) = None)
     else (\<exists>x r. x \<noteq> Stop \<and> timed_step cfg x ((a, t), b) = Some r))"
proof -
  obtain a0 t0 b1 where s: "s = ((a0, t0), b1)" by (metis surj_pair)
  have ok0: "timers_ok a0 t0" using timed_run_inputs [OF start_timers_ok] assms(1) s by blast
  have co0: "counted (ag_pc a0)"
    using timed_run_counted [OF start_timers_ok _ assms(1) [unfolded s]] by (simp add: fresh_agent_def)
  obtain a1 t1 as1 as2 where st: "timed_step cfg Stop ((a0, t0), b1) = Some (((a1, t1), b1), as1)"
    and r: "timed_run cfg ys ((a1, t1), b1) = Some (((a, t), b), as2)"
    using assms(2) s by (cases "stop_loop (a0, t0)") (auto simp: timed_step_def split: option.splits if_splits)
  have ok1: "timers_ok a1 t1" using timed_step_input [OF ok0 st] by blast
  have sc: "sub_step cfg i (a0, b1) = Some ((a1, b1), bs) \<Longrightarrow> counted (ag_pc a1)" for i bs
    using sub_step_counted co0 by blast
  have st1: "ag_stopping a1 \<and> counted (ag_pc a1)"
  proof (cases "ag_stopping a0")
    case True
    with timed_step_input [OF ok0 st] co0 show ?thesis by (simp add: input_of_def)
  next
    case False
    with timed_step_input [OF ok0 st] obtain bs where c: "sub_step cfg StopCall (a0, b1) = Some ((a1, b1), bs)"
      by (auto simp: input_of_def)
    with False have "a1 = stop_call a0" by (simp add: sub_step_def)
    then have "ag_stopping a1" by (cases "ag_pc a0") (simp_all add: stop_call_def Let_def)
    with sc [OF c] show ?thesis by blast
  qed
  have up: "\<not> tm_down t1" using timed_step_down [OF st] by blast
  note f = timed_run_left [OF ok1 _ _ r assms(3) up]
  have len: "length ys \<le> 10" using f st1 steps_left_bound [of "ag_pc a1"] by simp
  have ok: "timers_ok a t" "ag_stopping a" "\<not> tm_down t" using f st1 by blast+
  have goes: "\<exists>x r. x \<noteq> Stop \<and> timed_step cfg x ((a, t), b) = Some r" if "ag_pc a \<noteq> Stopped"
  proof -
    have "ag_pc a \<noteq> Idle" using timers_okD(3) [OF ok(1)] ok(2) by blast
    from sub_step_enabled [OF this that] obtain i r where i: "i \<noteq> StopCall" "sub_step cfg i (a, b) = Some r" by blast
    obtain a2 b2 bs where r: "r = ((a2, b2), bs)" by (metis surj_pair)
    from sub_step_event [OF ok(1) i(2) [unfolded r] ok(3)] obtain x t' where
      x: "input_of a x = Some i" "timed_step cfg x ((a, t), b) = Some (((a2, t'), b2), map Did bs)" by blast
    then have "x \<noteq> Stop" using ok(2) by (auto simp: input_of_def)
    with x(2) show ?thesis by blast
  qed
  have ends: "timed_step cfg x ((a, t), b) = None" if p: "ag_pc a = Stopped" and "x \<noteq> Stop" for x
  proof (rule ccontr)
    assume "timed_step cfg x ((a, t), b) \<noteq> None"
    then obtain r where n: "timed_step cfg x ((a, t), b) = Some r" by blast
    obtain a2 t2 b2 bs where r: "r = (((a2, t2), b2), bs)" by (metis surj_pair)
    have "counted (ag_pc a)" using p by simp
    from timed_step_left [OF ok(1) this ok(2) n [unfolded r] that(2)] p show False by simp
  qed
  have "tm_armed t = [] \<and> tm_resolved t = 1" if "ag_pc a = Stopped"
    using timers_okD(6,10,13) [OF ok(1)] timers_okD(8) [OF ok(1)] that ok(2) by (auto split: if_splits)
  with len goes ends show ?thesis by simp
qed
text \<open>A handler fails, and \<open>stop()\<close> is called while the loop sleeps before the retry.\<close>

definition demo_sleep :: "event list" where
  "demo_sleep = [PollFires, Awaited (Run 1), Awaited (Run 1), Awaited (Run 1), Awaited (Reject (Some ''boom'')), Awaited (Run 1)]"

lemma timers_drive_the_loop_witness:
  "\<exists>a t as. timed_run demo_config [PollFires, LagThrows (SqliteError ''SQLITE_BUSY'')]
      ((fresh_agent, start_timers True), demo_bus [4] 3) = Some (((a, t), demo_bus [4] 3), as) \<and>
    tm_down t \<and> (\<forall>x. timed_step demo_config x ((a, t), demo_bus [4] 3) = None)"
proof -
  have "\<exists>a t as. timed_run demo_config [PollFires, LagThrows (SqliteError ''SQLITE_BUSY'')]
      ((fresh_agent, start_timers True), demo_bus [4] 3) = Some (((a, t), demo_bus [4] 3), as)"
    by (simp add: timed_step_def start_timers_def set_timer_def is_armed_def poll_fires_def fresh_agent_def clear_timer_def)
  then obtain a t as where r: "timed_run demo_config [PollFires, LagThrows (SqliteError ''SQLITE_BUSY'')]
      ((fresh_agent, start_timers True), demo_bus [4] 3) = Some (((a, t), demo_bus [4] 3), as)" by blast
  from timers_drive_the_loop [of demo_config True "demo_bus [4] 3" a "demo_bus [4] 3", THEN conjunct2, rule_format, OF r]
  have "tm_down t \<and> (\<forall>x. timed_step demo_config x ((a, t), demo_bus [4] 3) = None)" by auto
  with r show ?thesis by blast
qed

lemma stop_ends_the_loop_witness:
  "\<exists>s as0 a t b as.
     timed_run demo_config demo_sleep ((fresh_agent, start_timers True), demo_bus [4] 3) = Some (s, as0) \<and>
     timed_run demo_config [Stop, Awaited (Run 2), Awaited (Run 2), Awaited (Run 2)] s = Some (((a, t), b), as) \<and>
     ag_pc a = Stopped \<and> tm_armed t = [] \<and> tm_resolved t = 1"
proof -
  have "case timed_run demo_config demo_sleep ((fresh_agent, start_timers True), demo_bus [4] 3) of
      Some (s, _) \<Rightarrow> (case timed_run demo_config [Stop, Awaited (Run 2), Awaited (Run 2), Awaited (Run 2)] s of
        Some (((a, t), b), as) \<Rightarrow> (case ag_pc a of Stopped \<Rightarrow> True | _ \<Rightarrow> False) | None \<Rightarrow> False)
    | None \<Rightarrow> False" by code_simp
  then obtain s as0 a t b as where
    r: "timed_run demo_config demo_sleep ((fresh_agent, start_timers True), demo_bus [4] 3) = Some (s, as0)"
      "timed_run demo_config [Stop, Awaited (Run 2), Awaited (Run 2), Awaited (Run 2)] s = Some (((a, t), b), as)"
    and p: "ag_pc a = Stopped"
    by (auto split: option.splits prod.splits pc.splits simp del: timed_run.simps)
  from stop_ends_the_loop [OF r] p have "tm_armed t = [] \<and> tm_resolved t = 1" by simp
  with r p show ?thesis by blast
qed

end
