(* ===== verification/BusDelivery.thy ===== *)
theory BusDelivery
  imports BusWorld
begin

text \<open>
  At-least-once delivery: the managed subscriber of \<open>lib/subscribe.js\<close> running beside other processes.
  A step of the system is a step of the loop on any input (a fault of a statement is a SQLite error),
  a crash and restart of the subscriber's process at any point, or a step of another process
  (\<open>BusWorld\<close>). The invariant says where the loop's batch stands relative to the cursor; from it,
  every matching event ever stored above the starting position is handled, dead-lettered, archived,
  or still stored above the cursor, in every reachable state.
\<close>

section \<open>The system\<close>

record system =
  sy_agent :: agent
  sy_bus :: bus
  sy_archive :: archive
  sy_log :: "action list"
  sy_ever :: "event_row set"

text \<open>\<open>sy_log\<close> is what the subscriber has done, over all its lives; \<open>sy_ever\<close> every row ever stored.\<close>

definition sqlite_fault :: "input \<Rightarrow> bool" where
  "sqlite_fault i = (case i of Fault err msg \<Rightarrow> (case err of SqliteError c \<Rightarrow> True | _ \<Rightarrow> False) | _ \<Rightarrow> True)"

inductive system_step :: "sub_config \<Rightarrow> system \<Rightarrow> system \<Rightarrow> bool" for cfg :: sub_config where
  loop: "sub_step cfg i (sy_agent s, sy_bus s) = Some ((a, b), acts) \<Longrightarrow> sqlite_fault i \<Longrightarrow>
    system_step cfg s (s\<lparr>sy_agent := a, sy_bus := b, sy_log := sy_log s @ acts, sy_ever := sy_ever s \<union> set (events b)\<rparr>)"
| crash: "system_step cfg s (s\<lparr>sy_agent := fresh_agent\<rparr>)"
| world: "world_step cfg (sy_bus s, sy_archive s) (b, ar) \<Longrightarrow>
    system_step cfg s (s\<lparr>sy_bus := b, sy_archive := ar, sy_ever := sy_ever s \<union> set (events b)\<rparr>)"

definition started :: "sub_config \<Rightarrow> int \<Rightarrow> string \<Rightarrow> system \<Rightarrow> bool" where
  "started cfg p f s \<longleftrightarrow> sy_agent s = fresh_agent \<and> sound_bus (sy_bus s) \<and> attached cfg p f (sy_bus s) \<and>
     p \<le> events_seq (sy_bus s) \<and> sy_log s = [] \<and> sy_ever s = set (events (sy_bus s))"

section \<open>The invariant of the loop\<close>

definition covered :: "action list \<Rightarrow> int \<Rightarrow> bool" where
  "covered tr i \<longleftrightarrow> Handled i \<in> set tr \<or> DeadLettered i \<in> set tr"

text \<open>A batch in hand: ascending, above the cursor, and without gaps up to its last event.\<close>

definition window_ok :: "string \<Rightarrow> int \<Rightarrow> bus \<Rightarrow> event_row list \<Rightarrow> bool" where
  "window_ok f p b w \<longleftrightarrow> sorted_wrt (<) (map ev_id w) \<and> (\<forall>y\<in>set w. p < ev_id y \<and> ev_id y \<le> events_seq b) \<and>
     (w \<noteq> [] \<longrightarrow> (\<forall>y\<in>set (events b). event_matches f y \<longrightarrow> p < ev_id y \<longrightarrow> ev_id y \<le> ev_id (last w) \<longrightarrow>
        ev_id y \<in> ev_id ` set w))"

fun pc_ok :: "string \<Rightarrow> int \<Rightarrow> bus \<Rightarrow> action list \<Rightarrow> pc \<Rightarrow> bool" where
  "pc_ok f p b tr (Begin e w) = window_ok f p b (e # w)"
| "pc_ok f p b tr (Call e n w) = window_ok f p b (e # w)"
| "pc_ok f p b tr (Clear e n w) = (window_ok f p b (e # w) \<and> covered tr (ev_id e))"
| "pc_ok f p b tr (AckIt e n w) = (window_ok f p b (e # w) \<and> covered tr (ev_id e))"
| "pc_ok f p b tr (Retry e n m w) = (window_ok f p b (e # w) \<and> 0 < n)"
| "pc_ok f p b tr (Backoff e n ms w) = window_ok f p b (e # w)"
| "pc_ok f p b tr (Bury e n m w) = window_ok f p b (e # w)"
| "pc_ok f p b tr (BuryClear e n m w) = (window_ok f p b (e # w) \<and> covered tr (ev_id e))"
| "pc_ok f p b tr (BuryAck e n m w) = (window_ok f p b (e # w) \<and> covered tr (ev_id e))"
| "pc_ok f p b tr (Reanchor err pos) = (0 \<le> pos \<and> p < pos \<and> pos \<le> events_seq b \<and> (\<forall>y\<in>set (events b). pos < ev_id y))"
| "pc_ok f p b tr _ = True"

lemma covered_append [simp]: "covered (xs @ ys) i = (covered xs i \<or> covered ys i)"
  by (auto simp: covered_def)

lemma covered_Cons [simp]:
  "covered [] i = False" "covered (Handled i # xs) i = True" "covered (DeadLettered i # xs) i = True"
  by (simp_all add: covered_def)

lemma window_ok_cong: "events b' = events b \<Longrightarrow> events_seq b' = events_seq b \<Longrightarrow> window_ok f p b' w = window_ok f p b w"
  by (simp add: window_ok_def)

lemma pc_ok_cong:
  assumes "events b' = events b" and "events_seq b' = events_seq b"
  shows "pc_ok f p b' tr q = pc_ok f p b tr q"
  by (cases q) (simp_all add: window_ok_cong [OF assms] assms)

lemma pc_ok_mono: "pc_ok f p b tr q \<Longrightarrow> pc_ok f p b (tr @ acts) q"
  by (cases q) simp_all

text \<open>Steps of other processes keep it.\<close>

lemma window_ok_evolves:
  assumes "window_ok f p b w" and "evolves p f b ar b' ar'"
  shows "window_ok f p b' w"
  unfolding window_ok_def
proof (intro conjI ballI impI)
  show "sorted_wrt (<) (map ev_id w)" using assms(1) by (simp add: window_ok_def)
next
  fix y assume "y \<in> set w"
  then show "p < ev_id y" "ev_id y \<le> events_seq b'"
    using assms(1) evolvesD(1) [OF assms(2)] by (auto simp: window_ok_def)
next
  fix y assume w: "w \<noteq> []" and y: "y \<in> set (events b')" "event_matches f y" "p < ev_id y" "ev_id y \<le> ev_id (last w)"
  have "ev_id (last w) \<le> events_seq b" using assms(1) w by (simp add: window_ok_def)
  then obtain x where x: "x \<in> set (events b)" "rekeyed x y" using evolvesD(3) [OF assms(2) y(1)] y(4) by auto
  then have "ev_id x = ev_id y" "event_matches f x" using rekeyed_sel(1) rekeyed_matches y(2) by metis+
  then show "ev_id y \<in> ev_id ` set w" using assms(1) w x(1) y unfolding window_ok_def by metis
qed

lemma pc_ok_evolves:
  assumes "pc_ok f p b tr q" and "evolves p f b ar b' ar'"
  shows "pc_ok f p b' tr q"
proof -
  note w = window_ok_evolves [OF _ assms(2)]
  have "\<forall>y\<in>set (events b'). pos < ev_id y" if "\<forall>y\<in>set (events b). pos < ev_id y" "pos \<le> events_seq b" for pos
  proof
    fix y assume "y \<in> set (events b')"
    from evolvesD(3) [OF assms(2) this] that show "pos < ev_id y" using rekeyed_sel(1) by fastforce
  qed
  then show ?thesis using assms(1) w evolvesD(1) [OF assms(2)] by (cases q) auto
qed

section \<open>One step of the loop\<close>

text \<open>The cursor moves to \<open>p'\<close>, over events that are covered only, and the invariant holds there.\<close>

definition advances :: "sub_config \<Rightarrow> string \<Rightarrow> int \<Rightarrow> bus \<Rightarrow> agent \<Rightarrow> bus \<Rightarrow> action list \<Rightarrow> bool" where
  "advances cfg f p b a' b' tr' \<longleftrightarrow> sound_bus b' \<and> events b' = events b \<and> events_seq b' = events_seq b \<and>
     events_archive b' = events_archive b \<and>
     (\<exists>p'. p \<le> p' \<and> p' \<le> events_seq b \<and> attached cfg p' f b' \<and> pc_ok f p' b tr' (ag_pc a') \<and>
        (\<forall>y\<in>set (events b). event_matches f y \<longrightarrow> p < ev_id y \<longrightarrow> ev_id y \<le> p' \<longrightarrow> covered tr' (ev_id y)))"

lemma stays:
  assumes "sound_bus b" and "attached cfg p f b" and "p \<le> events_seq b" and "bus_wf b'"
    and "events b' = events b" and "events_seq b' = events_seq b" and "events_archive b' = events_archive b"
    and "cursors b' = cursors b" and "subscriptions b' = subscriptions b" and "pc_ok f p b tr' (ag_pc a')"
  shows "advances cfg f p b a' b' tr'"
proof -
  from quiet_sound [OF assms(1,4-7), of p f no_archive] have "sound_bus b'" by blast
  moreover have "attached cfg p f b'" using assms(2) attached_tables [OF assms(8,9)] by simp
  ultimately show ?thesis unfolding advances_def using assms by (intro conjI exI [of _ p]) simp_all
qed

lemma attached_update:
  assumes "attached cfg p f b"
  shows "attached cfg q f (update_cursor_position (sb_cursor cfg) q t b)" and "cursor_position b (sb_cursor cfg) = Some p"
    and "cursor_filter b (sb_cursor cfg) = Some f"
proof -
  from assms obtain c s where c: "find_cursor b (sb_cursor cfg) = Some c" "cursor_active c" "cu_last c = p" "cu_sub c = sb_sub cfg"
    and s: "find_sub b (sb_sub cfg) = Some s" "sub_active s" "su_filter s = f" by (auto simp: attached_def)
  have "find_sub (update_cursor_position (sb_cursor cfg) q t b) (sb_sub cfg) = Some s"
    using s(1) by (simp add: find_sub_def)
  then show "attached cfg q f (update_cursor_position (sb_cursor cfg) q t b)"
    using find_cursor_update_same [OF c(1,2)] c s unfolding attached_def
    by (intro exI [of _ "c\<lparr>cu_last := q, cu_acked_at := Some t\<rparr>"] exI [of _ s]) simp
  show "cursor_position b (sb_cursor cfg) = Some p" "cursor_filter b (sb_cursor cfg) = Some f"
    using c s by (simp_all add: cursor_position_def cursor_filter_def)
qed

lemma moved_sound:
  assumes "sound_bus b"
  shows "sound_bus (update_cursor_position c q t b)"
  using quiet_sound [OF assms update_cursor_position_wf [OF sound_busD(1) [OF assms]]] by simp

lemma window_tail: "window_ok f p b (e # w) \<Longrightarrow> window_ok f (ev_id e) b w"
  unfolding window_ok_def by fastforce

lemma window_first:
  assumes "window_ok f p b (e # w)" and "y \<in> set (events b)" and "event_matches f y" and "p < ev_id y" and "ev_id y \<le> ev_id e"
  shows "ev_id y = ev_id e"
proof -
  have lt: "\<forall>z\<in>set w. ev_id e < ev_id z" using assms(1) by (simp add: window_ok_def)
  then have "ev_id e \<le> ev_id (last (e # w))" by (cases "w = []") (auto dest: bspec [OF _ last_in_set])
  then have "ev_id y \<in> ev_id ` set (e # w)" using assms unfolding window_ok_def by (metis list.distinct(1) order_trans)
  with lt assms(5) show ?thesis by auto
qed

lemma pc_ok_end [simp]: "pc_ok f p b tr (ag_pc (end_tick a))"
  by (simp add: end_tick_def)

lemma pc_ok_next: "window_ok f p b w \<Longrightarrow> pc_ok f p b tr (ag_pc (next_event w a))"
  by (auto simp: next_event_def split: list.split)

lemma pc_ok_drain [simp]: "pc_ok f p b tr (ag_pc (ends_drain a))"
  by (simp add: ends_drain_def)

lemma ack_advances:
  assumes "sound_bus b" and "attached cfg p f b" and "window_ok f p b (e # w)" and "covered tr (ev_id e)"
  shows "\<exists>b1. ack b (sb_cursor cfg) (ev_id e) t = (Inr (sb_cursor cfg, ev_id e), b1) \<and>
    advances cfg f p b (next_event w a) b1 tr"
proof -
  let ?b = "update_cursor_position (sb_cursor cfg) (ev_id e) t b"
  have "p < ev_id e" "ev_id e \<le> events_seq b" using assms(3) by (simp_all add: window_ok_def)
  moreover have "\<forall>y\<in>set (events b). event_matches f y \<longrightarrow> p < ev_id y \<longrightarrow> ev_id y \<le> ev_id e \<longrightarrow> covered tr (ev_id y)"
    using window_first [OF assms(3)] assms(4) by metis
  ultimately have "advances cfg f p b (next_event w a) ?b tr"
    unfolding advances_def using moved_sound [OF assms(1)] attached_update(1) [OF assms(2)]
      pc_ok_next [OF window_tail [OF assms(3)]] by (intro conjI exI [of _ "ev_id e"]) simp_all
  moreover have "ack b (sb_cursor cfg) (ev_id e) t = (Inr (sb_cursor cfg, ev_id e), ?b)"
    by (rule ack_active) (simp add: attached_update(2) [OF assms(2)])
  ultimately show ?thesis by blast
qed

lemma reanchor_advances:
  assumes "sound_bus b" and "attached cfg p f b" and "pc_ok f p b tr (Reanchor err pos)"
  shows "\<exists>b1. reanchor_cursor b (sb_cursor cfg) (jint pos) t = (Inr (sb_cursor cfg, pos), b1) \<and>
    advances cfg f p b (end_tick a) b1 tr"
proof -
  let ?b = "update_cursor_position (sb_cursor cfg) pos t b"
  have "advances cfg f p b (end_tick a) ?b tr"
    unfolding advances_def using moved_sound [OF assms(1)] attached_update(1) [OF assms(2)] assms(3)
    by (intro conjI exI [of _ pos]) auto
  moreover have "reanchor_cursor b (sb_cursor cfg) (jint pos) t = (Inr (sb_cursor cfg, pos), ?b)"
    by (rule reanchor_active) (use assms(3) attached_update(2) [OF assms(2)] in simp_all)
  ultimately show ?thesis by blast
qed

lemma tick_catch_quiet: "\<not> is_wb WB003 e \<Longrightarrow> pc_ok f p b tr (ag_pc (fst (tick_catch cfg e a)))"
  by (simp add: tick_catch_def Let_def)

lemma poll_window:
  assumes "sound_bus b" and "attached cfg p f b" and "poll b (sb_cursor cfg) bs None = Inr es"
  shows "window_ok f p b es"
proof -
  have wf: "events_wf b" using bus_wfD(1) [OF sound_busD(1) [OF assms(1)]] .
  from poll_Inr_iff [OF wf, of "sb_cursor cfg" bs None es] assms(2,3) have
    es: "es = sql_limit (effective_batch bs) (pending b f p)" by (auto simp: attached_def)
  obtain rest where rest: "pending b f p = es @ rest" using sql_limit_append es by metis
  have s: "sorted_wrt (<) (map ev_id (es @ rest))" using pending_sorted [OF wf] unfolding rest [symmetric] .
  have mem: "y \<in> set (es @ rest) \<longleftrightarrow> y \<in> set (events b) \<and> p < ev_id y \<and> event_matches f y" for y
    unfolding rest [symmetric] set_pending by simp
  show ?thesis unfolding window_ok_def
  proof (intro conjI ballI impI)
    show "sorted_wrt (<) (map ev_id es)" using s by (simp add: sorted_wrt_append)
    show "p < ev_id y" "ev_id y \<le> events_seq b" if "y \<in> set es" for y
      using that mem [of y] wf by (simp_all add: events_wf_def)
  next
    fix y assume y: "es \<noteq> []" "y \<in> set (events b)" "event_matches f y" "p < ev_id y" "ev_id y \<le> ev_id (last es)"
    then have "y \<in> set (es @ rest)" using mem by simp
    moreover have "\<forall>z\<in>set rest. ev_id (last es) < ev_id z" using s y(1) by (simp add: sorted_wrt_append)
    ultimately show "ev_id y \<in> ev_id ` set es" using y(5) by auto
  qed
qed

lemma poll_error_ok:
  assumes "sound_bus b" and "attached cfg p f b" and "poll b (sb_cursor cfg) bs None = Inl e"
  shows "pc_ok f p b tr (ag_pc (fst (tick_catch cfg e a)))"
proof (cases "is_wb WB003 e")
  case True
  from poll_WB003 [OF assms(3) True] obtain c m where c: "find_cursor b (sb_cursor cfg) = Some c" "min_event_id b = Some m"
    "cu_last c < m - 1" and e: "e = WB WB003 [(''cursor_last_event_id'', jint (cu_last c)), (''oldest_available_event_id'', jint m)]"
    by blast
  have "cu_last c = p" using assms(2) c(1) by (auto simp: attached_def)
  moreover have "\<forall>y\<in>set (events b). m \<le> ev_id y" "\<exists>y\<in>set (events b). ev_id y = m" using min_event_id_Some [OF c(2)] by blast+
  moreover have "\<forall>y\<in>set (events b). 0 < ev_id y \<and> ev_id y \<le> events_seq b"
    using bus_wfD(1) [OF sound_busD(1) [OF assms(1)]] by (simp add: events_wf_def)
  ultimately show ?thesis using c(3)
    by (auto simp: tick_catch_def e isConnectionFatal_def ctx_get_oldest is_wb_def)
next
  case False
  then show ?thesis by (rule tick_catch_quiet)
qed

lemma is_wb_sqlite [simp]: "\<not> is_wb WB003 (SqliteError c)"
  by (simp add: is_wb_def)

lemma ledger_archive_frame [simp]:
  "events_archive (snd (moveToDeadLetter b cid sid e n msg t)) = events_archive b"
  "events_seq (snd (moveToDeadLetter b cid sid e n msg t)) = events_seq b"
  by (simp_all add: moveToDeadLetter_def)

lemma replay_delivery_frame [simp]:
  "delivery_attempts (remove_dead_letter i b) = delivery_attempts b"
  "delivery_attempts (replay_failed i msg b) = delivery_attempts b"
  by (simp_all add: remove_dead_letter_def replay_failed_def)

text \<open>A statement of the loop runs.\<close>

lemma db_step_advances:
  assumes step: "db_step cfg t (ag_pc a) a b = Some ((a', b'), acts)" and sound: "sound_bus b"
    and att: "attached cfg p f b" and le: "p \<le> events_seq b" and pc: "pc_ok f p b tr (ag_pc a)"
  shows "advances cfg f p b a' b' (tr @ acts)"
proof -
  note wf = sound_busD(1) [OF sound]
  have here: "cursor_position b (sb_cursor cfg) \<noteq> None" using attached_update(2) [OF att] by simp
  then have fk: "sb_cursor cfg \<in> cu_id ` set (cursors b)" by (rule position_cursor)
  obtain sub where "find_sub b (sb_sub cfg) = Some sub" using att by (auto simp: attached_def)
  then have sk: "sb_sub cfg \<in> su_id ` set (subscriptions b)" using find_sub_id by (metis imageI)
  have same: "advances cfg f p b a2 b (tr @ acts)" if "pc_ok f p b (tr @ acts) (ag_pc a2)" for a2
    by (rule stays [OF sound att le wf]) (use that in simp_all)
  show ?thesis
  proof (cases "ag_pc a")
    case Drain
    with step have b': "b' = b" "pc_ok f p b (tr @ acts) (ag_pc a')" by (auto split: option.splits)
    show ?thesis unfolding b'(1) by (rule same) (rule b'(2))
  next
    case (ReplayDone i)
    with step have b': "b' = remove_dead_letter i b" and "pc_ok f p b (tr @ acts) (ag_pc a')" by auto
    then show ?thesis using wf by (intro stays [OF sound att le]) (simp_all add: b' remove_dead_letter_wf)
  next
    case (ReplayFailed i msg)
    with step have b': "b' = replay_failed i msg b" and "pc_ok f p b (tr @ acts) (ag_pc a')" by auto
    then show ?thesis using wf by (intro stays [OF sound att le]) (simp_all add: b' replay_failed_wf)
  next
    case Poll
    with step have b': "b' = b" and r: "run_poll cfg a b = (a', acts)" by (auto simp: keeping_def)
    have "pc_ok f p b (tr @ acts) (ag_pc a')"
    proof (cases "poll b (sb_cursor cfg) (Some (sb_batch cfg)) None")
      case (Inl e)
      with r poll_error_ok [OF sound att Inl, of "tr @ acts" a] show ?thesis by (simp add: run_poll_def)
    next
      case (Inr es)
      with r pc_ok_next [OF poll_window [OF sound att Inr]] show ?thesis by (auto simp: run_poll_def)
    qed
    then show ?thesis unfolding b' by (rule same)
  next
    case (Begin e w)
    with step have b': "b' = b" by (auto simp: keeping_def)
    have "pc_ok f p b (tr @ acts) (ag_pc a')" using step Begin pc by (auto simp: keeping_def enter_call_def split: if_splits)
    then show ?thesis unfolding b' by (rule same)
  next
    case (Clear e n w)
    with step have b': "b' = deleteDeliveryAttempt b (sb_cursor cfg) (ev_id e)" and "pc_ok f p b (tr @ acts) (ag_pc a')"
      using pc by auto
    then show ?thesis using wf by (intro stays [OF sound att le]) (simp_all add: b' deleteDeliveryAttempt_wf)
  next
    case (AckIt e n w)
    with pc have w: "window_ok f p b (e # w)" "covered tr (ev_id e)" by simp_all
    then obtain b1 where "ack b (sb_cursor cfg) (ev_id e) t = (Inr (sb_cursor cfg, ev_id e), b1)"
      "advances cfg f p b (next_event w a) b1 (tr @ acts)"
      using ack_advances [OF sound att w(1), of "tr @ acts" t a] by auto
    then show ?thesis using step AckIt by (simp add: ack_handled_def)
  next
    case (Retry e n msg w)
    then have n: "0 < n" using pc by simp
    obtain b1 where u: "upsertDeliveryAttempt b (sb_cursor cfg) (ev_id e) n msg t = (Inr (), b1)"
      using fk by (auto simp: upsertDeliveryAttempt_def)
    then have b1: "b1 = snd (upsertDeliveryAttempt b (sb_cursor cfg) (ev_id e) n msg t)" by simp
    from step Retry u have b': "b' = b1" and a': "pc_ok f p b (tr @ acts) (ag_pc a')" using pc by auto
    show ?thesis unfolding b'
      by (rule stays [OF sound att le]) (simp_all add: b1 a' upsertDeliveryAttempt_wf [OF wf n])
  next
    case (Bury e n msg w)
    obtain b1 where u: "moveToDeadLetter b (sb_cursor cfg) (sb_sub cfg) e n msg t = (Inr (), b1)"
      using fk sk by (auto simp: moveToDeadLetter_def)
    then have b1: "b1 = snd (moveToDeadLetter b (sb_cursor cfg) (sb_sub cfg) e n msg t)" by simp
    from step Bury u have b': "b' = b1" and a': "pc_ok f p b (tr @ acts) (ag_pc a')" using pc by auto
    show ?thesis unfolding b'
      by (rule stays [OF sound att le]) (simp_all add: b1 a' moveToDeadLetter_wf [OF wf])
  next
    case (BuryClear e n msg w)
    with step have b': "b' = deleteDeliveryAttempt b (sb_cursor cfg) (ev_id e)" and "pc_ok f p b (tr @ acts) (ag_pc a')"
      using pc by auto
    then show ?thesis using wf by (intro stays [OF sound att le]) (simp_all add: b' deleteDeliveryAttempt_wf)
  next
    case (BuryAck e n msg w)
    with pc have w: "window_ok f p b (e # w)" "covered tr (ev_id e)" by simp_all
    then obtain b1 where "ack b (sb_cursor cfg) (ev_id e) t = (Inr (sb_cursor cfg, ev_id e), b1)"
      "advances cfg f p b (next_event w a) b1 (tr @ acts)"
      using ack_advances [OF sound att w(1), of "tr @ acts" t a] by auto
    then show ?thesis using step BuryAck by simp
  next
    case (Reanchor err q)
    then obtain b1 where "reanchor_cursor b (sb_cursor cfg) (jint q) t = (Inr (sb_cursor cfg, q), b1)"
      "advances cfg f p b (end_tick a) b1 (tr @ acts)"
      using reanchor_advances [OF sound att, of "tr @ acts" err q t a] pc by auto
    then show ?thesis using step Reanchor by simp
  qed (use step in simp_all)
qed

lemma sub_step_advances:
  assumes step: "sub_step cfg i (a, b) = Some ((a', b'), acts)" and fault: "sqlite_fault i" and sound: "sound_bus b"
    and att: "attached cfg p f b" and le: "p \<le> events_seq b" and pc: "pc_ok f p b tr (ag_pc a)"
  shows "advances cfg f p b a' b' (tr @ acts)"
proof -
  have same: "advances cfg f p b a2 b (tr @ acts)" if "pc_ok f p b (tr @ acts) (ag_pc a2)" for a2
    by (rule stays [OF sound att le sound_busD(1) [OF sound]]) (use that in simp_all)
  show ?thesis
  proof (cases i)
    case (Run t)
    with step have "db_step cfg t (ag_pc a) a b = Some ((a', b'), acts)" by (simp add: sub_step_def)
    then show ?thesis using sound att le pc by (rule db_step_advances)
  next
    case (Fault err msg)
    with fault obtain c where err: "err = SqliteError c" by (auto simp: sqlite_fault_def split: js_error.splits)
    have b': "b' = b" using step Fault by (auto simp: sub_step_def keeping_def)
    have "pc_ok f p b (tr @ acts) (ag_pc a')"
      using step Fault pc tick_catch_quiet [of "SqliteError c" f p b "tr @ acts" cfg a]
      by (cases "ag_pc a") (auto simp: sub_step_def keeping_def err fail_event_def)
    then show ?thesis unfolding b' by (rule same)
  next
    case StopCall
    with step have b': "b' = b" and a': "a' = stop_call a" by (auto simp: sub_step_def split: if_splits)
    have "pc_ok f p b (tr @ acts) (ag_pc a')"
      unfolding a' using pc_ok_mono [OF pc, of acts] by (cases "ag_pc a") (auto simp: stop_call_def Let_def)
    then show ?thesis unfolding b' by (rule same)
  next
    case Timer
    with step have b': "b' = b" and "ag_pc a' = Drain" by (auto simp: sub_step_def split: if_splits)
    then show ?thesis unfolding b' by (intro same) simp
  next
    case Resolve
    with step have b': "b' = b" by (auto simp: sub_step_def split: pc.splits)
    have "pc_ok f p b (tr @ acts) (ag_pc a')"
      using step Resolve pc by (cases "ag_pc a") (auto simp: sub_step_def covered_def)
    then show ?thesis unfolding b' by (rule same)
  next
    case (Reject msg)
    with step have b': "b' = b" by (auto simp: sub_step_def keeping_def split: pc.splits)
    have "pc_ok f p b (tr @ acts) (ag_pc a')"
      using step Reject pc by (cases "ag_pc a") (auto simp: sub_step_def keeping_def fail_event_def)
    then show ?thesis unfolding b' by (rule same)
  next
    case RejectBad
    with step have b': "b' = b" by (auto simp: sub_step_def keeping_def split: pc.splits)
    have "pc_ok f p b (tr @ acts) (ag_pc a')"
      using step RejectBad pc by (cases "ag_pc a") (auto simp: sub_step_def keeping_def end_tick_def)
    then show ?thesis unfolding b' by (rule same)
  next
    case Slept
    with step have b': "b' = b" by (auto simp: sub_step_def keeping_def split: pc.splits)
    have "pc_ok f p b (tr @ acts) (ag_pc a')"
      using step Slept pc by (cases "ag_pc a") (auto simp: sub_step_def keeping_def enter_call_def split: if_splits)
    then show ?thesis unfolding b' by (rule same)
  qed
qed

section \<open>The invariant of the system\<close>

text \<open>Where a matching event stands: dealt with, saved, or still ahead of the cursor.\<close>

definition accounted :: "system \<Rightarrow> int \<Rightarrow> int \<Rightarrow> bool" where
  "accounted s p i \<longleftrightarrow> covered (sy_log s) i \<or> i \<in> saved (sy_bus s) (sy_archive s) \<or>
     (p < i \<and> i \<in> ev_id ` set (events (sy_bus s)))"

definition delivering :: "sub_config \<Rightarrow> int \<Rightarrow> string \<Rightarrow> int \<Rightarrow> system \<Rightarrow> bool" where
  "delivering cfg p0 f p s \<longleftrightarrow> sound_bus (sy_bus s) \<and> attached cfg p f (sy_bus s) \<and> p0 \<le> p \<and>
     p \<le> events_seq (sy_bus s) \<and> pc_ok f p (sy_bus s) (sy_log s) (ag_pc (sy_agent s)) \<and>
     set (events (sy_bus s)) \<subseteq> sy_ever s \<and> (\<forall>x\<in>sy_ever s. ev_id x \<le> events_seq (sy_bus s)) \<and>
     (\<forall>x\<in>sy_ever s. \<forall>y\<in>sy_ever s. ev_id x = ev_id y \<longrightarrow> event_matches f x = event_matches f y) \<and>
     (\<forall>x\<in>sy_ever s. p0 < ev_id x \<longrightarrow> event_matches f x \<longrightarrow> accounted s p (ev_id x))"

lemma deliveringD:
  assumes "delivering cfg p0 f p s"
  shows "sound_bus (sy_bus s)" and "attached cfg p f (sy_bus s)" and "p0 \<le> p" and "p \<le> events_seq (sy_bus s)"
    and "pc_ok f p (sy_bus s) (sy_log s) (ag_pc (sy_agent s))" and "set (events (sy_bus s)) \<subseteq> sy_ever s"
    and "x \<in> sy_ever s \<Longrightarrow> ev_id x \<le> events_seq (sy_bus s)"
    and "x \<in> sy_ever s \<Longrightarrow> y \<in> sy_ever s \<Longrightarrow> ev_id x = ev_id y \<Longrightarrow> event_matches f x = event_matches f y"
    and "x \<in> sy_ever s \<Longrightarrow> p0 < ev_id x \<Longrightarrow> event_matches f x \<Longrightarrow> accounted s p (ev_id x)"
  using assms unfolding delivering_def by blast+

lemma deliveringI:
  assumes "sound_bus (sy_bus s)" and "attached cfg p f (sy_bus s)" and "p0 \<le> p" and "p \<le> events_seq (sy_bus s)"
    and "pc_ok f p (sy_bus s) (sy_log s) (ag_pc (sy_agent s))" and "set (events (sy_bus s)) \<subseteq> sy_ever s"
    and "\<And>x. x \<in> sy_ever s \<Longrightarrow> ev_id x \<le> events_seq (sy_bus s)"
    and "\<And>x y. x \<in> sy_ever s \<Longrightarrow> y \<in> sy_ever s \<Longrightarrow> ev_id x = ev_id y \<Longrightarrow> event_matches f x = event_matches f y"
    and "\<And>x. x \<in> sy_ever s \<Longrightarrow> p0 < ev_id x \<Longrightarrow> event_matches f x \<Longrightarrow> accounted s p (ev_id x)"
  shows "delivering cfg p0 f p s"
  unfolding delivering_def using assms by blast

lemma started_delivering: "started cfg p f s \<Longrightarrow> delivering cfg p f p s"
proof -
  assume s: "started cfg p f s"
  then have wf: "events_wf (sy_bus s)" using bus_wfD(1) sound_busD(1) by (auto simp: started_def)
  have e: "sy_ever s = set (events (sy_bus s))" and pc: "ag_pc (sy_agent s) = Idle"
    using s by (simp_all add: started_def fresh_agent_def)
  show ?thesis
  proof (rule deliveringI)
    show "sound_bus (sy_bus s)" "attached cfg p f (sy_bus s)" "p \<le> events_seq (sy_bus s)" using s by (simp_all add: started_def)
    show "event_matches f x = event_matches f y" if "x \<in> sy_ever s" "y \<in> sy_ever s" "ev_id x = ev_id y" for x y
      using events_wf_inj [OF wf that [unfolded e]] by simp
    show "ev_id x \<le> events_seq (sy_bus s)" if "x \<in> sy_ever s" for x using that wf by (simp add: e events_wf_def)
    show "accounted s p (ev_id x)" if "x \<in> sy_ever s" "p < ev_id x" for x using that by (simp add: e accounted_def)
  qed (simp_all add: e pc)
qed

lemma advances_delivering:
  assumes d: "delivering cfg p0 f p s" and adv: "advances cfg f p (sy_bus s) a b (sy_log s @ acts)"
  shows "\<exists>q. p \<le> q \<and> delivering cfg p0 f q
    (s\<lparr>sy_agent := a, sy_bus := b, sy_log := sy_log s @ acts, sy_ever := sy_ever s \<union> set (events b)\<rparr>)"
proof -
  note D = deliveringD [OF d]
  from adv obtain q where
    b: "sound_bus b" "events b = events (sy_bus s)" "events_seq b = events_seq (sy_bus s)" "events_archive b = events_archive (sy_bus s)"
    and q: "p \<le> q" "q \<le> events_seq (sy_bus s)" "attached cfg q f b" "pc_ok f q (sy_bus s) (sy_log s @ acts) (ag_pc a)"
    and cov: "\<forall>y\<in>set (events (sy_bus s)). event_matches f y \<longrightarrow> p < ev_id y \<longrightarrow> ev_id y \<le> q \<longrightarrow> covered (sy_log s @ acts) (ev_id y)"
    unfolding advances_def by blast
  let ?s = "s\<lparr>sy_agent := a, sy_bus := b, sy_log := sy_log s @ acts, sy_ever := sy_ever s \<union> set (events b)\<rparr>"
  have ever: "sy_ever s \<union> set (events b) = sy_ever s" using D(6) b(2) by auto
  have sv: "saved b ar = saved (sy_bus s) ar" for ar by (simp add: saved_def archived_rows_def b(4))
  have acc: "accounted ?s q (ev_id x)" if x: "x \<in> sy_ever s" "p0 < ev_id x" "event_matches f x" for x
  proof -
    from D(9) [OF x] consider "covered (sy_log s) (ev_id x)" | "ev_id x \<in> saved (sy_bus s) (sy_archive s)"
      | y where "p < ev_id x" "y \<in> set (events (sy_bus s))" "ev_id x = ev_id y" unfolding accounted_def by auto
    then show ?thesis
    proof cases
      case 3
      have "event_matches f y" using D(8) [of x y] x 3 D(6) by auto
      with 3 cov show ?thesis by (cases "ev_id x \<le> q") (auto simp: accounted_def b(2))
    qed (simp_all add: accounted_def sv)
  qed
  have "delivering cfg p0 f q ?s"
  proof (rule deliveringI)
    show "p0 \<le> q" using D(3) q(1) by simp
    show "pc_ok f q (sy_bus ?s) (sy_log ?s) (ag_pc (sy_agent ?s))" using q(4) pc_ok_cong [OF b(2,3)] by simp
    show "set (events (sy_bus ?s)) \<subseteq> sy_ever ?s" by simp
    show "ev_id x \<le> events_seq (sy_bus ?s)" if "x \<in> sy_ever ?s" for x using that D(7) [of x] b(3) ever by simp
    show "event_matches f x = event_matches f y" if "x \<in> sy_ever ?s" "y \<in> sy_ever ?s" "ev_id x = ev_id y" for x y
      using that D(8) [of x y] ever by simp
    show "accounted ?s q (ev_id x)" if "x \<in> sy_ever ?s" "p0 < ev_id x" "event_matches f x" for x
      using that acc [of x] ever by simp
  qed (use b q in simp_all)
  with q(1) show ?thesis by blast
qed

lemma loop_delivering:
  assumes d: "delivering cfg p0 f p s" and step: "sub_step cfg i (sy_agent s, sy_bus s) = Some ((a, b), acts)" and "sqlite_fault i"
  shows "\<exists>q. p \<le> q \<and> delivering cfg p0 f q
    (s\<lparr>sy_agent := a, sy_bus := b, sy_log := sy_log s @ acts, sy_ever := sy_ever s \<union> set (events b)\<rparr>)"
  by (rule advances_delivering [OF d sub_step_advances [OF step assms(3) deliveringD(1,2,4,5) [OF d]]])

lemma evolves_delivering:
  assumes d: "delivering cfg p0 f p s"
    and step: "sound_bus b \<and> attached cfg p f b \<and> evolves p f (sy_bus s) (sy_archive s) b ar"
  shows "delivering cfg p0 f p (s\<lparr>sy_bus := b, sy_archive := ar, sy_ever := sy_ever s \<union> set (events b)\<rparr>)"
proof -
  note D = deliveringD [OF d]
  let ?s = "s\<lparr>sy_bus := b, sy_archive := ar, sy_ever := sy_ever s \<union> set (events b)\<rparr>"
  from step have b: "sound_bus b" "attached cfg p f b"
    and ev: "evolves p f (sy_bus s) (sy_archive s) b ar" by blast+
  have wf: "events_wf (sy_bus s)" and wf': "events_wf b"
    using bus_wfD(1) [OF sound_busD(1) [OF D(1)]] bus_wfD(1) [OF sound_busD(1) [OF b(1)]] .
  note E = evolvesD [OF ev]
  have new: "events_seq (sy_bus s) < ev_id y \<or> (\<exists>x\<in>sy_ever s. ev_id x = ev_id y \<and> event_matches f x = event_matches f y)"
    if y: "y \<in> set (events b)" for y
  proof (cases "events_seq (sy_bus s) < ev_id y")
    case False
    with E(3) [OF y] obtain x where x: "x \<in> set (events (sy_bus s))" "rekeyed x y" by blast
    then have "x \<in> sy_ever s" using D(6) by blast
    then show ?thesis using rekeyed_sel(1) [OF x(2)] rekeyed_matches [OF x(2)] by (intro disjI2 bexI [of _ x]) simp_all
  qed simp
  have ids: "ev_id x \<le> events_seq b" if "x \<in> sy_ever s \<union> set (events b)" for x
    using that D(7) [of x] E(1) wf' by (auto simp: events_wf_def)
  have acc: "accounted ?s p (ev_id x)" if x: "x \<in> sy_ever s" "p0 < ev_id x" "event_matches f x" for x
  proof -
    from D(9) [OF x] consider "covered (sy_log s) (ev_id x)" | "ev_id x \<in> saved (sy_bus s) (sy_archive s)"
      | y where "p < ev_id x" "y \<in> set (events (sy_bus s))" "ev_id x = ev_id y" unfolding accounted_def by auto
    then show ?thesis
    proof cases
      case 3
      have "event_matches f y" using D(8) [of x y] x 3 D(6) by auto
      with E(4) [OF 3(2)] 3 show ?thesis by (auto simp: accounted_def)
    qed (use E(2) in \<open>auto simp: accounted_def\<close>)
  qed
  have accn: "accounted ?s p (ev_id y)" if y: "y \<in> set (events b)" "p0 < ev_id y" "event_matches f y" for y
    using new [OF y(1)]
  proof
    assume "events_seq (sy_bus s) < ev_id y"
    then show ?thesis using D(4) y(1) by (simp add: accounted_def)
  next
    assume "\<exists>x\<in>sy_ever s. ev_id x = ev_id y \<and> event_matches f x = event_matches f y"
    then obtain x where x: "x \<in> sy_ever s" "ev_id x = ev_id y" "event_matches f x" using y(3) by blast
    with acc [OF x(1) _ x(3)] y(2) show ?thesis by simp
  qed
  have same: "event_matches f x = event_matches f y"
    if "x \<in> sy_ever s \<union> set (events b)" "y \<in> sy_ever s \<union> set (events b)" "ev_id x = ev_id y" for x y
  proof -
    have r: "z \<in> set (events b) \<and> events_seq (sy_bus s) < ev_id z \<or>
        (\<exists>w\<in>sy_ever s. ev_id w = ev_id z \<and> event_matches f w = event_matches f z)" if "z \<in> sy_ever s \<union> set (events b)" for z
      using that new [of z] by blast
    show ?thesis
      using r [OF that(1)] r [OF that(2)]
    proof (elim disjE conjE bexE)
      assume "x \<in> set (events b)" "y \<in> set (events b)"
      then show ?thesis using events_wf_inj [OF wf'] that(3) by blast
    next
      fix w w' assume "w \<in> sy_ever s" "ev_id w = ev_id x" "event_matches f w = event_matches f x"
        "w' \<in> sy_ever s" "ev_id w' = ev_id y" "event_matches f w' = event_matches f y"
      then show ?thesis using D(8) [of w w'] that(3) by simp
    next
      fix w assume "w \<in> sy_ever s" "ev_id w = ev_id y" "events_seq (sy_bus s) < ev_id x"
      then show ?thesis using D(7) [of w] that(3) by simp
    next
      fix w assume "w \<in> sy_ever s" "ev_id w = ev_id x" "events_seq (sy_bus s) < ev_id y"
      then show ?thesis using D(7) [of w] that(3) by simp
    qed
  qed
  show ?thesis
  proof (rule deliveringI)
    show "pc_ok f p (sy_bus ?s) (sy_log ?s) (ag_pc (sy_agent ?s))" using pc_ok_evolves [OF D(5) ev] by simp
    show "p \<le> events_seq (sy_bus ?s)" using D(4) E(1) by simp
    show "ev_id x \<le> events_seq (sy_bus ?s)" if "x \<in> sy_ever ?s" for x using ids [of x] that by simp
    show "event_matches f x = event_matches f y" if "x \<in> sy_ever ?s" "y \<in> sy_ever ?s" "ev_id x = ev_id y" for x y
      using same [of x y] that by simp
    show "accounted ?s p (ev_id x)" if "x \<in> sy_ever ?s" "p0 < ev_id x" "event_matches f x" for x
      using acc [of x] accn [of x] that by auto
  qed (use b D(3) in simp_all)
qed

lemma world_delivering:
  assumes d: "delivering cfg p0 f p s" and step: "world_step cfg (sy_bus s, sy_archive s) (b, ar)"
  shows "delivering cfg p0 f p (s\<lparr>sy_bus := b, sy_archive := ar, sy_ever := sy_ever s \<union> set (events b)\<rparr>)"
  by (rule evolves_delivering [OF d world_step_evolves [OF step deliveringD(1,2) [OF d]]])

lemma system_step_delivering:
  assumes "system_step cfg s s'" and "delivering cfg p0 f p s"
  shows "\<exists>q. p \<le> q \<and> delivering cfg p0 f q s'"
  using assms(1)
proof cases
  case (loop i a b acts)
  with loop_delivering [OF assms(2) loop(2,3)] show ?thesis by simp
next
  case crash
  have "delivering cfg p0 f p (s\<lparr>sy_agent := fresh_agent\<rparr>)"
  proof (rule deliveringI)
    note D = deliveringD [OF assms(2)]
    let ?s = "s\<lparr>sy_agent := fresh_agent\<rparr>"
    show "event_matches f x = event_matches f y" if "x \<in> sy_ever ?s" "y \<in> sy_ever ?s" "ev_id x = ev_id y" for x y
      using D(8) [of x y] that by simp
    show "accounted ?s p (ev_id x)" if "x \<in> sy_ever ?s" "p0 < ev_id x" "event_matches f x" for x
      using D(9) [of x] that by (simp add: accounted_def)
    show "ev_id x \<le> events_seq (sy_bus ?s)" if "x \<in> sy_ever ?s" for x using D(7) [of x] that by simp
    show "sound_bus (sy_bus ?s)" "attached cfg p f (sy_bus ?s)" "p0 \<le> p" "p \<le> events_seq (sy_bus ?s)"
      "set (events (sy_bus ?s)) \<subseteq> sy_ever ?s" using D(1-4,6) by simp_all
    show "pc_ok f p (sy_bus ?s) (sy_log ?s) (ag_pc (sy_agent ?s))" by (simp add: fresh_agent_def)
  qed
  with crash show ?thesis by blast
next
  case (world b ar)
  with world_delivering [OF assms(2) world(2)] show ?thesis by blast
qed

lemma reachable_delivering:
  assumes "(system_step cfg)\<^sup>*\<^sup>* s s'" and "delivering cfg p0 f p s"
  shows "\<exists>q. p \<le> q \<and> delivering cfg p0 f q s'"
  using assms
proof (induction rule: rtranclp_induct)
  case base
  then show ?case by blast
next
  case (step s1 s2)
  then obtain q where q: "p \<le> q" "delivering cfg p0 f q s1" by blast
  from system_step_delivering [OF step.hyps(2) q(2)] q(1) show ?case by (meson order_trans)
qed

section \<open>What the handler is given\<close>

fun in_hand :: "pc \<Rightarrow> event_row list" where
  "in_hand (Begin e w) = e # w"
| "in_hand (Call e n w) = e # w"
| "in_hand (Clear e n w) = e # w"
| "in_hand (AckIt e n w) = e # w"
| "in_hand (Retry e n m w) = e # w"
| "in_hand (Backoff e n ms w) = e # w"
| "in_hand (Bury e n m w) = e # w"
| "in_hand (BuryClear e n m w) = e # w"
| "in_hand (BuryAck e n m w) = e # w"
| "in_hand _ = []"

lemma in_hand_simps [simp]:
  "in_hand (ag_pc (end_tick a)) = []" "set (in_hand (ag_pc (next_event w a))) \<subseteq> set w"
  "in_hand (ag_pc (ends_drain a)) = []"
  by (auto simp: end_tick_def next_event_def ends_drain_def split: list.split)

lemma in_hand_next [dest]: "y \<in> set (in_hand (ag_pc (next_event w a))) \<Longrightarrow> y \<in> set w"
  using in_hand_simps(2) by blast

lemma in_hand_catch [simp]:
  "in_hand (ag_pc (fst (tick_catch cfg e a))) = []" "Invoked i \<notin> set (snd (tick_catch cfg e a))"
  by (auto simp: tick_catch_def Let_def split: option.splits if_splits)

lemma in_hand_fail [simp]:
  "in_hand (ag_pc (fst (fail_event cfg e n err msg w a))) = e # w" "Invoked i \<notin> set (snd (fail_event cfg e n err msg w a))"
  by (auto simp: fail_event_def)

lemma poll_in_hand:
  assumes "sound_bus b" and "attached cfg p f b" and "poll b (sb_cursor cfg) bs None = Inr es"
  shows "\<forall>y\<in>set es. y \<in> set (events b) \<and> event_matches f y"
proof -
  have wf: "events_wf b" using bus_wfD(1) [OF sound_busD(1) [OF assms(1)]] .
  from poll_Inr_iff [OF wf, of "sb_cursor cfg" bs None es] assms(2,3) have
    "es = sql_limit (effective_batch bs) (pending b f p)" by (auto simp: attached_def)
  then have "set es \<subseteq> set (pending b f p)" using set_sql_limit by fastforce
  then show ?thesis by (auto simp: set_pending)
qed

text \<open>A step hands out events it holds, and takes new ones from the stored matching ones only.\<close>

lemma db_step_hand:
  assumes step: "db_step cfg t (ag_pc a) a b = Some ((a', b'), acts)" and "sound_bus b" and "attached cfg p f b"
  shows "(\<forall>y\<in>set (in_hand (ag_pc a')). y \<in> set (in_hand (ag_pc a)) \<or> y \<in> set (events b) \<and> event_matches f y) \<and>
    (\<forall>i. Invoked i \<in> set acts \<longrightarrow> i \<in> ev_id ` set (in_hand (ag_pc a)))"
proof (cases "ag_pc a")
  case Drain
  with step show ?thesis by (auto split: option.splits)
next
  case Poll
  show ?thesis
  proof (cases "poll b (sb_cursor cfg) (Some (sb_batch cfg)) None")
    case (Inl e)
    with step Poll have "a' = fst (tick_catch cfg e a)" "acts = snd (tick_catch cfg e a)"
      by (auto simp: keeping_def run_poll_def)
    then show ?thesis using in_hand_catch(2) by simp
  next
    case (Inr es)
    with step Poll have a': "ag_pc a' = ag_pc (next_event es (a\<lparr>ag_unusable := 0, ag_last_unusable := None\<rparr>))" "acts = []"
      by (auto simp: keeping_def run_poll_def)
    then have "set (in_hand (ag_pc a')) \<subseteq> set es" using in_hand_simps(2) by metis
    then show ?thesis using poll_in_hand [OF assms(2,3) Inr] a'(2) by auto
  qed
next
  case (AckIt e n w)
  with step show ?thesis
    by (auto simp: ack_handled_def keeping_def split: sum.splits prod.splits)
next
  case (Retry e n msg w)
  with step show ?thesis by (auto simp: keeping_def split: sum.splits prod.splits)
next
  case (Bury e n msg w)
  with step show ?thesis by (auto simp: keeping_def split: sum.splits prod.splits)
next
  case (BuryAck e n msg w)
  with step show ?thesis by (auto simp: keeping_def split: sum.splits prod.splits)
next
  case (Reanchor err q)
  with step show ?thesis by (auto split: sum.splits prod.splits)
qed (use step in \<open>auto simp: keeping_def enter_call_def split: if_splits\<close>)

lemma sub_step_hand:
  assumes step: "sub_step cfg i (a, b) = Some ((a', b'), acts)" and "sound_bus b" and "attached cfg p f b"
  shows "(\<forall>y\<in>set (in_hand (ag_pc a')). y \<in> set (in_hand (ag_pc a)) \<or> y \<in> set (events b) \<and> event_matches f y) \<and>
    (\<forall>i. Invoked i \<in> set acts \<longrightarrow> i \<in> ev_id ` set (in_hand (ag_pc a)))"
proof (cases i)
  case (Run t)
  with step have "db_step cfg t (ag_pc a) a b = Some ((a', b'), acts)" by (simp add: sub_step_def)
  from db_step_hand [OF this assms(2,3)] show ?thesis .
next
  case (Fault err msg)
  with step show ?thesis by (cases "ag_pc a") (auto simp: sub_step_def keeping_def)
next
  case StopCall
  with step show ?thesis by (cases "ag_pc a") (auto simp: sub_step_def stop_call_def Let_def split: if_splits)
next
  case Slept
  with step show ?thesis by (cases "ag_pc a") (auto simp: sub_step_def keeping_def enter_call_def split: if_splits)
next
  case (Reject msg)
  with step show ?thesis by (cases "ag_pc a") (auto simp: sub_step_def keeping_def)
next
  case RejectBad
  with step show ?thesis by (cases "ag_pc a") (auto simp: sub_step_def keeping_def)
next
  case Resolve
  with step show ?thesis by (cases "ag_pc a") (auto simp: sub_step_def)
next
  case Timer
  with step show ?thesis by (auto simp: sub_step_def split: if_splits)
qed

definition hands_ok :: "int \<Rightarrow> string \<Rightarrow> system \<Rightarrow> bool" where
  "hands_ok p0 f s \<longleftrightarrow> (\<forall>y\<in>set (in_hand (ag_pc (sy_agent s))). y \<in> sy_ever s \<and> event_matches f y) \<and>
     (\<forall>i. Invoked i \<in> set (sy_log s) \<longrightarrow> (\<exists>x\<in>sy_ever s. ev_id x = i \<and> p0 < i \<and> event_matches f x))"

lemma in_hand_above: "pc_ok f p b tr q \<Longrightarrow> y \<in> set (in_hand q) \<Longrightarrow> p < ev_id y"
  by (cases q) (auto simp: window_ok_def)

lemma system_step_hands:
  assumes "system_step cfg s s'" and d: "delivering cfg p0 f p s" and h: "hands_ok p0 f s"
  shows "hands_ok p0 f s'"
  using assms(1)
proof cases
  case (loop i a b acts)
  note D = deliveringD [OF d]
  from sub_step_hand [OF loop(2) D(1,2)] have hand: "y \<in> set (in_hand (ag_pc (sy_agent s))) \<or> y \<in> set (events (sy_bus s)) \<and> event_matches f y"
    if "y \<in> set (in_hand (ag_pc a))" for y using that by blast
  have inv: "\<exists>x\<in>sy_ever s. ev_id x = j \<and> p0 < j \<and> event_matches f x" if "Invoked j \<in> set acts" for j
  proof -
    from sub_step_hand [OF loop(2) D(1,2)] that obtain y where y: "y \<in> set (in_hand (ag_pc (sy_agent s)))" "ev_id y = j" by blast
    with h in_hand_above [OF D(5) y(1)] D(3) show ?thesis by (auto simp: hands_ok_def intro!: bexI [of _ y])
  qed
  show ?thesis unfolding hands_ok_def
  proof (intro conjI ballI allI impI)
    fix y assume "y \<in> set (in_hand (ag_pc (sy_agent s')))"
    then show "y \<in> sy_ever s'" "event_matches f y" using hand [of y] h D(6) loop(1) by (auto simp: hands_ok_def)
  next
    fix j assume "Invoked j \<in> set (sy_log s')"
    then have "Invoked j \<in> set (sy_log s) \<or> Invoked j \<in> set acts" using loop(1) by simp
    then have "\<exists>x\<in>sy_ever s. ev_id x = j \<and> p0 < j \<and> event_matches f x" using h inv unfolding hands_ok_def by blast
    then show "\<exists>x\<in>sy_ever s'. ev_id x = j \<and> p0 < j \<and> event_matches f x" using loop(1) by auto
  qed
next
  case crash
  then show ?thesis using h by (simp add: hands_ok_def fresh_agent_def)
next
  case (world b ar)
  then show ?thesis using h by (auto simp: hands_ok_def)
qed

lemma reachable_hands:
  assumes "(system_step cfg)\<^sup>*\<^sup>* s s'" and "delivering cfg p0 f p s" and "hands_ok p0 f s"
  shows "\<exists>q. p \<le> q \<and> delivering cfg p0 f q s' \<and> hands_ok p0 f s'"
  using assms
proof (induction rule: rtranclp_induct)
  case base
  then show ?case by blast
next
  case (step s1 s2)
  then obtain q where q: "p \<le> q" "delivering cfg p0 f q s1" "hands_ok p0 f s1" by blast
  from system_step_delivering [OF step.hyps(2) q(2)] system_step_hands [OF step.hyps(2) q(2,3)] q(1) show ?case
    by (meson order_trans)
qed

lemma started_hands: "started cfg p f s \<Longrightarrow> hands_ok p f s"
  by (simp add: started_def hands_ok_def fresh_agent_def)

section \<open>A run of the loop as steps of the system\<close>

lemma sub_run_reachable:
  assumes "sub_run cfg ins (sy_agent s, sy_bus s) = Some ((a, b), acts)" and "list_all sqlite_fault ins"
  shows "\<exists>E. (system_step cfg)\<^sup>*\<^sup>* s (s\<lparr>sy_agent := a, sy_bus := b, sy_log := sy_log s @ acts, sy_ever := E\<rparr>) \<and> sy_ever s \<subseteq> E"
  using assms
proof (induction ins arbitrary: s acts)
  case Nil
  then have "s\<lparr>sy_agent := a, sy_bus := b, sy_log := sy_log s @ acts, sy_ever := sy_ever s\<rparr> = s" by auto
  then show ?case by (metis rtranclp.rtrancl_refl order_refl)
next
  case (Cons i ins)
  from Cons.prems(1) obtain a1 b1 acts1 acts2 where 1: "sub_step cfg i (sy_agent s, sy_bus s) = Some ((a1, b1), acts1)"
    and 2: "sub_run cfg ins (a1, b1) = Some ((a, b), acts2)" and acts: "acts = acts1 @ acts2"
    by (auto split: option.splits prod.splits)
  let ?s1 = "s\<lparr>sy_agent := a1, sy_bus := b1, sy_log := sy_log s @ acts1, sy_ever := sy_ever s \<union> set (events b1)\<rparr>"
  have st: "system_step cfg s ?s1" by (rule loop [OF 1]) (use Cons.prems(2) in simp)
  from Cons.IH [of ?s1 acts2] 2 Cons.prems(2) obtain E where
    "(system_step cfg)\<^sup>*\<^sup>* ?s1 (?s1\<lparr>sy_agent := a, sy_bus := b, sy_log := sy_log ?s1 @ acts2, sy_ever := E\<rparr>)" "sy_ever ?s1 \<subseteq> E"
    by auto
  with st show ?case unfolding acts by (intro exI [of _ E]) (auto intro: converse_rtranclp_into_rtranclp)
qed

section \<open>Properties\<close>

text \<open>Delivery is at least once. A subscriber starts at position \<open>p0\<close> with filter \<open>f\<close>; its loop then
  runs, fails and is stopped, crashes and restarts at any point, while other processes emit, sweep
  (either tier, any policy but \<open>discard\<close>), acknowledge, register, deregister and manage dead letters in
  any interleaving. In every state reached, each matching event that was ever stored with a larger id
  than \<open>p0\<close> has been handled successfully, has been dead-lettered, has a copy in an archive, or is
  still stored above the cursor, where the next polls return it.\<close>

theorem delivery_at_least_once:
  assumes "started cfg p0 f s" and "(system_step cfg)\<^sup>*\<^sup>* s s'"
    and "x \<in> sy_ever s'" and "p0 < ev_id x" and "event_matches f x"
  shows "\<exists>p. cursor_position (sy_bus s') (sb_cursor cfg) = Some p \<and> cursor_filter (sy_bus s') (sb_cursor cfg) = Some f \<and>
     (Handled (ev_id x) \<in> set (sy_log s') \<or> DeadLettered (ev_id x) \<in> set (sy_log s') \<or>
      ev_id x \<in> saved (sy_bus s') (sy_archive s') \<or>
      (p < ev_id x \<and> ev_id x \<in> ev_id ` set (events (sy_bus s'))))"
proof -
  from reachable_delivering [OF assms(2) started_delivering [OF assms(1)]] obtain p where d: "delivering cfg p0 f p s'" by blast
  have "accounted s' p (ev_id x)" using deliveringD(9) [OF d assms(3-5)] .
  then show ?thesis using attached_update(2,3) [OF deliveringD(2) [OF d]]
    unfolding accounted_def covered_def by (intro exI [of _ p]) blast
qed

definition demo_system :: system where
  "demo_system = \<lparr>sy_agent = fresh_agent, sy_bus = demo_bus [4, 5, 6] 3, sy_archive = no_archive, sy_log = [],
     sy_ever = set (events (demo_bus [4, 5, 6] 3))\<rparr>"

lemma demo_started: "started demo_config 3 ''wicked.*'' demo_system"
proof -
  have "bus_wf (demo_bus [4, 5, 6] 3)" by (rule demo_bus_wf) auto
  moreover have "dedup_ok (demo_bus [4, 5, 6] 3)" by (simp add: dedup_ok_def demo_bus_def demo_row_def)
  moreover have "attached demo_config 3 ''wicked.*'' (demo_bus [4, 5, 6] 3)"
    by (simp add: attached_def demo_config_def demo_bus_def find_cursor_def find_sub_def cursor_active_def sub_active_def)
  ultimately show ?thesis by (simp add: started_def sound_bus_def demo_system_def) (simp add: demo_bus_def)
qed

text \<open>A tick that handles events 4 and 5, then a crash, then a sweep of everything expired and not owed.\<close>

lemma demo_reached:
  "\<exists>s'. (system_step demo_config)\<^sup>*\<^sup>* demo_system s' \<and> sy_ever demo_system \<subseteq> sy_ever s' \<and>
     sy_log s' = [Invoked 4, Handled 4, Invoked 5, Handled 5] \<and> map ev_id (events (sy_bus s')) = [6] \<and>
     cursor_position (sy_bus s') ''c'' = Some 5"
proof -
  obtain a b acts where r: "sub_run demo_config (tick_inputs 0 2) (fresh_agent, demo_bus [4, 5, 6] 3) = Some ((a, b), acts)"
    and acts: "acts = [Invoked 4, Handled 4, Invoked 5, Handled 5]" and swept: "map ev_id (events (snd (runSweep (demo_sweep JUndef) 11 b))) = [6]"
    and pos: "cursor_position (snd (runSweep (demo_sweep JUndef) 11 b)) ''c'' = Some 5"
  proof -
    have "case sub_run demo_config (tick_inputs 0 2) (fresh_agent, demo_bus [4, 5, 6] 3) of
        None \<Rightarrow> False | Some ((a, b), acts) \<Rightarrow> acts = [Invoked 4, Handled 4, Invoked 5, Handled 5] \<and>
          map ev_id (events (snd (runSweep (demo_sweep JUndef) 11 b))) = [6] \<and>
          cursor_position (snd (runSweep (demo_sweep JUndef) 11 b)) ''c'' = Some 5" by code_simp
    then show ?thesis using that by (auto split: option.splits prod.splits)
  qed
  have "list_all sqlite_fault (tick_inputs 0 2)" by code_simp
  with sub_run_reachable [of demo_config "tick_inputs 0 2" demo_system a b acts] r obtain E where
    1: "(system_step demo_config)\<^sup>*\<^sup>* demo_system (demo_system\<lparr>sy_agent := a, sy_bus := b, sy_log := acts, sy_ever := E\<rparr>)"
    and E: "sy_ever demo_system \<subseteq> E" by (auto simp: demo_system_def)
  let ?s1 = "demo_system\<lparr>sy_agent := a, sy_bus := b, sy_log := acts, sy_ever := E\<rparr>"
  let ?b = "snd (runSweep (demo_sweep JUndef) 11 b)"
  have 2: "system_step demo_config ?s1 (?s1\<lparr>sy_agent := fresh_agent\<rparr>)" by (rule crash)
  have "other_step demo_config b ?b" by (rule sweeps) simp
  then have 3: "system_step demo_config (?s1\<lparr>sy_agent := fresh_agent\<rparr>)
      ((?s1\<lparr>sy_agent := fresh_agent\<rparr>)\<lparr>sy_bus := ?b, sy_archive := no_archive, sy_ever := E \<union> set (events ?b)\<rparr>)"
    using system_step.world [of demo_config "?s1\<lparr>sy_agent := fresh_agent\<rparr>" ?b no_archive] world_step.other
    by (simp add: demo_system_def)
  have "(system_step demo_config)\<^sup>*\<^sup>* demo_system
      ((?s1\<lparr>sy_agent := fresh_agent\<rparr>)\<lparr>sy_bus := ?b, sy_archive := no_archive, sy_ever := E \<union> set (events ?b)\<rparr>)"
    using 1 2 3 by (meson rtranclp.rtrancl_into_rtrancl)
  then show ?thesis using E acts swept pos by (intro exI conjI) (assumption | simp | blast)+
qed

lemma demo_ever: "demo_row i ''wicked.a'' \<in> sy_ever demo_system" if "i \<in> {4, 5, 6}"
  using that by (auto simp: demo_system_def demo_bus_def)

lemma demo_matches [simp]: "event_matches ''wicked.*'' (demo_row i ''wicked.a'')"
proof -
  have "event_matches ''wicked.*'' (demo_row 0 ''wicked.a'')" by code_simp
  then show ?thesis by (simp add: event_matches_def demo_row_def)
qed

lemma delivery_at_least_once_witness:
  "\<exists>s'. (system_step demo_config)\<^sup>*\<^sup>* demo_system s' \<and> Handled 5 \<in> set (sy_log s') \<and>
     6 \<in> ev_id ` set (events (sy_bus s')) \<union> saved (sy_bus s') (sy_archive s')"
proof -
  from demo_reached obtain s' where s': "(system_step demo_config)\<^sup>*\<^sup>* demo_system s'" "sy_ever demo_system \<subseteq> sy_ever s'"
    "sy_log s' = [Invoked 4, Handled 4, Invoked 5, Handled 5]" by blast
  have x: "demo_row 6 ''wicked.a'' \<in> sy_ever s'" "ev_id (demo_row 6 ''wicked.a'') = 6"
    using s'(2) demo_ever [of 6] by (auto simp: demo_row_def)
  from delivery_at_least_once [OF demo_started s'(1) x(1) _ demo_matches] x(2) s'(1,3) show ?thesis by auto
qed

text \<open>C12: The subscriber never moves its cursor backwards: through retries, dead letters, its own re-anchoring,
  crashes and restarts, and whatever other processes do to everything but this cursor, a later state has a
  position at least as large. Other processes that move or retire this very cursor are excluded:
  \<open>wicked-bus replay\<close> sets it back on purpose, an \<open>ack\<close> or a re-anchoring of it from elsewhere may do
  so, \<open>deregister\<close> ends it; so are sweeps under the policy \<open>discard\<close>.\<close>

theorem cursor_never_regresses:
  assumes "started cfg p0 f s" and "(system_step cfg)\<^sup>*\<^sup>* s s1" and "(system_step cfg)\<^sup>*\<^sup>* s1 s2"
  shows "\<exists>p q. cursor_position (sy_bus s1) (sb_cursor cfg) = Some p \<and> cursor_position (sy_bus s2) (sb_cursor cfg) = Some q \<and>
     p0 \<le> p \<and> p \<le> q"
proof -
  from reachable_delivering [OF assms(2) started_delivering [OF assms(1)]] obtain p where
    p: "p0 \<le> p" "delivering cfg p0 f p s1" by blast
  from reachable_delivering [OF assms(3) p(2)] obtain q where "p \<le> q" "delivering cfg p0 f q s2" by blast
  with p show ?thesis using attached_update(2) deliveringD(2) by metis
qed

lemma cursor_never_regresses_witness:
  "\<exists>s2 q. (system_step demo_config)\<^sup>*\<^sup>* demo_system s2 \<and> sy_log s2 \<noteq> [] \<and>
     cursor_position (sy_bus s2) ''c'' = Some q \<and> 3 \<le> q"
proof -
  from demo_reached obtain s' where s': "(system_step demo_config)\<^sup>*\<^sup>* demo_system s'"
    "sy_log s' = [Invoked 4, Handled 4, Invoked 5, Handled 5]" by blast
  from cursor_never_regresses [OF demo_started rtranclp.rtrancl_refl s'(1)] s' show ?thesis
    by (fastforce simp: demo_config_def)
qed

text \<open>The handler sees what it subscribed to only: in every reachable state, each event the handler
  was called with had been stored, lies above the starting position and matches the filter.\<close>

theorem only_matching_events_are_handled:
  assumes "started cfg p0 f s" and "(system_step cfg)\<^sup>*\<^sup>* s s'" and "Invoked i \<in> set (sy_log s')"
  shows "\<exists>x\<in>sy_ever s'. ev_id x = i \<and> p0 < i \<and> event_matches f x"
  using reachable_hands [OF assms(2) started_delivering [OF assms(1)] started_hands [OF assms(1)]] assms(3)
  unfolding hands_ok_def by blast

lemma only_matching_events_are_handled_witness:
  "\<exists>s' x. (system_step demo_config)\<^sup>*\<^sup>* demo_system s' \<and> x \<in> sy_ever s' \<and> ev_id x = 5 \<and> event_matches ''wicked.*'' x"
proof -
  from demo_reached obtain s' where s': "(system_step demo_config)\<^sup>*\<^sup>* demo_system s'"
    "sy_log s' = [Invoked 4, Handled 4, Invoked 5, Handled 5]" by blast
  have "Invoked 5 \<in> set (sy_log s')" using s'(2) by simp
  from only_matching_events_are_handled [OF demo_started s'(1) this] s'(1) show ?thesis by blast
qed

end
