(* ===== verification/BusStart.thy ===== *)
theory BusStart
  imports BusDelivery
begin

text \<open>
  The entry point \<open>subscribe()\<close> of \<open>lib/subscribe.js\<close>: the checks of its options, the defaults, and the
  resumed or new registration. Proved: it starts the loop of \<open>BusDelivery\<close> in a state from which
  at-least-once delivery holds, at the stored position or, when new, where it was asked to start.
\<close>

section \<open>subscribe\<close>

record subscribe_opts =
  so_plugin :: string
  so_filter :: string
  so_handler :: jsval
  so_batch :: "int option"
  so_max_retries :: "int option"
  so_backoff :: backoff
  so_cursor_init :: "string option"

definition subscribe :: "subscribe_opts \<Rightarrow> string \<Rightarrow> string \<Rightarrow> rat \<Rightarrow> bool \<Rightarrow> bus \<Rightarrow> sub_config res \<times> bus" where
  "subscribe opts sid cid now io_ok b =
     (if so_plugin opts = [] then (Inl (PlainError ''subscribe: opts.plugin is required''), b)
      else if so_filter opts = [] then (Inl (PlainError ''subscribe: opts.filter is required''), b)
      else if typeof (so_handler opts) \<noteq> ''function'' then (Inl (PlainError ''subscribe: opts.handler must be a function''), b)
      else (let maxRetries = (case so_max_retries opts of Some n \<Rightarrow> n | None \<Rightarrow> 0) in
            case registerOrResume b (so_plugin opts) (so_filter opts)
                   (case or_null (so_cursor_init opts) of Some i \<Rightarrow> i | None \<Rightarrow> ''latest'') sid cid now io_ok of
              (Inl e, b1) \<Rightarrow> (Inl e, b1)
            | (Inr (s, c, _), b1) \<Rightarrow>
                (Inr \<lparr>sb_cursor = c, sb_sub = s, sb_batch = (case so_batch opts of Some n \<Rightarrow> n | None \<Rightarrow> 50),
                   sb_max_retries = maxRetries, sb_backoff = normalizeBackoff (so_backoff opts) maxRetries\<rparr>, b1)))"

text \<open>Where the loop starts.\<close>

definition start_position :: "subscribe_opts \<Rightarrow> bus \<Rightarrow> int" where
  "start_position opts b =
     (case sort_key (\<lambda>(s, c). - su_registered_at s) (resumable b (so_plugin opts) (so_filter opts)) of
        (s, c) # _ \<Rightarrow> cu_last c
      | [] \<Rightarrow> initial_position b (Some (case or_null (so_cursor_init opts) of Some i \<Rightarrow> i | None \<Rightarrow> ''latest'')))"

definition positions_ok :: "bus \<Rightarrow> bool" where
  "positions_ok b \<longleftrightarrow> (\<forall>c\<in>set (cursors b). cu_last c \<le> events_seq b)"

definition begun :: "bus \<Rightarrow> archive \<Rightarrow> system" where
  "begun b ar = \<lparr>sy_agent = fresh_agent, sy_bus = b, sy_archive = ar, sy_log = [], sy_ever = set (events b)\<rparr>"

lemma resumable_attached:
  assumes "bus_wf b" and "(s, c) \<in> set (resumable b plugin flt)"
  shows "find_cursor b (cu_id c) = Some c \<and> cursor_active c \<and> cu_sub c = su_id s \<and> find_sub b (su_id s) = Some s \<and>
    sub_active s \<and> su_filter s = flt \<and> c \<in> set (cursors b)"
proof -
  from assms(2) have r: "s \<in> set (subscriptions b)" "c \<in> set (cursors b)" "cu_sub c = su_id s" "cursor_active c"
    "sub_active s" "su_filter s = flt" by (auto simp: resumable_def split: if_splits)
  moreover from r have "find_cursor b (cu_id c) = Some c" "find_sub b (su_id s) = Some s"
    using assms(1) find_key_eq [of cu_id "cursors b" c] find_key_eq [of su_id "subscriptions b" s]
    by (auto simp: find_cursor_def find_sub_def wf_defs)
  ultimately show ?thesis by blast
qed

lemma initial_position_le: "bus_wf b \<Longrightarrow> initial_position b ci \<le> events_seq b"
proof -
  assume "bus_wf b"
  then have wf: "events_wf b" by (rule bus_wfD)
  then have "0 \<le> events_seq b" by (simp add: events_wf_def)
  moreover have "m \<le> events_seq b" if "max_event_id b = Some m" for m
    using max_event_id_Some [OF that] wf by (auto simp: events_wf_def)
  ultimately show ?thesis by (auto simp: initial_position_def split: option.split)
qed

text \<open>A new registration attaches a cursor where it was asked to start.\<close>

lemma register_attached:
  assumes sound: "sound_bus b" and role: "ro_role opts = ''subscriber''"
    and fresh: "sid \<notin> su_id ` set (subscriptions b)" "cid \<notin> cu_id ` set (cursors b)"
  obtains r b' where "register b opts sid cid now ok = (Inr r, b')" and "rr_cursor_id r = Some cid"
    and "rr_last_event_id r = Some (initial_position b (ro_cursor_init opts))" and "sound_bus b'"
    and "initial_position b (ro_cursor_init opts) \<le> events_seq b'" and "events b' = events b"
    and "\<And>cfg. sb_cursor cfg = cid \<Longrightarrow> sb_sub cfg = sid \<Longrightarrow> attached cfg (initial_position b (ro_cursor_init opts)) (ro_filter opts) b'"
proof -
  note wf = sound_busD(1) [OF sound]
  from register_subscriber [OF role fresh] obtain r b' where
    reg: "register b opts sid cid now ok = (Inr r, b')" "rr_cursor_id r = Some cid"
    "rr_last_event_id r = Some (initial_position b (ro_cursor_init opts))" "events b' = events b" by blast
  have b': "b' = snd (register b opts sid cid now ok)" using reg(1) by simp
  note tb = register_tables [of b opts sid cid now ok, folded b']
  have "sound_bus b'" using quiet_sound [OF sound, of b' 0 "[]" no_archive] register_wf [OF wf, of opts sid cid now ok] tb b' by simp
  moreover have "initial_position b (ro_cursor_init opts) \<le> events_seq b'" using initial_position_le [OF wf] tb by simp
  moreover have "find (\<lambda>x. cu_id x = cid) (cursors b) = None" "find (\<lambda>x. su_id x = sid) (subscriptions b) = None"
    using fresh by (auto simp: find_None_iff)
  then have "attached cfg (initial_position b (ro_cursor_init opts)) (ro_filter opts) b'" if "sb_cursor cfg = cid" "sb_sub cfg = sid" for cfg
    using role fresh that unfolding b'
    by (simp add: register_def insert_subscription_def insert_cursor_def Let_def attached_def initial_position_def
        max_event_id_def find_cursor_def find_sub_def find_append cursor_active_def sub_active_def)
  ultimately show ?thesis using that reg by blast
qed

lemma subscribe_started:
  assumes sub: "subscribe opts sid cid now io b = (Inr cfg, b')" and sound: "sound_bus b" and pos: "positions_ok b"
    and fresh: "sid \<notin> su_id ` set (subscriptions b)" "cid \<notin> cu_id ` set (cursors b)"
  shows "started cfg (start_position opts b) (so_filter opts) (begun b' ar) \<and> events b' = events b"
proof -
  note wf = sound_busD(1) [OF sound]
  let ?ci = "case or_null (so_cursor_init opts) of Some i \<Rightarrow> i | None \<Rightarrow> ''latest''"
  let ?l = "sort_key (\<lambda>(s, c). - su_registered_at s) (resumable b (so_plugin opts) (so_filter opts))"
  obtain s c new where r: "registerOrResume b (so_plugin opts) (so_filter opts) ?ci sid cid now io = (Inr (s, c, new), b')"
    and cfg: "sb_cursor cfg = c" "sb_sub cfg = s"
    using sub by (auto simp: subscribe_def Let_def split: if_splits sum.splits prod.splits)
  have goal: ?thesis if "sound_bus b'" "attached cfg (start_position opts b) (so_filter opts) b'"
    "start_position opts b \<le> events_seq b'" "events b' = events b"
    using that by (simp add: started_def begun_def)
  show ?thesis
  proof (cases ?l)
    case (Cons sc rest)
    obtain sr cr where sc: "sc = (sr, cr)" by (cases sc)
    have "(sr, cr) \<in> set ?l" by (simp add: Cons sc)
    then have "(sr, cr) \<in> set (resumable b (so_plugin opts) (so_filter opts))" by simp
    note at = resumable_attached [OF wf this]
    have b': "b' = b" "s = su_id sr" "c = cu_id cr" using r Cons sc by (simp_all add: registerOrResume_def)
    have sp: "start_position opts b = cu_last cr" using Cons sc by (simp add: start_position_def)
    show ?thesis
    proof (rule goal)
      show "attached cfg (start_position opts b) (so_filter opts) b'" using at cfg b' sp by (auto simp: attached_def)
      show "start_position opts b \<le> events_seq b'" using at pos b'(1) sp by (simp add: positions_ok_def)
    qed (use sound b' in simp_all)
  next
    case Nil
    let ?o = "\<lparr>ro_plugin = so_plugin opts, ro_role = ''subscriber'', ro_filter = so_filter opts, ro_schema_version = None,
        ro_cursor_init = Some ?ci\<rparr>"
    obtain res b1 where reg: "register b ?o sid cid now io = (Inr res, b1)" "rr_cursor_id res = Some cid"
      and b1: "sound_bus b1" "initial_position b (ro_cursor_init ?o) \<le> events_seq b1" "events b1 = events b"
      and at: "\<And>cfg. sb_cursor cfg = cid \<Longrightarrow> sb_sub cfg = sid \<Longrightarrow> attached cfg (initial_position b (ro_cursor_init ?o)) (ro_filter ?o) b1"
      by (rule register_attached [OF sound _ fresh, of ?o now io]) simp_all
    have b': "b' = b1" "c = cid" using r Nil reg by (simp_all add: registerOrResume_def)
    have s: "s = sid" using r Nil reg
      by (auto simp: registerOrResume_def register_def Let_def split: prod.splits sum.splits role.splits if_splits)
    have sp: "start_position opts b = initial_position b (Some ?ci)" using Nil by (simp add: start_position_def)
    show ?thesis by (rule goal) (use b1 at cfg in \<open>simp_all add: b' s sp\<close>)
  qed
qed

text \<open>C1: \<open>subscribe()\<close> delivers at least once from its first call. On a bus in order, whether it resumes the newest
  active subscription of the plugin with that filter or registers a new one, the loop it starts runs
  on an active cursor with that filter; and in every state reached afterwards, with failures, crashes and
  the steps of other processes in any interleaving, each matching event ever stored above the starting
  position (the stored one, or, when new, the end of the bus or its beginning as asked) has been handled,
  dead-lettered or archived, or is still stored above the cursor. The other processes may emit, sweep either
  tier, acknowledge and re-anchor other cursors, register, retire other subscriptions and replay or drop dead
  letters; excluded are sweeps under the policy \<open>discard\<close>, which delete owed events without a copy, and
  whatever moves or retires this very cursor (\<open>wicked-bus replay\<close>, a foreign \<open>ack\<close>, \<open>deregister\<close>).\<close>

theorem subscribe_delivers:
  assumes "subscribe opts sid cid now io b = (Inr cfg, b')" and "sound_bus b" and "positions_ok b"
    and "sid \<notin> su_id ` set (subscriptions b)" and "cid \<notin> cu_id ` set (cursors b)"
    and "(system_step cfg)\<^sup>*\<^sup>* (begun b' ar) s'"
    and "x \<in> sy_ever s'" and "start_position opts b < ev_id x" and "event_matches (so_filter opts) x"
  shows "\<exists>p. start_position opts b \<le> p \<and> cursor_position (sy_bus s') (sb_cursor cfg) = Some p \<and>
     cursor_filter (sy_bus s') (sb_cursor cfg) = Some (so_filter opts) \<and>
     (Handled (ev_id x) \<in> set (sy_log s') \<or> DeadLettered (ev_id x) \<in> set (sy_log s') \<or>
      ev_id x \<in> saved (sy_bus s') (sy_archive s') \<or> (p < ev_id x \<and> ev_id x \<in> ev_id ` set (events (sy_bus s'))))"
proof -
  from subscribe_started [OF assms(1-5), of ar] have "started cfg (start_position opts b) (so_filter opts) (begun b' ar)" ..
  from reachable_delivering [OF assms(6) started_delivering [OF this]] obtain p where
    p: "start_position opts b \<le> p" "delivering cfg (start_position opts b) (so_filter opts) p s'" by blast
  from deliveringD(9) [OF p(2) assms(7-9)] show ?thesis
    using p(1) attached_update(2,3) [OF deliveringD(2) [OF p(2)]]
    unfolding accounted_def covered_def by (intro exI [of _ p]) blast
qed

definition demo_subscribe_opts :: subscribe_opts where
  "demo_subscribe_opts = \<lparr>so_plugin = ''p'', so_filter = ''wicked.*'', so_handler = JFun, so_batch = Some 2, so_max_retries = Some 2,
     so_backoff = Steps [10, 20], so_cursor_init = None\<rparr>"

lemma subscribe_delivers_witness:
  "\<exists>s'. fst (subscribe demo_subscribe_opts ''s2'' ''c2'' 0 True (demo_bus [4, 5, 6] 3)) = Inr demo_config \<and>
     (system_step demo_config)\<^sup>*\<^sup>* (begun (demo_bus [4, 5, 6] 3) no_archive) s' \<and> Handled 5 \<in> set (sy_log s') \<and>
     (\<exists>p\<ge>3. cursor_position (sy_bus s') ''c'' = Some p)"
proof -
  let ?b = "demo_bus [4, 5, 6] 3"
  have sub: "subscribe demo_subscribe_opts ''s2'' ''c2'' 0 True ?b = (Inr demo_config, ?b)"
    by (simp add: subscribe_def demo_subscribe_opts_def registerOrResume_def resumable_def demo_bus_def sub_active_def cursor_active_def
        normalizeBackoff_def demo_config_def upt_rec numeral_2_eq_2)
  have d: "begun ?b no_archive = demo_system" by (simp add: begun_def demo_system_def)
  have sound: "sound_bus ?b" using demo_started by (simp add: started_def demo_system_def)
  have ok: "positions_ok ?b" by (simp add: positions_ok_def demo_bus_def)
  have fresh: "''s2'' \<notin> su_id ` set (subscriptions ?b)" "''c2'' \<notin> cu_id ` set (cursors ?b)" by (simp_all add: demo_bus_def)
  have sp: "start_position demo_subscribe_opts ?b = 3"
    by (simp add: start_position_def demo_subscribe_opts_def resumable_def demo_bus_def sub_active_def cursor_active_def)
  from demo_reached obtain s' where s': "(system_step demo_config)\<^sup>*\<^sup>* (begun ?b no_archive) s'" "sy_ever demo_system \<subseteq> sy_ever s'"
    "sy_log s' = [Invoked 4, Handled 4, Invoked 5, Handled 5]" unfolding d by blast
  have x: "demo_row 6 ''wicked.a'' \<in> sy_ever s'" "start_position demo_subscribe_opts ?b < ev_id (demo_row 6 ''wicked.a'')"
    "event_matches (so_filter demo_subscribe_opts) (demo_row 6 ''wicked.a'')"
  proof -
    have "ev_id (demo_row 6 ''wicked.a'') = 6" by (simp add: demo_row_def)
    then show "demo_row 6 ''wicked.a'' \<in> sy_ever s'" "start_position demo_subscribe_opts ?b < ev_id (demo_row 6 ''wicked.a'')"
      "event_matches (so_filter demo_subscribe_opts) (demo_row 6 ''wicked.a'')"
      using s'(2) demo_ever [of 6] sp by (auto simp: demo_subscribe_opts_def)
  qed
  from subscribe_delivers [OF sub sound ok fresh s'(1) x] sub s'(1,3) sp show ?thesis
    by (intro exI [of _ s']) (auto simp: demo_config_def)
qed

end
