(* ===== verification/BusDrain.thy ===== *)
theory BusDrain
  imports BusPoll BusRegister
begin

text \<open>
  The command-line consumer, \<open>commands/cmd-subscribe.js\<close>: its arguments, the choice of the cursor, one
  round of the streaming loop, and the drain mode as a loop over rounds, between which other connections
  may commit. Proved: a drain prints the whole backlog once and stops, whatever the batch size; with
  acknowledgments it prints nothing twice although others write; without them a recovery repeats events.
\<close>

section \<open>Arguments\<close>

text \<open>\<open>args\<close> is the object of \<open>parseArgs\<close>.\<close>

definition wantsHelp :: "jsval \<Rightarrow> bool" where
  "wantsHelp args \<longleftrightarrow> jget args ''help'' = JBool True \<or>
     (case jget args ''_positional'' of JArr xs \<Rightarrow> JStr ''-h'' \<in> set xs | _ \<Rightarrow> False)"

definition usage_error :: "string \<Rightarrow> js_error" where
  "usage_error reason = WB WB001 [(''reason'', JStr reason)]"

definition parse_idle_timeout :: "host \<Rightarrow> jsval \<Rightarrow> (rat option) res" where
  "parse_idle_timeout h args =
     (let v = jget args ''idle-timeout'' in
      if nullish v \<or> v = JBool True then Inr None
      else (case js_Number h v of
              Fin q \<Rightarrow> if q < 0 then Inl (usage_error ''invalid --idle-timeout'') else Inr (Some q)
            | _ \<Rightarrow> Inl (usage_error ''invalid --idle-timeout'')))"

text \<open>True for \<open>recover\<close>, false for \<open>fail\<close>.\<close>

definition parse_on_stale :: "host \<Rightarrow> jsval \<Rightarrow> bool res" where
  "parse_on_stale h args =
     (let v = jget args ''on-stale'' in
      if v = JBool True then Inl (usage_error ''invalid --on-stale'')
      else if nullish v then Inr True
      else (let raw = js_String h v in
            if raw = ''recover'' \<or> raw = ''skip'' then Inr True
            else if raw = ''fail'' then Inr False
            else Inl (usage_error ''invalid --on-stale'')))"

record drain_opts =
  do_batch :: int
  do_no_ack :: bool
  do_interval :: rat
  do_idle :: "rat option"
  do_recover :: bool

text \<open>What is checked before the database is opened: the plugin, whether to drain, and the two options.\<close>

definition subscribe_args :: "host \<Rightarrow> jsval \<Rightarrow> (jsval \<times> bool \<times> rat option \<times> bool) res" where
  "subscribe_args h args =
     (let plugin = jget args ''plugin'' in
      if \<not> truthy plugin \<or> plugin = JBool True then Inl (usage_error ''missing --plugin'')
      else (case parse_idle_timeout h args of
              Inl e \<Rightarrow> Inl e
            | Inr idle \<Rightarrow>
                (case parse_on_stale h args of
                   Inl e \<Rightarrow> Inl e
                 | Inr recover \<Rightarrow>
                     Inr (plugin, jget args ''once'' = JBool True \<or> jget args ''drain'' = JBool True, idle, recover))))"

section \<open>The cursor\<close>

text \<open>The active pairs of the plugin with this filter: the join of the query.\<close>

definition matching_pairs :: "bus \<Rightarrow> string \<Rightarrow> string \<Rightarrow> (string \<times> string) list" where
  "matching_pairs b plugin flt = concat (map (\<lambda>s.
       if su_plugin s = plugin \<and> su_filter s = flt \<and> su_role s = Subscriber \<and> sub_active s
       then map (\<lambda>c. (su_id s, cu_id c)) (filter (\<lambda>c. cu_sub c = su_id s \<and> cursor_active c) (cursors b))
       else []) (subscriptions b))"

definition resolve_cursor ::
  "bus \<Rightarrow> string option \<Rightarrow> string \<Rightarrow> string \<Rightarrow> string option \<Rightarrow> string \<Rightarrow> string \<Rightarrow> rat \<Rightarrow> string res \<times> bus" where
  "resolve_cursor b given plugin flt cursor_init new_sub new_cursor now =
     (case or_null given of
        Some cid \<Rightarrow> (Inr cid, b)
      | None \<Rightarrow>
          (case matching_pairs b plugin flt of
             [(_, cid)] \<Rightarrow> (Inr cid, b)
           | _ # _ # _ \<Rightarrow> (Inl (usage_error ''ambiguous subscription''), b)
           | [] \<Rightarrow>
               (case register b \<lparr>ro_plugin = plugin, ro_role = ''subscriber'', ro_filter = flt, ro_schema_version = None,
                   ro_cursor_init = Some (case or_null cursor_init of Some c \<Rightarrow> c | None \<Rightarrow> ''latest'')\<rparr> new_sub new_cursor now True of
                  (Inl e, b1) \<Rightarrow> (Inl e, b1)
                | (Inr r, b1) \<Rightarrow> (Inr (case rr_cursor_id r of Some c \<Rightarrow> c | None \<Rightarrow> []), b1))))"

section \<open>Recovery\<close>

definition recoverFromStale :: "bus \<Rightarrow> string \<Rightarrow> js_error \<Rightarrow> rat \<Rightarrow> int res \<times> bus" where
  "recoverFromStale b cid err now =
     (case js_int (ctx_get err ''oldest_available_event_id'') of
        None \<Rightarrow> (Inl (WB WB003 [(''reason'', JStr ''unrecoverable stale cursor''), (''cursor_id'', JStr cid)]), b)
      | Some oldest \<Rightarrow>
          (case reanchor_cursor b cid (jint (oldest - 1)) now of
             (Inl e, b1) \<Rightarrow> (Inl e, b1)
           | (Inr _, b1) \<Rightarrow> (Inr (oldest - 1), b1)))"

section \<open>Drain mode\<close>

record drain =
  dn_floor :: int
  dn_delivered :: nat
  dn_deadline :: "rat option"

definition drain_start :: "drain_opts \<Rightarrow> string \<Rightarrow> rat \<Rightarrow> bus \<Rightarrow> drain" where
  "drain_start opts cid now b =
     \<lparr>dn_floor = (case find_cursor b cid of Some c \<Rightarrow> cu_last c | None \<Rightarrow> 0), dn_delivered = 0,
      dn_deadline = map_option (\<lambda>ms. now + ms) (do_idle opts)\<rparr>"

text \<open>The loop over a batch: what is printed, the error that ends it, and the state.\<close>

fun print_batch :: "bool \<Rightarrow> string \<Rightarrow> rat \<Rightarrow> event_row list \<Rightarrow> drain \<Rightarrow> bus \<Rightarrow> event_row list \<times> js_error option \<times> drain \<times> bus" where
  "print_batch noAck cid now [] st b = ([], None, st, b)"
| "print_batch noAck cid now (e # es) st b =
     (let st1 = st\<lparr>dn_floor := ev_id e\<rparr>; st2 = st1\<lparr>dn_delivered := dn_delivered st + 1\<rparr> in
      if noAck then (let (out, err, r) = print_batch noAck cid now es st2 b in (e # out, err, r))
      else (case ack b cid (ev_id e) now of
              (Inl x, b1) \<Rightarrow> ([e], Some x, st1, b1)
            | (Inr _, b1) \<Rightarrow> (let (out, err, r) = print_batch noAck cid now es st2 b1 in (e # out, err, r))))"

datatype round_end = Again | Sleeps rat | Drained | Threw js_error

definition drain_round :: "drain_opts \<Rightarrow> string \<Rightarrow> rat \<Rightarrow> drain \<Rightarrow> bus \<Rightarrow> round_end \<times> event_row list \<times> drain \<times> bus" where
  "drain_round opts cid now st b =
     (case poll b cid (Some (do_batch opts)) (Some (dn_floor st)) of
        Inl e \<Rightarrow>
          if is_wb WB003 e \<and> do_recover opts
          then (case recoverFromStale b cid e now of
                  (Inl x, b1) \<Rightarrow> (Threw x, [], st, b1)
                | (Inr fl, b1) \<Rightarrow> (Again, [], st\<lparr>dn_floor := fl\<rparr>, b1))
          else (Threw e, [], st, b)
      | Inr [] \<Rightarrow>
          (case dn_deadline st of
             None \<Rightarrow> (Drained, [], st, b)
           | Some d \<Rightarrow> if d \<le> now then (Drained, [], st, b) else (Sleeps (min (do_interval opts) (d - now)), [], st, b))
      | Inr (e # es) \<Rightarrow>
          (case print_batch (do_no_ack opts) cid now (e # es) st b of
             (out, Some x, st1, b1) \<Rightarrow> (Threw x, out, st1, b1)
           | (out, None, st1, b1) \<Rightarrow> (Again, out, st1\<lparr>dn_deadline := map_option (\<lambda>ms. now + ms) (do_idle opts)\<rparr>, b1)))"

text \<open>
  The loop, one round per element: the clock, whether a signal has arrived, and what other connections
  commit before the round. \<open>None\<close>: the list is used up and the loop goes on. The result is the summary,
  \<open>drained\<close> and \<open>last_event_id\<close>, or the error thrown.
\<close>

fun runDrain :: "drain_opts \<Rightarrow> string \<Rightarrow> (rat \<times> bool \<times> (bus \<Rightarrow> bus)) list \<Rightarrow> drain \<Rightarrow> bus \<Rightarrow>
    (nat \<times> int) res option \<times> event_row list \<times> bus" where
  "runDrain opts cid [] st b = (None, [], b)"
| "runDrain opts cid ((now, signalled, others) # rounds) st b =
     (if signalled then (Some (Inr (dn_delivered st, dn_floor st)), [], b)
      else (case drain_round opts cid now st (others b) of
              (Threw x, out, st1, b1) \<Rightarrow> (Some (Inl x), out, b1)
            | (Drained, out, st1, b1) \<Rightarrow> (Some (Inr (dn_delivered st1, dn_floor st1)), out, b1)
            | (_, out, st1, b1) \<Rightarrow> (let (r, out', b2) = runDrain opts cid rounds st1 b1 in (r, out @ out', b2))))"

section \<open>Streaming\<close>

text \<open>
  One pass of the poll loop. An error of the batch, also of an acknowledgment, is caught: the recovery,
  a report on stderr, or, for \<open>WB-003\<close> without recovery and \<open>WB-006\<close>, the end.
\<close>

definition stream_round :: "drain_opts \<Rightarrow> string \<Rightarrow> rat \<Rightarrow> bus \<Rightarrow> js_error option \<times> event_row list \<times> bus" where
  "stream_round opts cid now b =
     (let (out, err, b1) = (case poll b cid (Some (do_batch opts)) None of
            Inl e \<Rightarrow> ([], Some e, b)
          | Inr es \<Rightarrow> (case print_batch (do_no_ack opts) cid now es \<lparr>dn_floor = 0, dn_delivered = 0, dn_deadline = None\<rparr> b of
                (out, err, _, b1) \<Rightarrow> (out, err, b1)))
      in case err of
           None \<Rightarrow> (None, out, b1)
         | Some e \<Rightarrow>
             if is_wb WB003 e \<and> do_recover opts
             then (case recoverFromStale b1 cid e now of
                     (Inl x, b2) \<Rightarrow> (Some x, out, b2)
                   | (Inr _, b2) \<Rightarrow> (None, out, b2))
             else (if is_wb WB003 e \<or> is_wb WB006 e then Some e else None, out, b1))"

section \<open>One batch\<close>

lemma print_batch_active:
  assumes "bus_wf b" and "cursor_position b cid = Some p"
  shows "\<exists>b'. print_batch noAck cid now es st b =
      (es, None, st\<lparr>dn_floor := last (dn_floor st # map ev_id es), dn_delivered := dn_delivered st + length es\<rparr>, b') \<and>
    bus_wf b' \<and> events b' = events b \<and> cursor_filter b' cid = cursor_filter b cid \<and>
    cursor_position b' cid = Some (if noAck then p else last (p # map ev_id es))"
  using assms
proof (induction es arbitrary: st b p)
  case Nil
  then show ?case by simp
next
  case (Cons e es)
  let ?st = "st\<lparr>dn_floor := ev_id e, dn_delivered := dn_delivered st + 1\<rparr>"
  show ?case
  proof (cases noAck)
    case True
    from Cons.IH [OF Cons.prems, of ?st] True show ?thesis by auto
  next
    case False
    let ?b = "update_cursor_position cid (ev_id e) now b"
    have a: "ack b cid (ev_id e) now = (Inr (cid, ev_id e), ?b)" using Cons.prems(2) by (simp add: ack_active)
    have wf: "bus_wf ?b" using Cons.prems(1) by (rule update_cursor_position_wf)
    have "cursor_position ?b cid = Some (ev_id e)" using Cons.prems(2) by (simp add: cursor_position_update_same)
    from Cons.IH [OF wf this, of ?st] False a show ?thesis by auto
  qed
qed

lemma print_batch_events_wf:
  "events_wf b \<Longrightarrow> cursor_position b cid = Some p \<Longrightarrow>
   \<exists>b'. print_batch False cid now es st b =
      (es, None, st\<lparr>dn_floor := last (dn_floor st # map ev_id es), dn_delivered := dn_delivered st + length es\<rparr>, b') \<and>
    events_wf b' \<and> cursor_position b' cid = Some (last (p # map ev_id es))"
proof (induction es arbitrary: st b p)
  case Nil
  then show ?case by simp
next
  case (Cons e es)
  let ?b = "update_cursor_position cid (ev_id e) now b"
  have a: "ack b cid (ev_id e) now = (Inr (cid, ev_id e), ?b)" using Cons.prems(2) by (simp add: ack_active)
  have wf: "events_wf ?b" using Cons.prems(1) by (simp add: events_wf_def)
  have "cursor_position ?b cid = Some (ev_id e)" using Cons.prems(2) by (simp add: cursor_position_update_same)
  from Cons.IH [OF wf this, of "st\<lparr>dn_floor := ev_id e, dn_delivered := dn_delivered st + 1\<rparr>"] a show ?case by auto
qed

section \<open>The recovery\<close>

lemma recover_active:
  assumes "events_wf b" and "cursor_position b cid = Some q" and "poll b cid bs af = Inl e" and "is_wb WB003 e"
  shows "\<exists>m. min_event_id b = Some m \<and> q < m - 1 \<and>
    recoverFromStale b cid e now = (Inr (m - 1), update_cursor_position cid (m - 1) now b)"
proof -
  from poll_WB003 [OF assms(3,4)] obtain c m where c: "find_cursor b cid = Some c" "cursor_active c"
    and m: "min_event_id b = Some m" "cu_last c < m - 1"
      "e = WB WB003 [(''cursor_last_event_id'', jint (cu_last c)), (''oldest_available_event_id'', jint m)]" by blast
  have "cu_last c = q" using assms(2) c by (simp add: cursor_position_def)
  moreover have "0 < m" using min_event_id_Some [OF m(1)] assms(1) by (auto simp: events_wf_def)
  then have "reanchor_cursor b cid (jint (m - 1)) now = (Inr (cid, m - 1), update_cursor_position cid (m - 1) now b)"
    using assms(2) by (intro reanchor_active) auto
  ultimately show ?thesis using m by (simp add: recoverFromStale_def ctx_get_oldest)
qed

section \<open>A drain without interference\<close>

lemma pending_above_min: "min_event_id b = Some m \<Longrightarrow> p \<le> m - 1 \<Longrightarrow> pending b f p = pending b f (m - 1)"
  unfolding pending_def by (rule filter_cong) (use min_event_id_Some [of b m] in force)+

lemma drain_backlog:
  assumes "bus_wf b" and "cursor_position b cid = Some p" and "cursor_filter b cid = Some f"
    and "\<forall>m. min_event_id b = Some m \<longrightarrow> m \<le> p + 1" and "p \<le> dn_floor st" and "do_idle opts = None" and "dn_deadline st = None"
    and "length (pending b f (dn_floor st)) < k"
  shows "\<exists>fl b'. runDrain opts cid (replicate k (now, False, id)) st b =
      (Some (Inr (dn_delivered st + length (pending b f (dn_floor st)), fl)), pending b f (dn_floor st), b') \<and>
    events b' = events b \<and>
    cursor_position b' cid = Some (if do_no_ack opts then p else last (p # map ev_id (pending b f (dn_floor st)))) \<and>
    bus_wf b' \<and> cursor_filter b' cid = Some f"
  using assms
proof (induction k arbitrary: st b p)
  case 0
  then show ?case by simp
next
  case (Suc k)
  let ?pend = "pending b f (dn_floor st)" and ?n = "effective_batch (Some (do_batch opts))"
  have poll: "poll b cid (Some (do_batch opts)) (Some (dn_floor st)) = Inr (sql_limit ?n ?pend)"
    using Suc.prems(4) by (auto simp: poll_eq [OF Suc.prems(1-3)] split: option.split)
  have inv: "case (b, f, ?n) of (b, f, n) \<Rightarrow> events_wf b \<and> n \<noteq> 0" using bus_wfD(1) [OF Suc.prems(1)] by simp
  show ?case
  proof (cases "?pend = []")
    case True
    then have "sql_limit ?n ?pend = []" by (simp add: sql_limit_def)
    then show ?thesis using poll True Suc.prems(1-3,7) by (auto simp: drain_round_def)
  next
    case False
    then obtain e es where es: "sql_limit ?n ?pend = e # es"
      using sql_limit_Nil_iff [of ?n ?pend] by (cases "sql_limit ?n ?pend") auto
    obtain l where l: "l = ev_id (last (e # es))" by blast
    obtain q where q: "q = (if do_no_ack opts then p else l)" by blast
    from polled.batch_split [OF inv, of "dn_floor st"] False es
    have split: "?pend = (e # es) @ pending b f l" by (simp add: l)
    have last: "last (x # map ev_id (e # es)) = l" for x by (simp add: l last_map)
    let ?st = "st\<lparr>dn_floor := l, dn_delivered := dn_delivered st + length (e # es)\<rparr>"
    from print_batch_active [OF Suc.prems(1,2), of "do_no_ack opts" now "e # es" st, unfolded last] obtain b1 where
      pb: "print_batch (do_no_ack opts) cid now (e # es) st b = (e # es, None, ?st, b1)"
      and wf: "bus_wf b1" and ev: "events b1 = events b" and fl: "cursor_filter b1 cid = Some f"
      and pos: "cursor_position b1 cid = Some q"
      using Suc.prems(3) q by auto
    have pend: "pending b1 f = pending b f" by (simp add: pending_cong [OF ev])
    have rd: "drain_round opts cid now st b = (Again, e # es, ?st, b1)"
      using poll es pb Suc.prems(6,7) by (simp add: drain_round_def)
    have "last (e # es) \<in> set ?pend" unfolding split by (metis Un_iff last_in_set list.distinct(1) set_append)
    then have lt: "dn_floor st < l" by (simp add: set_pending l)
    have mn: "\<forall>m. min_event_id b1 = Some m \<longrightarrow> m \<le> q + 1"
      using Suc.prems(4,5) lt ev q by (auto simp: min_event_id_def)
    have len: "length (pending b1 f (dn_floor ?st)) < k" using Suc.prems(8) arg_cong [OF split, of length] pend by simp
    have floor: "dn_floor ?st = l" by simp
    have "q \<le> dn_floor ?st" "dn_deadline ?st = None" using lt Suc.prems(5,7) q by simp_all
    from Suc.IH [OF wf pos fl mn this(1) Suc.prems(6) this(2) len] obtain fl' b2 where
      run: "runDrain opts cid (replicate k (now, False, id)) ?st b1 =
        (Some (Inr (dn_delivered ?st + length (pending b f l), fl')), pending b f l, b2)"
      and b2: "events b2 = events b1" "cursor_position b2 cid = Some (if do_no_ack opts then q else last (q # map ev_id (pending b f l)))"
        "bus_wf b2" "cursor_filter b2 cid = Some f"
      unfolding pend floor by blast
    have "runDrain opts cid (replicate (Suc k) (now, False, id)) st b =
        (Some (Inr (dn_delivered ?st + length (pending b f l), fl')), ?pend, b2)"
      using rd run split by simp
    moreover have "dn_delivered ?st + length (pending b f l) = dn_delivered st + length ?pend"
      using arg_cong [OF split, of length] by simp
    moreover have "cursor_position b2 cid = Some (if do_no_ack opts then p else last (p # map ev_id ?pend))"
      unfolding b2(2) split using q l by (simp add: last_map)
    ultimately show ?thesis using b2(1,3,4) ev by metis
  qed
qed

lemma drain_result:
  assumes "bus_wf b" and "cursor_position b cid = Some p" and "cursor_filter b cid = Some f"
    and "do_recover opts" and "do_idle opts = None" and "length (pending b f p) + 2 \<le> k"
  shows "\<exists>fl b'. runDrain opts cid (replicate k (now, False, id)) (drain_start opts cid now b) b =
      (Some (Inr (length (pending b f p), fl)), pending b f p, b') \<and> events b' = events b \<and>
    cursor_position b' cid = Some (let start = (case min_event_id b of Some m \<Rightarrow> max p (m - 1) | None \<Rightarrow> p)
      in if do_no_ack opts then start else last (start # map ev_id (pending b f p))) \<and>
    bus_wf b' \<and> cursor_filter b' cid = Some f"
proof -
  let ?st = "\<lparr>dn_floor = p, dn_delivered = 0, dn_deadline = None\<rparr> :: drain"
  have st: "drain_start opts cid now b = ?st"
    using position_filter [OF assms(1,2)] assms(5) by (auto simp: drain_start_def)
  show ?thesis
  proof (cases "\<exists>m. min_event_id b = Some m \<and> p < m - 1")
    case False
    then have "\<forall>m. min_event_id b = Some m \<longrightarrow> m \<le> p + 1" "(case min_event_id b of Some m \<Rightarrow> max p (m - 1) | None \<Rightarrow> p) = p"
      by (auto split: option.split)
    with drain_backlog [OF assms(1-3), of ?st opts k now] assms(5,6) show ?thesis
      unfolding st Let_def by auto
  next
    case True
    then obtain m where m: "min_event_id b = Some m" "p < m - 1" by blast
    let ?b = "update_cursor_position cid (m - 1) now b" and ?st' = "?st\<lparr>dn_floor := m - 1\<rparr>"
    obtain e where e: "poll b cid (Some (do_batch opts)) (Some p) = Inl e" "is_wb WB003 e"
      using m by (auto simp: poll_eq [OF assms(1-3)] is_wb_def)
    from recover_active [OF bus_wfD(1) [OF assms(1)] assms(2) e, of now] m
    have rec: "recoverFromStale b cid e now = (Inr (m - 1), ?b)" by auto
    have rd: "drain_round opts cid now ?st b = (Again, [], ?st', ?b)"
      using e rec assms(4) by (simp add: drain_round_def)
    have wf: "bus_wf ?b" using assms(1) by (rule update_cursor_position_wf)
    have pos: "cursor_position ?b cid = Some (m - 1)" using assms(2) by (simp add: cursor_position_update_same)
    have fl: "cursor_filter ?b cid = Some f" using assms(3) by simp
    have pend: "pending ?b f (dn_floor ?st') = pending b f p"
      using pending_above_min [OF m(1), of p f] m(2) pending_cong [of ?b b] by simp
    from assms(6) obtain k' where k: "k = Suc k'" and k': "length (pending b f p) < k'" by (cases k) auto
    have mn: "\<forall>m'. min_event_id ?b = Some m' \<longrightarrow> m' \<le> m - 1 + 1" using m(1) by (simp add: min_event_id_def)
    from drain_backlog [OF wf pos fl mn _ assms(5), of ?st' k' now, unfolded pend] k' obtain fl' b2 where
      "runDrain opts cid (replicate k' (now, False, id)) ?st' ?b = (Some (Inr (length (pending b f p), fl')), pending b f p, b2)"
      "events b2 = events b"
      "cursor_position b2 cid = Some (if do_no_ack opts then m - 1 else last ((m - 1) # map ev_id (pending b f p)))"
      "bus_wf b2" "cursor_filter b2 cid = Some f"
      by auto
    then show ?thesis unfolding st Let_def k using rd m by simp
  qed
qed

section \<open>Properties\<close>

text \<open>C27: A drain delivers the backlog once and stops: while no one else writes, \<open>--drain\<close> prints exactly the
  stored events above the cursor that match its filter, each once and in order, whatever the batch
  size, and returns with their number after at most two rounds more than there are events - also when
  the cursor lies behind the sweep window, where it first re-anchors it. The cursor ends on the last
  event printed, or, with \<open>--no-ack\<close>, where it started.\<close>

theorem drain_delivers_backlog:
  assumes "bus_wf b" and "cursor_position b cid = Some p" and "cursor_filter b cid = Some f"
    and "do_recover opts" and "do_idle opts = None"
    and "length (filter (\<lambda>e. p < ev_id e \<and> event_matches f e) (events b)) + 2 \<le> k"
  shows "let backlog = filter (\<lambda>e. p < ev_id e \<and> event_matches f e) (events b);
      start = (case min_event_id b of Some m \<Rightarrow> max p (m - 1) | None \<Rightarrow> p)
    in \<exists>fl b'. runDrain opts cid (replicate k (now, False, id)) (drain_start opts cid now b) b =
        (Some (Inr (length backlog, fl)), backlog, b') \<and> events b' = events b \<and>
      cursor_position b' cid = Some (if do_no_ack opts then start else last (start # map ev_id backlog))"
  using drain_result [OF assms(1-5), of k now] assms(6) by (auto simp: pending_def Let_def)

section \<open>A drain with interference\<close>

text \<open>Commits of others that keep the events table and the position of this cursor.\<close>

definition keeps_cursor :: "string \<Rightarrow> (bus \<Rightarrow> bus) \<Rightarrow> bool" where
  "keeps_cursor cid others \<longleftrightarrow>
     (\<forall>b. events_wf b \<longrightarrow> events_wf (others b) \<and> cursor_position (others b) cid = cursor_position b cid)"

text \<open>With acknowledgments, floor and position move together.\<close>

lemma drain_round_ascending:
  assumes "drain_round opts cid now st b = (r, out, st', b')" and "\<not> do_no_ack opts"
    and "events_wf b" and "cursor_position b cid = Some (dn_floor st)"
  shows "events_wf b' \<and> cursor_position b' cid = Some (dn_floor st') \<and>
    sorted_wrt (<) (dn_floor st # map ev_id out) \<and> last (dn_floor st # map ev_id out) \<le> dn_floor st'"
proof (cases "poll b cid (Some (do_batch opts)) (Some (dn_floor st))")
  case (Inl e)
  show ?thesis
  proof (cases "is_wb WB003 e \<and> do_recover opts")
    case True
    with recover_active [OF assms(3,4) Inl, of now] obtain m where m: "dn_floor st < m - 1"
      and rec: "recoverFromStale b cid e now = (Inr (m - 1), update_cursor_position cid (m - 1) now b)" by blast
    then show ?thesis using assms Inl True
      by (auto simp: drain_round_def events_wf_def cursor_position_update_same)
  next
    case False
    then show ?thesis using assms Inl by (auto simp: drain_round_def)
  qed
next
  case (Inr es)
  note asc = poll_ascending [OF assms(3) Inr assms(4)]
  show ?thesis
  proof (cases es)
    case Nil
    then show ?thesis using assms Inr by (auto simp: drain_round_def split: option.splits if_splits)
  next
    case (Cons e es')
    from print_batch_events_wf [OF assms(3,4), of now "e # es'" st] obtain b1 where
      "print_batch False cid now (e # es') st b =
        (e # es', None, st\<lparr>dn_floor := last (dn_floor st # map ev_id (e # es')), dn_delivered := dn_delivered st + length (e # es')\<rparr>, b1)"
      "events_wf b1" "cursor_position b1 cid = Some (last (dn_floor st # map ev_id (e # es')))" by blast
    then show ?thesis using assms(1,2) Inr Cons asc by (auto simp: drain_round_def)
  qed
qed

lemma sorted_wrt_join:
  "sorted_wrt (<) ((p :: int) # xs) \<Longrightarrow> sorted_wrt (<) (q # ys) \<Longrightarrow> last (p # xs) \<le> q \<Longrightarrow> sorted_wrt (<) (p # xs @ ys)"
  by (induction xs arbitrary: p) (fastforce split: if_splits)+

lemma drain_ascending:
  assumes "runDrain opts cid rounds st b = (r, out, b')" and "\<not> do_no_ack opts"
    and "\<forall>x\<in>set rounds. keeps_cursor cid (snd (snd x))"
    and "events_wf b" and "cursor_position b cid = Some (dn_floor st)"
  shows "sorted_wrt (<) (dn_floor st # map ev_id out)"
  using assms
proof (induction rounds arbitrary: st b out)
  case Nil
  then show ?case by simp
next
  case (Cons x rounds)
  obtain now sg others where x: "x = (now, sg, others)" by (cases x)
  show ?case
  proof (cases sg)
    case True
    with Cons.prems(1) x show ?thesis by simp
  next
    case False
    from Cons.prems(3-5) x have o: "events_wf (others b)" "cursor_position (others b) cid = Some (dn_floor st)"
      by (auto simp: keeps_cursor_def)
    obtain e out1 st1 b1 where rd: "drain_round opts cid now st (others b) = (e, out1, st1, b1)"
      by (cases "drain_round opts cid now st (others b)")
    from drain_round_ascending [OF rd Cons.prems(2) o] have
      r1: "events_wf b1" "cursor_position b1 cid = Some (dn_floor st1)" "sorted_wrt (<) (dn_floor st # map ev_id out1)"
      "last (dn_floor st # map ev_id out1) \<le> dn_floor st1" by blast+
    show ?thesis
    proof (cases "e = Drained \<or> (\<exists>y. e = Threw y)")
      case True
      with Cons.prems(1) x False rd r1(3) show ?thesis by auto
    next
      case go: False
      obtain r2 out2 b2 where run: "runDrain opts cid rounds st1 b1 = (r2, out2, b2)"
        by (cases "runDrain opts cid rounds st1 b1")
      have out: "out = out1 @ out2" using Cons.prems(1) x False rd run go by (cases e) simp_all
      have k: "\<forall>x\<in>set rounds. keeps_cursor cid (snd (snd x))" using Cons.prems(3) by simp
      from Cons.IH [of st1 b1 out2] run Cons.prems(2) k r1(1,2) have "sorted_wrt (<) (dn_floor st1 # map ev_id out2)"
        by (cases "r2 = r \<and> b2 = b'") (use Cons.prems(1) x False rd run go in \<open>cases e; simp\<close>)+
      from sorted_wrt_join [OF r1(3) this r1(4)] show ?thesis by (simp add: out)
    qed
  qed
qed

text \<open>C28: A drain with acknowledgments prints nothing twice: whatever other connections commit between its rounds
  without touching its cursor - emits, sweeps that force a recovery, other consumers - and however long
  it runs, the ids it prints are strictly increasing from the position it started at.\<close>

theorem drain_prints_once:
  assumes "events_wf b" and "cursor_position b cid = Some p" and "\<not> do_no_ack opts"
    and "\<forall>x\<in>set rounds. keeps_cursor cid (snd (snd x))"
    and "runDrain opts cid rounds (drain_start opts cid now b) b = (r, out, b')"
  shows "sorted_wrt (<) (p # map ev_id out)"
proof -
  from assms(2) have "dn_floor (drain_start opts cid now b) = p"
    by (auto simp: drain_start_def cursor_position_def split: option.splits if_splits)
  with drain_ascending [OF assms(5,3,4,1)] assms(2) show ?thesis by simp
qed

text \<open>Without acknowledgments a recovery rewinds the drain: when the sweep has passed the stored position, the
  floor goes back below the oldest event even if the drain has already printed it, and the next round
  prints it again.\<close>

theorem no_ack_recovery_repeats:
  assumes "bus_wf b" and "cursor_position b cid = Some p" and "cursor_filter b cid = Some f"
    and "do_no_ack opts" and "do_recover opts"
    and "min_event_id b = Some m" and "p < m - 1"
    and "filter (event_matches f) (events b) = e # rest" and "ev_id e \<le> dn_floor st"
  shows "e \<in> set (fst (snd (runDrain opts cid [(now, False, id), (now, False, id)] st b)))"
proof -
  let ?b = "update_cursor_position cid (m - 1) now b" and ?st = "st\<lparr>dn_floor := m - 1\<rparr>"
  obtain x where x: "poll b cid (Some (do_batch opts)) (Some (dn_floor st)) = Inl x" "is_wb WB003 x"
    using assms(6,7) by (auto simp: poll_eq [OF assms(1-3)] is_wb_def)
  from recover_active [OF bus_wfD(1) [OF assms(1)] assms(2) x, of now] assms(6)
  have "recoverFromStale b cid x now = (Inr (m - 1), ?b)" by auto
  with x assms(5) have r1: "drain_round opts cid now st b = (Again, [], ?st, ?b)" by (simp add: drain_round_def)
  have wf: "bus_wf ?b" using assms(1) by (rule update_cursor_position_wf)
  have pos: "cursor_position ?b cid = Some (m - 1)" using assms(2) by (simp add: cursor_position_update_same)
  have fl: "cursor_filter ?b cid = Some f" using assms(3) by simp
  have mn: "min_event_id ?b = Some m" using assms(6) by (simp add: min_event_id_def)
  have "pending ?b f (m - 1) = filter (event_matches f) (events b)"
    unfolding pending_def by (rule filter_cong) (use min_event_id_Some [OF assms(6)] in force)+
  then have pend: "pending ?b f (m - 1) = e # rest" using assms(8) by simp
  let ?n = "effective_batch (Some (do_batch opts))"
  have "sql_limit ?n (e # rest) \<noteq> []" by (simp add: sql_limit_Nil_iff)
  then obtain es where es: "sql_limit ?n (e # rest) = e # es" by (auto simp: sql_limit_def take_Cons split: nat.splits if_splits)
  have poll: "poll ?b cid (Some (do_batch opts)) (Some (m - 1)) = Inr (e # es)"
    using poll_eq [OF wf pos fl, of "Some (do_batch opts)" "Some (m - 1)"] mn pend es by simp
  from print_batch_active [OF wf pos, of True now "e # es" ?st] obtain b2 where
    pb: "print_batch True cid now (e # es) ?st ?b = (e # es, None, ?st\<lparr>dn_floor := last (dn_floor ?st # map ev_id (e # es)),
       dn_delivered := dn_delivered ?st + length (e # es)\<rparr>, b2)" by blast
  have "fst (drain_round opts cid now ?st ?b) = Again \<and> fst (snd (drain_round opts cid now ?st ?b)) = e # es"
    using poll pb assms(4) unfolding drain_round_def by simp
  then obtain st2 b3 where "drain_round opts cid now ?st ?b = (Again, e # es, st2, b3)"
    by (metis prod.collapse)
  then show ?thesis using r1 by simp
qed

section \<open>The cursor of a subscriber\<close>

lemma matching_pair:
  assumes "bus_wf b" and "(s, c) \<in> set (matching_pairs b plugin flt)"
  shows "cursor_position b c \<noteq> None \<and> cursor_filter b c = Some flt"
proof -
  from assms(2) obtain sr cr where r: "sr \<in> set (subscriptions b)" "cr \<in> set (cursors b)" "cu_sub cr = su_id sr"
    "cursor_active cr" "cu_id cr = c" "su_filter sr = flt"
    by (auto simp: matching_pairs_def split: if_splits)
  have "find_cursor b c = Some cr" "find_sub b (su_id sr) = Some sr"
    using r assms(1) find_key_eq [of cu_id "cursors b" cr] find_key_eq [of su_id "subscriptions b" sr]
    by (auto simp: find_cursor_def find_sub_def wf_defs)
  then show ?thesis using r by (simp add: cursor_position_def cursor_filter_def)
qed

text \<open>A subscriber named by plugin and filter gets a cursor that serves it: when it has one active cursor, that
  one and nothing is written; when it has none, a new one that starts behind the last stored event
  unless the oldest was asked for; with several it is told to choose. Either way the cursor is active and
  has the requested filter.\<close>

theorem subscriber_resumes_or_registers:
  assumes "bus_wf b" and "or_null given = None"
    and "sid \<notin> su_id ` set (subscriptions b)" and "cid \<notin> cu_id ` set (cursors b)"
  shows "case resolve_cursor b given plugin flt init sid cid now of
      (Inr c, b') \<Rightarrow> cursor_filter b' c = Some flt \<and> events b' = events b \<and>
        (case map snd (matching_pairs b plugin flt) of
           [c'] \<Rightarrow> c = c' \<and> b' = b \<and> cursor_position b c \<noteq> None
         | _ \<Rightarrow> matching_pairs b plugin flt = [] \<and> c = cid \<and>
             cursor_position b' c = Some (initial_position b (Some (case or_null init of Some i \<Rightarrow> i | None \<Rightarrow> ''latest''))))
    | (Inl e, b') \<Rightarrow> 2 \<le> length (matching_pairs b plugin flt) \<and> b' = b \<and> is_wb WB001 e"
proof -
  consider "matching_pairs b plugin flt = []" | s c where "matching_pairs b plugin flt = [(s, c)]"
    | x y zs where "matching_pairs b plugin flt = x # y # zs" by (metis list.exhaust surj_pair)
  then show ?thesis
  proof cases
    case 1
    let ?o = "\<lparr>ro_plugin = plugin, ro_role = ''subscriber'', ro_filter = flt, ro_schema_version = None,
        ro_cursor_init = Some (case or_null init of Some c \<Rightarrow> c | None \<Rightarrow> ''latest'')\<rparr>"
    from register_subscriber [of ?o sid b cid now True] assms(3,4) obtain res b' where
      "register b ?o sid cid now True = (Inr res, b')" "rr_cursor_id res = Some cid"
      "cursor_position b' cid = Some (initial_position b (ro_cursor_init ?o))" "cursor_filter b' cid = Some flt" "events b' = events b"
      by auto
    then show ?thesis using 1 assms(2) by (simp add: resolve_cursor_def)
  next
    case 2
    from matching_pair [OF assms(1), of s c plugin flt] 2 assms(2) show ?thesis by (simp add: resolve_cursor_def)
  next
    case 3
    then show ?thesis using assms(2) by (cases x) (simp add: resolve_cursor_def usage_error_def is_wb_def)
  qed
qed

section \<open>Examples\<close>

definition demo_drain :: "bool \<Rightarrow> drain_opts" where
  "demo_drain noAck = \<lparr>do_batch = 1, do_no_ack = noAck, do_interval = 1000, do_idle = None, do_recover = True\<rparr>"

lemma drain_delivers_backlog_witness:
  "case runDrain (demo_drain False) ''c'' (replicate 4 (0, False, id)) (drain_start (demo_drain False) ''c'' 0 (demo_bus [4, 5] 1)) (demo_bus [4, 5] 1) of
     (r, out, b) \<Rightarrow> map ev_id out = [4, 5] \<and> cursor_position b ''c'' = Some 5 \<and> r \<noteq> None"
proof -
  have wf: "bus_wf (demo_bus [4, 5] 1)" by (rule demo_bus_wf) auto
  have f: "map ev_id (filter (\<lambda>e. 1 < ev_id e \<and> event_matches ''wicked.*'' e) (events (demo_bus [4, 5] 1))) = [4, 5]" by code_simp
  from arg_cong [OF f, of length]
  have l: "length (filter (\<lambda>e. 1 < ev_id e \<and> event_matches ''wicked.*'' e) (events (demo_bus [4, 5] 1))) + 2 \<le> 4"
    unfolding length_map list.size by linarith
  have o: "do_recover (demo_drain False)" "do_idle (demo_drain False) = None" "\<not> do_no_ack (demo_drain False)"
    by (simp_all add: demo_drain_def)
  from drain_delivers_backlog [OF wf demo_bus_cursor o(1,2) l, of 0, unfolded Let_def] obtain fl b' where
    run: "runDrain (demo_drain False) ''c'' (replicate 4 (0, False, id)) (drain_start (demo_drain False) ''c'' 0 (demo_bus [4, 5] 1)) (demo_bus [4, 5] 1) =
      (Some (Inr (length (filter (\<lambda>e. 1 < ev_id e \<and> event_matches ''wicked.*'' e) (events (demo_bus [4, 5] 1))), fl)),
        filter (\<lambda>e. 1 < ev_id e \<and> event_matches ''wicked.*'' e) (events (demo_bus [4, 5] 1)), b')"
    and pos: "cursor_position b' ''c'' = Some 5"
    unfolding f using o(3) by auto
  show ?thesis unfolding run using f pos by simp
qed

lemma drain_prints_once_witness:
  "\<exists>r out b'. runDrain (demo_drain False) ''c'' [(0, False, update_cursor_position ''other'' 9 0), (1, False, id)]
      (drain_start (demo_drain False) ''c'' 0 (demo_bus [4, 5] 3)) (demo_bus [4, 5] 3) = (r, out, b') \<and>
     sorted_wrt (<) (3 # map ev_id out)"
proof -
  let ?rs = "[(0, False, update_cursor_position ''other'' 9 0), (1, False, id)] :: (rat \<times> bool \<times> (bus \<Rightarrow> bus)) list"
  let ?run = "runDrain (demo_drain False) ''c'' ?rs (drain_start (demo_drain False) ''c'' 0 (demo_bus [4, 5] 3)) (demo_bus [4, 5] 3)"
  have k: "\<forall>x\<in>set ?rs. keeps_cursor ''c'' (snd (snd x))"
    by (simp add: keeps_cursor_def cursor_position_update_other events_wf_def)
  have "bus_wf (demo_bus [4, 5] 3)" by (rule demo_bus_wf) auto
  then have wf: "events_wf (demo_bus [4, 5] 3)" by (simp add: bus_wfD)
  obtain r out b' where run: "?run = (r, out, b')" by (cases ?run)
  have "\<not> do_no_ack (demo_drain False)" by (simp add: demo_drain_def)
  from drain_prints_once [OF wf demo_bus_cursor(1) this k run] run show ?thesis by blast
qed

lemma no_ack_recovery_repeats_witness:
  "demo_row 4 ''wicked.a'' \<in> set (fst (snd (runDrain (demo_drain True) ''c'' [(0, False, id), (0, False, id)]
     \<lparr>dn_floor = 5, dn_delivered = 3, dn_deadline = None\<rparr> (demo_bus [4, 5] 1))))"
proof -
  have wf: "bus_wf (demo_bus [4, 5] 1)" by (rule demo_bus_wf) auto
  have m: "min_event_id (demo_bus [4, 5] 1) = Some 4" by code_simp
  have f: "filter (event_matches ''wicked.*'') (events (demo_bus [4, 5] 1)) = [demo_row 4 ''wicked.a'', demo_row 5 ''wicked.a'']"
    by code_simp
  have o: "do_no_ack (demo_drain True)" "do_recover (demo_drain True)" by (simp_all add: demo_drain_def)
  show ?thesis
    by (rule no_ack_recovery_repeats [OF wf demo_bus_cursor o m _ f]) (simp_all add: demo_row_def)
qed

lemma subscriber_resumes_or_registers_witness:
  "case resolve_cursor (demo_bus [4, 5] 1) None ''p'' ''other.*'' None ''s2'' ''c2'' 0 of
     (Inr c, b') \<Rightarrow> c = ''c2'' \<and> cursor_filter b' c = Some ''other.*'' | (Inl _, _) \<Rightarrow> False"
proof -
  have wf: "bus_wf (demo_bus [4, 5] 1)" by (rule demo_bus_wf) auto
  have m: "matching_pairs (demo_bus [4, 5] 1) ''p'' ''other.*'' = []" by (simp add: matching_pairs_def demo_bus_def)
  have "or_null None = None" by (simp add: or_null_def)
  moreover have "''s2'' \<notin> su_id ` set (subscriptions (demo_bus [4, 5] 1))" "''c2'' \<notin> cu_id ` set (cursors (demo_bus [4, 5] 1))"
    by (simp_all add: demo_bus_def)
  ultimately show ?thesis using subscriber_resumes_or_registers [OF wf, of None "''s2''" "''c2''" "''p''" "''other.*''" None 0] m
    by (auto split: prod.splits sum.splits)
qed

end
