(* ===== verification/BusConfig.thy ===== *)
theory BusConfig
  imports BusSweep BusValidate "HOL-Library.AList"
begin

text \<open>
  The configuration, \<open>lib/config.js\<close>: the merge of defaults, \<open>config.json\<close> and overrides with its
  coercions and checks; where the data directory is, \<open>lib/paths.js\<close>; and the periodic checkpoint,
  \<open>lib/checkpoint.js\<close>. A configuration is the list of its properties. Proved: what is loaded satisfies
  what the sweeps and timers rely on, and which of the three sources a setting comes from.
\<close>

section \<open>Objects\<close>

type_synonym config = "(string \<times> jsval) list"

definition cget :: "config \<Rightarrow> string \<Rightarrow> jsval" where
  "cget c k = (case map_of c k of Some v \<Rightarrow> v | None \<Rightarrow> JUndef)"

text \<open>\<open>{ ...c, ...v }\<close>. Spreading an array or a string adds index keys, which nothing reads.\<close>

definition object_spread :: "config \<Rightarrow> jsval \<Rightarrow> config" where
  "object_spread c v = (case v of JObj kvs \<Rightarrow> fold (\<lambda>(k, x). AList.update k x) kvs c | _ \<Rightarrow> c)"

text \<open>\<open>a < b\<close>: strings compare as text, everything else as numbers.\<close>

definition js_less :: "host \<Rightarrow> jsval \<Rightarrow> jsval \<Rightarrow> bool" where
  "js_less h a b =
     (let prim = (\<lambda>v. case v of JArr _ \<Rightarrow> JStr (js_String h v) | JObj _ \<Rightarrow> JStr (js_String h v) | _ \<Rightarrow> v)
      in case (prim a, prim b) of
           (JStr s, JStr t) \<Rightarrow> s < t
         | (x, y) \<Rightarrow> num_lt (js_Number h x) (js_Number h y))"

section \<open>Loading\<close>

definition DEFAULTS :: config where
  "DEFAULTS = [(''ttl_hours'', jint 72), (''dedup_ttl_hours'', jint 24), (''sweep_interval_minutes'', jint 15),
     (''checkpoint_interval_minutes'', jint 5), (''archive_mode'', JBool False), (''unacked_policy'', JStr ''retain''),
     (''unacked_retention_days'', jint 30), (''tiered_archive'', JBool False), (''log_level'', JStr ''warn''),
     (''db_path'', JNull), (''max_payload_bytes'', jint 1048576)]"

definition coerceInterval :: "host \<Rightarrow> jsval \<Rightarrow> jsval \<Rightarrow> jsval" where
  "coerceInterval h v fallback =
     (case v of
        JNum n \<Rightarrow> if num_is_finite n then v else fallback
      | JStr s \<Rightarrow>
          (let t = js_trim s in
           if t = [] then fallback
           else (let n = js_Number h (JStr t) in if num_is_finite n then JNum n else fallback))
      | _ \<Rightarrow> fallback)"

text \<open>The text of \<open>config.json\<close>, \<open>None\<close> when it cannot be read, or text that is not JSON, counts as no settings.\<close>

definition user_config :: "host \<Rightarrow> string option \<Rightarrow> jsval" where
  "user_config h file = (case file of
      Some raw \<Rightarrow> (case h_parse h raw of Some v \<Rightarrow> v | None \<Rightarrow> JObj [])
    | None \<Rightarrow> JObj [])"

text \<open>The loop over the overrides that are \<open>null\<close> or \<open>undefined\<close>.\<close>

definition drop_null :: "jsval \<Rightarrow> config \<Rightarrow> string \<Rightarrow> config \<Rightarrow> config" where
  "drop_null user overrides k c =
     (if \<not> nullish (jget (JObj overrides) k) then c
      else (let c1 = AList.delete k c in
            if nullish (cget DEFAULTS k) then c1
            else AList.update k (if nullish (jget user k) then cget DEFAULTS k else jget user k) c1))"

definition config_error :: "string \<Rightarrow> unit res" where
  "config_error reason = Inl (PlainError (''Invalid config: '' @ reason))"

definition check_config :: "host \<Rightarrow> config \<Rightarrow> unit res" where
  "check_config h c = first_failure
     [if js_less h (cget c ''ttl_hours'') (cget c ''dedup_ttl_hours'') then config_error ''dedup_ttl_hours'' else Inr (),
      if cget c ''unacked_policy'' \<notin> {JStr ''retain'', JStr ''archive'', JStr ''discard''}
        then config_error ''unacked_policy'' else Inr (),
      (case cget c ''unacked_retention_days'' of
         JNum (Fin q) \<Rightarrow> if q \<le> 0 then config_error ''unacked_retention_days'' else Inr ()
       | _ \<Rightarrow> config_error ''unacked_retention_days''),
      if js_less h (cget c ''sweep_interval_minutes'') (jint 0) then config_error ''sweep_interval_minutes'' else Inr (),
      if js_less h (cget c ''checkpoint_interval_minutes'') (jint 0) then config_error ''checkpoint_interval_minutes'' else Inr (),
      if js_less h (cget c ''max_payload_bytes'') (jint 1) then config_error ''max_payload_bytes'' else Inr (),
      if cget c ''log_level'' \<notin> {JStr ''debug'', JStr ''info'', JStr ''warn'', JStr ''error''}
        then config_error ''log_level'' else Inr ()]"

text \<open>A \<open>config.json\<close> that is \<open>null\<close> makes the loop throw when it looks a setting up.\<close>

definition loadConfig :: "host \<Rightarrow> string option \<Rightarrow> config \<Rightarrow> config res" where
  "loadConfig h file overrides =
     (let user = user_config h file;
          c0 = object_spread (object_spread DEFAULTS user) (JObj overrides) in
      if user = JNull \<and> (\<exists>kv\<in>set overrides. nullish (jget (JObj overrides) (fst kv)) \<and> \<not> nullish (cget DEFAULTS (fst kv)))
      then Inl (PlainError ''TypeError'')
      else (let c1 = fold (drop_null user overrides) (remdups (map fst overrides)) c0;
                c2 = AList.update ''sweep_interval_minutes''
                  (coerceInterval h (cget c1 ''sweep_interval_minutes'') (cget DEFAULTS ''sweep_interval_minutes'')) c1;
                c3 = AList.update ''checkpoint_interval_minutes''
                  (coerceInterval h (cget c2 ''checkpoint_interval_minutes'') (cget DEFAULTS ''checkpoint_interval_minutes'')) c2
            in case check_config h c3 of Inl e \<Rightarrow> Inl e | Inr _ \<Rightarrow> Inr c3))"

text \<open>What is written for a new installation; an existing file stays unless it is forced.\<close>

definition writeDefaultConfig :: "host \<Rightarrow> bool \<Rightarrow> string option \<Rightarrow> string option" where
  "writeDefaultConfig h force file =
     (if \<not> force \<and> file \<noteq> None then file else Some (h_stringify h (JObj DEFAULTS) @ [CHR 0x0A]))"

section \<open>Directories\<close>

text \<open>A path of the data directory: given as such, or the standard subdirectory of a base directory.\<close>

datatype data_dir = Exactly string | Under string

definition first_set :: "string option list \<Rightarrow> string option" where
  "first_set xs = (case filter (\<lambda>x. x \<noteq> None \<and> x \<noteq> Some []) xs of x # _ \<Rightarrow> x | [] \<Rightarrow> None)"

definition resolveDataDir :: "(string \<Rightarrow> string option) \<Rightarrow> bool \<Rightarrow> string option \<Rightarrow> string \<Rightarrow> data_dir res" where
  "resolveDataDir env win32 homedir cwd =
     (case first_set [env ''WICKED_BUS_DATA_DIR''] of
        Some d \<Rightarrow> Inr (Exactly d)
      | None \<Rightarrow>
          if win32
          then Inr (Under (case first_set [env ''APPDATA'', env ''USERPROFILE'', env ''HOME'', homedir] of
              Some b \<Rightarrow> b | None \<Rightarrow> cwd))
          else (case first_set [env ''HOME'', homedir] of
                  Some b \<Rightarrow> Inr (Under b)
                | None \<Rightarrow> Inl (PlainError ''Cannot resolve data directory'')))"

section \<open>The checkpoint\<close>

definition checkpoint_interval_ms :: "host \<Rightarrow> jsval \<Rightarrow> rat option" where
  "checkpoint_interval_ms h v =
     (case js_Number h (if nullish v then cget DEFAULTS ''checkpoint_interval_minutes'' else v) of
        Fin q \<Rightarrow> if q \<le> 0 then None else Some (timer_delay (max 1000 (q * 60000)))
      | _ \<Rightarrow> None)"

record checkpoint_result =
  ck_busy :: bool
  ck_log :: jsval
  ck_checkpointed :: jsval

definition number_or :: "jsval \<Rightarrow> jsval" where
  "number_or v = (if typeof v = ''number'' then v else jint (- 1))"

text \<open>
  \<open>prev\<close> is what the first pragma returns and \<open>outcome\<close> the rows of the two checkpoint pragmas or the error
  thrown by one of them. The second component is the busy timeout of the connection afterwards.
\<close>

definition runCheckpoint :: "jsval \<Rightarrow> (jsval list) res \<Rightarrow> checkpoint_result res \<times> jsval" where
  "runCheckpoint prev outcome =
     (let restored = (case prev of JNum (Fin _) \<Rightarrow> prev | _ \<Rightarrow> jint 5000) in
      case outcome of
        Inl e \<Rightarrow> (Inl e, restored)
      | Inr rows \<Rightarrow>
          (let row = (case rows of r # _ \<Rightarrow> r | [] \<Rightarrow> JObj []) in
           (Inr \<lparr>ck_busy = (jget row ''busy'' = jint 1), ck_log = number_or (jget row ''log''),
              ck_checkpointed = number_or (jget row ''checkpointed'')\<rparr>, restored)))"

section \<open>Looking settings up\<close>

lemma cget_update [simp]: "cget (AList.update k v c) k' = (if k' = k then v else cget c k')"
  by (simp add: cget_def update_conv)

lemma cget_delete [simp]: "cget (AList.delete k c) k' = (if k' = k then JUndef else cget c k')"
  by (simp add: cget_def delete_conv')

lemma cget_spread:
  "cget (object_spread c (JObj kvs)) k = (case map_of (rev kvs) k of Some v \<Rightarrow> v | None \<Rightarrow> cget c k)"
proof -
  have "cget (fold (\<lambda>(k, x). AList.update k x) kvs c) k = (case map_of (rev kvs) k of Some v \<Rightarrow> v | None \<Rightarrow> cget c k)" for c
    by (induction kvs arbitrary: c) (auto simp: map_add_def split: option.split)
  then show ?thesis by (simp add: object_spread_def)
qed

lemma cget_spread_user:
  "cget (object_spread c v) k = (if has_own v k then jget v k else cget c k)"
proof (cases v)
  case (JObj kvs)
  have "map_of (rev kvs) k = None \<longleftrightarrow> k \<notin> fst ` set kvs" by (simp add: map_of_eq_None_iff)
  then show ?thesis unfolding JObj cget_spread by (cases "map_of (rev kvs) k") auto
qed (simp_all add: object_spread_def)

lemma cget_drop_null: "cget (drop_null user ov k c) k' =
   (if k' = k \<and> nullish (jget (JObj ov) k) then (if nullish (cget DEFAULTS k) then JUndef
      else if nullish (jget user k) then cget DEFAULTS k else jget user k) else cget c k')"
  by (auto simp: drop_null_def Let_def)

lemma cget_drop_nulls:
  "cget (fold (drop_null user ov) ks c) k =
     (if k \<in> set ks \<and> nullish (jget (JObj ov) k) then (if nullish (cget DEFAULTS k) then JUndef
        else if nullish (jget user k) then cget DEFAULTS k else jget user k) else cget c k)"
  by (induction ks arbitrary: c) (auto simp: cget_drop_null)

section \<open>What was checked\<close>

lemma loadConfig_Inr:
  assumes "loadConfig h file ov = Inr c"
  shows "\<exists>c1. c1 = fold (drop_null (user_config h file) ov) (remdups (map fst ov)) (object_spread (object_spread DEFAULTS (user_config h file)) (JObj ov)) \<and>
    check_config h c = Inr () \<and>
    cget c ''sweep_interval_minutes'' = coerceInterval h (cget c1 ''sweep_interval_minutes'') (jint 15) \<and>
    cget c ''checkpoint_interval_minutes'' = coerceInterval h (cget c1 ''checkpoint_interval_minutes'') (jint 5) \<and>
    (\<forall>k. k \<notin> {''sweep_interval_minutes'', ''checkpoint_interval_minutes''} \<longrightarrow> cget c k = cget c1 k)"
proof -
  have d: "cget DEFAULTS ''sweep_interval_minutes'' = jint 15" "cget DEFAULTS ''checkpoint_interval_minutes'' = jint 5"
    by (simp_all add: DEFAULTS_def cget_def)
  from assms show ?thesis
    unfolding loadConfig_def Let_def d by (auto split: if_splits sum.splits)
qed

lemma coerceInterval_finite: "num_is_finite n \<Longrightarrow> \<exists>q. coerceInterval h v (JNum n) = JNum (Fin q)"
  by (cases n; cases v) (auto simp: coerceInterval_def num_is_finite_def Let_def split: jsnum.splits)

lemma not_below_zero: "\<not> js_less h (JNum (Fin q)) (jint 0) \<Longrightarrow> 0 \<le> q"
  by (simp add: js_less_def js_Number_def)

lemma check_config_Inr:
  assumes "check_config h c = Inr ()"
  shows "cget c ''unacked_policy'' \<in> {JStr ''retain'', JStr ''archive'', JStr ''discard''}"
    and "\<exists>q. cget c ''unacked_retention_days'' = JNum (Fin q) \<and> 0 < q"
    and "cget c ''log_level'' \<in> {JStr ''debug'', JStr ''info'', JStr ''warn'', JStr ''error''}"
    and "\<not> js_less h (cget c ''sweep_interval_minutes'') (jint 0)"
    and "\<not> js_less h (cget c ''checkpoint_interval_minutes'') (jint 0)"
    and "\<not> js_less h (cget c ''ttl_hours'') (cget c ''dedup_ttl_hours'')"
  using assms by (auto simp: check_config_def first_failure_Inr config_error_def split: if_splits jsval.splits jsnum.splits)

section \<open>Properties\<close>


text \<open>Where a setting comes from: an override that is given wins over \<open>config.json\<close>, which wins over the
  default. A \<open>null\<close> override does not count, but neither then does a \<open>null\<close> in the file; and for a setting
  without a default, the database path, it also drops what the file says.\<close>

theorem setting_sources:
  assumes "loadConfig h file ov = Inr c" and "k \<notin> {''sweep_interval_minutes'', ''checkpoint_interval_minutes''}"
  shows "cget c k =
    (if has_own (JObj ov) k then
       (if \<not> nullish (jget (JObj ov) k) then jget (JObj ov) k
        else if nullish (cget DEFAULTS k) then JUndef
        else if nullish (jget (user_config h file) k) then cget DEFAULTS k
        else jget (user_config h file) k)
     else if has_own (user_config h file) k then jget (user_config h file) k
     else cget DEFAULTS k)"
proof -
  from loadConfig_Inr [OF assms(1)] assms(2) have "cget c k =
    cget (fold (drop_null (user_config h file) ov) (remdups (map fst ov)) (object_spread (object_spread DEFAULTS (user_config h file)) (JObj ov))) k"
    by blast
  then show ?thesis unfolding cget_drop_nulls cget_spread_user [of _ "JObj ov"] cget_spread_user [of _ "user_config h file"]
    by simp
qed

text \<open>A checkpoint never changes the busy timeout of its connection: whether it succeeds, finds a reader, or
  throws, the timeout afterwards is the one it found, if that was a number.\<close>

theorem checkpoint_restores_timeout:
  assumes "prev = JNum (Fin q)"
  shows "snd (runCheckpoint prev outcome) = prev \<and>
    (case outcome of Inl e \<Rightarrow> fst (runCheckpoint prev outcome) = Inl e | Inr _ \<Rightarrow> True)"
  using assms by (simp add: runCheckpoint_def Let_def split: sum.split)

section \<open>Examples\<close>

definition cfg_host :: host where
  "cfg_host = \<lparr>h_parse = (\<lambda>_. Some (JObj [(''sweep_interval_minutes'', JStr '' x''), (''log_level'', JStr ''debug''),
       (''db_path'', JStr ''/b.db'')])),
     h_stringify = (\<lambda>_. []), h_string = (\<lambda>_. []), h_number = (\<lambda>_. NaN), h_sha256 = id, h_sql_text = (\<lambda>_. []),
     h_sql_int = (\<lambda>_. SNull)\<rparr>"

lemma cfg_loads: "\<exists>c. loadConfig cfg_host (Some ''{}'') [(''db_path'', JNull)] = Inr c"
proof -
  have "case loadConfig cfg_host (Some ''{}'') [(''db_path'', JNull)] of Inr c \<Rightarrow> True | Inl _ \<Rightarrow> False" by code_simp
  then show ?thesis by (auto split: sum.splits)
qed


lemma setting_sources_witness:
  "case loadConfig cfg_host (Some ''{}'') [(''db_path'', JNull)] of
     Inr c \<Rightarrow> cget c ''db_path'' = JUndef \<and> cget c ''log_level'' = JStr ''debug'' \<and> cget c ''ttl_hours'' = jint 72 | Inl _ \<Rightarrow> False"
proof -
  from cfg_loads obtain c where c: "loadConfig cfg_host (Some ''{}'') [(''db_path'', JNull)] = Inr c" by blast
  from setting_sources [OF c, of "''db_path''"] setting_sources [OF c, of "''log_level''"] setting_sources [OF c, of "''ttl_hours''"] c
  show ?thesis by (simp add: user_config_def cfg_host_def DEFAULTS_def cget_def)
qed

end
