(* ===== verification/BusStream.thy ===== *)
theory BusStream
  imports BusStart BusDrain BusConfig
begin

text \<open>
  The command \<open>wicked-bus subscribe\<close> as a process (\<open>commands/cmd-subscribe.js\<close>): from its arguments to the
  drain or to the streaming loop, with the sweep and checkpoint intervals that run beside the loop
  (\<open>startSweep\<close>, \<open>startCheckpoint\<close>) and the signals that end it. Each statement of the database is one
  step, so that other processes can commit between a poll and the acknowledgments of its batch. Proved:
  what it prints is complete and in order; it ends only when told to, and then leaves nothing behind.
\<close>

section \<open>The process\<close>

text \<open>
  Where the loop stands: before a poll, inside a batch, before the re-anchoring of a stale cursor, waiting
  for the next poll, or ended, by a signal (\<open>process.exit(0)\<close>) or by an error it throws.
\<close>

datatype spc = SPoll | SBatch "event_row list" | SRecover js_error | SWait | SEnded "js_error option"

record stream =
  sm_pc :: spc
  sm_out :: "event_row list"
  sm_sweep :: bool
  sm_checkpoint :: bool
  sm_open :: bool
  sm_timeout :: jsval

text \<open>\<open>sm_out\<close> is what was printed, \<open>sm_sweep\<close> and \<open>sm_checkpoint\<close> say whether the interval runs, \<open>sm_open\<close> whether the
  database handle is open, \<open>sm_timeout\<close> is its busy timeout.\<close>

record stream_config =
  sg_opts :: drain_opts
  sg_cursor :: string
  sg_tiered :: jsval
  sg_sweep :: sweep2_config
  sg_sweep_ms :: "rat option"
  sg_checkpoint_ms :: "rat option"

definition stream_start :: "stream_config \<Rightarrow> stream" where
  "stream_start c = \<lparr>sm_pc = SPoll, sm_out = [], sm_sweep = (sg_sweep_ms c \<noteq> None), sm_checkpoint = (sg_checkpoint_ms c \<noteq> None),
     sm_open = True, sm_timeout = jint 5000\<rparr>"

definition sgoto :: "spc \<Rightarrow> stream \<Rightarrow> stream" where
  "sgoto p s = s\<lparr>sm_pc := p\<rparr>"

text \<open>Every way out clears both intervals and closes the handle.\<close>

definition shut :: "js_error option \<Rightarrow> stream \<Rightarrow> stream" where
  "shut e s = s\<lparr>sm_pc := SEnded e, sm_sweep := False, sm_checkpoint := False, sm_open := False\<rparr>"

text \<open>The \<open>catch\<close> of the loop.\<close>

definition stream_catch :: "stream_config \<Rightarrow> js_error \<Rightarrow> stream \<Rightarrow> stream" where
  "stream_catch c e s =
     (if is_wb WB003 e \<and> do_recover (sg_opts c) then sgoto (SRecover e) s
      else if is_wb WB003 e \<or> is_wb WB006 e then shut (Some e) s
      else sgoto SWait s)"

definition next_print :: "event_row list \<Rightarrow> stream \<Rightarrow> stream" where
  "next_print es s = sgoto (if es = [] then SWait else SBatch es) s"

definition printed :: "event_row \<Rightarrow> stream \<Rightarrow> stream" where
  "printed e s = s\<lparr>sm_out := sm_out s @ [e]\<rparr>"

text \<open>The next statement runs, at time \<open>t\<close>.\<close>

definition stream_run :: "stream_config \<Rightarrow> rat \<Rightarrow> stream \<Rightarrow> bus \<Rightarrow> (stream \<times> bus) option" where
  "stream_run c t s b =
     (case sm_pc s of
        SPoll \<Rightarrow> Some (case poll b (sg_cursor c) (Some (do_batch (sg_opts c))) None of
            Inl e \<Rightarrow> (stream_catch c e s, b)
          | Inr es \<Rightarrow> (next_print es s, b))
      | SBatch (e # w) \<Rightarrow> Some
          (if do_no_ack (sg_opts c) then (next_print w (printed e s), b)
           else (case ack b (sg_cursor c) (ev_id e) t of
                   (Inr _, b1) \<Rightarrow> (next_print w (printed e s), b1)
                 | (Inl x, b1) \<Rightarrow> (stream_catch c x (printed e s), b1)))
      | SRecover e \<Rightarrow> Some (case recoverFromStale b (sg_cursor c) e t of
            (Inr _, b1) \<Rightarrow> (sgoto SWait s, b1)
          | (Inl x, b1) \<Rightarrow> (shut (Some x) s, b1))
      | _ \<Rightarrow> None)"

text \<open>The next statement fails; the database is unchanged.\<close>

definition stream_fault :: "stream_config \<Rightarrow> js_error \<Rightarrow> stream \<Rightarrow> stream option" where
  "stream_fault c x s =
     (case sm_pc s of
        SPoll \<Rightarrow> Some (stream_catch c x s)
      | SBatch (e # w) \<Rightarrow> if do_no_ack (sg_opts c) then None else Some (stream_catch c x (printed e s))
      | SRecover e \<Rightarrow> Some (shut (Some x) s)
      | _ \<Rightarrow> None)"

text \<open>The callbacks of the intervals: a sweep or checkpoint that throws is ignored.\<close>

definition sweep_tick :: "stream_config \<Rightarrow> sweep_env \<Rightarrow> rat \<Rightarrow> bus \<Rightarrow> archive \<Rightarrow> bus \<times> archive" where
  "sweep_tick c env now b ar = snd (runConfiguredSweep (sg_tiered c) (sg_sweep c) env now b ar)"

definition checkpoint_tick :: "(jsval list) res \<Rightarrow> stream \<Rightarrow> stream" where
  "checkpoint_tick outcome s = s\<lparr>sm_timeout := snd (runCheckpoint (sm_timeout s) outcome)\<rparr>"

text \<open>The event loop: intervals and signals run while the loop awaits its poll timer.\<close>

datatype stream_input = SRun rat | SFault js_error | SWaited | SSweep sweep_env rat | SCheckpoint "(jsval list) res" | SSignal

definition stream_step :: "stream_config \<Rightarrow> stream_input \<Rightarrow> stream \<times> bus \<times> archive \<Rightarrow> (stream \<times> bus \<times> archive) option" where
  "stream_step c i x = (case x of (s, b, ar) \<Rightarrow>
     (case i of
        SRun t \<Rightarrow> map_option (\<lambda>(s1, b1). (s1, b1, ar)) (stream_run c t s b)
      | SFault e \<Rightarrow> map_option (\<lambda>s1. (s1, b, ar)) (stream_fault c e s)
      | SWaited \<Rightarrow> if sm_pc s = SWait then Some (sgoto SPoll s, b, ar) else None
      | SSweep env now \<Rightarrow> if sm_pc s = SWait \<and> sm_sweep s
          then Some (s, sweep_tick c env now b ar) else None
      | SCheckpoint outcome \<Rightarrow> if sm_pc s = SWait \<and> sm_checkpoint s
          then Some (checkpoint_tick outcome s, b, ar) else None
      | SSignal \<Rightarrow> if sm_pc s = SWait then Some (shut None s, b, ar) else None))"

fun stream_steps :: "stream_config \<Rightarrow> stream_input list \<Rightarrow> stream \<times> bus \<times> archive \<Rightarrow> (stream \<times> bus \<times> archive) option" where
  "stream_steps c [] x = Some x"
| "stream_steps c (i # is) x = (case stream_step c i x of None \<Rightarrow> None | Some y \<Rightarrow> stream_steps c is y)"
section \<open>The command\<close>

text \<open>
  \<open>Number(v) || d\<close> for \<open>--batch-size\<close> and \<open>--poll-interval-ms\<close>. \<open>None\<close>: a fraction or an infinity as batch size, which the
  \<open>LIMIT\<close> of SQLite refuses at every poll; the model stops there, and at an infinite interval.
\<close>

definition number_arg :: "host \<Rightarrow> jsval \<Rightarrow> rat \<Rightarrow> rat option" where
  "number_arg h v d = (case js_Number h v of Fin q \<Rightarrow> Some (if q = 0 then d else q) | NaN \<Rightarrow> Some d | _ \<Rightarrow> None)"

definition batch_arg :: "host \<Rightarrow> jsval \<Rightarrow> int option" where
  "batch_arg h v = (case number_arg h v 100 of
      Some q \<Rightarrow> if q = of_int \<lfloor>q\<rfloor> then Some \<lfloor>q\<rfloor> else None
    | None \<Rightarrow> None)"

text \<open>A flag that was given without a value is \<open>true\<close>, which SQLite cannot bind as a cursor id.\<close>

definition cursor_arg :: "jsval \<Rightarrow> (string option) option" where
  "cursor_arg v = (case v of JStr s \<Rightarrow> Some (or_null (Some s)) | _ \<Rightarrow> if truthy v then None else Some None)"

text \<open>Without a filter every event is wanted.\<close>

definition filter_arg :: "jsval \<Rightarrow> string" where
  "filter_arg args = (case jget args ''filter'' of JStr f \<Rightarrow> f | _ \<Rightarrow> ''*'')"

definition subscribe_overrides :: "jsval \<Rightarrow> config" where
  "subscribe_overrides globals =
     (if truthy (jget globals ''db_path'') then [(''db_path'', jget globals ''db_path'')] else []) @
     (if truthy (jget globals ''log_level'') then [(''log_level'', jget globals ''log_level'')] else [])"

datatype subscribe_start = Helped | Refused js_error | Unsupported | Drains drain_opts string | Streams stream_config

text \<open>
  What the sweep reads of the configuration; \<open>limits\<close> are the sizes that a configuration file may add for the
  tiered sweep.
\<close>

definition sweep_settings :: "sweep2_config \<Rightarrow> config \<Rightarrow> sweep2_config" where
  "sweep_settings limits cfg = limits\<lparr>sc_unacked_policy := cget cfg ''unacked_policy'',
     sc_unacked_retention_days := cget cfg ''unacked_retention_days'', sc_archive_mode := cget cfg ''archive_mode''\<rparr>"

text \<open>\<open>opened\<close> is the outcome of \<open>openDb\<close>, \<open>sid\<close> and \<open>cid\<close> are the identifiers a registration would draw.\<close>

definition cmdSubscribe ::
  "host \<Rightarrow> jsval \<Rightarrow> jsval \<Rightarrow> string option \<Rightarrow> unit res \<Rightarrow> sweep2_config \<Rightarrow> string \<Rightarrow> string \<Rightarrow> rat \<Rightarrow> bus \<Rightarrow> subscribe_start \<times> bus" where
  "cmdSubscribe h args globals file opened limits sid cid now b =
     (if wantsHelp args then (Helped, b)
      else case subscribe_args h args of
        Inl e \<Rightarrow> (Refused e, b)
      | Inr (plugin, drain, idle, recover) \<Rightarrow>
          (case loadConfig h file (subscribe_overrides globals) of
             Inl e \<Rightarrow> (Refused e, b)
           | Inr cfg \<Rightarrow>
               (case opened of
                  Inl e \<Rightarrow> (Refused e, b)
                | Inr _ \<Rightarrow>
                    (case (number_arg h (jget args ''poll-interval-ms'') 1000, batch_arg h (jget args ''batch-size''),
                           cursor_arg (jget args ''cursor-id'')) of
                       (Some interval, Some batch, Some wanted) \<Rightarrow>
                         (let flt = filter_arg args;
                              init = jget args ''cursor-init'';
                              opts = \<lparr>do_batch = batch, do_no_ack = (jget args ''no-ack'' = JBool True), do_interval = interval,
                                do_idle = idle, do_recover = recover\<rparr>
                          in case resolve_cursor b wanted (js_String h plugin) flt
                                 (if truthy init then Some (js_String h init) else None) sid cid now of
                               (Inl e, b1) \<Rightarrow> (Refused e, b1)
                             | (Inr c, b1) \<Rightarrow>
                                 if drain then (Drains opts c, b1)
                                 else (Streams \<lparr>sg_opts = opts, sg_cursor = c, sg_tiered = cget cfg ''tiered_archive'',
                                     sg_sweep = sweep_settings limits cfg,
                                     sg_sweep_ms = sweep_interval_ms (js_Number h (cget cfg ''sweep_interval_minutes'')),
                                     sg_checkpoint_ms = checkpoint_interval_ms h (cget cfg ''checkpoint_interval_minutes'')\<rparr>, b1))
                     | _ \<Rightarrow> (Unsupported, b)))))"

section \<open>One round\<close>

lemma sgoto_sel [simp]:
  "sm_pc (sgoto p s) = p" "sm_out (sgoto p s) = sm_out s" "sm_sweep (sgoto p s) = sm_sweep s"
  "sm_checkpoint (sgoto p s) = sm_checkpoint s" "sm_open (sgoto p s) = sm_open s" "sm_timeout (sgoto p s) = sm_timeout s"
  by (simp_all add: sgoto_def)

lemma shut_sel [simp]:
  "sm_pc (shut e s) = SEnded e" "sm_out (shut e s) = sm_out s" "\<not> sm_sweep (shut e s)" "\<not> sm_checkpoint (shut e s)"
  "\<not> sm_open (shut e s)" "sm_timeout (shut e s) = sm_timeout s"
  by (simp_all add: shut_def)

lemma printed_sel [simp]:
  "sm_pc (printed e s) = sm_pc s" "sm_out (printed e s) = sm_out s @ [e]" "sm_sweep (printed e s) = sm_sweep s"
  "sm_checkpoint (printed e s) = sm_checkpoint s" "sm_open (printed e s) = sm_open s" "sm_timeout (printed e s) = sm_timeout s"
  by (simp_all add: printed_def)

lemma next_print_sel [simp]:
  "sm_pc (next_print es s) = (if es = [] then SWait else SBatch es)" "sm_out (next_print es s) = sm_out s"
  "sm_sweep (next_print es s) = sm_sweep s" "sm_checkpoint (next_print es s) = sm_checkpoint s"
  "sm_open (next_print es s) = sm_open s" "sm_timeout (next_print es s) = sm_timeout s"
  by (simp_all add: next_print_def)

text \<open>Statements one after the other, with no other process in between.\<close>

definition runs_to :: "stream_config \<Rightarrow> rat \<Rightarrow> stream \<times> bus \<Rightarrow> stream \<times> bus \<Rightarrow> bool" where
  "runs_to c t = (\<lambda>x y. stream_run c t (fst x) (snd x) = Some y)\<^sup>*\<^sup>*"

lemma runs_to_refl [simp]: "runs_to c t x x"
  by (simp add: runs_to_def)

lemma runs_to_step: "stream_run c t s b = Some y \<Longrightarrow> runs_to c t y z \<Longrightarrow> runs_to c t (s, b) z"
  unfolding runs_to_def by (erule converse_rtranclp_into_rtranclp [rotated]) simp

lemma runs_to_trans: "runs_to c t x y \<Longrightarrow> runs_to c t y z \<Longrightarrow> runs_to c t x z"
  unfolding runs_to_def by (rule rtranclp_trans)

text \<open>The state after the \<open>catch\<close> has been left, as \<open>stream_round\<close> gives it.\<close>

definition after_catch :: "js_error option \<Rightarrow> stream \<Rightarrow> stream" where
  "after_catch err s = (case err of None \<Rightarrow> sgoto SWait s | Some e \<Rightarrow> shut (Some e) s)"

lemma sgoto_twice [simp]: "sgoto p (sgoto q s) = sgoto p s"
  by (simp add: sgoto_def)

lemma shut_goto [simp]: "shut e (sgoto q s) = shut e s"
  by (simp add: shut_def sgoto_def)

lemma catch_runs:
  "runs_to c t (stream_catch c e s, b)
     (if is_wb WB003 e \<and> do_recover (sg_opts c)
      then (case recoverFromStale b (sg_cursor c) e t of
              (Inl x, b2) \<Rightarrow> (after_catch (Some x) s, b2) | (Inr _, b2) \<Rightarrow> (after_catch None s, b2))
      else (after_catch (if is_wb WB003 e \<or> is_wb WB006 e then Some e else None) s, b))"
proof (cases "is_wb WB003 e \<and> do_recover (sg_opts c)")
  case True
  obtain r b2 where r: "recoverFromStale b (sg_cursor c) e t = (r, b2)" by fastforce
  have "stream_run c t (sgoto (SRecover e) s) b =
      Some (case r of Inr _ \<Rightarrow> (after_catch None s, b2) | Inl x \<Rightarrow> (after_catch (Some x) s, b2))"
    by (cases r) (simp_all add: stream_run_def r after_catch_def)
  from runs_to_step [OF this runs_to_refl] True r show ?thesis by (cases r) (simp_all add: stream_catch_def)
next
  case False
  then show ?thesis by (auto simp: stream_catch_def after_catch_def)
qed

definition printing :: "event_row list \<Rightarrow> stream \<Rightarrow> stream" where
  "printing out s = s\<lparr>sm_out := sm_out s @ out\<rparr>"

lemma printing_simps [simp]: "printing [] s = s" "printing out (printed e s) = printing (e # out) s" "printing [e] s = printed e s"
  by (simp_all add: printing_def printed_def)

definition batch_end :: "stream_config \<Rightarrow> js_error option \<Rightarrow> stream \<Rightarrow> stream" where
  "batch_end c err s = (case err of None \<Rightarrow> sgoto SWait s | Some e \<Rightarrow> stream_catch c e s)"

lemma batch_runs:
  assumes "print_batch (do_no_ack (sg_opts c)) (sg_cursor c) t es st b = (out, err, st', b')"
  shows "runs_to c t (next_print es s, b) (batch_end c err (printing out s), b')"
  using assms
proof (induction es arbitrary: s st b out)
  case Nil
  then show ?case by (simp add: next_print_def batch_end_def)
next
  case (Cons e es)
  let ?s = "printed e s"
  have pr: "next_print (e # es) s = sgoto (SBatch (e # es)) s" by (simp add: next_print_def)
  have pn: "next_print es (printed e (sgoto (SBatch (e # es)) s)) = next_print es ?s"
    by (simp add: next_print_def sgoto_def printed_def)
  show ?case
  proof (cases "do_no_ack (sg_opts c)")
    case True
    with Cons.prems obtain out1 where r: "print_batch True (sg_cursor c) t es (st\<lparr>dn_floor := ev_id e, dn_delivered := dn_delivered st + 1\<rparr>) b
        = (out1, err, st', b')" "out = e # out1"
      by (auto simp: Let_def split: prod.splits)
    have "stream_run c t (next_print (e # es) s) b = Some (next_print es ?s, b)"
      unfolding pr by (simp add: stream_run_def True pn)
    from runs_to_step [OF this] Cons.IH [of _ b out1 ?s] r True show ?thesis by simp
  next
    case False
    show ?thesis
    proof (cases "ack b (sg_cursor c) (ev_id e) t")
      case (Pair a b1)
      show ?thesis
      proof (cases a)
        case (Inl x)
        with Cons.prems False Pair have o: "out = [e]" "err = Some x" "b' = b1" by auto
        have "stream_run c t (next_print (e # es) s) b = Some (stream_catch c x ?s, b1)"
          unfolding pr using False Pair Inl by (simp add: stream_run_def stream_catch_def sgoto_def printed_def shut_def)
        from runs_to_step [OF this runs_to_refl] o show ?thesis by (simp add: batch_end_def)
      next
        case (Inr u)
        with Cons.prems False Pair obtain out1 where
          r: "print_batch False (sg_cursor c) t es (st\<lparr>dn_floor := ev_id e, dn_delivered := dn_delivered st + 1\<rparr>) b1
            = (out1, err, st', b')" "out = e # out1"
          by (auto simp: Let_def split: prod.splits)
        have "stream_run c t (next_print (e # es) s) b = Some (next_print es ?s, b1)"
          unfolding pr using False Pair Inr by (simp add: stream_run_def pn)
        from runs_to_step [OF this] Cons.IH [of _ b1 out1 ?s] r False show ?thesis by simp
      qed
    qed
  qed
qed

text \<open>With no other process in between, the statements of a round are \<open>stream_round\<close>.\<close>

lemma round_runs:
  assumes "stream_round (sg_opts c) (sg_cursor c) t b = (err, out, b')"
  shows "runs_to c t (sgoto SPoll s, b) (after_catch err (printing out s), b')"
proof (cases "poll b (sg_cursor c) (Some (do_batch (sg_opts c))) None")
  case (Inl e)
  have "stream_run c t (sgoto SPoll s) b = Some (stream_catch c e s, b)"
    by (simp add: stream_run_def Inl stream_catch_def)
  from runs_to_step [OF this catch_runs] assms Inl show ?thesis
    by (auto simp: stream_round_def split: if_splits prod.splits sum.splits)
next
  case (Inr es)
  obtain out1 err1 st1 b1 where pb: "print_batch (do_no_ack (sg_opts c)) (sg_cursor c) t es
      \<lparr>dn_floor = 0, dn_delivered = 0, dn_deadline = None\<rparr> b = (out1, err1, st1, b1)" by (metis prod_cases4)
  have "stream_run c t (sgoto SPoll s) b = Some (next_print es s, b)"
    by (simp add: stream_run_def Inr next_print_def)
  from runs_to_step [OF this batch_runs [OF pb, of s]] have
    r: "runs_to c t (sgoto SPoll s, b) (batch_end c err1 (printing out1 s), b1)" .
  show ?thesis
  proof (cases err1)
    case None
    with assms Inr pb r show ?thesis by (simp add: stream_round_def after_catch_def batch_end_def)
  next
    case (Some e)
    then have "batch_end c err1 (printing out1 s) = stream_catch c e (printing out1 s)" by (simp add: batch_end_def)
    with Some runs_to_trans [OF r] catch_runs [of c t e "printing out1 s" b1] assms Inr pb show ?thesis
      by (auto simp: stream_round_def split: if_splits prod.splits sum.splits)
  qed
qed
text \<open>Without acknowledgments a round changes nothing, so every round prints the same first batch again.\<close>

lemma no_ack_batch: "print_batch True cid t es st b = (out, err, st', b') \<Longrightarrow> out = es \<and> err = None \<and> b' = b"
  by (induction es arbitrary: st out) (auto simp: Let_def split: prod.splits)

lemma no_ack_stream_repeats:
  assumes "do_no_ack opts" and "poll b cid (Some (do_batch opts)) None = Inr es"
  shows "stream_round opts cid t b = (None, es, b)"
proof -
  obtain out err st b' where r: "print_batch True cid t es \<lparr>dn_floor = 0, dn_delivered = 0, dn_deadline = None\<rparr> b = (out, err, st, b')"
    by (metis prod_cases4)
  with no_ack_batch [OF r] assms show ?thesis by (simp add: stream_round_def)
qed

section \<open>Beside other processes\<close>

text \<open>The subscriber in the terms of \<open>BusWorld\<close>; the batch size and the retries of \<open>subscribe()\<close> play no part.\<close>

definition as_sub :: "stream_config \<Rightarrow> string \<Rightarrow> sub_config" where
  "as_sub c sub = \<lparr>sb_cursor = sg_cursor c, sb_sub = sub, sb_batch = 0, sb_max_retries = 0, sb_backoff = []\<rparr>"

lemma as_sub_sel [simp]: "sb_cursor (as_sub c sub) = sg_cursor c" "sb_sub (as_sub c sub) = sub"
  by (simp_all add: as_sub_def)

text \<open>
  A step of the process or of another process. \<open>faulty\<close> says whether statements can fail; other processes
  may commit between the transactions of a tiered sweep. The last component is every row ever stored.
\<close>

type_synonym stream_world = "stream \<times> bus \<times> archive \<times> event_row set"

inductive stream_world_step :: "stream_config \<Rightarrow> string \<Rightarrow> bool \<Rightarrow> stream_world \<Rightarrow> stream_world \<Rightarrow> bool"
  for c :: stream_config and sub :: string and faulty :: bool where
  runs: "stream_step c (SRun t) (s, b, ar) = Some (s', b', ar') \<Longrightarrow>
    stream_world_step c sub faulty (s, b, ar, E) (s', b', ar', E \<union> set (events b'))"
| faults: "stream_step c (SFault (SqliteError code)) (s, b, ar) = Some (s', b', ar') \<Longrightarrow> faulty \<Longrightarrow>
    stream_world_step c sub faulty (s, b, ar, E) (s', b', ar', E \<union> set (events b'))"
| waits: "stream_step c i (s, b, ar) = Some (s', b', ar') \<Longrightarrow> i = SWaited \<or> i = SSignal \<or> i = SCheckpoint outcome \<Longrightarrow>
    stream_world_step c sub faulty (s, b, ar, E) (s', b', ar', E \<union> set (events b'))"
| sweeps: "stream_step c (SSweep env now) (s, b, ar) = Some (s', b', ar') \<Longrightarrow>
    (other_step (as_sub c sub))\<^sup>*\<^sup>* b (sv_between env b) \<Longrightarrow>
    stream_world_step c sub faulty (s, b, ar, E) (s', b', ar', E \<union> set (events b'))"
| world: "world_step (as_sub c sub) (b, ar) (b', ar') \<Longrightarrow>
    stream_world_step c sub faulty (s, b, ar, E) (s, b', ar', E \<union> set (events b'))"

section \<open>The invariant\<close>

fun hand :: "spc \<Rightarrow> event_row list" where
  "hand (SBatch w) = w"
| "hand _ = []"

text \<open>The program counter of \<open>BusSubscribe\<close> with the same batch in hand, for the invariant of \<open>BusDelivery\<close>.\<close>

definition floor_of :: "js_error \<Rightarrow> int" where
  "floor_of e = (case js_int (ctx_get e ''oldest_available_event_id'') of Some m \<Rightarrow> m - 1 | None \<Rightarrow> 0)"

fun pc_of :: "spc \<Rightarrow> pc" where
  "pc_of SPoll = Poll"
| "pc_of (SBatch (e # w)) = Begin e w"
| "pc_of (SBatch []) = Idle"
| "pc_of (SRecover e) = Reanchor e (floor_of e)"
| "pc_of SWait = Idle"
| "pc_of (SEnded r) = Stopped"

definition as_system :: "stream_world \<Rightarrow> system" where
  "as_system x = (case x of (s, b, ar, E) \<Rightarrow> \<lparr>sy_agent = goto (pc_of (sm_pc s)) fresh_agent, sy_bus = b, sy_archive = ar,
     sy_log = map (\<lambda>e. Handled (ev_id e)) (sm_out s), sy_ever = E\<rparr>)"

lemma as_system_sel [simp]:
  "sy_bus (as_system (s, b, ar, E)) = b" "sy_archive (as_system (s, b, ar, E)) = ar" "sy_ever (as_system (s, b, ar, E)) = E"
  "sy_log (as_system (s, b, ar, E)) = map (\<lambda>e. Handled (ev_id e)) (sm_out s)"
  "ag_pc (sy_agent (as_system (s, b, ar, E))) = pc_of (sm_pc s)"
  by (simp_all add: as_system_def goto_def)

definition last_id :: "int \<Rightarrow> stream \<Rightarrow> int" where
  "last_id p0 s = last (p0 # map ev_id (sm_out s))"

text \<open>What was printed, and what is in hand and stored above the cursor at \<open>q\<close>, is in order.\<close>

definition in_order :: "bool \<Rightarrow> int \<Rightarrow> string \<Rightarrow> int \<Rightarrow> stream \<Rightarrow> bus \<Rightarrow> bool" where
  "in_order faulty p0 f q s b \<longleftrightarrow> sorted_wrt (\<le>) (p0 # map ev_id (sm_out s)) \<and> last_id p0 s \<le> events_seq b \<and>
     (\<forall>y\<in>set (events b). event_matches f y \<longrightarrow> q < ev_id y \<longrightarrow> last_id p0 s \<le> ev_id y) \<and>
     (\<forall>y\<in>set (hand (sm_pc s)). last_id p0 s \<le> ev_id y) \<and>
     (\<forall>y\<in>set (hand (sm_pc s)) \<union> set (sm_out s). event_matches f y) \<and>
     (\<not> faulty \<longrightarrow> sorted_wrt (<) (p0 # map ev_id (sm_out s)) \<and> last_id p0 s \<le> q)"

text \<open>What is running fits where the loop stands; only a statement that failed ends it with an error.\<close>

definition tidy :: "stream_config \<Rightarrow> bool \<Rightarrow> stream \<Rightarrow> bool" where
  "tidy c faulty s \<longleftrightarrow> (case sm_pc s of
      SEnded r \<Rightarrow> \<not> sm_sweep s \<and> \<not> sm_checkpoint s \<and> \<not> sm_open s \<and>
        (case r of None \<Rightarrow> True | Some e \<Rightarrow> faulty \<and> (\<exists>code. e = SqliteError code))
    | _ \<Rightarrow> (sm_sweep s \<longleftrightarrow> sg_sweep_ms c \<noteq> None) \<and> (sm_checkpoint s \<longleftrightarrow> sg_checkpoint_ms c \<noteq> None) \<and> sm_open s) \<and>
     (case sm_pc s of SBatch w \<Rightarrow> w \<noteq> [] | SRecover e \<Rightarrow> js_int (ctx_get e ''oldest_available_event_id'') \<noteq> None | _ \<Rightarrow> True) \<and>
     sm_timeout s = jint 5000"

definition streaming :: "stream_config \<Rightarrow> string \<Rightarrow> bool \<Rightarrow> int \<Rightarrow> string \<Rightarrow> int \<Rightarrow> stream_world \<Rightarrow> bool" where
  "streaming c sub faulty p0 f q x \<longleftrightarrow> delivering (as_sub c sub) p0 f q (as_system x) \<and>
     (case x of (s, b, ar, E) \<Rightarrow> in_order faulty p0 f q s b \<and> tidy c faulty s)"

lemma in_orderD:
  assumes "in_order faulty p0 f q s b"
  shows "sorted_wrt (\<le>) (p0 # map ev_id (sm_out s))" and "last_id p0 s \<le> events_seq b"
    and "y \<in> set (events b) \<Longrightarrow> event_matches f y \<Longrightarrow> q < ev_id y \<Longrightarrow> last_id p0 s \<le> ev_id y"
    and "y \<in> set (hand (sm_pc s)) \<Longrightarrow> last_id p0 s \<le> ev_id y"
    and "y \<in> set (hand (sm_pc s)) \<union> set (sm_out s) \<Longrightarrow> event_matches f y"
    and "\<not> faulty \<Longrightarrow> sorted_wrt (<) (p0 # map ev_id (sm_out s))" and "\<not> faulty \<Longrightarrow> last_id p0 s \<le> q"
  using assms unfolding in_order_def by blast+

lemma last_id_cong: "sm_out s' = sm_out s \<Longrightarrow> last_id p0 s' = last_id p0 s"
  by (simp add: last_id_def)

lemma last_id_printed [simp]: "last_id p0 (printed e s) = ev_id e"
  by (simp add: last_id_def)

lemma sorted_wrt_snoc_last:
  assumes "sorted_wrt P xs" and "xs \<noteq> []" and "P (last xs) y" and "transp P"
  shows "sorted_wrt P (xs @ [y])"
  unfolding sorted_wrt_append
proof (intro conjI ballI)
  fix x z assume "x \<in> set xs" "z \<in> set [y]"
  then have z: "z = y" and x: "x \<in> set (butlast xs) \<or> x = last xs" using assms(2) by (simp, metis Un_iff append_butlast_last_id list.set(1) list.set(2) set_append singletonD empty_iff insert_iff)
  have "sorted_wrt P (butlast xs @ [last xs])" using assms(1,2) by simp
  then have "\<forall>w\<in>set (butlast xs). P w (last xs)" by (simp add: sorted_wrt_append)
  with x assms(3,4) z show "P x z" by (metis transpD)
qed (use assms(1) in simp_all)
section \<open>Steps of the process\<close>

lemma attached_unique: "attached cfg p f b \<Longrightarrow> attached cfg q f b \<Longrightarrow> p = q"
  by (auto simp: attached_def)

lemma next_event_pc: "next_event w fresh_agent = goto (pc_of (sm_pc (next_print w s))) fresh_agent"
  by (cases w) (simp_all add: next_event_def end_tick_def fresh_agent_def goto_def)

text \<open>With an active cursor, a poll fails only when the cursor is stale, and the loop then recovers it.\<close>

lemma stale_poll:
  assumes "sound_bus b" and "attached cfg q f b" and "poll b (sb_cursor cfg) bs None = Inl e"
  shows "is_wb WB003 e \<and> js_int (ctx_get e ''oldest_available_event_id'') \<noteq> None \<and> pc_ok f q b tr (Reanchor e (floor_of e))"
proof -
  from assms(2) obtain cr sr where c: "find_cursor b (sb_cursor cfg) = Some cr" "cursor_active cr" "find_sub b (cu_sub cr) = Some sr"
    by (auto simp: attached_def)
  have w: "is_wb WB003 e" using assms(3) c by (auto simp: poll_def is_wb_def Let_def split: option.splits if_splits)
  from poll_WB003 [OF assms(3) w] obtain m where m: "js_int (ctx_get e ''oldest_available_event_id'') = Some m"
    by (auto simp: ctx_get_oldest)
  have "\<not> isConnectionFatal e" using w by (auto simp: isConnectionFatal_def is_wb_def split: js_error.splits)
  then have "ag_pc (fst (tick_catch cfg e fresh_agent)) = Reanchor e (floor_of e)"
    using w m by (simp add: tick_catch_def floor_of_def goto_def)
  with poll_error_ok [OF assms, of tr fresh_agent] w m show ?thesis by simp
qed

lemma poll_all_match:
  assumes "bus_wf b" and "attached cfg q f b" and "poll b (sb_cursor cfg) bs None = Inr es" and "y \<in> set es"
  shows "y \<in> set (events b) \<and> event_matches f y \<and> q < ev_id y"
proof -
  from poll_Inr_iff [OF bus_wfD(1) [OF assms(1)], of "sb_cursor cfg" bs None es] assms(2,3) have
    es: "es = sql_limit (effective_batch bs) (pending b f q)" by (auto simp: attached_def)
  obtain rest where "pending b f q = es @ rest" using sql_limit_append es by metis
  then have "y \<in> set (pending b f q)" using assms(4) by simp
  then show ?thesis by (simp add: set_pending)
qed

lemma streamingD:
  assumes "streaming c sub faulty p0 f q (s, b, ar, E)"
  shows "delivering (as_sub c sub) p0 f q (as_system (s, b, ar, E))" and "in_order faulty p0 f q s b" and "tidy c faulty s"
    and "sound_bus b" and "attached (as_sub c sub) q f b" and "q \<le> events_seq b" and "p0 \<le> q"
    and "pc_ok f q b (map (\<lambda>e. Handled (ev_id e)) (sm_out s)) (pc_of (sm_pc s))"
proof -
  show d: "delivering (as_sub c sub) p0 f q (as_system (s, b, ar, E))" and "in_order faulty p0 f q s b" "tidy c faulty s"
    using assms by (simp_all add: streaming_def)
  show "sound_bus b" "attached (as_sub c sub) q f b" "q \<le> events_seq b" "p0 \<le> q"
    "pc_ok f q b (map (\<lambda>e. Handled (ev_id e)) (sm_out s)) (pc_of (sm_pc s))"
    using deliveringD(1-5) [OF d] by simp_all
qed

text \<open>A step of the loop that \<open>advances\<close> (\<open>BusDelivery\<close>) keeps the invariant, if the order is kept.\<close>

lemma step_streaming:
  assumes st: "streaming c sub faulty p0 f q (s, b, ar, E)"
    and out: "sm_out s' = sm_out s @ es"
    and adv: "advances (as_sub c sub) f q b (goto (pc_of (sm_pc s')) fresh_agent) b'
      (map (\<lambda>e. Handled (ev_id e)) (sm_out s) @ map (\<lambda>e. Handled (ev_id e)) es)"
    and pos: "attached (as_sub c sub) q' f b'" and ord: "in_order faulty p0 f q' s' b'" and "tidy c faulty s'"
  shows "q \<le> q' \<and> streaming c sub faulty p0 f q' (s', b', ar, E \<union> set (events b'))"
proof -
  let ?x = "as_system (s, b, ar, E)"
  have "advances (as_sub c sub) f q (sy_bus ?x) (goto (pc_of (sm_pc s')) fresh_agent) b' (sy_log ?x @ map (\<lambda>e. Handled (ev_id e)) es)"
    using adv by simp
  from advances_delivering [OF streamingD(1) [OF st] this] obtain r where r: "q \<le> r"
    "delivering (as_sub c sub) p0 f r (?x\<lparr>sy_agent := goto (pc_of (sm_pc s')) fresh_agent, sy_bus := b',
       sy_log := sy_log ?x @ map (\<lambda>e. Handled (ev_id e)) es, sy_ever := sy_ever ?x \<union> set (events b')\<rparr>)" by blast
  moreover have "?x\<lparr>sy_agent := goto (pc_of (sm_pc s')) fresh_agent, sy_bus := b',
       sy_log := sy_log ?x @ map (\<lambda>e. Handled (ev_id e)) es, sy_ever := sy_ever ?x \<union> set (events b')\<rparr> =
      as_system (s', b', ar, E \<union> set (events b'))" by (simp add: as_system_def out)
  ultimately have d: "delivering (as_sub c sub) p0 f r (as_system (s', b', ar, E \<union> set (events b')))" by simp
  have "r = q'" using attached_unique [OF _ pos] deliveringD(2) [OF d] by simp
  with r(1) d ord assms(6) show ?thesis by (simp add: streaming_def)
qed

lemma stays_here:
  assumes "streaming c sub faulty p0 f q (s, b, ar, E)" and "pc_ok f q b (map (\<lambda>e. Handled (ev_id e)) (sm_out s @ es)) (pc_of (sm_pc s'))"
  shows "advances (as_sub c sub) f q b (goto (pc_of (sm_pc s')) fresh_agent) b
      (map (\<lambda>e. Handled (ev_id e)) (sm_out s) @ map (\<lambda>e. Handled (ev_id e)) es)"
proof -
  note D = streamingD [OF assms(1)]
  show ?thesis
    by (rule stays [OF D(4,5,6) sound_busD(1) [OF D(4)]]) (use assms(2) in \<open>simp_all add: goto_def\<close>)
qed

lemma in_order_goto:
  assumes "in_order faulty p0 f q s b" and "sm_out s' = sm_out s"
    and "\<forall>y\<in>set (hand (sm_pc s')). last_id p0 s \<le> ev_id y \<and> event_matches f y"
  shows "in_order faulty p0 f q s' b"
  using assms last_id_cong [OF assms(2), of p0] unfolding in_order_def by auto

lemma poll_streaming:
  assumes st: "streaming c sub faulty p0 f q (s, b, ar, E)" and "sm_pc s = SPoll" and rc: "do_recover (sg_opts c)"
    and run: "stream_run c t s b = Some (s', b')"
  shows "streaming c sub faulty p0 f q (s', b', ar, E \<union> set (events b'))"
proof -
  note D = streamingD [OF st]
  note O = in_orderD [OF D(2)]
  let ?bs = "Some (do_batch (sg_opts c))"
  have goal: "streaming c sub faulty p0 f q (s', b', ar, E \<union> set (events b'))"
    if "b' = b" "sm_out s' = sm_out s" "pc_ok f q b (map (\<lambda>e. Handled (ev_id e)) (sm_out s)) (pc_of (sm_pc s'))"
      "in_order faulty p0 f q s' b" "tidy c faulty s'"
    using step_streaming [OF st, of s' "[]" b q] stays_here [OF st, of "[]" s'] that D(5) by simp
  show ?thesis
  proof (cases "poll b (sg_cursor c) ?bs None")
    case (Inl e)
    from stale_poll [OF D(4,5), of ?bs e] Inl have e: "is_wb WB003 e" "js_int (ctx_get e ''oldest_available_event_id'') \<noteq> None"
      "pc_ok f q b tr (Reanchor e (floor_of e))" for tr by auto
    have s': "s' = sgoto (SRecover e) s" "b' = b" using run assms(2) Inl e(1) rc by (simp_all add: stream_run_def stream_catch_def)
    have "in_order faulty p0 f q s' b" by (rule in_order_goto [OF D(2)]) (simp_all add: s')
    moreover have "tidy c faulty s'" using D(3) assms(2) e(2) by (auto simp: tidy_def s')
    ultimately show ?thesis using goal e(3) s' by simp
  next
    case (Inr es)
    have s': "s' = next_print es s" "b' = b" using run assms(2) Inr by (simp_all add: stream_run_def)
    have w: "window_ok f q b es" using poll_window [OF D(4,5), of ?bs es] Inr by simp
    have m: "y \<in> set (events b) \<and> event_matches f y \<and> q < ev_id y" if "y \<in> set es" for y
      using poll_all_match [OF sound_busD(1) [OF D(4)] D(5), of ?bs es y] Inr that by simp
    have "in_order faulty p0 f q s' b"
      by (rule in_order_goto [OF D(2)]) (use m O(3) in \<open>auto simp: s'\<close>)
    moreover have "tidy c faulty s'" using D(3) assms(2) by (auto simp: tidy_def s')
    moreover have "pc_ok f q b (map (\<lambda>e. Handled (ev_id e)) (sm_out s)) (pc_of (sm_pc s'))"
      using w by (cases es) (simp_all add: s')
    ultimately show ?thesis using goal s' by simp
  qed
qed
lemma in_order_print:
  assumes "in_order faulty p0 f q s b" and "e \<in> set (hand (sm_pc s))" and out: "sm_out s' = sm_out s @ [e]"
    and "ev_id e \<le> events_seq b'" and "\<forall>y\<in>set (events b'). event_matches f y \<longrightarrow> q' < ev_id y \<longrightarrow> ev_id e \<le> ev_id y"
    and "\<forall>y\<in>set (hand (sm_pc s')). ev_id e \<le> ev_id y \<and> event_matches f y"
    and "\<not> faulty \<Longrightarrow> q < ev_id e \<and> ev_id e \<le> q'"
  shows "in_order faulty p0 f q' s' b'"
proof -
  note O = in_orderD [OF assms(1)]
  have l: "last_id p0 s' = ev_id e" by (simp add: last_id_def out)
  have sn: "sorted_wrt P (p0 # map ev_id (sm_out s'))"
    if "sorted_wrt P (p0 # map ev_id (sm_out s))" "P (last_id p0 s) (ev_id e)" "transp P" for P
    using sorted_wrt_snoc_last [OF that(1) _ that(2) [unfolded last_id_def] that(3)] by (simp add: out)
  have "sorted_wrt (\<le>) (p0 # map ev_id (sm_out s'))" using sn [OF O(1)] O(4) [OF assms(2)] by simp
  moreover have "sorted_wrt (<) (p0 # map ev_id (sm_out s')) \<and> ev_id e \<le> q'" if "\<not> faulty"
    using sn [OF O(6)] O(7) assms(7) that by force
  moreover have "\<forall>y\<in>set (hand (sm_pc s')) \<union> set (sm_out s'). event_matches f y"
    using O(5) assms(2,6) by (auto simp: out)
  ultimately show ?thesis using assms(4-6) unfolding in_order_def l by blast
qed

lemma in_order_move:
  assumes "in_order faulty p0 f q s b" and "sm_out s' = sm_out s" and "hand (sm_pc s') = []" and "q \<le> q'"
    and "events b' = events b" and "events_seq b' = events_seq b"
  shows "in_order faulty p0 f q' s' b'"
proof -
  have "last_id p0 s' = last_id p0 s" by (rule last_id_cong [OF assms(2)])
  then show ?thesis using assms unfolding in_order_def by force
qed

lemma batch_streaming:
  assumes st: "streaming c sub faulty p0 f q (s, b, ar, E)" and pc: "sm_pc s = SBatch w0" and na: "\<not> do_no_ack (sg_opts c)"
    and run: "stream_run c t s b = Some (s', b')"
  shows "\<exists>q'\<ge>q. streaming c sub faulty p0 f q' (s', b', ar, E \<union> set (events b'))"
proof -
  note D = streamingD [OF st]
  note O = in_orderD [OF D(2)]
  obtain e w where w0: "w0 = e # w" using D(3) pc by (cases w0) (auto simp: tidy_def)
  have win: "window_ok f q b (e # w)" using D(8) by (simp add: pc w0)
  then have e: "q < ev_id e" "ev_id e \<le> events_seq b" "\<forall>y\<in>set w. ev_id e < ev_id y" by (simp_all add: window_ok_def)
  have m: "\<forall>y\<in>set w. event_matches f y" using O(5) by (simp add: pc w0)
  let ?tr = "map (\<lambda>x. Handled (ev_id x)) (sm_out s) @ map (\<lambda>x. Handled (ev_id x)) [e]" and ?s = "next_print w (printed e s)"
  have "covered ?tr (ev_id e)" by (simp add: covered_def)
  from ack_advances [OF D(4,5) win this, of t fresh_agent] obtain b1 where
    a: "ack b (sg_cursor c) (ev_id e) t = (Inr (sg_cursor c, ev_id e), b1)"
    and adv: "advances (as_sub c sub) f q b (next_event w fresh_agent) b1 ?tr" by auto
  have s': "s' = ?s" "b' = b1" using run pc w0 na a by (simp_all add: stream_run_def)
  have ev: "events b1 = events b" "events_seq b1 = events_seq b" using adv by (simp_all add: advances_def)
  have "b1 = update_cursor_position (sg_cursor c) (ev_id e) t b"
    using a attached_update(2) [OF D(5)] by (simp add: ack_active)
  then have pos: "attached (as_sub c sub) (ev_id e) f b1" using attached_update(1) [OF D(5), of "ev_id e" t] by simp
  have ord: "in_order faulty p0 f (ev_id e) s' b'"
    by (rule in_order_print [OF D(2), of e]) (use e m in \<open>auto simp: pc w0 s' ev\<close>)
  have ti: "tidy c faulty s'" using D(3) pc w0 by (auto simp: tidy_def s')
  have "advances (as_sub c sub) f q b (goto (pc_of (sm_pc s')) fresh_agent) b' ?tr"
    using adv next_event_pc [of w "printed e s"] s' by simp
  from step_streaming [OF st _ this _ ord ti] pos s' show ?thesis by (intro exI [of _ "ev_id e"]) simp
qed

lemma recover_streaming:
  assumes st: "streaming c sub faulty p0 f q (s, b, ar, E)" and pc: "sm_pc s = SRecover e"
    and run: "stream_run c t s b = Some (s', b')"
  shows "\<exists>q'\<ge>q. streaming c sub faulty p0 f q' (s', b', ar, E \<union> set (events b'))"
proof -
  note D = streamingD [OF st]
  obtain m where m: "js_int (ctx_get e ''oldest_available_event_id'') = Some m" using D(3) pc by (auto simp: tidy_def)
  then have fl: "floor_of e = m - 1" by (simp add: floor_of_def)
  let ?tr = "map (\<lambda>x. Handled (ev_id x)) (sm_out s)"
  have pcok: "pc_ok f q b ?tr (Reanchor e (m - 1))" using D(8) by (simp add: pc fl)
  from reanchor_advances [OF D(4,5) pcok, of t fresh_agent] obtain b1 where
    r: "reanchor_cursor b (sg_cursor c) (jint (m - 1)) t = (Inr (sg_cursor c, m - 1), b1)"
    and adv: "advances (as_sub c sub) f q b (end_tick fresh_agent) b1 ?tr" by auto
  have s': "s' = sgoto SWait s" "b' = b1" using run pc m r by (simp_all add: stream_run_def recoverFromStale_def)
  have "reanchor_cursor b (sg_cursor c) (jint (m - 1)) t = (Inr (sg_cursor c, m - 1), update_cursor_position (sg_cursor c) (m - 1) t b)"
    by (rule reanchor_active) (use pcok attached_update(2) [OF D(5)] in simp_all)
  with r have "b1 = update_cursor_position (sg_cursor c) (m - 1) t b" by simp
  then have pos: "attached (as_sub c sub) (m - 1) f b1" using attached_update(1) [OF D(5), of "m - 1" t] by simp
  have ord: "in_order faulty p0 f (m - 1) s' b'"
    by (rule in_order_move [OF D(2)]) (use pcok adv in \<open>auto simp: s' advances_def\<close>)
  have ti: "tidy c faulty s'" using D(3) pc by (auto simp: tidy_def s')
  have "end_tick fresh_agent = goto (pc_of (sm_pc s')) fresh_agent" by (simp add: end_tick_def fresh_agent_def s')
  with adv s' have "advances (as_sub c sub) f q b (goto (pc_of (sm_pc s')) fresh_agent) b' (?tr @ map (\<lambda>x. Handled (ev_id x)) [])"
    by simp
  from step_streaming [OF st _ this _ ord ti] pos s' show ?thesis by (intro exI [of _ "m - 1"]) simp
qed

lemma fault_streaming:
  assumes st: "streaming c sub faulty p0 f q (s, b, ar, E)" and na: "\<not> do_no_ack (sg_opts c)" and "faulty"
    and fault: "stream_fault c (SqliteError code) s = Some s'"
  shows "streaming c sub faulty p0 f q (s', b, ar, E \<union> set (events b))"
proof -
  note D = streamingD [OF st]
  note O = in_orderD [OF D(2)]
  have no: "\<not> is_wb WB006 (SqliteError code)" by (simp add: is_wb_def)
  have quiet: "streaming c sub faulty p0 f q (s', b, ar, E \<union> set (events b))"
    if "sm_out s' = sm_out s @ es" "pc_of (sm_pc s') \<in> {Idle, Stopped}" "in_order faulty p0 f q s' b" "tidy c faulty s'" for es
    using step_streaming [OF st that(1) stays_here [OF st] D(5) that(3,4)] that(2) by auto
  show ?thesis
  proof (cases "sm_pc s")
    case SPoll
    then have s': "s' = sgoto SWait s" using fault no by (simp add: stream_fault_def stream_catch_def)
    have "in_order faulty p0 f q s' b" by (rule in_order_move [OF D(2)]) (simp_all add: s')
    with D(3) SPoll show ?thesis by (intro quiet [of "[]"]) (auto simp: s' tidy_def)
  next
    case (SBatch w0)
    then obtain e w where w0: "w0 = e # w" using D(3) by (cases w0) (auto simp: tidy_def)
    have s': "s' = sgoto SWait (printed e s)" using fault no SBatch w0 na by (simp add: stream_fault_def stream_catch_def)
    have win: "window_ok f q b (e # w)" using D(8) by (simp add: SBatch w0)
    have "ev_id e \<le> ev_id y" if "y \<in> set (events b)" "event_matches f y" "q < ev_id y" for y
      using window_first [OF win that] by linarith
    then have "in_order faulty p0 f q s' b"
      by (intro in_order_print [OF D(2), of e]) (use assms(3) win in \<open>auto simp: s' SBatch w0 window_ok_def\<close>)
    with D(3) SBatch show ?thesis by (intro quiet [of "[e]"]) (auto simp: s' tidy_def)
  next
    case (SRecover x)
    then have s': "s' = shut (Some (SqliteError code)) s" using fault by (simp add: stream_fault_def)
    have "in_order faulty p0 f q s' b" by (rule in_order_move [OF D(2)]) (simp_all add: s')
    with D(3) SRecover assms(3) show ?thesis by (intro quiet [of "[]"]) (auto simp: s' tidy_def)
  qed (use fault in \<open>simp_all add: stream_fault_def\<close>)
qed
section \<open>The event loop and other processes\<close>

lemma in_order_evolves:
  assumes "in_order faulty p0 f q s b" and "evolves q f b ar b' ar'"
  shows "in_order faulty p0 f q s b'"
proof -
  note O = in_orderD [OF assms(1)]
  note E = evolvesD [OF assms(2)]
  have "last_id p0 s \<le> ev_id y" if y: "y \<in> set (events b')" "event_matches f y" "q < ev_id y" for y
  proof (cases "events_seq b < ev_id y")
    case True
    then show ?thesis using O(2) by simp
  next
    case False
    with E(3) [OF y(1)] obtain x where x: "x \<in> set (events b)" "rekeyed x y" by blast
    then have "ev_id x = ev_id y" "event_matches f x" using rekeyed_sel(1) rekeyed_matches y(2) by metis+
    with O(3) [OF x(1)] y(3) show ?thesis by simp
  qed
  with assms(1) E(1) show ?thesis unfolding in_order_def by (meson order_trans)
qed

lemma world_streaming:
  assumes st: "streaming c sub faulty p0 f q (s, b, ar, E)" and step: "world_step (as_sub c sub) (b, ar) (b', ar')"
  shows "streaming c sub faulty p0 f q (s, b', ar', E \<union> set (events b'))"
proof -
  note D = streamingD [OF st]
  let ?x = "as_system (s, b, ar, E)"
  have "world_step (as_sub c sub) (sy_bus ?x, sy_archive ?x) (b', ar')" using step by simp
  from world_delivering [OF D(1) this] have
    "delivering (as_sub c sub) p0 f q (?x\<lparr>sy_bus := b', sy_archive := ar', sy_ever := sy_ever ?x \<union> set (events b')\<rparr>)" .
  moreover have "?x\<lparr>sy_bus := b', sy_archive := ar', sy_ever := sy_ever ?x \<union> set (events b')\<rparr> =
      as_system (s, b', ar', E \<union> set (events b'))" by (simp add: as_system_def)
  moreover from world_step_evolves [OF step D(4,5)] have "in_order faulty p0 f q s b'"
    using in_order_evolves [OF D(2)] by blast
  ultimately show ?thesis using D(3) by (simp add: streaming_def)
qed

text \<open>A pass of the sweep of this process is the same step as one of another process.\<close>

lemma own_sweep:
  assumes "runConfiguredSweep tiered (sc :: sweep2_config) env now b ar = (r, b', ar')" and "resolveUnackedPolicy (sc_unacked_policy sc) \<noteq> Inr Discard"
    and "(other_step cfg)\<^sup>*\<^sup>* b (sv_between env b)"
  shows "world_step cfg (b, ar) (b', ar')"
proof (cases "truthy tiered")
  case True
  obtain r1 b1 ar1 where s: "runSweepV2 sc env now b ar = (r1, b1, ar1)" by (metis prod_cases3)
  with True assms(1) have "b1 = b'" "ar1 = ar'" by (auto simp: runConfiguredSweep_def split: sum.splits)
  with s tiered [OF assms(2,3)] show ?thesis by metis
next
  case False
  obtain r1 b1 where s: "runSweep (sweep_config.truncate sc) now b = (r1, b1)" by fastforce
  with False assms(1) have eq: "b1 = b'" "ar = ar'" by (auto simp: runConfiguredSweep_def split: sum.splits)
  have "resolveUnackedPolicy (sc_unacked_policy (sweep_config.truncate sc)) \<noteq> Inr Discard"
    using assms(2) by (simp add: sweep_config.truncate_def)
  from other_step.sweeps [OF this, of cfg b now] s eq show ?thesis by (auto intro: world_step.other)
qed

lemma checkpoint_timeout: "snd (runCheckpoint (JNum (Fin 5000)) outcome) = JNum (Fin 5000)"
  by (simp add: runCheckpoint_def Let_def split: sum.split)

lemma stream_world_streaming:
  assumes "stream_world_step c sub faulty x x'" and st: "streaming c sub faulty p0 f q x"
    and na: "\<not> do_no_ack (sg_opts c)" and rc: "do_recover (sg_opts c)"
    and pol: "resolveUnackedPolicy (sc_unacked_policy (sg_sweep c)) \<noteq> Inr Discard"
  shows "\<exists>q'\<ge>q. streaming c sub faulty p0 f q' x'"
  using assms(1)
proof cases
  case (runs t s b ar s' b' ar' E)
  then have r: "stream_run c t s b = Some (s', b')" "ar' = ar" by (auto simp: stream_step_def)
  have st': "streaming c sub faulty p0 f q (s, b, ar, E)" using st runs by simp
  show ?thesis
  proof (cases "sm_pc s")
    case SPoll
    with poll_streaming [OF st' _ rc r(1)] runs r(2) show ?thesis by blast
  next
    case SBatch
    with batch_streaming [OF st' _ na r(1)] runs r(2) show ?thesis by blast
  next
    case SRecover
    with recover_streaming [OF st' _ r(1)] runs r(2) show ?thesis by blast
  qed (use r in \<open>simp_all add: stream_run_def\<close>)
next
  case (faults code s b ar s' b' ar' E)
  then have "stream_fault c (SqliteError code) s = Some s'" "b' = b" "ar' = ar" by (auto simp: stream_step_def)
  with fault_streaming [of c sub faulty p0 f q s b ar E code s'] st na faults show ?thesis by blast
next
  case (waits i s b ar s' b' ar' outcome E)
  then have s: "sm_pc s = SWait" "b' = b" "ar' = ar" "s' \<in> {sgoto SPoll s, shut None s, s\<lparr>sm_timeout := snd (runCheckpoint (sm_timeout s) outcome)\<rparr>}"
    by (auto simp: stream_step_def checkpoint_tick_def split: if_splits)
  have st': "streaming c sub faulty p0 f q (s, b, ar, E)" using st waits by simp
  note D = streamingD [OF st']
  have t: "tidy c faulty s'" using s D(3) by (auto simp: tidy_def checkpoint_timeout)
  have o: "sm_out s' = sm_out s @ []" "hand (sm_pc s') = []" "pc_of (sm_pc s') \<in> {Idle, Poll, Stopped}" using s(1,4) by auto
  have i: "in_order faulty p0 f q s' b" by (rule in_order_move [OF D(2)]) (use o in simp_all)
  have "pc_ok f q b (map (\<lambda>e. Handled (ev_id e)) (sm_out s @ [])) (pc_of (sm_pc s'))" using o(3) by auto
  from step_streaming [OF st' o(1) stays_here [OF st' this] D(5) i t] waits s show ?thesis by blast
next
  case (sweeps env now s b ar s' b' ar' E)
  then obtain r where r: "runConfiguredSweep (sg_tiered c) (sg_sweep c) env now b ar = (r, b', ar')" "s' = s"
    by (cases "runConfiguredSweep (sg_tiered c) (sg_sweep c) env now b ar") (auto simp: stream_step_def sweep_tick_def split: if_splits)
  from own_sweep [OF r(1) pol sweeps(4)] have "world_step (as_sub c sub) (b, ar) (b', ar')" .
  with world_streaming [of c sub faulty p0 f q s b ar E b' ar'] st sweeps r(2) show ?thesis by blast
next
  case (world b ar b' ar' s E)
  with world_streaming [of c sub faulty p0 f q s b ar E b' ar'] st show ?thesis by blast
qed

lemma stream_reached:
  assumes "(stream_world_step c sub faulty)\<^sup>*\<^sup>* x x'" and "streaming c sub faulty p0 f q x"
    and "\<not> do_no_ack (sg_opts c)" and "do_recover (sg_opts c)"
    and "resolveUnackedPolicy (sc_unacked_policy (sg_sweep c)) \<noteq> Inr Discard"
  shows "\<exists>q'\<ge>q. streaming c sub faulty p0 f q' x'"
  using assms(1,2)
proof (induction rule: rtranclp_induct)
  case (step y z)
  then obtain q1 where "q \<le> q1" "streaming c sub faulty p0 f q1 y" by blast
  with stream_world_streaming [OF step.hyps(2) this(2) assms(3-5)] show ?case by (meson order_trans)
qed blast

lemma start_streaming:
  assumes "sound_bus b" and "attached (as_sub c sub) p f b" and "p \<le> events_seq b"
  shows "streaming c sub faulty p f p (stream_start c, b, ar, set (events b))"
proof -
  let ?x = "as_system (stream_start c, b, ar, set (events b))"
  have "started (as_sub c sub) p f (begun b ar)" using assms by (simp add: started_def begun_def)
  from started_delivering [OF this] have d: "delivering (as_sub c sub) p f p (begun b ar)" .
  have "delivering (as_sub c sub) p f p ?x"
  proof (rule deliveringI)
    note D = deliveringD [OF d]
    have "accounted ?x p i = accounted (begun b ar) p i" for i
      by (simp add: accounted_def begun_def covered_def stream_start_def)
    then show "accounted ?x p (ev_id y)" if "y \<in> sy_ever ?x" "p < ev_id y" "event_matches f y" for y
      using D(9) [of y] that by (simp add: begun_def)
    show "event_matches f y = event_matches f z" if "y \<in> sy_ever ?x" "z \<in> sy_ever ?x" "ev_id y = ev_id z" for y z
      using D(8) [of y z] that by (simp add: begun_def)
    show "ev_id y \<le> events_seq (sy_bus ?x)" if "y \<in> sy_ever ?x" for y using D(7) [of y] that by (simp add: begun_def)
  qed (use assms in \<open>simp_all add: stream_start_def\<close>)
  moreover have "in_order faulty p f p (stream_start c) b"
    using assms(3) by (simp add: in_order_def stream_start_def last_id_def)
  moreover have "tidy c faulty (stream_start c)" by (simp add: tidy_def stream_start_def)
  ultimately show ?thesis by (simp add: streaming_def)
qed
section \<open>From the command line to the stream\<close>

lemma resolve_attached:
  assumes "resolve_cursor b None plugin flt init sid cid now = (Inr cr, b1)" and sound: "sound_bus b" and pos: "positions_ok b"
    and fresh: "sid \<notin> su_id ` set (subscriptions b)" "cid \<notin> cu_id ` set (cursors b)"
  shows "\<exists>sub p. (\<forall>cfg. sb_cursor cfg = cr \<longrightarrow> sb_sub cfg = sub \<longrightarrow> attached cfg p flt b1) \<and> sound_bus b1 \<and>
    p \<le> events_seq b1 \<and> events b1 = events b"
proof -
  note wf = sound_busD(1) [OF sound]
  have n: "or_null None = None" by (simp add: or_null_def)
  consider "matching_pairs b plugin flt = []" | s c where "matching_pairs b plugin flt = [(s, c)]"
    | x y zs where "matching_pairs b plugin flt = x # y # zs" by (metis list.exhaust surj_pair)
  then show ?thesis
  proof cases
    case 1
    let ?ci = "case or_null init of Some c \<Rightarrow> c | None \<Rightarrow> ''latest''"
    let ?o = "\<lparr>ro_plugin = plugin, ro_role = ''subscriber'', ro_filter = flt, ro_schema_version = None, ro_cursor_init = Some ?ci\<rparr>"
    obtain r b2 where reg: "register b ?o sid cid now True = (Inr r, b2)" "rr_cursor_id r = Some cid"
      and "sound_bus b2" and "initial_position b (ro_cursor_init ?o) \<le> events_seq b2" and "events b2 = events b"
      and "\<And>cfg. sb_cursor cfg = cid \<Longrightarrow> sb_sub cfg = sid \<Longrightarrow> attached cfg (initial_position b (ro_cursor_init ?o)) (ro_filter ?o) b2"
      by (rule register_attached [OF sound _ fresh, of ?o now True]) simp_all
    moreover have "b1 = b2" "cr = cid" using assms(1) 1 n reg by (simp_all add: resolve_cursor_def)
    ultimately show ?thesis by (intro exI [of _ sid] exI [of _ "initial_position b (Some ?ci)"]) simp
  next
    case 2
    then have b1: "b1 = b" "cr = c" using assms(1) n by (simp_all add: resolve_cursor_def)
    from 2 have "(s, c) \<in> set (matching_pairs b plugin flt)" by simp
    then obtain sr cc where r: "sr \<in> set (subscriptions b)" "cc \<in> set (cursors b)" "cu_sub cc = su_id sr" "sub_active sr"
      "cursor_active cc" "cu_id cc = c" "su_filter sr = flt"
      by (auto simp: matching_pairs_def split: if_splits)
    have "find_cursor b c = Some cc" "find_sub b (su_id sr) = Some sr"
      using r wf find_key_eq [of cu_id "cursors b" cc] find_key_eq [of su_id "subscriptions b" sr]
      by (auto simp: find_cursor_def find_sub_def wf_defs)
    then have "attached cfg (cu_last cc) flt b1" if "sb_cursor cfg = cr" "sb_sub cfg = su_id sr" for cfg
      using r that b1 by (auto simp: attached_def)
    moreover have "cu_last cc \<le> events_seq b1" using pos r(2) b1 by (simp add: positions_ok_def)
    ultimately show ?thesis using sound b1 by (intro exI [of _ "su_id sr"] exI [of _ "cu_last cc"]) simp
  next
    case 3
    then show ?thesis using assms(1) n by (cases x) (simp add: resolve_cursor_def)
  qed
qed

lemma command_streams:
  assumes "cmdSubscribe h args globals file opened limits sid cid now b = (Streams c, b1)" and "jget args ''cursor-id'' = JUndef"
    and "sound_bus b" and "positions_ok b" and "sid \<notin> su_id ` set (subscriptions b)" and "cid \<notin> cu_id ` set (cursors b)"
  shows "(do_no_ack (sg_opts c) \<longleftrightarrow> jget args ''no-ack'' = JBool True) \<and>
    (\<exists>cr. find_cursor b1 (sg_cursor c) = Some cr \<and> attached (as_sub c (cu_sub cr)) (cu_last cr) (filter_arg args) b1 \<and>
      sound_bus b1 \<and> cu_last cr \<le> events_seq b1)"
proof -
  have "cursor_arg JUndef = Some None" by (simp add: cursor_arg_def)
  with assms(1,2) obtain plugin drain idle recover cfg interval batch cr where
    r: "resolve_cursor b None (js_String h plugin) (filter_arg args)
      (if truthy (jget args ''cursor-init'') then Some (js_String h (jget args ''cursor-init'')) else None) sid cid now = (Inr cr, b1)"
    and c: "c = \<lparr>sg_opts = \<lparr>do_batch = batch, do_no_ack = (jget args ''no-ack'' = JBool True), do_interval = interval, do_idle = idle,
        do_recover = recover\<rparr>, sg_cursor = cr, sg_tiered = cget cfg ''tiered_archive'', sg_sweep = sweep_settings limits cfg,
        sg_sweep_ms = sweep_interval_ms (js_Number h (cget cfg ''sweep_interval_minutes'')),
        sg_checkpoint_ms = checkpoint_interval_ms h (cget cfg ''checkpoint_interval_minutes'')\<rparr>"
    by (auto simp: cmdSubscribe_def Let_def split: if_splits sum.splits prod.splits option.splits)
  from resolve_attached [OF r assms(3-6)] obtain sub p where
    at: "\<forall>cfg. sb_cursor cfg = cr \<longrightarrow> sb_sub cfg = sub \<longrightarrow> attached cfg p (filter_arg args) b1"
    and b1: "sound_bus b1" "p \<le> events_seq b1" "events b1 = events b" by blast
  have "attached (as_sub c sub) p (filter_arg args) b1" by (rule at [rule_format]) (simp_all add: c)
  then obtain cr where cr: "find_cursor b1 (sg_cursor c) = Some cr" "cu_last cr = p" "cu_sub cr = sub"
    "attached (as_sub c sub) p (filter_arg args) b1" by (auto simp: attached_def)
  then show ?thesis using b1 by (auto simp: c)
qed

text \<open>What a reached state says, in the words of the properties.\<close>

lemma streaming_conclusion:
  assumes "streaming c sub faulty p0 f q (s, b, ar, E)"
  shows "cursor_position b (sg_cursor c) = Some q \<and>
    (\<forall>x\<in>E. p0 < ev_id x \<longrightarrow> event_matches f x \<longrightarrow> ev_id x \<in> ev_id ` set (sm_out s) \<or> ev_id x \<in> saved b ar \<or>
       (q < ev_id x \<and> ev_id x \<in> ev_id ` set (events b))) \<and>
    (\<forall>y\<in>set (sm_out s). event_matches f y) \<and> sorted_wrt (\<le>) (p0 # map ev_id (sm_out s)) \<and>
    (\<not> faulty \<longrightarrow> sorted_wrt (<) (p0 # map ev_id (sm_out s)))"
proof -
  note D = streamingD [OF assms]
  note O = in_orderD [OF D(2)]
  have "ev_id x \<in> ev_id ` set (sm_out s) \<or> ev_id x \<in> saved b ar \<or> (q < ev_id x \<and> ev_id x \<in> ev_id ` set (events b))"
    if "x \<in> E" "p0 < ev_id x" "event_matches f x" for x
    using deliveringD(9) [OF D(1), of x] that by (auto simp: accounted_def covered_def)
  then show ?thesis using attached_update(2) [OF D(5)] O(1,5,6) by simp
qed

text \<open>C3: \<open>wicked-bus subscribe\<close> prints everything, in order. Once the command has started to stream (with
  acknowledgments and recovery, its defaults, and a policy that does not discard), other processes emit,
  sweep, register and acknowledge, and its own sweep and checkpoint intervals fire, in any interleaving with
  its statements. In every state reached, each event that was ever stored above the starting position and
  matches \<open>--filter\<close> has been printed, has a copy in an archive, or is still stored above the cursor; only
  matching events are printed, and their ids ascend. They ascend strictly, so that nothing is printed
  twice, unless a statement of the database failed.\<close>

theorem stream_delivers:
  assumes "cmdSubscribe h args globals file opened limits sid cid now b = (Streams c, b1)" and "jget args ''cursor-id'' = JUndef"
    and "sound_bus b" and "positions_ok b" and "sid \<notin> su_id ` set (subscriptions b)" and "cid \<notin> cu_id ` set (cursors b)"
    and "jget args ''no-ack'' \<noteq> JBool True" and "do_recover (sg_opts c)"
    and "resolveUnackedPolicy (sc_unacked_policy (sg_sweep c)) \<noteq> Inr Discard"
  shows "case find_cursor b1 (sg_cursor c) of None \<Rightarrow> False | Some cr \<Rightarrow>
    \<forall>faulty ar s b' ar' E.
      (stream_world_step c (cu_sub cr) faulty)\<^sup>*\<^sup>* (stream_start c, b1, ar, set (events b1)) (s, b', ar', E) \<longrightarrow>
        (\<exists>p. cursor_position b' (sg_cursor c) = Some p \<and>
          (\<forall>x\<in>E. cu_last cr < ev_id x \<longrightarrow> event_matches (filter_arg args) x \<longrightarrow>
             ev_id x \<in> ev_id ` set (sm_out s) \<or> ev_id x \<in> saved b' ar' \<or> (p < ev_id x \<and> ev_id x \<in> ev_id ` set (events b')))) \<and>
        (\<forall>y\<in>set (sm_out s). event_matches (filter_arg args) y) \<and>
        sorted_wrt (\<le>) (cu_last cr # map ev_id (sm_out s)) \<and>
        (\<not> faulty \<longrightarrow> sorted_wrt (<) (cu_last cr # map ev_id (sm_out s)))"
proof -
  from command_streams [OF assms(1-6)] assms(7) obtain cr where na: "\<not> do_no_ack (sg_opts c)"
    and cr: "find_cursor b1 (sg_cursor c) = Some cr"
    and at: "attached (as_sub c (cu_sub cr)) (cu_last cr) (filter_arg args) b1" and b1: "sound_bus b1" "cu_last cr \<le> events_seq b1" by blast
  have "\<exists>q. streaming c (cu_sub cr) faulty (cu_last cr) (filter_arg args) q (s, b', ar', E)"
    if "(stream_world_step c (cu_sub cr) faulty)\<^sup>*\<^sup>* (stream_start c, b1, ar, set (events b1)) (s, b', ar', E)" for faulty ar s b' ar' E
    using stream_reached [OF that start_streaming [OF b1(1) at b1(2)] na assms(8,9)] by blast
  with streaming_conclusion show ?thesis unfolding cr option.case by metis
qed

lemma stream_ended:
  assumes "sm_pc s = SEnded r"
  shows "stream_step c i (s, b, ar) = None"
  using assms by (cases i) (simp_all add: stream_step_def stream_run_def stream_fault_def)

lemma stream_goes_on:
  assumes "tidy c faulty s" and "\<forall>r. sm_pc s \<noteq> SEnded r"
  shows "\<exists>i x. i \<noteq> SSignal \<and> stream_step c i (s, b, ar) = Some x"
proof -
  have go: "\<exists>i x. i \<noteq> SSignal \<and> stream_step c i (s, b, ar) = Some x" if "stream_run c 0 s b = Some y" for y
    using that by (intro exI [of _ "SRun 0"]) (cases y; simp add: stream_step_def)
  show ?thesis
  proof (cases "sm_pc s")
    case SPoll
    then show ?thesis by (intro go) (simp add: stream_run_def)
  next
    case (SBatch w)
    with assms(1) obtain e w' where "w = e # w'" by (cases w) (auto simp: tidy_def)
    with SBatch show ?thesis by (intro go) (simp add: stream_run_def)
  next
    case SRecover
    then show ?thesis by (intro go) (simp add: stream_run_def)
  next
    case SWait
    then show ?thesis by (intro exI [of _ SWaited]) (simp add: stream_step_def)
  qed (use assms(2) in simp)
qed

text \<open>C25: The streaming command ends only when it is told to. Under the same conditions, in every state reached: while
  it has not ended it can go on, its database handle is open and exactly the configured intervals run; it
  has ended only by a signal or, when statements fail, with the SQLite error of a recovery; and once it
  has ended both intervals are cleared, the handle is closed and nothing of it can run again.\<close>

theorem stream_ends_when_told:
  assumes "cmdSubscribe h args globals file opened limits sid cid now b = (Streams c, b1)" and "jget args ''cursor-id'' = JUndef"
    and "sound_bus b" and "positions_ok b" and "sid \<notin> su_id ` set (subscriptions b)" and "cid \<notin> cu_id ` set (cursors b)"
    and "jget args ''no-ack'' \<noteq> JBool True" and "do_recover (sg_opts c)"
    and "resolveUnackedPolicy (sc_unacked_policy (sg_sweep c)) \<noteq> Inr Discard"
  shows "case find_cursor b1 (sg_cursor c) of None \<Rightarrow> False | Some cr \<Rightarrow>
    \<forall>faulty ar s b' ar' E.
      (stream_world_step c (cu_sub cr) faulty)\<^sup>*\<^sup>* (stream_start c, b1, ar, set (events b1)) (s, b', ar', E) \<longrightarrow>
      (case sm_pc s of
         SEnded r \<Rightarrow> \<not> sm_sweep s \<and> \<not> sm_checkpoint s \<and> \<not> sm_open s \<and> (\<forall>i. stream_step c i (s, b', ar') = None) \<and>
           (r = None \<or> faulty \<and> (\<exists>code. r = Some (SqliteError code)))
       | _ \<Rightarrow> sm_open s \<and> (sm_sweep s \<longleftrightarrow> sg_sweep_ms c \<noteq> None) \<and> (sm_checkpoint s \<longleftrightarrow> sg_checkpoint_ms c \<noteq> None) \<and>
           sm_timeout s = jint 5000 \<and> (\<exists>i x. i \<noteq> SSignal \<and> stream_step c i (s, b', ar') = Some x))"
proof -
  from command_streams [OF assms(1-6)] assms(7) obtain cr where na: "\<not> do_no_ack (sg_opts c)"
    and cr: "find_cursor b1 (sg_cursor c) = Some cr"
    and at: "attached (as_sub c (cu_sub cr)) (cu_last cr) (filter_arg args) b1" and b1: "sound_bus b1" "cu_last cr \<le> events_seq b1" by blast
  have t: "tidy c faulty s"
    if "(stream_world_step c (cu_sub cr) faulty)\<^sup>*\<^sup>* (stream_start c, b1, ar, set (events b1)) (s, b', ar', E)" for faulty ar s b' ar' E
    using stream_reached [OF that start_streaming [OF b1(1) at b1(2)] na assms(8,9)] streamingD(3) by blast
  have "case sm_pc s of
         SEnded r \<Rightarrow> \<not> sm_sweep s \<and> \<not> sm_checkpoint s \<and> \<not> sm_open s \<and> (\<forall>i. stream_step c i (s, b', ar') = None) \<and>
           (r = None \<or> faulty \<and> (\<exists>code. r = Some (SqliteError code)))
       | _ \<Rightarrow> sm_open s \<and> (sm_sweep s \<longleftrightarrow> sg_sweep_ms c \<noteq> None) \<and> (sm_checkpoint s \<longleftrightarrow> sg_checkpoint_ms c \<noteq> None) \<and>
           sm_timeout s = jint 5000 \<and> (\<exists>i x. i \<noteq> SSignal \<and> stream_step c i (s, b', ar') = Some x)"
    if "tidy c faulty s" for faulty s b' ar'
  proof (cases "sm_pc s")
    case (SEnded r)
    with that stream_ended [OF SEnded] show ?thesis by (auto simp: tidy_def split: option.splits)
  qed (use that stream_goes_on [OF that, of b' ar'] in \<open>auto simp: tidy_def\<close>)
  with t show ?thesis unfolding cr option.case by blast
qed

section \<open>Examples\<close>

lemma runs_world:
  assumes "stream_steps c (map SRun ts) (s, b, ar) = Some (s', b', ar')"
  shows "\<exists>E'. E \<subseteq> E' \<and> (stream_world_step c sub faulty)\<^sup>*\<^sup>* (s, b, ar, E) (s', b', ar', E')"
  using assms
proof (induction ts arbitrary: s b ar E)
  case (Cons t ts)
  then obtain s1 b1 ar1 where st: "stream_step c (SRun t) (s, b, ar) = Some (s1, b1, ar1)"
    and r: "stream_steps c (map SRun ts) (s1, b1, ar1) = Some (s', b', ar')" by (auto split: option.splits)
  from Cons.IH [OF r, of "E \<union> set (events b1)"] stream_world_step.runs [OF st, of sub faulty E] show ?case
    by (meson converse_rtranclp_into_rtranclp le_supE)
qed auto

definition demo_args :: jsval where
  "demo_args = JObj [(''plugin'', JStr ''p''), (''filter'', JStr ''wicked.*'')]"

definition demo_command :: "subscribe_start \<times> bus" where
  "demo_command = cmdSubscribe cfg_host demo_args (JObj []) (Some ''{}'') (Inr ()) (demo_sweep2 JUndef) ''s2'' ''c2'' 0 (demo_bus [4, 5, 6] 3)"

definition is_waiting :: "stream \<Rightarrow> bool" where
  "is_waiting s = (case sm_pc s of SWait \<Rightarrow> True | _ \<Rightarrow> False)"

lemma is_waiting_pc: "is_waiting s \<Longrightarrow> sm_pc s = SWait"
  by (cases "sm_pc s") (simp_all add: is_waiting_def)

lemma demo_streams:
  obtains c b1 s b ar where "demo_command = (Streams c, b1)" and "do_recover (sg_opts c)" and "sg_cursor c = ''c''"
    and "sc_unacked_policy (sg_sweep c) = JStr ''retain''"
    and "stream_steps c (map SRun [0, 0, 0, 0]) (stream_start c, b1, no_archive) = Some (s, b, ar)"
    and "map ev_id (sm_out s) = [4, 5, 6]" and "sm_pc s = SWait"
proof -
  have h: "case demo_command of (Streams c, b1) \<Rightarrow> do_recover (sg_opts c) \<and> sg_cursor c = ''c'' \<and>
      sc_unacked_policy (sg_sweep c) = JStr ''retain'' \<and>
      (case stream_steps c (map SRun [0, 0, 0, 0]) (stream_start c, b1, no_archive) of
         Some (s, b, ar) \<Rightarrow> map ev_id (sm_out s) = [4, 5, 6] \<and> is_waiting s | None \<Rightarrow> False)
    | _ \<Rightarrow> False" by code_simp
  then obtain c b1 where d: "demo_command = (Streams c, b1)" by (auto split: prod.splits subscribe_start.splits)
  note h = h [unfolded d prod.case subscribe_start.case]
  then obtain s b ar where r: "stream_steps c (map SRun [0, 0, 0, 0]) (stream_start c, b1, no_archive) = Some (s, b, ar)"
    by (auto split: option.splits simp del: stream_steps.simps list.map)
  note h = h [unfolded r option.case prod.case]
  from that [OF d _ _ _ r _ is_waiting_pc] h show ?thesis by blast
qed

lemma demo_bus_ready:
  "sound_bus (demo_bus [4, 5, 6] 3)" "positions_ok (demo_bus [4, 5, 6] 3)"
  "''s2'' \<notin> su_id ` set (subscriptions (demo_bus [4, 5, 6] 3))" "''c2'' \<notin> cu_id ` set (cursors (demo_bus [4, 5, 6] 3))"
  using demo_started by (simp_all add: started_def demo_system_def positions_ok_def demo_bus_def)

lemma demo_args_plain: "jget demo_args ''cursor-id'' = JUndef" "jget demo_args ''no-ack'' \<noteq> JBool True"
  by (simp_all add: demo_args_def)

lemma demo_reaches:
  obtains c b1 cr s b ar E where "demo_command = (Streams c, b1)" and "do_recover (sg_opts c)"
    and "resolveUnackedPolicy (sc_unacked_policy (sg_sweep c)) \<noteq> Inr Discard" and "find_cursor b1 (sg_cursor c) = Some cr"
    and "(stream_world_step c (cu_sub cr) False)\<^sup>*\<^sup>* (stream_start c, b1, no_archive, set (events b1)) (s, b, ar, E)"
    and "map ev_id (sm_out s) = [4, 5, 6]" and "sm_pc s = SWait"
proof -
  obtain c b1 s b ar where d: "demo_command = (Streams c, b1)" "do_recover (sg_opts c)" "sg_cursor c = ''c''"
    "sc_unacked_policy (sg_sweep c) = JStr ''retain''"
    and r: "stream_steps c (map SRun [0, 0, 0, 0]) (stream_start c, b1, no_archive) = Some (s, b, ar)"
    and o: "map ev_id (sm_out s) = [4, 5, 6]" "sm_pc s = SWait" by (rule demo_streams)
  have pol: "resolveUnackedPolicy (sc_unacked_policy (sg_sweep c)) \<noteq> Inr Discard"
    unfolding d(4) by (simp add: resolveUnackedPolicy_def)
  from command_streams [OF d(1) [unfolded demo_command_def] demo_args_plain(1) demo_bus_ready] obtain cr where
    cr: "find_cursor b1 (sg_cursor c) = Some cr" by blast
  from runs_world [OF r, of "set (events b1)" "cu_sub cr" False] obtain E where
    "(stream_world_step c (cu_sub cr) False)\<^sup>*\<^sup>* (stream_start c, b1, no_archive, set (events b1)) (s, b, ar, E)" by blast
  from that [OF d(1,2) pol cr this o] show ?thesis .
qed

lemma stream_delivers_witness:
  "\<exists>c b1 cr s b ar E. demo_command = (Streams c, b1) \<and> find_cursor b1 (sg_cursor c) = Some cr \<and>
     (stream_world_step c (cu_sub cr) False)\<^sup>*\<^sup>* (stream_start c, b1, no_archive, set (events b1)) (s, b, ar, E) \<and>
     map ev_id (sm_out s) = [4, 5, 6] \<and> sorted_wrt (<) (cu_last cr # [4, 5, 6])"
proof -
  obtain c b1 cr s b ar E where d: "demo_command = (Streams c, b1)" "do_recover (sg_opts c)"
    "resolveUnackedPolicy (sc_unacked_policy (sg_sweep c)) \<noteq> Inr Discard" "find_cursor b1 (sg_cursor c) = Some cr"
    and r: "(stream_world_step c (cu_sub cr) False)\<^sup>*\<^sup>* (stream_start c, b1, no_archive, set (events b1)) (s, b, ar, E)"
    and o: "map ev_id (sm_out s) = [4, 5, 6]" by (rule demo_reaches)
  note T = stream_delivers [OF d(1) [unfolded demo_command_def] demo_args_plain(1) demo_bus_ready demo_args_plain(2) d(2,3),
      unfolded d(4) option.case]
  from T [THEN spec, THEN spec, THEN spec, THEN spec, THEN spec, THEN spec, THEN mp, OF r] o
  have "sorted_wrt (<) (cu_last cr # [4, 5, 6])" by simp
  then show ?thesis by (intro exI conjI) (rule d(1) d(4) r o | assumption)+
qed

lemma stream_ends_when_told_witness:
  "\<exists>c b1 cr s b ar E. demo_command = (Streams c, b1) \<and> find_cursor b1 (sg_cursor c) = Some cr \<and>
     (stream_world_step c (cu_sub cr) False)\<^sup>*\<^sup>* (stream_start c, b1, no_archive, set (events b1)) (s, b, ar, E) \<and>
     sm_pc s = SWait \<and> sm_open s \<and> (sm_sweep s \<longleftrightarrow> sg_sweep_ms c \<noteq> None)"
proof -
  obtain c b1 cr s b ar E where d: "demo_command = (Streams c, b1)" "do_recover (sg_opts c)"
    "resolveUnackedPolicy (sc_unacked_policy (sg_sweep c)) \<noteq> Inr Discard" "find_cursor b1 (sg_cursor c) = Some cr"
    and r: "(stream_world_step c (cu_sub cr) False)\<^sup>*\<^sup>* (stream_start c, b1, no_archive, set (events b1)) (s, b, ar, E)"
    and p: "sm_pc s = SWait" by (rule demo_reaches)
  note T = stream_ends_when_told [OF d(1) [unfolded demo_command_def] demo_args_plain(1) demo_bus_ready demo_args_plain(2) d(2,3),
      unfolded d(4) option.case]
  from T [THEN spec, THEN spec, THEN spec, THEN spec, THEN spec, THEN spec, THEN mp, OF r] p
  have "sm_open s \<and> (sm_sweep s \<longleftrightarrow> sg_sweep_ms c \<noteq> None)" by simp
  then show ?thesis by (intro exI conjI) (rule d(1) d(4) r p | simp)+
qed

end
