(* ===== verification/BusSidecar.thy ===== *)
theory BusSidecar
  imports BusStart
begin

text \<open>
  The sidecars of \<open>examples/crew-sidecars\<close>: a poll-handle-acknowledge cycle over the bus library that keeps its
  cursor and the keys it has handled in a JSON file (\<open>crew-sidecar.js\<close>), and its two instances, the reducer
  and the skill provisioner. Each statement, each call of the handler and each write of the file is a step,
  between which the process may be killed and other processes may commit. Proved: a key is handled once
  unless the handler's effect and its mark are separated by a crash; no event is missed, except that an
  event whose key has been handled before is skipped.
\<close>

section \<open>State\<close>

text \<open>The contents of the state file; \<open>handled\<close> maps a key to the event and the time.\<close>

record sidecar_state =
  ss_cursor :: "string option"
  ss_subscription :: "string option"
  ss_acked :: int
  ss_handled :: "(string \<times> int \<times> rat) list"
  ss_records :: "jsval list"

definition fresh_sidecar :: sidecar_state where
  "fresh_sidecar = \<lparr>ss_cursor = None, ss_subscription = None, ss_acked = 0, ss_handled = [], ss_records = []\<rparr>"

definition loadState :: "sidecar_state option \<Rightarrow> sidecar_state" where
  "loadState file = (case file of Some st \<Rightarrow> st | None \<Rightarrow> fresh_sidecar)"

text \<open>\<open>state.handled[key]\<close> is truthy for the names every object inherits as well.\<close>

definition was_handled :: "sidecar_state \<Rightarrow> string \<Rightarrow> bool" where
  "was_handled st key \<longleftrightarrow> map_of (ss_handled st) key \<noteq> None \<or> key \<in> set proto_keys"

record sidecar_opts =
  sk_name :: string
  sk_filter :: string
  sk_cursor_init :: "string option"

text \<open>
  Where a tick stands: between ticks, the registration to be persisted, before the poll, at a row of the batch
  (with the rows before it), a row handled and not yet marked, the acknowledgment to be persisted.
\<close>

datatype kpc =
    KIdle
  | KRegistered
  | KPoll
  | KRow "event_row list" "event_row list"
  | KHandled event_row "event_row list" "event_row list"
  | KAcked

text \<open>\<open>sc_calls\<close> are the ids and keys \<open>handle\<close> was called with, \<open>sc_log\<close> those it returned for (\<open>True\<close>) or that were
  skipped (\<open>False\<close>), over all lives of the process.\<close>

record sidecar =
  sc_pc :: kpc
  sc_state :: sidecar_state
  sc_file :: "sidecar_state option"
  sc_batch :: int
  sc_ack :: bool
  sc_calls :: "(int \<times> string) list"
  sc_log :: "(int \<times> string \<times> bool) list"

type_synonym handler = "emit_env \<Rightarrow> event_row \<Rightarrow> jsval \<Rightarrow> jsval list \<Rightarrow> emit_state \<Rightarrow> unit res \<times> jsval list \<times> emit_state"

section \<open>createSidecar\<close>

definition parsePayload :: "host \<Rightarrow> string \<Rightarrow> jsval" where
  "parsePayload h text = (case h_parse h text of Some v \<Rightarrow> v | None \<Rightarrow> JObj [(''_raw'', JStr text)])"

definition kgoto :: "kpc \<Rightarrow> sidecar \<Rightarrow> sidecar" where
  "kgoto p k = k\<lparr>sc_pc := p\<rparr>"

text \<open>What the file holds of the state: a member that is \<open>undefined\<close> is not written.\<close>

definition json_record :: "jsval \<Rightarrow> jsval" where
  "json_record v = (case v of JObj kvs \<Rightarrow> JObj (filter (\<lambda>x. snd x \<noteq> JUndef) kvs) | _ \<Rightarrow> v)"

definition stored_state :: "sidecar_state \<Rightarrow> sidecar_state" where
  "stored_state st = st\<lparr>ss_records := map json_record (ss_records st)\<rparr>"

definition persist :: "sidecar \<Rightarrow> sidecar" where
  "persist k = k\<lparr>sc_file := Some (stored_state (sc_state k))\<rparr>"

text \<open>A process starts: it loads the file.\<close>

definition restarted :: "sidecar \<Rightarrow> sidecar" where
  "restarted k = k\<lparr>sc_pc := KIdle, sc_state := loadState (sc_file k)\<rparr>"

text \<open>The registration of \<open>ensureRegistered\<close>; an error is thrown out of the tick.\<close>

definition register_sidecar :: "sidecar_opts \<Rightarrow> string \<Rightarrow> string \<Rightarrow> rat \<Rightarrow> bool \<Rightarrow> sidecar \<Rightarrow> bus \<Rightarrow> sidecar \<times> bus" where
  "register_sidecar opts sid cid now ok k b =
     (case register b \<lparr>ro_plugin = sk_name opts, ro_role = ''subscriber'', ro_filter = sk_filter opts, ro_schema_version = None,
         ro_cursor_init = Some (case or_null (sk_cursor_init opts) of Some i \<Rightarrow> i | None \<Rightarrow> ''oldest'')\<rparr> sid cid now ok of
        (Inl e, b1) \<Rightarrow> (k, b1)
      | (Inr r, b1) \<Rightarrow> (k\<lparr>sc_pc := KRegistered, sc_state := (sc_state k)\<lparr>ss_cursor := rr_cursor_id r,
           ss_subscription := Some (rr_subscription_id r),
           ss_acked := (case rr_last_event_id r of Some i \<Rightarrow> i | None \<Rightarrow> 0)\<rparr>\<rparr>, b1))"

text \<open>\<open>sidecarEmit\<close>: a duplicate is reported, not thrown.\<close>

record sidecar_emit =
  sx_event_id :: "int option"
  sx_duplicate :: bool

definition sidecarEmit :: "emit_env \<Rightarrow> emit_config \<Rightarrow> jsval \<Rightarrow> emit_state \<Rightarrow> sidecar_emit res \<times> emit_state" where
  "sidecarEmit ee cfg event s =
     (case emit ee cfg event s of
        (Inr r, s1) \<Rightarrow> (Inr \<lparr>sx_event_id = Some (er_event_id r), sx_duplicate = False\<rparr>, s1)
      | (Inl e, s1) \<Rightarrow> if is_wb WB002 e
          then (Inr \<lparr>sx_event_id = js_int (ctx_get e ''original_event_id''), sx_duplicate = True\<rparr>, s1) else (Inl e, s1))"

section \<open>tick\<close>

definition max_id :: "int \<Rightarrow> event_row list \<Rightarrow> int" where
  "max_id start rows = fold (\<lambda>e m. if m < ev_id e then ev_id e else m) rows start"

definition mark :: "event_row \<Rightarrow> rat \<Rightarrow> sidecar \<Rightarrow> sidecar" where
  "mark e t k = k\<lparr>sc_state := (sc_state k)\<lparr>ss_handled := (ev_key e, ev_id e, t) # ss_handled (sc_state k)\<rparr>\<rparr>"

datatype sidecar_input =
    KTick int bool string string rat bool
  | KGo rat
  | KHandle emit_env
  | KFault rat

text \<open>One row: skipped when its key was handled before, else handed to the handler, which may throw.\<close>

definition row_step :: "handler \<Rightarrow> emit_env \<Rightarrow> event_row \<Rightarrow> event_row list \<Rightarrow> event_row list \<Rightarrow> sidecar \<Rightarrow> emit_state \<Rightarrow> sidecar \<times> emit_state" where
  "row_step handle ee e seen rest k s =
     (if was_handled (sc_state k) (ev_key e)
      then (k\<lparr>sc_pc := KRow (seen @ [e]) rest, sc_log := sc_log k @ [(ev_id e, ev_key e, False)]\<rparr>, s)
      else (case handle ee e (parsePayload (ee_host ee) (ev_payload e)) (ss_records (sc_state k)) s of
              (r, recs, s1) \<Rightarrow>
                let k1 = k\<lparr>sc_calls := sc_calls k @ [(ev_id e, ev_key e)], sc_state := (sc_state k)\<lparr>ss_records := recs\<rparr>\<rparr> in
                (case r of
                   Inl _ \<Rightarrow> (kgoto KIdle k1, s1)
                 | Inr _ \<Rightarrow> (k1\<lparr>sc_pc := KHandled e seen rest, sc_log := sc_log k1 @ [(ev_id e, ev_key e, True)]\<rparr>, s1))))"

text \<open>After the last row: the acknowledgment up to the largest id.\<close>

definition ack_step :: "rat \<Rightarrow> event_row list \<Rightarrow> sidecar \<Rightarrow> bus \<Rightarrow> sidecar \<times> bus" where
  "ack_step t seen k b =
     (let m = max_id (ss_acked (sc_state k)) seen in
      if sc_ack k \<and> ss_acked (sc_state k) < m
      then (case ss_cursor (sc_state k) of
              None \<Rightarrow> (kgoto KIdle k, b)
            | Some c \<Rightarrow>
                (case ack b c m t of
                   (Inl _, b1) \<Rightarrow> (kgoto KIdle k, b1)
                 | (Inr _, b1) \<Rightarrow> (k\<lparr>sc_pc := KAcked, sc_state := (sc_state k)\<lparr>ss_acked := m\<rparr>\<rparr>, b1)))
      else (kgoto KIdle k, b))"

text \<open>\<open>KGo\<close> runs the next statement or write, \<open>KHandle\<close> looks at the next row, \<open>KFault\<close>: the statement or write fails
  and the tick throws.\<close>

definition sidecar_step :: "sidecar_opts \<Rightarrow> handler \<Rightarrow> sidecar_input \<Rightarrow> sidecar \<times> emit_state \<Rightarrow> (sidecar \<times> emit_state) option" where
  "sidecar_step opts handle i x = (case x of (k, s) \<Rightarrow>
     (case i of
        KTick batch doAck sid cid now ok \<Rightarrow>
          if sc_pc k = KIdle
          then (let k1 = k\<lparr>sc_batch := (if batch = 0 then 50 else batch), sc_ack := doAck\<rparr> in
                case ss_cursor (sc_state k) of
                  Some _ \<Rightarrow> Some (kgoto KPoll k1, s)
                | None \<Rightarrow> (case register_sidecar opts sid cid now ok k1 (es_bus s) of (k2, b) \<Rightarrow> Some (k2, s\<lparr>es_bus := b\<rparr>)))
          else None
      | KGo t \<Rightarrow>
          (case sc_pc k of
             KRegistered \<Rightarrow> Some (kgoto KPoll (persist k), s)
           | KPoll \<Rightarrow> (case ss_cursor (sc_state k) of
                 None \<Rightarrow> None
               | Some c \<Rightarrow> Some (case poll (es_bus s) c (Some (sc_batch k)) None of
                     Inl _ \<Rightarrow> (kgoto KIdle k, s)
                   | Inr rows \<Rightarrow> (kgoto (KRow [] rows) k, s)))
           | KHandled e seen rest \<Rightarrow> Some (kgoto (KRow (seen @ [e]) rest) (persist (mark e t k)), s)
           | KRow seen [] \<Rightarrow> (case ack_step t seen k (es_bus s) of (k1, b) \<Rightarrow> Some (k1, s\<lparr>es_bus := b\<rparr>))
           | KAcked \<Rightarrow> Some (kgoto KIdle (persist k), s)
           | _ \<Rightarrow> None)
      | KHandle ee \<Rightarrow>
          (case sc_pc k of
             KRow seen (e # rest) \<Rightarrow> Some (row_step handle ee e seen rest k s)
           | _ \<Rightarrow> None)
      | KFault t \<Rightarrow>
          (case sc_pc k of
             KHandled e seen rest \<Rightarrow> Some (kgoto KIdle (mark e t k), s)
           | KRow seen [] \<Rightarrow> Some (kgoto KIdle k, s)
           | KRow seen (e # rest) \<Rightarrow> None
           | KIdle \<Rightarrow> None
           | _ \<Rightarrow> Some (kgoto KIdle k, s))))"

section \<open>The two sidecars\<close>

definition first_truthy :: "jsval \<Rightarrow> jsval \<Rightarrow> jsval" where
  "first_truthy a b = (if truthy a then a else b)"

text \<open>Reading a property of \<open>null\<close> throws.\<close>

definition reads :: "jsval \<Rightarrow> unit res" where
  "reads v = (if v = JNull then Inl (PlainError ''TypeError'') else Inr ())"

text \<open>The template literals of the log lines, which are evaluated before anything is recorded: an object out of
  JSON with a member \<open>toString\<close> of its own has no primitive value, and an array needs those of its elements.\<close>

fun printable :: "jsval \<Rightarrow> bool" where
  "printable (JArr vs) = list_all printable vs"
| "printable (JObj kvs) = (\<not> has_own (JObj kvs) ''toString'')"
| "printable v = True"

definition prints :: "jsval list \<Rightarrow> unit res" where
  "prints vs = (if list_all printable vs then Inr () else Inl (PlainError ''TypeError''))"

definition reducer_handle :: handler where
  "reducer_handle ee e payload recs s =
     (if ev_type e \<noteq> ''wicked.run.requested'' then (Inr (), recs, s)
      else (case reads payload of
              Inl x \<Rightarrow> (Inl x, recs, s)
            | Inr _ \<Rightarrow>
           (case prints [first_truthy (jget payload ''run_id'') JNull, jget payload ''workflow''] of
              Inl x \<Rightarrow> (Inl x, recs, s)
            | Inr _ \<Rightarrow>
                (Inr (), recs @ [JObj [(''run_id'', first_truthy (jget payload ''run_id'') (JStr (''run-'' @ int_str (ev_id e)))),
                   (''workflow'', jget payload ''workflow''), (''problem'', jget payload ''problem''),
                   (''args'', first_truthy (jget payload ''args'') (JObj [])), (''source_event_id'', jint (ev_id e)),
                   (''launched_at'', JNum (Fin (ee_now ee)))]], s))))"

definition skill_run_id :: "event_row \<Rightarrow> jsval \<Rightarrow> jsval" where
  "skill_run_id e payload = first_truthy (jget payload ''run_id'')
     (first_truthy (case ev_correlation e of Some c \<Rightarrow> JStr c | None \<Rightarrow> JNull) (JStr (''run-'' @ int_str (ev_id e))))"

definition skill_of :: "jsval \<Rightarrow> jsval" where
  "skill_of payload = first_truthy (jget payload ''skill'') (first_truthy (jget payload ''name'') (JStr ''unknown-skill''))"

definition skill_ready :: "emit_env \<Rightarrow> event_row \<Rightarrow> jsval \<Rightarrow> jsval" where
  "skill_ready ee e payload = (let run = skill_run_id e payload; skill = skill_of payload in
     JObj [(''event_type'', JStr ''wicked.skill.ready''), (''domain'', JStr ''wicked-crew''), (''subdomain'', JStr ''skill.provisioner''),
       (''idempotency_key'', JStr (''skill-ready:'' @ js_String (ee_host ee) run @ '':'' @ js_String (ee_host ee) skill)),
       (''correlation_id'', run),
       (''payload'', JObj [(''run_id'', run), (''skill'', skill), (''installed'', JBool True), (''installed_at'', JNum (Fin (ee_now ee))),
          (''source_event_id'', jint (ev_id e))])])"

definition provisioner_handle :: "emit_config \<Rightarrow> handler" where
  "provisioner_handle cfg ee e payload recs s =
     (case reads payload of
        Inl x \<Rightarrow> (Inl x, recs, s)
      | Inr _ \<Rightarrow>
     (case prints [skill_of payload, skill_run_id e payload] of
        Inl x \<Rightarrow> (Inl x, recs, s)
      | Inr _ \<Rightarrow>
          (let recs1 = recs @ [JObj [(''run_id'', skill_run_id e payload), (''skill'', skill_of payload), (''installed_at'', JNum (Fin (ee_now ee)))]] in
           case sidecarEmit ee cfg (skill_ready ee e payload) s of
             (Inl x, s1) \<Rightarrow> (Inl x, recs1, s1)
           | (Inr _, s1) \<Rightarrow> (Inr (), recs1, s1))))"

definition reducer_opts :: sidecar_opts where
  "reducer_opts = \<lparr>sk_name = ''crew-reducer'', sk_filter = ''wicked.run.*'', sk_cursor_init = Some ''oldest''\<rparr>"

definition provisioner_opts :: sidecar_opts where
  "provisioner_opts = \<lparr>sk_name = ''crew-skill-provisioner'', sk_filter = ''wicked.skill.needed'', sk_cursor_init = Some ''oldest''\<rparr>"

section \<open>Beside other processes\<close>

text \<open>
  The handler's effect and its mark in the file are separate: a throw of the handler, or a crash while a mark
  is not in the file, loses it. Without \<open>lossy\<close> neither happens.
\<close>

definition threw :: "sidecar \<Rightarrow> sidecar \<Rightarrow> bool" where
  "threw k k' \<longleftrightarrow> sc_calls k' \<noteq> sc_calls k \<and> sc_pc k' = KIdle"

definition all_marked :: "sidecar \<Rightarrow> bool" where
  "all_marked k \<longleftrightarrow> (case sc_pc k of KHandled e seen rest \<Rightarrow> False | _ \<Rightarrow> True) \<and>
     ss_handled (sc_state k) = ss_handled (loadState (sc_file k))"

type_synonym sidecar_world = "sidecar \<times> emit_state \<times> archive \<times> event_row set"

inductive sidecar_world_step :: "sidecar_opts \<Rightarrow> handler \<Rightarrow> sub_config \<Rightarrow> bool \<Rightarrow> sidecar_world \<Rightarrow> sidecar_world \<Rightarrow> bool"
  for opts :: sidecar_opts and handle :: handler and cfg :: sub_config and lossy :: bool where
  runs: "sidecar_step opts handle i (k, s) = Some (k', s') \<Longrightarrow> lossy \<or> \<not> threw k k' \<Longrightarrow>
    sidecar_world_step opts handle cfg lossy (k, s, ar, E) (k', s', ar, E \<union> set (events (es_bus s')))"
| crash: "lossy \<or> all_marked k \<Longrightarrow>
    sidecar_world_step opts handle cfg lossy (k, s, ar, E) (restarted k, s, ar, E)"
| world: "world_step cfg (es_bus s, ar) (es_bus s', ar') \<Longrightarrow>
    sidecar_world_step opts handle cfg lossy (k, s, ar, E) (k, s', ar', E \<union> set (events (es_bus s')))"

section \<open>Once\<close>

definition marked_keys :: "sidecar_state \<Rightarrow> string set" where
  "marked_keys st = fst ` set (ss_handled st) \<union> set proto_keys"

lemma was_handled_iff: "was_handled st key \<longleftrightarrow> key \<in> marked_keys st"
  by (simp add: was_handled_def marked_keys_def map_of_eq_None_iff)

lemma stored_state_sel [simp]:
  "ss_handled (stored_state st) = ss_handled st" "ss_cursor (stored_state st) = ss_cursor st" "ss_acked (stored_state st) = ss_acked st"
  by (simp_all add: stored_state_def)

lemma kgoto_sel [simp]:
  "sc_pc (kgoto p k) = p" "sc_state (kgoto p k) = sc_state k" "sc_file (kgoto p k) = sc_file k" "sc_calls (kgoto p k) = sc_calls k"
  "sc_log (kgoto p k) = sc_log k" "sc_batch (kgoto p k) = sc_batch k" "sc_ack (kgoto p k) = sc_ack k"
  by (simp_all add: kgoto_def)

lemma persist_sel [simp]:
  "sc_pc (persist k) = sc_pc k" "sc_state (persist k) = sc_state k" "sc_file (persist k) = Some (stored_state (sc_state k))"
  "sc_calls (persist k) = sc_calls k" "sc_log (persist k) = sc_log k"
  by (simp_all add: persist_def)

lemma mark_sel [simp]:
  "sc_pc (mark e t k) = sc_pc k" "sc_file (mark e t k) = sc_file k" "sc_calls (mark e t k) = sc_calls k" "sc_log (mark e t k) = sc_log k"
  "ss_cursor (sc_state (mark e t k)) = ss_cursor (sc_state k)" "ss_acked (sc_state (mark e t k)) = ss_acked (sc_state k)"
  "ss_handled (sc_state (mark e t k)) = (ev_key e, ev_id e, t) # ss_handled (sc_state k)"
  by (simp_all add: mark_def)

text \<open>Every key handed to the handler is marked, or is the one in hand, which is new.\<close>

definition once_ok :: "string set \<Rightarrow> sidecar \<Rightarrow> bool" where
  "once_ok old k \<longleftrightarrow> distinct (map snd (sc_calls k)) \<and> old \<inter> snd ` set (sc_calls k) = {} \<and>
     (case sc_pc k of
        KHandled e seen rest \<Rightarrow> ev_key e \<notin> marked_keys (sc_state k) \<and> snd ` set (sc_calls k) \<union> old \<subseteq> insert (ev_key e) (marked_keys (sc_state k))
      | _ \<Rightarrow> snd ` set (sc_calls k) \<union> old \<subseteq> marked_keys (sc_state k))"

lemma register_sidecar_once:
  assumes "register_sidecar opts sid cid now ok k b = (k', b')"
  shows "sc_calls k' = sc_calls k \<and> sc_log k' = sc_log k \<and> sc_file k' = sc_file k \<and> sc_pc k' \<in> {sc_pc k, KRegistered} \<and>
    ss_handled (sc_state k') = ss_handled (sc_state k)"
  using assms by (auto simp: register_sidecar_def split: prod.splits sum.splits)

lemma ack_step_once:
  assumes "ack_step t seen k b = (k', b')"
  shows "sc_calls k' = sc_calls k \<and> sc_log k' = sc_log k \<and> sc_file k' = sc_file k \<and> sc_pc k' \<in> {KIdle, KAcked} \<and>
    ss_handled (sc_state k') = ss_handled (sc_state k)"
  using assms by (auto simp: ack_step_def Let_def split: if_splits option.splits prod.splits sum.splits)

lemma once_quiet:
  assumes "once_ok old k" and "sc_calls k' = sc_calls k" and "marked_keys (sc_state k') = marked_keys (sc_state k)"
    and "\<forall>e seen rest. sc_pc k \<noteq> KHandled e seen rest" and "\<forall>e seen rest. sc_pc k' \<noteq> KHandled e seen rest"
  shows "once_ok old k'"
  using assms by (cases "sc_pc k"; cases "sc_pc k'") (simp_all add: once_ok_def)

lemma row_step_once:
  assumes "once_ok old k" and "sc_pc k = KRow seen (e # rest)" and "row_step handle ee e seen rest k s = (k', s')" and "\<not> threw k k'"
  shows "once_ok old k'"
proof (cases "was_handled (sc_state k) (ev_key e)")
  case True
  with assms(3) have k': "k' = k\<lparr>sc_pc := KRow (seen @ [e]) rest, sc_log := sc_log k @ [(ev_id e, ev_key e, False)]\<rparr>"
    by (simp add: row_step_def)
  show ?thesis by (rule once_quiet [OF assms(1)]) (simp_all add: k' assms(2))
next
  case False
  obtain r recs s1 where h: "handle ee e (parsePayload (ee_host ee) (ev_payload e)) (ss_records (sc_state k)) s = (r, recs, s1)"
    by (metis prod_cases3)
  have new: "ev_key e \<notin> marked_keys (sc_state k)" using False by (simp add: was_handled_iff marked_keys_def)
  have o: "distinct (map snd (sc_calls k))" "old \<inter> snd ` set (sc_calls k) = {}" "snd ` set (sc_calls k) \<union> old \<subseteq> marked_keys (sc_state k)"
    using assms(1,2) by (simp_all add: once_ok_def)
  show ?thesis
  proof (cases r)
    case (Inl x)
    with False h assms(3,4) show ?thesis by (auto simp: row_step_def threw_def)
  next
    case (Inr u)
    with False h assms(3) have k': "sc_calls k' = sc_calls k @ [(ev_id e, ev_key e)]" "sc_pc k' = KHandled e seen rest"
      "marked_keys (sc_state k') = marked_keys (sc_state k)" by (auto simp: row_step_def marked_keys_def)
    have "ev_key e \<notin> snd ` set (sc_calls k)" "ev_key e \<notin> old" using new o(3) by auto
    then show ?thesis using o new by (auto simp: once_ok_def k')
  qed
qed

lemma sidecar_step_once:
  assumes "sidecar_step opts handle i (k, s) = Some (k', s')" and "once_ok old k" and "\<not> threw k k'"
  shows "once_ok old k'"
proof (cases i)
  case (KTick batch doAck sid cid now ok)
  let ?k1 = "k\<lparr>sc_batch := (if batch = 0 then 50 else batch), sc_ack := doAck\<rparr>"
  have pc: "sc_pc k = KIdle" using assms(1) KTick by (auto simp: sidecar_step_def split: if_splits)
  obtain k2 b where r: "register_sidecar opts sid cid now ok ?k1 (es_bus s) = (k2, b)" by fastforce
  have "sc_calls k' = sc_calls k \<and> ss_handled (sc_state k') = ss_handled (sc_state k) \<and> sc_pc k' \<in> {KIdle, KPoll, KRegistered}"
    using assms(1) KTick pc r register_sidecar_once [OF r]
    by (cases "ss_cursor (sc_state k)") (auto simp: sidecar_step_def Let_def)
  then show ?thesis by (intro once_quiet [OF assms(2)]) (auto simp: pc marked_keys_def)
next
  case (KGo t)
  show ?thesis
  proof (cases "sc_pc k")
    case (KHandled e seen rest)
    with KGo assms(1) have "k' = kgoto (KRow (seen @ [e]) rest) (persist (mark e t k))" by (simp add: sidecar_step_def)
    with assms(2) KHandled show ?thesis by (auto simp: once_ok_def marked_keys_def)
  next
    case (KRow seen rest)
    with KGo assms(1) have r: "rest = []" by (cases rest) (simp_all add: sidecar_step_def)
    obtain k1 b where a: "ack_step t seen k (es_bus s) = (k1, b)" by fastforce
    with KGo KRow r assms(1) have "k' = k1" by (simp add: sidecar_step_def)
    with ack_step_once [OF a] show ?thesis by (intro once_quiet [OF assms(2)]) (auto simp: KRow marked_keys_def)
  next
    case KPoll
    with KGo assms(1) show ?thesis
      by (intro once_quiet [OF assms(2)]) (auto simp: sidecar_step_def split: option.splits sum.splits)
  qed (use KGo assms(1) in \<open>auto intro!: once_quiet [OF assms(2)] simp: sidecar_step_def\<close>)
next
  case (KHandle ee)
  with assms(1) obtain seen e rest where "sc_pc k = KRow seen (e # rest)" "row_step handle ee e seen rest k s = (k', s')"
    by (auto simp: sidecar_step_def split: kpc.splits list.splits)
  from row_step_once [OF assms(2) this assms(3)] show ?thesis .
next
  case (KFault t)
  show ?thesis
  proof (cases "sc_pc k")
    case (KHandled e seen rest)
    with KFault assms(1) have "k' = kgoto KIdle (mark e t k)" by (simp add: sidecar_step_def)
    with assms(2) KHandled show ?thesis by (auto simp: once_ok_def marked_keys_def)
  next
    case (KRow seen rest)
    with KFault assms(1) have "k' = kgoto KIdle k" by (cases rest) (simp_all add: sidecar_step_def)
    with KRow show ?thesis by (intro once_quiet [OF assms(2)]) simp_all
  qed (use KFault assms(1) in \<open>auto intro!: once_quiet [OF assms(2)] simp: sidecar_step_def\<close>)
qed

lemma sidecar_world_once:
  assumes "sidecar_world_step opts handle cfg False (k, s, ar, E) (k', s', ar', E')" and "once_ok old k"
  shows "once_ok old k'"
  using assms(1)
proof cases
  case (runs i)
  with sidecar_step_once [OF runs(3) assms(2)] show ?thesis by simp
next
  case crash
  then have c: "all_marked k" "k' = restarted k" by simp_all
  have h: "ss_handled (sc_state k') = ss_handled (sc_state k)" "\<forall>e seen rest. sc_pc k \<noteq> KHandled e seen rest"
    using c by (auto simp: all_marked_def restarted_def)
  show ?thesis by (rule once_quiet [OF assms(2)]) (use h c in \<open>simp_all add: restarted_def marked_keys_def\<close>)
qed (use assms(2) in simp)

lemma sidecar_reached_once:
  assumes "(sidecar_world_step opts handle cfg False)\<^sup>*\<^sup>* x y" and "once_ok old (fst x)"
  shows "once_ok old (fst y)"
  using assms
proof (induction rule: rtranclp_induct)
  case (step y z)
  obtain k s ar E k' s' ar' E' where "y = (k, s, ar, E)" "z = (k', s', ar', E')" by (metis prod_cases4)
  with step sidecar_world_once [of opts handle cfg k s ar E k' s' ar' E' old] show ?case by simp
qed simp

text \<open>C7: A sidecar calls its handler at most once for a key, over all its ticks and restarts: no key is handed to it twice,
  and none that the state file named when it was first started. Other processes emit, sweep and rename keys
  meanwhile, statements and writes of the file fail, and the process is killed at any point - except while the
  effect of a call is not yet marked in the file, or a call has thrown, after which the call is repeated.\<close>

theorem sidecar_handles_once:
  assumes "sc_calls k0 = []" and "k0 = restarted k0"
    and "(sidecar_world_step opts handle cfg False)\<^sup>*\<^sup>* (k0, s0, ar0, E0) (k, s, ar, E)"
  shows "distinct (map snd (sc_calls k)) \<and> (\<forall>key\<in>snd ` set (sc_calls k). \<not> was_handled (loadState (sc_file k0)) key)"
proof -
  let ?old = "marked_keys (sc_state k0)"
  have k0: "sc_pc k0 = KIdle" "sc_state k0 = loadState (sc_file k0)" using assms(2) by (metis restarted_def sidecar.select_convs(1,2) sidecar.surjective sidecar.update_convs(1,2))+
  have "once_ok ?old k0" using assms(1) k0(1) by (simp add: once_ok_def)
  with sidecar_reached_once [OF assms(3), of ?old] have "once_ok ?old k" by simp
  then show ?thesis using k0(2) by (auto simp: once_ok_def was_handled_iff marked_keys_def)
qed

section \<open>Nothing missed\<close>

definition logged :: "sidecar \<Rightarrow> action list" where
  "logged k = map (\<lambda>x. Handled (fst x)) (sc_log k)"

lemma covered_logged: "covered (logged k) i \<longleftrightarrow> i \<in> fst ` set (sc_log k)"
  by (auto simp: covered_def logged_def)

definition sidecar_system :: "sidecar_world \<Rightarrow> system" where
  "sidecar_system x = (case x of (k, s, ar, E) \<Rightarrow>
     \<lparr>sy_agent = fresh_agent, sy_bus = es_bus s, sy_archive = ar, sy_log = logged k, sy_ever = E\<rparr>)"

lemma sidecar_system_sel [simp]:
  "sy_agent (sidecar_system (k, s, ar, E)) = fresh_agent" "sy_bus (sidecar_system (k, s, ar, E)) = es_bus s"
  "sy_archive (sidecar_system (k, s, ar, E)) = ar" "sy_log (sidecar_system (k, s, ar, E)) = logged k"
  "sy_ever (sidecar_system (k, s, ar, E)) = E"
  by (simp_all add: sidecar_system_def)

text \<open>The batch a tick has in hand, and how much of it is dealt with.\<close>

fun batch_of :: "kpc \<Rightarrow> event_row list" where
  "batch_of (KRow seen rest) = seen @ rest"
| "batch_of (KHandled e seen rest) = seen @ e # rest"
| "batch_of _ = []"

fun dealt_with :: "kpc \<Rightarrow> event_row list" where
  "dealt_with (KRow seen rest) = seen"
| "dealt_with (KHandled e seen rest) = seen @ [e]"
| "dealt_with _ = []"

definition handled_keys :: "sidecar \<Rightarrow> string set" where
  "handled_keys k = {key. \<exists>i. (i, key, True) \<in> set (sc_log k)}"

text \<open>The cursor is registered in memory and in the file, whose positions are not ahead of it; what is marked was handled,
  and only such keys were skipped.\<close>

lemma handled_keys_same [simp]:
  "handled_keys (kgoto p k) = handled_keys k" "handled_keys (persist k) = handled_keys k" "handled_keys (mark e t k) = handled_keys k"
  by (simp_all add: handled_keys_def)

definition state_ok :: "string \<Rightarrow> string set \<Rightarrow> int \<Rightarrow> sidecar \<Rightarrow> bool" where
  "state_ok c old q k \<longleftrightarrow> (case sc_file k of None \<Rightarrow> False
      | Some st \<Rightarrow> ss_cursor st = Some c \<and> ss_acked st \<le> q \<and> marked_keys st \<subseteq> old \<union> handled_keys k) \<and>
     ss_cursor (sc_state k) = Some c \<and> ss_acked (sc_state k) \<le> q \<and> marked_keys (sc_state k) \<subseteq> old \<union> handled_keys k \<and>
     (\<forall>i key. (i, key, False) \<in> set (sc_log k) \<longrightarrow> key \<in> old \<union> handled_keys k) \<and>
     (case sc_pc k of KRegistered \<Rightarrow> False | KHandled e seen rest \<Rightarrow> ev_key e \<in> handled_keys k | _ \<Rightarrow> True)"

definition sidecaring :: "sub_config \<Rightarrow> string set \<Rightarrow> int \<Rightarrow> string \<Rightarrow> int \<Rightarrow> sidecar_world \<Rightarrow> bool" where
  "sidecaring cfg old p0 f q x \<longleftrightarrow> delivering cfg p0 f q (sidecar_system x) \<and>
     (case x of (k, s, ar, E) \<Rightarrow> state_ok (sb_cursor cfg) old q k \<and> window_ok f q (es_bus s) (batch_of (sc_pc k)) \<and>
        (\<forall>e\<in>set (dealt_with (sc_pc k)). covered (logged k) (ev_id e)))"

lemma sidecaringD:
  assumes "sidecaring cfg old p0 f q (k, s, ar, E)"
  shows "delivering cfg p0 f q (sidecar_system (k, s, ar, E))" and "state_ok (sb_cursor cfg) old q k"
    and "window_ok f q (es_bus s) (batch_of (sc_pc k))" and "\<forall>e\<in>set (dealt_with (sc_pc k)). covered (logged k) (ev_id e)"
    and "sound_bus (es_bus s)" and "attached cfg q f (es_bus s)" and "q \<le> events_seq (es_bus s)" and "set (events (es_bus s)) \<subseteq> E"
  using assms deliveringD(1,2,4,6) [of cfg p0 f q "sidecar_system (k, s, ar, E)"] by (simp_all add: sidecaring_def)

lemma window_Nil [simp]: "window_ok f q b []"
  by (simp add: window_ok_def)

text \<open>A step of the sidecar that leaves the database alone.\<close>

lemma sidecar_quiet:
  assumes st: "sidecaring cfg old p0 f q (k, s, ar, E)" and log: "sc_log k' = sc_log k @ l"
    and "state_ok (sb_cursor cfg) old q k'" and "window_ok f q (es_bus s) (batch_of (sc_pc k'))"
    and "\<forall>e\<in>set (dealt_with (sc_pc k')). covered (logged k') (ev_id e)"
  shows "sidecaring cfg old p0 f q (k', s, ar, E \<union> set (events (es_bus s)))"
proof -
  note D = sidecaringD [OF st]
  let ?x = "sidecar_system (k, s, ar, E)"
  have "advances cfg f q (sy_bus ?x) fresh_agent (es_bus s) (sy_log ?x @ map (\<lambda>x. Handled (fst x)) l)"
    by (rule stays) (use D sound_busD(1) [OF D(5)] in \<open>simp_all add: fresh_agent_def\<close>)
  from advances_delivering [OF D(1) this] obtain r where r: "delivering cfg p0 f r (?x\<lparr>sy_agent := fresh_agent, sy_bus := es_bus s,
      sy_log := sy_log ?x @ map (\<lambda>x. Handled (fst x)) l, sy_ever := sy_ever ?x \<union> set (events (es_bus s))\<rparr>)" by blast
  have "?x\<lparr>sy_agent := fresh_agent, sy_bus := es_bus s, sy_log := sy_log ?x @ map (\<lambda>x. Handled (fst x)) l,
      sy_ever := sy_ever ?x \<union> set (events (es_bus s))\<rparr> = sidecar_system (k', s, ar, E \<union> set (events (es_bus s)))"
    by (simp add: sidecar_system_def logged_def log)
  with r have d: "delivering cfg p0 f r (sidecar_system (k', s, ar, E \<union> set (events (es_bus s))))" by metis
  have "attached cfg r f (es_bus s)" using deliveringD(2) [OF d] by simp
  then have "r = q" using D(6) by (auto simp: attached_def)
  with d assms(3-5) show ?thesis by (simp add: sidecaring_def)
qed

text \<open>Steps of others, and the emits of the handler.\<close>

lemma sidecar_evolves:
  assumes st: "sidecaring cfg old p0 f q (k, s, ar, E)"
    and ev: "sound_bus (es_bus s') \<and> attached cfg q f (es_bus s') \<and> evolves q f (es_bus s) ar (es_bus s') ar'"
  shows "sidecaring cfg old p0 f q (k, s', ar', E \<union> set (events (es_bus s')))"
proof -
  note D = sidecaringD [OF st]
  let ?x = "sidecar_system (k, s, ar, E)"
  from evolves_delivering [OF D(1), of "es_bus s'" ar'] ev have
    "delivering cfg p0 f q (?x\<lparr>sy_bus := es_bus s', sy_archive := ar', sy_ever := sy_ever ?x \<union> set (events (es_bus s'))\<rparr>)" by simp
  moreover have "?x\<lparr>sy_bus := es_bus s', sy_archive := ar', sy_ever := sy_ever ?x \<union> set (events (es_bus s'))\<rparr> =
      sidecar_system (k, s', ar', E \<union> set (events (es_bus s')))" by (simp add: sidecar_system_def)
  ultimately have "delivering cfg p0 f q (sidecar_system (k, s', ar', E \<union> set (events (es_bus s'))))" by metis
  with D window_ok_evolves [OF D(3)] ev show ?thesis by (auto simp: sidecaring_def)
qed

text \<open>The acknowledgment of a whole batch.\<close>

lemma max_id_last:
  "sorted_wrt (<) (p # map ev_id rows) \<Longrightarrow> max_id p rows = last (p # map ev_id rows)"
proof (induction rows arbitrary: p)
  case (Cons e rows)
  then have "max_id p (e # rows) = max_id (ev_id e) rows" by (simp add: max_id_def)
  with Cons show ?case by simp
qed (simp add: max_id_def)

lemma max_id_below:
  assumes "sorted_wrt (<) (map ev_id rows)" and "\<forall>e\<in>set rows. q < ev_id e" and "a \<le> q"
  shows "max_id a rows = (if rows = [] then a else ev_id (last rows))"
proof -
  have "sorted_wrt (<) (a # map ev_id rows)" using assms by fastforce
  from max_id_last [OF this] show ?thesis by (simp add: last_map)
qed

lemma sidecar_ack:
  assumes st: "sidecaring cfg old p0 f q (k, s, ar, E)" and pc: "sc_pc k = KRow seen []"
    and a: "ack_step t seen k (es_bus s) = (k', b')"
  shows "\<exists>q'\<ge>q. sidecaring cfg old p0 f q' (k', s\<lparr>es_bus := b'\<rparr>, ar, E \<union> set (events b'))"
proof -
  note D = sidecaringD [OF st]
  let ?b = "es_bus s" and ?c = "sb_cursor cfg"
  have w: "window_ok f q ?b seen" "\<forall>e\<in>set seen. covered (logged k) (ev_id e)" using D(3,4) by (simp_all add: pc)
  have ca: "ss_cursor (sc_state k) = Some ?c" "ss_acked (sc_state k) \<le> q" using D(2) by (simp_all add: state_ok_def)
  have m: "max_id (ss_acked (sc_state k)) seen = (if seen = [] then ss_acked (sc_state k) else ev_id (last seen))"
    by (rule max_id_below [OF _ _ ca(2)]) (use w(1) in \<open>simp_all add: window_ok_def\<close>)
  show ?thesis
  proof (cases "sc_ack k \<and> seen \<noteq> []")
    case False
    with a m have k': "k' = kgoto KIdle k" "b' = ?b" by (auto simp: ack_step_def split: if_splits)
    have "sidecaring cfg old p0 f q (k', s, ar, E \<union> set (events ?b))"
      by (rule sidecar_quiet [OF st, of k' "[]"]) (use D(2) pc in \<open>auto simp: k' state_ok_def split: option.splits\<close>)
    then show ?thesis unfolding k'(2) by (intro exI [of _ q]) simp
  next
    case True
    let ?m = "ev_id (last seen)"
    let ?b1 = "update_cursor_position ?c ?m t ?b"
    have mem: "last seen \<in> set seen" using True by simp
    have q: "q < ?m" "?m \<le> events_seq ?b" using w(1) mem by (auto simp: window_ok_def)
    have ak: "ack ?b ?c ?m t = (Inr (?c, ?m), ?b1)" by (rule ack_active) (simp add: attached_update(2) [OF D(6)])
    have k': "k' = k\<lparr>sc_pc := KAcked, sc_state := (sc_state k)\<lparr>ss_acked := ?m\<rparr>\<rparr>" "b' = ?b1"
      using a m True ca q(1) ak by (auto simp: ack_step_def Let_def)
    have "\<forall>y\<in>set (events ?b). event_matches f y \<longrightarrow> q < ev_id y \<longrightarrow> ev_id y \<le> ?m \<longrightarrow> covered (logged k) (ev_id y)"
      using w True unfolding window_ok_def by fastforce
    then have adv: "advances cfg f q ?b fresh_agent ?b1 (logged k)"
      unfolding advances_def using moved_sound [OF D(5)] attached_update(1) [OF D(6)] q
      by (intro conjI exI [of _ ?m]) (simp_all add: fresh_agent_def)
    let ?x = "sidecar_system (k, s, ar, E)"
    have "advances cfg f q (sy_bus ?x) fresh_agent ?b1 (sy_log ?x @ [])" using adv by simp
    from advances_delivering [OF D(1) this] obtain r where r: "delivering cfg p0 f r (?x\<lparr>sy_agent := fresh_agent, sy_bus := ?b1,
        sy_log := sy_log ?x @ [], sy_ever := sy_ever ?x \<union> set (events ?b1)\<rparr>)" by blast
    have "?x\<lparr>sy_agent := fresh_agent, sy_bus := ?b1, sy_log := sy_log ?x @ [], sy_ever := sy_ever ?x \<union> set (events ?b1)\<rparr> =
        sidecar_system (k', s\<lparr>es_bus := ?b1\<rparr>, ar, E \<union> set (events ?b1))"
      by (simp add: sidecar_system_def logged_def k')
    with r have d: "delivering cfg p0 f r (sidecar_system (k', s\<lparr>es_bus := ?b1\<rparr>, ar, E \<union> set (events ?b1)))" by metis
    have "attached cfg r f ?b1" using deliveringD(2) [OF d] by simp
    then have "r = ?m" using attached_update(1) [OF D(6), of ?m t] by (auto simp: attached_def)
    moreover have "state_ok ?c old ?m k'"
      using D(2) q(1) by (auto simp: state_ok_def k' handled_keys_def marked_keys_def pc split: option.splits)
    ultimately have "sidecaring cfg old p0 f ?m (k', s\<lparr>es_bus := b'\<rparr>, ar, E \<union> set (events b'))"
      using d by (simp add: sidecaring_def k')
    then show ?thesis using q(1) by (intro exI [of _ ?m]) simp
  qed
qed
text \<open>Steps of the sidecar.\<close>

lemma state_okI:
  assumes "sc_file k = Some st" and "ss_cursor st = Some c" and "ss_acked st \<le> q" and "marked_keys st \<subseteq> old \<union> handled_keys k"
    and "ss_cursor (sc_state k) = Some c" and "ss_acked (sc_state k) \<le> q" and "marked_keys (sc_state k) \<subseteq> old \<union> handled_keys k"
    and "\<forall>i key. (i, key, False) \<in> set (sc_log k) \<longrightarrow> key \<in> old \<union> handled_keys k" and "sc_pc k \<noteq> KRegistered"
    and "\<forall>e seen rest. sc_pc k = KHandled e seen rest \<longrightarrow> ev_key e \<in> handled_keys k"
  shows "state_ok c old q k"
  using assms by (simp add: state_ok_def split: kpc.split)

lemma state_okE:
  assumes "state_ok c old q k"
  obtains st where "sc_file k = Some st" and "ss_cursor st = Some c" and "ss_acked st \<le> q" and "marked_keys st \<subseteq> old \<union> handled_keys k"
    and "ss_cursor (sc_state k) = Some c" and "ss_acked (sc_state k) \<le> q" and "marked_keys (sc_state k) \<subseteq> old \<union> handled_keys k"
    and "\<forall>i key. (i, key, False) \<in> set (sc_log k) \<longrightarrow> key \<in> old \<union> handled_keys k" and "sc_pc k \<noteq> KRegistered"
    and "\<forall>e seen rest. sc_pc k = KHandled e seen rest \<longrightarrow> ev_key e \<in> handled_keys k"
proof (cases "sc_file k")
  case None
  with assms show ?thesis by (simp add: state_ok_def)
next
  case (Some st)
  have "sc_pc k \<noteq> KRegistered" "\<forall>e seen rest. sc_pc k = KHandled e seen rest \<longrightarrow> ev_key e \<in> handled_keys k"
    using assms by (auto simp: state_ok_def)
  with that [OF Some] assms Some show ?thesis by (simp add: state_ok_def)
qed

lemma state_ok_goto:
  assumes "state_ok c old q k" and "p \<noteq> KRegistered" and "\<forall>e seen rest. p \<noteq> KHandled e seen rest"
  shows "state_ok c old q (kgoto p k)"
  using assms(1)
proof (rule state_okE)
  fix st
  assume *: "sc_file k = Some st" "ss_cursor st = Some c" "ss_acked st \<le> q" "marked_keys st \<subseteq> old \<union> handled_keys k"
    "ss_cursor (sc_state k) = Some c" "ss_acked (sc_state k) \<le> q" "marked_keys (sc_state k) \<subseteq> old \<union> handled_keys k"
    "\<forall>i key. (i, key, False) \<in> set (sc_log k) \<longrightarrow> key \<in> old \<union> handled_keys k"
  show ?thesis by (rule state_okI [of _ st]) (use * assms(2,3) in simp_all)
qed

lemma state_ok_persist:
  assumes "state_ok c old q k"
  shows "state_ok c old q (persist k)"
  using assms
proof (rule state_okE)
  fix st
  assume *: "ss_cursor (sc_state k) = Some c" "ss_acked (sc_state k) \<le> q" "marked_keys (sc_state k) \<subseteq> old \<union> handled_keys k"
    "\<forall>i key. (i, key, False) \<in> set (sc_log k) \<longrightarrow> key \<in> old \<union> handled_keys k" "sc_pc k \<noteq> KRegistered"
    "\<forall>e seen rest. sc_pc k = KHandled e seen rest \<longrightarrow> ev_key e \<in> handled_keys k"
  have m: "marked_keys (stored_state (sc_state k)) = marked_keys (sc_state k)" by (simp add: marked_keys_def)
  show ?thesis by (rule state_okI [of _ "stored_state (sc_state k)"]) (use * in \<open>simp_all add: m\<close>)
qed

lemma state_ok_mark:
  assumes "state_ok c old q k" and "ev_key e \<in> handled_keys k"
  shows "state_ok c old q (mark e t k)"
  using assms(1)
proof (rule state_okE)
  fix st
  assume *: "sc_file k = Some st" "ss_cursor st = Some c" "ss_acked st \<le> q" "marked_keys st \<subseteq> old \<union> handled_keys k"
    "ss_cursor (sc_state k) = Some c" "ss_acked (sc_state k) \<le> q" "marked_keys (sc_state k) \<subseteq> old \<union> handled_keys k"
    "\<forall>i key. (i, key, False) \<in> set (sc_log k) \<longrightarrow> key \<in> old \<union> handled_keys k" "sc_pc k \<noteq> KRegistered"
    "\<forall>e seen rest. sc_pc k = KHandled e seen rest \<longrightarrow> ev_key e \<in> handled_keys k"
  have m: "marked_keys (sc_state (mark e t k)) = insert (ev_key e) (marked_keys (sc_state k))" by (simp add: marked_keys_def)
  show ?thesis by (rule state_okI [of _ st]) (use * assms(2) in \<open>simp_all add: m\<close>)
qed

lemma state_ok_same:
  assumes "state_ok c old q k" and "sc_file k' = sc_file k" and "sc_log k' = sc_log k @ l" and "\<forall>x\<in>set l. snd (snd x) \<or> fst (snd x) \<in> old \<union> handled_keys k"
    and "ss_cursor (sc_state k') = ss_cursor (sc_state k)" and "ss_acked (sc_state k') = ss_acked (sc_state k)"
    and "ss_handled (sc_state k') = ss_handled (sc_state k)" and "sc_pc k' \<noteq> KRegistered"
    and "\<forall>e seen rest. sc_pc k' = KHandled e seen rest \<longrightarrow> ev_key e \<in> handled_keys k'"
  shows "state_ok c old q k'"
  using assms(1)
proof (rule state_okE)
  fix st
  assume *: "sc_file k = Some st" "ss_cursor st = Some c" "ss_acked st \<le> q" "marked_keys st \<subseteq> old \<union> handled_keys k"
    "ss_cursor (sc_state k) = Some c" "ss_acked (sc_state k) \<le> q" "marked_keys (sc_state k) \<subseteq> old \<union> handled_keys k"
    "\<forall>i key. (i, key, False) \<in> set (sc_log k) \<longrightarrow> key \<in> old \<union> handled_keys k"
  have h: "handled_keys k \<subseteq> handled_keys k'" by (auto simp: handled_keys_def assms(3))
  have m: "marked_keys (sc_state k') = marked_keys (sc_state k)" by (simp add: marked_keys_def assms(7))
  have f: "key \<in> old \<union> handled_keys k'" if "(i, key, False) \<in> set (sc_log k')" for i key
    using that *(8) assms(4) h unfolding assms(3) by fastforce
  show ?thesis
  proof (rule state_okI [of _ st])
    show "marked_keys st \<subseteq> old \<union> handled_keys k'" "marked_keys (sc_state k') \<subseteq> old \<union> handled_keys k'" using *(4,7) h m by blast+
    show "\<forall>i key. (i, key, False) \<in> set (sc_log k') \<longrightarrow> key \<in> old \<union> handled_keys k'" using f by blast
  qed (use * assms in simp_all)
qed
lemma sidecar_go:
  assumes st: "sidecaring cfg old p0 f q (k, s, ar, E)" and sp: "sidecar_step opts handle i (k, s) = Some (k', s')"
    and ni: "\<forall>ee. i \<noteq> KHandle ee"
  shows "\<exists>q'\<ge>q. sidecaring cfg old p0 f q' (k', s', ar, E \<union> set (events (es_bus s')))"
proof -
  note D = sidecaringD [OF st]
  let ?c = "sb_cursor cfg"
  obtain st0 where D2: "sc_file k = Some st0" "ss_cursor (sc_state k) = Some ?c" "sc_pc k \<noteq> KRegistered"
    "\<forall>e seen rest. sc_pc k = KHandled e seen rest \<longrightarrow> ev_key e \<in> handled_keys k" by (rule state_okE [OF D(2)])
  have quiet: ?thesis if "s' = s" "sc_log k' = sc_log k" "state_ok ?c old q k'"
    "window_ok f q (es_bus s) (batch_of (sc_pc k'))" "\<forall>e\<in>set (dealt_with (sc_pc k')). covered (logged k') (ev_id e)"
    using sidecar_quiet [OF st, of k' "[]"] that by (intro exI [of _ q]) simp
  have idle: ?thesis if "s' = s" "k' = kgoto KIdle k"
    by (rule quiet) (simp_all add: that state_ok_goto [OF D(2)])
  show ?thesis
  proof (cases i)
    case (KTick batch doAck sid cid now ok)
    let ?k1 = "k\<lparr>sc_batch := (if batch = 0 then 50 else batch), sc_ack := doAck\<rparr>"
    have k': "sc_pc k = KIdle" "k' = kgoto KPoll ?k1" "s' = s"
      using sp D2(2) by (simp_all add: KTick sidecar_step_def Let_def split: if_splits)
    have "state_ok ?c old q ?k1" by (rule state_ok_same [OF D(2), of _ "[]"]) (simp_all add: k'(1))
    from state_ok_goto [OF this, of KPoll] show ?thesis by (intro quiet) (simp_all add: k')
  next
    case (KHandle ee)
    with ni show ?thesis by blast
  next
    case (KFault t)
    show ?thesis
    proof (cases "sc_pc k")
      case (KHandled e seen rest)
      with sp KFault have k': "k' = kgoto KIdle (mark e t k)" "s' = s" by (simp_all add: sidecar_step_def)
      have "state_ok ?c old q (mark e t k)" using state_ok_mark [OF D(2)] D2(4) KHandled by blast
      from state_ok_goto [OF this, of KIdle] show ?thesis by (intro quiet) (simp_all add: k')
    next
      case (KRow seen rest)
      with sp KFault show ?thesis by (cases rest) (simp_all add: sidecar_step_def idle)
    qed (use sp KFault in \<open>simp_all add: sidecar_step_def idle\<close>)
  next
    case (KGo t)
    show ?thesis
    proof (cases "sc_pc k")
      case KPoll
      show ?thesis
      proof (cases "poll (es_bus s) ?c (Some (sc_batch k)) None")
        case (Inl x)
        with sp KGo KPoll D2(2) show ?thesis by (simp add: sidecar_step_def idle)
      next
        case (Inr rows)
        with sp KGo KPoll D2(2) have k': "k' = kgoto (KRow [] rows) k" "s' = s" by (simp_all add: sidecar_step_def)
        show ?thesis by (rule quiet) (use poll_window [OF D(5,6) Inr] in \<open>simp_all add: k' state_ok_goto [OF D(2)]\<close>)
      qed
    next
      case (KRow seen rest)
      with sp KGo have r: "rest = []" by (cases rest) (simp_all add: sidecar_step_def)
      obtain k1 b where a: "ack_step t seen k (es_bus s) = (k1, b)" by fastforce
      with sp KGo KRow r have k': "k' = k1" "s' = s\<lparr>es_bus := b\<rparr>" by (simp_all add: sidecar_step_def)
      from sidecar_ack [OF st KRow [unfolded r] a] show ?thesis by (simp add: k')
    next
      case (KHandled e seen rest)
      with sp KGo have k': "k' = kgoto (KRow (seen @ [e]) rest) (persist (mark e t k))" "s' = s" by (simp_all add: sidecar_step_def)
      have "state_ok ?c old q (mark e t k)" using state_ok_mark [OF D(2)] D2(4) KHandled by blast
      note ok = state_ok_goto [OF state_ok_persist [OF this], of "KRow (seen @ [e]) rest"]
      show ?thesis by (rule quiet) (use ok D(3,4) in \<open>simp_all add: k' KHandled logged_def\<close>)
    next
      case KAcked
      with sp KGo have k': "k' = kgoto KIdle (persist k)" "s' = s" by (simp_all add: sidecar_step_def)
      show ?thesis by (rule quiet) (simp_all add: k' state_ok_goto [OF state_ok_persist [OF D(2)]])
    qed (use sp KGo D2(3) in \<open>simp_all add: sidecar_step_def\<close>)
  qed
qed

lemma sidecar_crash:
  assumes st: "sidecaring cfg old p0 f q (k, s, ar, E)"
  shows "sidecaring cfg old p0 f q (restarted k, s, ar, E \<union> set (events (es_bus s)))"
proof -
  note D = sidecaringD [OF st]
  have "state_ok (sb_cursor cfg) old q (restarted k)"
    using D(2)
  proof (rule state_okE)
    fix st0
    assume *: "sc_file k = Some st0" "ss_cursor st0 = Some (sb_cursor cfg)" "ss_acked st0 \<le> q" "marked_keys st0 \<subseteq> old \<union> handled_keys k"
      "\<forall>i key. (i, key, False) \<in> set (sc_log k) \<longrightarrow> key \<in> old \<union> handled_keys k"
    have r: "sc_file (restarted k) = Some st0" "sc_state (restarted k) = st0" "sc_log (restarted k) = sc_log k" "sc_pc (restarted k) = KIdle"
      using *(1) by (simp_all add: restarted_def loadState_def)
    have h: "handled_keys (restarted k) = handled_keys k" by (simp add: handled_keys_def r)
    show ?thesis by (rule state_okI [of _ st0]) (use * in \<open>simp_all add: r h\<close>)
  qed
  then show ?thesis by (intro sidecar_quiet [OF st, of "restarted k" "[]"]) (simp_all add: restarted_def)
qed

section \<open>Handlers\<close>

text \<open>A handler reaches the database only through \<open>sidecar.emit\<close>.\<close>

locale sidecar_handler =
  fixes handle :: handler
  assumes emits_only: "(other_step cfg)\<^sup>*\<^sup>* (es_bus s) (es_bus (snd (snd (handle ee e payload recs s))))"
begin

lemma handler_sidecaring:
  assumes st: "sidecaring cfg old p0 f q (k, s, ar, E)" and pc: "sc_pc k = KRow seen (e # rest)"
    and r: "row_step handle ee e seen rest k s = (k', s')"
  shows "sidecaring cfg old p0 f q (k', s', ar, E \<union> set (events (es_bus s')))"
proof -
  note D = sidecaringD [OF st]
  have w: "window_ok f q (es_bus s) (seen @ e # rest)" "\<forall>x\<in>set seen. covered (logged k) (ev_id x)" using D(3,4) by (simp_all add: pc)
  show ?thesis
  proof (cases "was_handled (sc_state k) (ev_key e)")
    case True
    with r have k': "k' = k\<lparr>sc_pc := KRow (seen @ [e]) rest, sc_log := sc_log k @ [(ev_id e, ev_key e, False)]\<rparr>" "s' = s"
      by (simp_all add: row_step_def)
    have "ev_key e \<in> old \<union> handled_keys k"
      by (rule state_okE [OF D(2)]) (use True in \<open>auto simp: was_handled_iff\<close>)
    then have "state_ok (sb_cursor cfg) old q k'"
      by (intro state_ok_same [OF D(2), of _ "[(ev_id e, ev_key e, False)]"]) (simp_all add: k')
    then show ?thesis unfolding k'(2)
      by (rule sidecar_quiet [OF st, of _ "[(ev_id e, ev_key e, False)]", rotated]) (use w in \<open>auto simp: k' covered_logged\<close>)
  next
    case False
    obtain x recs s1 where h: "handle ee e (parsePayload (ee_host ee) (ev_payload e)) (ss_records (sc_state k)) s = (x, recs, s1)"
      by (metis prod_cases3)
    have "sound_bus (es_bus s1) \<and> attached cfg q f (es_bus s1) \<and> evolves q f (es_bus s) ar (es_bus s1) ar"
      using other_steps_evolve [OF emits_only D(5,6)] h by (metis snd_conv)
    from sidecar_evolves [OF st this] have st1: "sidecaring cfg old p0 f q (k, s1, ar, E \<union> set (events (es_bus s1)))" .
    note D1 = sidecaringD [OF st1]
    let ?k1 = "k\<lparr>sc_calls := sc_calls k @ [(ev_id e, ev_key e)], sc_state := (sc_state k)\<lparr>ss_records := recs\<rparr>\<rparr>"
    show ?thesis
    proof (cases x)
      case (Inl y)
      with False h r have k': "k' = kgoto KIdle ?k1" "s' = s1" by (simp_all add: row_step_def)
      have "state_ok (sb_cursor cfg) old q k'" by (rule state_ok_same [OF D(2), of _ "[]"]) (simp_all add: k')
      with sidecar_quiet [OF st1, of k' "[]"] show ?thesis by (simp add: k' Un_assoc)
    next
      case (Inr u)
      let ?l = "[(ev_id e, ev_key e, True)]"
      from Inr False h r have k': "k' = ?k1\<lparr>sc_pc := KHandled e seen rest, sc_log := sc_log k @ ?l\<rparr>" "s' = s1" by (simp_all add: row_step_def)
      have "state_ok (sb_cursor cfg) old q k'"
        by (rule state_ok_same [OF D(2), of _ ?l]) (auto simp: k' handled_keys_def)
      with sidecar_quiet [OF st1, of k' ?l] D1(3) w show ?thesis by (auto simp: k' covered_logged pc Un_assoc)
    qed
  qed
qed

lemma world_sidecaring:
  assumes "sidecar_world_step opts handle cfg lossy (k, s, ar, E) (k', s', ar', E')"
    and st: "sidecaring cfg old p0 f q (k, s, ar, E)"
  shows "\<exists>q'\<ge>q. sidecaring cfg old p0 f q' (k', s', ar', E')"
  using assms(1)
proof cases
  case (runs i)
  show ?thesis
  proof (cases "\<exists>ee. i = KHandle ee")
    case True
    then obtain ee where i: "i = KHandle ee" by blast
    with runs(3) obtain seen e rest where "sc_pc k = KRow seen (e # rest)" "row_step handle ee e seen rest k s = (k', s')"
      by (auto simp: sidecar_step_def split: kpc.splits list.splits)
    from handler_sidecaring [OF st this] runs show ?thesis by (intro exI [of _ q]) simp
  next
    case False
    with sidecar_go [OF st runs(3)] runs show ?thesis by blast
  qed
next
  case crash
  have "E \<union> set (events (es_bus s)) = E" using sidecaringD(8) [OF st] by blast
  with sidecar_crash [OF st] crash show ?thesis by (intro exI [of _ q]) simp
next
  case world
  note D = sidecaringD [OF st]
  from sidecar_evolves [OF st world_step_evolves [OF world(3) D(5,6)]] world show ?thesis by (intro exI [of _ q]) simp
qed

lemma reaches_sidecaring:
  assumes "(sidecar_world_step opts handle cfg lossy)\<^sup>*\<^sup>* x y" and "sidecaring cfg old p0 f p0 x"
  shows "\<exists>q\<ge>p0. sidecaring cfg old p0 f q y"
  using assms
proof (induction rule: rtranclp_induct)
  case (step y z)
  obtain k s ar E k' s' ar' E' where yz: "y = (k, s, ar, E)" "z = (k', s', ar', E')" by (metis prod_cases4)
  from step obtain q where q: "q \<ge> p0" "sidecaring cfg old p0 f q y" by blast
  from world_sidecaring [OF step(2) [unfolded yz] q(2) [unfolded yz(1)]] q(1) show ?case unfolding yz(2) by (meson order_trans)
qed blast

end

section \<open>The reducer and the provisioner\<close>

interpretation reducer: sidecar_handler reducer_handle
  by unfold_locales (simp add: reducer_handle_def split: sum.split)

lemma sidecarEmit_emits: "es_bus (snd (sidecarEmit ee ec ev s)) = es_bus (snd (emit ee ec ev s))"
  by (simp add: sidecarEmit_def split: prod.split sum.split)

interpretation provisioner: sidecar_handler "provisioner_handle ec" for ec
proof
  fix cfg s ee e payload recs
  have b: "es_bus (snd (snd (provisioner_handle ec ee e payload recs s))) \<in>
      {es_bus s, es_bus (snd (emit ee ec (skill_ready ee e payload) s))}"
    using sidecarEmit_emits [of ee ec "skill_ready ee e payload" s]
    by (auto simp: provisioner_handle_def Let_def split: sum.splits prod.splits)
  have "other_step cfg (es_bus s) (es_bus (snd (emit ee ec (skill_ready ee e payload) s)))" by (rule other_step.emits) simp
  with b show "(other_step cfg)\<^sup>*\<^sup>* (es_bus s) (es_bus (snd (snd (provisioner_handle ec ee e payload recs s))))" by auto
qed

text \<open>A sidecar that has been started again: its file names its cursor.\<close>

definition resumed :: "string \<Rightarrow> int \<Rightarrow> sidecar \<Rightarrow> bool" where
  "resumed c p k \<longleftrightarrow> k = restarted k \<and> sc_file k \<noteq> None \<and> sc_log k = [] \<and> ss_cursor (sc_state k) = Some c \<and> ss_acked (sc_state k) \<le> p"

text \<open>On its first tick a sidecar registers; once the file is written, it resumes from there.\<close>

lemma first_tick_resumes:
  assumes "sc_file k = None" and "k = restarted k" and "sc_log k = []" and "sound_bus (es_bus s)"
    and "sid \<notin> su_id ` set (subscriptions (es_bus s))" and "cid \<notin> cu_id ` set (cursors (es_bus s))"
    and "sidecar_step opts handle (KTick batch doAck sid cid now ok) (k, s) = Some (k1, s1)"
    and "sidecar_step opts handle (KGo t) (k1, s1) = Some (k2, s2)"
  shows "\<exists>p. resumed cid p (restarted k2) \<and> sound_bus (es_bus s2) \<and> p \<le> events_seq (es_bus s2) \<and>
    events (es_bus s2) = events (es_bus s) \<and>
    (\<forall>cfg. sb_cursor cfg = cid \<longrightarrow> sb_sub cfg = sid \<longrightarrow> attached cfg p (sk_filter opts) (es_bus s2))"
proof -
  let ?o = "\<lparr>ro_plugin = sk_name opts, ro_role = ''subscriber'', ro_filter = sk_filter opts, ro_schema_version = None,
         ro_cursor_init = Some (case or_null (sk_cursor_init opts) of Some i \<Rightarrow> i | None \<Rightarrow> ''oldest'')\<rparr>"
  let ?p = "initial_position (es_bus s) (ro_cursor_init ?o)"
  have k: "sc_pc k = KIdle" "ss_cursor (sc_state k) = None"
    using assms(1,2) by (auto simp: restarted_def loadState_def fresh_sidecar_def) (metis sidecar.select_convs(1) sidecar.surjective sidecar.update_convs(1,2),
      metis sidecar.select_convs(2) sidecar.surjective sidecar.update_convs(1,2) sidecar_state.select_convs(1))
  obtain r b where reg: "register (es_bus s) ?o sid cid now ok = (Inr r, b)" "rr_cursor_id r = Some cid" "rr_last_event_id r = Some ?p"
    and b: "sound_bus b" "?p \<le> events_seq b" "events b = events (es_bus s)"
    and at: "\<And>cfg. sb_cursor cfg = cid \<Longrightarrow> sb_sub cfg = sid \<Longrightarrow> attached cfg ?p (ro_filter ?o) b"
    by (rule register_attached [OF assms(4) _ assms(5,6), of ?o now ok]) simp_all
  have k1: "sc_pc k1 = KRegistered" "ss_cursor (sc_state k1) = Some cid" "ss_acked (sc_state k1) = ?p" "sc_log k1 = []" "s1 = s\<lparr>es_bus := b\<rparr>"
    using assms(7) k reg assms(3) by (auto simp: sidecar_step_def register_sidecar_def Let_def)
  then have k2: "k2 = kgoto KPoll (persist k1)" "s2 = s1" using assms(8) by (simp_all add: sidecar_step_def)
  have "resumed cid ?p (restarted k2)" using k1 by (simp add: k2 resumed_def restarted_def loadState_def)
  with b at k1 k2 show ?thesis by auto
qed

lemma resumed_sidecaring:
  assumes r: "resumed (sb_cursor cfg) p k" and b: "sound_bus (es_bus s)" "attached cfg p f (es_bus s)" "p \<le> events_seq (es_bus s)"
  shows "sidecaring cfg (marked_keys (sc_state k)) p f p (k, s, ar, set (events (es_bus s)))"
proof -
  let ?x = "sidecar_system (k, s, ar, set (events (es_bus s)))"
  have k: "sc_pc k = KIdle" "sc_state k = loadState (sc_file k)" "sc_log k = []" "ss_cursor (sc_state k) = Some (sb_cursor cfg)" "ss_acked (sc_state k) \<le> p"
    using r by (auto simp: resumed_def restarted_def) (metis sidecar.select_convs(1,2) sidecar.surjective sidecar.update_convs(1,2))+
  have "started cfg p f ?x" using b k by (simp add: started_def logged_def)
  from started_delivering [OF this] have d: "delivering cfg p f p ?x" .
  obtain st where st: "sc_file k = Some st" using r by (auto simp: resumed_def)
  have "state_ok (sb_cursor cfg) (marked_keys (sc_state k)) p k"
    by (rule state_okI [OF st]) (use k st in \<open>auto simp: loadState_def\<close>)
  with d show ?thesis by (simp add: sidecaring_def k)
qed

lemma sidecaring_conclusion:
  assumes st: "sidecaring cfg old p0 f q (k, s, ar, E)" and "x \<in> E" and "p0 < ev_id x" and "event_matches f x"
  shows "\<exists>p. cursor_position (es_bus s) (sb_cursor cfg) = Some p \<and>
    ((\<exists>key. (ev_id x, key, True) \<in> set (sc_log k)) \<or>
     (\<exists>key. (ev_id x, key, False) \<in> set (sc_log k) \<and> (key \<in> old \<or> (\<exists>i. (i, key, True) \<in> set (sc_log k)))) \<or>
     ev_id x \<in> saved (es_bus s) ar \<or> (p < ev_id x \<and> ev_id x \<in> ev_id ` set (events (es_bus s))))"
proof -
  note D = sidecaringD [OF st]
  have skip: "\<forall>i key. (i, key, False) \<in> set (sc_log k) \<longrightarrow> key \<in> old \<union> handled_keys k" by (rule state_okE [OF D(2)]) blast
  have "accounted (sidecar_system (k, s, ar, E)) q (ev_id x)" using deliveringD(9) [OF D(1)] assms(2-4) by simp
  then consider b key where "(ev_id x, key, b) \<in> set (sc_log k)" | "ev_id x \<in> saved (es_bus s) ar"
    | "q < ev_id x" "ev_id x \<in> ev_id ` set (events (es_bus s))"
    by (auto simp: accounted_def covered_logged)
  then show ?thesis
  proof cases
    case (1 b key)
    show ?thesis
    proof (cases b)
      case False
      with 1 skip have "key \<in> old \<or> (\<exists>i. (i, key, True) \<in> set (sc_log k))" by (auto simp: handled_keys_def)
      moreover from 1 False have "(ev_id x, key, False) \<in> set (sc_log k)" by simp
      ultimately show ?thesis using attached_update(2) [OF D(6)] by blast
    qed (use 1 attached_update(2) [OF D(6)] in auto)
  qed (use attached_update(2) [OF D(6)] in auto)
qed

text \<open>C6: The crew sidecars miss nothing. A reducer or a provisioner is started again with its state file, and ticks while
  other processes emit, sweep under a policy other than \<open>discard\<close>, register, and acknowledge other cursors between
  any two of its statements, but none moves or retires the sidecar's own cursor (\<open>wicked-bus replay\<close>, a foreign
  \<open>ack\<close> or \<open>deregister\<close>); statements and writes
  of the file fail, handlers throw, the process is killed at any point and started again. In every state
  reached, each event ever stored above its position that matches its filter has been handled, has a copy in an
  archive or is still stored above the cursor - or was skipped because its idempotency key counted as handled:
  an event with that key was handled, or the file the sidecar started with names the key, or it is a name
  every object inherits.\<close>

theorem sidecars_miss_nothing:
  assumes "handle = reducer_handle \<or> (\<exists>ec. handle = provisioner_handle ec)" and "resumed (sb_cursor cfg) p0 k0"
    and "sound_bus (es_bus s0)" and "attached cfg p0 f (es_bus s0)" and "p0 \<le> events_seq (es_bus s0)"
    and "(sidecar_world_step opts handle cfg lossy)\<^sup>*\<^sup>* (k0, s0, ar0, set (events (es_bus s0))) (k, s, ar, E)"
    and "x \<in> E" and "p0 < ev_id x" and "event_matches f x"
  shows "\<exists>p. cursor_position (es_bus s) (sb_cursor cfg) = Some p \<and>
    ((\<exists>key. (ev_id x, key, True) \<in> set (sc_log k)) \<or>
     (\<exists>key. (ev_id x, key, False) \<in> set (sc_log k) \<and> (was_handled (sc_state k0) key \<or> (\<exists>i. (i, key, True) \<in> set (sc_log k)))) \<or>
     ev_id x \<in> saved (es_bus s) ar \<or> (p < ev_id x \<and> ev_id x \<in> ev_id ` set (events (es_bus s))))"
proof -
  note start = resumed_sidecaring [OF assms(2-5), of ar0]
  have "\<exists>q\<ge>p0. sidecaring cfg (marked_keys (sc_state k0)) p0 f q (k, s, ar, E)"
    using assms(1) reducer.reaches_sidecaring [OF _ start] provisioner.reaches_sidecaring [OF _ start] assms(6) by blast
  then obtain q where "sidecaring cfg (marked_keys (sc_state k0)) p0 f q (k, s, ar, E)" by blast
  from sidecaring_conclusion [OF this assms(7-9)] show ?thesis by (simp add: was_handled_iff)
qed

section \<open>Examples\<close>

fun sidecar_runs :: "sidecar_opts \<Rightarrow> handler \<Rightarrow> sidecar_input list \<Rightarrow> sidecar \<times> emit_state \<Rightarrow> (sidecar \<times> emit_state) option" where
  "sidecar_runs opts handle [] x = Some x"
| "sidecar_runs opts handle (i # is) x = (case sidecar_step opts handle i x of
     Some (k, s) \<Rightarrow> if threw (fst x) k then None else sidecar_runs opts handle is (k, s) | None \<Rightarrow> None)"

lemma sidecar_runs_world:
  assumes "sidecar_runs opts handle is (k, s) = Some (k', s')"
  shows "\<exists>E'. E \<subseteq> E' \<and> (sidecar_world_step opts handle cfg lossy)\<^sup>*\<^sup>* (k, s, ar, E) (k', s', ar, E')"
  using assms
proof (induction "is" arbitrary: k s E)
  case (Cons i "is")
  then obtain k1 s1 where st: "sidecar_step opts handle i (k, s) = Some (k1, s1)" "\<not> threw k k1"
    and r: "sidecar_runs opts handle is (k1, s1) = Some (k', s')" by (auto split: option.splits if_splits)
  from Cons.IH [OF r, of "E \<union> set (events (es_bus s1))"] sidecar_world_step.runs [OF st(1), of lossy cfg ar E] st(2) show ?case
    by (meson converse_rtranclp_into_rtranclp le_supE)
qed auto

definition demo_sidecar :: sidecar where
  "demo_sidecar = restarted \<lparr>sc_pc = KIdle, sc_state = fresh_sidecar, sc_file = Some (fresh_sidecar\<lparr>ss_cursor := Some ''c'',
     ss_subscription := Some ''s'', ss_acked := 3\<rparr>), sc_batch = 50, sc_ack = True, sc_calls = [], sc_log = []\<rparr>"

text \<open>Two events are handled and the third is in hand; then the process is killed, sweeps run, and it polls again.\<close>

definition demo_inputs :: "sidecar_input list" where
  "demo_inputs = [KTick 2 True '''' '''' 0 True, KGo 0, KHandle (demo_env 1), KGo 1, KHandle (demo_env 1), KGo 1, KGo 1, KGo 1,
     KTick 2 True '''' '''' 2 True, KGo 2, KHandle (demo_env 2)]"

definition demo_sidecar_state :: emit_state where
  "demo_sidecar_state = demo_state\<lparr>es_bus := demo_bus [4, 5, 6] 3\<rparr>"

lemma demo_sidecar_runs:
  obtains k s where "sidecar_runs reducer_opts reducer_handle demo_inputs (demo_sidecar, demo_sidecar_state) = Some (k, s)"
    and "map fst (sc_calls k) = [4, 5, 6]" and "(5, ''5'', True) \<in> set (sc_log k)"
proof -
  have h: "case sidecar_runs reducer_opts reducer_handle demo_inputs (demo_sidecar, demo_sidecar_state) of
      Some (k, s) \<Rightarrow> map fst (sc_calls k) = [4, 5, 6] \<and> (5, ''5'', True) \<in> set (sc_log k) | None \<Rightarrow> False" by code_simp
  then obtain k s where r: "sidecar_runs reducer_opts reducer_handle demo_inputs (demo_sidecar, demo_sidecar_state) = Some (k, s)"
    by (auto split: option.splits simp del: sidecar_runs.simps)
  from that [OF r] h [unfolded r option.case prod.case] show ?thesis by blast
qed

lemma demo_resumed: "resumed ''c'' 3 demo_sidecar"
  by (simp add: resumed_def demo_sidecar_def restarted_def loadState_def fresh_sidecar_def)
lemma sidecars_miss_nothing_witness:
  "\<exists>k s E x p. (sidecar_world_step reducer_opts reducer_handle demo_config False)\<^sup>*\<^sup>*
       (demo_sidecar, demo_sidecar_state, no_archive, set (events (es_bus demo_sidecar_state))) (k, s, no_archive, E) \<and>
     x \<in> E \<and> ev_id x = 6 \<and> cursor_position (es_bus s) ''c'' = Some p \<and> map fst (sc_calls k) = [4, 5, 6] \<and>
     ((\<exists>key. (6, key, True) \<in> set (sc_log k)) \<or>
      (\<exists>key. (6, key, False) \<in> set (sc_log k) \<and> (was_handled (sc_state demo_sidecar) key \<or> (\<exists>i. (i, key, True) \<in> set (sc_log k)))) \<or>
      6 \<in> saved (es_bus s) no_archive \<or> (p < 6 \<and> 6 \<in> ev_id ` set (events (es_bus s))))"
proof -
  let ?s0 = demo_sidecar_state
  let ?x = "demo_row 6 ''wicked.a''"
  obtain k s where r: "sidecar_runs reducer_opts reducer_handle demo_inputs (demo_sidecar, ?s0) = Some (k, s)"
    and c: "map fst (sc_calls k) = [4, 5, 6]" by (rule demo_sidecar_runs)
  have b: "es_bus ?s0 = demo_bus [4, 5, 6] 3" by (simp add: demo_sidecar_state_def)
  from sidecar_runs_world [OF r, of "set (events (es_bus ?s0))" demo_config False no_archive] obtain E where
    E: "set (events (es_bus ?s0)) \<subseteq> E" and w: "(sidecar_world_step reducer_opts reducer_handle demo_config False)\<^sup>*\<^sup>*
       (demo_sidecar, ?s0, no_archive, set (events (es_bus ?s0))) (k, s, no_archive, E)" by blast
  have x: "?x \<in> E" "3 < ev_id ?x" "ev_id ?x = 6" using E by (auto simp: b demo_bus_def demo_row_def)
  have m: "event_matches ''wicked.*'' ?x" by code_simp
  have st: "sound_bus (es_bus ?s0)" "attached demo_config 3 ''wicked.*'' (es_bus ?s0)" "3 \<le> events_seq (es_bus ?s0)"
    using demo_started by (simp_all add: started_def demo_system_def b)
  have cu: "sb_cursor demo_config = ''c''" by (simp add: demo_config_def)
  note T = sidecars_miss_nothing [where handle = reducer_handle and cfg = demo_config, unfolded cu, OF disjI1 [OF refl] demo_resumed st w x(1,2) m]
  then obtain p where p: "cursor_position (es_bus s) ''c'' = Some p"
     "((\<exists>key. (6, key, True) \<in> set (sc_log k)) \<or>
      (\<exists>key. (6, key, False) \<in> set (sc_log k) \<and> (was_handled (sc_state demo_sidecar) key \<or> (\<exists>i. (i, key, True) \<in> set (sc_log k)))) \<or>
      6 \<in> saved (es_bus s) no_archive \<or> (p < 6 \<and> 6 \<in> ev_id ` set (events (es_bus s))))" unfolding x(3) by blast
  show ?thesis by (intro exI [of _ k] exI [of _ s] exI [of _ E] exI [of _ ?x] exI [of _ p] conjI) (rule w x(1,3) c p)+
qed

lemma sidecar_handles_once_witness:
  "\<exists>k s E. (sidecar_world_step reducer_opts reducer_handle demo_config False)\<^sup>*\<^sup>*
       (demo_sidecar, demo_sidecar_state, no_archive, {}) (k, s, no_archive, E) \<and>
     map fst (sc_calls k) = [4, 5, 6] \<and> distinct (map snd (sc_calls k))"
proof -
  obtain k s where r: "sidecar_runs reducer_opts reducer_handle demo_inputs (demo_sidecar, demo_sidecar_state) = Some (k, s)"
    and c: "map fst (sc_calls k) = [4, 5, 6]" by (rule demo_sidecar_runs)
  from sidecar_runs_world [OF r, of "{}" demo_config False no_archive] obtain E where
    w: "(sidecar_world_step reducer_opts reducer_handle demo_config False)\<^sup>*\<^sup>*
       (demo_sidecar, demo_sidecar_state, no_archive, {}) (k, s, no_archive, E)" by blast
  have "sc_calls demo_sidecar = []" "demo_sidecar = restarted demo_sidecar"
    using demo_resumed by (simp_all add: resumed_def) (simp add: demo_sidecar_def restarted_def)
  from sidecar_handles_once [OF this w] have "distinct (map snd (sc_calls k))" by blast
  then show ?thesis by (intro exI [of _ k] exI [of _ s] exI [of _ E] conjI w c)
qed
text \<open>Killed between the call and its mark, the sidecar calls the handler with the same event again.\<close>

lemma crash_repeats_the_call:
  "\<exists>k s E. (sidecar_world_step reducer_opts reducer_handle demo_config True)\<^sup>*\<^sup>*
       (demo_sidecar, demo_sidecar_state, no_archive, {}) (k, s, no_archive, E) \<and> sc_calls k = [(4, ''4''), (4, ''4'')]"
proof -
  let ?is = "[KTick 2 True '''' '''' 0 True, KGo 0, KHandle (demo_env 1)]"
  have h: "case sidecar_runs reducer_opts reducer_handle ?is (demo_sidecar, demo_sidecar_state) of None \<Rightarrow> False
    | Some (k, s) \<Rightarrow> (case sidecar_runs reducer_opts reducer_handle ?is (restarted k, s) of None \<Rightarrow> False
        | Some (k2, s2) \<Rightarrow> sc_calls k2 = [(4, ''4''), (4, ''4'')])" by code_simp
  then obtain k s where r: "sidecar_runs reducer_opts reducer_handle ?is (demo_sidecar, demo_sidecar_state) = Some (k, s)"
    by (auto split: option.splits simp del: sidecar_runs.simps)
  note h = h [unfolded r option.case prod.case]
  then obtain k2 s2 where r2: "sidecar_runs reducer_opts reducer_handle ?is (restarted k, s) = Some (k2, s2)"
    by (auto split: option.splits simp del: sidecar_runs.simps)
  note h = h [unfolded r2 option.case prod.case]
  from sidecar_runs_world [OF r, of "{}" demo_config True no_archive] obtain E1 where
    1: "(sidecar_world_step reducer_opts reducer_handle demo_config True)\<^sup>*\<^sup>* (demo_sidecar, demo_sidecar_state, no_archive, {}) (k, s, no_archive, E1)" by blast
  from sidecar_runs_world [OF r2, of E1 demo_config True no_archive] obtain E2 where
    2: "(sidecar_world_step reducer_opts reducer_handle demo_config True)\<^sup>*\<^sup>* (restarted k, s, no_archive, E1) (k2, s2, no_archive, E2)" by blast
  have "sidecar_world_step reducer_opts reducer_handle demo_config True (k, s, no_archive, E1) (restarted k, s, no_archive, E1)"
    by (rule crash) simp
  from rtranclp.rtrancl_into_rtrancl [OF 1 this] 2 h show ?thesis by (meson rtranclp_trans)
qed

text \<open>An event whose key is a name every object inherits is never handed to the handler.\<close>

lemma inherited_key_skipped:
  assumes "ev_key e \<in> set proto_keys"
  shows "row_step handle ee e seen rest k s = (k\<lparr>sc_pc := KRow (seen @ [e]) rest, sc_log := sc_log k @ [(ev_id e, ev_key e, False)]\<rparr>, s)"
  using assms by (simp add: row_step_def was_handled_def)

end
