(* ===== verification/BusIpc.thy ===== *)
theory BusIpc
  imports BusValues
begin

text \<open>
  The wire protocol of the push daemon, \<open>lib/ipc-protocol.js\<close>: frames as JSON objects, one per
  line, their factories, and the incremental parser, whose chunks are strings or Buffers. Proved: how
  a text is cut into strings, or between characters into Buffers, makes no difference, and a stream of
  encoded frames is parsed back into exactly those frames.
\<close>

section \<open>Frames\<close>

datatype frame_kind = HELLO | NOTIFY | ACK | PING | PONG | DEGRADE | PRODUCED

fun FRAME_KIND :: "frame_kind \<Rightarrow> string" where
  "FRAME_KIND HELLO = ''hello''"
| "FRAME_KIND NOTIFY = ''notify''"
| "FRAME_KIND ACK = ''ack''"
| "FRAME_KIND PING = ''ping''"
| "FRAME_KIND PONG = ''pong''"
| "FRAME_KIND DEGRADE = ''degrade''"
| "FRAME_KIND PRODUCED = ''produced''"

datatype degrade_reason = QUEUE_FULL | WRITE_TIMEOUT | DAEMON_SHUTDOWN

fun DEGRADE_REASONS :: "degrade_reason \<Rightarrow> string" where
  "DEGRADE_REASONS QUEUE_FULL = ''queue-full''"
| "DEGRADE_REASONS WRITE_TIMEOUT = ''write-timeout''"
| "DEGRADE_REASONS DAEMON_SHUTDOWN = ''daemon-shutdown''"

text \<open>\<open>Object.values(FRAME_KIND).includes(v)\<close>, with the kind it names.\<close>

definition known_kind :: "jsval \<Rightarrow> frame_kind option" where
  "known_kind v = find (\<lambda>k. v = JStr (FRAME_KIND k)) [HELLO, NOTIFY, ACK, PING, PONG, DEGRADE, PRODUCED]"

definition NL :: char where "NL = CHR 0x0A"

definition is_object :: "jsval \<Rightarrow> bool" where
  "is_object v \<longleftrightarrow> truthy v \<and> typeof v = ''object''"

definition encodeFrame :: "host \<Rightarrow> jsval \<Rightarrow> string res" where
  "encodeFrame h frame =
     (if \<not> is_object frame then Inl (PlainError ''encodeFrame requires an object'')
      else if \<not> truthy (jget frame ''kind'') \<or> known_kind (jget frame ''kind'') = None
      then Inl (PlainError ''encodeFrame: unknown kind'')
      else Inr (h_stringify h frame @ [NL]))"

section \<open>The parser\<close>

definition good_frame :: "jsval \<Rightarrow> bool" where
  "good_frame v \<longleftrightarrow> is_object v \<and> truthy (jget v ''kind'')"

lemma split_at_char_shorter: "split_at_char c s = (l, Some r) \<Longrightarrow> length r < length s"
  using split_at_char_Some [of c s r] by (metis fst_conv snd_conv length_append length_Cons less_add_Suc2 add_Suc_right)

text \<open>
  The loop of \<open>feed\<close> on the buffered text: the frames yielded, the error that ends it, and what stays in
  the buffer. Every caller reads the generator to its end.
\<close>

function parse_lines :: "host \<Rightarrow> string \<Rightarrow> jsval list \<times> js_error option \<times> string" where
  "parse_lines h buf =
     (case split_at_char NL buf of
        (_, None) \<Rightarrow> ([], None, buf)
      | (line, Some rest) \<Rightarrow>
          if line = [] then parse_lines h rest
          else (case h_parse h line of
                  None \<Rightarrow> ([], Some (PlainError ''malformed frame (invalid JSON)''), rest)
                | Some v \<Rightarrow>
                    if \<not> good_frame v then ([], Some (PlainError ''malformed frame (missing kind)''), rest)
                    else (let (vs, e, b) = parse_lines h rest in (v # vs, e, b))))"
  by pat_completeness auto

termination by (relation "measure (\<lambda>(h, b). length b)") (auto dest: split_at_char_shorter [OF sym])

declare parse_lines.simps [simp del]

definition feed :: "host \<Rightarrow> string \<Rightarrow> string \<Rightarrow> jsval list \<times> js_error option \<times> string" where
  "feed h buf chunk = parse_lines h (buf @ chunk)"

definition hasPending :: "string \<Rightarrow> bool" where
  "hasPending buf \<longleftrightarrow> buf \<noteq> []"

text \<open>A connection: chunk after chunk until one fails.\<close>

fun feed_all :: "host \<Rightarrow> string \<Rightarrow> string list \<Rightarrow> jsval list \<times> js_error option \<times> string" where
  "feed_all h buf [] = ([], None, buf)"
| "feed_all h buf (c # cs) =
     (case feed h buf c of
        (vs, Some e, b) \<Rightarrow> (vs, Some e, b)
      | (vs, None, b) \<Rightarrow> (let (ws, e, b') = feed_all h b cs in (vs @ ws, e, b')))"

text \<open>
  A chunk is a string, or a Buffer, which is decoded on its own: \<open>dec\<close> stands for
  \<open>chunk.toString('utf8')\<close>. Both ends of the socket call \<open>setEncoding('utf8')\<close>, so that the daemon
  and its client feed strings only.
\<close>

datatype chunk = Text string | Bytes string

definition chunk_text :: "(string \<Rightarrow> string) \<Rightarrow> chunk \<Rightarrow> string" where
  "chunk_text dec c = (case c of Text s \<Rightarrow> s | Bytes b \<Rightarrow> dec b)"

definition feed_chunk :: "host \<Rightarrow> (string \<Rightarrow> string) \<Rightarrow> string \<Rightarrow> chunk \<Rightarrow> jsval list \<times> js_error option \<times> string" where
  "feed_chunk h dec buf c = feed h buf (chunk_text dec c)"

fun feed_chunks :: "host \<Rightarrow> (string \<Rightarrow> string) \<Rightarrow> string \<Rightarrow> chunk list \<Rightarrow> jsval list \<times> js_error option \<times> string" where
  "feed_chunks h dec buf [] = ([], None, buf)"
| "feed_chunks h dec buf (c # cs) =
     (case feed_chunk h dec buf c of
        (vs, Some e, b) \<Rightarrow> (vs, Some e, b)
      | (vs, None, b) \<Rightarrow> (let (ws, e, b') = feed_chunks h dec b cs in (vs @ ws, e, b')))"

section \<open>Factories\<close>

definition helloFrame :: "jsval \<Rightarrow> jsval \<Rightarrow> jsval \<Rightarrow> jsval" where
  "helloFrame subscriber_id cursor filter_spec = JObj [(''kind'', JStr (FRAME_KIND HELLO)),
     (''subscriber_id'', subscriber_id), (''cursor'', cursor),
     (''filter'', if filter_spec = JUndef then JNull else filter_spec)]"

definition notifyFrame :: "jsval \<Rightarrow> jsval \<Rightarrow> jsval" where
  "notifyFrame event_id event = JObj [(''kind'', JStr (FRAME_KIND NOTIFY)), (''event_id'', event_id),
     (''event'', if event = JUndef then JNull else event)]"

definition ackFrame :: "jsval \<Rightarrow> jsval" where
  "ackFrame event_id = JObj [(''kind'', JStr (FRAME_KIND ACK)), (''event_id'', event_id)]"

definition pingFrame :: jsval where "pingFrame = JObj [(''kind'', JStr (FRAME_KIND PING))]"

definition pongFrame :: jsval where "pongFrame = JObj [(''kind'', JStr (FRAME_KIND PONG))]"

definition degradeFrame :: "jsval \<Rightarrow> jsval res" where
  "degradeFrame reason =
     (if reason \<in> JStr ` DEGRADE_REASONS ` {QUEUE_FULL, WRITE_TIMEOUT, DAEMON_SHUTDOWN}
      then Inr (JObj [(''kind'', JStr (FRAME_KIND DEGRADE)), (''reason'', reason)])
      else Inl (PlainError ''degradeFrame: unknown reason''))"

definition producedFrame :: "jsval \<Rightarrow> jsval res" where
  "producedFrame event =
     (if \<not> truthy event \<or> typeof (jget event ''event_id'') \<noteq> ''number''
      then Inl (PlainError ''producedFrame requires event with numeric event_id'')
      else Inr (JObj [(''kind'', JStr (FRAME_KIND PRODUCED)), (''event'', event)]))"

definition encodedNotifySize :: "host \<Rightarrow> jsval \<Rightarrow> nat" where
  "encodedNotifySize h eventRow = utf8_length (h_stringify h (notifyFrame (jget eventRow ''event_id'') eventRow))"

section \<open>Parsing is independent of the chunks\<close>

lemma split_at_char_step:
  "split_at_char c [] = ([], None)"
  "split_at_char c (a # s) = (if a = c then ([], Some s) else (a # fst (split_at_char c s), snd (split_at_char c s)))"
  by (simp_all add: split_at_char_def)

lemma split_at_char_append: "split_at_char c s = (l, Some r) \<Longrightarrow> split_at_char c (s @ t) = (l, Some (r @ t))"
  by (induction s arbitrary: l) (auto simp: split_at_char_step prod_eq_iff split: if_splits)

lemma split_at_char_absent: "snd (split_at_char c s) = None \<longleftrightarrow> c \<notin> set s"
  by (induction s) (auto simp: split_at_char_step)

lemma split_at_char_none: "c \<notin> set s \<Longrightarrow> split_at_char c s = (s, None)"
  by (induction s) (auto simp: split_at_char_step)

lemma split_at_char_first: "c \<notin> set s \<Longrightarrow> split_at_char c (s @ c # t) = (s, Some t)"
  by (induction s) (auto simp: split_at_char_step)

text \<open>Text that arrives later is read after what was complete, and not at all after an error.\<close>

lemma parse_lines_append:
  "parse_lines h s = (vs, e, b) \<Longrightarrow>
   parse_lines h (s @ t) = (case e of Some x \<Rightarrow> (vs, Some x, b @ t)
     | None \<Rightarrow> (let (ws, e', b') = parse_lines h (b @ t) in (vs @ ws, e', b')))"
proof (induction h s arbitrary: vs e b rule: parse_lines.induct)
  case (1 h s)
  obtain l r where sp: "split_at_char NL s = (l, r)" by fastforce
  show ?case
  proof (cases r)
    case None
    with sp "1.prems" have "vs = [] \<and> e = None \<and> b = s" by (subst (asm) parse_lines.simps) simp
    then show ?thesis by simp
  next
    case (Some rest)
    note sp' = sp [unfolded Some]
    note app = split_at_char_append [OF sp']
    show ?thesis
    proof (cases "l = []")
      case True
      with sp' "1.prems" have p: "parse_lines h rest = (vs, e, b)" by (subst (asm) parse_lines.simps) simp
      have "parse_lines h (s @ t) = parse_lines h (rest @ t)" using app True by (subst parse_lines.simps) simp
      then show ?thesis using "1.IH"(1) [OF sp' [symmetric] refl True p] by simp
    next
      case False
      show ?thesis
      proof (cases "h_parse h l")
        case None
        with sp' False "1.prems" app show ?thesis by (subst parse_lines.simps, subst (asm) parse_lines.simps) auto
      next
        case (Some v)
        show ?thesis
        proof (cases "good_frame v")
          case bad: False
          with sp' False Some "1.prems" app show ?thesis by (subst parse_lines.simps, subst (asm) parse_lines.simps) auto
        next
          case True
          obtain us where p: "parse_lines h rest = (us, e, b)" and vs: "vs = v # us"
            using sp' False Some True "1.prems" by (subst (asm) parse_lines.simps) (auto split: prod.splits)
          have s: "parse_lines h (s @ t) = (let (ws, e', b') = parse_lines h (rest @ t) in (v # ws, e', b'))"
            using app False Some True by (subst parse_lines.simps) simp
          have "\<not> \<not> good_frame v" using True by simp
          from "1.IH"(2) [OF sp' [symmetric] refl False Some this p]
          show ?thesis unfolding s vs by (auto split: option.splits prod.splits)
        qed
      qed
    qed
  qed
qed

lemma parse_lines_rest: "parse_lines h s = (us, None, b) \<Longrightarrow> NL \<notin> set b"
proof (induction h s arbitrary: us rule: parse_lines.induct)
  case (1 h s)
  obtain l r where sp: "split_at_char NL s = (l, r)" by fastforce
  show ?case
  proof (cases r)
    case None
    with sp "1.prems" split_at_char_absent [of NL s] show ?thesis by (subst (asm) parse_lines.simps) auto
  next
    case (Some rest)
    note sp' = sp [unfolded Some]
    show ?thesis
    proof (cases "l = []")
      case True
      with sp' "1.prems" "1.IH"(1) [OF sp' [symmetric] refl True] show ?thesis by (subst (asm) parse_lines.simps) auto
    next
      case False
      with sp' "1.prems" obtain v where v: "h_parse h l = Some v" "good_frame v"
        by (subst (asm) parse_lines.simps) (auto split: option.splits if_splits)
      have "\<not> \<not> good_frame v" using v(2) by simp
      note ih = "1.IH"(2) [OF sp' [symmetric] refl False v(1) this]
      from sp' False v "1.prems" obtain ws where "parse_lines h rest = (ws, None, b)"
        by (subst (asm) parse_lines.simps) (auto split: prod.splits)
      then show ?thesis by (rule ih)
    qed
  qed
qed

lemma feed_all_concat:
  "feed_all h buf cs = (vs, e, b) \<Longrightarrow> NL \<notin> set buf \<Longrightarrow>
   \<exists>b'. parse_lines h (buf @ concat cs) = (vs, e, b') \<and> (e = None \<longrightarrow> b' = b)"
proof (induction cs arbitrary: buf vs e b)
  case Nil
  then show ?case by (subst parse_lines.simps) (simp add: split_at_char_none)
next
  case (Cons c cs)
  obtain us x b1 where f: "parse_lines h (buf @ c) = (us, x, b1)" by (cases "parse_lines h (buf @ c)")
  note app = parse_lines_append [OF f, of "concat cs"]
  show ?case
  proof (cases x)
    case (Some err)
    with Cons.prems(1) f have "vs = us" "e = Some err" by (simp_all add: feed_def)
    then show ?thesis using app Some by simp
  next
    case None
    with Cons.prems(1) f obtain ws where r: "feed_all h b1 cs = (ws, e, b)" "vs = us @ ws"
      by (auto simp: feed_def split: prod.splits)
    from Cons.IH [OF r(1) parse_lines_rest [OF f [unfolded None]]] obtain b' where
      "parse_lines h (b1 @ concat cs) = (ws, e, b')" "e = None \<longrightarrow> b' = b" by blast
    then show ?thesis using app None r(2) by simp
  qed
qed

section \<open>Encoded frames come back\<close>

text \<open>\<open>JSON.parse\<close> inverts \<open>JSON.stringify\<close> on the frame, whose text has no raw line break.\<close>

definition json_ok :: "host \<Rightarrow> jsval \<Rightarrow> bool" where
  "json_ok h v \<longleftrightarrow> h_parse h (h_stringify h v) = Some v \<and> NL \<notin> set (h_stringify h v) \<and> h_stringify h v \<noteq> []"

lemma encodeFrame_Inr:
  "encodeFrame h f = Inr l \<longleftrightarrow> is_object f \<and> (\<exists>k. jget f ''kind'' = JStr (FRAME_KIND k)) \<and> l = h_stringify h f @ [NL]"
proof -
  have k: "known_kind v \<noteq> None \<longleftrightarrow> (\<exists>k. v = JStr (FRAME_KIND k))" for v
  proof -
    have "k \<in> set [HELLO, NOTIFY, ACK, PING, PONG, DEGRADE, PRODUCED]" for k by (cases k) simp_all
    then show ?thesis unfolding known_kind_def find_None_iff by blast
  qed
  have t: "truthy (JStr (FRAME_KIND k))" for k by (cases k) simp_all
  show ?thesis unfolding encodeFrame_def using k [of "jget f ''kind''"] t by auto
qed

lemma encoded_good: "encodeFrame h f = Inr l \<Longrightarrow> good_frame f"
proof -
  assume "encodeFrame h f = Inr l"
  then obtain k where "is_object f" "jget f ''kind'' = JStr (FRAME_KIND k)" by (auto simp: encodeFrame_Inr)
  then show "good_frame f" by (cases k) (simp_all add: good_frame_def)
qed

lemma parse_encoded:
  assumes "encodeFrame h f = Inr l" and "json_ok h f"
  shows "parse_lines h (l @ t) = (let (vs, e, b) = parse_lines h t in (f # vs, e, b))"
proof -
  have l: "l @ t = h_stringify h f @ NL # t" using assms(1) by (simp add: encodeFrame_Inr)
  have "split_at_char NL (h_stringify h f @ NL # t) = (h_stringify h f, Some t)"
    using assms(2) by (simp add: json_ok_def split_at_char_first)
  then show ?thesis using assms encoded_good [OF assms(1)] unfolding l
    by (subst parse_lines.simps) (simp add: json_ok_def)
qed

lemma parse_stream:
  "list_all2 (\<lambda>f l. encodeFrame h f = Inr l \<and> json_ok h f) fs ls \<Longrightarrow> parse_lines h (concat ls) = (fs, None, [])"
proof (induction fs ls rule: list_all2_induct)
  case Nil
  then show ?case by (subst parse_lines.simps) (simp add: split_at_char_def)
next
  case (Cons f fs l ls)
  then show ?case using parse_encoded [of h f l "concat ls"] by simp
qed

lemma feed_all_total: "\<exists>vs e b. feed_all h buf cs = (vs, e, b)"
  by (cases "feed_all h buf cs") blast

section \<open>Properties\<close>

text \<open>C19: The parser does not depend on how a text is cut: feeding the pieces one after the other, each as a
  string or as the Buffer of its UTF-8 bytes (so that no Buffer ends inside a character), yields the
  same frames, and the same error if there is one, as parsing the whole text, and without an error the
  same text stays buffered; only a partial line ever stays. What is used of \<open>Buffer.toString\<close> is that
  it inverts the encoding; a Buffer that ends inside a character is decoded to other text.\<close>

theorem parser_chunking:
  assumes "\<And>s. dec (utf8_encode s) = s"
    and "list_all2 (\<lambda>c s. c = Text s \<or> c = Bytes (utf8_encode s)) cs ss"
  shows "case feed_chunks h dec [] cs of (vs, e, b) \<Rightarrow> (case parse_lines h (concat ss) of (vs', e', b') \<Rightarrow>
     vs' = vs \<and> e' = e \<and> (e \<noteq> None \<or> b' = b \<and> NL \<notin> set b))"
proof -
  have eq: "feed_chunks h dec buf cs = feed_all h buf ss" for buf
    using assms(2) by (induction arbitrary: buf rule: list_all2_induct)
      (auto simp: feed_chunk_def chunk_text_def assms(1) split: prod.splits option.splits)
  obtain vs e b where f: "feed_all h [] ss = (vs, e, b)" using feed_all_total by blast
  from feed_all_concat [OF f] obtain b' where p: "parse_lines h (concat ss) = (vs, e, b')" "e = None \<longrightarrow> b' = b" by auto
  with f parse_lines_rest [of h "concat ss" vs b'] show ?thesis unfolding eq by auto
qed

text \<open>C34: Frames survive the wire: the lines \<open>encodeFrame\<close> makes of a list of frames, sent as one stream
  and received in any chunks, are parsed back into exactly these frames, in order, with nothing left
  over, as long as \<open>JSON.parse\<close> inverts \<open>JSON.stringify\<close> on them and its text has no line break.\<close>

theorem frames_roundtrip:
  assumes "list_all2 (\<lambda>f l. encodeFrame h f = Inr l \<and> h_parse h (h_stringify h f) = Some f \<and>
      NL \<notin> set (h_stringify h f) \<and> h_stringify h f \<noteq> []) fs ls" and "concat cs = concat ls"
  shows "feed_all h [] cs = (fs, None, [])"
proof -
  from assms(1) have "list_all2 (\<lambda>f l. encodeFrame h f = Inr l \<and> json_ok h f) fs ls"
    by (rule list_all2_mono) (simp add: json_ok_def)
  then have p: "parse_lines h (concat cs) = (fs, None, [])" unfolding assms(2) by (rule parse_stream)
  obtain vs e b where f: "feed_all h [] cs = (vs, e, b)" using feed_all_total by blast
  with feed_all_concat [OF f] p show ?thesis by auto
qed

text \<open>A concrete codec for frames that carry only their kind.\<close>

definition kind_host :: host where
  "kind_host = \<lparr>h_parse = (\<lambda>s. Some (JObj [(''kind'', JStr s)])), h_stringify = (\<lambda>v. case jget v ''kind'' of JStr s \<Rightarrow> s | _ \<Rightarrow> []),
     h_string = (\<lambda>_. []), h_number = (\<lambda>_. NaN), h_sha256 = id, h_sql_text = (\<lambda>_. []), h_sql_int = (\<lambda>_. SNull)\<rparr>"

lemma frames_roundtrip_witness:
  "feed_all kind_host [] [''pin'', ''g'' @ [NL] @ ''po'', ''ng'' @ [NL]] = ([pingFrame, pongFrame], None, [])"
  by (rule frames_roundtrip [of kind_host _ "[''ping'' @ [NL], ''pong'' @ [NL]]"])
    (simp_all add: encodeFrame_Inr kind_host_def pingFrame_def pongFrame_def is_object_def NL_def,
     metis FRAME_KIND.simps(4,5))

text \<open>A decoder of the encoded characters.\<close>

fun utf8_decode :: "string \<Rightarrow> string" where
  "utf8_decode [] = []"
| "utf8_decode (c # s) =
     (if (of_char c :: nat) < 128 then c # utf8_decode s
      else (case s of
          [] \<Rightarrow> [CHR ''?'']
        | d # t \<Rightarrow> char_of ((of_char c mod 4) * 64 + of_char d mod 64 :: nat) # utf8_decode t))"

lemma utf8_decode_encode: "utf8_decode (utf8_encode s) = s"
proof (induction s)
  case Nil
  then show ?case by (simp add: utf8_encode_def)
next
  case (Cons c s)
  have lt: "(of_char c :: nat) < 256" by simp
  show ?case
  proof (cases "(of_char c :: nat) < 128")
    case True
    then have "utf8_encode (c # s) = c # utf8_encode s" by (simp add: utf8_encode_def Let_def)
    with True Cons.IH show ?thesis by simp
  next
    case False
    define n where "n = (of_char c :: nat)"
    have e: "utf8_encode (c # s) = char_of (192 + n div 64) # char_of (128 + n mod 64) # utf8_encode s"
      using False by (simp add: utf8_encode_def Let_def n_def)
    have "n < 4 * 64" using lt by (simp add: n_def)
    then have dv: "n div 64 < 4" by (rule less_mult_imp_div_less)
    have "n mod 64 < 64" by simp
    with dv have "192 + n div 64 < 256" "128 + n mod 64 < 256" by linarith+
    then have hi: "(of_char (char_of (192 + n div 64) :: char) :: nat) = 192 + n div 64"
      "(of_char (char_of (128 + n mod 64) :: char) :: nat) = 128 + n mod 64"
      by simp_all
    have "192 + n div 64 = n div 64 + 48 * 4" "128 + n mod 64 = n mod 64 + 2 * 64" by simp_all
    then have "(192 + n div 64) mod 4 = n div 64" "(128 + n mod 64) mod 64 = n mod 64"
      using dv by (simp_all only: mod_mult_self1 mod_less mod_mod_trivial)
    then have "(192 + n div 64) mod 4 * 64 + (128 + n mod 64) mod 64 = n" by simp
    then show ?thesis unfolding e using hi Cons.IH by (simp add: n_def)
  qed
qed

lemma parser_chunking_witness:
  "fst (feed_chunks kind_host utf8_decode [] [Text ''pin'', Bytes (utf8_encode (''g'' @ [NL] @ ''po''))]) =
     fst (parse_lines kind_host (''ping'' @ [NL] @ ''po''))"
proof -
  have "list_all2 (\<lambda>c s. c = Text s \<or> c = Bytes (utf8_encode s))
      [Text ''pin'', Bytes (utf8_encode (''g'' @ [NL] @ ''po''))] [''pin'', ''g'' @ [NL] @ ''po'']" by simp
  from parser_chunking [OF utf8_decode_encode this, of kind_host] show ?thesis by (simp split: prod.splits)
qed

end
