(* ===== verification/BusDaemon.thy ===== *)
theory BusDaemon
  imports BusIpc "HOL-Library.AList"
begin

text \<open>
  The push daemon, \<open>lib/daemon.js\<close>: subscriber sessions with their bounded send queue, the fan-out of
  an event, the handling of frames and connections. A socket's \<open>write\<close> is the argument \<open>ok\<close>: whether
  the n-th line written to a connection returned true; a false result is Node's back-pressure signal.
  Session objects live in \<open>dm_heap\<close> under the number of their connection, \<open>dm_all\<close> and \<open>dm_subs\<close> are
  the set and the map of the program. Subscriber ids are compared as values.
\<close>

section \<open>Configuration and sessions\<close>

record daemon_cfg =
  dc_inline_max :: rat
  dc_queue_max :: rat
  dc_watermark :: rat
  dc_degrade_ms :: rat

definition daemon_config :: "rat option \<Rightarrow> rat option \<Rightarrow> rat option \<Rightarrow> rat option \<Rightarrow> daemon_cfg" where
  "daemon_config inline_max queue_max watermark duration =
     \<lparr>dc_inline_max = (case inline_max of Some n \<Rightarrow> n | None \<Rightarrow> 16 * 1024),
      dc_queue_max = (case queue_max of Some n \<Rightarrow> n | None \<Rightarrow> 256),
      dc_watermark = (case watermark of Some q \<Rightarrow> q | None \<Rightarrow> 3 / 4),
      dc_degrade_ms = (case duration of Some q \<Rightarrow> q | None \<Rightarrow> 30000)\<rparr>"

record session =
  se_id :: jsval
  se_cursor :: jsnum
  se_filter :: jsval
  se_queue :: "string list"
  se_dropped :: nat
  se_high_since :: "rat option"
  se_last_degrade :: "rat option"
  se_closed :: bool
  se_drain_pending :: bool
  se_wire :: "string list"
  se_buf :: string

definition new_session :: session where
  "new_session = \<lparr>se_id = JNull, se_cursor = Fin 0, se_filter = JNull, se_queue = [], se_dropped = 0,
     se_high_since = None, se_last_degrade = None, se_closed = False, se_drain_pending = False, se_wire = [], se_buf = []\<rparr>"

datatype dm_event =
    SubscriberConnect jsval jsnum jsval
  | SubscriberDisconnect jsval
  | AckSeen jsval jsnum
  | QueueDrop jsval nat
  | Degraded jsval degrade_reason
  | ProtocolError
  | UnknownFrame jsval
  | ProducedSeen jsval

section \<open>The send queue\<close>

text \<open>The loop of \<open>_flush\<close>: the queue and the wire after it, and whether it stopped at a refused write.\<close>

fun flush_lines :: "(nat \<Rightarrow> bool) \<Rightarrow> string list \<Rightarrow> string list \<Rightarrow> string list \<times> string list \<times> bool" where
  "flush_lines ok [] wire = ([], wire, False)"
| "flush_lines ok (line # q) wire =
     (if ok (length wire) then flush_lines ok q (wire @ [line]) else (line # q, wire @ [line], True))"

definition flush :: "(nat \<Rightarrow> bool) \<Rightarrow> session \<Rightarrow> session" where
  "flush ok s = (if se_closed s then s
     else (let (q, w, blocked) = flush_lines ok (se_queue s) (se_wire s)
       in s\<lparr>se_queue := q, se_wire := w, se_drain_pending := se_drain_pending s \<or> blocked\<rparr>))"

definition close_session :: "session \<Rightarrow> session" where
  "close_session s = s\<lparr>se_closed := True\<rparr>"

definition degrade_session :: "host \<Rightarrow> rat \<Rightarrow> degrade_reason \<Rightarrow> session \<Rightarrow> session \<times> dm_event list" where
  "degrade_session h now reason s =
     (if se_closed s then (s, [])
      else (let line = (case degradeFrame (JStr (DEGRADE_REASONS reason)) of
                  Inr fr \<Rightarrow> (case encodeFrame h fr of Inr l \<Rightarrow> [l] | Inl _ \<Rightarrow> []) | Inl _ \<Rightarrow> [])
        in (close_session (s\<lparr>se_last_degrade := Some now, se_wire := se_wire s @ line\<rparr>), [Degraded (se_id s) reason])))"

definition check_watermark :: "host \<Rightarrow> daemon_cfg \<Rightarrow> rat \<Rightarrow> session \<Rightarrow> session \<times> dm_event list" where
  "check_watermark h cfg now s =
     (if \<lfloor>dc_queue_max cfg * dc_watermark cfg\<rfloor> \<le> int (length (se_queue s))
      then (case se_high_since s of
              None \<Rightarrow> (s\<lparr>se_high_since := Some now\<rparr>, [])
            | Some t \<Rightarrow> if dc_degrade_ms cfg \<le> now - t then degrade_session h now QUEUE_FULL s else (s, []))
      else (s\<lparr>se_high_since := None\<rparr>, []))"

definition enqueue :: "host \<Rightarrow> daemon_cfg \<Rightarrow> (nat \<Rightarrow> bool) \<Rightarrow> rat \<Rightarrow> string \<Rightarrow> session \<Rightarrow> session \<times> dm_event list" where
  "enqueue h cfg ok now line s =
     (if se_closed s then (s, [])
      else (let full = (dc_queue_max cfg \<le> of_nat (length (se_queue s)));
                s1 = (if full then s\<lparr>se_queue := tl (se_queue s), se_dropped := se_dropped s + 1\<rparr> else s);
                ev1 = (if full then [QueueDrop (se_id s) (se_dropped s1)] else []);
                (s2, ev2) = check_watermark h cfg now (s1\<lparr>se_queue := se_queue s1 @ [line]\<rparr>)
            in (flush ok s2, ev1 @ ev2)))"

definition send_frame :: "host \<Rightarrow> daemon_cfg \<Rightarrow> (nat \<Rightarrow> bool) \<Rightarrow> rat \<Rightarrow> jsval \<Rightarrow> session \<Rightarrow> session \<times> dm_event list" where
  "send_frame h cfg ok now frame s =
     (if se_closed s then (s, [])
      else (case encodeFrame h frame of Inl _ \<Rightarrow> (s, []) | Inr line \<Rightarrow> enqueue h cfg ok now line s))"

section \<open>Fan-out\<close>

definition matches_spec :: "jsval \<Rightarrow> jsval \<Rightarrow> bool" where
  "matches_spec eventRow spec =
     (if \<not> truthy spec then True
      else list_all (\<lambda>k. truthy (jget spec k) \<longrightarrow> strict_eq (jget eventRow k) (jget spec k))
        [''event_type'', ''domain'', ''subdomain''])"

record daemon =
  dm_heap :: "nat \<Rightarrow> session"
  dm_all :: "nat list"
  dm_subs :: "(jsval \<times> nat) list"
  dm_log :: "dm_event list"

definition on_session :: "nat \<Rightarrow> (session \<Rightarrow> session \<times> dm_event list) \<Rightarrow> daemon \<Rightarrow> daemon" where
  "on_session c f d = (let (s, evs) = f (dm_heap d c) in d\<lparr>dm_heap := (dm_heap d)(c := s), dm_log := dm_log d @ evs\<rparr>)"

text \<open>The event's id is at or below the session's cursor.\<close>

definition already_seen :: "host \<Rightarrow> jsval \<Rightarrow> session \<Rightarrow> bool" where
  "already_seen h eventRow s \<longleftrightarrow> num_le (js_Number h (jget eventRow ''event_id'')) (se_cursor s)"

definition notify_line :: "host \<Rightarrow> daemon_cfg \<Rightarrow> jsval \<Rightarrow> string res" where
  "notify_line h cfg eventRow = encodeFrame h (notifyFrame (jget eventRow ''event_id'')
     (if of_nat (encodedNotifySize h eventRow) \<le> dc_inline_max cfg then eventRow else JNull))"

definition broadcast :: "host \<Rightarrow> daemon_cfg \<Rightarrow> (nat \<Rightarrow> nat \<Rightarrow> bool) \<Rightarrow> rat \<Rightarrow> jsval \<Rightarrow> daemon \<Rightarrow> daemon" where
  "broadcast h cfg ok now eventRow d =
     (case notify_line h cfg eventRow of
        Inl _ \<Rightarrow> d
      | Inr line \<Rightarrow> fold (\<lambda>c. on_session c (\<lambda>s.
            if \<not> matches_spec eventRow (se_filter s) then (s, [])
            else if already_seen h eventRow s then (s, [])
            else enqueue h cfg (ok c) now line s)) (map snd (dm_subs d)) d)"

section \<open>Frames and connections\<close>

definition num_max :: "jsnum \<Rightarrow> jsnum \<Rightarrow> jsnum" where
  "num_max a b = (if a = NaN \<or> b = NaN then NaN else if num_lt a b then b else a)"

definition handle_hello :: "host \<Rightarrow> nat \<Rightarrow> jsval \<Rightarrow> daemon \<Rightarrow> daemon" where
  "handle_hello h c frame d =
     (let sid = jget frame ''subscriber_id'';
          cur = (if nullish (jget frame ''cursor'') then Fin 0 else js_Number h (jget frame ''cursor''));
          spec = (if nullish (jget frame ''filter'') then JNull else jget frame ''filter'')
      in (on_session c (\<lambda>s. (s\<lparr>se_id := sid, se_cursor := cur, se_filter := spec\<rparr>, [SubscriberConnect sid cur spec])) d)
           \<lparr>dm_subs := AList.update sid c (dm_subs d)\<rparr>)"

definition handleFrame :: "host \<Rightarrow> daemon_cfg \<Rightarrow> (nat \<Rightarrow> nat \<Rightarrow> bool) \<Rightarrow> rat \<Rightarrow> nat \<Rightarrow> jsval \<Rightarrow> daemon \<Rightarrow> daemon" where
  "handleFrame h cfg ok now c frame d =
     (case known_kind (jget frame ''kind'') of
        Some HELLO \<Rightarrow> handle_hello h c frame d
      | Some ACK \<Rightarrow>
          (case jget frame ''event_id'' of
             JNum n \<Rightarrow> on_session c (\<lambda>s. (s\<lparr>se_cursor := num_max (se_cursor s) n\<rparr>, [AckSeen (se_id s) n])) d
           | _ \<Rightarrow> d)
      | Some PING \<Rightarrow> on_session c (send_frame h cfg (ok c) now pongFrame) d
      | Some PRODUCED \<Rightarrow>
          (let ev = jget frame ''event'' in
           if truthy ev \<and> typeof (jget ev ''event_id'') = ''number''
           then (let d1 = broadcast h cfg ok now ev d in d1\<lparr>dm_log := dm_log d1 @ [ProducedSeen (jget ev ''event_id'')]\<rparr>)
           else d\<lparr>dm_log := dm_log d @ [ProtocolError]\<rparr>)
      | _ \<Rightarrow> d\<lparr>dm_log := dm_log d @ [UnknownFrame (jget frame ''kind'')]\<rparr>)"

definition on_data :: "host \<Rightarrow> daemon_cfg \<Rightarrow> (nat \<Rightarrow> nat \<Rightarrow> bool) \<Rightarrow> rat \<Rightarrow> nat \<Rightarrow> string \<Rightarrow> daemon \<Rightarrow> daemon" where
  "on_data h cfg ok now c chunk d =
     (case feed h (se_buf (dm_heap d c)) chunk of
        (frames, Some e, b) \<Rightarrow> on_session c (\<lambda>s. (close_session (s\<lparr>se_buf := b\<rparr>), [ProtocolError])) d
      | (frames, None, b) \<Rightarrow>
          fold (handleFrame h cfg ok now c) frames (on_session c (\<lambda>s. (s\<lparr>se_buf := b\<rparr>, [])) d))"

definition on_close :: "nat \<Rightarrow> daemon \<Rightarrow> daemon" where
  "on_close c d =
     (let sid = se_id (dm_heap d c);
          d1 = (if sid \<noteq> JNull then d\<lparr>dm_subs := AList.delete sid (dm_subs d)\<rparr> else d)
      in on_session c (\<lambda>s. (close_session s, [SubscriberDisconnect sid])) (d1\<lparr>dm_all := removeAll c (dm_all d1)\<rparr>))"

definition on_drain :: "(nat \<Rightarrow> bool) \<Rightarrow> session \<Rightarrow> session" where
  "on_drain ok s = (if se_drain_pending s then flush ok (s\<lparr>se_drain_pending := False\<rparr>) else s)"

definition stop_daemon :: "host \<Rightarrow> rat \<Rightarrow> daemon \<Rightarrow> daemon" where
  "stop_daemon h now d = fold (\<lambda>c. on_session c (degrade_session h now DAEMON_SHUTDOWN)) (dm_all d) d"

datatype dm_input =
    Connect nat
  | Data nat string
  | Drained nat
  | Disconnect nat
  | Broadcast jsval
  | StopDaemon

fun dm_step :: "host \<Rightarrow> daemon_cfg \<Rightarrow> (nat \<Rightarrow> nat \<Rightarrow> bool) \<Rightarrow> rat \<times> dm_input \<Rightarrow> daemon \<Rightarrow> daemon" where
  "dm_step h cfg ok (now, Connect c) d = d\<lparr>dm_heap := (dm_heap d)(c := new_session), dm_all := dm_all d @ [c]\<rparr>"
| "dm_step h cfg ok (now, Data c chunk) d = on_data h cfg ok now c chunk d"
| "dm_step h cfg ok (now, Drained c) d = on_session c (\<lambda>s. (on_drain (ok c) s, [])) d"
| "dm_step h cfg ok (now, Disconnect c) d = on_close c d"
| "dm_step h cfg ok (now, Broadcast ev) d = broadcast h cfg ok now ev d"
| "dm_step h cfg ok (now, StopDaemon) d = stop_daemon h now d"

definition dm_run :: "host \<Rightarrow> daemon_cfg \<Rightarrow> (nat \<Rightarrow> nat \<Rightarrow> bool) \<Rightarrow> (rat \<times> dm_input) list \<Rightarrow> daemon \<Rightarrow> daemon" where
  "dm_run h cfg ok ins = fold (dm_step h cfg ok) ins"

definition empty_daemon :: daemon where
  "empty_daemon = \<lparr>dm_heap = (\<lambda>_. new_session), dm_all = [], dm_subs = [], dm_log = []\<rparr>"

record session_report =
  ss_subscriber_id :: jsval
  ss_cursor :: jsnum
  ss_queue_depth :: nat
  ss_queue_max :: rat
  ss_dropped_count :: nat
  ss_last_degrade_at :: "rat option"
  ss_high_watermark_since :: "rat option"

definition session_status :: "daemon_cfg \<Rightarrow> session \<Rightarrow> session_report" where
  "session_status cfg s = \<lparr>ss_subscriber_id = se_id s, ss_cursor = se_cursor s, ss_queue_depth = length (se_queue s),
     ss_queue_max = dc_queue_max cfg, ss_dropped_count = se_dropped s, ss_last_degrade_at = se_last_degrade s,
     ss_high_watermark_since = se_high_since s\<rparr>"

definition daemon_status :: "daemon_cfg \<Rightarrow> daemon \<Rightarrow> session_report list \<times> nat" where
  "daemon_status cfg d = (map (\<lambda>(k, c). session_status cfg (dm_heap d c)) (dm_subs d), length (dm_subs d))"

section \<open>What every operation does to a session\<close>

locale session_step =
  fixes h :: host and cfg :: daemon_cfg and R :: "session \<Rightarrow> session \<Rightarrow> bool"
  assumes refl: "R s s" and trans: "R s t \<Longrightarrow> R t u \<Longrightarrow> R s u"
    and hello: "R s (s\<lparr>se_id := i, se_cursor := q, se_filter := spec\<rparr>)"
    and cursor: "R s (s\<lparr>se_cursor := q\<rparr>)"
    and buf: "R s (s\<lparr>se_buf := b\<rparr>)"
    and close: "R s (close_session s)"
    and enq: "R s (fst (enqueue h cfg ok now line s))"
    and degr: "R s (fst (degrade_session h now reason s))"
    and drain: "R s (on_drain ok s)"
begin

text \<open>What holds of each operation holds of every input of the daemon, for every session not replaced.\<close>

lemma at_session: "(\<And>s. R s (fst (f s))) \<Longrightarrow> R (dm_heap d c) (dm_heap (on_session c' f d) c)"
  by (cases "f (dm_heap d c')") (auto simp: on_session_def refl, metis fst_conv)

lemma fold_sessions:
  "(\<And>k s. R s (fst (f k s))) \<Longrightarrow> R (dm_heap d c) (dm_heap (fold (\<lambda>k. on_session k (f k)) ks d) c)"
proof (induction ks arbitrary: d)
  case Nil
  then show ?case by (simp add: refl)
next
  case (Cons k ks)
  have "R (dm_heap d c) (dm_heap (on_session k (f k) d) c)" by (rule at_session) (rule Cons.prems)
  with Cons.IH [OF Cons.prems, of "on_session k (f k) d"] show ?case by (simp add: trans)
qed

lemma at_broadcast: "R (dm_heap d c) (dm_heap (broadcast h cfg ok now ev d) c)"
  unfolding broadcast_def by (cases "notify_line h cfg ev") (auto simp: refl enq intro!: fold_sessions)

lemma at_frame: "R (dm_heap d c) (dm_heap (handleFrame h cfg ok now c' frame d) c)"
proof -
  have hel: "R (dm_heap d c) (dm_heap (handle_hello h c' frame d) c)"
    unfolding handle_hello_def Let_def by (simp add: at_session hello)
  have png: "R (dm_heap d c) (dm_heap (on_session c' (send_frame h cfg (ok c') now pongFrame) d) c)"
    by (rule at_session) (auto simp: send_frame_def refl enq split: sum.split)
  have ack: "R (dm_heap d c) (dm_heap (on_session c' (\<lambda>s. (s\<lparr>se_cursor := num_max (se_cursor s) n\<rparr>, [AckSeen (se_id s) n])) d) c)" for n
    by (rule at_session) (simp add: cursor)
  show ?thesis unfolding handleFrame_def
    by (simp add: refl hel png ack at_broadcast Let_def split: option.split frame_kind.split jsval.split)
qed

lemma at_frames: "R (dm_heap d c) (dm_heap (fold (handleFrame h cfg ok now c') frames d) c)"
proof (induction frames arbitrary: d)
  case Nil
  then show ?case by (simp add: refl)
next
  case (Cons f fs)
  from trans [OF at_frame Cons.IH] show ?case by simp
qed

lemma at_data: "R (dm_heap d c) (dm_heap (on_data h cfg ok now c' chunk d) c)"
proof -
  obtain fs e b where f: "feed h (se_buf (dm_heap d c')) chunk = (fs, e, b)" by (cases "feed h (se_buf (dm_heap d c')) chunk")
  have 1: "R (dm_heap d c) (dm_heap (on_session c' (\<lambda>s. (close_session (s\<lparr>se_buf := b\<rparr>), [ProtocolError])) d) c)"
    by (rule at_session) (use trans [OF buf close] in simp)
  have 2: "R (dm_heap d c) (dm_heap (on_session c' (\<lambda>s. (s\<lparr>se_buf := b\<rparr>, [])) d) c)"
    by (rule at_session) (simp add: buf)
  show ?thesis unfolding on_data_def f using 1 trans [OF 2 at_frames] by (cases e) simp_all
qed

lemma at_close: "R (dm_heap d c) (dm_heap (on_close c' d) c)"
  unfolding on_close_def Let_def
  by (rule trans [OF _ at_session]) (simp_all add: refl close)

lemma at_step: "i \<noteq> Connect c \<Longrightarrow> R (dm_heap d c) (dm_heap (dm_step h cfg ok (now, i) d) c)"
  by (cases i) (auto simp: refl at_data at_close at_broadcast stop_daemon_def degr drain intro!: at_session fold_sessions)

lemma at_run: "\<forall>x\<in>set ins. snd x \<noteq> Connect c \<Longrightarrow> R (dm_heap d c) (dm_heap (dm_run h cfg ok ins d) c)"
proof (induction ins arbitrary: d)
  case Nil
  then show ?case by (simp add: dm_run_def refl)
next
  case (Cons x ins)
  obtain t i where x: "x = (t, i)" by (cases x)
  with Cons.prems have "R (dm_heap d c) (dm_heap (dm_step h cfg ok x d) c)" by (simp add: at_step)
  from trans [OF this Cons.IH] Cons.prems show ?case by (simp add: dm_run_def)
qed

end

section \<open>The operations on one session\<close>

lemma flush_lines_length: "length (fst (flush_lines ok q w)) \<le> length q"
  by (induction q arbitrary: w) (auto intro: le_SucI)

lemma flush_queue: "length (se_queue (flush ok s)) \<le> length (se_queue s)"
  using flush_lines_length [of ok "se_queue s" "se_wire s"]
  by (cases "flush_lines ok (se_queue s) (se_wire s)") (simp add: flush_def)

lemma flush_closed [simp]: "se_closed s \<Longrightarrow> flush ok s = s" "se_closed (flush ok s) = se_closed s"
  by (simp_all add: flush_def Let_def split: prod.split)

lemma degrade_session_sel [simp]:
  "se_queue (fst (degrade_session h now r s)) = se_queue s" "se_closed (fst (degrade_session h now r s))"
  "se_closed s \<Longrightarrow> degrade_session h now r s = (s, [])"
  by (simp_all add: degrade_session_def close_session_def Let_def)

lemma check_watermark_queue [simp]: "se_queue (fst (check_watermark h cfg now s)) = se_queue s"
  by (simp add: check_watermark_def split: option.split)

definition bound :: "daemon_cfg \<Rightarrow> nat" where
  "bound cfg = nat (max 1 \<lceil>dc_queue_max cfg\<rceil>)"

lemma enqueue_bound:
  assumes "length (se_queue s) \<le> bound cfg"
  shows "length (se_queue (fst (enqueue h cfg ok now line s))) \<le> bound cfg"
proof (cases "se_closed s")
  case True
  with assms show ?thesis by (simp add: enqueue_def)
next
  case False
  let ?s1 = "if dc_queue_max cfg \<le> of_nat (length (se_queue s)) then s\<lparr>se_queue := tl (se_queue s), se_dropped := se_dropped s + 1\<rparr> else s"
  let ?s2 = "fst (check_watermark h cfg now (?s1\<lparr>se_queue := se_queue ?s1 @ [line]\<rparr>))"
  have "fst (enqueue h cfg ok now line s) = flush ok ?s2"
    using False by (simp add: enqueue_def Let_def split: prod.split)
  moreover have "length (se_queue ?s1 @ [line]) \<le> bound cfg"
    using assms less_ceiling_iff [of "int (length (se_queue s))" "dc_queue_max cfg"]
    by (cases "se_queue s") (auto simp: bound_def not_le Suc_le_eq)
  ultimately show ?thesis using flush_queue [of ok ?s2] by simp
qed

interpretation bounded: session_step h cfg "\<lambda>s s'. length (se_queue s) \<le> bound cfg \<longrightarrow> length (se_queue s') \<le> bound cfg" for h cfg
proof (unfold_locales, goal_cases)
  case (9 s ok)
  show ?case using flush_queue [of ok "s\<lparr>se_drain_pending := False\<rparr>"] by (simp add: on_drain_def)
qed (auto simp: close_session_def intro: enqueue_bound)

interpretation silent: session_step h cfg "\<lambda>s s'. se_closed s \<longrightarrow> se_closed s' \<and> se_wire s' = se_wire s" for h cfg
  by unfold_locales (auto simp: close_session_def enqueue_def on_drain_def)

section \<open>Properties\<close>

text \<open>C20: The send queue of every connection is bounded: whatever the daemon receives, in any order, no
  queue ever holds more than \<open>subscriber_queue_max\<close> lines, rounded up when it is a fraction (one line
  if it is less than one).\<close>

theorem send_queue_bounded:
  "length (se_queue (dm_heap (dm_run h cfg ok ins empty_daemon) c)) \<le> nat (max 1 \<lceil>dc_queue_max cfg\<rceil>)"
proof -
  have step: "length (se_queue (dm_heap (dm_step h cfg ok x d) c)) \<le> bound cfg"
    if "length (se_queue (dm_heap d c)) \<le> bound cfg" for x d
  proof -
    obtain t i where x: "x = (t, i)" by (cases x)
    show ?thesis
    proof (cases "i = Connect c")
      case True
      then show ?thesis by (simp add: x new_session_def)
    next
      case False
      with bounded.at_step [OF False, where h = h and cfg = cfg and ok = ok and now = t and d = d] that
      show ?thesis by (simp add: x)
    qed
  qed
  have "length (se_queue (dm_heap (dm_run h cfg ok ins d) c)) \<le> bound cfg"
    if "length (se_queue (dm_heap d c)) \<le> bound cfg" for d
    using that step by (induction ins arbitrary: d) (simp_all add: dm_run_def)
  from this [of empty_daemon] show ?thesis by (simp add: empty_daemon_def new_session_def bound_def)
qed

text \<open>A session that was degraded or closed is never written to again: until its connection number is
  reused, no frame, broadcast, drain or shutdown adds a line to its socket.\<close>

theorem closed_session_is_silent:
  assumes "se_closed (dm_heap d c)" and "\<forall>x\<in>set ins. snd x \<noteq> Connect c"
  shows "se_closed (dm_heap (dm_run h cfg ok ins d) c) \<and> se_wire (dm_heap (dm_run h cfg ok ins d) c) = se_wire (dm_heap d c)"
  using silent.at_run [OF assms(2)] assms(1) by blast

lemma on_session_heap:
  "dm_heap (on_session k f d) c = (if c = k then fst (f (dm_heap d c)) else dm_heap d c)"
  by (simp add: on_session_def split: prod.split)

lemma fold_on_session:
  "distinct ks \<Longrightarrow> dm_heap (fold (\<lambda>k. on_session k (f k)) ks d) c =
     (if c \<in> set ks then fst (f c (dm_heap d c)) else dm_heap d c)"
  by (induction ks arbitrary: d) (auto simp: on_session_heap)

lemma enqueue_open:
  assumes "\<not> se_closed s" and "se_queue s = []" and "1 \<le> dc_queue_max cfg" and "2 \<le> \<lfloor>dc_queue_max cfg * dc_watermark cfg\<rfloor>"
  shows "fst (enqueue h cfg ok now line s) = flush ok (s\<lparr>se_queue := [line], se_high_since := None\<rparr>)"
  using assms by (simp add: enqueue_def Let_def check_watermark_def)

text \<open>C21: An event reaches exactly the subscribers it is for: on an open connection whose socket takes every
  line, with nothing queued, a broadcast writes the event's line once if the connection is registered,
  its filter admits the event and its cursor is below the id, and writes nothing otherwise. Assumed: no
  connection is registered under two ids (one that has said hello twice under different ids gets the
  line twice), the queue holds at least one line and its high-water mark at least two (else each single
  line counts as high water, and after \<open>degrade_duration_ms\<close> the subscriber is degraded instead), and
  cursor and id are numbers.\<close>

theorem broadcast_reaches_subscribers:
  assumes "notify_line h cfg ev = Inr line" and "distinct (map snd (dm_subs d))"
    and "\<not> se_closed (dm_heap d c)" and "se_queue (dm_heap d c) = []" and "\<forall>n. ok c n"
    and "1 \<le> dc_queue_max cfg" and "2 \<le> \<lfloor>dc_queue_max cfg * dc_watermark cfg\<rfloor>"
    and "se_cursor (dm_heap d c) \<noteq> NaN" and "js_Number h (jget ev ''event_id'') \<noteq> NaN"
  shows "se_wire (dm_heap (broadcast h cfg ok now ev d) c) = se_wire (dm_heap d c) @
      (if c \<in> snd ` set (dm_subs d) \<and> matches_spec ev (se_filter (dm_heap d c)) \<and>
          num_lt (se_cursor (dm_heap d c)) (js_Number h (jget ev ''event_id'')) then [line] else [])"
proof -
  have seen: "already_seen h ev (dm_heap d c) \<longleftrightarrow> \<not> num_lt (se_cursor (dm_heap d c)) (js_Number h (jget ev ''event_id''))"
    using assms(8,9) unfolding already_seen_def
    by (cases "js_Number h (jget ev ''event_id'')"; cases "se_cursor (dm_heap d c)") (auto simp: num_le_def)
  let ?s = "dm_heap d c"
  have w: "se_wire (fst (enqueue h cfg (ok c) now line ?s)) = se_wire ?s @ [line]"
    unfolding enqueue_open [OF assms(3,4,6,7)] using assms(3,5) by (simp add: flush_def)
  have "dm_heap (broadcast h cfg ok now ev d) c = (if c \<in> snd ` set (dm_subs d) then
      fst (if \<not> matches_spec ev (se_filter ?s) then (?s, []) else if already_seen h ev ?s then (?s, [])
        else enqueue h cfg (ok c) now line ?s) else ?s)"
    unfolding broadcast_def assms(1) using fold_on_session [OF assms(2)] by simp
  then show ?thesis using w seen by simp
qed

text \<open>Back-pressure duplicates lines: when the socket signals back-pressure on a line it has taken, and
  then drains, the line is written a second time, so the subscriber receives the event twice.\<close>

theorem backpressure_resends_line:
  assumes "\<not> se_closed s" and "se_queue s = []" and "1 \<le> dc_queue_max cfg"
    and "2 \<le> \<lfloor>dc_queue_max cfg * dc_watermark cfg\<rfloor>"
    and "\<not> ok (length (se_wire s))" and "ok (length (se_wire s) + 1)"
  shows "se_wire (on_drain ok (fst (enqueue h cfg ok now line s))) = se_wire s @ [line, line]"
  unfolding enqueue_open [OF assms(1-4)] using assms by (simp add: on_drain_def flush_def Let_def)

text \<open>A reconnect can silence a subscriber: when a subscriber has connected again under its id and the old
  connection closes afterwards, the new connection is dropped from the fan-out, although it is open, and
  receives no event any more.\<close>

theorem reconnect_loses_registration:
  assumes "map_of (dm_subs d) sid = Some new" and "se_id (dm_heap d old) = sid" and "sid \<noteq> JNull" and "old \<noteq> new"
    and "distinct (map fst (dm_subs d))" and "distinct (map snd (dm_subs d))"
  shows "dm_heap (broadcast h cfg ok now ev (on_close old d)) new = dm_heap d new"
proof -
  have subs: "dm_subs (on_close old d) = AList.delete sid (dm_subs d)"
    using assms(2,3) by (simp add: on_close_def on_session_def Let_def)
  have "new \<notin> snd ` set (AList.delete sid (dm_subs d))"
  proof
    assume "new \<in> snd ` set (AList.delete sid (dm_subs d))"
    then obtain k where "(k, new) \<in> set (dm_subs d)" "k \<noteq> sid" by (auto simp: AList.delete_eq)
    moreover have "(sid, new) \<in> set (dm_subs d)" using assms(1) by (rule map_of_SomeD)
    moreover have "inj_on snd (set (dm_subs d))" using assms(6) by (simp add: distinct_map)
    ultimately show False using inj_onD [of snd _ "(k, new)" "(sid, new)"] by auto
  qed
  moreover have "distinct (map snd (AList.delete sid (dm_subs d)))"
    using assms(6) by (simp add: AList.delete_eq distinct_map_filter)
  ultimately have "dm_heap (broadcast h cfg ok now ev (on_close old d)) new = dm_heap (on_close old d) new"
    unfolding broadcast_def subs by (simp add: fold_on_session split: sum.split)
  also have "\<dots> = dm_heap d new" using assms(4) by (simp add: on_close_def on_session_heap Let_def)
  finally show ?thesis .
qed

section \<open>Examples\<close>

definition small_cfg :: daemon_cfg where
  "small_cfg = daemon_config None None None None"

lemma small_cfg_sel [simp]:
  "dc_queue_max small_cfg = 256" "dc_watermark small_cfg = 3 / 4" "\<lfloor>dc_queue_max small_cfg * dc_watermark small_cfg\<rfloor> = 192"
  by (simp_all add: small_cfg_def daemon_config_def)

definition demo_daemon :: daemon where
  "demo_daemon = handle_hello kind_host 2 (helloFrame (JStr ''x'') (jint 4) JNull)
     (handle_hello kind_host 1 (helloFrame (JStr ''x'') (jint 4) JNull) empty_daemon)"

lemma demo_daemon_sel [simp]:
  "dm_subs demo_daemon = [(JStr ''x'', 2)]" "se_id (dm_heap demo_daemon (Suc 0)) = JStr ''x''"
  "se_queue (dm_heap demo_daemon c) = []" "se_wire (dm_heap demo_daemon c) = []" "\<not> se_closed (dm_heap demo_daemon c)"
  "se_filter (dm_heap demo_daemon 2) = JNull" "se_cursor (dm_heap demo_daemon 2) = Fin 4"
  by (simp_all add: demo_daemon_def handle_hello_def helloFrame_def empty_daemon_def new_session_def on_session_def
      js_Number_def Let_def)

definition demo_produced :: jsval where
  "demo_produced = JObj [(''event_id'', jint 5), (''event_type'', JStr ''wicked.a'')]"

lemma demo_line: "notify_line kind_host small_cfg demo_produced = Inr (''notify'' @ [NL])"
  by (simp add: notify_line_def encodeFrame_Inr kind_host_def notifyFrame_def is_object_def)
    (metis FRAME_KIND.simps(2))

lemma closed_session_is_silent_witness:
  "se_wire (dm_heap (dm_run kind_host small_cfg (\<lambda>c n. True) [(0, Broadcast demo_produced)] (on_close 2 demo_daemon)) 2) = []"
proof -
  have c: "se_closed (dm_heap (on_close 2 demo_daemon) 2)" by (simp add: on_close_def on_session_heap Let_def close_session_def)
  have w: "se_wire (dm_heap (on_close 2 demo_daemon) 2) = []" by (simp add: on_close_def on_session_heap Let_def close_session_def)
  from closed_session_is_silent [OF c, of "[(0, Broadcast demo_produced)]"] w show ?thesis by simp
qed

lemma broadcast_reaches_subscribers_witness:
  "se_wire (dm_heap (broadcast kind_host small_cfg (\<lambda>c n. True) 0 demo_produced demo_daemon) 2) = [''notify'' @ [NL]]"
  using broadcast_reaches_subscribers [OF demo_line, of demo_daemon 2 "\<lambda>c n. True" 0]
  by (simp add: matches_spec_def js_Number_def demo_produced_def)

lemma backpressure_resends_line_witness:
  "se_wire (on_drain (\<lambda>n. n \<noteq> 0) (fst (enqueue kind_host small_cfg (\<lambda>n. n \<noteq> 0) 0 ''line'' new_session))) = [''line'', ''line'']"
  using backpressure_resends_line [of new_session small_cfg "\<lambda>n. n \<noteq> 0" kind_host 0 "''line''"] by (simp add: new_session_def)

lemma reconnect_loses_registration_witness:
  "se_wire (dm_heap (broadcast kind_host small_cfg (\<lambda>c n. True) 0 demo_produced (on_close 1 demo_daemon)) 2) = []"
  using reconnect_loses_registration [of demo_daemon "JStr ''x''" 2 1 kind_host small_cfg "\<lambda>c n. True" 0 demo_produced] by simp

end
