(* ===== verification/BusPush.thy ===== *)
theory BusPush
  imports BusDaemon BusPoll
begin

text \<open>
  The consumer side of push delivery: the producer's one-shot notification (\<open>lib/daemon-notify.js\<close>),
  the daemon client (\<open>lib/daemon-client.js\<close>) and the iterable that streams from the daemon and falls back
  to polling (\<open>lib/subscribe-push-or-poll.js\<close>), as a step function between the points where it awaits
  or yields, with statements that fail. Proved: the cursor is on an event when the event is yielded unless
  the acknowledgement failed, which is swallowed; polling never hands out an acknowledged event again,
  whatever crashes; and two ways in which push mode breaks the promises of its comments.
\<close>

section \<open>notifyEmit\<close>

text \<open>How the connection went: an error has a code, or none. The result is what the promise resolves to, with
  the line handed to the socket.\<close>

datatype notify_outcome = ConnectTimeout | WriteTimeout | Sent | ConnectError string | WriteError string

datatype notify_result = Delivered | NotDelivered string

definition notifyEmit :: "host \<Rightarrow> jsval \<Rightarrow> notify_outcome \<Rightarrow> notify_result \<times> string option" where
  "notifyEmit h eventRow out =
     (case producedFrame eventRow of
        Inl _ \<Rightarrow> (NotDelivered ''invalid-event'', None)
      | Inr frame \<Rightarrow>
          (case encodeFrame h frame of
             Inl _ \<Rightarrow> (NotDelivered ''invalid-event'', None)
           | Inr line \<Rightarrow>
               (case out of
                  ConnectTimeout \<Rightarrow> (NotDelivered ''connect-timeout'', None)
                | WriteTimeout \<Rightarrow> (NotDelivered ''write-timeout'', Some line)
                | Sent \<Rightarrow> (Delivered, Some line)
                | ConnectError code \<Rightarrow> (NotDelivered (if code = [] then ''error'' else code), None)
                | WriteError code \<Rightarrow> (NotDelivered (if code = [] then ''error'' else code), Some line))))"

section \<open>The client\<close>

text \<open>\<open>cl_waiting\<close>: the iterator awaits a frame; \<open>cl_handoff\<close>: what its promise was resolved with.\<close>

datatype end_state = EndProtocolError | EndDegraded jsval | EndEof | EndCallerClose | EndSocketError

record client =
  cl_inbox :: "jsval list"
  cl_waiting :: bool
  cl_handoff :: "jsval option option"
  cl_degraded :: "jsval option"
  cl_closed :: bool
  cl_last :: "end_state option"
  cl_buf :: string
  cl_out :: "string list"
  cl_ping :: bool

definition line_of :: "host \<Rightarrow> jsval \<Rightarrow> string list" where
  "line_of h frame = (case encodeFrame h frame of Inr l \<Rightarrow> [l] | Inl _ \<Rightarrow> [])"

definition connectAsSubscriber :: "host \<Rightarrow> jsval \<Rightarrow> jsval \<Rightarrow> jsval \<Rightarrow> bool \<Rightarrow> client res" where
  "connectAsSubscriber h subscriber_id cursor filter_spec reached =
     (if \<not> truthy subscriber_id then Inl (PlainError ''connectAsSubscriber requires opts.subscriber_id'')
      else if \<not> reached then Inl (PlainError ''daemon connect timeout'')
      else Inr \<lparr>cl_inbox = [], cl_waiting = False, cl_handoff = None, cl_degraded = None, cl_closed = False, cl_last = None,
      cl_buf = [], cl_out = line_of h (helloFrame subscriber_id (if nullish cursor then jint 0 else cursor)
          (if nullish filter_spec then JNull else filter_spec)), cl_ping = False\<rparr>)"

definition deliver :: "jsval \<Rightarrow> client \<Rightarrow> client" where
  "deliver frame c = (if cl_waiting c then c\<lparr>cl_waiting := False, cl_handoff := Some (Some frame)\<rparr>
     else c\<lparr>cl_inbox := cl_inbox c @ [frame]\<rparr>)"

definition endIterator :: "end_state \<Rightarrow> client \<Rightarrow> client" where
  "endIterator st c = (if cl_closed c then c
     else (let c1 = c\<lparr>cl_closed := True, cl_last := Some st\<rparr>
       in if cl_waiting c then c1\<lparr>cl_waiting := False, cl_handoff := Some None\<rparr> else c1))"

definition client_frame :: "jsval \<Rightarrow> client \<Rightarrow> client" where
  "client_frame frame c =
     (case known_kind (jget frame ''kind'') of
        Some NOTIFY \<Rightarrow> deliver frame c
      | Some DEGRADE \<Rightarrow> endIterator (EndDegraded (jget frame ''reason'')) (c\<lparr>cl_degraded := Some (jget frame ''reason'')\<rparr>)
      | Some PONG \<Rightarrow> c\<lparr>cl_ping := False\<rparr>
      | _ \<Rightarrow> c)"

definition client_data :: "host \<Rightarrow> string \<Rightarrow> client \<Rightarrow> client" where
  "client_data h chunk c =
     (case feed h (cl_buf c) chunk of
        (frames, Some e, b) \<Rightarrow> endIterator EndProtocolError (c\<lparr>cl_buf := b\<rparr>)
      | (frames, None, b) \<Rightarrow> fold client_frame frames (c\<lparr>cl_buf := b\<rparr>))"

definition client_sock_close :: "client \<Rightarrow> client" where
  "client_sock_close c = endIterator (case cl_degraded c of Some r \<Rightarrow> EndDegraded r | None \<Rightarrow> EndEof) c"

definition client_sock_error :: "client \<Rightarrow> client" where
  "client_sock_error c = endIterator EndSocketError c"

definition client_ack :: "host \<Rightarrow> jsval \<Rightarrow> client \<Rightarrow> client" where
  "client_ack h event_id c = (if cl_closed c then c else c\<lparr>cl_out := cl_out c @ line_of h (ackFrame event_id)\<rparr>)"

definition client_ping :: "host \<Rightarrow> client \<Rightarrow> client" where
  "client_ping h c = (if cl_closed c then c else c\<lparr>cl_out := cl_out c @ line_of h pingFrame, cl_ping := True\<rparr>)"

text \<open>One step of the async iterator: a frame, the end, or waiting.\<close>

datatype pulled = Got jsval | Ended | Waits

definition client_next :: "client \<Rightarrow> pulled \<times> client" where
  "client_next c =
     (case cl_handoff c of
        Some (Some f) \<Rightarrow> (Got f, c\<lparr>cl_handoff := None\<rparr>)
      | Some None \<Rightarrow> (Ended, c\<lparr>cl_handoff := None\<rparr>)
      | None \<Rightarrow>
          if cl_waiting c then (Waits, c)
          else if cl_closed c then (Ended, c)
          else (case cl_inbox c of
                  f # fs \<Rightarrow> (Got f, c\<lparr>cl_inbox := fs\<rparr>)
                | [] \<Rightarrow> (Waits, c\<lparr>cl_waiting := True\<rparr>)))"

section \<open>Push or poll\<close>

record pp_config =
  pc_cursor :: string
  pc_subscriber :: jsval
  pc_filter :: jsval
  pc_reprobe :: rat
  pc_recover :: bool

text \<open>The options with their defaults; both ids must be given.\<close>

definition pp_configure :: "string \<Rightarrow> jsval \<Rightarrow> jsval \<Rightarrow> rat option \<Rightarrow> jsval \<Rightarrow> pp_config res" where
  "pp_configure cursor_id subscriber_id filter_spec reprobe_ms auto_recover =
     (if cursor_id = [] then Inl (PlainError ''subscribePushOrPoll requires { db, cursor_id, dataDir }'')
      else Inr \<lparr>pc_cursor = cursor_id,
        pc_subscriber = (if nullish subscriber_id then JStr cursor_id else subscriber_id),
        pc_filter = (if nullish filter_spec then JNull else filter_spec),
        pc_reprobe = (case reprobe_ms of Some t \<Rightarrow> t | None \<Rightarrow> 5000),
        pc_recover = (auto_recover \<noteq> JBool False)\<rparr>)"

text \<open>
  Where the generator stands. \<open>Top\<close> is the head of the outer loop, \<open>CatchUp\<close> the drain before streaming,
  \<open>Streaming\<close> the inner loop, \<open>PollNow\<close> the poll, \<open>Draining\<close> its batch (with the batch's size),
  \<open>AfterBatch\<close> the decision to probe or sleep, \<open>Probing\<close> and \<open>Connecting\<close> the awaits.
\<close>

datatype pp_pc =
    Top
  | CatchUp "event_row list"
  | Streaming
  | PollNow
  | Draining "event_row list" nat
  | AfterBatch nat
  | Probing "nat option"
  | Connecting int
  | Sleeping
  | Finished
  | Thrown js_error

record pp =
  pp_pc :: pp_pc
  pp_push :: bool
  pp_client :: "client option"
  pp_closed :: bool
  pp_last_probe :: rat
  pp_transitions :: nat

definition pp_start :: pp where
  "pp_start = \<lparr>pp_pc = Probing None, pp_push = False, pp_client = None, pp_closed = False, pp_last_probe = 0, pp_transitions = 0\<rparr>"

text \<open>
  \<open>Go\<close> resumes the generator at a time, up to its next pause. \<open>GoAckFails\<close> does so too, but an \<open>ack\<close>
  on the way throws (\<open>SQLITE_BUSY\<close>); \<open>GoThrows\<close>: the query at which it stands throws.
\<close>

datatype pp_input =
    Go rat
  | GoAckFails rat
  | GoThrows js_error
  | ProbeDone bool
  | ConnectDone bool
  | Arrived string
  | SockClosed
  | SockFailed
  | Woke
  | CloseCall

datatype item = FromRow event_row | FromFrame jsval

definition item_id :: "item \<Rightarrow> int option" where
  "item_id x = (case x of FromRow e \<Rightarrow> Some (ev_id e) | FromFrame v \<Rightarrow> js_int (jget v ''event_id''))"

text \<open>
  \<open>ack\<close> with its errors swallowed: those it throws itself, and with \<open>ok = False\<close> those of the driver,
  which leave the database as it was. Event ids are integers.
\<close>

definition persistAck :: "bool \<Rightarrow> bus \<Rightarrow> string \<Rightarrow> int option \<Rightarrow> rat \<Rightarrow> bus" where
  "persistAck ok b cid i t = (case i of Some n \<Rightarrow> if ok then snd (ack b cid n t) else b | None \<Rightarrow> b)"

definition safePoll :: "pp_config \<Rightarrow> bus \<Rightarrow> (event_row list) res" where
  "safePoll cfg b = poll b (pc_cursor cfg) (Some 100) None"

definition resolveFromLive :: "bus \<Rightarrow> jsval \<Rightarrow> event_row option" where
  "resolveFromLive b v = (case js_int v of Some i \<Rightarrow> find_event b i | None \<Rightarrow> None)"

text \<open>The event of a notify frame: inline, looked up, or none.\<close>

definition frame_item :: "bus \<Rightarrow> jsval \<Rightarrow> item option" where
  "frame_item b frame =
     (let ev = jget frame ''event'' in
      if ev \<noteq> JNull then (if truthy ev then Some (FromFrame ev) else None)
      else map_option FromRow (resolveFromLive b (jget frame ''event_id'')))"

definition leavePush :: "pp \<Rightarrow> pp" where
  "leavePush s = s\<lparr>pp_client := None, pp_push := False, pp_transitions := pp_transitions s + 1\<rparr>"

definition move_to :: "pp_pc \<Rightarrow> pp \<Rightarrow> pp" where
  "move_to p s = s\<lparr>pp_pc := p\<rparr>"

definition poll_into :: "pp_config \<Rightarrow> (event_row list \<Rightarrow> pp_pc) \<Rightarrow> pp \<Rightarrow> bus \<Rightarrow> (pp \<times> bus) \<times> item option" where
  "poll_into cfg k s b = (case safePoll cfg b of Inl e \<Rightarrow> ((move_to (Thrown e) s, b), None) | Inr es \<Rightarrow> ((move_to (k es) s, b), None))"

text \<open>The cursor moves and the event is yielded; in push mode the daemon is told before.\<close>

definition hand_out :: "pp_config \<Rightarrow> bool \<Rightarrow> rat \<Rightarrow> item \<Rightarrow> pp_pc \<Rightarrow> pp \<Rightarrow> bus \<Rightarrow> (pp \<times> bus) \<times> item option" where
  "hand_out cfg ok t x p s b = ((move_to p s, persistAck ok b (pc_cursor cfg) (item_id x) t), Some x)"

definition tell :: "host \<Rightarrow> item \<Rightarrow> pp \<Rightarrow> pp" where
  "tell h x s = s\<lparr>pp_client := map_option
     (client_ack h (case x of FromRow e \<Rightarrow> jint (ev_id e) | FromFrame v \<Rightarrow> jget v ''event_id'')) (pp_client s)\<rparr>"

definition shouldReprobe :: "pp_config \<Rightarrow> rat \<Rightarrow> pp \<Rightarrow> bool" where
  "shouldReprobe cfg t s \<longleftrightarrow> pc_reprobe cfg \<le> t - pp_last_probe s"

fun pp_go :: "host \<Rightarrow> pp_config \<Rightarrow> bool \<Rightarrow> rat \<Rightarrow> pp_pc \<Rightarrow> pp \<Rightarrow> bus \<Rightarrow> ((pp \<times> bus) \<times> item option) option" where
  "pp_go h cfg ok t Top s b = Some (if pp_closed s then ((move_to Finished s, b), None)
     else if pp_push s \<and> pp_client s \<noteq> None then poll_into cfg CatchUp s b
     else ((move_to PollNow s, b), None))"
| "pp_go h cfg ok t (CatchUp []) s b = Some ((move_to Streaming s, b), None)"
| "pp_go h cfg ok t (CatchUp (e # es)) s b = Some (if pp_closed s then ((move_to Finished s, b), None)
     else hand_out cfg ok t (FromRow e) (CatchUp es) (tell h (FromRow e) s) b)"
| "pp_go h cfg ok t Streaming s b =
     (case pp_client s of
        None \<Rightarrow> None
      | Some c \<Rightarrow>
          (case client_next c of
             (Waits, c1) \<Rightarrow> Some ((s\<lparr>pp_client := Some c1\<rparr>, b), None)
           | (Ended, c1) \<Rightarrow> Some (let s1 = s\<lparr>pp_client := Some c1\<rparr> in
               if pp_closed s then ((move_to Finished s1, b), None) else ((move_to PollNow (leavePush s1), b), None))
           | (Got frame, c1) \<Rightarrow> Some (let s1 = s\<lparr>pp_client := Some c1\<rparr> in
               if pp_closed s then ((move_to Finished s1, b), None)
               else (case frame_item b frame of
                       None \<Rightarrow> ((s1, b), None)
                     | Some x \<Rightarrow> hand_out cfg ok t x Streaming (tell h x s1) b))))"
| "pp_go h cfg ok t PollNow s b = Some (poll_into cfg (\<lambda>es. Draining es (length es)) s b)"
| "pp_go h cfg ok t (Draining [] n) s b = Some ((move_to (if pp_closed s then Finished else AfterBatch n) s, b), None)"
| "pp_go h cfg ok t (Draining (e # es) n) s b = Some (if pp_closed s then ((move_to Finished s, b), None)
     else hand_out cfg ok t (FromRow e) (Draining es n) s b)"
| "pp_go h cfg ok t (AfterBatch n) s b = Some (if pc_recover cfg \<and> shouldReprobe cfg t s
     then ((move_to (Probing (Some n)) (s\<lparr>pp_last_probe := t\<rparr>), b), None)
     else ((move_to (if n = 0 then Sleeping else Top) s, b), None))"
| "pp_go h cfg ok t p s b = None"

text \<open>The query of \<open>safePoll\<close> or \<open>resolveFromLive\<close> throws, and with it the generator.\<close>

definition pp_throws :: "js_error \<Rightarrow> pp \<Rightarrow> pp option" where
  "pp_throws err s = (case pp_pc s of
      PollNow \<Rightarrow> Some (move_to (Thrown err) s)
    | Top \<Rightarrow> if \<not> pp_closed s \<and> pp_push s \<and> pp_client s \<noteq> None then Some (move_to (Thrown err) s) else None
    | Streaming \<Rightarrow> (case pp_client s of
          None \<Rightarrow> None
        | Some c \<Rightarrow> (case client_next c of
              (Got frame, c1) \<Rightarrow> if \<not> pp_closed s \<and> jget frame ''event'' = JNull
                then Some (move_to (Thrown err) (s\<lparr>pp_client := Some c1\<rparr>)) else None
            | _ \<Rightarrow> None))
    | _ \<Rightarrow> None)"

text \<open>\<open>tryEnterPush\<close> reads the cursor, then connects.\<close>

definition read_cursor :: "pp_config \<Rightarrow> bus \<Rightarrow> int" where
  "read_cursor cfg b = (case find_cursor b (pc_cursor cfg) of Some c \<Rightarrow> cu_last c | None \<Rightarrow> 0)"

definition on_connect :: "host \<Rightarrow> pp_config \<Rightarrow> int \<Rightarrow> bool \<Rightarrow> pp \<Rightarrow> pp" where
  "on_connect h cfg cursor ok s = move_to Top
     (case connectAsSubscriber h (pc_subscriber cfg) (jint cursor) (pc_filter cfg) ok of
        Inr c \<Rightarrow> s\<lparr>pp_client := Some c, pp_push := True, pp_transitions := pp_transitions s + 1\<rparr>
      | Inl _ \<Rightarrow> s\<lparr>pp_client := None, pp_push := False\<rparr>)"

definition pp_close :: "pp \<Rightarrow> pp" where
  "pp_close s = (if pp_closed s then s
     else (let s1 = s\<lparr>pp_closed := True, pp_client := map_option (endIterator EndCallerClose) (pp_client s)\<rparr>
       in if pp_pc s = Sleeping then move_to Top s1 else s1))"

definition pp_step :: "host \<Rightarrow> pp_config \<Rightarrow> pp_input \<Rightarrow> pp \<times> bus \<Rightarrow> ((pp \<times> bus) \<times> item option) option" where
  "pp_step h cfg i sb = (let (s, b) = sb in
     (case i of
        Go t \<Rightarrow> pp_go h cfg True t (pp_pc s) s b
      | GoAckFails t \<Rightarrow> pp_go h cfg False t (pp_pc s) s b
      | GoThrows err \<Rightarrow> map_option (\<lambda>s1. ((s1, b), None)) (pp_throws err s)
      | ProbeDone ok \<Rightarrow>
          (case pp_pc s of
             Probing r \<Rightarrow> Some ((if ok then move_to (Connecting (read_cursor cfg b)) s
               else move_to (case r of None \<Rightarrow> Top | Some n \<Rightarrow> if n = 0 then Sleeping else Top) s, b), None)
           | _ \<Rightarrow> None)
      | ConnectDone ok \<Rightarrow>
          (case pp_pc s of Connecting cur \<Rightarrow> Some ((on_connect h cfg cur ok s, b), None) | _ \<Rightarrow> None)
      | Arrived chunk \<Rightarrow>
          (case pp_client s of Some c \<Rightarrow> Some ((s\<lparr>pp_client := Some (client_data h chunk c)\<rparr>, b), None) | None \<Rightarrow> None)
      | SockClosed \<Rightarrow>
          (case pp_client s of Some c \<Rightarrow> Some ((s\<lparr>pp_client := Some (client_sock_close c)\<rparr>, b), None) | None \<Rightarrow> None)
      | SockFailed \<Rightarrow>
          (case pp_client s of Some c \<Rightarrow> Some ((s\<lparr>pp_client := Some (client_sock_error c)\<rparr>, b), None) | None \<Rightarrow> None)
      | Woke \<Rightarrow> if pp_pc s = Sleeping then Some ((move_to Top s, b), None) else None
      | CloseCall \<Rightarrow> Some ((pp_close s, b), None)))"

text \<open>The generator driven by its caller: one \<open>Go\<close> per resumption, with the items it yields.\<close>

fun pp_goes :: "host \<Rightarrow> pp_config \<Rightarrow> rat list \<Rightarrow> pp \<times> bus \<Rightarrow> ((pp \<times> bus) \<times> item list) option" where
  "pp_goes h cfg [] sb = Some (sb, [])"
| "pp_goes h cfg (t # ts) sb =
     (case pp_step h cfg (Go t) sb of
        None \<Rightarrow> None
      | Some (sb1, x) \<Rightarrow> (case pp_goes h cfg ts sb1 of
            None \<Rightarrow> None
          | Some (sb2, xs) \<Rightarrow> Some (sb2, (case x of Some y \<Rightarrow> y # xs | None \<Rightarrow> xs))))"

text \<open>
  A consumer that never reaches the daemon, in its environment: its own steps, anything other
  connections commit that leaves its cursor alone, and a crash followed by a new process. The
  last component lists the ids the caller has been handed, each with whether its \<open>ack\<close> went through.
\<close>

type_synonym polling = "pp \<times> bus \<times> (int \<times> bool) list"

definition acked :: "pp_input \<Rightarrow> bool" where
  "acked i = (case i of GoAckFails t \<Rightarrow> False | _ \<Rightarrow> True)"

definition log_item :: "pp_input \<Rightarrow> item option \<Rightarrow> (int \<times> bool) list" where
  "log_item i x = (case x of Some y \<Rightarrow> (case item_id y of Some n \<Rightarrow> [(n, acked i)] | None \<Rightarrow> []) | None \<Rightarrow> [])"

inductive polling_step :: "host \<Rightarrow> pp_config \<Rightarrow> polling \<Rightarrow> polling \<Rightarrow> bool" for h cfg where
  own_step: "pp_step h cfg i (s, b) = Some ((s', b'), x) \<Longrightarrow> i \<noteq> ConnectDone True \<Longrightarrow>
    polling_step h cfg (s, b, ys) (s', b', ys @ log_item i x)"
| others: "events_wf b' \<Longrightarrow> cursor_position b' (pc_cursor cfg) = cursor_position b (pc_cursor cfg) \<Longrightarrow>
    polling_step h cfg (s, b, ys) (s, b', ys)"
| crash: "polling_step h cfg (s, b, ys) (pp_start, b, ys)"

section \<open>Acknowledged before yielded\<close>

lemma move_to_sel [simp]:
  "pp_pc (move_to p s) = p" "pp_push (move_to p s) = pp_push s" "pp_client (move_to p s) = pp_client s"
  "pp_closed (move_to p s) = pp_closed s"
  by (simp_all add: move_to_def)

lemma tell_sel [simp]: "pp_closed (tell h x s) = pp_closed s" "pp_push (tell h x s) = pp_push s" "pp_pc (tell h x s) = pp_pc s"
  by (simp_all add: tell_def)

lemma persistAck_simps [simp]:
  "events (persistAck ok b cid i t) = events b" "events_seq (persistAck ok b cid i t) = events_seq b"
  "cursor_position b cid \<noteq> None \<Longrightarrow> cursor_position (persistAck True b cid (Some n) t) cid = Some n"
  "persistAck False b cid i t = b"
  by (simp_all add: persistAck_def ack_active cursor_position_update_same split: option.split)

text \<open>What a resumption does when it yields.\<close>

lemma pp_step_yields:
  assumes "pp_step h cfg i (s, b) = Some ((s', b'), Some x)"
  shows "\<exists>t. b' = persistAck (acked i) b (pc_cursor cfg) (item_id x) t"
proof -
  have poll: "snd (poll_into cfg k s b) = None" for k s by (simp add: poll_into_def split: sum.split)
  have go: "\<exists>t. b' = persistAck ok b (pc_cursor cfg) (item_id x) t" if "pp_go h cfg ok t p s b = Some ((s', b'), Some x)" for ok t p
    using that poll [THEN arg_cong [where f = "\<lambda>y. y = Some x"]]
    by (cases "(h, cfg, ok, t, p, s, b)" rule: pp_go.cases)
      (auto simp: hand_out_def Let_def poll_into_def split: option.splits prod.splits pulled.splits if_splits sum.splits)
  show ?thesis
  proof (cases i)
    case (Go t)
    with assms go [of True t] show ?thesis by (simp add: pp_step_def acked_def)
  next
    case (GoAckFails t)
    with assms have "pp_go h cfg False t (pp_pc s) s b = Some ((s', b'), Some x)" by (simp add: pp_step_def)
    from go [OF this] GoAckFails show ?thesis by (simp only: acked_def pp_input.case)
  qed (use assms in \<open>auto simp: pp_step_def split: pp_pc.splits option.splits if_splits\<close>)
qed

section \<open>Polling hands out at most once\<close>

text \<open>The position after these acknowledgements, and the order they keep.\<close>

definition acked_at :: "int \<Rightarrow> (int \<times> bool) list \<Rightarrow> int" where
  "acked_at p ys = last (p # map fst (filter snd ys))"

definition in_order :: "int \<Rightarrow> (int \<times> bool) list \<Rightarrow> bool" where
  "in_order p ys \<longleftrightarrow> sorted_wrt (\<lambda>x y. snd x \<longrightarrow> fst x < fst y) ((p, True) # ys)"

lemma in_order_acked: "in_order p ys \<Longrightarrow> sorted_wrt (<) (p # map fst (filter snd ys))"
proof (induction ys)
  case (Cons y ys)
  have "in_order p ys" using Cons.prems by (simp add: in_order_def)
  with Cons show ?case by (auto simp: in_order_def)
qed simp

lemma in_order_below:
  assumes "in_order p ys" and "y \<in> set ((p, True) # ys)" and "snd y"
  shows "fst y \<le> acked_at p ys"
proof -
  have le: "z \<le> last zs" if "sorted_wrt (<) zs" "z \<in> set zs" for z :: int and zs
    using that
  proof (induction zs)
    case (Cons q zs)
    then show ?case using last_in_set [of zs] by (cases "zs = []") (auto intro: less_imp_le)
  qed simp
  have "fst y \<in> set (p # map fst (filter snd ys))" using assms(2,3) by auto
  from le [OF in_order_acked [OF assms(1)] this] show ?thesis by (simp add: acked_at_def)
qed

lemma in_order_snoc:
  assumes "in_order p ys" and "acked_at p ys < n"
  shows "in_order p (ys @ [(n, a)])" and "acked_at p (ys @ [(n, a)]) = (if a then n else acked_at p ys)"
proof -
  have "\<forall>x\<in>set ((p, True) # ys). snd x \<longrightarrow> fst x < n" using in_order_below [OF assms(1)] assms(2) by (blast intro: le_less_trans)
  moreover have "sorted_wrt (\<lambda>x y. snd x \<longrightarrow> fst x < fst y) ((p, True) # ys)" using assms(1) by (simp only: in_order_def)
  ultimately have "sorted_wrt (\<lambda>x y. snd x \<longrightarrow> fst x < fst y) (((p, True) # ys) @ [(n, a)])"
    unfolding sorted_wrt_append by simp
  then show "in_order p (ys @ [(n, a)])" by (simp add: in_order_def)
  show "acked_at p (ys @ [(n, a)]) = (if a then n else acked_at p ys)" by (simp add: acked_at_def)
qed

definition handed_out :: "pp_config \<Rightarrow> int \<Rightarrow> polling \<Rightarrow> bool" where
  "handed_out cfg p st = (case st of (s, b, ys) \<Rightarrow>
     events_wf b \<and> \<not> pp_push s \<and> pp_client s = None \<and>
     cursor_position b (pc_cursor cfg) = Some (acked_at p ys) \<and> in_order p ys \<and>
     (case pp_pc s of
        CatchUp es \<Rightarrow> False
      | Streaming \<Rightarrow> False
      | Draining es n \<Rightarrow> sorted_wrt (<) (acked_at p ys # map ev_id es)
      | _ \<Rightarrow> True))"

lemma persistAck_wf: "events_wf b \<Longrightarrow> events_wf (persistAck ok b cid i t)"
  by (simp add: events_wf_def)

lemma handed_out_go:
  assumes "handed_out cfg p (s, b, ys)" and "pp_go h cfg (acked i) t (pp_pc s) s b = Some ((s', b'), x)"
  shows "handed_out cfg p (s', b', ys @ log_item i x)"
proof (cases "pp_pc s")
  case PollNow
  with assms show ?thesis
    using poll_ascending [of b "pc_cursor cfg" "Some 100" None _ "acked_at p ys"]
    by (auto simp: handed_out_def poll_into_def safePoll_def log_item_def split: sum.splits)
next
  case (Draining es n)
  show ?thesis
  proof (cases es)
    case Nil
    with assms Draining show ?thesis by (auto simp: handed_out_def log_item_def)
  next
    case (Cons e es')
    show ?thesis
    proof (cases "pp_closed s")
      case True
      with assms Draining Cons show ?thesis by (auto simp: handed_out_def log_item_def)
    next
      case False
      with assms(2) Draining Cons have s': "s' = move_to (Draining es' n) s"
        and b': "b' = persistAck (acked i) b (pc_cursor cfg) (Some (ev_id e)) t" and x: "x = Some (FromRow e)"
        by (auto simp: hand_out_def item_id_def)
      from assms(1) Draining Cons have inv: "events_wf b" "\<not> pp_push s" "pp_client s = None"
        "cursor_position b (pc_cursor cfg) = Some (acked_at p ys)" "in_order p ys"
        "acked_at p ys < ev_id e" "sorted_wrt (<) (ev_id e # map ev_id es')" "\<forall>y\<in>set es'. acked_at p ys < ev_id y"
        by (auto simp: handed_out_def)
      note snoc = in_order_snoc [OF inv(5,6), of "acked i"]
      have "cursor_position b' (pc_cursor cfg) = Some (acked_at p (ys @ [(ev_id e, acked i)]))"
        unfolding b' snoc(2) using inv(4) by (cases "acked i") simp_all
      moreover have "events_wf b'" unfolding b' by (rule persistAck_wf) (rule inv(1))
      moreover have "sorted_wrt (<) (acked_at p (ys @ [(ev_id e, acked i)]) # map ev_id es')"
        unfolding snoc(2) using inv(7,8) by simp
      ultimately show ?thesis using inv(2,3) snoc(1) by (simp add: handed_out_def s' x item_id_def log_item_def)
    qed
  qed
qed (use assms in \<open>auto simp: handed_out_def log_item_def split: if_splits\<close>)

lemma handed_out_cong:
  "handed_out cfg p (s, b, ys) \<Longrightarrow> pp_push s' = pp_push s \<Longrightarrow> pp_client s' = pp_client s \<Longrightarrow>
   pp_pc s' = pp_pc s \<or> pp_pc s' \<in> {Top, Sleeping} \<union> range Connecting \<Longrightarrow> handed_out cfg p (s', b, ys)"
  by (auto simp: handed_out_def)

lemma handed_out_other:
  assumes "handed_out cfg p (s, b, ys)" and st: "pp_step h cfg i (s, b) = Some ((s', b'), x)"
    and "\<nexists>t. i = Go t \<or> i = GoAckFails t" and "\<And>e. i \<noteq> GoThrows e" and "i \<noteq> ConnectDone True"
  shows "x = None \<and> b' = b \<and> handed_out cfg p (s', b, ys)"
proof -
  have cl: "pp_client s = None" "\<not> pp_push s" using assms(1) by (simp_all add: handed_out_def)
  have same: "x = None \<and> b' = b \<and> pp_push s' = pp_push s \<and> pp_client s' = pp_client s \<and>
      (pp_pc s' = pp_pc s \<or> pp_pc s' \<in> {Top, Sleeping} \<union> range Connecting)"
  proof (cases i)
    case (Go t)
    with assms(3) show ?thesis by simp
  next
    case (GoAckFails t)
    with assms(3) show ?thesis by simp
  next
    case (GoThrows e)
    with assms(4) show ?thesis by blast
  next
    case (ProbeDone ok)
    with st show ?thesis by (cases "pp_pc s") (auto simp: pp_step_def split: option.splits if_splits)
  next
    case (ConnectDone ok)
    with st cl assms(5) show ?thesis
      by (cases "pp_pc s") (auto simp: pp_step_def on_connect_def connectAsSubscriber_def split: if_splits)
  next
    case CloseCall
    with st cl show ?thesis by (auto simp: pp_step_def pp_close_def Let_def split: if_splits)
  next
    case Woke
    with st show ?thesis by (auto simp: pp_step_def split: if_splits)
  qed (use st cl in \<open>simp_all add: pp_step_def\<close>)
  with handed_out_cong [OF assms(1), of s'] show ?thesis by blast
qed

lemma handed_out_throws:
  assumes "handed_out cfg p (s, b, ys)" and "pp_step h cfg (GoThrows e) (s, b) = Some ((s', b'), x)"
  shows "x = None \<and> handed_out cfg p (s', b', ys)"
proof -
  have cl: "pp_client s = None" "\<not> pp_push s" using assms(1) by (simp_all add: handed_out_def)
  with assms(2) have "x = None \<and> b' = b \<and> s' = move_to (Thrown e) s"
    by (auto simp: pp_step_def pp_throws_def split: pp_pc.splits if_splits)
  with assms(1) show ?thesis by (simp add: handed_out_def)
qed

lemma handed_out_step:
  assumes "polling_step h cfg st st'" and "handed_out cfg p st"
  shows "handed_out cfg p st'"
  using assms
proof (induction rule: polling_step.induct)
  case (own_step i s b s' b' x ys)
  consider (go) t where "i = Go t \<or> i = GoAckFails t" | (throws) e where "i = GoThrows e"
    | (other) "\<nexists>t. i = Go t \<or> i = GoAckFails t" "\<And>e. i \<noteq> GoThrows e" by blast
  then show ?case
  proof cases
    case go
    then have "pp_go h cfg (acked i) t (pp_pc s) s b = Some ((s', b'), x)"
      using own_step.hyps(1) by (auto simp: pp_step_def acked_def)
    from handed_out_go [OF own_step.prems this] show ?thesis .
  next
    case throws
    from handed_out_throws [OF own_step.prems own_step.hyps(1) [unfolded throws]] show ?thesis by (simp add: log_item_def)
  next
    case other
    from handed_out_other [OF own_step.prems own_step.hyps(1) other own_step.hyps(2)] show ?thesis by (simp add: log_item_def)
  qed
qed (auto simp: handed_out_def pp_start_def)

text \<open>C10: By polling, an event whose acknowledgement went through is never handed out again: in every run of the
  consumer that does not reach the daemon, whatever queries and acknowledgements fail, however often the
  process crashes and starts again, and whatever other connections commit as long as none of them moves
  or retires this very cursor (as \<open>wicked-bus replay\<close> and \<open>deregister\<close> do), all ids handed out after an acknowledged one are larger,
  and the stored cursor stands on the last acknowledged one; when no acknowledgement failed, the ids are
  strictly increasing, so that no event comes twice. An \<open>ack\<close> that throws is swallowed: its event has been
  handed out with the cursor behind it.\<close>

theorem poll_mode_at_most_once:
  assumes "events_wf b" and "cursor_position b (pc_cursor cfg) = Some p"
    and "(polling_step h cfg)\<^sup>*\<^sup>* (pp_start, b, []) (s, b', ys)"
  shows "sorted_wrt (\<lambda>x y. snd x \<longrightarrow> fst x < fst y) ((p, True) # ys) \<and>
    cursor_position b' (pc_cursor cfg) = Some (last (p # map fst (filter snd ys))) \<and>
    ((\<forall>y\<in>set ys. snd y) \<longrightarrow> sorted_wrt (<) (p # map fst ys))"
proof -
  have h: "handed_out cfg p (s, b', ys)" using assms(3)
  proof (induction rule: rtranclp_induct)
    case base
    show ?case using assms(1,2) by (simp add: handed_out_def pp_start_def acked_at_def in_order_def)
  next
    case (step y z)
    then show ?case by (blast intro: handed_out_step)
  qed
  then have o: "in_order p ys" by (simp add: handed_out_def)
  have "sorted_wrt (<) (p # map fst ys)" if "\<forall>y\<in>set ys. snd y"
    using in_order_acked [OF o] that by (simp add: filter_id_conv [THEN iffD2])
  with h show ?thesis by (simp add: handed_out_def in_order_def acked_at_def)
qed

text \<open>Every event is acknowledged before the caller sees it, in both modes: when a resumption whose \<open>ack\<close> does
  not fail yields an event with an id and the cursor is active, the stored position is that id.\<close>

theorem acknowledged_before_yield:
  assumes "pp_step h cfg i (s, b) = Some ((s', b'), Some x)" and "item_id x = Some n" and "acked i"
    and "cursor_position b (pc_cursor cfg) = Some p"
  shows "cursor_position b' (pc_cursor cfg) = Some n \<and> events b' = events b"
proof -
  from pp_step_yields [OF assms(1)] assms(2,3) obtain t where "b' = persistAck True b (pc_cursor cfg) (Some n) t" by auto
  with assms(4) show ?thesis by simp
qed

section \<open>One polling cycle\<close>

lemma goes_batch:
  "\<not> pp_closed s \<Longrightarrow> cursor_position b (pc_cursor cfg) = Some p \<Longrightarrow>
   \<exists>b'. pp_goes h cfg (replicate (length es) t) (move_to (Draining es n) s, b) =
       Some ((move_to (Draining [] n) s, b'), map FromRow es) \<and>
     cursor_position b' (pc_cursor cfg) = Some (last (p # map ev_id es)) \<and> events b' = events b"
proof (induction es arbitrary: b p)
  case Nil
  then show ?case by simp
next
  case (Cons e es)
  let ?b = "persistAck True b (pc_cursor cfg) (Some (ev_id e)) t"
  have mm: "move_to q (move_to r s) = move_to q s" for q r by (simp add: move_to_def)
  have "cursor_position ?b (pc_cursor cfg) = Some (ev_id e)" using Cons.prems(2) by simp
  from Cons.IH [OF Cons.prems(1) this] obtain b' where
    "pp_goes h cfg (replicate (length es) t) (move_to (Draining es n) s, ?b) = Some ((move_to (Draining [] n) s, b'), map FromRow es)"
    "cursor_position b' (pc_cursor cfg) = Some (last (ev_id e # map ev_id es))" "events b' = events b" by auto
  then show ?case using Cons.prems(1) by (simp add: pp_step_def hand_out_def item_id_def mm)
qed

text \<open>One polling cycle hands out the whole batch: from the poll, one resumption for the query and one
  per row yields exactly the rows \<open>poll\<close> returned, in order, and leaves the cursor on the last of
  them; the next resumption goes on to the decision whether to probe or to sleep.\<close>

theorem polling_cycle_hands_out_batch:
  assumes "\<not> pp_closed s" and "cursor_position b (pc_cursor cfg) = Some p"
    and "poll b (pc_cursor cfg) (Some 100) None = Inr es"
  shows "\<exists>b'. pp_goes h cfg (replicate (length es + 1) t) (move_to PollNow s, b) =
      Some ((move_to (Draining [] (length es)) s, b'), map FromRow es) \<and>
    cursor_position b' (pc_cursor cfg) = Some (last (p # map ev_id es)) \<and>
    pp_step h cfg (Go t) (move_to (Draining [] (length es)) s, b') =
      Some ((move_to (AfterBatch (length es)) s, b'), None)"
proof -
  have mm: "move_to q (move_to r s) = move_to q s" for q r by (simp add: move_to_def)
  from goes_batch [OF assms(1,2), of h es t "length es"] obtain b' where
    "pp_goes h cfg (replicate (length es) t) (move_to (Draining es (length es)) s, b) =
       Some ((move_to (Draining [] (length es)) s, b'), map FromRow es)"
    "cursor_position b' (pc_cursor cfg) = Some (last (p # map ev_id es))" by blast
  then show ?thesis using assms(1,3) by (simp add: pp_step_def poll_into_def safePoll_def mm)
qed

section \<open>Push mode jumps over events\<close>

text \<open>Push mode loses the events whose notification did not arrive: when a notify frame for an event with
  id \<open>n\<close> is handed out, every stored event with a smaller id that has not been handed out yet is behind
  the cursor, and no later poll of that cursor returns it, although it is still stored.\<close>

theorem streaming_skips_older_events:
  assumes "events_wf b" and "pp_pc s = Streaming" and "\<not> pp_closed s" and "pp_client s = Some c"
    and "client_next c = (Got frame, c1)" and "frame_item b frame = Some x" and "item_id x = Some n"
    and "cursor_position b (pc_cursor cfg) = Some p" and "e \<in> set (events b)" and "ev_id e \<le> n"
  shows "\<exists>s' b'. pp_step h cfg (Go t) (s, b) = Some ((s', b'), Some x) \<and> e \<in> set (events b') \<and>
    (case poll b' (pc_cursor cfg) bs None of Inr es \<Rightarrow> e \<notin> set es | Inl _ \<Rightarrow> True)"
proof -
  let ?b = "persistAck True b (pc_cursor cfg) (Some n) t"
  let ?s = "move_to Streaming (tell h x (s\<lparr>pp_client := Some c1\<rparr>))"
  have st: "pp_step h cfg (Go t) (s, b) = Some ((?s, ?b), Some x)"
    using assms(2-7) by (simp add: pp_step_def hand_out_def)
  have wf: "events_wf ?b" using assms(1) by (rule persistAck_wf)
  have pos: "cursor_position ?b (pc_cursor cfg) = Some n" using assms(8) by simp
  have "e \<notin> set es" if "poll ?b (pc_cursor cfg) bs None = Inr es" for es
    using poll_ascending [OF wf that pos] assms(10) by auto
  then have "case poll ?b (pc_cursor cfg) bs None of Inr es \<Rightarrow> e \<notin> set es | Inl _ \<Rightarrow> True"
    by (simp split: sum.split)
  moreover have "e \<in> set (events ?b)" using assms(9) by simp
  ultimately show ?thesis using st by blast
qed

section \<open>Examples\<close>

definition demo_pp :: pp_config where
  "demo_pp = \<lparr>pc_cursor = ''c'', pc_subscriber = JStr ''c'', pc_filter = JNull, pc_reprobe = 5000, pc_recover = True\<rparr>"

definition demo_poller :: pp where
  "demo_poller = move_to PollNow pp_start"

definition demo_frame :: jsval where
  "demo_frame = notifyFrame (jint 6) (JObj [(''event_id'', jint 6), (''event_type'', JStr ''wicked.a'')])"

definition demo_client :: client where
  "demo_client = \<lparr>cl_inbox = [demo_frame], cl_waiting = False, cl_handoff = None, cl_degraded = None, cl_closed = False,
     cl_last = None, cl_buf = [], cl_out = [], cl_ping = False\<rparr>"

lemma demo_events_wf: "events_wf (demo_bus [4, 5] 3)"
  using demo_bus_wf [of "[4, 5]" 3] by (auto simp: wf_defs)

lemma demo_cursor: "cursor_position (demo_bus [4, 5] 3) (pc_cursor demo_pp) = Some 3"
  by (simp add: demo_pp_def)

lemma poll_mode_at_most_once_witness:
  "\<exists>s b. (polling_step kind_host demo_pp)\<^sup>*\<^sup>* (pp_start, demo_bus [4, 5] 3, []) (s, b, [(4, False), (5, True)]) \<and>
     cursor_position b ''c'' = Some 5"
proof -
  let ?P = "polling_step kind_host demo_pp"
  let ?b = "demo_bus [4, 5] 3"
  obtain es where p: "poll ?b (pc_cursor demo_pp) (Some 100) None = Inr es" and ids: "map ev_id es = [4, 5]"
  proof -
    have "case poll ?b (pc_cursor demo_pp) (Some 100) None of Inr es \<Rightarrow> map ev_id es = [4, 5] | Inl _ \<Rightarrow> False" by code_simp
    then show ?thesis using that by (auto split: sum.splits)
  qed
  from ids obtain e4 e5 where es: "es = [e4, e5]" and e: "ev_id e4 = 4" "ev_id e5 = 5" by (auto simp: map_eq_Cons_conv)
  let ?b5 = "persistAck True ?b ''c'' (Some 5) 0"
  have "?P (pp_start, ?b, []) (move_to Top pp_start, ?b, [])"
    by (rule own_step [of kind_host demo_pp "ProbeDone False" _ _ _ _ None "[]", simplified log_item_def option.case append_Nil2]) (simp_all add: pp_step_def pp_start_def)
  moreover have "?P (move_to Top pp_start, ?b, []) (move_to PollNow pp_start, ?b, [])"
    by (rule own_step [of kind_host demo_pp "Go 0" _ _ _ _ None "[]", simplified log_item_def option.case append_Nil2])
      (simp_all add: pp_step_def pp_start_def move_to_def)
  moreover have "?P (move_to PollNow pp_start, ?b, []) (move_to (Draining es 2) pp_start, ?b, [])"
    by (rule own_step [of kind_host demo_pp "Go 0" _ _ _ _ None "[]", simplified log_item_def option.case append_Nil2])
      (simp_all add: pp_step_def pp_start_def move_to_def poll_into_def safePoll_def p, simp add: es)
  moreover have "?P (move_to (Draining es 2) pp_start, ?b, []) (move_to (Draining [e5] 2) pp_start, ?b, [(4, False)])"
    by (rule own_step [of kind_host demo_pp "GoAckFails 0" _ _ _ _ "Some (FromRow e4)" "[]",
          simplified e item_id_def log_item_def acked_def pp_input.case option.case item.case append_Nil])
      (simp_all add: pp_step_def pp_start_def move_to_def hand_out_def es e item_id_def demo_pp_def)
  moreover have "?P (move_to (Draining [e5] 2) pp_start, ?b, [(4, False)]) (move_to (Draining [] 2) pp_start, ?b5, [(4, False), (5, True)])"
    by (rule own_step [of kind_host demo_pp "Go 0" _ _ _ _ "Some (FromRow e5)" "[(4, False)]",
          simplified e item_id_def log_item_def acked_def pp_input.case option.case item.case append_Cons append_Nil])
      (simp_all add: pp_step_def pp_start_def move_to_def hand_out_def es e item_id_def demo_pp_def)
  ultimately have "?P\<^sup>*\<^sup>* (pp_start, ?b, []) (move_to (Draining [] 2) pp_start, ?b5, [(4, False), (5, True)])"
    by (meson converse_rtranclp_into_rtranclp rtranclp.rtrancl_refl)
  with poll_mode_at_most_once [OF demo_events_wf demo_cursor this] show ?thesis
    by (intro exI [of _ "move_to (Draining [] 2) pp_start"] exI [of _ ?b5]) (simp add: demo_pp_def)
qed

lemma polling_cycle_hands_out_batch_witness:
  "(case pp_goes kind_host demo_pp [0, 0, 0] (demo_poller, demo_bus [4, 5] 3) of
      Some (_, xs) \<Rightarrow> map item_id xs | None \<Rightarrow> []) = [Some 4, Some 5]"
proof -
  obtain es where p: "poll (demo_bus [4, 5] 3) (pc_cursor demo_pp) (Some 100) None = Inr es" and ids: "map ev_id es = [4, 5]"
  proof -
    have "case poll (demo_bus [4, 5] 3) (pc_cursor demo_pp) (Some 100) None of Inr es \<Rightarrow> map ev_id es = [4, 5] | Inl _ \<Rightarrow> False"
      by code_simp
    then show ?thesis using that by (auto split: sum.splits)
  qed
  from ids have n: "length es = 2" by (metis length_map length_Cons list.size(3) Suc_1 One_nat_def)
  have "\<not> pp_closed pp_start" by (simp add: pp_start_def)
  from polling_cycle_hands_out_batch [OF this demo_cursor p, of kind_host 0] obtain b' where
    "pp_goes kind_host demo_pp (replicate 3 0) (demo_poller, demo_bus [4, 5] 3) =
       Some ((move_to (Draining [] 2) pp_start, b'), map FromRow es)" by (auto simp: n demo_poller_def numeral_3_eq_3)
  moreover have "map (item_id \<circ> FromRow) es = map Some (map ev_id es)" by (simp add: item_id_def)
  ultimately show ?thesis using ids by (simp add: numeral_3_eq_3)
qed

lemma streaming_skips_older_events_witness:
  "\<exists>s b x. pp_step kind_host demo_pp (Go 0) (move_to Streaming (pp_start\<lparr>pp_client := Some demo_client\<rparr>), demo_bus [4, 5] 3) =
       Some ((s, b), Some x) \<and> demo_row 4 ''wicked.a'' \<in> set (events b) \<and>
     (case poll b ''c'' None None of Inr es \<Rightarrow> demo_row 4 ''wicked.a'' \<notin> set es | Inl _ \<Rightarrow> True)"
proof -
  let ?s = "move_to Streaming (pp_start\<lparr>pp_client := Some demo_client\<rparr>)" and ?x = "FromFrame (jget demo_frame ''event'')"
  have e: "demo_row 4 ''wicked.a'' \<in> set (events (demo_bus [4, 5] 3))" by (simp add: demo_bus_def)
  have fr: "frame_item (demo_bus [4, 5] 3) demo_frame = Some ?x" by code_simp
  have x: "item_id ?x = Some 6" by code_simp
  have c: "client_next demo_client = (Got demo_frame, demo_client\<lparr>cl_inbox := []\<rparr>)" by (simp add: client_next_def demo_client_def)
  have "pp_pc ?s = Streaming" "\<not> pp_closed ?s" "pp_client ?s = Some demo_client" by (simp_all add: pp_start_def)
  from streaming_skips_older_events [OF demo_events_wf this c fr x demo_cursor e, of kind_host 0 None]
  show ?thesis by (auto simp: demo_pp_def demo_row_def)
qed

lemma acknowledged_before_yield_witness:
  "case pp_step kind_host demo_pp (Go 0) (move_to (Draining (events (demo_bus [4, 5] 3)) 2) pp_start, demo_bus [4, 5] 3) of
     Some ((s, b), x) \<Rightarrow> cursor_position b ''c'' = Some 4 | None \<Rightarrow> False"
proof -
  let ?s = "move_to (Draining (events (demo_bus [4, 5] 3)) 2) pp_start"
  have e: "events (demo_bus [4, 5] 3) = [demo_row 4 ''wicked.a'', demo_row 5 ''wicked.a'']" by (simp add: demo_bus_def)
  obtain s b where st: "pp_step kind_host demo_pp (Go 0) (?s, demo_bus [4, 5] 3) = Some ((s, b), Some (FromRow (demo_row 4 ''wicked.a'')))"
    by (simp add: pp_step_def e hand_out_def pp_start_def)
  have "item_id (FromRow (demo_row 4 ''wicked.a'')) = Some 4" by (simp add: item_id_def demo_row_def)
  from acknowledged_before_yield [OF st this _ demo_cursor] st show ?thesis by (simp add: demo_pp_def acked_def)
qed

end
