(* ===== verification/BusSocket.thy ===== *)
theory BusSocket
  imports BusValues "HOL-Library.Word"
begin

unbundle bit_operations_syntax

text \<open>
  Where the daemon's socket lives, \<open>socketPath\<close> of \<open>lib/daemon.js\<close>: in the data directory when the
  path is short enough for the platform, otherwise under a hashed name in the temporary directory, which
  is recorded in the data directory. The 64-bit arithmetic of the hash is arithmetic of \<open>64 word\<close>. Proved:
  the path always fits, and once recorded it is the same for every process.
\<close>

section \<open>Paths and text\<close>

text \<open>\<open>path.join\<close> of a normalised POSIX directory and a file name.\<close>

definition path_join :: "string \<Rightarrow> string \<Rightarrow> string" where
  "path_join dir name = (if dir = [] then name else if last dir = CHR ''/'' then dir @ name else dir @ ''/'' @ name)"

section \<open>The hash\<close>

text \<open>FNV-1a.\<close>

definition fnv1a :: "string \<Rightarrow> 64 word" where
  "fnv1a s = fold (\<lambda>c h. (h XOR of_nat (of_char c)) * 0x100000001b3) s 0xcbf29ce484222325"

definition hex_digit :: "nat \<Rightarrow> char" where
  "hex_digit d = ''0123456789abcdef'' ! d"

fun hex_digits :: "nat \<Rightarrow> string" where
  "hex_digits n = (if n < 16 then [hex_digit n] else hex_digits (n div 16) @ [hex_digit (n mod 16)])"

declare hex_digits.simps [simp del]

definition padStart :: "nat \<Rightarrow> char \<Rightarrow> string \<Rightarrow> string" where
  "padStart n c s = replicate (n - length s) c @ s"

definition simpleHash :: "string \<Rightarrow> string" where
  "simpleHash s = padStart 16 (CHR ''0'') (hex_digits (unat (fnv1a s)))"

section \<open>The socket path\<close>

definition UNIX_SOCKET_PATH_LIMIT :: nat where
  "UNIX_SOCKET_PATH_LIMIT = 100"

text \<open>
  The file system as far as it is used: the content of \<open>socket.path\<close>, \<open>None\<close> when it cannot be
  read, and whether directory and file can be written now.
\<close>

definition shortSocketFor :: "string \<Rightarrow> bool \<Rightarrow> string \<Rightarrow> string option \<Rightarrow> string \<times> string option" where
  "shortSocketFor tmpdir writable dataDir file =
     (case file of
        Some recorded \<Rightarrow>
          if js_trim recorded \<noteq> [] then (js_trim recorded, file)
          else (let short = path_join tmpdir (''wb-'' @ simpleHash dataDir @ ''.sock'')
                in (short, if writable then Some short else file))
      | None \<Rightarrow>
          (let short = path_join tmpdir (''wb-'' @ simpleHash dataDir @ ''.sock'')
           in (short, if writable then Some short else file)))"

definition socketPath :: "string \<Rightarrow> bool \<Rightarrow> string \<Rightarrow> string option \<Rightarrow> string \<times> string option" where
  "socketPath tmpdir writable dataDir file =
     (let natural = path_join dataDir ''bus.sock'' in
      if utf8_length natural \<le> UNIX_SOCKET_PATH_LIMIT then (natural, file)
      else shortSocketFor tmpdir writable dataDir file)"

section \<open>The name has sixteen digits\<close>

lemma utf8_length_simps [simp]:
  "utf8_length [] = 0" "utf8_length (c # s) = (if of_char c < (128 :: nat) then 1 else 2) + utf8_length s"
  "utf8_length (s @ t) = utf8_length s + utf8_length t"
  by (simp_all add: utf8_length_def)

lemma utf8_ascii: "list_all (\<lambda>c. of_char c < (128 :: nat)) s \<Longrightarrow> utf8_length s = length s"
  unfolding utf8_length_def by (induction s) auto

lemma length_hex_digits: "n < 16 ^ Suc k \<Longrightarrow> length (hex_digits n) \<le> Suc k"
proof (induction k arbitrary: n)
  case 0
  then show ?case by (subst hex_digits.simps) simp
next
  case (Suc k)
  show ?case
  proof (cases "n < 16")
    case True
    then show ?thesis by (subst hex_digits.simps) simp
  next
    case False
    have "n div 16 < 16 ^ Suc k" using Suc.prems by (simp add: less_mult_imp_div_less)
    from Suc.IH [OF this] False show ?thesis by (subst hex_digits.simps) simp
  qed
qed

lemma hex_digit_ascii: "d < 16 \<Longrightarrow> of_char (hex_digit d) < (128 :: nat)"
proof -
  assume "d < 16"
  then have "hex_digit d \<in> set ''0123456789abcdef''" unfolding hex_digit_def by (intro nth_mem) simp
  then show ?thesis by auto
qed

lemma hex_digits_ascii: "list_all (\<lambda>c. of_char c < (128 :: nat)) (hex_digits n)"
proof (induction n rule: hex_digits.induct)
  case (1 n)
  then show ?case by (cases "n < 16") (subst hex_digits.simps, simp add: hex_digit_ascii)+
qed

lemma simpleHash_length: "utf8_length (simpleHash s) = 16"
proof -
  have "unat (fnv1a s) < 2 ^ 64" using unsigned_less [of "fnv1a s"] by simp
  then have "length (hex_digits (unat (fnv1a s))) \<le> Suc 15" by (intro length_hex_digits) simp
  then have l: "length (simpleHash s) = 16" by (simp add: simpleHash_def padStart_def)
  have "list_all (\<lambda>c. of_char c < (128 :: nat)) (simpleHash s)"
    using hex_digits_ascii [of "unat (fnv1a s)"]
    by (auto simp: simpleHash_def padStart_def list_all_iff set_replicate_conv_if split: if_splits)
  then show ?thesis using l utf8_ascii by metis
qed

lemma utf8_path_join: "utf8_length (path_join d n) \<le> utf8_length d + utf8_length n + 1"
proof -
  show ?thesis by (simp add: path_join_def)
qed

lemma short_name_fits: "utf8_length (path_join tmpdir (''wb-'' @ simpleHash d @ ''.sock'')) \<le> utf8_length tmpdir + 25"
proof -
  have "utf8_length ''wb-'' = 3" "utf8_length ''.sock'' = 5" by (simp_all add: utf8_length_def)
  then have "utf8_length (''wb-'' @ simpleHash d @ ''.sock'') = 24" by (simp only: utf8_length_simps simpleHash_length)
  with utf8_path_join [of tmpdir "''wb-'' @ simpleHash d @ ''.sock''"] show ?thesis by simp
qed

lemma short_name_trim:
  assumes "tmpdir \<noteq> []" and "\<not> is_space (hd tmpdir)"
  shows "js_trim (path_join tmpdir (''wb-'' @ x @ ''.sock'')) = path_join tmpdir (''wb-'' @ x @ ''.sock'')"
proof (rule js_trim_id)
  have "hd (path_join tmpdir (''wb-'' @ x @ ''.sock'')) = hd tmpdir" using assms(1) by (simp add: path_join_def)
  then show "\<not> is_space (hd (path_join tmpdir (''wb-'' @ x @ ''.sock'')))" using assms(2) by simp
  have "last (path_join tmpdir (''wb-'' @ x @ ''.sock'')) = CHR ''k''" by (simp add: path_join_def)
  then show "\<not> is_space (last (path_join tmpdir (''wb-'' @ x @ ''.sock'')))" by (simp add: is_space_def)
qed (simp add: path_join_def)

section \<open>Properties\<close>

text \<open>The socket path fits the platform's limit of 100 bytes, whatever the data directory: the natural path
  is used only when it fits, and the hashed one has 24 bytes after its directory, so a temporary
  directory of at most 75 bytes suffices as long as no foreign path is recorded.\<close>

theorem socket_path_fits:
  assumes "utf8_length tmpdir \<le> 75" and "file = None \<or> file = Some (path_join tmpdir (''wb-'' @ simpleHash dataDir @ ''.sock''))"
    and "tmpdir \<noteq> []" and "\<not> is_space (hd tmpdir)"
  shows "utf8_length (fst (socketPath tmpdir writable dataDir file)) \<le> 100"
  using assms(1,2) short_name_fits [of tmpdir dataDir] short_name_trim [OF assms(3,4), of "simpleHash dataDir"]
  by (auto simp: socketPath_def shortSocketFor_def UNIX_SOCKET_PATH_LIMIT_def Let_def)

text \<open>Every process finds the same socket: once a first call could record its choice, any later call for the
  data directory returns the same path and leaves the record alone, even where the temporary directory
  is another one and whether or not the directory is writable.\<close>

theorem socket_path_agreed:
  assumes "socketPath tmpdir True dataDir file = (path, file')" and "tmpdir \<noteq> []" and "\<not> is_space (hd tmpdir)"
  shows "socketPath tmpdir' writable dataDir file' = (path, file')"
proof (cases "utf8_length (path_join dataDir ''bus.sock'') \<le> UNIX_SOCKET_PATH_LIMIT")
  case True
  with assms(1) show ?thesis by (simp add: socketPath_def Let_def)
next
  case False
  have trim: "js_trim (path_join tmpdir (''wb-'' @ simpleHash dataDir @ ''.sock'')) = path_join tmpdir (''wb-'' @ simpleHash dataDir @ ''.sock'')"
    by (rule short_name_trim [OF assms(2,3)])
  have ne: "path_join tmpdir (''wb-'' @ simpleHash dataDir @ ''.sock'') \<noteq> []" by (simp add: path_join_def)
  show ?thesis using assms(1) False trim ne
    by (auto simp: socketPath_def shortSocketFor_def Let_def split: option.splits if_splits)
qed

definition deep_dir :: string where
  "deep_dir = ''/'' @ replicate 120 (CHR ''a'')"

lemma deep_dir_long: "\<not> utf8_length (path_join deep_dir ''bus.sock'') \<le> UNIX_SOCKET_PATH_LIMIT"
  by code_simp

lemma socket_path_fits_witness:
  "fst (socketPath ''/tmp'' True deep_dir None) \<noteq> path_join deep_dir ''bus.sock'' \<and>
   utf8_length (fst (socketPath ''/tmp'' True deep_dir None)) \<le> 100"
proof -
  have "utf8_length ''/tmp'' \<le> 75" "\<not> is_space (hd ''/tmp'')" by (simp_all add: utf8_length_def is_space_def)
  then have f: "utf8_length (fst (socketPath ''/tmp'' True deep_dir None)) \<le> 100" using socket_path_fits by simp
  moreover have "100 < utf8_length (path_join deep_dir ''bus.sock'')"
    using deep_dir_long by (simp add: UNIX_SOCKET_PATH_LIMIT_def)
  ultimately show ?thesis by (metis not_le)
qed

lemma socket_path_agreed_witness:
  "fst (socketPath ''/var/tmp'' False deep_dir (snd (socketPath ''/tmp'' True deep_dir None))) = fst (socketPath ''/tmp'' True deep_dir None)"
proof -
  have "\<not> is_space (hd ''/tmp'')" by (simp add: is_space_def)
  moreover obtain path file' where "socketPath ''/tmp'' True deep_dir None = (path, file')" by fastforce
  ultimately show ?thesis using socket_path_agreed [of "''/tmp''" deep_dir None path file' "''/var/tmp''" False] by simp
qed

end
