(* ===== verification/BusPipeline.thy ===== *)
theory BusPipeline
  imports BusEmit BusDrain
begin

text \<open>
  From a producer to a consumer, \<open>lib/emit.js\<close> to \<open>commands/cmd-subscribe.js\<close> over \<open>lib/poll.js\<close>: what
  is emitted is drained, as the last line, by every subscriber whose filter matches, once.
\<close>

lemma rekeyed_pending:
  "list_all2 rekeyed xs ys \<Longrightarrow>
   map ev_id (filter (\<lambda>e. p < ev_id e \<and> event_matches f e) ys) = map ev_id (filter (\<lambda>e. p < ev_id e \<and> event_matches f e) xs)"
proof (induction rule: list_all2_induct)
  case (Cons x xs y ys)
  have "ev_id y = ev_id x" "event_matches f y = event_matches f x"
    using Cons(1) by (auto simp: rekeyed_def event_matches_def)
  with Cons(3) show ?case by simp
qed simp

text \<open>C2: What is emitted is drained once. After a successful emit, a drain of any active cursor that is not ahead of the
  bus prints the events that were pending for it, in order, and then the new event if the cursor's filter
  matches it; the new event carries the type and domain of the emitted one and the id that the emit
  reported. With acknowledgments, a second drain prints nothing.\<close>

theorem emitted_event_is_drained_once:
  assumes "emit ee cfg event s = (Inr r, s')" and "bus_wf (es_bus s)" and "dedup_ok (es_bus s)"
    and "cursor_position (es_bus s) cid = Some p" and "cursor_filter (es_bus s) cid = Some f" and "p \<le> events_seq (es_bus s)"
    and "do_recover opts" and "do_idle opts = None" and "length (pending (es_bus s) f p) + 3 \<le> k"
  shows "\<exists>new before b' fl. ev_id new = er_event_id r \<and> JStr (ev_type new) = jget event ''event_type'' \<and>
     JStr (ev_domain new) = jget event ''domain'' \<and>
     map ev_id before = map ev_id (pending (es_bus s) f p) \<and>
     runDrain opts cid (replicate k (now, False, id)) (drain_start opts cid now (es_bus s')) (es_bus s') =
       (Some (Inr (length before + (if event_matches f new then 1 else 0), fl)),
        before @ (if event_matches f new then [new] else []), b') \<and>
     (\<not> do_no_ack opts \<longrightarrow>
        fst (snd (runDrain opts cid (replicate k (now, False, id)) (drain_start opts cid now b') b')) = [])"
proof -
  from emit_appends [OF assms(1-3)] obtain old row where ev: "events (es_bus s') = old @ [row]"
    and old: "list_all2 rekeyed (events (es_bus s)) old" and id: "ev_id row = er_event_id r" "er_event_id r = events_seq (es_bus s) + 1"
    and lt: "\<forall>e\<in>set old. ev_id e < ev_id row"
    and fields: "JStr (ev_type row) = jget event ''event_type''" "JStr (ev_domain row) = jget event ''domain''"
    and same: "subscriptions (es_bus s') = subscriptions (es_bus s)" "cursors (es_bus s') = cursors (es_bus s)" by blast
  let ?b = "es_bus s'" and ?old = "filter (\<lambda>e. p < ev_id e \<and> event_matches f e) old"
  have wf: "bus_wf ?b" using emit_wf [OF assms(2,3), of ee cfg event] assms(1) by simp
  have pos: "cursor_position ?b cid = Some p" and fl: "cursor_filter ?b cid = Some f"
    using assms(4,5) cursor_position_cong [OF same(2)] cursor_filter_cong [OF same(2,1)] by simp_all
  have before: "map ev_id ?old = map ev_id (pending (es_bus s) f p)"
    using rekeyed_pending [OF old] by (simp add: pending_def)
  have pend: "pending ?b f p = ?old @ (if event_matches f row then [row] else [])"
    using id assms(6) by (simp add: pending_def ev)
  have len: "length ?old = length (pending (es_bus s) f p)" using arg_cong [OF before, of length] by simp
  have enough: "length (pending ?b f p) + 2 \<le> k" using assms(9) by (simp add: pend len)
  from drain_result [OF wf pos fl assms(7,8) enough, of now] obtain g b' where
    run: "runDrain opts cid (replicate k (now, False, id)) (drain_start opts cid now ?b) ?b =
        (Some (Inr (length (pending ?b f p), g)), pending ?b f p, b')"
    and b': "events b' = events ?b" "bus_wf b'" "cursor_filter b' cid = Some f"
      "cursor_position b' cid = Some (let start = (case min_event_id ?b of Some m \<Rightarrow> max p (m - 1) | None \<Rightarrow> p)
         in if do_no_ack opts then start else last (start # map ev_id (pending ?b f p)))"
    by blast
  have again: "fst (snd (runDrain opts cid (replicate k (now, False, id)) (drain_start opts cid now b') b')) = []"
    if ack: "\<not> do_no_ack opts"
  proof -
    let ?q = "last ((case min_event_id ?b of Some m \<Rightarrow> max p (m - 1) | None \<Rightarrow> p) # map ev_id (pending ?b f p))"
    have none: "pending b' f ?q = []"
    proof (cases "pending ?b f p = []")
      case True
      then have "\<forall>e\<in>set (events ?b). event_matches f e \<longrightarrow> ev_id e \<le> p" by (auto simp: pending_def filter_empty_conv)
      moreover have "p \<le> (case min_event_id ?b of Some m \<Rightarrow> max p (m - 1) | None \<Rightarrow> p)" by (simp split: option.split)
      ultimately show ?thesis using True b'(1) by (fastforce simp: pending_def filter_empty_conv)
    next
      case False
      then have "?q = ev_id (last (pending ?b f p))" by (simp add: last_map)
      moreover have "pending ?b f (ev_id (last (pending ?b f p))) = []"
        by (rule pending_after [OF bus_wfD(1) [OF wf] _ False, of f p "[]"]) simp
      ultimately show ?thesis using pending_cong [OF b'(1)] by simp
    qed
    have "cursor_position b' cid = Some ?q" using b'(4) ack by (simp add: Let_def)
    from drain_result [OF b'(2) this b'(3) assms(7,8), of k now] none assms(9) show ?thesis by auto
  qed
  show ?thesis
    using id(1) fields before run again unfolding pend
    by (intro exI [of _ row] exI [of _ ?old] exI [of _ b'] exI [of _ g]) simp
qed

lemma emitted_event_is_drained_once_witness:
  "\<exists>s' fl b' out. fst (emit (demo_env 5) demo_cfg (demo_event ''k'') (demo_state\<lparr>es_bus := demo_bus [4, 5] 3\<rparr>)) =
       Inr \<lparr>er_event_id = 10, er_idempotency_key = JStr ''k'', er_notify = False\<rparr> \<and>
     s' = snd (emit (demo_env 5) demo_cfg (demo_event ''k'') (demo_state\<lparr>es_bus := demo_bus [4, 5] 3\<rparr>)) \<and>
     runDrain (demo_drain False) ''c'' (replicate 5 (0, False, id)) (drain_start (demo_drain False) ''c'' 0 (es_bus s')) (es_bus s') =
       (Some (Inr fl), out, b') \<and> last (map ev_id out) = 10"
proof -
  let ?s = "demo_state\<lparr>es_bus := demo_bus [4, 5] 3\<rparr>"
  let ?e = "emit (demo_env 5) demo_cfg (demo_event ''k'') ?s" and ?r = "\<lparr>er_event_id = 10, er_idempotency_key = JStr ''k'', er_notify = False\<rparr>"
  have e: "?e = (Inr ?r, snd ?e)"
  proof -
    have "fst ?e = Inr ?r" by code_simp
    then show ?thesis by (simp add: prod_eq_iff)
  qed
  have wf: "bus_wf (demo_bus [4, 5] 3)" by (rule demo_bus_wf) auto
  have dd: "dedup_ok (demo_bus [4, 5] 3)" by (simp add: dedup_ok_def demo_bus_def demo_row_def)
  have seq: "3 \<le> events_seq (demo_bus [4, 5] 3)" by (simp add: demo_bus_def)
  have pl: "map ev_id (pending (demo_bus [4, 5] 3) ''wicked.*'' 3) = [4, 5]" by code_simp
  have len: "length (pending (demo_bus [4, 5] 3) ''wicked.*'' 3) + 3 \<le> 5"
    using arg_cong [OF pl, of length] unfolding length_map list.size by linarith
  have o: "do_recover (demo_drain False)" "do_idle (demo_drain False) = None" by (simp_all add: demo_drain_def)
  from emitted_event_is_drained_once [OF e, of "''c''" 3 "''wicked.*''" "demo_drain False" 5 0] wf dd seq len o
  obtain new before b' fl where n: "ev_id new = 10" "JStr (ev_type new) = jget (demo_event ''k'') ''event_type''"
    "JStr (ev_domain new) = jget (demo_event ''k'') ''domain''"
    and run: "runDrain (demo_drain False) ''c'' (replicate 5 (0, False, id)) (drain_start (demo_drain False) ''c'' 0 (es_bus (snd ?e))) (es_bus (snd ?e)) =
       (Some (Inr (length before + (if event_matches ''wicked.*'' new then 1 else 0), fl)),
        before @ (if event_matches ''wicked.*'' new then [new] else []), b')" by auto
  have "sql_matches ''wicked.a'' ''d'' ''wicked.*''" by code_simp
  then have "event_matches ''wicked.*'' new" using n(2,3) by (simp add: event_matches_def demo_event_def)
  then show ?thesis using arg_cong [OF e, of fst] run n(1) by simp
qed

end
