(* ===== verification/BusUi.thy ===== *)
theory BusUi
  imports BusArchive BusCas BusPoll
begin

text \<open>
  The read-only web viewer, \<open>lib/ui-server.js\<close>: the bearer token file, the request handler with its
  guards, and the endpoints. URL parsing is the runtime's and an argument (\<open>url_host\<close>). Proved: without
  the token no answer depends on the data; the guards come in the order of the code; the pages of
  \<open>/api/events\<close> and the trace list exactly the selected events; a token file of another user is refused.
\<close>

section \<open>The token\<close>

record token_file =
  tf_uid :: int
  tf_text :: string

text \<open>
  What the call meets: the uid of the process as \<open>getuid\<close> gives it (none on Windows) and as a created
  file gets it, the random token, and what other processes do to the file before it is examined and
  before it is read or created.
\<close>

record token_env =
  te_uid :: "int option"
  te_owner :: int
  te_fresh :: string
  te_unlinks :: bool
  te_before_stat :: "token_file option \<Rightarrow> token_file option"
  te_before_use :: "token_file option \<Rightarrow> token_file option"

definition verifyTokenOwnership :: "int option \<Rightarrow> token_file option \<Rightarrow> unit res" where
  "verifyTokenOwnership uid f =
     (case f of
        None \<Rightarrow> Inr ()
      | Some t \<Rightarrow>
          (case uid of
             Some u \<Rightarrow> if tf_uid t \<noteq> u
               then raise_wb WB011 [(''owner_uid'', jint (tf_uid t)), (''expected_uid'', jint u)] else Inr ()
           | None \<Rightarrow> Inr ()))"

text \<open>The part after the existing file, if any, is out of the way.\<close>

definition create_token :: "token_env \<Rightarrow> token_file option \<Rightarrow> string res \<times> token_file option" where
  "create_token env f =
     (case f of
        None \<Rightarrow> (Inr (te_fresh env), Some \<lparr>tf_uid = te_owner env, tf_text = te_fresh env\<rparr>)
      | Some _ \<Rightarrow> (Inl (SysError ''EEXIST''), f))"

definition ensureToken :: "token_env \<Rightarrow> bool \<Rightarrow> token_file option \<Rightarrow> string res \<times> token_file option" where
  "ensureToken env renew f =
     (case f of
        None \<Rightarrow> create_token env (te_before_use env f)
      | Some _ \<Rightarrow>
          if \<not> renew
          then (let f1 = te_before_stat env f; f2 = te_before_use env f1 in
                case verifyTokenOwnership (te_uid env) f1 of
                  Inl e \<Rightarrow> (Inl e, f1)
                | Inr _ \<Rightarrow>
                    (case f2 of
                       None \<Rightarrow> (Inl (SysError ''ENOENT''), f2)
                     | Some t \<Rightarrow> (Inr (js_trim (tf_text t)), f2)))
          else create_token env (te_before_use env (if te_unlinks env then None else f)))"

section \<open>Requests\<close>

record request =
  rq_method :: string
  rq_url :: string
  rq_host :: "string option"
  rq_origin :: "string option"
  rq_authorization :: "string option"

text \<open>\<open>new URL(url, base)\<close>: the path and the query parameters, or an exception; \<open>new URL(origin).hostname\<close>.\<close>

record url_host =
  uh_parse :: "string \<Rightarrow> string \<Rightarrow> (string \<times> (string \<times> string) list) option"
  uh_hostname :: "string \<Rightarrow> string option"

record ui_context =
  ux_token :: string
  ux_host :: string
  ux_pid :: nat
  ux_data_dir :: string

text \<open>The three tiers a request reads.\<close>

type_synonym ui_data = "bus \<times> archive \<times> cas_files"

definition authorized :: "string option \<Rightarrow> string \<Rightarrow> bool" where
  "authorized header token =
     (let h = (case header of Some s \<Rightarrow> s | None \<Rightarrow> []) in
      prefix ''Bearer '' h \<and> js_trim (drop 7 h) = token)"

definition originAllowed :: "url_host \<Rightarrow> string \<Rightarrow> string \<Rightarrow> bool" where
  "originAllowed uh origin host =
     (case uh_hostname uh origin of
        Some n \<Rightarrow> n = host \<or> n = ''localhost'' \<or> n = ''127.0.0.1''
      | None \<Rightarrow> False)"

section \<open>Endpoints\<close>

text \<open>\<open>parseInt\<close> of \<open>searchParams.get(k)\<close>: the first value, or \<open>null\<close>, which is not a number.\<close>

definition int_param :: "(string \<times> string) list \<Rightarrow> string \<Rightarrow> int option" where
  "int_param params k = (case map_of params k of Some v \<Rightarrow> parse_int v | None \<Rightarrow> None)"

definition parseIntOrZero :: "int option \<Rightarrow> int" where
  "parseIntOrZero n = (case n of Some i \<Rightarrow> i | None \<Rightarrow> 0)"

definition clampInt :: "int option \<Rightarrow> int \<Rightarrow> int \<Rightarrow> int \<Rightarrow> int" where
  "clampInt n lo hi dflt = (case n of Some i \<Rightarrow> max lo (min hi i) | None \<Rightarrow> dflt)"

definition UI_FILTERS :: "string list" where
  "UI_FILTERS = [''event_type'', ''domain'', ''subdomain'', ''correlation_id'', ''session_id'']"

definition ui_column :: "event_row \<Rightarrow> string \<Rightarrow> string option" where
  "ui_column e k =
     (if k = ''event_type'' then Some (ev_type e)
      else if k = ''domain'' then Some (ev_domain e)
      else if k = ''subdomain'' then Some (ev_subdomain e)
      else if k = ''correlation_id'' then ev_correlation e
      else ev_session e)"

text \<open>The conjunction of the equalities of the given, non-empty parameters.\<close>

definition ui_selects :: "(string \<times> string) list \<Rightarrow> event_row \<Rightarrow> bool" where
  "ui_selects params e = list_all (\<lambda>k.
     case map_of params k of
       Some v \<Rightarrow> v \<noteq> [] \<longrightarrow> ui_column e k = Some v
     | None \<Rightarrow> True) UI_FILTERS"

record ui_event =
  ue_id :: int
  ue_type :: string
  ue_domain :: string
  ue_subdomain :: string
  ue_payload :: string
  ue_emitted_at :: rat
  ue_correlation :: "string option"
  ue_session :: "string option"
  ue_parent :: sqlval
  ue_producer :: "string option"
  ue_registry_version :: "int option"
  ue_cas_sha :: "string option"

definition ui_view :: "event_row \<Rightarrow> ui_event" where
  "ui_view e = \<lparr>ue_id = ev_id e, ue_type = ev_type e, ue_domain = ev_domain e, ue_subdomain = ev_subdomain e,
     ue_payload = ev_payload e, ue_emitted_at = ev_emitted_at e, ue_correlation = ev_correlation e,
     ue_session = ev_session e, ue_parent = ev_parent e, ue_producer = ev_producer e,
     ue_registry_version = ev_registry_version e, ue_cas_sha = ev_cas_sha e\<rparr>"

definition apiEvents :: "(string \<times> string) list \<Rightarrow> bus \<Rightarrow> ui_event list" where
  "apiEvents params b =
     (let limit = clampInt (int_param params ''limit'') 1 1000 100;
          since = parseIntOrZero (int_param params ''since_event_id'')
      in map ui_view (take (nat limit) (sort_key ev_id (filter (\<lambda>e. ui_selects params e \<and> since < ev_id e) (events b)))))"

record trace_event =
  tr_id :: int
  tr_type :: string
  tr_domain :: string
  tr_parent :: sqlval
  tr_emitted_at :: rat
  tr_session :: "string option"
  tr_producer :: "string option"

definition trace_view :: "event_row \<Rightarrow> trace_event" where
  "trace_view e = \<lparr>tr_id = ev_id e, tr_type = ev_type e, tr_domain = ev_domain e, tr_parent = ev_parent e,
     tr_emitted_at = ev_emitted_at e, tr_session = ev_session e, tr_producer = ev_producer e\<rparr>"

record bucket_view =
  bv_filename :: string
  bv_min :: "int option"
  bv_max :: "int option"
  bv_sealed_at :: "rat option"

datatype body =
    ErrorBody string
  | HealthBody
  | InfoBody string nat string
  | EventsBody "ui_event list" nat
  | TraceBody string "trace_event list" nat
  | StatsBody nat nat
  | BucketsBody "bucket_view list" nat

type_synonym response = "nat \<times> body"

definition apiTrace :: "string \<Rightarrow> bus \<Rightarrow> response" where
  "apiTrace cid b =
     (if cid = [] then (400, ErrorBody ''missing-correlation-id'')
      else (let rows = map trace_view (sort_key ev_id (filter (\<lambda>e. ev_correlation e = Some cid) (events b)))
            in (200, TraceBody cid rows (length rows))))"

definition apiBuckets :: "archive \<Rightarrow> bucket_view list" where
  "apiBuckets ar = map (\<lambda>k.
     case getBucketMeta k of
       Some m \<Rightarrow> \<lparr>bv_filename = bk_name k, bv_min = bm_min m, bv_max = bm_max m, bv_sealed_at = bm_sealed_at m\<rparr>
     | None \<Rightarrow> \<lparr>bv_filename = bk_name k, bv_min = None, bv_max = None, bv_sealed_at = None\<rparr>) (listBuckets ar)"

section \<open>The request handler\<close>

definition route :: "string \<Rightarrow> (string \<times> string) list \<Rightarrow> ui_context \<Rightarrow> ui_data \<Rightarrow> response" where
  "route path params ctx data =
     (case data of (b, ar, cas) \<Rightarrow>
      if path = ''/api/info'' then (200, InfoBody (ux_host ctx) (ux_pid ctx) (ux_data_dir ctx))
      else if path = ''/api/events'' then (let rows = apiEvents params b in (200, EventsBody rows (length rows)))
      else if path = ''/api/cas/stats'' then (case cas_stats cas of (n, bytes) \<Rightarrow> (200, StatsBody n bytes))
      else if path = ''/api/buckets'' then (let bs = apiBuckets ar in (200, BucketsBody bs (length bs)))
      else if prefix ''/api/trace/'' path then apiTrace (drop 11 path) b
      else (404, ErrorBody ''not-found''))"

text \<open>\<open>None\<close>: the handler throws, which no one catches.\<close>

definition handleRequest :: "url_host \<Rightarrow> ui_context \<Rightarrow> ui_data \<Rightarrow> request \<Rightarrow> response option" where
  "handleRequest uh ctx data rq =
     (if rq_method rq \<noteq> ''GET'' \<and> rq_method rq \<noteq> ''HEAD'' then Some (405, ErrorBody ''method-not-allowed'')
      else if (case rq_origin rq of Some o' \<Rightarrow> o' \<noteq> [] \<and> \<not> originAllowed uh o' (ux_host ctx) | None \<Rightarrow> False)
      then Some (403, ErrorBody ''origin-not-allowed'')
      else case uh_parse uh (rq_url rq)
             (''http://'' @ (case rq_host rq of Some h \<Rightarrow> if h = [] then ''localhost'' else h | None \<Rightarrow> ''localhost'')) of
             None \<Rightarrow> None
           | Some (path, params) \<Rightarrow>
               if path = ''/healthz'' then Some (200, HealthBody)
               else if \<not> authorized (rq_authorization rq) (ux_token ctx) then Some (401, ErrorBody ''unauthorized'')
               else Some (route path params ctx data))"

section \<open>Guards\<close>

text \<open>C31: Without the token nothing is disclosed. A request whose \<open>Authorization\<close> header is not \<open>Bearer\<close> with the
  server's token gets the same answer whatever the database, the archive and the content store hold:
  a refusal (405, 403 or 401), the health answer, or no answer when its URL does not parse. A request
  that is answered with data is a \<open>GET\<close> or \<open>HEAD\<close>, carries the token, and has no \<open>Origin\<close> or an allowed one.\<close>

theorem viewer_discloses_nothing_without_token:
  "(\<not> authorized (rq_authorization rq) (ux_token ctx) \<longrightarrow>
      handleRequest uh ctx data rq = handleRequest uh ctx data' rq \<and>
      handleRequest uh ctx data rq \<in> {None, Some (405, ErrorBody ''method-not-allowed''), Some (403, ErrorBody ''origin-not-allowed''),
        Some (401, ErrorBody ''unauthorized''), Some (200, HealthBody)}) \<and>
   (handleRequest uh ctx data rq = Some (200, x) \<longrightarrow> x \<noteq> HealthBody \<longrightarrow>
      rq_method rq \<in> {''GET'', ''HEAD''} \<and> authorized (rq_authorization rq) (ux_token ctx) \<and>
      (\<forall>o'. rq_origin rq = Some o' \<longrightarrow> o' = [] \<or> originAllowed uh o' (ux_host ctx)))"
  by (auto simp: handleRequest_def split: option.splits if_splits prod.splits)

section \<open>Pages\<close>

definition ui_rest :: "(string \<times> string) list \<Rightarrow> int \<Rightarrow> bus \<Rightarrow> event_row list" where
  "ui_rest params since b = filter (\<lambda>e. ui_selects params e \<and> since < ev_id e) (events b)"

definition next_params :: "int \<Rightarrow> (string \<times> string) list \<Rightarrow> (string \<times> string) list" where
  "next_params since params = (''since_event_id'', int_str since) # params"

abbreviation since_of :: "(string \<times> string) list \<Rightarrow> int" where
  "since_of params \<equiv> parseIntOrZero (int_param params ''since_event_id'')"

abbreviation limit_of :: "(string \<times> string) list \<Rightarrow> int" where
  "limit_of params \<equiv> clampInt (int_param params ''limit'') 1 1000 100"

lemma limit_of_bounds: "1 \<le> limit_of params" "limit_of params \<le> 1000"
  by (auto simp: clampInt_def split: option.split)

lemma since_next: "since_of (next_params i params) = i"
  by (simp add: next_params_def int_param_def parse_int_str parseIntOrZero_def)

lemma limit_next: "limit_of (next_params i params) = limit_of params"
  by (simp add: next_params_def int_param_def)

lemma selects_next: "ui_selects (next_params i params) e = ui_selects params e"
  by (simp add: ui_selects_def UI_FILTERS_def next_params_def)

lemma rest_next: "ui_rest (next_params i params) j b = ui_rest params j b"
  by (simp add: ui_rest_def selects_next)

lemma rest_strict: "events_wf b \<Longrightarrow> sorted_wrt (<) (map ev_id (ui_rest params s b))"
  by (simp add: ui_rest_def events_wf_def map_filter_strict)

lemma apiEvents_page:
  assumes "events_wf b"
  shows "apiEvents params b = map ui_view (take (nat (limit_of params)) (ui_rest params (since_of params) b))"
  by (simp add: apiEvents_def Let_def ui_rest_def [symmetric] sort_key_strict [OF rest_strict [OF assms]])

lemma rest_after:
  assumes "events_wf b" and "ui_rest params s b = xs @ ys" and "xs \<noteq> []"
  shows "ui_rest params (ev_id (last xs)) b = ys"
proof -
  have st: "sorted_wrt (<) (map ev_id (xs @ ys))" using rest_strict [OF assms(1)] unfolding assms(2) [symmetric] .
  have "last xs \<in> set (ui_rest params s b)" using assms(2,3) by simp
  then have "s < ev_id (last xs)" by (simp add: ui_rest_def)
  then have "ui_rest params (ev_id (last xs)) b = filter (\<lambda>e. ev_id (last xs) < ev_id e) (ui_rest params s b)"
    unfolding ui_rest_def filter_filter by (intro filter_cong) auto
  also have "\<dots> = ys" unfolding assms(2) by (rule strict_suffix_filter(1) [OF st assms(3)])
  finally show ?thesis .
qed

text \<open>The viewer is a source read in batches, like \<open>poll\<close>.\<close>

interpretation paged: event_source
  "\<lambda>(b, params). events_wf b"
  "\<lambda>(b, params) since. ui_rest params since b"
  "\<lambda>(b, params) since. take (nat (limit_of params)) (ui_rest params since b)"
  ev_id
proof (unfold_locales, goal_cases)
  case (1 s f)
  obtain b params where s: "s = (b, params)" by (cases s)
  show ?case unfolding s prod.case by (rule exI) (rule append_take_drop_id [symmetric])
next
  case (2 s f)
  have "0 < nat (limit_of (snd s))" using limit_of_bounds(1) [of "snd s"] by simp
  with 2 show ?case by (cases s) simp
next
  case (3 s f xs ys)
  then show ?case using rest_after by (cases s) simp
qed

lemma read_batches_map:
  fixes v :: "'a \<Rightarrow> 'b"
  assumes "\<And>since. get' since = map v (get since)" and "\<And>x. eid' (v x) = eid x"
  shows "read_batches get' eid' n since = map v (read_batches get eid n since)"
  by (induction n arbitrary: since) (simp_all add: assms Let_def last_map)

text \<open>The pages of \<open>/api/events\<close> are complete: a client that starts at any id, asks each time for the page after
  the last event it was given, and stops at the first empty page, is given every stored event its
  filters select above the start, exactly once and in ascending order, whatever page size it asks for
  (a size outside 1 to 1000 is clamped).\<close>

theorem viewer_pages_complete:
  assumes "events_wf b" and "length (ui_rest params since b) < n"
  shows "read_batches (\<lambda>i. apiEvents (next_params i params) b) ue_id n since = map ui_view (ui_rest params since b)"
proof -
  have "apiEvents (next_params i params) b = map ui_view (take (nat (limit_of params)) (ui_rest params i b))" for i
    by (simp only: apiEvents_page [OF assms(1)] since_next limit_next rest_next)
  then have "read_batches (\<lambda>i. apiEvents (next_params i params) b) ue_id n since =
      map ui_view (read_batches (\<lambda>i. take (nat (limit_of params)) (ui_rest params i b)) ev_id n since)"
    by (rule read_batches_map) (simp add: ui_view_def)
  with paged.read_batches_complete [of "(b, params)" since n] assms show ?thesis by simp
qed

section \<open>The token file\<close>

text \<open>A token is kept and private. A start that creates the token (there is no file, or rotation is asked for and
  the file can be removed), with no other process at the file, uses the fresh token, and a \<open>Bearer\<close> header with
  it is accepted; every later start without rotation uses the same token if it runs as the owner of the file,
  or where the system has no uids, and fails with \<open>WB-011\<close> under any other uid; the file stays as it is.\<close>

theorem viewer_token_kept:
  assumes "f = None \<or> renew \<and> te_unlinks env" and "te_before_use env = id"
    and "te_fresh env \<noteq> []" and "\<forall>c\<in>set (te_fresh env). \<not> is_space c"
    and "te_before_stat env' = id" and "te_before_use env' = id"
  shows "\<exists>g. ensureToken env renew f = (Inr (te_fresh env), Some g) \<and>
     authorized (Some (''Bearer '' @ te_fresh env)) (te_fresh env) \<and>
     (if te_uid env' = None \<or> te_uid env' = Some (te_owner env)
      then ensureToken env' False (Some g) = (Inr (te_fresh env), Some g)
      else \<exists>e. ensureToken env' False (Some g) = (Inl e, Some g) \<and> is_wb WB011 e)"
proof -
  let ?g = "\<lparr>tf_uid = te_owner env, tf_text = te_fresh env\<rparr>"
  have t: "js_trim (te_fresh env) = te_fresh env"
    using assms(3,4) by (intro js_trim_id) auto
  have "ensureToken env renew f = (Inr (te_fresh env), Some ?g)"
    using assms(1,2) by (cases f) (auto simp: ensureToken_def create_token_def)
  moreover have "authorized (Some (''Bearer '' @ te_fresh env)) (te_fresh env)"
    by (simp add: authorized_def t)
  moreover have "if te_uid env' = None \<or> te_uid env' = Some (te_owner env)
      then ensureToken env' False (Some ?g) = (Inr (te_fresh env), Some ?g)
      else \<exists>e. ensureToken env' False (Some ?g) = (Inl e, Some ?g) \<and> is_wb WB011 e"
    using assms(5,6) by (cases "te_uid env'") (auto simp: ensureToken_def verifyTokenOwnership_def Let_def t is_wb_def)
  ultimately show ?thesis by blast
qed

text \<open>
  A start that reads the file between its creation and its write by another start has the empty token,
  and then a header whose only other character is trimmed away is accepted.
\<close>

lemma empty_token_accepts_anyone:
  assumes "te_uid env = Some u" and "te_before_stat env = id" and "te_before_use env = id"
  shows "ensureToken env False (Some \<lparr>tf_uid = u, tf_text = []\<rparr>) = (Inr [], Some \<lparr>tf_uid = u, tf_text = []\<rparr>) \<and>
    authorized (Some (''Bearer '' @ [CHR 0xA0])) []"
  using assms by (simp add: ensureToken_def verifyTokenOwnership_def Let_def js_trim_def authorized_def is_space_def)

section \<open>The trace\<close>

lemma trace_exact:
  assumes "events_wf b" and "cid \<noteq> []"
  shows "apiTrace cid b = (200, TraceBody cid (map trace_view (filter (\<lambda>e. ev_correlation e = Some cid) (events b)))
    (length (filter (\<lambda>e. ev_correlation e = Some cid) (events b))))"
proof -
  have "sorted_wrt (<) (map ev_id (filter (\<lambda>e. ev_correlation e = Some cid) (events b)))"
    using assms(1) by (simp add: events_wf_def map_filter_strict)
  from sort_key_strict [OF this] show ?thesis using assms(2) by (simp add: apiTrace_def)
qed

section \<open>Witnesses\<close>

definition demo_urls :: url_host where
  "demo_urls = \<lparr>uh_parse = (\<lambda>u base. Some (u, [])), uh_hostname = (\<lambda>s. Some s)\<rparr>"

definition demo_ui :: ui_context where
  "demo_ui = \<lparr>ux_token = ''secret'', ux_host = ''127.0.0.1'', ux_pid = 7, ux_data_dir = ''/d''\<rparr>"

definition demo_request :: "string option \<Rightarrow> request" where
  "demo_request auth = \<lparr>rq_method = ''GET'', rq_url = ''/api/events'', rq_host = None, rq_origin = None, rq_authorization = auth\<rparr>"

lemma viewer_discloses_nothing_without_token_witness:
  "handleRequest demo_urls demo_ui (demo_bus [4, 5] 3, \<lparr>ar_buckets = [], ar_locks = []\<rparr>, []) (demo_request (Some ''Bearer guess'')) =
   handleRequest demo_urls demo_ui (demo_bus [4] 3, \<lparr>ar_buckets = [], ar_locks = []\<rparr>, []) (demo_request (Some ''Bearer guess''))"
proof -
  have "\<not> authorized (Some ''Bearer guess'') ''secret''" by code_simp
  then show ?thesis
    using viewer_discloses_nothing_without_token [of "demo_request (Some ''Bearer guess'')" demo_ui demo_urls
        "(demo_bus [4, 5] 3, \<lparr>ar_buckets = [], ar_locks = []\<rparr>, [])" "(demo_bus [4] 3, \<lparr>ar_buckets = [], ar_locks = []\<rparr>, [])" HealthBody]
    by (simp add: demo_request_def demo_ui_def)
qed

lemma viewer_pages_complete_witness:
  "map ue_id (read_batches (\<lambda>i. apiEvents (next_params i [(''limit'', ''2''), (''domain'', ''d'')]) (demo_bus [4, 5, 6, 7] 3)) ue_id 9 4) = [5, 6, 7]"
proof -
  have wf: "events_wf (demo_bus [4, 5, 6, 7] 3)" by (rule bus_wfD(1) [OF demo_bus_wf]) auto
  have r: "map ue_id (map ui_view (ui_rest [(''limit'', ''2''), (''domain'', ''d'')] 4 (demo_bus [4, 5, 6, 7] 3))) = [5, 6, 7]" by code_simp
  have "length (ui_rest [(''limit'', ''2''), (''domain'', ''d'')] 4 (demo_bus [4, 5, 6, 7] 3)) < 9"
    using arg_cong [OF r, of length] unfolding length_map list.size by linarith
  from viewer_pages_complete [OF wf this] r show ?thesis by simp
qed

definition demo_token_env :: token_env where
  "demo_token_env = \<lparr>te_uid = Some 501, te_owner = 501, te_fresh = ''c0ffee'', te_unlinks = True,
     te_before_stat = id, te_before_use = id\<rparr>"

lemma viewer_token_kept_witness:
  "\<exists>g. ensureToken demo_token_env False None = (Inr ''c0ffee'', Some g) \<and>
     ensureToken demo_token_env False (Some g) = (Inr ''c0ffee'', Some g)"
proof -
  have s: "\<forall>c\<in>set ''c0ffee''. \<not> is_space c" by code_simp
  show ?thesis
    using viewer_token_kept [of None False demo_token_env demo_token_env] s by (auto simp: demo_token_env_def)
qed

end
