(* ===== verification/BusCli.thy ===== *)
theory BusCli
  imports BusSweepV2 BusRegister BusDlq "HOL-Library.AList"
begin

text \<open>
  The other commands of the command line, under \<open>commands/\<close>: the argument parser and the global flags of
  \<open>cli.js\<close>, \<open>replay\<close>, \<open>deregister\<close>, \<open>dlq\<close>, \<open>list\<close>, the lag of \<open>status\<close>, and the dry run of \<open>cleanup\<close>.
  Proved: flags are parsed back as given, a replay makes exactly the events from the given id pending, the
  dry run foretells the sweep, which it does not for the tiered one, and the lag bounds the backlog.
\<close>

section \<open>Arguments\<close>

text \<open>The loop of \<open>parseArgs\<close>: the flags so far and the positional arguments.\<close>

fun parse_flags :: "string list \<Rightarrow> (string \<times> jsval) list \<Rightarrow> string list \<Rightarrow> (string \<times> jsval) list \<times> string list" where
  "parse_flags [] args pos = (args, pos)"
| "parse_flags [a] args pos =
     (if prefix ''--'' a then (AList.update (drop 2 a) (JBool True) args, pos) else (args, pos @ [a]))"
| "parse_flags (a # b # rest) args pos =
     (if prefix ''--'' a
      then (if prefix ''--'' b then parse_flags (b # rest) (AList.update (drop 2 a) (JBool True) args) pos
            else parse_flags rest (AList.update (drop 2 a) (JStr b) args) pos)
      else parse_flags (b # rest) args (pos @ [a]))"

definition parseArgs :: "string list \<Rightarrow> (string \<times> jsval) list" where
  "parseArgs argv = (let (args, pos) = parse_flags argv [] []
     in AList.update ''_positional'' (JArr (map JStr pos)) args)"

record cli_globals =
  gl_db_path :: jsval
  gl_json :: bool
  gl_log_level :: jsval

text \<open>\<open>x || null\<close>.\<close>

definition val_or_null :: "jsval \<Rightarrow> jsval" where
  "val_or_null v = (if truthy v then v else JNull)"

definition extract_globals :: "(string \<times> jsval) list \<Rightarrow> cli_globals \<times> (string \<times> jsval) list" where
  "extract_globals args =
     (\<lparr>gl_db_path = val_or_null (jget (JObj args) ''db-path''), gl_json = (jget (JObj args) ''json'' \<noteq> JBool False),
       gl_log_level = val_or_null (jget (JObj args) ''log-level'')\<rparr>,
      AList.delete ''log-level'' (AList.delete ''json'' (AList.delete ''db-path'' args)))"

text \<open>The overrides every command passes to \<open>loadConfig\<close>.\<close>

definition config_overrides :: "cli_globals \<Rightarrow> (string \<times> jsval) list" where
  "config_overrides g =
     (if truthy (gl_db_path g) then [(''db_path'', gl_db_path g)] else []) @
     (if truthy (gl_log_level g) then [(''log_level'', gl_log_level g)] else [])"

text \<open>What \<open>main\<close> does with the arguments after the program name.\<close>

datatype cli_action =
    PrintVersion
  | UsageExit nat
  | RunCommand string "(string \<times> jsval) list" cli_globals

definition COMMANDS :: "string list" where
  "COMMANDS = [''init'', ''emit'', ''subscribe'', ''status'', ''replay'', ''cleanup'', ''register'', ''deregister'', ''list'',
     ''ack'', ''dlq'', ''daemon'', ''ui'']"

definition cli_main :: "string list \<Rightarrow> cli_action" where
  "cli_main argv =
     (case argv of
        [] \<Rightarrow> UsageExit 0
      | command # flags \<Rightarrow>
          if command = ''--version'' \<or> command = ''-v'' then PrintVersion
          else (case extract_globals (parseArgs flags) of (globals, args) \<Rightarrow>
                if command \<in> set COMMANDS then RunCommand command args globals
                else UsageExit (if command \<noteq> [] then 1 else 0)))"

section \<open>replay\<close>

definition set_position :: "string \<Rightarrow> int \<Rightarrow> bus \<Rightarrow> bus" where
  "set_position cid pos b = b\<lparr>cursors := map (\<lambda>c. if cu_id c = cid then c\<lparr>cu_last := pos\<rparr> else c) (cursors b)\<rparr>"

definition replay_args :: "host \<Rightarrow> jsval \<Rightarrow> (jsval \<times> jsnum) res" where
  "replay_args h args =
     (let cid = jget args ''cursor-id''; from = js_Number h (jget args ''from-event-id'') in
      if \<not> truthy cid then Inl (PlainError ''--cursor-id is required'')
      else if from = NaN then Inl (PlainError ''--from-event-id must be a number'')
      else Inr (cid, from))"

text \<open>After the arguments have been read, for a cursor id given with a value and an integer event id.\<close>

definition cmdReplay :: "bus \<Rightarrow> string \<Rightarrow> int \<Rightarrow> int res \<times> bus" where
  "cmdReplay b cid from =
     (case find_cursor b cid of
        None \<Rightarrow> (Inl (cursor_not_found cid ''cursor not found or deregistered''), b)
      | Some c \<Rightarrow>
          if \<not> cursor_active c then (Inl (cursor_not_found cid ''cursor not found or deregistered''), b)
          else (case min_event_id b of
                  Some m \<Rightarrow>
                    if from < m
                    then (Inl (WB WB003 [(''cursor_last_event_id'', jint (cu_last c)), (''oldest_available_event_id'', jint m)]), b)
                    else (Inr (from - 1), set_position cid (from - 1) b)
                | None \<Rightarrow> (Inr (from - 1), set_position cid (from - 1) b)))"

section \<open>deregister\<close>

definition flag_value :: "jsval \<Rightarrow> jsval option" where
  "flag_value v = (if truthy v \<and> v \<noteq> JBool True then Some v else None)"

definition invalid_args :: "string \<Rightarrow> js_error" where
  "invalid_args reason = WB WB001 [(''reason'', JStr reason)]"

text \<open>The checks before the database is opened: the subscription, or the plugin and the role.\<close>

definition deregister_args :: "jsval \<Rightarrow> (jsval option \<times> jsval option \<times> string option) res" where
  "deregister_args args =
     (let sid = flag_value (jget args ''subscription-id''); plugin = flag_value (jget args ''plugin''); role = jget args ''role'' in
      if role = JBool True then Inl (invalid_args ''invalid --role'')
      else if sid = None \<and> plugin = None then Inl (invalid_args ''missing --subscription-id / --plugin'')
      else if nullish role then Inr (sid, plugin, None)
      else if role = JStr ''subscriber'' then Inr (sid, plugin, Some ''subscriber'')
      else if role = JStr ''provider'' then Inr (sid, plugin, Some ''provider'')
      else Inl (invalid_args ''invalid --role''))"

definition cmdDeregister :: "bus \<Rightarrow> jsval \<Rightarrow> rat \<Rightarrow> bool \<Rightarrow> (string list) res \<times> bus" where
  "cmdDeregister b args now io_ok =
     (case deregister_args args of
        Inl e \<Rightarrow> (Inl e, b)
      | Inr (Some (JStr sid), _, _) \<Rightarrow>
          (case deregister b sid now io_ok of (Inl e, b1) \<Rightarrow> (Inl e, b1) | (Inr (s, _), b1) \<Rightarrow> (Inr [s], b1))
      | Inr (_, Some plugin, role) \<Rightarrow> deregister_by_plugin b plugin role now io_ok
      | Inr (_, None, _) \<Rightarrow> (Inl (PlainError ''TypeError''), b))"

section \<open>dlq\<close>

definition parseDlId :: "host \<Rightarrow> jsval \<Rightarrow> int res" where
  "parseDlId h args =
     (let raw = jget args ''dl-id'' in
      if nullish raw \<or> raw = JBool True then Inl (invalid_args ''missing --dl-id'')
      else (case parse_int (js_String h raw) of
              Some i \<Rightarrow> if i \<le> 0 then Inl (invalid_args ''invalid --dl-id'') else Inr i
            | None \<Rightarrow> Inl (invalid_args ''invalid --dl-id'')))"

datatype dlq_output = Listed "dl_view list" | WouldReplay dead_letter_row | Replayed int rat | DlqDropped int

definition text_flag :: "host \<Rightarrow> jsval \<Rightarrow> string option" where
  "text_flag h v = (if truthy v then Some (js_String h v) else None)"

definition cmdDlq :: "host \<Rightarrow> bus \<Rightarrow> jsval \<Rightarrow> string list \<Rightarrow> rat \<Rightarrow> dlq_output res \<times> bus" where
  "cmdDlq h b args positional now =
     (case positional of
        [] \<Rightarrow> (Inl (invalid_args ''missing dlq subcommand''), b)
      | sub # _ \<Rightarrow>
          if sub = [] then (Inl (invalid_args ''missing dlq subcommand''), b)
          else if sub = ''list'' then
            (if jget args ''plugin'' = JBool True \<or> jget args ''cursor-id'' = JBool True then (Inl (PlainError ''TypeError''), b)
             else case listDeadLetters h b (text_flag h (jget args ''plugin'')) (text_flag h (jget args ''cursor-id''))
                (if truthy (jget args ''limit'')
                 then (case parse_int (js_String h (jget args ''limit'')) of Some i \<Rightarrow> jint i | None \<Rightarrow> JNum NaN) else JUndef) of
               Inl e \<Rightarrow> (Inl e, b) | Inr rows \<Rightarrow> (Inr (Listed rows), b))
          else if sub = ''replay'' then
            (case parseDlId h args of
               Inl e \<Rightarrow> (Inl e, b)
             | Inr i \<Rightarrow>
                 if truthy (jget args ''dry-run'')
                 then (case find (\<lambda>d. dl_id d = i) (dead_letters b) of
                         None \<Rightarrow> (Inl (dl_not_found i), b)
                       | Some d \<Rightarrow> (Inr (WouldReplay d), b))
                 else (case replayDeadLetter b i now of (Inl e, b1) \<Rightarrow> (Inl e, b1) | (Inr (j, t), b1) \<Rightarrow> (Inr (Replayed j t), b1)))
          else if sub = ''drop'' then
            (case parseDlId h args of
               Inl e \<Rightarrow> (Inl e, b)
             | Inr i \<Rightarrow> (case dropDeadLetter b i of (Inl e, b1) \<Rightarrow> (Inl e, b1) | (Inr j, b1) \<Rightarrow> (Inr (DlqDropped j), b1)))
          else (Inl (invalid_args ''unknown dlq subcommand''), b))"

section \<open>list and status\<close>

text \<open>A flag without a value is \<open>true\<close>, which the driver refuses to bind.\<close>

definition cmdList :: "host \<Rightarrow> bus \<Rightarrow> jsval \<Rightarrow> (subscription_row list) res" where
  "cmdList h b args = (if jget args ''role'' = JBool True then Inl (PlainError ''TypeError'') else Inr (rev (sort_key su_registered_at (rev (filter (\<lambda>s.
       (truthy (jget args ''role'') \<longrightarrow> jget args ''role'' = JStr (case su_role s of Provider \<Rightarrow> ''provider'' | Subscriber \<Rightarrow> ''subscriber'')) \<and>
       (truthy (jget args ''include-deregistered'') \<or> sub_active s)) (subscriptions b))))))"

record status_line =
  st_sub :: string
  st_plugin :: string
  st_filter :: string
  st_cursor :: string
  st_last :: int
  st_lag :: int
  st_acked :: "rat option"

definition newest_id :: "bus \<Rightarrow> int" where
  "newest_id b = (case max_event_id b of Some m \<Rightarrow> m | None \<Rightarrow> 0)"

definition status_subscribers :: "bus \<Rightarrow> status_line list" where
  "status_subscribers b = concat (map (\<lambda>s. if su_role s = Subscriber \<and> sub_active s
     then map (\<lambda>c. \<lparr>st_sub = su_id s, st_plugin = su_plugin s, st_filter = su_filter s, st_cursor = cu_id c, st_last = cu_last c,
            st_lag = newest_id b - cu_last c, st_acked = cu_acked_at c\<rparr>)
          (filter (\<lambda>c. cu_sub c = su_id s \<and> cursor_active c) (cursors b))
     else []) (subscriptions b))"

section \<open>The dry run of cleanup\<close>

definition dry_moved :: "bus \<Rightarrow> rat \<Rightarrow> int \<Rightarrow> int list \<Rightarrow> int list" where
  "dry_moved b now batch held =
     js_slice0 batch (filter (\<lambda>i. i \<notin> set held) (map ev_id (select_events (expired now) (batch + int (length held)) b)))"

definition dry_verb :: "unacked_policy \<Rightarrow> bool \<Rightarrow> disposition" where
  "dry_verb policy tiered = (if policy = Retain then Retained else if policy = Archive \<or> tiered then Archived else Discarded)"

definition dry_fate :: "unacked_policy \<Rightarrow> bool \<Rightarrow> int list option \<Rightarrow> owed \<Rightarrow> disposition \<times> reason" where
  "dry_fate policy tiered moved p =
     (if \<not> (policy = Retain \<and> ow_over_cap p) then (dry_verb policy tiered, ByPolicy)
      else (case moved of
              Some ids \<Rightarrow> if ow_event p \<notin> set ids then (Retained, CapPending) else (Archived, ByCap)
            | None \<Rightarrow> (Archived, ByCap)))"

text \<open>The number of events moved or deleted, and the report. \<open>batch\<close> is \<open>sweep_batch_size\<close>.\<close>

definition cleanup_dry_run :: "unacked_policy \<Rightarrow> rat \<Rightarrow> bool \<Rightarrow> int option \<Rightarrow> rat \<Rightarrow> bus \<Rightarrow> int \<times> report" where
  "cleanup_dry_run policy capDays tiered batch now b =
     (let pairs = owedPairsWithCap b now capDays;
          held = held_ids policy pairs;
          all_expired = length (filter (expired now) (events b));
          moved = (if tiered then Some (dry_moved b now (case batch of Some n \<Rightarrow> n | None \<Rightarrow> 5000) held) else None)
      in (case moved of Some ids \<Rightarrow> int (length (remdups ids)) | None \<Rightarrow> int all_expired - int (length held),
          buildUnackedReport pairs (dry_fate policy tiered moved) policy capDays))"

section \<open>Flags\<close>

definition render_flags :: "(string \<times> string) list \<Rightarrow> string list" where
  "render_flags kvs = concat (map (\<lambda>(k, v). [''--'' @ k, v]) kvs)"

lemma update_fresh: "k \<notin> set (map fst kvs) \<Longrightarrow> AList.update k v kvs = kvs @ [(k, v)]"
  by (induction kvs) auto

lemma parse_render:
  "distinct (map fst acc @ map fst kvs) \<Longrightarrow> \<forall>kv\<in>set kvs. \<not> prefix ''--'' (snd kv) \<Longrightarrow>
   parse_flags (render_flags kvs) acc pos = (acc @ map (\<lambda>(k, v). (k, JStr v)) kvs, pos)"
proof (induction kvs arbitrary: acc)
  case Nil
  then show ?case by (simp add: render_flags_def)
next
  case (Cons kv kvs)
  obtain k v where kv: "kv = (k, v)" by (cases kv)
  have up: "AList.update k (JStr v) acc = acc @ [(k, JStr v)]" using Cons.prems(1) kv by (intro update_fresh) auto
  have "distinct (map fst (acc @ [(k, JStr v)]) @ map fst kvs)" using Cons.prems(1) kv by auto
  from Cons.IH [OF this] Cons.prems(2) kv up show ?case by (simp add: render_flags_def)
qed

text \<open>Flags are read back as given: the arguments \<open>--k v\<close> for any keys, each used once, and any values that do
  not themselves begin with two dashes, are parsed into exactly these settings, with no positional
  argument.\<close>

theorem flags_parsed_back:
  assumes "distinct (map fst kvs)" and "\<forall>kv\<in>set kvs. \<not> prefix ''--'' (snd kv)" and "''_positional'' \<notin> fst ` set kvs"
  shows "parseArgs (render_flags kvs) = map (\<lambda>(k, v). (k, JStr v)) kvs @ [(''_positional'', JArr [])]"
proof -
  have keys: "map fst (map (\<lambda>(k, v). (k, JStr v)) kvs) = map fst kvs" by (induction kvs) auto
  have "''_positional'' \<notin> set (map fst (map (\<lambda>(k, v). (k, JStr v)) kvs))" unfolding keys using assms(3) by simp
  from update_fresh [OF this, of "JArr []"] parse_render [of "[]" kvs "[]"] assms(1,2) show ?thesis
    by (simp add: parseArgs_def)
qed

section \<open>Replay\<close>

lemma find_cursor_set_position:
  "find_cursor (set_position cid n b) c = map_option (\<lambda>x. if c = cid then x\<lparr>cu_last := n\<rparr> else x) (find_cursor b c)"
proof -
  have "find (\<lambda>x. cu_id x = c) (map (\<lambda>x. if cu_id x = cid then x\<lparr>cu_last := n\<rparr> else x) xs) =
      map_option (\<lambda>x. if c = cid then x\<lparr>cu_last := n\<rparr> else x) (find (\<lambda>x. cu_id x = c) xs)" for xs
    by (induction xs) auto
  then show ?thesis by (simp add: find_cursor_def set_position_def)
qed

lemma set_position_sel [simp]:
  "events (set_position cid n b) = events b" "events_seq (set_position cid n b) = events_seq b"
  "subscriptions (set_position cid n b) = subscriptions b" "dead_letters (set_position cid n b) = dead_letters b"
  "dead_letters_seq (set_position cid n b) = dead_letters_seq b" "delivery_attempts (set_position cid n b) = delivery_attempts b"
  by (simp_all add: set_position_def)

lemma set_position_wf: "bus_wf b \<Longrightarrow> bus_wf (set_position cid n b)"
proof -
  assume wf: "bus_wf b"
  have ids: "map cu_id (cursors (set_position cid n b)) = map cu_id (cursors b)" "map cu_sub (cursors (set_position cid n b)) = map cu_sub (cursors b)"
    by (simp_all add: set_position_def)
  from ids have "cu_id ` set (cursors (set_position cid n b)) = cu_id ` set (cursors b)"
    "cu_sub ` set (cursors (set_position cid n b)) = cu_sub ` set (cursors b)" by (metis list.set_map)+
  with ids wf show ?thesis unfolding wf_defs by simp
qed

text \<open>A replay makes the events from the given id pending again, and nothing else: it succeeds exactly for an
  active cursor and an id that is not below the oldest stored one; then the next poll returns the first
  batch of the matching events with at least that id. Otherwise nothing is changed.\<close>

theorem replay_makes_pending:
  assumes "bus_wf b" and "cursor_position b cid = Some p" and "cursor_filter b cid = Some f" and "0 < n"
  shows "case cmdReplay b cid from of
      (Inr q, b') \<Rightarrow> q = from - 1 \<and> events b' = events b \<and> (\<forall>m. min_event_id b = Some m \<longrightarrow> m \<le> from) \<and>
        poll b' cid (Some n) None = Inr (sql_limit n (filter (\<lambda>e. from \<le> ev_id e \<and> event_matches f e) (events b)))
    | (Inl e, b') \<Rightarrow> b' = b \<and> is_wb WB003 e \<and> (\<exists>m. min_event_id b = Some m \<and> from < m)"
proof -
  from position_filter [OF assms(1,2)] assms(3) obtain c s where c: "find_cursor b cid = Some c" "cursor_active c"
    and s: "find_sub b (cu_sub c) = Some s" "su_filter s = f" by auto
  show ?thesis
  proof (cases "\<exists>m. min_event_id b = Some m \<and> from < m")
    case True
    with c show ?thesis by (auto simp: cmdReplay_def is_wb_def)
  next
    case False
    let ?b = "set_position cid (from - 1) b"
    have r: "cmdReplay b cid from = (Inr (from - 1), ?b)"
      using False c by (auto simp: cmdReplay_def split: option.split)
    have wf: "bus_wf ?b" using assms(1) by (rule set_position_wf)
    have pos: "cursor_position ?b cid = Some (from - 1)"
      using c by (simp add: cursor_position_def find_cursor_set_position cursor_active_def)
    have fl: "cursor_filter ?b cid = Some f"
      using c s by (simp add: cursor_filter_def find_cursor_set_position find_sub_def)
    have mn: "min_event_id ?b = min_event_id b" by (simp add: min_event_id_def)
    have "pending ?b f (from - 1) = filter (\<lambda>e. from \<le> ev_id e \<and> event_matches f e) (events b)"
      unfolding pending_def by (auto intro: filter_cong)
    with poll_eq [OF wf pos fl, of "Some n" None] mn False assms(4) have
      "poll ?b cid (Some n) None = Inr (sql_limit n (filter (\<lambda>e. from \<le> ev_id e \<and> event_matches f e) (events b)))"
      by (auto simp: effective_batch_def not_less split: option.split)
    with r False show ?thesis by auto
  qed
qed

section \<open>The dry run and the sweep\<close>

lemma length_split: "length (filter P xs) = length (filter (\<lambda>x. P x \<and> Q x) xs) + length (filter (\<lambda>x. P x \<and> \<not> Q x) xs)"
  by (induction xs) auto

lemma held_ids_set:
  assumes "bus_wf b"
  shows "set (held_ids Retain (owedPairsWithCap b now days)) =
     ev_id ` set (filter (\<lambda>e. expired now e \<and> owed_event b now e \<and> \<not> past_cap now days e) (events b))"
proof (intro equalityI subsetI)
  fix i assume "i \<in> set (held_ids Retain (owedPairsWithCap b now days))"
  then obtain p where p: "p \<in> set (owedPairsWithCap b now days)" "\<not> ow_over_cap p" "i = ow_event p"
    by (auto simp: held_ids_def)
  from owed_pairs_event [OF assms p(1)] obtain e where e: "e \<in> set (events b)" "ev_id e = ow_event p"
    "ow_over_cap p = (ev_emitted_at e < now - days * DAY_MS)" by blast
  have "owed_event b now e" using owed_pairs_owes [OF assms p(1)] e(2) unfolding owed_event_iff [OF assms] by auto
  with owed_expired [OF assms e(1)] e(1,3) p(2)
  have "e \<in> set (filter (\<lambda>e. expired now e \<and> owed_event b now e \<and> \<not> past_cap now days e) (events b))"
    by (simp add: past_cap_def)
  moreover have "i = ev_id e" using p(3) e(2) by simp
  ultimately show "i \<in> ev_id ` set (filter (\<lambda>e. expired now e \<and> owed_event b now e \<and> \<not> past_cap now days e) (events b))"
    by (rule rev_image_eqI)
next
  fix i assume "i \<in> ev_id ` set (filter (\<lambda>e. expired now e \<and> owed_event b now e \<and> \<not> past_cap now days e) (events b))"
  then obtain e where e: "e \<in> set (events b)" "owed_event b now e" "\<not> past_cap now days e" "i = ev_id e" by auto
  from e(2) obtain cid where "owes b now cid (ev_id e)" unfolding owed_event_iff [OF assms] by blast
  from owed_pair_exists [OF assms this, of days] obtain p where p: "p \<in> set (owedPairsWithCap b now days)" "ow_event p = ev_id e" by blast
  from owed_pairs_event [OF assms p(1)] obtain x where "x \<in> set (events b)" "ev_id x = ow_event p"
    "ow_over_cap p = (ev_emitted_at x < now - days * DAY_MS)" by blast
  moreover with events_wf_inj [OF bus_wfD(1) [OF assms], of x e] e(1) p(2) have "x = e" by simp
  ultimately show "i \<in> set (held_ids Retain (owedPairsWithCap b now days))"
    using p e(3,4) by (force simp: held_ids_def past_cap_def)
qed

text \<open>The dry run of the in-database sweep announces what the sweep does.\<close>

lemma dry_run_foretells_sweep:
  assumes "bus_wf b"
  shows "cleanup_dry_run policy days False batch now b =
     (int (sr_deleted (fst (sweep_txn policy days archive_mode now b))), sr_unacked (fst (sweep_txn policy days archive_mode now b)))"
proof -
  have fate: "dry_fate policy False None = sweep_fate policy"
    by (rule ext) (cases policy; simp add: dry_fate_def sweep_fate_def dry_verb_def)
  have rep: "sr_unacked (fst (sweep_txn policy days archive_mode now b)) =
      buildUnackedReport (owedPairsWithCap b now days) (sweep_fate policy) policy days"
    by (simp add: sweep_txn_def Let_def)
  let ?held = "held_ids policy (owedPairsWithCap b now days)"
  let ?kept = "\<lambda>e. expired now e \<and> event_fate policy days archive_mode now b e = Live"
  have live: "event_fate policy days archive_mode now b e \<noteq> Live \<longleftrightarrow> expired now e \<and> event_fate policy days archive_mode now b e \<noteq> Live" for e
    by (auto simp: event_fate_def swept_to_def)
  have kept: "length (filter ?kept (events b)) = length ?held"
  proof (cases "policy = Retain")
    case True
    have "filter ?kept (events b) = filter (\<lambda>e. expired now e \<and> owed_event b now e \<and> \<not> past_cap now days e) (events b)"
      using True by (intro filter_cong) (auto simp: event_fate_def swept_to_def)
    moreover have "distinct (map ev_id (filter P (events b)))" for P
      using bus_wfD(1) [OF assms] by (intro sorted_strict_imp_distinct map_filter_strict) (simp add: events_wf_def)
    then have "length (filter P (events b)) = card (ev_id ` set (filter P (events b)))" for P
      by (metis distinct_card length_map list.set_map)
    moreover have "length ?held = card (set ?held)" by (simp add: held_ids_def length_remdups_card_conv)
    ultimately show ?thesis using held_ids_set [OF assms] True by simp
  next
    case False
    then have "filter ?kept (events b) = []"
      by (auto simp: event_fate_def swept_to_def filter_empty_conv split: unacked_policy.split)
    with False show ?thesis by (simp add: held_ids_def)
  qed
  have "length (filter (expired now) (events b)) = length ?held + sr_deleted (fst (sweep_txn policy days archive_mode now b))"
    unfolding sweep_txn_deleted [OF assms] kept [symmetric] using live
      length_split [of "expired now" "events b" "\<lambda>e. event_fate policy days archive_mode now b e = Live"] by simp
  then show ?thesis by (simp add: cleanup_dry_run_def Let_def fate rep)
qed

text \<open>For the tiered sweep under \<open>discard\<close> the two differ: the dry run calls archived what the sweep discards.\<close>

lemma tiered_discard_announced_as_archived:
  "fst (dry_fate Discard True moved p) = Archived" "fst (fate2 Discard ids p) = Discarded"
  by (simp_all add: dry_fate_def dry_verb_def fate2_def)

section \<open>The lag\<close>

lemma strict_between:
  fixes xs :: "int list"
  assumes "sorted_wrt (<) xs" and "\<forall>x\<in>set xs. l < x \<and> x \<le> u" and "l \<le> u"
  shows "int (length xs) \<le> u - l"
proof -
  have "distinct xs" using assms(1) by (rule sorted_strict_imp_distinct)
  then have "length xs = card (set xs)" by (simp add: distinct_card)
  also have "\<dots> \<le> card {l <.. u}" using assms(2) by (intro card_mono) auto
  finally show ?thesis using assms(3) by simp
qed

text \<open>The reported lag bounds the backlog: for every active subscriber whose position is not above the newest
  stored id, at most \<open>lag\<close> events are pending; but when every event has been swept, \<open>newest\<close> counts as 0
  and the lag is the position negated.\<close>

theorem lag_bounds_backlog:
  assumes "bus_wf b" and "l \<in> set (status_subscribers b)"
  shows "(st_last l \<le> newest_id b \<longrightarrow> int (length (pending b (st_filter l) (st_last l))) \<le> st_lag l) \<and>
    (events b = [] \<longrightarrow> st_lag l = - st_last l)"
proof -
  from assms(2) have lag: "st_lag l = newest_id b - st_last l" by (auto simp: status_subscribers_def split: if_splits)
  have "int (length (pending b (st_filter l) (st_last l))) \<le> newest_id b - st_last l" if "st_last l \<le> newest_id b"
  proof -
    have "ev_id e \<le> newest_id b" if "e \<in> set (events b)" for e
    proof (cases "max_event_id b")
      case None
      with that show ?thesis by (simp add: max_event_id_None)
    next
      case (Some m)
      with that max_event_id_Some [OF Some] show ?thesis by (simp add: newest_id_def)
    qed
    then have "\<forall>x\<in>set (map ev_id (pending b (st_filter l) (st_last l))). st_last l < x \<and> x \<le> newest_id b"
      by (auto simp: set_pending)
    from strict_between [OF pending_sorted [OF bus_wfD(1) [OF assms(1)]] this that] show ?thesis by simp
  qed
  moreover have "newest_id b = 0" if "events b = []" using that by (simp add: newest_id_def max_event_id_def)
  ultimately show ?thesis using lag by simp
qed

section \<open>Witnesses\<close>

lemma flags_parsed_back_witness:
  "parseArgs [''--db-path'', ''/tmp/bus.db'', ''--plugin'', ''p''] =
     [(''db-path'', JStr ''/tmp/bus.db''), (''plugin'', JStr ''p''), (''_positional'', JArr [])]"
  using flags_parsed_back [of "[(''db-path'', ''/tmp/bus.db''), (''plugin'', ''p'')]"] by (simp add: render_flags_def)

lemma replay_makes_pending_witness:
  "map ev_id (case poll (snd (cmdReplay (demo_bus [4, 5, 6] 6) ''c'' 5)) ''c'' (Some 9) None of Inr es \<Rightarrow> es | Inl _ \<Rightarrow> []) = [5, 6]"
proof -
  let ?b = "demo_bus [4, 5, 6] 6"
  have wf: "bus_wf ?b" by (rule demo_bus_wf) auto
  have r: "\<exists>b'. cmdReplay ?b ''c'' 5 = (Inr 4, b')" by (simp add: cmdReplay_def demo_bus_def demo_row_def empty_bus_def
        find_cursor_def cursor_active_def min_event_id_def)
  have f: "map ev_id (filter (\<lambda>e. 5 \<le> ev_id e \<and> event_matches ''wicked.*'' e) (events ?b)) = [5, 6]" by code_simp
  from r obtain b' where b: "cmdReplay ?b ''c'' 5 = (Inr 4, b')" by blast
  from replay_makes_pending [OF wf demo_bus_cursor, of 9 5] b
  have "poll b' ''c'' (Some 9) None = Inr (sql_limit 9 (filter (\<lambda>e. 5 \<le> ev_id e \<and> event_matches ''wicked.*'' e) (events ?b)))"
    by simp
  with b f show ?thesis by (simp add: sql_limit_def take_map [symmetric])
qed

lemma lag_bounds_backlog_witness:
  "\<exists>l. status_subscribers (demo_bus [4, 5, 6] 4) = [l] \<and> st_lag l = 2 \<and>
     length (pending (demo_bus [4, 5, 6] 4) (st_filter l) (st_last l)) \<le> 2"
proof -
  let ?b = "demo_bus [4, 5, 6] 4"
  have wf: "bus_wf ?b" by (rule demo_bus_wf) auto
  have "status_subscribers ?b = [\<lparr>st_sub = ''s'', st_plugin = ''p'', st_filter = ''wicked.*'', st_cursor = ''c'',
      st_last = 4, st_lag = 2, st_acked = None\<rparr>]" by code_simp
  then obtain l where l: "status_subscribers ?b = [l]" "st_lag l = 2" "st_last l = 4" by simp
  have "newest_id ?b = 6" by code_simp
  with lag_bounds_backlog [OF wf, of l] l show ?thesis by simp
qed

end
