(* ===== verification/BusUiCli.thy ===== *)
theory BusUiCli
  imports BusUi BusCli
begin

text \<open>
  The \<open>ui\<close> command, \<open>commands/cmd-ui.js\<close>: the options of the foreground server and the arguments the
  detached start gives its child. Proved: the child parses them back to the same host, port and rotation.
\<close>

section \<open>The options\<close>

definition ui_rotates :: "(string \<times> jsval) list \<Rightarrow> bool" where
  "ui_rotates args \<longleftrightarrow> jget (JObj args) ''rotate-token'' = JBool True \<or> jget (JObj args) ''rotate_token'' = JBool True"

definition ui_detaches :: "(string \<times> jsval) list \<Rightarrow> bool" where
  "ui_detaches args \<longleftrightarrow> jget (JObj args) ''detached'' = JBool True \<or> jget (JObj args) ''detach'' = JBool True"

record ui_options =
  uo_host :: jsval
  uo_port :: jsnum
  uo_rotate :: bool

definition ui_foreground :: "host \<Rightarrow> (string \<times> jsval) list \<Rightarrow> ui_options" where
  "ui_foreground h args =
     (let host = jget (JObj args) ''host''; port = jget (JObj args) ''port'' in
      \<lparr>uo_host = (if nullish host then JStr ''127.0.0.1'' else host),
       uo_port = (if nullish port then Fin 7842 else js_Number h port), uo_rotate = ui_rotates args\<rparr>)"

definition ui_port_text :: "host \<Rightarrow> (string \<times> jsval) list \<Rightarrow> string" where
  "ui_port_text h args = (let v = jget (JObj args) ''port'' in if truthy v then js_String h v else ''7842'')"

definition ui_host_text :: "host \<Rightarrow> (string \<times> jsval) list \<Rightarrow> string" where
  "ui_host_text h args = (let v = jget (JObj args) ''host'' in if truthy v then js_String h v else ''127.0.0.1'')"

definition ui_child_args :: "host \<Rightarrow> (string \<times> jsval) list \<Rightarrow> string list" where
  "ui_child_args h args =
     [''ui'', ''--no-detach'', ''--port'', ui_port_text h args, ''--host'', ui_host_text h args] @
     (if ui_rotates args then [''--rotate-token''] else [])"

section \<open>Waiting for the server\<close>

text \<open>The clock and the answer of \<open>/healthz\<close> at every round, as in \<open>waitForUi\<close>.\<close>

fun waitForUi :: "rat \<Rightarrow> (rat \<times> bool) list \<Rightarrow> bool option" where
  "waitForUi deadline [] = None"
| "waitForUi deadline ((now, healthy) # rounds) =
     (if now < deadline then (if healthy then Some True else waitForUi deadline rounds) else Some False)"

section \<open>The child\<close>

text \<open>The child of a detached start serves what was asked for, in the foreground.\<close>

lemma ui_child_options:
  assumes "\<not> prefix ''--'' (ui_port_text h args)" and "\<not> prefix ''--'' (ui_host_text h args)"
  shows "\<exists>globals cargs. cli_main (ui_child_args h args) = RunCommand ''ui'' cargs globals \<and> \<not> ui_detaches cargs \<and>
     ui_foreground h cargs = \<lparr>uo_host = JStr (ui_host_text h args), uo_port = js_Number h (JStr (ui_port_text h args)),
       uo_rotate = ui_rotates args\<rparr>"
  using assms
  by (cases "ui_rotates args")
    (simp_all add: ui_child_args_def cli_main_def COMMANDS_def parseArgs_def extract_globals_def Let_def ui_foreground_def
      ui_detaches_def, simp_all add: ui_rotates_def)

lemma waitForUi_ends: "\<exists>x\<in>set rounds. deadline \<le> fst x \<Longrightarrow> waitForUi deadline rounds \<noteq> None"
  by (induction deadline rounds rule: waitForUi.induct) auto

end
