(* ===== verification/BusLock.thy ===== *)
theory BusLock
  imports BusValues
begin

text \<open>
  The daemon singleton, \<open>lib/daemon-singleton.js\<close>: the lock file as it is acquired step by step by
  several processes at once, and the coordination of spawn attempts. Proved: an established lock is
  exclusive whatever other processes do, an uncontended acquisition ends with the lock or with the
  holder's id, and that two processes can nevertheless get the lock when they start together.
\<close>

section \<open>The lock file\<close>

text \<open>
  \<open>lf_owner\<close> is the process that created the file: text is written through the descriptor of that
  creation, and does not appear once the name has been unlinked. Process ids are positive.
\<close>

record lock_file =
  lf_owner :: nat
  lf_text :: string

datatype lock_pc =
    Idle
  | TryOpen
  | Opened
  | Reading
  | Judging "int option"
  | Unlinking
  | Held
  | AlreadyRunning int

text \<open>\<open>parseInt(text, 10) || null\<close>; an unreadable file gives \<open>null\<close> as well.\<close>

definition prior_pid :: "lock_file option \<Rightarrow> int option" where
  "prior_pid f = (case f of
      None \<Rightarrow> None
    | Some x \<Rightarrow> (case parse_int (lf_text x) of Some n \<Rightarrow> if n = 0 then None else Some n | None \<Rightarrow> None))"

text \<open>\<open>process.kill(pid, 0)\<close> succeeds, or fails with \<open>EPERM\<close>, exactly for the processes alive.\<close>

definition pidIsAlive :: "nat set \<Rightarrow> int \<Rightarrow> bool" where
  "pidIsAlive live p \<longleftrightarrow> 0 < p \<and> nat p \<in> live"

text \<open>One system call of \<open>acquireDaemonLock\<close> in process \<open>p\<close>.\<close>

fun acquireDaemonLock :: "nat set \<Rightarrow> nat \<Rightarrow> lock_pc \<Rightarrow> lock_file option \<Rightarrow> (lock_pc \<times> lock_file option) option" where
  "acquireDaemonLock live p TryOpen f =
     (case f of
        None \<Rightarrow> Some (Opened, Some \<lparr>lf_owner = p, lf_text = []\<rparr>)
      | Some _ \<Rightarrow> Some (Reading, f))"
| "acquireDaemonLock live p Opened f =
     Some (Held, (case f of
        Some x \<Rightarrow> if lf_owner x = p then Some (x\<lparr>lf_text := int_str (int p)\<rparr>) else f
      | None \<Rightarrow> None))"
| "acquireDaemonLock live p Reading f = Some (Judging (prior_pid f), f)"
| "acquireDaemonLock live p (Judging q) f =
     (case q of
        Some n \<Rightarrow> if pidIsAlive live n then Some (AlreadyRunning n, f) else Some (Unlinking, f)
      | None \<Rightarrow> Some (Unlinking, f))"
| "acquireDaemonLock live p Unlinking f = Some (TryOpen, None)"
| "acquireDaemonLock live p _ f = None"

definition release :: "lock_file option \<Rightarrow> lock_file option" where
  "release f = None"

section \<open>Several processes\<close>

record lock_state =
  ls_file :: "lock_file option"
  ls_pc :: "nat \<Rightarrow> lock_pc"
  ls_live :: "nat set"

inductive lock_step :: "nat \<Rightarrow> lock_state \<Rightarrow> lock_state \<Rightarrow> bool" where
  enters: "p \<in> ls_live s \<Longrightarrow> ls_pc s p \<in> {Idle} \<union> range AlreadyRunning \<Longrightarrow>
     lock_step p s (s\<lparr>ls_pc := (ls_pc s)(p := TryOpen)\<rparr>)"
| acquires: "p \<in> ls_live s \<Longrightarrow> acquireDaemonLock (ls_live s) p (ls_pc s p) (ls_file s) = Some (q, f) \<Longrightarrow>
     lock_step p s (s\<lparr>ls_pc := (ls_pc s)(p := q), ls_file := f\<rparr>)"
| releases: "p \<in> ls_live s \<Longrightarrow> ls_pc s p = Held \<Longrightarrow>
     lock_step p s (s\<lparr>ls_pc := (ls_pc s)(p := Idle), ls_file := release (ls_file s)\<rparr>)"
| dies: "lock_step p s (s\<lparr>ls_live := ls_live s - {p}\<rparr>)"
| starts: "p \<notin> ls_live s \<Longrightarrow> 0 < p \<Longrightarrow>
     lock_step p s (s\<lparr>ls_live := insert p (ls_live s), ls_pc := (ls_pc s)(p := Idle)\<rparr>)"

text \<open>Steps of processes other than \<open>p\<close>.\<close>

definition others_step :: "nat \<Rightarrow> lock_state \<Rightarrow> lock_state \<Rightarrow> bool" where
  "others_step p s s' \<longleftrightarrow> (\<exists>q. q \<noteq> p \<and> lock_step q s s')"

text \<open>A process alone, with enough steps for two rounds of the loop.\<close>

fun acquire_alone :: "nat \<Rightarrow> nat set \<Rightarrow> nat \<Rightarrow> lock_pc \<Rightarrow> lock_file option \<Rightarrow> lock_pc \<times> lock_file option" where
  "acquire_alone 0 live p pc f = (pc, f)"
| "acquire_alone (Suc n) live p pc f =
     (case acquireDaemonLock live p pc f of Some (pc', f') \<Rightarrow> acquire_alone n live p pc' f' | None \<Rightarrow> (pc, f))"

section \<open>Coordinated spawning\<close>

datatype spawn_result = Spawned | DaemonRunning | SpawnTimedOut

text \<open>\<open>Math.max(1, Math.floor(jittered))\<close>, with the random number in [0, 1).\<close>

definition backoff_ms :: "rat \<Rightarrow> rat \<Rightarrow> rat \<Rightarrow> nat \<Rightarrow> rat \<Rightarrow> int" where
  "backoff_ms base maxBackoff jitter attempt rnd =
     (let sleepMs = min (base * 2 ^ attempt) maxBackoff;
          jittered = sleepMs * (1 + (rnd * 2 - 1) * jitter)
      in max 1 \<lfloor>jittered\<rfloor>)"

text \<open>The loser's loop: the clock and the answer of the probe at every round; it runs until one of them ends it.\<close>

fun wait_for_daemon :: "rat \<Rightarrow> (rat \<times> bool) list \<Rightarrow> spawn_result option" where
  "wait_for_daemon deadline [] = None"
| "wait_for_daemon deadline ((now, reachable) # rounds) =
     (if now < deadline then (if reachable then Some DaemonRunning else wait_for_daemon deadline rounds)
      else Some SpawnTimedOut)"

definition isSpawnLockStale :: "nat set \<Rightarrow> lock_file option \<Rightarrow> bool" where
  "isSpawnLockStale live f = (case prior_pid f of None \<Rightarrow> True | Some p \<Rightarrow> \<not> pidIsAlive live p)"

text \<open>
  \<open>claim_spawn_lock\<close>: whether the lock was won, and the file. \<open>read_at\<close> is the file when it is examined and
  \<open>retry_at\<close> the file when the second open is tried, which other processes may have changed.
\<close>

definition claim_spawn_lock :: "nat set \<Rightarrow> nat \<Rightarrow> lock_file option \<Rightarrow> lock_file option \<Rightarrow> lock_file option \<Rightarrow> bool \<times> lock_file option" where
  "claim_spawn_lock live p open_at read_at retry_at =
     (let mine = Some \<lparr>lf_owner = p, lf_text = int_str (int p)\<rparr> in
      case open_at of
        None \<Rightarrow> (True, mine)
      | Some _ \<Rightarrow>
          if isSpawnLockStale live read_at
          then (case retry_at of None \<Rightarrow> (True, mine) | Some _ \<Rightarrow> (False, retry_at))
          else (False, read_at))"

text \<open>The call: an error of \<open>spawnFn\<close> is thrown on, after the lock has been removed.\<close>

definition coordinatedSpawn ::
  "nat set \<Rightarrow> nat \<Rightarrow> bool \<Rightarrow> lock_file option \<times> lock_file option \<times> lock_file option \<Rightarrow> js_error option \<Rightarrow> rat \<Rightarrow> (rat \<times> bool) list \<Rightarrow>
     (spawn_result res option) \<times> lock_file option" where
  "coordinatedSpawn live p reachable files spawn_error deadline rounds =
     (case files of (open_at, read_at, retry_at) \<Rightarrow>
      if reachable then (Some (Inr DaemonRunning), open_at)
      else (case claim_spawn_lock live p open_at read_at retry_at of
              (True, f) \<Rightarrow> (Some (case spawn_error of Some e \<Rightarrow> Inl e | None \<Rightarrow> Inr Spawned), release f)
            | (False, f) \<Rightarrow> (map_option Inr (wait_for_daemon deadline rounds), f)))"

section \<open>The lock text\<close>

lemma prior_pid_own [simp]:
  "0 < p \<Longrightarrow> prior_pid (Some \<lparr>lf_owner = o', lf_text = int_str (int p)\<rparr>) = Some (int p)"
  by (simp add: prior_pid_def parse_int_str)

lemma pidIsAlive_own [simp]: "0 < p \<Longrightarrow> pidIsAlive live (int p) \<longleftrightarrow> p \<in> live"
  by (simp add: pidIsAlive_def)

section \<open>An established lock\<close>

definition lock_text :: "nat \<Rightarrow> lock_file" where
  "lock_text p = \<lparr>lf_owner = p, lf_text = int_str (int p)\<rparr>"

text \<open>Nobody but the holder is past its reading of the file.\<close>

definition established :: "nat \<Rightarrow> lock_state \<Rightarrow> bool" where
  "established p s \<longleftrightarrow> 0 < p \<and> p \<in> ls_live s \<and> ls_pc s p = Held \<and> ls_file s = Some (lock_text p) \<and>
     (\<forall>q. q \<noteq> p \<longrightarrow> ls_pc s q \<in> {Idle, TryOpen, Reading, Judging (Some (int p))} \<union> range AlreadyRunning)"

lemma established_acquire:
  assumes "established p s" and "q \<noteq> p" and "acquireDaemonLock (ls_live s) q (ls_pc s q) (ls_file s) = Some (r, f)"
  shows "f = Some (lock_text p) \<and> r \<in> {TryOpen, Reading, Judging (Some (int p))} \<union> range AlreadyRunning"
proof -
  have "ls_pc s q \<in> {Idle, TryOpen, Reading, Judging (Some (int p))} \<union> range AlreadyRunning"
    and "0 < p" "p \<in> ls_live s" "ls_file s = Some (lock_text p)"
    using assms(1,2) by (auto simp: established_def)
  with assms(3) show ?thesis by (auto simp: lock_text_def)
qed

lemma established_step:
  assumes "others_step p s s'" and "established p s"
  shows "established p s'"
proof -
  from assms(1) obtain q where q: "q \<noteq> p" and st: "lock_step q s s'" by (auto simp: others_step_def)
  from st show ?thesis
  proof cases
    case enters
    with assms(2) q show ?thesis by (auto simp: established_def)
  next
    case (acquires r f)
    from established_acquire [OF assms(2) q acquires(3)] acquires(1) assms(2) q show ?thesis
      by (auto simp: established_def)
  next
    case releases
    with assms(2) q show ?thesis by (auto simp: established_def)
  next
    case dies
    with assms(2) q show ?thesis by (auto simp: established_def)
  next
    case starts
    with assms(2) q show ?thesis by (auto simp: established_def)
  qed
qed

section \<open>Properties\<close>

text \<open>C29: An established lock is exclusive: once a live process holds the lock with its id in the file, and no
  other process is already past its own reading of the file, then whatever the other processes do, start,
  die, try to acquire any number of times, the file stays the holder's and no other process gets the lock.\<close>

theorem established_lock_is_exclusive:
  assumes "0 < p" and "p \<in> ls_live s" and "ls_pc s p = Held" and "ls_file s = Some (lock_text p)"
    and "\<And>q. q \<noteq> p \<Longrightarrow> ls_pc s q \<in> {Idle, TryOpen, Reading}" and "(others_step p)\<^sup>*\<^sup>* s s'"
  shows "ls_file s' = Some (lock_text p) \<and> (\<forall>q. ls_pc s' q = Held \<longrightarrow> q = p)"
proof -
  have "established p s" using assms(1-5) unfolding established_def by blast
  with assms(6) have "established p s'"
    by (induction rule: rtranclp_induct) (auto intro: established_step)
  then show ?thesis by (auto simp: established_def)
qed

text \<open>Acquiring returns: run without interference, \<open>acquireDaemonLock\<close> ends after at most six system calls,
  with the lock and the caller's id in the file when there is no lock file or its holder is not alive,
  and with the holder's id and the file untouched when the recorded process is alive.\<close>

lemma acquire_decides:
  assumes "0 < p"
  shows "acquire_alone 6 live p TryOpen f =
     (case f of
        None \<Rightarrow> (Held, Some (lock_text p))
      | Some _ \<Rightarrow> (case prior_pid f of
            Some n \<Rightarrow> if pidIsAlive live n then (AlreadyRunning n, f) else (Held, Some (lock_text p))
          | None \<Rightarrow> (Held, Some (lock_text p))))"
  using assms by (simp add: eval_nat_numeral lock_text_def split: option.split)

definition no_lock :: lock_state where
  "no_lock = \<lparr>ls_file = None, ls_pc = (\<lambda>_. TryOpen), ls_live = {1, 2}\<rparr>"

text \<open>Two daemons can hold the lock at once: two live processes that start to acquire it together, with no lock
  file there, can both end up holding it, because the file is empty between its creation and the write
  of the id, and an empty file counts as stale.\<close>

theorem two_processes_can_hold_the_lock:
  "\<exists>s. (\<lambda>a b. \<exists>p. lock_step p a b)\<^sup>*\<^sup>* no_lock s \<and> ls_pc s 1 = Held \<and> ls_pc s 2 = Held \<and> {1, 2} \<subseteq> ls_live s"
proof -
  let ?R = "\<lambda>a b. \<exists>p. lock_step p a b"
  have step: "?R\<^sup>*\<^sup>* a c" if "?R\<^sup>*\<^sup>* a b" "p \<in> ls_live b"
    "acquireDaemonLock (ls_live b) p (ls_pc b p) (ls_file b) = Some (q, f)" "c = b\<lparr>ls_pc := (ls_pc b)(p := q), ls_file := f\<rparr>"
    for a b c p q f
    using that lock_step.acquires by (blast intro: rtranclp.rtrancl_into_rtrancl)
  note 1 = step [OF rtranclp.rtrancl_refl [of ?R no_lock], of 1 Opened "Some \<lparr>lf_owner = 1, lf_text = []\<rparr>"]
  note 2 = step [OF 1, of _ 2 Reading "Some \<lparr>lf_owner = 1, lf_text = []\<rparr>"]
  note 3 = step [OF 2, of _ _ 2 "Judging None" "Some \<lparr>lf_owner = 1, lf_text = []\<rparr>"]
  note 4 = step [OF 3, of _ _ _ 2 Unlinking "Some \<lparr>lf_owner = 1, lf_text = []\<rparr>"]
  note 5 = step [OF 4, of _ _ _ _ 1 Held "Some (lock_text 1)"]
  note 6 = step [OF 5, of _ _ _ _ _ 2 TryOpen None]
  note 7 = step [OF 6, of _ _ _ _ _ _ 2 Opened "Some \<lparr>lf_owner = 2, lf_text = []\<rparr>"]
  note 8 = step [OF 7, of _ _ _ _ _ _ _ 2 Held "Some (lock_text 2)"]
  show ?thesis
    by (rule exI, rule conjI, rule 8) (auto simp: no_lock_def lock_text_def prior_pid_def parse_int_def)
qed

text \<open>A caller that loses the spawn lock waits a bounded time per round: each backoff is at least one millisecond
  and never above the configured maximum with its jitter.\<close>

theorem backoff_bounded:
  assumes "0 \<le> base" and "1 \<le> maxBackoff" and "0 \<le> jitter" and "0 \<le> rnd" and "rnd < 1"
  shows "1 \<le> backoff_ms base maxBackoff jitter attempt rnd \<and>
    of_int (backoff_ms base maxBackoff jitter attempt rnd) \<le> maxBackoff * (1 + jitter)"
proof -
  let ?s = "min (base * 2 ^ attempt) maxBackoff" and ?k = "1 + (rnd * 2 - 1) * jitter"
  have s: "0 \<le> ?s" "?s \<le> maxBackoff" using assms(1,2) by auto
  have "(rnd * 2 - 1) * jitter \<le> 1 * jitter" using assms(3,5) by (intro mult_right_mono) auto
  then have k: "?k \<le> 1 + jitter" by simp
  have "?s * ?k \<le> ?s * (1 + jitter)" using k s(1) by (rule mult_left_mono)
  also have "\<dots> \<le> maxBackoff * (1 + jitter)" using s(2) assms(3) by (intro mult_right_mono) auto
  finally have le: "?s * ?k \<le> maxBackoff * (1 + jitter)" .
  have "1 * 1 \<le> maxBackoff * (1 + jitter)" using assms(2,3) by (intro mult_mono) auto
  moreover have "of_int \<lfloor>?s * ?k\<rfloor> \<le> maxBackoff * (1 + jitter)" using le of_int_floor_le by (rule order_trans [rotated])
  ultimately show ?thesis by (simp add: backoff_ms_def Let_def max_def)
qed

lemma wait_never_spawns: "wait_for_daemon deadline rounds \<noteq> Some Spawned"
  by (induction deadline rounds rule: wait_for_daemon.induct) auto

lemma wait_ends: "\<exists>x\<in>set rounds. deadline \<le> fst x \<Longrightarrow> wait_for_daemon deadline rounds \<noteq> None"
  by (induction deadline rounds rule: wait_for_daemon.induct) auto

text \<open>A caller that finds the spawn lock held by a live process does not spawn: it leaves the lock alone, and as
  soon as the clock passes the deadline it has returned that the daemon runs, or that it timed out.\<close>

theorem spawn_lock_respected:
  assumes "\<not> reachable" and "prior_pid read_at = Some n" and "pidIsAlive live n"
    and "\<exists>x\<in>set rounds. deadline \<le> fst x"
  shows "\<exists>r\<in>{DaemonRunning, SpawnTimedOut}.
    coordinatedSpawn live p reachable (read_at, read_at, retry_at) err deadline rounds = (Some (Inr r), read_at)"
proof -
  from assms(2) have "read_at \<noteq> None" by (cases read_at) (simp_all add: prior_pid_def)
  then have c: "claim_spawn_lock live p read_at read_at retry_at = (False, read_at)"
    using assms(2,3) by (auto simp: claim_spawn_lock_def isSpawnLockStale_def)
  obtain r where r: "wait_for_daemon deadline rounds = Some r" using wait_ends [OF assms(4)] by blast
  moreover from r have "r \<noteq> Spawned" using wait_never_spawns by metis
  ultimately show ?thesis using assms(1) c by (cases r) (simp_all add: coordinatedSpawn_def)
qed

section \<open>Examples\<close>

definition held_by_1 :: lock_state where
  "held_by_1 = \<lparr>ls_file = Some (lock_text 1), ls_pc = (\<lambda>q. if q = 1 then Held else TryOpen), ls_live = {1, 2}\<rparr>"

lemma established_lock_is_exclusive_witness:
  "\<exists>s. others_step 1 held_by_1 s \<and> ls_pc s 2 = Reading \<and> ls_file s = Some (lock_text 1) \<and> (\<forall>q. ls_pc s q = Held \<longrightarrow> q = 1)"
proof -
  let ?s = "held_by_1\<lparr>ls_pc := (ls_pc held_by_1)(2 := Reading), ls_file := Some (lock_text 1)\<rparr>"
  have "lock_step 2 held_by_1 ?s" by (rule lock_step.acquires) (simp_all add: held_by_1_def)
  then have st: "others_step 1 held_by_1 ?s" unfolding others_step_def by (intro exI [of _ 2]) simp
  have h: "ls_pc held_by_1 q \<in> {Idle, TryOpen, Reading}" if "q \<noteq> 1" for q using that by (simp add: held_by_1_def)
  have "1 \<in> ls_live held_by_1" "ls_pc held_by_1 1 = Held" "ls_file held_by_1 = Some (lock_text 1)" by (simp_all add: held_by_1_def)
  from established_lock_is_exclusive [OF zero_less_one this h r_into_rtranclp [of "others_step 1", OF st]] st show ?thesis
    by (intro exI [of _ ?s]) simp
qed

lemma backoff_bounded_witness: "1 \<le> backoff_ms 10 2000 (1 / 4) 3 (1 / 2) \<and> of_int (backoff_ms 10 2000 (1 / 4) 3 (1 / 2)) \<le> (2500 :: rat)"
  using backoff_bounded [of 10 2000 "1 / 4" "1 / 2" 3] by simp

lemma spawn_lock_respected_witness:
  "snd (coordinatedSpawn {3} 7 False (Some (lock_text 3), Some (lock_text 3), None) None 100 [(50, False), (120, False)]) = Some (lock_text 3)"
proof -
  have "prior_pid (Some (lock_text 3)) = Some 3" by (simp add: lock_text_def prior_pid_def parse_int_str)
  moreover have "pidIsAlive {3} 3" by (simp add: pidIsAlive_def)
  ultimately show ?thesis
    using spawn_lock_respected [of False "Some (lock_text 3)" 3 "{3}" "[(50, False), (120, False)]" 100 7 None None] by auto
qed

end
