(* ===== verification/BusDaemonCli.thy ===== *)
theory BusDaemonCli
  imports BusLock
begin

text \<open>
  The \<open>daemon\<close> command, \<open>commands/cmd-daemon.js\<close>: start, stop and status on top of the process lock
  (\<open>BusLock\<close>). The other processes, the signals and the clock are an environment. Proved: a daemon that has
  been started is the one the other commands name, refuse to start beside, and signal, and once it has
  shut down another can start; the waits end.
\<close>

section \<open>Flags and waits\<close>

text \<open>\<open>None\<close> is \<open>undefined\<close>, for which the daemon takes its default.\<close>

definition numFlag :: "host \<Rightarrow> jsval \<Rightarrow> string \<Rightarrow> rat option" where
  "numFlag h args name =
     (let v = jget args name in
      if nullish v \<or> v = JBool True then None
      else (case js_Number h v of Fin q \<Rightarrow> Some q | _ \<Rightarrow> None))"

text \<open>The polling loops: the clock and the answer at every round; \<open>None\<close>: the loop goes on after the last one.\<close>

fun wait_until :: "rat \<Rightarrow> (rat \<times> bool) list \<Rightarrow> bool option" where
  "wait_until deadline [] = None"
| "wait_until deadline ((now, yes) # rounds) =
     (if now < deadline then (if yes then Some True else wait_until deadline rounds) else Some False)"

definition waitForSocket :: "rat \<Rightarrow> (rat \<times> bool) list \<Rightarrow> bool option" where
  "waitForSocket deadline reachable = wait_until deadline reachable"

definition waitForLockRelease :: "rat \<Rightarrow> (rat \<times> bool) list \<Rightarrow> bool option" where
  "waitForLockRelease deadline exists_at = wait_until deadline (map (\<lambda>(now, there). (now, \<not> there)) exists_at)"

section \<open>The subcommands\<close>

text \<open>
  \<open>de_kill\<close> says whether \<open>SIGTERM\<close> can be sent to a process id, \<open>de_started\<close> is the error \<open>startDaemon\<close> fails
  with, \<open>de_rounds\<close> what the waiting command sees (the socket answering, or the lock file being there).
\<close>

record daemon_env =
  de_live :: "nat set"
  de_pid :: nat
  de_child :: nat
  de_kill :: "int \<Rightarrow> bool"
  de_started :: "js_error option"
  de_deadline :: rat
  de_rounds :: "(rat \<times> bool) list"
  de_reachable :: bool

datatype daemon_answer =
    Usage
  | DetachedStart nat
  | StartTimeout
  | ForegroundStart "rat option" "rat option"
  | RunningAlready int
  | NoLockFile
  | KillFailed int
  | Stopped int bool
  | DaemonStatus "int option" bool

text \<open>A call gives its answer (\<open>None\<close>: it is still waiting), the lock file, and the process it has signalled.\<close>

type_synonym daemon_call = "daemon_answer res option \<times> lock_file option \<times> int option"

definition detaches :: "jsval \<Rightarrow> bool" where
  "detaches args \<longleftrightarrow> jget args ''detached'' \<noteq> JBool False \<and>
     (jget args ''detached'' = JBool True \<or> jget args ''detach'' = JBool True)"

text \<open>The two settings \<open>start\<close> passes on to the daemon.\<close>

definition started_with :: "host \<Rightarrow> jsval \<Rightarrow> daemon_answer" where
  "started_with h args = ForegroundStart (numFlag h args ''inline-payload-max-bytes'') (numFlag h args ''subscriber-queue-max'')"

definition cmdDaemonStart :: "host \<Rightarrow> daemon_env \<Rightarrow> jsval \<Rightarrow> lock_file option \<Rightarrow> daemon_call" where
  "cmdDaemonStart h env args f =
     (if detaches args
      then (map_option (\<lambda>ok. Inr (if ok then DetachedStart (de_child env) else StartTimeout))
              (waitForSocket (de_deadline env) (de_rounds env)), f, None)
      else (case acquire_alone 6 (de_live env) (de_pid env) TryOpen f of
              (Held, g) \<Rightarrow> (case de_started env of
                               None \<Rightarrow> (Some (Inr (started_with h args)), g, None)
                             | Some e \<Rightarrow> (Some (Inl e), g, None))
            | (AlreadyRunning n, g) \<Rightarrow> (Some (Inr (RunningAlready n)), g, None)
            | (_, g) \<Rightarrow> (None, g, None)))"

text \<open>The handler of \<open>SIGTERM\<close> and \<open>SIGINT\<close> stops the daemon and releases the lock.\<close>

definition daemon_shutdown :: "lock_file option \<Rightarrow> lock_file option" where
  "daemon_shutdown f = release f"

definition cmdDaemonStop :: "daemon_env \<Rightarrow> lock_file option \<Rightarrow> daemon_call" where
  "cmdDaemonStop env f =
     (case prior_pid f of
        None \<Rightarrow> (Some (Inr NoLockFile), f, None)
      | Some pid \<Rightarrow>
          if \<not> de_kill env pid then (Some (Inr (KillFailed pid)), f, None)
          else (map_option (\<lambda>r. Inr (Stopped pid r)) (waitForLockRelease (de_deadline env) (de_rounds env)), f, Some pid))"

definition cmdDaemonStatus :: "daemon_env \<Rightarrow> lock_file option \<Rightarrow> daemon_call" where
  "cmdDaemonStatus env f = (Some (Inr (DaemonStatus (prior_pid f) (de_reachable env))), f, None)"

definition cmdDaemon :: "host \<Rightarrow> daemon_env \<Rightarrow> jsval \<Rightarrow> string list \<Rightarrow> lock_file option \<Rightarrow> daemon_call" where
  "cmdDaemon h env args positional f =
     (case positional of
        [] \<Rightarrow> (Some (Inr Usage), f, None)
      | sub # _ \<Rightarrow>
          if sub = ''start'' then cmdDaemonStart h env args f
          else if sub = ''stop'' then cmdDaemonStop env f
          else if sub = ''status'' then cmdDaemonStatus env f
          else (Some (Inr Usage), f, None))"

section \<open>Properties\<close>

lemma wait_until_ends: "\<exists>x\<in>set rounds. deadline \<le> fst x \<Longrightarrow> wait_until deadline rounds \<noteq> None"
  by (induction deadline rounds rule: wait_until.induct) auto

lemma wait_until_True: "wait_until deadline rounds = Some True \<Longrightarrow> \<exists>x\<in>set rounds. fst x < deadline \<and> snd x"
  by (induction deadline rounds rule: wait_until.induct) (auto split: if_splits)

lemma start_foreground:
  assumes "0 < de_pid env" and "\<not> detaches args"
  shows "cmdDaemonStart h env args f =
    (case prior_pid f of
       Some n \<Rightarrow> if pidIsAlive (de_live env) n then (Some (Inr (RunningAlready n)), f, None)
                 else (Some (case de_started env of None \<Rightarrow> Inr (started_with h args) | Some e \<Rightarrow> Inl e), Some (lock_text (de_pid env)), None)
     | None \<Rightarrow> (Some (case de_started env of None \<Rightarrow> Inr (started_with h args) | Some e \<Rightarrow> Inl e), Some (lock_text (de_pid env)), None))"
proof (cases f)
  case None
  then show ?thesis using assms(2) by (simp add: cmdDaemonStart_def acquire_decides [OF assms(1)] prior_pid_def split: option.split)
next
  case (Some x)
  then show ?thesis using assms(2)
    by (simp add: cmdDaemonStart_def acquire_decides [OF assms(1)] split: option.split)
qed

lemma prior_pid_lock_text: "0 < p \<Longrightarrow> prior_pid (Some (lock_text p)) = Some (int p)"
  by (simp add: lock_text_def)

text \<open>C32: The daemon commands agree about the daemon. When the lock file is missing, unreadable or names a process that
  is not alive, \<open>start\<close> in process \<open>p\<close> succeeds; from then on \<open>status\<close> reports \<open>p\<close>, \<open>stop\<close> signals \<open>p\<close> and no
  other process, and every further \<open>start\<close> while \<open>p\<close> lives is refused with \<open>p\<close> and leaves the lock alone; after
  \<open>p\<close> has shut down, or has died without doing so, \<open>start\<close> succeeds in any other process.\<close>

theorem daemon_commands_agree:
  assumes "0 < p" and "de_pid env = p" and "de_started env = None" and "\<not> detaches args"
    and "case prior_pid f of None \<Rightarrow> True | Some n \<Rightarrow> \<not> pidIsAlive (de_live env) n"
  shows "\<exists>g. cmdDaemon h env args [''start''] f = (Some (Inr (started_with h args)), g, None) \<and>
    cmdDaemon h e2 args [''status''] g = (Some (Inr (DaemonStatus (Some (int p)) (de_reachable e2))), g, None) \<and>
    (snd (snd (cmdDaemon h e2 args [''stop''] g)) = (if de_kill e2 (int p) then Some (int p) else None)) \<and>
    (0 < de_pid e2 \<longrightarrow> p \<in> de_live e2 \<longrightarrow> cmdDaemon h e2 args [''start''] g = (Some (Inr (RunningAlready (int p))), g, None)) \<and>
    (0 < de_pid e2 \<longrightarrow> de_started e2 = None \<longrightarrow>
       fst (cmdDaemon h e2 args [''start''] (daemon_shutdown g)) = Some (Inr (started_with h args)) \<and>
       (p \<notin> de_live e2 \<longrightarrow> fst (cmdDaemon h e2 args [''start''] g) = Some (Inr (started_with h args))))"
proof (intro exI [of _ "Some (lock_text p)"] conjI impI)
  note pid = prior_pid_lock_text [OF assms(1)]
  show "cmdDaemon h env args [''start''] f = (Some (Inr (started_with h args)), Some (lock_text p), None)"
    using assms start_foreground [of env args h f] by (auto simp: cmdDaemon_def split: option.splits)
  show "cmdDaemon h e2 args [''status''] (Some (lock_text p)) =
      (Some (Inr (DaemonStatus (Some (int p)) (de_reachable e2))), Some (lock_text p), None)"
    by (simp add: cmdDaemon_def cmdDaemonStatus_def pid)
  show "snd (snd (cmdDaemon h e2 args [''stop''] (Some (lock_text p)))) = (if de_kill e2 (int p) then Some (int p) else None)"
    by (simp add: cmdDaemon_def cmdDaemonStop_def pid)
  assume e2: "0 < de_pid e2"
  show "cmdDaemon h e2 args [''start''] (Some (lock_text p)) = (Some (Inr (RunningAlready (int p))), Some (lock_text p), None)"
    if "p \<in> de_live e2"
    using that e2 assms(1,4) by (simp add: cmdDaemon_def start_foreground pid)
  assume ok: "de_started e2 = None"
  show "fst (cmdDaemon h e2 args [''start''] (daemon_shutdown (Some (lock_text p)))) = Some (Inr (started_with h args))"
    using e2 ok assms(4) by (simp add: cmdDaemon_def start_foreground daemon_shutdown_def release_def prior_pid_def)
  show "fst (cmdDaemon h e2 args [''start''] (Some (lock_text p))) = Some (Inr (started_with h args))" if "p \<notin> de_live e2"
    using that e2 ok assms(1,4) by (simp add: cmdDaemon_def start_foreground pid)
qed

text \<open>The waits of \<open>start --detached\<close> and \<open>stop\<close> end: once the clock has passed the deadline the command has answered.\<close>

lemma daemon_commands_answer:
  assumes "\<exists>x\<in>set (de_rounds env). de_deadline env \<le> fst x" and "0 < de_pid env"
  shows "fst (cmdDaemon h env args positional f) \<noteq> None"
proof -
  have 1: "waitForSocket (de_deadline env) (de_rounds env) \<noteq> None"
    unfolding waitForSocket_def using wait_until_ends [OF assms(1)] .
  have "\<exists>x\<in>set (map (\<lambda>(now, there). (now, \<not> there)) (de_rounds env)). de_deadline env \<le> fst x"
    using assms(1) by force
  from wait_until_ends [OF this] have 2: "waitForLockRelease (de_deadline env) (de_rounds env) \<noteq> None"
    unfolding waitForLockRelease_def .
  have "fst (cmdDaemonStart h env args f) \<noteq> None"
  proof (cases "detaches args")
    case True
    then show ?thesis using 1 by (auto simp: cmdDaemonStart_def)
  next
    case False
    then show ?thesis by (simp add: start_foreground [OF assms(2)] split: option.split)
  qed
  moreover have "fst (cmdDaemonStop env f) \<noteq> None" using 2 by (auto simp: cmdDaemonStop_def split: option.split)
  ultimately show ?thesis by (simp add: cmdDaemon_def cmdDaemonStatus_def split: list.split)
qed

text \<open>\<open>stop\<close> does not check that the process is the daemon: a stale lock whose id has been reused gets that process killed.\<close>

lemma stop_signals_whatever_has_the_pid:
  assumes "0 < p" and "de_kill env (int p)"
  shows "snd (snd (cmdDaemonStop env (Some (lock_text p)))) = Some (int p)"
  using assms by (simp add: cmdDaemonStop_def prior_pid_lock_text)

definition demo_daemon_env :: "nat \<Rightarrow> daemon_env" where
  "demo_daemon_env p = \<lparr>de_live = {7, 9}, de_pid = p, de_child = 8, de_kill = (\<lambda>n. n \<in> {7, 9}), de_started = None,
     de_deadline = 5000, de_rounds = [(0, True), (5000, True)], de_reachable = True\<rparr>"

definition demo_numbers :: host where
  "demo_numbers = \<lparr>h_parse = (\<lambda>_. None), h_stringify = (\<lambda>_. []), h_string = (\<lambda>_. []), h_number = (\<lambda>_. NaN),
     h_sha256 = id, h_sql_text = (\<lambda>_. []), h_sql_int = (\<lambda>_. SNull)\<rparr>"

lemma daemon_commands_agree_witness:
  "\<exists>g. fst (cmdDaemon demo_numbers (demo_daemon_env 7) (JObj []) [''start''] (Some (lock_text 3))) = Some (Inr (ForegroundStart None None)) \<and>
     cmdDaemon demo_numbers (demo_daemon_env 9) (JObj []) [''start''] g = (Some (Inr (RunningAlready 7)), g, None) \<and>
     snd (snd (cmdDaemon demo_numbers (demo_daemon_env 9) (JObj []) [''stop''] g)) = Some 7"
proof -
  have d: "\<not> detaches (JObj [])" by (simp add: detaches_def)
  have pr: "case prior_pid (Some (lock_text 3)) of None \<Rightarrow> True | Some n \<Rightarrow> \<not> pidIsAlive (de_live (demo_daemon_env 7)) n"
    by (simp add: prior_pid_lock_text demo_daemon_env_def pidIsAlive_def)
  from daemon_commands_agree [of 7 "demo_daemon_env 7" "JObj []" "Some (lock_text 3)" demo_numbers "demo_daemon_env 9", OF _ _ _ d pr]
  show ?thesis by (auto simp: demo_daemon_env_def started_with_def numFlag_def Let_def)
qed

end
