(* ===== verification/BusMigrate.thy ===== *)
theory BusMigrate
  imports BusValues "HOL-Library.AList"
begin

text \<open>
  Opening the database: the statements of \<open>lib/schema.sql\<close>, the migrations of \<open>lib/migrate.js\<close> and the
  version check of \<open>lib/db.js\<close>, on the catalog: tables with their columns in order, indexes and recorded
  versions. Proved: opening twice changes nothing, a newer database is refused, and the archive table has
  the columns of the events table in every history of a database, on which \<open>INSERT ... SELECT *\<close> rests.
\<close>

section \<open>The catalog\<close>

record catalog =
  ct_tables :: "(string \<times> string list) list"
  ct_indexes :: "string list"
  ct_versions :: "int list"

definition columns_of :: "catalog \<Rightarrow> string \<Rightarrow> string list option" where
  "columns_of c t = map_of (ct_tables c) t"

definition tableExists :: "catalog \<Rightarrow> string \<Rightarrow> bool" where
  "tableExists c t \<longleftrightarrow> columns_of c t \<noteq> None"

text \<open>\<open>CREATE TABLE IF NOT EXISTS\<close>, \<open>CREATE INDEX IF NOT EXISTS\<close>, \<open>INSERT OR IGNORE\<close> of a version.\<close>

definition create_table :: "string \<Rightarrow> string list \<Rightarrow> catalog \<Rightarrow> catalog" where
  "create_table t cols c = (if tableExists c t then c else c\<lparr>ct_tables := ct_tables c @ [(t, cols)]\<rparr>)"

definition create_index :: "string \<Rightarrow> catalog \<Rightarrow> catalog" where
  "create_index i c = (if i \<in> set (ct_indexes c) then c else c\<lparr>ct_indexes := ct_indexes c @ [i]\<rparr>)"

definition record_version :: "int \<Rightarrow> catalog \<Rightarrow> catalog" where
  "record_version v c = (if v \<in> set (ct_versions c) then c else c\<lparr>ct_versions := ct_versions c @ [v]\<rparr>)"

section \<open>The baseline\<close>

definition EVENTS_COLUMNS :: "string list" where
  "EVENTS_COLUMNS = [''event_id'', ''event_type'', ''domain'', ''subdomain'', ''payload'', ''schema_version'', ''idempotency_key'',
     ''emitted_at'', ''expires_at'', ''dedup_expires_at'', ''metadata'']"

definition BASE_TABLES :: "(string \<times> string list) list" where
  "BASE_TABLES =
    [(''events'', EVENTS_COLUMNS),
     (''subscriptions'', [''subscription_id'', ''plugin'', ''role'', ''event_type_filter'', ''schema_version'', ''registered_at'',
        ''deregistered_at'', ''health_check_interval_ms'']),
     (''cursors'', [''cursor_id'', ''subscription_id'', ''last_event_id'', ''acked_at'', ''created_at'', ''deregistered_at'']),
     (''dead_letters'', [''dl_id'', ''cursor_id'', ''subscription_id'', ''event_id'', ''event_type'', ''domain'', ''subdomain'', ''payload'',
        ''emitted_at'', ''attempts'', ''last_error'', ''dead_lettered_at'', ''replay_requested_at'']),
     (''delivery_attempts'', [''cursor_id'', ''event_id'', ''attempts'', ''last_attempt_at'', ''last_error'']),
     (''schema_migrations'', [''version'', ''applied_at'', ''description''])]"

definition BASE_INDEXES :: "string list" where
  "BASE_INDEXES =
    [''idx_events_event_type'', ''idx_events_domain'', ''idx_events_subdomain'', ''idx_events_type_domain'', ''idx_events_emitted_at'',
     ''idx_events_expires_at'', ''idx_events_dedup_expires_at'', ''idx_subscriptions_plugin'', ''idx_subscriptions_active'',
     ''idx_cursors_subscription_id'', ''idx_cursors_active'', ''idx_dead_letters_cursor_id'', ''idx_dead_letters_subscription_id'',
     ''idx_dead_letters_dead_lettered_at'', ''idx_dead_letters_event_id'', ''idx_dead_letters_replay_pending'',
     ''idx_delivery_attempts_cursor_id'']"

text \<open>The statements create different objects, so their order among each other makes no difference.\<close>

definition baseline :: "catalog \<Rightarrow> catalog" where
  "baseline c = record_version 2 (record_version 1
     (fold create_index BASE_INDEXES (fold (\<lambda>(t, cols). create_table t cols) BASE_TABLES c)))"

section \<open>Migrations\<close>

definition TARGET_SCHEMA_VERSION :: int where
  "TARGET_SCHEMA_VERSION = 3"

definition currentVersion :: "catalog \<Rightarrow> int" where
  "currentVersion c = (case list_max (ct_versions c) of Some v \<Rightarrow> v | None \<Rightarrow> 0)"

text \<open>Altering a table that does not exist fails.\<close>

definition addColumnIfMissing :: "string \<Rightarrow> string \<Rightarrow> catalog \<Rightarrow> catalog res" where
  "addColumnIfMissing t col c =
     (case columns_of c t of
        None \<Rightarrow> Inl (PlainError ''no such table'')
      | Some cols \<Rightarrow> Inr (if col \<in> set cols then c else c\<lparr>ct_tables := AList.update t (cols @ [col]) (ct_tables c)\<rparr>))"

fun add_columns :: "string \<Rightarrow> string list \<Rightarrow> catalog \<Rightarrow> catalog res" where
  "add_columns t [] c = Inr c"
| "add_columns t (col # cols) c = (case addColumnIfMissing t col c of Inl e \<Rightarrow> Inl e | Inr c1 \<Rightarrow> add_columns t cols c1)"

definition V2_COLUMNS :: "string list" where
  "V2_COLUMNS = [''parent_event_id'', ''session_id'', ''correlation_id'', ''producer_id'', ''origin_node_id'',
     ''registry_schema_version'', ''payload_cas_sha'']"

definition SCHEMAS_COLUMNS :: "string list" where
  "SCHEMAS_COLUMNS = [''event_type'', ''version'', ''json_schema'', ''retention'', ''payload_max_bytes'', ''archive_to'',
     ''payload_oversize'', ''deprecated_at'', ''sunset_at'']"

text \<open>One transaction: an error leaves the catalog as it was.\<close>

definition applyMigration3 :: "catalog \<Rightarrow> catalog res" where
  "applyMigration3 c =
     (case add_columns ''events'' V2_COLUMNS c of
        Inl e \<Rightarrow> Inl e
      | Inr c1 \<Rightarrow>
          (case add_columns ''cursors'' [''push_socket_addr'', ''lag_estimate''] c1 of
             Inl e \<Rightarrow> Inl e
           | Inr c2 \<Rightarrow>
               (case (if tableExists c2 ''events_archive'' then add_columns ''events_archive'' V2_COLUMNS c2 else Inr c2) of
                  Inl e \<Rightarrow> Inl e
                | Inr c3 \<Rightarrow> Inr (record_version 3 (create_table ''schemas'' SCHEMAS_COLUMNS
                    (fold create_index [''idx_events_correlation_id'', ''idx_events_session_id'', ''idx_events_parent_event_id''] c3))))))"

definition migrate :: "catalog \<Rightarrow> (int \<times> catalog) res" where
  "migrate c =
     (if TARGET_SCHEMA_VERSION \<le> currentVersion c then Inr (currentVersion c, c)
      else (case applyMigration3 c of Inl e \<Rightarrow> Inl e | Inr c1 \<Rightarrow> Inr (currentVersion c1, c1)))"

section \<open>Opening\<close>

definition checkSchemaVersion :: "catalog \<Rightarrow> unit res" where
  "checkSchemaVersion c =
     (if TARGET_SCHEMA_VERSION < currentVersion c
      then Inl (WB WB005 [(''declared'', jint (currentVersion c)), (''max_supported'', jint TARGET_SCHEMA_VERSION)])
      else Inr ())"

text \<open>The result, and the catalog in the file afterwards.\<close>

definition openDb :: "catalog \<Rightarrow> unit res \<times> catalog" where
  "openDb c =
     (let c1 = baseline c in
      case migrate c1 of
        Inl e \<Rightarrow> (Inl e, c1)
      | Inr (_, c2) \<Rightarrow> (checkSchemaVersion c2, c2))"

text \<open>The archive table of the sweep.\<close>

definition ARCHIVE_COLUMNS :: "string list" where
  "ARCHIVE_COLUMNS = EVENTS_COLUMNS @ V2_COLUMNS"

definition create_archive :: "catalog \<Rightarrow> catalog" where
  "create_archive = create_table ''events_archive'' ARCHIVE_COLUMNS"

text \<open>
  The histories of a database: created empty, opened and archived into by releases of version 1, which had
  the baseline columns only, then opened and archived into by this one.
\<close>

inductive grown :: "catalog \<Rightarrow> bool" where
  empty: "grown \<lparr>ct_tables = [], ct_indexes = [], ct_versions = []\<rparr>"
| opened_v1: "grown c \<Longrightarrow> currentVersion c < 3 \<Longrightarrow> grown (baseline c)"
| archived_v1: "grown c \<Longrightarrow> 0 < currentVersion c \<Longrightarrow> currentVersion c < 3 \<Longrightarrow> grown (create_table ''events_archive'' EVENTS_COLUMNS c)"
| opened: "grown c \<Longrightarrow> grown (snd (openDb c))"
| archived: "grown c \<Longrightarrow> currentVersion c = 3 \<Longrightarrow> grown (create_archive c)"

section \<open>The statements\<close>

lemma columns_create_table [simp]:
  "columns_of (create_table t cols c) t' = (if t' = t \<and> columns_of c t = None then Some cols else columns_of c t')"
  by (auto simp: create_table_def tableExists_def columns_of_def map_add_def split: option.split)

lemma columns_other [simp]:
  "columns_of (create_index i c) t = columns_of c t" "columns_of (record_version v c) t = columns_of c t"
  by (simp_all add: create_index_def record_version_def columns_of_def)

lemma versions_other [simp]:
  "ct_versions (create_index i c) = ct_versions c" "ct_versions (create_table t cols c) = ct_versions c"
  "set (ct_versions (record_version v c)) = insert v (set (ct_versions c))"
  by (auto simp: create_index_def create_table_def record_version_def)

lemma columns_indexes [simp]: "columns_of (fold create_index is c) t = columns_of c t"
  by (induction "is" arbitrary: c) simp_all

lemma versions_indexes [simp]: "ct_versions (fold create_index is c) = ct_versions c"
  by (induction "is" arbitrary: c) simp_all

lemma columns_create_tables:
  "distinct (map fst ts) \<Longrightarrow> columns_of (fold (\<lambda>(t, cols). create_table t cols) ts c) t =
     (case columns_of c t of Some cols \<Rightarrow> Some cols | None \<Rightarrow> map_of ts t)"
  by (induction ts arbitrary: c) (auto simp: map_of_eq_None_iff split: option.split)

lemma versions_create_tables [simp]: "ct_versions (fold (\<lambda>(t, cols). create_table t cols) ts c) = ct_versions c"
  by (induction ts arbitrary: c) auto

lemma BASE_TABLES_distinct: "distinct (map fst BASE_TABLES)"
  by (simp add: BASE_TABLES_def)

lemma columns_baseline:
  "columns_of (baseline c) t = (case columns_of c t of Some cols \<Rightarrow> Some cols | None \<Rightarrow> map_of BASE_TABLES t)"
  by (simp add: baseline_def columns_create_tables [OF BASE_TABLES_distinct])

lemma versions_baseline: "set (ct_versions (baseline c)) = {1, 2} \<union> set (ct_versions c)"
  by (auto simp: baseline_def)

lemma currentVersion_eqI: "v \<in> set (ct_versions c) \<Longrightarrow> \<forall>w\<in>set (ct_versions c). w \<le> v \<Longrightarrow> currentVersion c = v"
  by (cases "list_max (ct_versions c)") (auto simp: currentVersion_def dest!: list_max_Some intro: antisym)

lemma currentVersion_ge: "v \<in> set (ct_versions c) \<Longrightarrow> v \<le> currentVersion c"
  by (cases "list_max (ct_versions c)") (auto simp: currentVersion_def dest!: list_max_Some)

lemma currentVersion_baseline: "currentVersion (baseline c) = max 2 (currentVersion c)"
proof (rule currentVersion_eqI)
  show "\<forall>w\<in>set (ct_versions (baseline c)). w \<le> max 2 (currentVersion c)"
    unfolding versions_baseline using currentVersion_ge by (auto simp: le_max_iff_disj)
  show "max 2 (currentVersion c) \<in> set (ct_versions (baseline c))"
    unfolding versions_baseline
    by (cases "list_max (ct_versions c)") (auto simp: currentVersion_def max_def dest!: list_max_Some)
qed

section \<open>The migration\<close>

definition extended :: "string list \<Rightarrow> string list \<Rightarrow> string list" where
  "extended cols new = fold (\<lambda>col cs. if col \<in> set cs then cs else cs @ [col]) new cols"

lemma add_columns_Some:
  "columns_of c t = Some cols \<Longrightarrow> \<exists>c'. add_columns t new c = Inr c' \<and> ct_versions c' = ct_versions c \<and>
     ct_indexes c' = ct_indexes c \<and> columns_of c' t = Some (extended cols new) \<and> (\<forall>t'. t' \<noteq> t \<longrightarrow> columns_of c' t' = columns_of c t')"
proof (induction new arbitrary: c cols)
  case Nil
  then show ?case by (simp add: extended_def)
next
  case (Cons col new)
  let ?cols = "if col \<in> set cols then cols else cols @ [col]"
  obtain c1 where c1: "addColumnIfMissing t col c = Inr c1" "ct_versions c1 = ct_versions c" "ct_indexes c1 = ct_indexes c"
    "columns_of c1 t = Some ?cols" "\<forall>t'. t' \<noteq> t \<longrightarrow> columns_of c1 t' = columns_of c t'"
    using Cons.prems by (auto simp: addColumnIfMissing_def columns_of_def update_conv')
  from Cons.IH [OF c1(4)] c1 show ?case by (auto simp: extended_def)
qed

lemma applyMigration3_Inr:
  assumes "columns_of c ''events'' = Some ev" and "columns_of c ''cursors'' = Some cu"
  shows "\<exists>c'. applyMigration3 c = Inr c' \<and> set (ct_versions c') = insert 3 (set (ct_versions c)) \<and>
    columns_of c' ''events'' = Some (extended ev V2_COLUMNS) \<and>
    columns_of c' ''events_archive'' = map_option (\<lambda>cols. extended cols V2_COLUMNS) (columns_of c ''events_archive'')"
proof -
  from add_columns_Some [OF assms(1), of V2_COLUMNS] obtain c1 where c1: "add_columns ''events'' V2_COLUMNS c = Inr c1"
    "ct_versions c1 = ct_versions c" "columns_of c1 ''events'' = Some (extended ev V2_COLUMNS)"
    "\<forall>t'. t' \<noteq> ''events'' \<longrightarrow> columns_of c1 t' = columns_of c t'" by blast
  then have "columns_of c1 ''cursors'' = Some cu" using assms(2) by simp
  from add_columns_Some [OF this, of "[''push_socket_addr'', ''lag_estimate'']"] obtain c2 where
    c2: "add_columns ''cursors'' [''push_socket_addr'', ''lag_estimate''] c1 = Inr c2" "ct_versions c2 = ct_versions c1"
    "\<forall>t'. t' \<noteq> ''cursors'' \<longrightarrow> columns_of c2 t' = columns_of c1 t'" by blast
  have ar: "columns_of c2 ''events_archive'' = columns_of c ''events_archive''" "columns_of c2 ''events'' = Some (extended ev V2_COLUMNS)"
    using c1 c2 by simp_all
  show ?thesis
  proof (cases "columns_of c ''events_archive''")
    case None
    with c1 c2 ar show ?thesis by (auto simp: applyMigration3_def tableExists_def)
  next
    case (Some cols)
    with ar add_columns_Some [of c2 "''events_archive''" cols V2_COLUMNS] obtain c3 where
      "add_columns ''events_archive'' V2_COLUMNS c2 = Inr c3" "ct_versions c3 = ct_versions c2"
      "columns_of c3 ''events_archive'' = Some (extended cols V2_COLUMNS)"
      "\<forall>t'. t' \<noteq> ''events_archive'' \<longrightarrow> columns_of c3 t' = columns_of c2 t'" by auto
    with c1 c2 ar Some show ?thesis by (auto simp: applyMigration3_def tableExists_def)
  qed
qed

lemma baseline_tables: "\<exists>ev cu. columns_of (baseline c) ''events'' = Some ev \<and> columns_of (baseline c) ''cursors'' = Some cu"
  by (auto simp: columns_baseline BASE_TABLES_def split: option.split)

text \<open>What opening does to the two tables and the versions.\<close>

lemma openDb_cases:
  obtains (current) "3 \<le> currentVersion c" "openDb c = (checkSchemaVersion (baseline c), baseline c)"
    "currentVersion (baseline c) = currentVersion c"
  | (migrated) c' ev where "currentVersion c < 3" "openDb c = (Inr (), c')" "currentVersion c' = 3"
    "columns_of (baseline c) ''events'' = Some ev" "columns_of c' ''events'' = Some (extended ev V2_COLUMNS)"
    "columns_of c' ''events_archive'' = map_option (\<lambda>cols. extended cols V2_COLUMNS) (columns_of (baseline c) ''events_archive'')"
proof (cases "3 \<le> currentVersion c")
  case True
  then have "currentVersion (baseline c) = currentVersion c" by (simp add: currentVersion_baseline)
  with True show thesis by (intro that(1)) (simp_all add: openDb_def migrate_def TARGET_SCHEMA_VERSION_def Let_def)
next
  case False
  then have v: "currentVersion (baseline c) = 2" "currentVersion (baseline c) < 3"
    using currentVersion_ge [of _ c] by (auto simp: currentVersion_baseline)
  from baseline_tables obtain ev cu where "columns_of (baseline c) ''events'' = Some ev" "columns_of (baseline c) ''cursors'' = Some cu"
    by blast
  note tabs = this
  from applyMigration3_Inr [OF tabs] obtain c' where c': "applyMigration3 (baseline c) = Inr c'"
    "set (ct_versions c') = insert 3 (set (ct_versions (baseline c)))"
    "columns_of c' ''events'' = Some (extended ev V2_COLUMNS)"
    "columns_of c' ''events_archive'' = map_option (\<lambda>cols. extended cols V2_COLUMNS) (columns_of (baseline c) ''events_archive'')" by blast
  have "currentVersion c' = 3"
    by (rule currentVersion_eqI) (use c'(2) currentVersion_ge [of _ "baseline c"] v in force)+
  with False v c' tabs(1) show thesis
    by (intro that(2) [of c' ev]) (simp_all add: openDb_def migrate_def checkSchemaVersion_def TARGET_SCHEMA_VERSION_def Let_def)
qed

section \<open>Nothing is removed\<close>

definition keeps :: "catalog \<Rightarrow> catalog \<Rightarrow> bool" where
  "keeps c c' \<longleftrightarrow> (\<forall>t. tableExists c t \<longrightarrow> tableExists c' t) \<and> set (ct_indexes c) \<subseteq> set (ct_indexes c') \<and>
     set (ct_versions c) \<subseteq> set (ct_versions c')"

lemma keeps_refl [simp]: "keeps c c"
  by (simp add: keeps_def)

lemma keeps_trans: "keeps a b \<Longrightarrow> keeps b c \<Longrightarrow> keeps a c"
  by (auto simp: keeps_def)

lemma keeps_statements:
  "keeps c (create_table t cols c)" "keeps c (create_index i c)" "keeps c (record_version v c)"
  by (auto simp: keeps_def create_table_def create_index_def record_version_def tableExists_def columns_of_def map_add_def
      split: option.split)

lemma keeps_indexes: "keeps c (fold create_index is c)"
  by (induction "is" arbitrary: c) (auto intro: keeps_trans keeps_statements)

lemma keeps_add_columns: "add_columns t new c = Inr c' \<Longrightarrow> keeps c c'"
proof (induction new arbitrary: c)
  case Nil
  then show ?case by simp
next
  case (Cons col new)
  then obtain c1 where c1: "addColumnIfMissing t col c = Inr c1" "add_columns t new c1 = Inr c'"
    by (auto split: sum.splits)
  have "keeps c c1" using c1(1)
    by (auto simp: addColumnIfMissing_def keeps_def tableExists_def columns_of_def update_conv' split: option.splits if_splits)
  with Cons.IH [OF c1(2)] show ?case by (rule keeps_trans [rotated])
qed

lemma keeps_migration:
  assumes "applyMigration3 c = Inr c'"
  shows "keeps c c'"
proof -
  from assms obtain c1 c2 c3 where "add_columns ''events'' V2_COLUMNS c = Inr c1"
    "add_columns ''cursors'' [''push_socket_addr'', ''lag_estimate''] c1 = Inr c2"
    "add_columns ''events_archive'' V2_COLUMNS c2 = Inr c3 \<or> c3 = c2"
    and c': "c' = record_version 3 (create_table ''schemas'' SCHEMAS_COLUMNS
       (fold create_index [''idx_events_correlation_id'', ''idx_events_session_id'', ''idx_events_parent_event_id''] c3))"
    unfolding applyMigration3_def by (auto simp del: add_columns.simps fold_simps split: sum.splits if_splits)
  then have "keeps c c1" "keeps c1 c2" "keeps c2 c3" by (blast dest: keeps_add_columns intro: keeps_refl)+
  then have "keeps c c3" by (blast intro: keeps_trans)
  then show ?thesis unfolding c' by (meson keeps_trans keeps_statements keeps_indexes)
qed

definition baselined :: "catalog \<Rightarrow> bool" where
  "baselined c \<longleftrightarrow> (\<forall>x\<in>set BASE_TABLES. tableExists c (fst x)) \<and> set BASE_INDEXES \<subseteq> set (ct_indexes c) \<and> {1, 2} \<subseteq> set (ct_versions c)"

lemma baselined_keeps: "baselined c \<Longrightarrow> keeps c c' \<Longrightarrow> baselined c'"
  by (auto simp: baselined_def keeps_def)

lemma baseline_id:
  assumes "baselined c"
  shows "baseline c = c"
proof -
  have t: "fold (\<lambda>(t, cols). create_table t cols) ts c = c" if "\<forall>x\<in>set ts. tableExists c (fst x)" for ts
    using that by (induction ts) (auto simp: create_table_def)
  have i: "fold create_index is c = c" if "set is \<subseteq> set (ct_indexes c)" for "is"
    using that by (induction "is") (auto simp: create_index_def)
  show ?thesis using assms t [of BASE_TABLES] i [of BASE_INDEXES] by (simp add: baseline_def baselined_def record_version_def)
qed

lemma set_indexes: "set (ct_indexes (fold create_index is c)) = set is \<union> set (ct_indexes c)"
  by (induction "is" arbitrary: c) (auto simp: create_index_def)

lemma indexes_create_tables: "ct_indexes (fold (\<lambda>(t, cols). create_table t cols) ts c) = ct_indexes c"
  by (induction ts arbitrary: c) (auto simp: create_table_def)

lemma baselined_baseline: "baselined (baseline c)"
  unfolding baselined_def
proof (intro conjI ballI)
  show "tableExists (baseline c) (fst x)" if "x \<in> set BASE_TABLES" for x
    using that by (auto simp: tableExists_def columns_baseline BASE_TABLES_def split: option.split)
  have "ct_indexes (baseline c) = ct_indexes (fold create_index BASE_INDEXES (fold (\<lambda>(t, cols). create_table t cols) BASE_TABLES c))"
    by (simp add: baseline_def record_version_def)
  then show "set BASE_INDEXES \<subseteq> set (ct_indexes (baseline c))" by (auto simp: set_indexes)
  show "{1, 2} \<subseteq> set (ct_versions (baseline c))" by (simp add: versions_baseline)
qed

lemma keeps_openDb: "keeps (baseline c) (snd (openDb c))"
  by (auto simp: openDb_def migrate_def Let_def intro: keeps_migration split: sum.split)

lemma open_kept:
  assumes "keeps (baseline c) c'" and "3 \<le> currentVersion c'"
  shows "openDb c' = (checkSchemaVersion c', c')"
proof -
  have "baseline c' = c'" using baseline_id baselined_keeps [OF baselined_baseline assms(1)] by blast
  with assms(2) show ?thesis by (simp add: openDb_def migrate_def TARGET_SCHEMA_VERSION_def)
qed

lemma open_outcome:
  "case openDb c of
     (Inl e, c') \<Rightarrow> 3 < currentVersion c \<and> e = WB WB005 [(''declared'', jint (currentVersion c)), (''max_supported'', jint 3)] \<and>
       c' = baseline c
   | (Inr _, c') \<Rightarrow> currentVersion c \<le> 3 \<and> currentVersion c' = 3 \<and> openDb c' = (Inr (), c')"
proof (cases c rule: openDb_cases)
  case current
  with open_kept [of c "baseline c"] show ?thesis by (auto simp: checkSchemaVersion_def TARGET_SCHEMA_VERSION_def)
next
  case (migrated c' ev)
  with open_kept [of c c'] keeps_openDb [of c] show ?thesis by (auto simp: checkSchemaVersion_def TARGET_SCHEMA_VERSION_def)
qed

lemma open_again: "openDb c = (Inr u, c') \<Longrightarrow> openDb c' = (Inr (), c')"
  using open_outcome [of c] by simp

section \<open>Properties\<close>

text \<open>C37: Opening a database is idempotent, brings every supported one to the target version, and refuses a newer
  one: \<open>openDb\<close> fails exactly when the recorded version is above 3, with \<open>WB-005\<close> and without migrating;
  otherwise the version afterwards is 3, and opening again finds nothing to do.\<close>

theorem open_database_once:
  "case openDb c of
     (Inl e, c') \<Rightarrow> 3 < currentVersion c \<and> e = WB WB005 [(''declared'', jint (currentVersion c)), (''max_supported'', jint 3)] \<and>
       c' = baseline c
   | (Inr _, c') \<Rightarrow> currentVersion c \<le> 3 \<and> currentVersion c' = 3 \<and> openDb c' = (Inr (), c')"
  by (rule open_outcome)

definition mirrored :: "catalog \<Rightarrow> bool" where
  "mirrored c \<longleftrightarrow> currentVersion c \<le> 3 \<and>
     columns_of c ''events'' = (if currentVersion c = 3 then Some ARCHIVE_COLUMNS else if 0 < currentVersion c then Some EVENTS_COLUMNS else None) \<and>
     (columns_of c ''events_archive'' \<noteq> None \<longrightarrow> columns_of c ''events_archive'' = columns_of c ''events'')"

lemma extended_base: "extended EVENTS_COLUMNS V2_COLUMNS = ARCHIVE_COLUMNS"
  by code_simp

lemma base_lookup: "map_of BASE_TABLES ''events'' = Some EVENTS_COLUMNS" "map_of BASE_TABLES ''events_archive'' = None"
  by (simp_all add: BASE_TABLES_def)

lemma currentVersion_create [simp]: "currentVersion (create_table t cols c) = currentVersion c"
  by (simp add: currentVersion_def)

lemma mirrored_baseline: "mirrored c \<Longrightarrow> mirrored (baseline c)"
  by (auto simp: mirrored_def currentVersion_baseline columns_baseline base_lookup split: option.split)

lemma grown_mirrored: "grown c \<Longrightarrow> mirrored c"
proof (induction rule: grown.induct)
  case empty
  then show ?case by (simp add: mirrored_def currentVersion_def columns_of_def)
next
  case (opened_v1 c)
  then show ?case by (simp add: mirrored_baseline)
next
  case (archived_v1 c)
  then show ?case by (auto simp: mirrored_def)
next
  case (opened c)
  note m = mirrored_baseline [OF opened.IH]
  show ?case
  proof (cases c rule: openDb_cases)
    case current
    with m show ?thesis by simp
  next
    case (migrated c' ev)
    have "currentVersion (baseline c) = 2" using migrated(1) by (simp add: currentVersion_baseline)
    with m migrated(4) have ev: "ev = EVENTS_COLUMNS" by (simp add: mirrored_def)
    with m migrated show ?thesis by (auto simp: mirrored_def extended_base)
  qed
next
  case (archived c)
  then show ?case by (auto simp: mirrored_def create_archive_def)
qed

text \<open>The archive table mirrors the events table in every history of a database: however releases of version 1
  and this one have opened it and created the archive, in which order ever, the two tables have the same
  columns in the same order, so that copying whole rows with \<open>SELECT *\<close> puts every value into its column.\<close>

theorem archive_mirrors_events:
  assumes "grown c" and "columns_of c ''events_archive'' = Some cols"
  shows "columns_of c ''events'' = Some cols"
  using grown_mirrored [OF assms(1)] assms(2) by (simp add: mirrored_def)

definition old_archive :: catalog where
  "old_archive = create_table ''events_archive'' EVENTS_COLUMNS (baseline \<lparr>ct_tables = [], ct_indexes = [], ct_versions = []\<rparr>)"

lemma archive_mirrors_events_witness:
  "columns_of (snd (openDb old_archive)) ''events'' = Some ARCHIVE_COLUMNS"
proof -
  have "grown old_archive"
    unfolding old_archive_def
  proof (intro grown.archived_v1 grown.opened_v1 grown.empty)
    show "currentVersion \<lparr>ct_tables = [], ct_indexes = [], ct_versions = []\<rparr> < 3" by (simp add: currentVersion_def)
    show "0 < currentVersion (baseline \<lparr>ct_tables = [], ct_indexes = [], ct_versions = []\<rparr>)" by (simp add: currentVersion_baseline)
    show "currentVersion (baseline \<lparr>ct_tables = [], ct_indexes = [], ct_versions = []\<rparr>) < 3"
      by (simp add: currentVersion_baseline) (simp add: currentVersion_def)
  qed
  then have "grown (snd (openDb old_archive))" by (rule grown.opened)
  moreover have "columns_of (snd (openDb old_archive)) ''events_archive'' = Some ARCHIVE_COLUMNS" by code_simp
  ultimately show ?thesis by (rule archive_mirrors_events)
qed

end
