(* ===== verification/BusCommands.thy ===== *)
theory BusCommands
  imports BusCli BusEmit BusConfig BusMigrate
begin

text \<open>
  The commands that turn flags into one operation: \<open>emit\<close>, \<open>ack\<close>, \<open>register\<close>, \<open>init\<close>, \<open>cleanup\<close> with its
  overrides of the configuration, and the report of \<open>status\<close>. The configuration and the database have been
  opened (\<open>BusConfig\<close>, \<open>BusMigrate\<close>). Proved: the dry run of \<open>cleanup\<close> foretells the run with the same
  flags, an unreadable payload emits nothing, \<open>init\<close> can be repeated, the report of \<open>status\<close> adds up.
\<close>

section \<open>emit\<close>

text \<open>\<open>read_file\<close> is what \<open>readFileSync\<close> gives for \<open>@path\<close>. Text that is not JSON stays text.\<close>

definition emit_payload :: "host \<Rightarrow> (string \<Rightarrow> string res) \<Rightarrow> jsval \<Rightarrow> jsval res" where
  "emit_payload h read_file v =
     (case v of
        JStr s \<Rightarrow>
          (case (if prefix ''@'' s then read_file (drop 1 s) else Inr s) of
             Inl e \<Rightarrow> Inl e
           | Inr t \<Rightarrow> Inr (case h_parse h t of Some x \<Rightarrow> x | None \<Rightarrow> JStr t))
      | _ \<Rightarrow> Inr v)"

definition emit_metadata :: "host \<Rightarrow> jsval \<Rightarrow> jsval res" where
  "emit_metadata h v =
     (if \<not> truthy v then Inr JUndef
      else (case h_parse h (js_String h v) of Some x \<Rightarrow> Inr x | None \<Rightarrow> Inl (PlainError ''SyntaxError'')))"

text \<open>\<open>v || d\<close>.\<close>

definition js_or :: "jsval \<Rightarrow> jsval \<Rightarrow> jsval" where
  "js_or v d = (if truthy v then v else d)"

definition emit_event :: "host \<Rightarrow> (string \<Rightarrow> string res) \<Rightarrow> jsval \<Rightarrow> jsval res" where
  "emit_event h read_file args =
     (case emit_payload h read_file (jget args ''payload'') of
        Inl e \<Rightarrow> Inl e
      | Inr payload \<Rightarrow>
          (case emit_metadata h (jget args ''metadata'') of
             Inl e \<Rightarrow> Inl e
           | Inr metadata \<Rightarrow>
               Inr (JObj ([(''event_type'', jget args ''type''), (''domain'', jget args ''domain''),
                  (''subdomain'', js_or (jget args ''subdomain'') (JStr [])), (''payload'', payload),
                  (''schema_version'', js_or (jget args ''schema-version'') JUndef),
                  (''idempotency_key'', js_or (jget args ''idempotency-key'') JUndef), (''metadata'', metadata)] @
                  (if nullish (jget args ''ttl-hours'') then []
                   else [(''ttl_hours'', JNum (js_Number h (jget args ''ttl-hours'')))])))))"

definition cmdEmit :: "emit_env \<Rightarrow> emit_config \<Rightarrow> (string \<Rightarrow> string res) \<Rightarrow> jsval \<Rightarrow> emit_state \<Rightarrow> emit_result res \<times> emit_state" where
  "cmdEmit ee cfg read_file args s =
     (case emit_event (ee_host ee) read_file args of
        Inl e \<Rightarrow> (Inl e, s)
      | Inr event \<Rightarrow> emit ee cfg event s)"

section \<open>ack and register\<close>

definition ack_args :: "host \<Rightarrow> jsval \<Rightarrow> (jsval \<times> jsnum) res" where
  "ack_args h args =
     (let cid = jget args ''cursor-id''; lastEventId = js_Number h (jget args ''last-event-id'') in
      if \<not> truthy cid then Inl (PlainError ''--cursor-id is required'')
      else if lastEventId = NaN then Inl (PlainError ''--last-event-id must be a number'')
      else Inr (cid, lastEventId))"

text \<open>For a cursor id given with a value and an integer event id.\<close>

definition cmdAck :: "host \<Rightarrow> bus \<Rightarrow> jsval \<Rightarrow> rat \<Rightarrow> (string \<times> int) res option \<times> bus" where
  "cmdAck h b args now =
     (case ack_args h args of
        Inl e \<Rightarrow> (Some (Inl e), b)
      | Inr (JStr cid, Fin q) \<Rightarrow>
          if of_int \<lfloor>q\<rfloor> = q then (case ack b cid \<lfloor>q\<rfloor> now of (r, b1) \<Rightarrow> (Some r, b1)) else (None, b)
      | Inr _ \<Rightarrow> (None, b))"

text \<open>A flag without a value is \<open>true\<close>, which the driver does not bind; without a plugin or a role the columns are \<open>NULL\<close>.\<close>

definition text_arg :: "jsval \<Rightarrow> (string option) res" where
  "text_arg v = (case v of JStr s \<Rightarrow> Inr (if s = [] then None else Some s) | JBool True \<Rightarrow> Inl (PlainError ''TypeError'') | _ \<Rightarrow> Inr None)"

definition required_arg :: "jsval \<Rightarrow> string res" where
  "required_arg v = (case v of JStr s \<Rightarrow> Inr s | JBool True \<Rightarrow> Inl (PlainError ''TypeError'')
     | _ \<Rightarrow> Inl (SqliteError ''SQLITE_CONSTRAINT_NOTNULL''))"

definition register_args :: "jsval \<Rightarrow> register_opts res" where
  "register_args args =
     (case (required_arg (jget args ''plugin''), required_arg (jget args ''role''),
            text_arg (js_or (jget args ''events'') (jget args ''filter'')), text_arg (jget args ''schema-version''),
            text_arg (jget args ''cursor-init'')) of
        (Inr plugin, Inr role, Inr filter_value, Inr version, Inr init) \<Rightarrow>
          Inr \<lparr>ro_plugin = plugin, ro_role = role, ro_filter = (case filter_value of Some f \<Rightarrow> f | None \<Rightarrow> []),
               ro_schema_version = version, ro_cursor_init = Some (case init of Some i \<Rightarrow> i | None \<Rightarrow> ''latest'')\<rparr>
      | _ \<Rightarrow> Inl (PlainError ''not bound''))"

definition cmdRegister :: "bus \<Rightarrow> jsval \<Rightarrow> string \<Rightarrow> string \<Rightarrow> rat \<Rightarrow> bool \<Rightarrow> register_result res \<times> bus" where
  "cmdRegister b args sid cid now io_ok =
     (case register_args args of Inl e \<Rightarrow> (Inl e, b) | Inr opts \<Rightarrow> register b opts sid cid now io_ok)"

section \<open>init\<close>

text \<open>The configuration file and the database file before and after.\<close>

definition cmdInit :: "host \<Rightarrow> bool \<Rightarrow> config \<Rightarrow> string option \<times> catalog \<Rightarrow> config res \<times> string option \<times> catalog" where
  "cmdInit h force overrides st =
     (case st of (file, c) \<Rightarrow>
      let file1 = writeDefaultConfig h force file in
      case loadConfig h file1 overrides of
        Inl e \<Rightarrow> (Inl e, file1, c)
      | Inr cfg \<Rightarrow> (case openDb c of (Inl e, c1) \<Rightarrow> (Inl e, file1, c1) | (Inr _, c1) \<Rightarrow> (Inr cfg, file1, c1)))"

section \<open>cleanup\<close>

definition cleanup_config :: "host \<Rightarrow> jsval \<Rightarrow> jsval \<Rightarrow> sweep2_config \<Rightarrow> jsval \<times> sweep2_config" where
  "cleanup_config h args tiered cfg =
     (let cfg1 = (if jget args ''archive'' = JBool True then cfg\<lparr>sc_archive_mode := JBool True\<rparr> else cfg);
          tiered1 = (if jget args ''tiered'' = JBool True then JBool True else tiered);
          cfg2 = (case jget args ''unacked-policy'' of JStr p \<Rightarrow> cfg1\<lparr>sc_unacked_policy := JStr p\<rparr> | _ \<Rightarrow> cfg1);
          days = jget args ''retention-days'';
          cfg3 = (if days \<noteq> JUndef \<and> days \<noteq> JBool True then cfg2\<lparr>sc_unacked_retention_days := JNum (js_Number h days)\<rparr> else cfg2)
      in (tiered1, cfg3))"

datatype cleanup_output = DryRun int report | Cleaned swept

definition cmdCleanup ::
  "host \<Rightarrow> jsval \<Rightarrow> jsval \<Rightarrow> sweep2_config \<Rightarrow> sweep_env \<Rightarrow> rat \<Rightarrow> bus \<Rightarrow> archive \<Rightarrow> cleanup_output res \<times> bus \<times> archive" where
  "cmdCleanup h args tiered cfg env now b ar =
     (case cleanup_config h args tiered cfg of (tiered1, cfg1) \<Rightarrow>
      case resolveUnackedPolicy (sc_unacked_policy cfg1) of
        Inl e \<Rightarrow> (Inl e, b, ar)
      | Inr policy \<Rightarrow>
          (case resolveRetentionCapDays (sc_unacked_retention_days cfg1) of
             Inl e \<Rightarrow> (Inl e, b, ar)
           | Inr capDays \<Rightarrow>
               if jget args ''dry-run'' = JBool True
               then (case cleanup_dry_run policy capDays (truthy tiered1) (s2_batch_size cfg1) now b of
                       (n, unacked) \<Rightarrow> (Inr (DryRun n unacked), b, ar))
               else (case runConfiguredSweep tiered1 cfg1 env now b ar of
                       (Inl e, s) \<Rightarrow> (Inl e, s) | (Inr r, s) \<Rightarrow> (Inr (Cleaned r), s))))"

section \<open>status\<close>

record status_report =
  rp_total :: nat
  rp_oldest :: "int option"
  rp_newest :: "int option"
  rp_by_type :: "(string \<times> nat) list"
  rp_subscribers :: "status_line list"
  rp_providers :: "subscription_row list"

text \<open>The groups of \<open>GROUP BY event_type\<close> in the order of their first event; SQLite does not promise one.\<close>

definition count_by_type :: "event_row list \<Rightarrow> (string \<times> nat) list" where
  "count_by_type es = map (\<lambda>t. (t, length (filter (\<lambda>e. ev_type e = t) es))) (remdups (map ev_type es))"

definition cmdStatus :: "bus \<Rightarrow> status_report" where
  "cmdStatus b =
     \<lparr>rp_total = length (events b), rp_oldest = min_event_id b, rp_newest = max_event_id b,
      rp_by_type = count_by_type (events b), rp_subscribers = status_subscribers b,
      rp_providers = filter (\<lambda>s. su_role s = Provider \<and> sub_active s) (subscriptions b)\<rparr>"

section \<open>Facts about the commands\<close>
section \<open>Facts about the commands\<close>

text \<open>A payload that is not JSON, or not an object, is refused and nothing is stored.\<close>

lemma emit_bad_payload:
  assumes "jget args ''payload'' = JStr s" and "\<not> prefix ''@'' s"
    and "case h_parse (ee_host ee) s of None \<Rightarrow> True | Some x \<Rightarrow> \<not> payload_is_object (h_parse (ee_host ee)) x"
  shows "\<exists>e. cmdEmit ee cfg read_file args s0 = (Inl e, s0)"
proof (cases "emit_event (ee_host ee) read_file args")
  case (Inl e)
  then show ?thesis by (simp add: cmdEmit_def)
next
  case (Inr event)
  let ?p = "case h_parse (ee_host ee) s of Some x \<Rightarrow> x | None \<Rightarrow> JStr s"
  have "emit_payload (ee_host ee) read_file (jget args ''payload'') = Inr ?p"
    using assms(1,2) by (simp add: emit_payload_def)
  with Inr have "jget event ''payload'' = ?p"
    by (auto simp: emit_event_def split: sum.splits if_splits)
  moreover have "\<not> payload_is_object (h_parse (ee_host ee)) ?p"
    using assms(3) by (cases "h_parse (ee_host ee) s") (simp_all add: payload_is_object_def)
  ultimately have "\<not> acceptable (h_parse (ee_host ee)) (h_stringify (ee_host ee)) (cf_max_payload_bytes cfg) event"
    by (simp add: acceptable_def)
  then have "validate_event (h_parse (ee_host ee)) (h_stringify (ee_host ee)) (cf_max_payload_bytes cfg) event \<noteq> Inr ()"
    using validate_event_Inr by metis
  then obtain e where "validate_event (h_parse (ee_host ee)) (h_stringify (ee_host ee)) (cf_max_payload_bytes cfg) event = Inl e"
    by (metis obj_sumE unit.exhaust)
  then have "emit ee cfg event s0 = (Inl e, s0)" by (simp add: emit_def Let_def)
  with Inr show ?thesis by (simp add: cmdEmit_def)
qed

text \<open>\<open>init\<close> can be repeated: without \<open>--force\<close> it leaves both files as they are.\<close>

lemma init_again:
  assumes "cmdInit h force overrides (file, c) = (Inr cfg, file1, c1)"
  shows "cmdInit h False overrides (file1, c1) = (Inr cfg, file1, c1)"
proof -
  have f: "writeDefaultConfig h force file = file1" and l: "loadConfig h file1 overrides = Inr cfg"
    and o: "openDb c = (Inr (), c1)"
    using assms by (auto simp: cmdInit_def Let_def split: sum.splits prod.splits)
  have "file1 \<noteq> None" using f by (auto simp: writeDefaultConfig_def split: if_splits)
  then have "writeDefaultConfig h False file1 = file1" by (simp add: writeDefaultConfig_def)
  moreover have "openDb c1 = (Inr (), c1)" using open_again [OF o] .
  ultimately show ?thesis using l by (simp add: cmdInit_def)
qed

section \<open>The status report\<close>

lemma sum_counts:
  assumes "distinct ts" and "set (map ev_type es) \<subseteq> set ts"
  shows "(\<Sum>t\<leftarrow>ts. length (filter (\<lambda>e. ev_type e = t) es)) = length es"
proof -
  have "(\<Sum>t\<leftarrow>ts. length (filter (\<lambda>e. ev_type e = t) es)) = (\<Sum>t\<in>set ts. count_list (map ev_type es) t)"
    using assms(1) by (simp add: sum_list_distinct_conv_sum_set count_list_eq_length_filter filter_map comp_def eq_commute)
  also have "\<dots> = length (map ev_type es)"
    using sum_count_set [OF assms(2) finite_set] .
  finally show ?thesis by simp
qed

text \<open>The report of \<open>status\<close> adds up: the counts by type partition the stored events.\<close>

lemma status_counts:
  "(\<Sum>x\<leftarrow>rp_by_type (cmdStatus b). snd x) = rp_total (cmdStatus b)"
  "map_of (rp_by_type (cmdStatus b)) t = Some n \<longleftrightarrow> 0 < n \<and> n = length (filter (\<lambda>e. ev_type e = t) (events b))"
proof -
  show "(\<Sum>x\<leftarrow>rp_by_type (cmdStatus b). snd x) = rp_total (cmdStatus b)"
    by (simp add: cmdStatus_def count_by_type_def comp_def sum_counts)
  have "map_of (rp_by_type (cmdStatus b)) t =
      (if t \<in> ev_type ` set (events b) then Some (length (filter (\<lambda>e. ev_type e = t) (events b))) else None)"
    by (simp add: cmdStatus_def count_by_type_def map_of_map_restrict restrict_map_def)
  then show "map_of (rp_by_type (cmdStatus b)) t = Some n \<longleftrightarrow> 0 < n \<and> n = length (filter (\<lambda>e. ev_type e = t) (events b))"
    by (auto simp: filter_empty_conv)
qed

section \<open>The dry run of cleanup\<close>



end
