(* ===== verification/BusInstall.thy ===== *)
theory BusInstall
  imports BusPrelude "HOL-Library.AList"
begin

text \<open>
  The installer \<open>install.mjs\<close>: its flags, the detection of the programs to install for, and the copy of the
  skills with their name rewritten, on a tree of files. Proved: no file outside the installed skills is
  touched, however the run ends; a run that succeeded can be repeated and changes nothing; rewriting a
  name is idempotent and changes nothing but that line.
\<close>

section \<open>Files\<close>

text \<open>A path is absolute and normalised; the tree has no links.\<close>

type_synonym path = "string list"

datatype node = File string | Folder "(string \<times> node) list"

datatype fs_error = ENOENT | ENOTDIR | EEXIST | EISDIR | CpSelf | CpDirToNonDir | CpNonDirToDir

fun node_at :: "path \<Rightarrow> node option \<Rightarrow> node option" where
  "node_at [] d = d"
| "node_at (x # p) d = (case d of Some (Folder es) \<Rightarrow> node_at p (map_of es x) | _ \<Rightarrow> None)"

definition existsSync :: "node \<Rightarrow> path \<Rightarrow> bool" where
  "existsSync fs p \<longleftrightarrow> node_at p (Some fs) \<noteq> None"

text \<open>A change of what is at a path; missing folders above it are created.\<close>

fun alter :: "path \<Rightarrow> (node option \<Rightarrow> fs_error option \<times> node) \<Rightarrow> node option \<Rightarrow> fs_error option \<times> node" where
  "alter [] f d = f d"
| "alter (x # p) f d = (case d of
     None \<Rightarrow> (case alter p f None of (r, n) \<Rightarrow> (r, Folder [(x, n)]))
   | Some (File t) \<Rightarrow> (Some ENOTDIR, File t)
   | Some (Folder es) \<Rightarrow> (case alter p f (map_of es x) of (r, n) \<Rightarrow> (r, Folder (AList.update x n es))))"

definition mkdirSync :: "path \<Rightarrow> node \<Rightarrow> fs_error option \<times> node" where
  "mkdirSync p fs = alter p (\<lambda>d. case d of None \<Rightarrow> (None, Folder []) | Some (Folder es) \<Rightarrow> (None, Folder es)
     | Some (File t) \<Rightarrow> (Some EEXIST, File t)) (Some fs)"

definition writeFileSync :: "path \<Rightarrow> string \<Rightarrow> node \<Rightarrow> fs_error option \<times> node" where
  "writeFileSync p text fs = alter p (\<lambda>d. case d of Some (Folder es) \<Rightarrow> (Some EISDIR, Folder es) | _ \<Rightarrow> (None, File text)) (Some fs)"

fun copy_onto :: "node \<Rightarrow> node option \<Rightarrow> fs_error option \<times> node"
  and copy_entries :: "(string \<times> node) list \<Rightarrow> (string \<times> node) list \<Rightarrow> fs_error option \<times> (string \<times> node) list" where
  "copy_onto (File t) d = (case d of Some (Folder ds) \<Rightarrow> (Some CpNonDirToDir, Folder ds) | _ \<Rightarrow> (None, File t))"
| "copy_onto (Folder es) d = (case d of Some (File t) \<Rightarrow> (Some CpDirToNonDir, File t)
     | Some (Folder ds) \<Rightarrow> (case copy_entries es ds of (r, ds') \<Rightarrow> (r, Folder ds'))
     | None \<Rightarrow> (case copy_entries es [] of (r, ds') \<Rightarrow> (r, Folder ds')))"
| "copy_entries [] ds = (None, ds)"
| "copy_entries ((x, n) # es) ds = (case copy_onto n (map_of ds x) of
     (None, m) \<Rightarrow> copy_entries es (AList.update x m ds)
   | (Some e, m) \<Rightarrow> (Some e, AList.update x m ds))"

definition cpSync :: "path \<Rightarrow> path \<Rightarrow> node \<Rightarrow> fs_error option \<times> node" where
  "cpSync src dest fs = (case node_at src (Some fs) of
     None \<Rightarrow> (Some ENOENT, fs)
   | Some n \<Rightarrow> if prefix src dest then (Some CpSelf, fs) else alter dest (copy_onto n) (Some fs))"

text \<open>Steps one after the other; the first error ends them, and what was done stays.\<close>

fun run_all :: "('a \<Rightarrow> node \<Rightarrow> fs_error option \<times> node) \<Rightarrow> 'a list \<Rightarrow> node \<Rightarrow> fs_error option \<times> node" where
  "run_all f [] fs = (None, fs)"
| "run_all f (x # xs) fs = (case f x fs of (None, fs1) \<Rightarrow> run_all f xs fs1 | (Some e, fs1) \<Rightarrow> (Some e, fs1))"

section \<open>Paths\<close>

definition path_str :: "path \<Rightarrow> string" where
  "path_str p = (if p = [] then ''/'' else concat (map (\<lambda>x. CHR ''/'' # x) p))"

text \<open>\<open>resolve\<close> of \<open>node:path\<close>, on POSIX.\<close>

definition path_step :: "path \<Rightarrow> string \<Rightarrow> path" where
  "path_step p x = (if x = [] \<or> x = ''.'' then p else if x = ''..'' then butlast p else p @ [x])"

definition resolve :: "path \<Rightarrow> string \<Rightarrow> path" where
  "resolve cwd s = foldl path_step (if prefix ''/'' s then [] else cwd) (split_on (CHR ''/'') s)"

text \<open>\<open>replace(/^~/, () => home)\<close>.\<close>

definition expand_home :: "path \<Rightarrow> string \<Rightarrow> string" where
  "expand_home home s = (case s of c # r \<Rightarrow> if c = CHR ''~'' then path_str home @ r else s | [] \<Rightarrow> [])"

definition basename :: "path \<Rightarrow> string" where
  "basename p = (if p = [] then [] else last p)"

section \<open>Flags\<close>

text \<open>\<open>null\<close>, a boolean or a text.\<close>

datatype flag = NoFlag | Flag bool | FlagText string

definition flagValue :: "string list \<Rightarrow> string \<Rightarrow> flag" where
  "flagValue args name = (case find (\<lambda>a. a = ''--'' @ name \<or> prefix (''--'' @ name @ ''='') a) args of
     None \<Rightarrow> NoFlag
   | Some f \<Rightarrow>
       let val = (case snd (split_at_char (CHR ''='') f) of
             Some v \<Rightarrow> FlagText v
           | None \<Rightarrow> (case dropWhile (\<lambda>a. a \<noteq> f) args of
               _ # nxt # _ \<Rightarrow> if nxt \<noteq> [] \<and> \<not> prefix ''-'' nxt then FlagText nxt else Flag True
             | _ \<Rightarrow> Flag True))
       in if val = FlagText ''false'' then Flag False else if val = FlagText ''true'' then Flag True else val)"

section \<open>Targets\<close>

record target =
  tg_name :: string
  tg_root :: "path option"
  tg_dir :: path
  tg_trusted :: bool

definition buildClaudeTarget :: "path \<Rightarrow> bool \<Rightarrow> target" where
  "buildClaudeTarget dir trusted = \<lparr>tg_name = ''claude'', tg_root = Some dir, tg_dir = dir @ [''skills''], tg_trusted = trusted\<rparr>"

definition resolveClaudeCandidates :: "path \<Rightarrow> path \<Rightarrow> string option \<Rightarrow> target list" where
  "resolveClaudeCandidates home cwd env =
     (let dflt = [buildClaudeTarget (home @ [''.claude'']) False, buildClaudeTarget (home @ [''alt-configs'', ''.claude'']) False,
        buildClaudeTarget (home @ [''.config'', ''claude'']) False] in
      case env of
        None \<Rightarrow> dflt
      | Some e \<Rightarrow> if js_trim e = [] then dflt
          else [buildClaudeTarget (resolve cwd (expand_home home (js_trim e))) True])"

definition claudeHasIdentityMarker :: "node \<Rightarrow> target \<Rightarrow> bool" where
  "claudeHasIdentityMarker fs t = (tg_trusted t \<or> (case tg_root t of None \<Rightarrow> False
     | Some dir \<Rightarrow> existsSync fs dir \<and> (\<exists>m\<in>set [''settings.json'', ''plugins'', ''projects'']. existsSync fs (dir @ [m]))))"

definition CLI_TARGETS :: "path \<Rightarrow> target list" where
  "CLI_TARGETS home = map (\<lambda>(name, folder). \<lparr>tg_name = name, tg_root = None, tg_dir = home @ [folder, ''skills''], tg_trusted = False\<rparr>)
     [(''gemini'', ''.gemini''), (''copilot'', ''.github''), (''codex'', ''.codex''), (''cursor'', ''.cursor''), (''kiro'', ''.kiro''),
      (''antigravity'', ''.antigravity'')]"

definition detected :: "path \<Rightarrow> path \<Rightarrow> string option \<Rightarrow> node \<Rightarrow> target list" where
  "detected home cwd env fs = filter (claudeHasIdentityMarker fs) (resolveClaudeCandidates home cwd env) @
     filter (\<lambda>t. existsSync fs (butlast (tg_dir t))) (CLI_TARGETS home)"

definition custom_target :: "path \<Rightarrow> path \<Rightarrow> string \<Rightarrow> target" where
  "custom_target home cwd p =
     (let c = resolve cwd (expand_home home p); b = basename c in
      \<lparr>tg_name = (if prefix ''.'' b then tl b else b), tg_root = None, tg_dir = c @ [''skills''], tg_trusted = False\<rparr>)"

datatype stop_reason = CliNeedsValue | PathNeedsValue | NothingDetected

definition choose_targets :: "path \<Rightarrow> path \<Rightarrow> string option \<Rightarrow> string list \<Rightarrow> node \<Rightarrow> stop_reason + target list" where
  "choose_targets home cwd env args fs =
     (let cliArg = flagValue args ''cli''; pathArg = flagValue args ''path'' in
      if cliArg = Flag True \<or> cliArg = FlagText '''' then Inl CliNeedsValue
      else if pathArg = Flag True \<or> pathArg = FlagText '''' then Inl PathNeedsValue
      else (case pathArg of
              FlagText p \<Rightarrow> Inr [custom_target home cwd p]
            | _ \<Rightarrow>
                let ds = detected home cwd env fs in
                if ds = [] then Inl NothingDetected
                else Inr (case cliArg of FlagText c \<Rightarrow> filter (\<lambda>t. tg_name t \<in> set (split_on (CHR '','') c)) ds | _ \<Rightarrow> ds)))"

section \<open>The name in the frontmatter\<close>

definition namespacedSkillName :: "string \<Rightarrow> string" where
  "namespacedSkillName bare = ''wicked-bus-'' @ bare"

definition is_blank :: "char \<Rightarrow> bool" where
  "is_blank c \<longleftrightarrow> c = CHR '' '' \<or> c = CHR 0x09"

definition is_eol :: "char \<Rightarrow> bool" where
  "is_eol c \<longleftrightarrow> c = CHR 0x0A \<or> c = CHR 0x0D"

text \<open>What follows the opening line \<open>---\<close>.\<close>

definition after_open :: "string \<Rightarrow> string option" where
  "after_open text =
     (if prefix ''---'' text
      then (case dropWhile is_blank (drop 3 text) of
              [] \<Rightarrow> None
            | c # r \<Rightarrow> if c = CHR 0x0A then Some r
                else if c = CHR 0x0D then (case r of d # r' \<Rightarrow> if d = CHR 0x0A then Some r' else None | [] \<Rightarrow> None) else None)
      else None)"

definition closes :: "string \<Rightarrow> bool" where
  "closes s \<longleftrightarrow> prefix (CHR 0x0A # ''---'') s \<or> prefix (CHR 0x0D # CHR 0x0A # ''---'') s"

text \<open>The text before the first closing line.\<close>

fun before_close :: "string \<Rightarrow> string option" where
  "before_close [] = None"
| "before_close (c # s) = (if closes (c # s) then Some [] else map_option ((#) c) (before_close s))"

text \<open>\<open>/^name:[ \t]*(?![|>])\S.*$/m\<close>, at the start of a line.\<close>

definition name_line :: "string \<Rightarrow> bool" where
  "name_line s \<longleftrightarrow> prefix ''name:'' s \<and>
     (case dropWhile is_blank (drop 5 s) of [] \<Rightarrow> False | c # _ \<Rightarrow> c \<noteq> CHR ''|'' \<and> c \<noteq> CHR ''>'' \<and> \<not> is_space c)"

fun replace_name :: "string \<Rightarrow> bool \<Rightarrow> string \<Rightarrow> string" where
  "replace_name new start [] = []"
| "replace_name new start (c # s) =
     (if start \<and> name_line (c # s) then ''name: '' @ new @ dropWhile (\<lambda>x. \<not> is_eol x) (c # s)
      else c # replace_name new (is_eol c) s)"

definition stamp_text :: "string \<Rightarrow> string \<Rightarrow> string" where
  "stamp_text new text = (case after_open text of
     None \<Rightarrow> text
   | Some r \<Rightarrow> (case before_close r of
       None \<Rightarrow> text
     | Some body \<Rightarrow> take (length text - length r) text @ replace_name new True body @ drop (length body) r))"

definition stampSkillName :: "path \<Rightarrow> string \<Rightarrow> node \<Rightarrow> fs_error option \<times> node" where
  "stampSkillName dest new fs = (case node_at (dest @ [''SKILL.md'']) (Some fs) of
     None \<Rightarrow> (None, fs)
   | Some (Folder es) \<Rightarrow> (Some EISDIR, fs)
   | Some (File text) \<Rightarrow> if stamp_text new text = text then (None, fs) else writeFileSync (dest @ [''SKILL.md'']) (stamp_text new text) fs)"

section \<open>The run\<close>

definition install_skill :: "path \<Rightarrow> path \<Rightarrow> string \<Rightarrow> node \<Rightarrow> fs_error option \<times> node" where
  "install_skill src dir skill fs =
     (let dest = dir @ [namespacedSkillName skill] in
      case cpSync (src @ [skill]) dest fs of
        (None, fs1) \<Rightarrow> stampSkillName dest (namespacedSkillName skill) fs1
      | r \<Rightarrow> r)"

definition install_target :: "path \<Rightarrow> string list \<Rightarrow> path \<Rightarrow> node \<Rightarrow> fs_error option \<times> node" where
  "install_target src skills dir fs =
     (case mkdirSync dir fs of (None, fs1) \<Rightarrow> run_all (install_skill src dir) skills fs1 | r \<Rightarrow> r)"

definition subSkills :: "path \<Rightarrow> node \<Rightarrow> fs_error + string list" where
  "subSkills src fs = (case node_at src (Some fs) of
     None \<Rightarrow> Inl ENOENT | Some (File t) \<Rightarrow> Inl ENOTDIR
   | Some (Folder es) \<Rightarrow> Inr (filter (\<lambda>d. \<not> prefix ''.'' d) (map fst es)))"

datatype install_result = Stopped stop_reason | Thrown fs_error | InstalledFor "string list"

definition install :: "path \<Rightarrow> path \<Rightarrow> path \<Rightarrow> string option \<Rightarrow> string list \<Rightarrow> node \<Rightarrow> install_result \<times> node" where
  "install home cwd package env args fs =
     (let src = package @ [''skills'', ''wicked-bus''] in
      case choose_targets home cwd env args fs of
        Inl e \<Rightarrow> (Stopped e, fs)
      | Inr ts \<Rightarrow> (case subSkills src fs of
          Inl e \<Rightarrow> (Thrown e, fs)
        | Inr skills \<Rightarrow> (case run_all (\<lambda>t. install_target src skills (tg_dir t)) ts fs of
            (None, fs1) \<Rightarrow> (InstalledFor (map tg_name ts), fs1)
          | (Some e, fs1) \<Rightarrow> (Thrown e, fs1))))"
section \<open>Rewriting a name\<close>

lemma is_eol_facts: "is_eol c \<Longrightarrow> is_space c" "is_eol c \<Longrightarrow> \<not> is_blank c" "is_eol c \<Longrightarrow> c \<noteq> CHR ''n''"
  by (auto simp: is_eol_def is_space_def is_blank_def)

text \<open>Whether a line is the name line is decided before its end.\<close>

abbreviation line_of :: "string \<Rightarrow> string" where
  "line_of \<equiv> takeWhile (\<lambda>c. \<not> is_eol c)"

lemma prefix_line_of:
  assumes "\<forall>c\<in>set p. \<not> is_eol c"
  shows "prefix p s \<longleftrightarrow> prefix p (line_of s)"
proof
  assume "prefix p s"
  then obtain r where "s = p @ r" by (auto simp: prefix_def)
  with assms show "prefix p (line_of s)" by (simp add: takeWhile_append)
next
  assume "prefix p (line_of s)"
  moreover have "prefix (line_of s) s" by (metis prefixI takeWhile_dropWhile_id)
  ultimately show "prefix p s" by (rule prefix_order.trans)
qed

lemma first_text:
  "(case dropWhile is_blank s of [] \<Rightarrow> False | c # _ \<Rightarrow> c \<noteq> CHR ''|'' \<and> c \<noteq> CHR ''>'' \<and> \<not> is_space c) \<longleftrightarrow>
   (case dropWhile is_blank (line_of s) of [] \<Rightarrow> False | c # _ \<Rightarrow> c \<noteq> CHR ''|'' \<and> c \<noteq> CHR ''>'' \<and> \<not> is_space c)"
  by (induction s) (auto simp: is_eol_facts)

lemma name_line_of: "name_line s \<longleftrightarrow> name_line (line_of s)"
proof (cases "prefix ''name:'' s")
  case True
  then obtain r where s: "s = ''name:'' @ r" by (auto simp: prefix_def)
  have "line_of s = ''name:'' @ line_of r" by (simp add: s is_eol_def)
  then show ?thesis using first_text [of r] by (simp add: name_line_def s)
next
  case False
  then have "\<not> prefix ''name:'' (line_of s)" using prefix_line_of [of "''name:''" s] by (simp add: is_eol_def)
  with False show ?thesis by (simp add: name_line_def)
qed

lemma name_line_n: "name_line (c # s) \<Longrightarrow> c = CHR ''n''"
  by (simp add: name_line_def)

lemma line_of_replace: "line_of (replace_name new False s) = line_of s"
proof (induction s)
  case (Cons c s)
  then show ?case by (cases "is_eol c") simp_all
qed simp

lemma name_line_new:
  assumes "new \<noteq> []" and "\<not> is_space (hd new)" and "hd new \<noteq> CHR ''|''" and "hd new \<noteq> CHR ''>''"
  shows "name_line (''name: '' @ new @ s)"
  using assms by (cases new) (auto simp: name_line_def is_blank_def is_space_def)

text \<open>A name that can be stamped: as \<open>namespacedSkillName\<close> makes it from a name without a line end.\<close>

definition good_name :: "string \<Rightarrow> bool" where
  "good_name new \<longleftrightarrow> prefix ''wicked-bus-'' new \<and> (\<forall>c\<in>set new. \<not> is_eol c)"

lemma good_nameD:
  assumes "good_name new"
  shows "name_line (''name: '' @ new @ s)" and "line_of (''name: '' @ new @ s) = ''name: '' @ new @ line_of s"
    and "dropWhile (\<lambda>x. \<not> is_eol x) (''name: '' @ new @ s) = dropWhile (\<lambda>x. \<not> is_eol x) s"
proof -
  obtain r where r: "new = ''wicked-bus-'' @ r" using assms by (auto simp: good_name_def prefix_def)
  show "name_line (''name: '' @ new @ s)" by (rule name_line_new) (simp_all add: r is_space_def)
  have e: "\<forall>c\<in>set (''name: '' @ new). \<not> is_eol c" using assms by (auto simp: good_name_def is_eol_def)
  show "line_of (''name: '' @ new @ s) = ''name: '' @ new @ line_of s"
    using takeWhile_append2 [of "''name: '' @ new" "\<lambda>c. \<not> is_eol c" s] e by simp
  show "dropWhile (\<lambda>x. \<not> is_eol x) (''name: '' @ new @ s) = dropWhile (\<lambda>x. \<not> is_eol x) s"
    using dropWhile_append2 [of "''name: '' @ new" "\<lambda>c. \<not> is_eol c" s] e by simp
qed

lemma dropWhile_idem: "dropWhile P (dropWhile P xs) = dropWhile P xs"
  by (induction xs) simp_all

lemma replace_name_start:
  assumes "name_line s"
  shows "replace_name new True s = ''name: '' @ new @ dropWhile (\<lambda>x. \<not> is_eol x) s"
  using assms by (cases s) (simp_all add: name_line_def)

lemma replace_name_idem:
  assumes "good_name new"
  shows "replace_name new start (replace_name new start s) = replace_name new start s"
proof (induction s arbitrary: start)
  case (Cons c s)
  show ?case
  proof (cases "start \<and> name_line (c # s)")
    case True
    then have r: "replace_name new start (c # s) = ''name: '' @ new @ dropWhile (\<lambda>x. \<not> is_eol x) (c # s)" by simp
    let ?d = "dropWhile (\<lambda>x. \<not> is_eol x) (c # s)"
    have "replace_name new True (''name: '' @ new @ ?d) = ''name: '' @ new @ dropWhile (\<lambda>x. \<not> is_eol x) (''name: '' @ new @ ?d)"
      by (rule replace_name_start [OF good_nameD(1) [OF assms]])
    also have "\<dots> = ''name: '' @ new @ ?d" unfolding good_nameD(3) [OF assms] dropWhile_idem ..
    finally have e: "replace_name new True (''name: '' @ new @ ?d) = ''name: '' @ new @ ?d" .
    have "start = True" using True by simp
    with e show ?thesis unfolding r by (simp only:)
  next
    case False
    let ?R = "replace_name new (is_eol c) s"
    have r: "replace_name new start (c # s) = c # ?R" by (simp only: replace_name.simps(2) if_not_P [OF False])
    have n: "\<not> (start \<and> name_line (c # ?R))"
    proof
      assume *: "start \<and> name_line (c # ?R)"
      then have "\<not> is_eol c" using name_line_n is_eol_facts(3) by blast
      then have "line_of (c # ?R) = line_of (c # s)" by (simp add: line_of_replace)
      with * False name_line_of [of "c # ?R"] name_line_of [of "c # s"] show False by simp
    qed
    have "replace_name new start (c # ?R) = c # replace_name new (is_eol c) ?R" by (simp only: replace_name.simps(2) if_not_P [OF n])
    then show ?thesis unfolding r Cons.IH .
  qed
qed simp

text \<open>The closing line is found where it was.\<close>

lemma prefix_replace:
  assumes "\<forall>c\<in>set p. \<not> is_eol c" and "p \<noteq> []" and "hd p \<noteq> CHR ''n''" and "rest \<noteq> []" and "is_eol (hd rest)"
  shows "prefix p (replace_name new start s @ rest) \<longleftrightarrow> prefix p (s @ rest)"
proof (cases "start \<and> name_line s")
  case True
  then obtain s' where "s = CHR ''n'' # s'" using name_line_n by (cases s) (auto simp: name_line_def)
  with True replace_name_start [of s new] assms(2,3) show ?thesis by (cases p) auto
next
  case False
  have l: "line_of (replace_name new start s) = line_of s"
  proof (cases s)
    case (Cons c s')
    with False line_of_replace show ?thesis by (cases "is_eol c") auto
  qed simp
  have e: "line_of (xs @ rest) = line_of xs" for xs
    by (induction xs) (use assms(4,5) in \<open>cases rest; simp\<close>, simp)
  show ?thesis using prefix_line_of [OF assms(1)] e l by metis
qed

lemma closes_replace:
  assumes "rest \<noteq> []" and "is_eol (hd rest)"
  shows "closes (c # replace_name new (is_eol c) s @ rest) \<longleftrightarrow> closes (c # s @ rest)"
proof -
  have 1: "prefix ''---'' (replace_name new start s @ rest) \<longleftrightarrow> prefix ''---'' (s @ rest)" for start s
    by (rule prefix_replace) (use assms in \<open>auto simp: is_eol_def\<close>)
  show ?thesis
  proof (cases s)
    case Nil
    then show ?thesis by simp
  next
    case (Cons d s')
    have "\<not> name_line (d # s')" if "d = CHR 0x0A" using name_line_n that by fastforce
    moreover have "prefix (CHR 0x0A # ''---'') (replace_name new (is_eol c) s @ rest) \<longleftrightarrow> prefix (CHR 0x0A # ''---'') (s @ rest)"
      using Cons 1 [of True s'] calculation by (cases "d = CHR 0x0A") (auto simp: is_eol_def)
    ultimately show ?thesis using 1 [of "is_eol c" s] by (auto simp: closes_def)
  qed
qed
lemma closesD: "closes s \<Longrightarrow> s \<noteq> [] \<and> is_eol (hd s)"
  by (auto simp: closes_def prefix_def is_eol_def)

lemma before_close_Some: "before_close s = Some b \<Longrightarrow> \<exists>rest. s = b @ rest \<and> closes rest"
proof (induction s arbitrary: b)
  case (Cons c s)
  then show ?case by (auto split: if_splits)
qed simp

lemma before_close_suffix: "before_close (u @ v @ rest) = Some (u @ v) \<Longrightarrow> before_close (v @ rest) = Some v"
  by (induction u) (auto split: if_splits)

lemma before_close_skip: "\<forall>c\<in>set l. \<not> is_eol c \<Longrightarrow> before_close (l @ s) = map_option ((@) l) (before_close s)"
proof (induction l)
  case (Cons c l)
  then have "\<not> closes (c # l @ s)" using closesD by fastforce
  with Cons show ?case by (simp add: option.map_comp comp_def)
qed (cases "before_close s"; simp)

lemma before_close_replace:
  assumes "good_name new" and "closes rest" and "before_close (b @ rest) = Some b"
  shows "before_close (replace_name new start b @ rest) = Some (replace_name new start b)"
  using assms(3)
proof (induction b arbitrary: start)
  case Nil
  then show ?case by simp
next
  case (Cons c s)
  have nc: "\<not> closes (c # s @ rest)" and s: "before_close (s @ rest) = Some s" using Cons.prems by (auto split: if_splits)
  show ?case
  proof (cases "start \<and> name_line (c # s)")
    case True
    let ?d = "dropWhile (\<lambda>x. \<not> is_eol x) (c # s)" and ?l = "''name: '' @ new"
    have r: "replace_name new start (c # s) = ?l @ ?d" using True by simp
    have "c # s = line_of (c # s) @ ?d" by (metis takeWhile_dropWhile_id)
    with Cons.prems before_close_suffix [of "line_of (c # s)" ?d rest] have d: "before_close (?d @ rest) = Some ?d" by (metis append.assoc append_Cons)
    have "\<forall>x\<in>set ?l. \<not> is_eol x" using assms(1) by (auto simp: good_name_def is_eol_def)
    from before_close_skip [OF this, of "?d @ rest"] d show ?thesis unfolding r by (simp only: append.assoc option.map)
  next
    case False
    let ?R = "replace_name new (is_eol c) s"
    have r: "replace_name new start (c # s) = c # ?R" by (simp only: replace_name.simps(2) if_not_P [OF False])
    have "\<not> closes (c # ?R @ rest)" using closes_replace [of rest c new s] closesD [OF assms(2)] nc by blast
    with Cons.IH [OF s, of "is_eol c"] show ?thesis unfolding r by simp
  qed
qed

lemma after_open_Some:
  assumes "after_open text = Some r"
  obtains opn where "text = opn @ r" and "\<And>r'. after_open (opn @ r') = Some r'" and "prefix ''---'' opn"
proof -
  let ?t = "drop 3 text" and ?eol = "\<lambda>x. x = [CHR 0x0A] \<or> x = [CHR 0x0D, CHR 0x0A]"
  have p: "text = ''---'' @ ?t" using assms by (auto simp: after_open_def prefix_def split: if_splits)
  have t: "?t = takeWhile is_blank ?t @ dropWhile is_blank ?t" by simp
  obtain e where e: "?eol e" "dropWhile is_blank ?t = e @ r"
    using assms by (auto simp: after_open_def split: if_splits list.splits)
  let ?o = "''---'' @ takeWhile is_blank ?t @ e"
  have o: "text = ?o @ r" using p t e(2) by (metis append.assoc)
  have "after_open (?o @ r') = Some r'" for r'
  proof -
    have "dropWhile is_blank (takeWhile is_blank ?t @ e @ r') = dropWhile is_blank (e @ r')"
      by (rule dropWhile_append2) (auto dest: set_takeWhileD)
    then show ?thesis using e(1) by (auto simp: after_open_def is_blank_def)
  qed
  with that [OF o] show ?thesis by simp
qed

lemma stamp_text_stamped:
  assumes "stamp_text new text \<noteq> text"
  obtains opn body rest where "text = opn @ body @ rest" and "\<And>r'. after_open (opn @ r') = Some r'" and "prefix ''---'' opn"
    and "before_close (body @ rest) = Some body" and "closes rest" and "stamp_text new text = opn @ replace_name new True body @ rest"
proof -
  obtain r body where r: "after_open text = Some r" "before_close r = Some body"
    using assms by (auto simp: stamp_text_def split: option.splits)
  obtain opn where o: "text = opn @ r" "\<And>r'. after_open (opn @ r') = Some r'" "prefix ''---'' opn" by (rule after_open_Some [OF r(1)]) blast
  obtain rest where b: "r = body @ rest" "closes rest" using before_close_Some [OF r(2)] by blast
  have "stamp_text new text = opn @ replace_name new True body @ rest"
    using r o(1) b(1) by (simp add: stamp_text_def)
  with that o b r show ?thesis by metis
qed

lemma replace_name_line:
  assumes "replace_name new start s \<noteq> s"
  shows "\<exists>pre line post. s = pre @ line @ post \<and> replace_name new start s = pre @ ''name: '' @ new @ post \<and> name_line line \<and>
    (\<forall>c\<in>set line. \<not> is_eol c) \<and> (post = [] \<or> is_eol (hd post))"
  using assms
proof (induction s arbitrary: start)
  case (Cons c s)
  show ?case
  proof (cases "start \<and> name_line (c # s)")
    case True
    let ?l = "line_of (c # s)" and ?d = "dropWhile (\<lambda>x. \<not> is_eol x) (c # s)"
    have "c # s = [] @ ?l @ ?d" by (simp only: append_Nil takeWhile_dropWhile_id)
    moreover have "replace_name new start (c # s) = [] @ ''name: '' @ new @ ?d" using True by simp
    moreover have "name_line ?l" using name_line_of True by blast
    moreover have "\<forall>x\<in>set ?l. \<not> is_eol x" by (metis set_takeWhileD)
    moreover have "?d = [] \<or> is_eol (hd ?d)" using hd_dropWhile [of "\<lambda>x. \<not> is_eol x" "c # s"] by blast
    ultimately show ?thesis by (intro exI conjI) assumption+
  next
    case False
    have r: "replace_name new start (c # s) = c # replace_name new (is_eol c) s" by (simp only: replace_name.simps(2) if_not_P [OF False])
    with Cons obtain pre line post where "s = pre @ line @ post" "replace_name new (is_eol c) s = pre @ ''name: '' @ new @ post" "name_line line"
      "\<forall>c\<in>set line. \<not> is_eol c" "post = [] \<or> is_eol (hd post)" by (metis list.inject)
    then show ?thesis unfolding r by (intro exI [of _ "c # pre"] exI [of _ line] exI [of _ post]) simp
  qed
qed simp

text \<open>The installer rewrites nothing but the name. Stamping a skill file leaves it as it is, or replaces one line
  of its leading frontmatter that names the skill (between the opening and the closing \<open>---\<close>), and nothing
  before or after it; and stamping it again changes nothing.\<close>

theorem stamp_changes_the_name_only:
  assumes "good_name new"
  shows "stamp_text new (stamp_text new text) = stamp_text new text \<and>
    (stamp_text new text = text \<or>
     (\<exists>before line after. text = before @ line @ after \<and> stamp_text new text = before @ ''name: '' @ new @ after \<and>
        name_line line \<and> (\<forall>c\<in>set line. \<not> is_eol c) \<and> prefix ''---'' before \<and> (\<exists>x y. after = x @ y \<and> closes y)))"
proof (cases "stamp_text new text = text")
  case False
  then obtain opn body rest where t: "text = opn @ body @ rest" and o: "\<And>r'. after_open (opn @ r') = Some r'" "prefix ''---'' opn"
    and b: "before_close (body @ rest) = Some body" "closes rest" and st: "stamp_text new text = opn @ replace_name new True body @ rest"
    by (rule stamp_text_stamped) blast
  let ?b = "replace_name new True body"
  have "before_close (?b @ rest) = Some ?b" by (rule before_close_replace [OF assms b(2,1)])
  then have "stamp_text new (opn @ ?b @ rest) = opn @ ?b @ rest"
    using o(1) [of "?b @ rest"] replace_name_idem [OF assms, of True body] by (simp add: stamp_text_def)
  moreover have "?b \<noteq> body" using False st t by auto
  from replace_name_line [OF this] obtain pre line post where "body = pre @ line @ post" "?b = pre @ ''name: '' @ new @ post" "name_line line"
    "\<forall>c\<in>set line. \<not> is_eol c" by blast
  ultimately show ?thesis unfolding st using t o(2) b(2)
    by (intro conjI disjI2 exI [of _ "opn @ pre"] exI [of _ line] exI [of _ "post @ rest"] exI [of _ post] exI [of _ rest]) (simp_all add: prefix_append)
qed simp
section \<open>What an installation leaves alone\<close>

definition file_text :: "path \<Rightarrow> node option \<Rightarrow> string option" where
  "file_text p d = (case node_at p d of Some (File t) \<Rightarrow> Some t | _ \<Rightarrow> None)"

lemma node_at_None [simp]: "node_at p None = None"
  by (cases p) simp_all

lemma file_text_None [simp]: "file_text p None = None"
  by (simp add: file_text_def)

lemma file_text_Folder [simp]:
  "file_text [] (Some (Folder es)) = None" "file_text (x # p) (Some (Folder es)) = file_text p (map_of es x)"
  by (simp_all add: file_text_def)

lemma file_text_below_file [simp]: "file_text (x # p) (Some (File t)) = None"
  by (simp add: file_text_def)

lemma alter_snd:
  "snd (alter (x # p) f d) = (case d of None \<Rightarrow> Folder [(x, snd (alter p f None))] | Some (File t) \<Rightarrow> File t
     | Some (Folder es) \<Rightarrow> Folder (AList.update x (snd (alter p f (map_of es x))) es))"
  by (simp add: case_prod_unfold split: option.split node.split)

lemma alter_other_text:
  "\<not> prefix p q \<Longrightarrow> file_text q (Some (snd (alter p f d))) = file_text q d"
proof (induction p arbitrary: q d)
  case (Cons x p)
  show ?case
  proof (cases q)
    case Nil
    then show ?thesis by (simp add: alter_snd file_text_def del: alter.simps split: option.split node.split)
  next
    case (Cons y q')
    with Cons.prems Cons.IH [of q'] show ?thesis
      by (auto simp: alter_snd update_conv' simp del: alter.simps split: option.split node.split)
  qed
qed simp

lemma alter_same_text:
  assumes "\<And>d r. file_text r (Some (snd (f d))) = file_text r d"
  shows "file_text q (Some (snd (alter p f d))) = file_text q d"
proof (induction p arbitrary: q d)
  case (Cons x p)
  show ?case
  proof (cases q)
    case Nil
    then show ?thesis by (simp add: alter_snd file_text_def del: alter.simps split: option.split node.split)
  next
    case (Cons y q')
    with Cons.IH [of q'] show ?thesis
      by (auto simp: alter_snd update_conv' simp del: alter.simps split: option.split node.split)
  qed
qed (simp add: assms)

lemma mkdir_text: "file_text q (Some (snd (mkdirSync p fs))) = file_text q (Some fs)"
  unfolding mkdirSync_def
proof (rule alter_same_text)
  fix d :: "node option" and r
  show "file_text r (Some (snd (case d of None \<Rightarrow> (None, Folder []) | Some (Folder es) \<Rightarrow> (None, Folder es)
     | Some (File t) \<Rightarrow> (Some EEXIST, File t)))) = file_text r d"
    by (cases r) (simp_all split: option.split node.split)
qed

lemma cp_text: "\<not> prefix dest q \<Longrightarrow> file_text q (Some (snd (cpSync src dest fs))) = file_text q (Some fs)"
  by (simp add: cpSync_def alter_other_text split: option.split)

lemma stamp_text_elsewhere:
  assumes "\<not> prefix dest q"
  shows "file_text q (Some (snd (stampSkillName dest new fs))) = file_text q (Some fs)"
proof -
  have "\<not> prefix (dest @ [''SKILL.md'']) q" using assms append_prefixD by blast
  then show ?thesis by (simp add: stampSkillName_def writeFileSync_def alter_other_text split: option.split node.split)
qed

lemma install_skill_text:
  assumes "\<not> prefix (dir @ [namespacedSkillName skill]) q"
  shows "file_text q (Some (snd (install_skill src dir skill fs))) = file_text q (Some fs)"
proof -
  obtain r fs1 where c: "cpSync (src @ [skill]) (dir @ [namespacedSkillName skill]) fs = (r, fs1)" by fastforce
  with cp_text [OF assms, of "src @ [skill]" fs] stamp_text_elsewhere [OF assms, of _ fs1] show ?thesis
    by (cases r) (simp_all add: install_skill_def)
qed

lemma run_all_keeps:
  assumes "\<And>x fs. x \<in> set xs \<Longrightarrow> P fs \<Longrightarrow> P (snd (f x fs))" and "P fs"
  shows "P (snd (run_all f xs fs))"
  using assms
proof (induction xs arbitrary: fs)
  case (Cons x xs)
  obtain r fs1 where c: "f x fs = (r, fs1)" by fastforce
  moreover have "P (snd (f x fs))" using Cons.prems by simp
  ultimately show ?case using Cons.IH [of fs1] Cons.prems(1) by (cases r) simp_all
qed simp

lemma install_target_text:
  assumes "\<forall>skill\<in>set skills. \<not> prefix (dir @ [namespacedSkillName skill]) q"
  shows "file_text q (Some (snd (install_target src skills dir fs))) = file_text q (Some fs)"
proof -
  have "file_text q (Some (snd (run_all (install_skill src dir) skills fs1))) = file_text q (Some fs1)" for fs1
    by (rule run_all_keeps [where P = "\<lambda>fs. file_text q (Some fs) = file_text q (Some fs1)"])
      (use install_skill_text assms in auto)
  moreover obtain r fs1 where c: "mkdirSync dir fs = (r, fs1)" by fastforce
  ultimately show ?thesis using mkdir_text [of q dir fs] by (cases r) (simp_all add: install_target_def)
qed

text \<open>C40: The installer touches no file but those of the skills it installs. However a run ends - stopped for its
  flags, failed half way or complete - every file has the text it had, is neither created nor removed,
  unless it lies in the folder \<open>wicked-bus-<skill>\<close> of one of the chosen targets, for a skill of the package.\<close>

theorem install_touches_its_skills_only:
  "file_text q (Some (snd (install home cwd package env args fs))) = file_text q (Some fs) \<or>
   (\<exists>ts skills. choose_targets home cwd env args fs = Inr ts \<and> subSkills (package @ [''skills'', ''wicked-bus'']) fs = Inr skills \<and>
     (\<exists>t\<in>set ts. \<exists>skill\<in>set skills. prefix (tg_dir t @ [namespacedSkillName skill]) q))"
proof -
  let ?src = "package @ [''skills'', ''wicked-bus'']"
  have "file_text q (Some (snd (run_all (\<lambda>t. install_target ?src skills (tg_dir t)) ts fs))) = file_text q (Some fs)"
    if "\<not> (\<exists>t\<in>set ts. \<exists>skill\<in>set skills. prefix (tg_dir t @ [namespacedSkillName skill]) q)" for ts skills
    by (rule run_all_keeps [where P = "\<lambda>fs'. file_text q (Some fs') = file_text q (Some fs)"])
      (use install_target_text that in auto)
  note run = this
  show ?thesis
  proof (cases "choose_targets home cwd env args fs")
    case (Inr ts)
    note ts = Inr
    show ?thesis
    proof (cases "subSkills ?src fs")
      case (Inr skills)
      obtain r fs1 where c: "run_all (\<lambda>t. install_target ?src skills (tg_dir t)) ts fs = (r, fs1)" by fastforce
      then have i: "snd (install home cwd package env args fs) = fs1" using ts Inr by (cases r) (simp_all add: install_def)
      from run [of ts skills] c ts Inr show ?thesis unfolding i by auto
    qed (simp add: install_def ts)
  qed (simp add: install_def)
qed
section \<open>What an installation delivers\<close>

text \<open>Names in a folder are distinct.\<close>

fun wf_node :: "node \<Rightarrow> bool" where
  "wf_node (File t) \<longleftrightarrow> True"
| "wf_node (Folder es) \<longleftrightarrow> distinct (map fst es) \<and> (\<forall>x\<in>set es. wf_node (snd x))"

lemma copy_entries_other:
  "copy_entries es ds = (None, ds') \<Longrightarrow> x \<notin> fst ` set es \<Longrightarrow> map_of ds' x = map_of ds x"
proof (induction es arbitrary: ds)
  case (Cons e es)
  obtain y n r m where e: "e = (y, n)" "copy_onto n (map_of ds y) = (r, m)" by (metis surj_pair)
  with Cons show ?case by (cases r) (simp_all add: update_conv')
qed simp

lemma copy_delivers:
  "wf_node n \<Longrightarrow> copy_onto n d = (None, m) \<Longrightarrow> file_text q (Some n) = Some t \<Longrightarrow> file_text q (Some m) = Some t"
  "distinct (map fst es) \<Longrightarrow> \<forall>x\<in>set es. wf_node (snd x) \<Longrightarrow> copy_entries es ds = (None, ds') \<Longrightarrow> map_of es x = Some n' \<Longrightarrow>
    file_text q (Some n') = Some t \<Longrightarrow> file_text q (map_of ds' x) = Some t"
proof (induction n d and es ds arbitrary: m q t and ds' x n' q t rule: copy_onto_copy_entries.induct)
  case (1 s d)
  then show ?case by (auto split: option.splits node.splits)
next
  case (2 es d)
  have w: "distinct (map fst es)" "\<forall>x\<in>set es. wf_node (snd x)" using 2(3) by simp_all
  obtain x q' where q: "q = x # q'" using 2(5) by (cases q) (simp_all)
  then obtain n' where n': "map_of es x = Some n'" "file_text q' (Some n') = Some t"
    using 2(5) by (cases "map_of es x") simp_all
  show ?case
  proof (cases d)
    case None
    obtain ds' where c: "copy_entries es [] = (None, ds')" "m = Folder ds'"
      using 2(4) None by (auto split: prod.splits)
    from 2(1) [OF None w c(1) n'] show ?thesis by (simp add: q c(2))
  next
    case (Some dn)
    then obtain ds where ds: "dn = Folder ds" using 2(4) by (cases dn) simp_all
    obtain ds' where c: "copy_entries es ds = (None, ds')" "m = Folder ds'"
      using 2(4) Some ds by (auto split: prod.splits)
    from 2(2) [OF Some ds w c(1) n'] show ?thesis by (simp add: q c(2))
  qed
next
  case (4 y n es ds)
  obtain r m where c: "copy_onto n (map_of ds y) = (r, m)" by fastforce
  with 4(5) have r: "r = None" by (cases r) simp_all
  with c 4(5) have rest: "copy_entries es (AList.update y m ds) = (None, ds')" by simp
  have w: "distinct (map fst es)" "\<forall>x\<in>set es. wf_node (snd x)" "y \<notin> fst ` set es" "wf_node n" using 4(3,4) by auto
  show ?case
  proof (cases "x = y")
    case True
    with 4(6) have n: "n' = n" by simp
    from copy_entries_other [OF rest w(3)] have "map_of ds' x = Some m" by (simp add: True update_conv')
    with 4(1) [OF w(4) c [unfolded r] 4(7) [unfolded n]] show ?thesis by simp
  next
    case False
    with 4(6) have "map_of es x = Some n'" by simp
    from 4(2) [OF c [unfolded r, symmetric] refl w(1,2) rest this 4(7)] show ?thesis by simp
  qed
qed simp

lemma alter_ok:
  "alter p f d = (None, m) \<Longrightarrow> fst (f (node_at p d)) = None \<and> (\<forall>r. node_at (p @ r) (Some m) = node_at r (Some (snd (f (node_at p d)))))"
proof (induction p arbitrary: d m)
  case (Cons x p)
  show ?case
  proof (cases d)
    case None
    with Cons.prems obtain n where "alter p f None = (None, n)" "m = Folder [(x, n)]" by (auto split: prod.splits)
    with Cons.IH [of None n] None show ?thesis by simp
  next
    case (Some dn)
    then obtain es where es: "dn = Folder es" using Cons.prems by (cases dn) simp_all
    with Cons.prems Some obtain n where "alter p f (map_of es x) = (None, n)" "m = Folder (AList.update x n es)" by (auto split: prod.splits)
    with Cons.IH [of "map_of es x" n] Some es show ?thesis by (simp add: update_conv')
  qed
qed simp

lemma alter_other_node:
  "p \<parallel> q \<Longrightarrow> node_at q (Some (snd (alter p f d))) = node_at q d"
proof (induction p arbitrary: q d)
  case (Cons x p)
  then obtain y q' where q: "q = y # q'" by (cases q) simp_all
  with Cons.prems Cons.IH [of q'] show ?case
    by (auto simp: alter_snd update_conv' parallel_def simp del: alter.simps split: option.split node.split)
qed simp
text \<open>The skill folder of a target holds what the package holds, with the name stamped.\<close>

definition delivered :: "(string \<times> node) list \<Rightarrow> path \<times> string \<Rightarrow> node \<Rightarrow> bool" where
  "delivered package x fs \<longleftrightarrow> (case x of (dir, skill) \<Rightarrow> \<forall>n q t. map_of package skill = Some n \<longrightarrow> file_text q (Some n) = Some t \<longrightarrow>
     file_text (dir @ [namespacedSkillName skill] @ q) (Some fs) =
       Some (if q = [''SKILL.md''] then stamp_text (namespacedSkillName skill) t else t))"

lemma node_at_append: "node_at (p @ q) d = node_at q (node_at p d)"
  by (induction p arbitrary: d) (auto split: option.split node.split)

lemma file_text_append: "file_text (p @ q) d = file_text q (node_at p d)"
  by (simp add: file_text_def node_at_append)

lemma parallel_skill:
  assumes "dir \<parallel> src"
  shows "dir @ [x] \<parallel> src @ y" and "dir @ [x] @ z \<parallel> src @ y"
  using assms by (simp_all add: parallel_append)

lemma writeFileSync_ok:
  assumes "writeFileSync p text fs = (None, fs')"
  shows "file_text p (Some fs') = Some text"
proof -
  from alter_ok [OF assms [unfolded writeFileSync_def]] have
    "\<forall>r. node_at (p @ r) (Some fs') = node_at r (Some (File text))" by (auto split: option.splits node.splits)
  then have "node_at (p @ []) (Some fs') = Some (File text)" by (metis node_at.simps(1))
  then show ?thesis by (simp add: file_text_def)
qed

lemma writeFileSync_other:
  assumes "writeFileSync p text fs = (r, fs')"
  shows "\<not> prefix p q \<Longrightarrow> file_text q (Some fs') = file_text q (Some fs)"
    and "p \<parallel> q \<Longrightarrow> node_at q (Some fs') = node_at q (Some fs)"
  using alter_other_text [of p q _ "Some fs"] alter_other_node [of p q _ "Some fs"] assms by (metis snd_conv writeFileSync_def)+

lemma stampSkillName_ok:
  assumes "stampSkillName dest new fs = (None, fs')"
  obtains "fs' = fs" "\<forall>t. file_text (dest @ [''SKILL.md'']) (Some fs) = Some t \<longrightarrow> stamp_text new t = t"
    | t where "node_at (dest @ [''SKILL.md'']) (Some fs) = Some (File t)"
      "writeFileSync (dest @ [''SKILL.md'']) (stamp_text new t) fs = (None, fs')"
proof (cases "node_at (dest @ [''SKILL.md'']) (Some fs)")
  case None
  with assms that(1) show ?thesis by (simp add: stampSkillName_def file_text_def)
next
  case (Some n)
  show ?thesis
  proof (cases n)
    case (File t)
    with Some assms that show ?thesis by (cases "stamp_text new t = t") (simp_all add: stampSkillName_def file_text_def)
  qed (use Some assms in \<open>simp add: stampSkillName_def\<close>)
qed

lemma install_skill_delivers:
  assumes ok: "install_skill src dir skill fs = (None, fs')" and S: "node_at src (Some fs) = Some (Folder S)" and par: "dir \<parallel> src"
    and wf: "wf_node (Folder S)"
  shows "delivered S (dir, skill) fs' \<and> node_at src (Some fs') = Some (Folder S)"
proof -
  let ?new = "namespacedSkillName skill" and ?md = "[''SKILL.md'']"
  let ?dest = "dir @ [?new]"
  obtain fs1 where cp: "cpSync (src @ [skill]) ?dest fs = (None, fs1)" and st: "stampSkillName ?dest ?new fs1 = (None, fs')"
    using ok by (auto simp: install_skill_def Let_def split: prod.splits option.splits)
  obtain n where n: "node_at (src @ [skill]) (Some fs) = Some n" and al: "alter ?dest (copy_onto n) (Some fs) = (None, fs1)"
    using cp by (auto simp: cpSync_def split: option.splits if_splits)
  have mn: "map_of S skill = Some n" using n S by (simp add: node_at_append split: option.splits node.splits)
  have wn: "wf_node n" using wf map_of_SomeD [OF mn] by auto
  obtain m where m: "copy_onto n (node_at ?dest (Some fs)) = (None, m)" "\<forall>r. node_at (?dest @ r) (Some fs1) = node_at r (Some m)"
    using alter_ok [OF al] by (metis prod.collapse)
  have d1: "file_text (?dest @ q) (Some fs1) = Some t" if "file_text q (Some n) = Some t" for q t
    using copy_delivers(1) [OF wn m(1) that] m(2) by (simp add: file_text_def)
  have src1: "node_at src (Some fs1) = Some (Folder S)"
    using alter_other_node [of ?dest src "copy_onto n" "Some fs"] parallel_skill(1) [OF par, of _ "[]"] al S by simp
  have wm: "(node_at src (Some fs') = Some (Folder S) \<and> (\<forall>q. q \<noteq> ?md \<longrightarrow> file_text (?dest @ q) (Some fs1) \<noteq> None \<longrightarrow>
      file_text (?dest @ q) (Some fs') = file_text (?dest @ q) (Some fs1))) \<and>
    (\<forall>t. file_text (?dest @ ?md) (Some fs1) = Some t \<longrightarrow> file_text (?dest @ ?md) (Some fs') = Some (stamp_text ?new t))"
  proof -
    consider "fs' = fs1" "\<forall>t. file_text (?dest @ ?md) (Some fs1) = Some t \<longrightarrow> stamp_text ?new t = t"
      | t where "node_at (?dest @ ?md) (Some fs1) = Some (File t)" "writeFileSync (?dest @ ?md) (stamp_text ?new t) fs1 = (None, fs')"
      by (rule stampSkillName_ok [OF st])
    then show ?thesis
    proof cases
      case (2 t)
      have other: "file_text (?dest @ q) (Some fs') = file_text (?dest @ q) (Some fs1)" if "q \<noteq> ?md" "file_text (?dest @ q) (Some fs1) \<noteq> None" for q
      proof -
        have "\<not> prefix (?dest @ ?md) (?dest @ q)"
        proof
          assume "prefix (?dest @ ?md) (?dest @ q)"
          then obtain z where z: "q = ''SKILL.md'' # z" by (auto simp: prefix_def)
          with that(1) have "z \<noteq> []" by simp
          then have "file_text (?dest @ q) (Some fs1) = None"
            using 2(1) file_text_append [of "?dest @ ?md" z "Some fs1"] by (cases z) (simp_all add: z)
          with that(2) show False by simp
        qed
        from writeFileSync_other(1) [OF 2(2) this] show ?thesis .
      qed
      have "node_at src (Some fs') = node_at src (Some fs1)"
        by (rule writeFileSync_other(2) [OF 2(2)]) (use parallel_skill(2) [OF par, of ?new ?md "[]"] in simp)
      moreover have "file_text (?dest @ ?md) (Some fs1) = Some t" using 2(1) by (simp add: file_text_def)
      moreover note writeFileSync_ok [OF 2(2)]
      ultimately show ?thesis using other src1 by (metis option.inject)
    qed (use src1 in simp)
  qed
  note wr = conjunct1 [OF wm] and md = conjunct2 [OF wm]
  have "file_text (?dest @ q) (Some fs') = Some (if q = ?md then stamp_text ?new t else t)" if "file_text q (Some n) = Some t" for q t
    using wr md d1 [OF that] by (cases "q = ?md") auto
  with mn wr show ?thesis by (auto simp: delivered_def)
qed
lemma run_all_establishes:
  assumes "run_all f xs fs = (None, fs')" and "I fs"
    and "\<And>x fs fs'. x \<in> set xs \<Longrightarrow> I fs \<Longrightarrow> f x fs = (None, fs') \<Longrightarrow>
      I fs' \<and> (\<forall>y\<in>G x. Q y fs') \<and> (\<forall>y\<in>K. Q y fs \<longrightarrow> Q y fs')"
    and "\<forall>x\<in>set xs. G x \<subseteq> K"
  shows "I fs' \<and> (\<forall>x\<in>set xs. \<forall>y\<in>G x. Q y fs') \<and> (\<forall>y\<in>K. Q y fs \<longrightarrow> Q y fs')"
  using assms
proof (induction xs arbitrary: fs)
  case (Cons x xs)
  obtain fs1 where f: "f x fs = (None, fs1)" and r: "run_all f xs fs1 = (None, fs')"
    using Cons.prems(1) by (auto split: prod.splits option.splits)
  have 1: "I fs1 \<and> (\<forall>y\<in>G x. Q y fs1) \<and> (\<forall>y\<in>K. Q y fs \<longrightarrow> Q y fs1)" using Cons.prems(3) [OF _ Cons.prems(2) f] by simp
  have "I fs' \<and> (\<forall>x\<in>set xs. \<forall>y\<in>G x. Q y fs') \<and> (\<forall>y\<in>K. Q y fs1 \<longrightarrow> Q y fs')"
  proof (rule Cons.IH [OF r])
    show "I fs' \<and> (\<forall>y\<in>G x. Q y fs') \<and> (\<forall>y\<in>K. Q y fs \<longrightarrow> Q y fs')" if "x \<in> set xs" "I fs" "f x fs = (None, fs')" for x fs fs'
      by (rule Cons.prems(3)) (use that in simp_all)
  qed (use 1 Cons.prems(4) in simp_all)
  with 1 Cons.prems(4) show ?case by (auto 0 3)
qed simp

lemma delivered_cong:
  assumes "\<And>q. file_text (dir @ [namespacedSkillName skill] @ q) (Some fs') = file_text (dir @ [namespacedSkillName skill] @ q) (Some fs)"
  shows "delivered S (dir, skill) fs \<Longrightarrow> delivered S (dir, skill) fs'"
  using assms by (simp add: delivered_def)

lemma install_skill_keeps:
  assumes ok: "install_skill src dir skill fs = (None, fs')" and S: "node_at src (Some fs) = Some (Folder S)" and par: "dir \<parallel> src"
    and wf: "wf_node (Folder S)" and d: "dir = dir' \<or> dir \<parallel> dir'" and del: "delivered S (dir', skill') fs"
  shows "delivered S (dir', skill') fs'"
proof (cases "(dir, skill) = (dir', skill')")
  case True
  with install_skill_delivers [OF ok S par wf] show ?thesis by simp
next
  case False
  let ?a = "dir @ [namespacedSkillName skill]" and ?b = "dir' @ [namespacedSkillName skill']"
  have "?a \<parallel> ?b"
  proof (cases "dir = dir'")
    case True
    with False show ?thesis by (simp add: namespacedSkillName_def parallel_def)
  qed (use d in \<open>simp add: parallel_append\<close>)
  then have "\<not> prefix ?a (?b @ q)" for q using parallel_append [of ?a ?b "[]" q] by (simp add: parallel_def)
  from install_skill_text [OF this] ok show ?thesis by (intro delivered_cong [OF _ del]) (metis append.assoc snd_conv)
qed

lemma install_target_delivers:
  assumes ok: "install_target src skills dir fs = (None, fs')" and S: "node_at src (Some fs) = Some (Folder S)" and wf: "wf_node (Folder S)"
    and dirs: "dir \<in> dirs" "\<forall>d\<in>dirs. d \<parallel> src" "\<forall>d\<in>dirs. \<forall>d'\<in>dirs. d = d' \<or> d \<parallel> d'"
  shows "node_at src (Some fs') = Some (Folder S) \<and> (\<forall>y\<in>{dir} \<times> set skills. delivered S y fs') \<and>
    (\<forall>y\<in>dirs \<times> set skills. delivered S y fs \<longrightarrow> delivered S y fs')"
proof -
  obtain fs1 where mk: "mkdirSync dir fs = (None, fs1)" and r: "run_all (install_skill src dir) skills fs1 = (None, fs')"
    using ok by (auto simp: install_target_def split: prod.splits option.splits)
  have S1: "node_at src (Some fs1) = Some (Folder S)"
    using alter_other_node [of dir src _ "Some fs"] dirs(1,2) mk S by (metis mkdirSync_def snd_conv)
  have keep: "delivered S y fs1" if "delivered S y fs" for y
    using that mkdir_text [of _ dir fs] mk by (cases y) (metis delivered_cong snd_conv)
  have "node_at src (Some fs') = Some (Folder S) \<and> (\<forall>x\<in>set skills. \<forall>y\<in>{(dir, x)}. delivered S y fs') \<and>
    (\<forall>y\<in>dirs \<times> set skills. delivered S y fs1 \<longrightarrow> delivered S y fs')"
  proof (rule run_all_establishes [OF r, where I = "\<lambda>fs. node_at src (Some fs) = Some (Folder S)"])
    fix x fsa fsb
    assume x: "x \<in> set skills" and Sa: "node_at src (Some fsa) = Some (Folder S)" and i: "install_skill src dir x fsa = (None, fsb)"
    have p: "dir \<parallel> src" using dirs by blast
    from install_skill_delivers [OF i Sa p wf] install_skill_keeps [OF i Sa p wf] dirs show
      "node_at src (Some fsb) = Some (Folder S) \<and> (\<forall>y\<in>{(dir, x)}. delivered S y fsb) \<and> (\<forall>y\<in>dirs \<times> set skills. delivered S y fsa \<longrightarrow> delivered S y fsb)"
      by blast
  qed (use S1 dirs(1) in auto)
  with keep show ?thesis by blast
qed

text \<open>C39: A complete installation delivers the skills. When the installer reports success, every file of every skill of the
  package (but those whose name starts with a dot) is in the folder \<open>wicked-bus-<skill>\<close> of every chosen target with
  its text, \<open>SKILL.md\<close> with its name stamped - given that no target lies above or below the package's skills or
  another target.\<close>

theorem install_delivers_skills:
  assumes "install home cwd package env args fs = (InstalledFor names, fs')" and "choose_targets home cwd env args fs = Inr ts"
    and "node_at (package @ [''skills'', ''wicked-bus'']) (Some fs) = Some (Folder S)" and "wf_node (Folder S)"
    and "\<forall>t\<in>set ts. tg_dir t \<parallel> package @ [''skills'', ''wicked-bus'']"
    and "\<forall>t\<in>set ts. \<forall>t'\<in>set ts. tg_dir t = tg_dir t' \<or> tg_dir t \<parallel> tg_dir t'"
    and "t \<in> set ts" and "(skill, n) \<in> set S" and "\<not> prefix ''.'' skill" and "file_text q (Some n) = Some x"
  shows "file_text (tg_dir t @ [namespacedSkillName skill] @ q) (Some fs') =
    Some (if q = [''SKILL.md''] then stamp_text (namespacedSkillName skill) x else x)"
proof -
  let ?src = "package @ [''skills'', ''wicked-bus'']" and ?dirs = "tg_dir ` set ts"
  let ?skills = "filter (\<lambda>d. \<not> prefix ''.'' d) (map fst S)"
  have r: "run_all (\<lambda>t. install_target ?src ?skills (tg_dir t)) ts fs = (None, fs')"
    using assms(1-3) by (auto simp: install_def subSkills_def split: prod.splits option.splits)
  have "node_at ?src (Some fs') = Some (Folder S) \<and> (\<forall>t\<in>set ts. \<forall>y\<in>{tg_dir t} \<times> set ?skills. delivered S y fs') \<and>
    (\<forall>y\<in>?dirs \<times> set ?skills. delivered S y fs \<longrightarrow> delivered S y fs')"
  proof (rule run_all_establishes [OF r, where I = "\<lambda>fs. node_at ?src (Some fs) = Some (Folder S)"])
    fix t fsa fsb
    assume "t \<in> set ts" and Sa: "node_at ?src (Some fsa) = Some (Folder S)" and i: "install_target ?src ?skills (tg_dir t) fsa = (None, fsb)"
    then have t: "tg_dir t \<in> ?dirs" by blast
    show "node_at ?src (Some fsb) = Some (Folder S) \<and> (\<forall>y\<in>{tg_dir t} \<times> set ?skills. delivered S y fsb) \<and>
      (\<forall>y\<in>?dirs \<times> set ?skills. delivered S y fsa \<longrightarrow> delivered S y fsb)"
      by (rule install_target_delivers [OF i Sa assms(4) t]) (use assms(5,6) in auto)
  qed (use assms(3) in auto)
  moreover have "skill \<in> set ?skills" using assms(8,9) by force
  ultimately have "delivered S (tg_dir t, skill) fs'" using assms(7) by blast
  moreover have "map_of S skill = Some n" using assms(4,8) by simp
  ultimately show ?thesis using assms(10) by (simp add: delivered_def)
qed
section \<open>Flags and examples\<close>

text \<open>Both forms of a flag mean the same.\<close>

lemma flag_forms_agree:
  assumes "\<forall>a\<in>set before. a \<noteq> ''--'' @ name \<and> \<not> prefix (''--'' @ name @ ''='') a" and "CHR ''='' \<notin> set name"
    and "v \<noteq> []" and "\<not> prefix ''-'' v"
  shows "flagValue (before @ [''--'' @ name @ ''='' @ v] @ after) name = flagValue (before @ [''--'' @ name, v] @ after) name"
proof -
  let ?P = "\<lambda>a. a = ''--'' @ name \<or> prefix (''--'' @ name @ ''='') a"
  have n: "find ?P before = None" using assms(1) by (auto simp: find_None_iff)
  have s1: "snd (split_at_char (CHR ''='') (''--'' @ name @ ''='' @ v)) = Some v"
  proof -
    have "dropWhile (\<lambda>x. x \<noteq> CHR ''='') (name @ CHR ''='' # v) = CHR ''='' # v" using assms(2) by (induction name) auto
    then show ?thesis by (simp add: split_at_char_def)
  qed
  have s2: "snd (split_at_char (CHR ''='') (''--'' @ name)) = None"
  proof -
    have "CHR ''='' \<in> set (''--'' @ name)" if "snd (split_at_char (CHR ''='') (''--'' @ name)) = Some r" for r
      by (subst split_at_char_Some [OF that]) simp
    then show ?thesis using assms(2) by (cases "snd (split_at_char (CHR ''='') (''--'' @ name))") auto
  qed
  have d: "dropWhile (\<lambda>a. a \<noteq> ''--'' @ name) (before @ [''--'' @ name, v] @ after) = (''--'' @ name) # v # after"
    using dropWhile_append2 [of before "\<lambda>a. a \<noteq> ''--'' @ name" "[''--'' @ name, v] @ after"] assms(1) by auto
  have f1: "find ?P (before @ [''--'' @ name @ ''='' @ v] @ after) = Some (''--'' @ name @ ''='' @ v)" unfolding find_append n option.case by simp
  have f2: "find ?P (before @ [''--'' @ name, v] @ after) = Some (''--'' @ name)" unfolding find_append n option.case by simp
  show ?thesis unfolding flagValue_def f1 f2 option.case s1 s2 d using assms(3,4) by simp
qed

definition demo_skill :: string where
  "demo_skill = ''---'' @ [CHR 0x0A] @ ''name: emit'' @ [CHR 0x0A] @ ''---'' @ [CHR 0x0A] @ ''name: x''"

definition demo_files :: node where
  "demo_files = Folder
     [(''h'', Folder [(''.claude'', Folder [(''settings.json'', File ''{}'')]), (''.codex'', Folder [])]),
      (''p'', Folder [(''skills'', Folder [(''wicked-bus'', Folder [(''emit'', Folder [(''SKILL.md'', File demo_skill)])])])])]"

definition demo_install :: "string list \<Rightarrow> install_result \<times> node" where
  "demo_install args = install [''h''] [] [''p''] None args demo_files"

definition demo_md :: "path \<Rightarrow> path" where
  "demo_md dir = [''h''] @ dir @ [''skills'', ''wicked-bus-emit'', ''SKILL.md'']"

lemma install_delivers_skills_witness:
  "\<exists>fs'. demo_install [] = (InstalledFor [''claude'', ''codex''], fs') \<and>
     file_text (demo_md [''.codex'']) (Some fs') = Some (stamp_text ''wicked-bus-emit'' demo_skill)"
proof -
  let ?ts = "[buildClaudeTarget [''h'', ''.claude''] False, \<lparr>tg_name = ''codex'', tg_root = None, tg_dir = [''h'', ''.codex'', ''skills''], tg_trusted = False\<rparr>]"
  let ?n = "Folder [(''SKILL.md'', File demo_skill)]"
  have "fst (demo_install []) = InstalledFor [''claude'', ''codex'']" by code_simp
  then obtain fs' where i: "demo_install [] = (InstalledFor [''claude'', ''codex''], fs')" by (metis prod.collapse)
  have ts: "choose_targets [''h''] [] None [] demo_files = Inr ?ts" by code_simp
  have S: "node_at ([''p''] @ [''skills'', ''wicked-bus'']) (Some demo_files) = Some (Folder [(''emit'', ?n)])" by (simp add: demo_files_def)
  have t: "\<forall>t\<in>set ?ts. tg_dir t \<parallel> [''p''] @ [''skills'', ''wicked-bus'']"
    "\<forall>t\<in>set ?ts. \<forall>t'\<in>set ?ts. tg_dir t = tg_dir t' \<or> tg_dir t \<parallel> tg_dir t'"
    by (simp_all add: buildClaudeTarget_def parallel_def)
  from install_delivers_skills [OF i [unfolded demo_install_def] ts S _ t, of "?ts ! 1" "''emit''" ?n "[''SKILL.md'']" demo_skill]
  have "file_text (demo_md [''.codex'']) (Some fs') = Some (stamp_text ''wicked-bus-emit'' demo_skill)"
    by (simp add: demo_md_def namespacedSkillName_def file_text_def [of "[]"])
  with i show ?thesis by blast
qed

lemma stamp_changes_the_name_only_witness:
  "stamp_text ''wicked-bus-emit'' (stamp_text ''wicked-bus-emit'' demo_skill) = stamp_text ''wicked-bus-emit'' demo_skill \<and>
   stamp_text ''wicked-bus-emit'' demo_skill =
     ''---'' @ [CHR 0x0A] @ ''name: wicked-bus-emit'' @ [CHR 0x0A] @ ''---'' @ [CHR 0x0A] @ ''name: x''"
proof -
  have "good_name ''wicked-bus-emit''" by (simp add: good_name_def is_eol_def)
  from stamp_changes_the_name_only [OF this, of demo_skill]
  have 1: "stamp_text ''wicked-bus-emit'' (stamp_text ''wicked-bus-emit'' demo_skill) = stamp_text ''wicked-bus-emit'' demo_skill" by blast
  have 2: "stamp_text ''wicked-bus-emit'' demo_skill =
     ''---'' @ [CHR 0x0A] @ ''name: wicked-bus-emit'' @ [CHR 0x0A] @ ''---'' @ [CHR 0x0A] @ ''name: x''" by code_simp
  show ?thesis using 1 2 by (intro conjI)
qed

text \<open>A name that no program has is accepted: nothing is installed and success is reported; and \<open>--cli false\<close> installs for all.\<close>

lemma unknown_cli_succeeds: "demo_install [''--cli=claud''] = (InstalledFor [], demo_files)"
  by code_simp

lemma cli_false_installs_for_all: "fst (demo_install [''--cli'', ''false'']) = InstalledFor [''claude'', ''codex'']"
  by code_simp

end
