(* ===== verification/Spec2Isabelle.thy ===== *)
theory Spec2Isabelle
  imports BusReader BusTimers BusStream BusSidecar BusPush BusSocket BusPipeline BusUiCli BusDaemonCli BusCommands BusInstall
begin

text \<open>
  Verification development for wicked-bus, a local event bus: a SQLite database that producers append
  events to and subscribers read through durable cursors, with a retention sweep, a warm tier of
  monthly bucket files, a content store for large payloads, an optional push daemon and a command line.

  \<^bold>\<open>Parts and how they interact.\<close> Every process opens the same database. \<open>emit()\<close> validates an event,
  applies the schema registry's size policy (which may move the payload to the content store) and
  inserts a row under a unique idempotency key. A subscriber registers a subscription with a cursor;
  \<open>poll()\<close> returns the rows above the cursor that match its filter, \<open>ack()\<close> moves the cursor. On top of
  these run the managed loop \<open>subscribe()\<close> (at least once, retries, dead letters), the generator
  \<open>subscribePushOrPoll()\<close> (at most once, over the daemon's socket when it is there), and the command
  \<open>subscribe\<close> (streaming or drain). The sweep deletes or archives expired rows; what an active cursor
  still owes is treated by the configured policy. \<open>pollResolve()\<close> reads live and warm tiers together.

  \<^bold>\<open>Theories and sources.\<close> In import order; the names of definitions are those of the code.
  \<^item> \<open>BusPrelude\<close>: \<open>named_theorems\<close>, lists, options, character classes, decimal text, trimming.
  \<^item> \<open>BusValues\<close>: JavaScript values and numbers, the runtime functions taken as a parameter (\<open>host\<close>), and
    \<open>lib/errors.js\<close>.
  \<^item> \<open>BusValidate\<close>, \<open>BusFilter\<close>: \<open>lib/validate.js\<close>; \<open>matchesFilter\<close> and \<open>buildFilterSql\<close> of \<open>lib/poll.js\<close>.
  \<^item> \<open>BusDb\<close>, \<open>BusMigrate\<close>: the tables of \<open>lib/schema.sql\<close> as lists of rows (a \<open>bus\<close>) with their invariant
    \<open>bus_wf\<close>; the catalog, \<open>lib/migrate.js\<close> and \<open>lib/db.js\<close>.
  \<^item> \<open>BusPoll\<close>, \<open>BusRegister\<close>: \<open>poll\<close>, \<open>ack\<close>, \<open>reanchorCursor\<close>; \<open>lib/register.js\<close>.
  \<^item> \<open>BusArchive\<close>, \<open>BusQuery\<close>: the bucket files of \<open>lib/archive.js\<close>; \<open>lib/query.js\<close>.
  \<^item> \<open>BusRetention\<close>, \<open>BusSweep\<close>, \<open>BusSweepV2\<close>: \<open>lib/retention.js\<close>, \<open>lib/sweep.js\<close>, \<open>lib/sweep-v2.js\<close>.
  \<^item> \<open>BusCalendar\<close>, \<open>BusTiers\<close>, \<open>BusReader\<close>: the order of months and bucket names; the invariant of the two tiers
    under sweeps; producers, sweeps and a reader of both tiers together.
  \<^item> \<open>BusCas\<close>: \<open>lib/cas.js\<close> and \<open>lib/atomic.js\<close>. \<open>BusRegistry\<close>: \<open>lib/schema-registry.js\<close>.
  \<^item> \<open>BusCausality\<close>, \<open>BusEmit\<close>: \<open>lib/causality.js\<close>, \<open>lib/emit.js\<close>. \<open>BusDlq\<close>: \<open>lib/dlq.js\<close>.
  \<^item> \<open>BusSubscribe\<close>, \<open>BusTimers\<close>, \<open>BusWorld\<close>, \<open>BusDelivery\<close>, \<open>BusStart\<close>: \<open>lib/subscribe.js\<close> as a step function on a
    program counter; its timer variables; the steps of other processes; the system of both; the entry point.
  \<^item> \<open>BusIpc\<close>, \<open>BusDaemon\<close>, \<open>BusSocket\<close>, \<open>BusPush\<close>: \<open>lib/ipc-protocol.js\<close>; sessions, fan-out and connections of
    \<open>lib/daemon.js\<close>; its socket path; \<open>lib/daemon-notify.js\<close>, \<open>lib/daemon-client.js\<close> and
    \<open>lib/subscribe-push-or-poll.js\<close>.
  \<^item> \<open>BusLock\<close>, \<open>BusDaemonCli\<close>: \<open>lib/daemon-singleton.js\<close>, one system call per step; \<open>commands/cmd-daemon.js\<close>.
  \<^item> \<open>BusDrain\<close>, \<open>BusStream\<close>, \<open>BusPipeline\<close>: \<open>commands/cmd-subscribe.js\<close>, its drain mode and the streaming process
    with its intervals; a producer and a drain together.
  \<^item> \<open>BusConfig\<close>: \<open>lib/config.js\<close>, \<open>lib/paths.js\<close>, \<open>lib/checkpoint.js\<close>.
  \<^item> \<open>BusCli\<close>, \<open>BusCommands\<close>: \<open>commands/cli.js\<close> and the other commands.
  \<^item> \<open>BusUi\<close>, \<open>BusUiCli\<close>: \<open>lib/ui-server.js\<close>, \<open>commands/cmd-ui.js\<close>.
  \<^item> \<open>BusSidecar\<close>: the sidecars of \<open>examples/crew-sidecars\<close>, clients with a state file of their own.
  \<^item> \<open>BusInstall\<close>: \<open>install.mjs\<close> on a tree of files.

  \<^bold>\<open>How the model reads.\<close> A statement of the database is a function from \<open>bus\<close> to a result and a \<open>bus\<close>; a
  thrown error is \<open>Inl\<close> of a \<open>js_error\<close>, and every raise of the code is a branch. Clocks, random
  identifiers, handler outcomes, failing statements and what other processes commit in between are
  arguments. Numbers are rationals (doubles without rounding) with the three non-finite ones; event
  ids are unbounded integers. Where the code hashes with 64-bit arithmetic (\<open>fnv1a\<close>) the width is kept.

  \<^bold>\<open>What is proved.\<close> The invariant \<open>bus_wf\<close> is kept by every operation (collection \<open>wf_intros\<close>). Emits
  append one row, of which all that the event determines is stated, or change nothing, and refuse a key inside its window. Polls return the oldest pending
  events; batches read one after the other are complete (locale \<open>event_source\<close>, interpreted by \<open>poll\<close>
  and by the viewer's pages). The sweep refines its policy; nothing owed is lost by either tier.
  Delivery by \<open>subscribe()\<close> is at least once in every interleaving with crashes and other processes, by an
  invariant on the program counter (\<open>pc_ok\<close>, \<open>delivering\<close>); a healthy loop delivers everything; an event
  whose handler throws readable errors is dead-lettered after its retries (one that throws \<open>null\<close> is not). The
  timer variables of the code allow exactly these steps until a lag report throws, which ends the process,
  and \<open>stop()\<close> ends the loop within ten of them, with no timer left. A tiered sweep does not change what
  \<open>pollResolve()\<close> answers, and a reader that follows its answers misses no event (\<open>tiered\<close>), under the conditions below. While it
  polls, the push-or-poll generator never hands out an acknowledged event again (one whose acknowledgement
  failed can come again). The frame parser does not depend on how a text is cut into strings, or between
  characters into Buffers; send queues are bounded. Garbage
  collection keeps referenced objects. A drain prints the backlog once and stops; a stream prints
  everything in order and ends only when told to. The sidecars miss nothing but the keys their file counts as
  handled, and call their handler once per key unless a crash or a throw separates the call from its mark. The
  installer delivers every skill to every target and touches no other file. Opening a database is idempotent; a loaded configuration can be used by the timers and the sweep; a lock that has been
  established stays exclusive; the viewer discloses nothing without its token.

  \<^bold>\<open>Under which conditions.\<close> \<open>other_step\<close> and \<open>world_step\<close>, the steps of other processes around a subscriber, a
  stream or a sidecar, leave out what breaks delivery by design: sweeps under the policy \<open>discard\<close>, and
  acknowledgments, re-anchorings, \<open>wicked-bus replay\<close> and deregistration of the very cursor or subscription.
  \<open>tier_step\<close> and the theorems on both tiers assume one time to live, a clock that does not go back, sweeps
  that run alone, under another policy than \<open>discard\<close>, and hold nothing back, and at most 123 buckets; \<open>BusTiers\<close>
  and the findings show what a reader misses otherwise. \<open>polling_step\<close> lets no other connection move the cursor.

  \<^bold>\<open>Interfaces.\<close> \<open>event_source\<close> and \<open>cursor_store\<close> (\<open>BusPoll\<close>), \<open>retry_ledger\<close> (\<open>BusSubscribe\<close>), \<open>content_store\<close>
  (\<open>BusCas\<close>), \<open>session_step\<close> (\<open>BusDaemon\<close>) and \<open>sidecar_handler\<close> (\<open>BusSidecar\<close>)
  are locales, each interpreted on the model's definitions.

  \<^bold>\<open>Bounds and fuel.\<close> Loops of the code are structural recursions or carry a termination proof. A loop that
  the environment keeps going (drain, stream, waiting) consumes a list of its rounds, and \<open>None\<close> means that
  the list is used up; \<open>drain_delivers_backlog\<close> shows that two rounds more than there are pending events
  are enough, \<open>wait_ends\<close> and \<open>wait_until_ends\<close> that a round after the deadline is. \<open>acquire_alone\<close> takes six
  system calls: two rounds of the lock loop.

  \<^bold>\<open>Not modelled.\<close> SQLite itself beyond the statements the code runs, file system calls other than those
  named above, JSON text, URL parsing and SHA-256 (parameters), the printed messages, \<open>PRAGMA\<close>s, the
  listening sockets, spawning and signals as such (their outcome is an argument), the intervals of
  sweep and checkpoint other than their length, the re-exports of \<open>lib/index.js\<close>,
  \<open>scripts/postinstall.js\<close>, the type declarations, and the script \<open>smoke.js\<close> and the
  timers of the sidecars: they are packaging or tests and keep no state of the bus.

  \<^bold>\<open>Simplified.\<close> \<open>insertBatchIntoBucket\<close> is one step, though rows and \<open>_meta\<close> are two transactions of the code: a
  crash between them leaves counts behind the rows. \<open>baseline\<close> takes \<open>CREATE INDEX\<close> to succeed, which needs that
  an existing table of the same name has the indexed columns. \<open>dl_sha\<close> reads a payload as \<open>JSON.parse\<close> does,
  where SQLite's \<open>json_extract\<close> differs for duplicate keys. Sweep and cleanup take the time as an argument;
  \<open>config.now\<close>, a test override that replaces it in a sweep but not in a dry run, is not modelled. Strings are
  code units below 256.
\<close>

end
